(* ===== verification/Prelude.thy ===== *)
theory Prelude
  imports Main "HOL-Library.Monad_Syntax"
begin

text \<open>
  Shared vocabulary of the development: the type of half-open index ranges, the failing
  assertion \<open>REALM_ASSERT\<close> as a computation in the option monad, the collections of
  rewrite rules the component theories extend, and generic lemmas on lists, option and
  prefix/suffix splits.

  \<open>size_t\<close> is modelled by \<^typ>\<open>nat\<close>; where the code subtracts, the component theories
  prove that the subtrahend is not larger, so that the unsigned arithmetic of the source
  does not wrap as long as all indices are representable.  \<open>ptrdiff_t\<close> is \<^typ>\<open>int\<close>.
\<close>

named_theorems iter_simps \<open>moving and reading iterators of a chunked range vector\<close>
named_theorems flat_simps \<open>effect of vector operations on the flattened list of ranges\<close>
named_theorems crv_intros \<open>preservation of the chunk bookkeeping invariant\<close>

type_synonym range = "nat \<times> nat"

text \<open>The largest \<open>size_t\<close> on the 64-bit targets; the source writes it \<open>npos\<close> or \<open>-1\<close>.\<close>

definition npos :: nat where
  "npos = 2 ^ 64 - 1"

text \<open>\<open>REALM_ASSERT\<close> terminates the process when its condition is false: \<open>None\<close>.\<close>

definition realm_assert :: "bool \<Rightarrow> unit option" where
  "realm_assert b = (if b then Some () else None)"

lemma realm_assert_simps [simp]:
  "realm_assert True = Some ()"
  "realm_assert False = None"
  by (simp_all add: realm_assert_def)

lemma realm_assert_bind: "b \<Longrightarrow> (realm_assert b \<bind> f) = f ()"
  by (simp add: realm_assert_def)

lemma bind_eq_Some_conv:
  "(m \<bind> f = Some y) \<longleftrightarrow> (\<exists>x. m = Some x \<and> f x = Some y)"
  by (cases m) auto

subsection \<open>A loop whose body may fail an assertion\<close>

fun foldM :: "('a \<Rightarrow> 's \<Rightarrow> 's option) \<Rightarrow> 'a list \<Rightarrow> 's \<Rightarrow> 's option" where
  "foldM f [] s = Some s"
| "foldM f (x # xs) s = do { s' \<leftarrow> f x s; foldM f xs s' }"

lemma foldM_append: "foldM f (xs @ ys) s = do { s' \<leftarrow> foldM f xs s; foldM f ys s' }"
  by (induction xs arbitrary: s) (auto split: Option.bind_splits)

text \<open>
  Total correctness of such a loop: a body that succeeds and moves an invariant from the
  processed prefix to the next one makes the whole loop succeed.
\<close>

lemma foldM_invariant:
  assumes "I [] s"
    and "\<And>xs x ys t. zs = xs @ x # ys \<Longrightarrow> I xs t \<Longrightarrow> \<exists>t'. f x t = Some t' \<and> I (xs @ [x]) t'"
  shows "\<exists>t. foldM f zs s = Some t \<and> I zs t"
proof -
  have "\<exists>t. foldM f ys u = Some t \<and> I zs t" if "zs = xs @ ys" "I xs u" for xs ys u
    using that
  proof (induction ys arbitrary: xs u)
    case Nil
    then show ?case by simp
  next
    case (Cons y ys)
    from assms(2) [OF Cons.prems] obtain u' where "f y u = Some u'" "I (xs @ [y]) u'" by blast
    with Cons.IH [of "xs @ [y]" u'] Cons.prems(1) show ?case by simp
  qed
  from this [of "[]" zs s] assms(1) show ?thesis by simp
qed

text \<open>A test with a state (a cache) that answers \<open>R\<close> as long as its state satisfies \<open>S\<close>, which it keeps.\<close>

definition answers :: "('a \<Rightarrow> bool) \<Rightarrow> ('s \<Rightarrow> bool) \<Rightarrow> ('a \<Rightarrow> 's \<Rightarrow> (bool \<times> 's) option) \<Rightarrow> bool" where
  "answers R S f \<longleftrightarrow> (\<forall>x s. S s \<longrightarrow> (\<exists>s'. f x s = Some (R x, s') \<and> S s'))"

lemma pure_answers: "answers R (\<lambda>_. True) (\<lambda>x s. Some (R x, s))"
  by (simp add: answers_def)

subsection \<open>Lists\<close>

lemma take_Suc_drop_eq: "i < length xs \<Longrightarrow> xs = take i xs @ xs ! i # drop (Suc i) xs"
  by (simp add: Cons_nth_drop_Suc)

lemma split_at_length: "i \<le> length xs \<Longrightarrow> \<exists>as bs. xs = as @ bs \<and> length as = i"
  by (rule exI [of _ "take i xs"], rule exI [of _ "drop i xs"]) simp

lemma split_at_nth:
  "i < length xs \<Longrightarrow> \<exists>as x bs. xs = as @ x # bs \<and> length as = i"
  by (rule exI [of _ "take i xs"], rule exI [of _ "xs ! i"], rule exI [of _ "drop (Suc i) xs"])
    (simp add: Cons_nth_drop_Suc)

lemma length_takeWhile_split:
  assumes "\<forall>x \<in> set xs. P x" and "ys = [] \<or> \<not> P (hd ys)"
  shows "length (takeWhile P (xs @ ys)) = length xs"
  using assms by (cases ys) (auto simp: takeWhile_append2 takeWhile_eq_all_conv [THEN iffD2])

lemma length_takeWhile_less: "x \<in> set xs \<Longrightarrow> \<not> P x \<Longrightarrow> length (takeWhile P xs) < length xs"
  by (induction xs) auto

lemma length_filter_mono:
  "(\<And>x. x \<in> set xs \<Longrightarrow> P x \<Longrightarrow> Q x) \<Longrightarrow> length (filter P xs) \<le> length (filter Q xs)"
  by (induction xs) (auto simp: le_SucI)

lemma sum_list_take_le: "sum_list (take n xs) \<le> sum_list (xs :: nat list)"
  by (metis append_take_drop_id le_add1 sum_list_append)

end
