(* ===== verification/Ranges.thy ===== *)
theory Ranges
  imports Prelude
begin

text \<open>
  Abstract view of an index set: an increasing list of non-empty, non-adjacent half-open
  ranges, and the set of naturals it denotes.  The chunked vector of the source refines
  this list; the clients of \<open>IndexSet\<close> see the set.
\<close>

subsection \<open>Well-formed range lists\<close>

definition ranges_ok :: "range list \<Rightarrow> bool" where
  "ranges_ok rs \<longleftrightarrow> (\<forall>r \<in> set rs. fst r < snd r) \<and> sorted_wrt (\<lambda>r s. snd r < fst s) rs"

definition rset :: "range list \<Rightarrow> nat set" where
  "rset rs = (\<Union>r \<in> set rs. {fst r ..< snd r})"

definition rcount :: "range list \<Rightarrow> nat" where
  "rcount rs = sum_list (map (\<lambda>r. snd r - fst r) rs)"

definition ilist :: "range list \<Rightarrow> nat list" where
  "ilist rs = concat (map (\<lambda>r. [fst r ..< snd r]) rs)"

lemma ranges_ok_Nil [simp]: "ranges_ok []"
  by (simp add: ranges_ok_def)

lemma ranges_ok_Cons [simp]:
  "ranges_ok (r # rs) \<longleftrightarrow> fst r < snd r \<and> (\<forall>s \<in> set rs. snd r < fst s) \<and> ranges_ok rs"
  by (auto simp: ranges_ok_def)

lemma ranges_ok_append:
  "ranges_ok (xs @ ys) \<longleftrightarrow>
     ranges_ok xs \<and> ranges_ok ys \<and> (\<forall>x \<in> set xs. \<forall>y \<in> set ys. snd x < fst y)"
  by (auto simp: ranges_ok_def sorted_wrt_append)

lemma ranges_ok_nonempty: "ranges_ok rs \<Longrightarrow> r \<in> set rs \<Longrightarrow> fst r < snd r"
  by (simp add: ranges_ok_def)

lemma rset_Nil [simp]: "rset [] = {}"
  by (simp add: rset_def)

lemma rset_Cons [simp]: "rset (r # rs) = {fst r ..< snd r} \<union> rset rs"
  by (auto simp: rset_def)

lemma rset_append [simp]: "rset (xs @ ys) = rset xs \<union> rset ys"
  by (auto simp: rset_def)

lemma rset_iff: "x \<in> rset rs \<longleftrightarrow> (\<exists>r \<in> set rs. fst r \<le> x \<and> x < snd r)"
  by (auto simp: rset_def)

lemma finite_rset [simp]: "finite (rset rs)"
  by (simp add: rset_def)

lemma rset_eq_empty [simp]: "ranges_ok rs \<Longrightarrow> rset rs = {} \<longleftrightarrow> rs = []"
  by (cases rs) auto

lemma rcount_simps [simp]:
  "rcount [] = 0"
  "rcount (r # rs) = snd r - fst r + rcount rs"
  "rcount (xs @ ys) = rcount xs + rcount ys"
  by (simp_all add: rcount_def)

lemma ilist_simps [simp]:
  "ilist [] = []"
  "ilist (r # rs) = [fst r ..< snd r] @ ilist rs"
  "ilist (xs @ ys) = ilist xs @ ilist ys"
  by (simp_all add: ilist_def)

lemma set_ilist [simp]: "set (ilist rs) = rset rs"
  by (induction rs) auto

lemma length_ilist: "length (ilist rs) = rcount rs"
  by (induction rs) auto

subsection \<open>Position of an index\<close>

lemma rset_below: "(\<And>r. r \<in> set rs \<Longrightarrow> snd r \<le> i) \<Longrightarrow> x \<in> rset rs \<Longrightarrow> x < i"
  by (fastforce simp: rset_iff)

lemma rset_above: "(\<And>r. r \<in> set rs \<Longrightarrow> i \<le> fst r) \<Longrightarrow> x \<in> rset rs \<Longrightarrow> i \<le> x"
  by (fastforce simp: rset_iff)

lemma sorted_ilist: "ranges_ok rs \<Longrightarrow> sorted_wrt (<) (ilist rs)"
proof (induction rs)
  case (Cons r rs)
  then have "\<forall>x \<in> rset rs. snd r \<le> x"
    by (fastforce simp: rset_iff)
  with Cons show ?case
    by (fastforce simp: sorted_wrt_append)
qed simp

lemma ilist_eq_sorted_list_of_set:
  assumes "ranges_ok rs"
  shows "ilist rs = sorted_list_of_set (rset rs)"
proof -
  have "sorted (ilist rs)" "distinct (ilist rs)"
    using sorted_ilist [OF assms] by (auto simp: strict_sorted_iff)
  then show ?thesis
    by (metis set_ilist sorted_list_of_set.idem_if_sorted_distinct)
qed

lemma rcount_eq_card:
  assumes "ranges_ok rs"
  shows "rcount rs = card (rset rs)"
proof -
  have "distinct (ilist rs)"
    using sorted_ilist [OF assms] by (simp add: strict_sorted_iff)
  then show ?thesis
    by (metis distinct_card length_ilist set_ilist)
qed

text \<open>The number of ranges that end at or before an index: where \<open>find\<close> stops.\<close>

definition rpos :: "range list \<Rightarrow> nat \<Rightarrow> nat" where
  "rpos rs i = length (takeWhile (\<lambda>r. snd r \<le> i) rs)"

lemma rpos_le: "rpos rs i \<le> length rs"
  by (simp add: rpos_def length_takeWhile_le)

lemma rpos_take: "r \<in> set (take (rpos rs i) rs) \<Longrightarrow> snd r \<le> i"
  by (metis rpos_def set_takeWhileD takeWhile_eq_take)

lemma ranges_ok_ends_mono:
  "ranges_ok (r # rs) \<Longrightarrow> s \<in> set rs \<Longrightarrow> snd r < snd s"
  by (fastforce dest: ranges_ok_nonempty)

lemma rpos_drop:
  assumes "ranges_ok rs" "r \<in> set (drop (rpos rs i) rs)"
  shows "i < snd r"
proof -
  let ?ys = "dropWhile (\<lambda>r. snd r \<le> i) rs"
  have d: "drop (rpos rs i) rs = ?ys"
    by (simp add: rpos_def dropWhile_eq_drop)
  then obtain s ys where s: "?ys = s # ys"
    using assms(2) by (cases ?ys) auto
  have "ranges_ok ?ys"
    by (metis append_take_drop_id assms(1) d ranges_ok_append)
  moreover have "i < snd s"
    using hd_dropWhile [of "\<lambda>r. snd r \<le> i" rs] s by auto
  ultimately show ?thesis
    using assms(2) d s ranges_ok_ends_mono [of s ys r] by auto
qed

lemma rpos_split:
  assumes "ranges_ok (xs @ ys)" "\<forall>x \<in> set xs. snd x \<le> i" "ys = [] \<or> i < snd (hd ys)"
  shows "rpos (xs @ ys) i = length xs"
  unfolding rpos_def using assms by (intro length_takeWhile_split) auto

lemma ranges_ok_split:
  assumes "ranges_ok rs"
  obtains xs ys where "rs = xs @ ys" "length xs = rpos rs i"
    "\<And>x. x \<in> set xs \<Longrightarrow> snd x \<le> i" "\<And>y. y \<in> set ys \<Longrightarrow> i < snd y"
    "ranges_ok xs" "ranges_ok ys"
proof
  show "rs = take (rpos rs i) rs @ drop (rpos rs i) rs" by simp
  show "length (take (rpos rs i) rs) = rpos rs i" using rpos_le [of rs i] by simp
  show "\<And>x. x \<in> set (take (rpos rs i) rs) \<Longrightarrow> snd x \<le> i" by (rule rpos_take)
  show "\<And>y. y \<in> set (drop (rpos rs i) rs) \<Longrightarrow> i < snd y" by (rule rpos_drop [OF assms])
  show "ranges_ok (take (rpos rs i) rs)" "ranges_ok (drop (rpos rs i) rs)"
    by (metis append_take_drop_id assms ranges_ok_append)+
qed

lemma rset_mem_split:
  assumes "ranges_ok (xs @ ys)" "\<And>x. x \<in> set xs \<Longrightarrow> snd x \<le> i" "\<And>y. y \<in> set ys \<Longrightarrow> i < snd y"
  shows "i \<in> rset (xs @ ys) \<longleftrightarrow> ys \<noteq> [] \<and> fst (hd ys) \<le> i"
proof -
  have "i \<notin> rset xs"
    using assms(2) by (fastforce simp: rset_iff)
  moreover have "i \<in> rset ys \<longleftrightarrow> ys \<noteq> [] \<and> fst (hd ys) \<le> i"
  proof (cases ys)
    case (Cons y zs)
    have "i \<notin> rset zs" if "i < fst y"
      using that assms(1) Cons by (fastforce simp: rset_iff ranges_ok_append)
    moreover have "i < snd y" using assms(3) Cons by simp
    ultimately show ?thesis using Cons by (cases "fst y \<le> i") auto
  qed simp
  ultimately show ?thesis by simp
qed

text \<open>Equal sets have equal range lists: the representation is canonical.\<close>

lemma ranges_ok_Min:
  assumes "ranges_ok (r # rs)"
  shows "fst r \<in> rset (r # rs)" "\<And>x. x \<in> rset (r # rs) \<Longrightarrow> fst r \<le> x"
  using assms by (force simp: rset_iff)+

lemma rset_inj:
  assumes "ranges_ok rs" "ranges_ok ss" "rset rs = rset ss"
  shows "rs = ss"
  using assms
proof (induction rs arbitrary: ss)
  case Nil
  then show ?case by (metis rset_Nil rset_eq_empty)
next
  case (Cons r rs)
  then obtain s ss' where ss: "ss = s # ss'"
    by (metis list.exhaust rset_Nil rset_eq_empty list.distinct(1))
  have f: "fst r = fst s"
    using Cons.prems ss ranges_ok_Min [of r rs] ranges_ok_Min [of s ss']
    by (metis antisym)
  have gap: "snd r \<notin> rset (r # rs)" "snd s \<notin> rset (s # ss')"
    using Cons.prems(1,2) ss by (force simp: rset_iff)+
  have "\<not> snd r < snd s"
  proof
    assume "snd r < snd s"
    then have "snd r \<in> rset (s # ss')" using f Cons.prems(1) by simp
    with gap(1) Cons.prems(3) ss show False by metis
  qed
  moreover have "\<not> snd s < snd r"
  proof
    assume "snd s < snd r"
    then have "snd s \<in> rset (r # rs)" using f Cons.prems(2) ss by simp
    with gap(2) Cons.prems(3) ss show False by metis
  qed
  ultimately have "snd r = snd s" by simp
  with f have rs: "r = s" by (simp add: prod_eq_iff)
  have "rset rs = rset (r # rs) - {fst r ..< snd r}" "rset ss' = rset (s # ss') - {fst s ..< snd s}"
    using Cons.prems(1,2) ss by (fastforce simp: rset_iff)+
  then have "rset rs = rset ss'"
    using Cons.prems(3) ss rs by metis
  then show ?case using Cons ss rs by simp
qed

end
