(* ===== verification/Chunked_Range_Vector.thy ===== *)
theory Chunked_Range_Vector
  imports Ranges
begin

text \<open>
  \<open>ChunkedRangeVector\<close> of \<open>index_set.hpp\<close> and \<open>index_set.cpp\<close>: a vector of chunks, each a
  bounded vector of ranges together with cached bounds and a cached element count, and the
  iterators into it.

  A vector is the list of its chunks.  An iterator \<open>(m_outer, m_inner)\<close> is the pair of the
  chunk number and the offset in that chunk; the end iterator, whose \<open>m_inner\<close> is null, is
  \<open>(length v, 0)\<close>.  The static constant \<open>max_size\<close> (4 under \<open>REALM_DEBUG\<close>, otherwise
  \<open>4096 / sizeof(std::pair<size_t, size_t>)\<close>) is the argument \<open>mx\<close> of the operations that
  read it; what is proved needs it only to be even and positive, which both values are.

  Every operation refines an operation on the flattened list \<open>flat v\<close> of ranges at the
  position \<open>fpos v it\<close>, and keeps the bookkeeping invariant \<open>crv_ok\<close>.
\<close>

subsection \<open>Chunks and vectors\<close>

record chunk =
  c_data :: "range list"
  c_begin :: nat
  c_end :: nat
  c_count :: nat

type_synonym crv = "chunk list"
type_synonym iter = "nat \<times> nat"

definition max_size_debug :: nat where
  "max_size_debug = 4"

definition max_size_release :: nat where
  "max_size_release = 4096 div 16"

definition max_size_ok :: "nat \<Rightarrow> bool" where
  "max_size_ok mx \<longleftrightarrow> even mx \<and> 0 < mx"

lemma max_size_ok_builds [simp]:
  "max_size_ok max_size_debug" "max_size_ok max_size_release"
  by (simp_all add: max_size_ok_def max_size_debug_def max_size_release_def)

definition flat :: "crv \<Rightarrow> range list" where
  "flat v = concat (map c_data v)"

definition chunk_ok :: "chunk \<Rightarrow> bool" where
  "chunk_ok c \<longleftrightarrow> c_data c \<noteq> [] \<and> c_begin c = fst (hd (c_data c)) \<and>
     c_end c = snd (last (c_data c)) \<and> c_count c = rcount (c_data c)"

definition crv_ok :: "nat \<Rightarrow> crv \<Rightarrow> bool" where
  "crv_ok mx v \<longleftrightarrow> (\<forall>c \<in> set v. chunk_ok c \<and> length (c_data c) \<le> mx)"

subsection \<open>Iterators\<close>

definition it_begin :: "crv \<Rightarrow> iter" where
  "it_begin v = (0, 0)"

definition it_end :: "crv \<Rightarrow> iter" where
  "it_end v = (length v, 0)"

definition it_deref :: "crv \<Rightarrow> iter \<Rightarrow> range" where
  "it_deref v it = c_data (v ! fst it) ! snd it"

definition next_chunk :: "iter \<Rightarrow> iter" where
  "next_chunk it = (Suc (fst it), 0)"

text \<open>
  \<open>operator++\<close> compares the advanced offset with the chunk's size; for an iterator into the
  vector the offset is at most the size, so \<open>==\<close> there is the negation of \<open><\<close> here.
\<close>

definition it_next :: "crv \<Rightarrow> iter \<Rightarrow> iter" where
  "it_next v it =
     (if Suc (snd it) < length (c_data (v ! fst it)) then (fst it, Suc (snd it))
      else next_chunk it)"

definition it_prev :: "crv \<Rightarrow> iter \<Rightarrow> iter" where
  "it_prev v it =
     (if fst it = length v \<or> snd it = 0
      then (fst it - 1, length (c_data (v ! (fst it - 1))) - 1)
      else (fst it, snd it - 1))"

definition it_ok :: "crv \<Rightarrow> iter \<Rightarrow> bool" where
  "it_ok v it \<longleftrightarrow> (fst it < length v \<and> snd it < length (c_data (v ! fst it))) \<or> it = it_end v"

definition fpos :: "crv \<Rightarrow> iter \<Rightarrow> nat" where
  "fpos v it = length (flat (take (fst it) v)) + snd it"

lemma flat_simps_basic [simp]:
  "flat [] = []" "flat (c # v) = c_data c @ flat v" "flat (v @ w) = flat v @ flat w"
  by (simp_all add: flat_def)

lemma crv_ok_simps [simp]:
  "crv_ok mx []"
  "crv_ok mx (c # v) \<longleftrightarrow> chunk_ok c \<and> length (c_data c) \<le> mx \<and> crv_ok mx v"
  "crv_ok mx (v @ w) \<longleftrightarrow> crv_ok mx v \<and> crv_ok mx w"
  by (auto simp: crv_ok_def)

lemma crv_okD: "crv_ok mx v \<Longrightarrow> o' < length v \<Longrightarrow> chunk_ok (v ! o') \<and> length (c_data (v ! o')) \<le> mx"
  by (simp add: crv_ok_def)

lemma chunk_ok_nonempty: "chunk_ok c \<Longrightarrow> c_data c \<noteq> []"
  by (simp add: chunk_ok_def)

text \<open>Splitting a vector at an iterator: chunks before, the chunk, chunks after.\<close>

lemma it_ok_cases:
  assumes "it_ok v it"
  obtains (At_end) "it = it_end v"
  | (At) as c bs xs r ys where "v = as @ c # bs" "fst it = length as" "c_data c = xs @ r # ys"
      "snd it = length xs"
proof (cases "it = it_end v")
  case True
  then show ?thesis by (rule At_end)
next
  case False
  then have b: "fst it < length v" "snd it < length (c_data (v ! fst it))"
    using assms by (auto simp: it_ok_def)
  show ?thesis
    using b by (intro At [of "take (fst it) v" "v ! fst it" "drop (Suc (fst it)) v"
          "take (snd it) (c_data (v ! fst it))" "c_data (v ! fst it) ! snd it"
          "drop (Suc (snd it)) (c_data (v ! fst it))"])
      (simp_all add: take_Suc_drop_eq Cons_nth_drop_Suc)
qed

lemma it_ok_cases_at:
  assumes "it_ok v it" "it \<noteq> it_end v"
  obtains as c bs xs r ys where "v = as @ c # bs" "it = (length as, length xs)"
    "c_data c = xs @ r # ys"
  using assms by (auto elim!: it_ok_cases simp: prod_eq_iff)

lemma fpos_at [simp]: "fpos (as @ c # bs) (length as, i) = length (flat as) + i"
  by (simp add: fpos_def)

lemma fpos_end: "fpos v (it_end v) = length (flat v)"
  by (simp add: fpos_def it_end_def)

lemma fpos_begin: "fpos v (it_begin v) = 0"
  by (simp add: fpos_def it_begin_def)

lemma it_ok_end [simp]: "it_ok v (it_end v)"
  by (simp add: it_ok_def)

lemma it_ok_begin [simp]: "crv_ok mx v \<Longrightarrow> it_ok v (it_begin v)"
  by (cases v) (auto simp: it_ok_def it_begin_def it_end_def chunk_ok_def)

lemma it_ok_at:
  "i < length (c_data c) \<Longrightarrow> it_ok (as @ c # bs) (length as, i)"
  by (simp add: it_ok_def)

lemma it_ok_next_chunk:
  "crv_ok mx (as @ c # bs) \<Longrightarrow> it_ok (as @ c # bs) (Suc (length as), 0)"
  by (cases bs) (auto simp: it_ok_def it_end_def nth_append chunk_ok_def)

lemma flat_length_at:
  "crv_ok mx v \<Longrightarrow> it_ok v it \<Longrightarrow> it \<noteq> it_end v \<Longrightarrow> fpos v it < length (flat v)"
  by (erule it_ok_cases_at) auto

lemma at_end_iff:
  "crv_ok mx v \<Longrightarrow> it_ok v it \<Longrightarrow> it = it_end v \<longleftrightarrow> fpos v it = length (flat v)"
  using flat_length_at [of mx v it] fpos_end [of v] by (metis less_irrefl)

lemma fst_at_end_iff: "it_ok v it \<Longrightarrow> fst it < length v \<longleftrightarrow> it \<noteq> it_end v"
  by (auto simp: it_ok_def it_end_def)

lemma it_deref_flat:
  "it_ok v it \<Longrightarrow> it \<noteq> it_end v \<Longrightarrow> it_deref v it = flat v ! fpos v it"
  by (erule it_ok_cases_at) (auto simp: it_deref_def nth_append)

lemma it_next_ok:
  assumes "crv_ok mx v" "it_ok v it" "it \<noteq> it_end v"
  shows "it_ok v (it_next v it)" "fpos v (it_next v it) = Suc (fpos v it)"
proof -
  from assms(2,3) obtain as c bs xs r ys where s: "v = as @ c # bs" "it = (length as, length xs)"
    "c_data c = xs @ r # ys"
    by (erule_tac it_ok_cases_at)
  show "it_ok v (it_next v it)"
  proof (cases ys)
    case Nil
    then have "it_next v it = (Suc (length as), 0)"
      using s by (simp add: it_next_def next_chunk_def)
    then show ?thesis using it_ok_next_chunk [of mx as c bs] assms(1) s(1) by metis
  next
    case Cons
    then show ?thesis using s by (simp add: it_next_def it_ok_def)
  qed
  show "fpos v (it_next v it) = Suc (fpos v it)"
    using s by (auto simp: it_next_def fpos_def next_chunk_def)
qed

lemma it_prev_ok:
  assumes "crv_ok mx v" "it_ok v it" "it \<noteq> it_begin v"
  shows "it_ok v (it_prev v it)" "Suc (fpos v (it_prev v it)) = fpos v it"
    "it_prev v it \<noteq> it_end v"
proof -
  have "it_ok v (it_prev v it) \<and> Suc (fpos v (it_prev v it)) = fpos v it \<and> it_prev v it \<noteq> it_end v"
  proof (cases "fst it = length v \<or> snd it = 0")
    case True
    then have "fst it \<le> length v" "snd it = 0" "0 < fst it"
      using assms by (auto simp: it_ok_def it_end_def it_begin_def prod_eq_iff)
    then obtain as c bs where v: "v = as @ c # bs" and l: "fst it = Suc (length as)"
      by (metis (no_types, lifting) Suc_le_eq Suc_pred split_at_nth)
    then have ne: "c_data c \<noteq> []" using assms(1) by (simp add: chunk_ok_def)
    have p: "it_prev v it = (length as, length (c_data c) - 1)"
      using True v l by (simp add: it_prev_def)
    show ?thesis
      using ne l \<open>snd it = 0\<close> unfolding p unfolding v by (simp add: it_ok_def fpos_def it_end_def)
  next
    case False
    then have "fst it < length v" "snd it < length (c_data (v ! fst it))" "0 < snd it"
      using assms(2) by (auto simp: it_ok_def it_end_def)
    with False show ?thesis
      by (simp add: it_prev_def it_ok_def fpos_def it_end_def prod_eq_iff)
  qed
  then show "it_ok v (it_prev v it)" "Suc (fpos v (it_prev v it)) = fpos v it"
    "it_prev v it \<noteq> it_end v" by auto
qed

lemma it_begin_iff:
  assumes "crv_ok mx v" "it_ok v it"
  shows "it = it_begin v \<longleftrightarrow> fpos v it = 0"
proof
  assume "fpos v it = 0"
  show "it = it_begin v"
  proof (rule ccontr)
    assume "it \<noteq> it_begin v"
    with it_prev_ok(2) [OF assms this] \<open>fpos v it = 0\<close> show False by simp
  qed
qed (simp add: fpos_begin)

lemma fpos_inj:
  assumes "crv_ok mx v" "it_ok v it" "it_ok v it'" "fpos v it = fpos v it'"
  shows "it = it'"
proof -
  have "fpos v i < fpos v j" if ij: "it_ok v i" "it_ok v j" "fst i < fst j" for i j
  proof -
    have "fst i < length v" "snd i < length (c_data (v ! fst i))"
      using ij by (auto simp: it_ok_def it_end_def)
    moreover from this obtain as c bs where v: "v = as @ c # bs" "length as = fst i"
      using split_at_nth [of "fst i" v] by blast
    ultimately have "snd i < length (c_data c)" by (metis nth_append_length)
    obtain n where n: "fst j = Suc (length as) + n"
      using ij(3) v(2) by (metis Suc_leI le_iff_add)
    have "take (fst i) v = as" unfolding v(2) [symmetric] v(1) by simp
    moreover have "take (fst j) v = as @ c # take n bs" unfolding n v(1) by simp
    ultimately show ?thesis using \<open>snd i < length (c_data c)\<close> by (simp add: fpos_def)
  qed
  from this [OF assms(2,3)] this [OF assms(3,2)] have "fst it = fst it'"
    using assms(4) by (cases "fst it" "fst it'" rule: linorder_cases) auto
  then show ?thesis using assms(4) by (simp add: fpos_def prod_eq_iff)
qed

subsection \<open>Mutation through an iterator\<close>

definition off :: "nat \<Rightarrow> int \<Rightarrow> nat" where
  "off n d = nat (int n + d)"

lemma off_simps [simp]:
  "off n 0 = n" "off n (int k) = n + k" "off n (numeral m) = n + numeral m" "off n 1 = Suc n"
  "off n (- int k) = n - k" "off n (- 1) = n - 1" "off n (int a - int b) = n + a - b"
  by (simp_all add: off_def nat_add_distrib)

definition it_set :: "crv \<Rightarrow> iter \<Rightarrow> nat \<Rightarrow> nat \<Rightarrow> crv" where
  "it_set v it front back =
     (let c = v ! fst it; r = it_deref v it in
      v[fst it := c\<lparr>
        c_begin := (if snd it = 0 then front else c_begin c),
        c_end := (if Suc (snd it) = length (c_data c) then back else c_end c),
        c_count := c_count c - (snd r - fst r) + (back - front),
        c_data := (c_data c)[snd it := (front, back)]\<rparr>])"

definition it_adjust :: "crv \<Rightarrow> iter \<Rightarrow> int \<Rightarrow> int \<Rightarrow> crv" where
  "it_adjust v it front back =
     (let c = v ! fst it; r = it_deref v it in
      v[fst it := c\<lparr>
        c_begin := (if snd it = 0 then off (c_begin c) front else c_begin c),
        c_end := (if Suc (snd it) = length (c_data c) then off (c_end c) back else c_end c),
        c_count := off (c_count c) (- front + back),
        c_data := (c_data c)[snd it := (off (fst r) front, off (snd r) back)]\<rparr>])"

definition it_shift :: "crv \<Rightarrow> iter \<Rightarrow> int \<Rightarrow> crv" where
  "it_shift v it distance =
     (let c = v ! fst it; r = it_deref v it in
      v[fst it := c\<lparr>
        c_begin := (if snd it = 0 then off (c_begin c) distance else c_begin c),
        c_end := (if Suc (snd it) = length (c_data c) then off (c_end c) distance else c_end c),
        c_data := (c_data c)[snd it := (off (fst r) distance, off (snd r) distance)]\<rparr>])"

text \<open>
  The three mutators overwrite one range; iterators stay valid and keep their position.
  \<open>same_shape\<close> is what they preserve of the layout.
\<close>

definition same_shape :: "crv \<Rightarrow> crv \<Rightarrow> bool" where
  "same_shape v w \<longleftrightarrow> map (\<lambda>c. length (c_data c)) v = map (\<lambda>c. length (c_data c)) w"

lemma same_shape_length: "same_shape v w \<Longrightarrow> length v = length w"
  by (metis length_map same_shape_def)

lemma same_shape_nth:
  "same_shape v w \<Longrightarrow> o' < length v \<Longrightarrow> length (c_data (v ! o')) = length (c_data (w ! o'))"
  by (metis (no_types, lifting) nth_map same_shape_def same_shape_length)

lemma same_shape_refl [simp]: "same_shape v v"
  by (simp add: same_shape_def)

lemma same_shape_trans: "same_shape u v \<Longrightarrow> same_shape v w \<Longrightarrow> same_shape u w"
  by (simp add: same_shape_def)

lemma same_shape_it_ok: "same_shape v w \<Longrightarrow> it_ok v it \<longleftrightarrow> it_ok w it"
  using same_shape_length [of v w] same_shape_nth [of v w]
  by (auto simp: it_ok_def it_end_def)

lemma same_shape_it_end: "same_shape v w \<Longrightarrow> it_end v = it_end w"
  by (simp add: it_end_def same_shape_length)

lemma length_flat: "length (flat v) = sum_list (map (\<lambda>c. length (c_data c)) v)"
  by (induction v) auto

lemma same_shape_fpos: "same_shape v w \<Longrightarrow> fpos v it = fpos w it"
  by (simp add: fpos_def length_flat same_shape_def flip: take_map)

lemma same_shape_it_next: "same_shape v w \<Longrightarrow> fst it < length v \<Longrightarrow> it_next v it = it_next w it"
  by (simp add: it_next_def same_shape_nth)

lemma same_shape_it_prev:
  "same_shape v w \<Longrightarrow> it_ok v it \<Longrightarrow> it \<noteq> (0, 0) \<Longrightarrow> it_prev v it = it_prev w it"
  using same_shape_nth [of v w "fst it - 1"] same_shape_length [of v w]
  by (auto simp: it_prev_def it_ok_def it_end_def prod_eq_iff)

lemma same_shape_update:
  "length (c_data d) = length (c_data c) \<Longrightarrow> same_shape (as @ c # bs) (as @ d # bs)"
  by (simp add: same_shape_def)

lemma same_shape_mutators [simp]:
  assumes "it_ok v it" "it \<noteq> it_end v"
  shows "same_shape v (it_set v it a b)" "same_shape v (it_adjust v it f g)"
    "same_shape v (it_shift v it d)"
  using assms
  by (auto elim!: it_ok_cases_at simp: it_set_def it_adjust_def it_shift_def Let_def
      same_shape_def)

lemma crv_overwrite:
  assumes "crv_ok mx (as @ c # bs)" "c_data c = xs @ r # ys" "c_data c' = xs @ r' # ys"
    and "c_begin c' = (if xs = [] then fst r' else c_begin c)"
    and "c_end c' = (if ys = [] then snd r' else c_end c)"
    and "c_count c' = rcount xs + (snd r' - fst r') + rcount ys"
  shows "crv_ok mx (as @ c' # bs)"
    "flat (as @ c' # bs) = (flat (as @ c # bs))[length (flat as) + length xs := r']"
  using assms by (cases xs; cases ys; simp add: chunk_ok_def list_update_append)+

lemma it_set_flat:
  assumes ok: "crv_ok mx v" and it: "it_ok v it" "it \<noteq> it_end v"
  shows "flat (it_set v it a b) = (flat v)[fpos v it := (a, b)]" "crv_ok mx (it_set v it a b)"
proof -
  from it obtain as c bs xs r ys where s: "v = as @ c # bs" "it = (length as, length xs)"
    "c_data c = xs @ r # ys"
    by (rule it_ok_cases_at)
  have cnt: "c_count c = rcount xs + (snd r - fst r) + rcount ys"
    using ok s by (simp add: chunk_ok_def)
  define c' where "c' = c\<lparr>c_begin := (if xs = [] then a else c_begin c),
    c_end := (if ys = [] then b else c_end c),
    c_count := rcount xs + (b - a) + rcount ys, c_data := xs @ (a, b) # ys\<rparr>"
  have e: "it_set v it a b = as @ c' # bs"
    using s cnt by (simp add: it_set_def it_deref_def Let_def list_update_append c'_def)
  show "flat (it_set v it a b) = (flat v)[fpos v it := (a, b)]"
    unfolding e unfolding s(1,2) fpos_at
    by (rule crv_overwrite(2) [OF ok [unfolded s(1)] s(3), where r' = "(a, b)"]) (simp_all add: c'_def)
  show "crv_ok mx (it_set v it a b)"
    unfolding e by (rule crv_overwrite(1) [OF ok [unfolded s(1)] s(3), where r' = "(a, b)"]) (simp_all add: c'_def)
qed

text \<open>The other two mutators are \<open>set\<close> with the new bounds computed from the old ones.\<close>

lemma it_adjust_eq_set:
  assumes ok: "crv_ok mx v" and it: "it_ok v it" "it \<noteq> it_end v" and r: "it_deref v it = (a, b)"
    and "a \<le> b" "0 \<le> int a + f" "int a + f \<le> int b + g"
  shows "it_adjust v it f g = it_set v it (off a f) (off b g)"
proof -
  from it obtain as c bs xs r ys where s: "v = as @ c # bs" "it = (length as, length xs)"
    "c_data c = xs @ r # ys"
    by (rule it_ok_cases_at)
  have "r = (a, b)" using s r by (simp add: it_deref_def)
  with s ok have "c_count c = rcount xs + (b - a) + rcount ys"
    "xs = [] \<Longrightarrow> c_begin c = a" "ys = [] \<Longrightarrow> c_end c = b"
    by (simp_all add: chunk_ok_def)
  with s assms(5-7) \<open>r = (a, b)\<close> show ?thesis
    by (simp add: it_set_def it_adjust_def it_deref_def Let_def list_update_append off_def)
qed

lemma it_shift_eq_set:
  assumes ok: "crv_ok mx v" and it: "it_ok v it" "it \<noteq> it_end v" and r: "it_deref v it = (a, b)"
    and "a \<le> b" "0 \<le> int a + d"
  shows "it_shift v it d = it_set v it (off a d) (off b d)"
proof -
  from it obtain as c bs xs r ys where s: "v = as @ c # bs" "it = (length as, length xs)"
    "c_data c = xs @ r # ys"
    by (rule it_ok_cases_at)
  have "r = (a, b)" using s r by (simp add: it_deref_def)
  with s ok have "c_count c = rcount xs + (b - a) + rcount ys"
    "xs = [] \<Longrightarrow> c_begin c = a" "ys = [] \<Longrightarrow> c_end c = b"
    by (simp_all add: chunk_ok_def)
  with s assms(5-6) \<open>r = (a, b)\<close> show ?thesis
    by (simp add: it_set_def it_shift_def it_deref_def Let_def list_update_append off_def)
qed

lemma it_adjust_flat:
  assumes "crv_ok mx v" "it_ok v it" "it \<noteq> it_end v" "it_deref v it = (a, b)"
    "a \<le> b" "0 \<le> int a + f" "int a + f \<le> int b + g"
  shows "flat (it_adjust v it f g) = (flat v)[fpos v it := (off a f, off b g)]"
    "crv_ok mx (it_adjust v it f g)"
  using it_set_flat [OF assms(1-3)] it_adjust_eq_set [OF assms] by simp_all

lemma it_shift_flat:
  assumes "crv_ok mx v" "it_ok v it" "it \<noteq> it_end v" "it_deref v it = (a, b)"
    "a \<le> b" "0 \<le> int a + d"
  shows "flat (it_shift v it d) = (flat v)[fpos v it := (off a d, off b d)]"
    "crv_ok mx (it_shift v it d)"
  using it_set_flat [OF assms(1-3)] it_shift_eq_set [OF assms] by simp_all

subsection \<open>Insertion and removal\<close>

definition crv_push_back :: "nat \<Rightarrow> crv \<Rightarrow> range \<Rightarrow> crv option" where
  "crv_push_back mx v value =
     (if v \<noteq> [] \<and> length (c_data (last v)) < mx then do {
        let r = last v;
        realm_assert (c_end r \<le> fst value);
        Some (butlast v @ [r\<lparr>c_data := c_data r @ [value],
          c_count := c_count r + (snd value - fst value), c_end := snd value\<rparr>])
      }
      else Some (v @ [\<lparr>c_data = [value], c_begin = fst value, c_end = snd value,
          c_count = snd value - fst value\<rparr>]))"

definition ensure_space :: "nat \<Rightarrow> crv \<Rightarrow> iter \<Rightarrow> crv \<times> iter" where
  "ensure_space mx v pos =
     (let prev = v ! fst pos in
      if length (c_data prev) + 1 \<le> mx then (v, pos)
      else
        let offset = snd pos;
            to_move = mx div 2;
            keep = length (c_data prev) - to_move;
            moved = drop keep (c_data prev);
            kept = take keep (c_data prev);
            moved_count = rcount moved;
            prev' = prev\<lparr>c_data := kept, c_end := snd (last kept),
              c_count := c_count prev - moved_count\<rparr>;
            new_pos = \<lparr>c_data = moved, c_begin = fst (hd moved), c_end = snd (last moved),
              c_count = moved_count\<rparr>;
            v' = take (fst pos) v @ prev' # new_pos # drop (Suc (fst pos)) v
        in if to_move \<le> offset then (v', (Suc (fst pos), offset - to_move))
           else (v', (fst pos, offset)))"

definition crv_insert :: "nat \<Rightarrow> crv \<Rightarrow> iter \<Rightarrow> range \<Rightarrow> (crv \<times> iter) option" where
  "crv_insert mx v pos value =
     (if fst pos = length v then do {
        v' \<leftarrow> crv_push_back mx v value;
        Some (v', it_prev v' (it_end v'))
      }
      else
        let (v1, pos1) = ensure_space mx v pos;
            c = v1 ! fst pos1;
            d = c_data c
        in Some (v1[fst pos1 := c\<lparr>
             c_data := take (snd pos1) d @ value # drop (snd pos1) d,
             c_count := c_count c + (snd value - fst value),
             c_begin := min (c_begin c) (fst value),
             c_end := max (c_end c) (snd value)\<rparr>], pos1))"

definition crv_erase :: "crv \<Rightarrow> iter \<Rightarrow> crv \<times> iter" where
  "crv_erase v pos =
     (let offset = snd pos;
          c = v ! fst pos;
          r = it_deref v pos;
          d = take offset (c_data c) @ drop (Suc offset) (c_data c);
          c1 = c\<lparr>c_count := c_count c - (snd r - fst r), c_data := d\<rparr>
      in if d = [] then (take (fst pos) v @ drop (Suc (fst pos)) v, (fst pos, 0))
         else
           let v' = v[fst pos := c1\<lparr>c_begin := fst (hd d), c_end := snd (last d)\<rparr>]
           in if offset < length d then (v', pos) else (v', next_chunk pos))"

lemma crv_push_back_flat:
  assumes ok: "crv_ok mx v" "max_size_ok mx" and ord: "v = [] \<or> snd (last (flat v)) \<le> fst value"
  shows "\<exists>v'. crv_push_back mx v value = Some v' \<and> crv_ok mx v' \<and> flat v' = flat v @ [value]"
proof (cases "v \<noteq> [] \<and> length (c_data (last v)) < mx")
  case True
  then obtain as c where v: "v = as @ [c]" by (metis append_butlast_last_id)
  have c: "chunk_ok c" using ok v by simp
  then have "c_end c \<le> fst value"
    using ord v by (auto simp: chunk_ok_def)
  then show ?thesis
    using True ok v c by (simp add: crv_push_back_def chunk_ok_def)
next
  case False
  have "Suc 0 \<le> mx" using ok(2) by (simp add: max_size_ok_def)
  then have "crv_ok mx (v @ [\<lparr>c_data = [value], c_begin = fst value, c_end = snd value,
          c_count = snd value - fst value\<rparr>])"
    using ok by (simp add: chunk_ok_def)
  then show ?thesis using False unfolding crv_push_back_def by (subst if_not_P) auto
qed

lemma ensure_space_flat:
  assumes ok: "crv_ok mx v" "max_size_ok mx" and it: "it_ok v it" "it \<noteq> it_end v"
    and e: "ensure_space mx v it = (v', it')"
  shows "crv_ok mx v'" "flat v' = flat v" "it_ok v' it'" "it' \<noteq> it_end v'"
    "fpos v' it' = fpos v it" "length (c_data (v' ! fst it')) < mx"
proof -
  from it obtain as c bs xs r ys where s: "v = as @ c # bs" "it = (length as, length xs)"
    "c_data c = xs @ r # ys"
    by (rule it_ok_cases_at)
  have "crv_ok mx v' \<and> flat v' = flat v \<and> it_ok v' it' \<and> it' \<noteq> it_end v' \<and>
    fpos v' it' = fpos v it \<and> length (c_data (v' ! fst it')) < mx"
  proof (cases "length (c_data c) + 1 \<le> mx")
    case True
    then have "v' = v" "it' = it" using e s by (auto simp: ensure_space_def)
    with True ok it s show ?thesis by simp
  next
    case False
    define k where "k = mx div 2"
    define d where "d = c_data c"
    have mx: "mx = k + k" "0 < k" using ok(2) by (auto simp: k_def max_size_ok_def)
    have len: "length d = mx" using False ok(1) s by (simp add: d_def)
    define c1 where "c1 = c\<lparr>c_data := take k d, c_end := snd (last (take k d)),
      c_count := c_count c - rcount (drop k d)\<rparr>"
    define c2 where "c2 = \<lparr>c_data = drop k d, c_begin = fst (hd (drop k d)),
      c_end = snd (last (drop k d)), c_count = rcount (drop k d)\<rparr>"
    have keep: "length d - k = k" "mx div 2 = k" using len mx by auto
    have v': "v' = as @ c1 # c2 # bs"
      and it': "it' = (if k \<le> length xs then (Suc (length as), length xs - k)
        else (length as, length xs))"
      using e s False keep
      by (auto simp: ensure_space_def Let_def c1_def c2_def d_def split: if_splits)
    have ne: "take k d \<noteq> []" "drop k d \<noteq> []" using len mx by auto
    have "c_count c = rcount (take k d @ drop k d)"
      using ok(1) s(1) by (simp add: chunk_ok_def d_def)
    then have cnt: "c_count c = rcount (take k d) + rcount (drop k d)"
      by (simp only: rcount_simps)
    have "c_begin c = fst (hd (take k d))"
      using ok(1) s(1) mx(2) by (simp add: chunk_ok_def d_def hd_take)
    then have ok': "chunk_ok c1" "chunk_ok c2"
      using ne cnt by (simp_all add: chunk_ok_def c1_def c2_def)
    have fl: "c_data c1 @ c_data c2 = c_data c"
      by (simp add: c1_def c2_def d_def)
    have lens: "length (c_data c1) = k" "length (c_data c2) = k"
      using len mx by (simp_all add: c1_def c2_def)
    have "length xs < mx" using len s by (simp add: d_def)
    then have "it_ok v' it' \<and> it' \<noteq> it_end v' \<and> length (c_data (v' ! fst it')) < mx \<and>
      fpos v' it' = fpos v it"
      using lens mx s by (auto simp: v' it' it_ok_def it_end_def fpos_def nth_append)
    moreover have "crv_ok mx v'" "flat v' = flat v"
      using ok ok' lens mx fl s by (simp_all add: v')
    ultimately show ?thesis by simp
  qed
  then show "crv_ok mx v'" "flat v' = flat v" "it_ok v' it'" "it' \<noteq> it_end v'"
    "fpos v' it' = fpos v it" "length (c_data (v' ! fst it')) < mx" by auto
qed

lemma insert_nth_append:
  "take (length (xs @ ys)) (xs @ ys @ zs) @ r # drop (length (xs @ ys)) (xs @ ys @ zs) =
   xs @ (ys @ r # zs)"
  by simp

lemma chunk_insert_ok:
  assumes "chunk_ok c" "c_data c = xs @ y # ys" "ranges_ok (xs @ r # y # ys)"
    and "c_data c' = xs @ r # y # ys" "c_count c' = c_count c + (snd r - fst r)"
    and "c_begin c' = min (c_begin c) (fst r)" "c_end c' = max (c_end c) (snd r)"
  shows "chunk_ok c'"
proof -
  have b: "c_begin c = fst (hd (xs @ [y]))" "c_end c = snd (last (y # ys))"
    "c_count c = rcount xs + rcount (y # ys)"
    using assms(1,2) by (auto simp: chunk_ok_def hd_append)
  have "fst (hd (xs @ [y])) \<le> fst r" if "xs \<noteq> []"
    using assms(3) that by (cases xs) (auto simp: ranges_ok_append)
  moreover have "fst r \<le> fst y" "snd r \<le> snd (last (y # ys))"
    using assms(3) ranges_ok_ends_mono [of r "y # ys" "last (y # ys)"]
    by (auto simp: ranges_ok_append)
  ultimately show ?thesis
    using assms(4-7) b by (cases "xs = []") (auto simp: chunk_ok_def hd_append)
qed

lemma crv_insert_flat:
  assumes ok: "crv_ok mx v" "max_size_ok mx" and it: "it_ok v it"
    and rs: "ranges_ok (take (fpos v it) (flat v) @ r # drop (fpos v it) (flat v))"
  shows "\<exists>v' it'. crv_insert mx v it r = Some (v', it') \<and> crv_ok mx v' \<and>
    flat v' = take (fpos v it) (flat v) @ r # drop (fpos v it) (flat v) \<and>
    it_ok v' it' \<and> it' \<noteq> it_end v' \<and> fpos v' it' = fpos v it"
proof (cases "it = it_end v")
  case True
  have F: "fpos v it = length (flat v)" using True by (simp add: fpos_end)
  have "v = [] \<or> snd (last (flat v)) \<le> fst r"
  proof (cases "v = []")
    case False
    then have "flat v \<noteq> []" using ok(1) by (cases v) (auto simp: chunk_ok_def)
    then show ?thesis using rs F by (auto simp: ranges_ok_append less_imp_le)
  qed simp
  from crv_push_back_flat [OF ok this] obtain v' where v':
    "crv_push_back mx v r = Some v'" "crv_ok mx v'" "flat v' = flat v @ [r]" by blast
  have "it_end v' \<noteq> it_begin v'"
    using v'(2,3) it_begin_iff [of mx v' "it_end v'"] by (auto simp: fpos_end)
  with it_prev_ok [OF v'(2) it_ok_end this] v' F True show ?thesis
    by (simp add: crv_insert_def it_end_def fpos_end [unfolded it_end_def])
next
  case False
  obtain v1 it1 where e: "ensure_space mx v it = (v1, it1)" by (cases "ensure_space mx v it") blast
  note es = ensure_space_flat [OF ok it False e]
  from es(3,4) obtain as c bs xs y ys where s: "v1 = as @ c # bs" "it1 = (length as, length xs)"
    "c_data c = xs @ y # ys"
    by (rule it_ok_cases_at)
  define c' where "c' = c\<lparr>c_data := xs @ r # y # ys, c_count := c_count c + (snd r - fst r),
    c_begin := min (c_begin c) (fst r), c_end := max (c_end c) (snd r)\<rparr>"
  have "fst it \<noteq> length v" using False it by (auto simp: it_ok_def)
  then have res: "crv_insert mx v it r = Some (as @ c' # bs, it1)"
    using e s by (simp add: crv_insert_def Let_def c'_def list_update_append)
  have fp: "fpos v it = length (flat as @ xs)" "flat v = flat as @ xs @ y # ys @ flat bs"
    using es(2,5) s by simp_all
  then have fl: "take (fpos v it) (flat v) @ r # drop (fpos v it) (flat v) =
    flat (as @ c' # bs)"
    by (simp add: c'_def)
  have rs': "ranges_ok (xs @ r # y # ys)"
    using rs unfolding fl by (simp add: c'_def ranges_ok_append)
  have "chunk_ok c" using es(1) s(1) by simp
  from chunk_insert_ok [OF this s(3) rs'] have "chunk_ok c'"
    by (simp add: c'_def)
  then have "crv_ok mx (as @ c' # bs)"
    using es(1,6) s by (simp add: c'_def)
  then show ?thesis
    using res fl fp s(2) by (simp add: it_ok_def it_end_def c'_def)
qed

lemma crv_erase_flat:
  assumes ok: "crv_ok mx v" and it: "it_ok v it" "it \<noteq> it_end v"
    and e: "crv_erase v it = (v', it')"
  shows "crv_ok mx v'" "flat v' = take (fpos v it) (flat v) @ drop (Suc (fpos v it)) (flat v)"
    "it_ok v' it'" "fpos v' it' = fpos v it"
proof -
  from it obtain as c bs xs r ys where s: "v = as @ c # bs" "it = (length as, length xs)"
    "c_data c = xs @ r # ys"
    by (rule it_ok_cases_at)
  have cnt: "c_count c = rcount xs + (snd r - fst r) + rcount ys"
    using ok s by (simp add: chunk_ok_def)
  have "crv_ok mx v' \<and> flat v' = take (fpos v it) (flat v) @ drop (Suc (fpos v it)) (flat v) \<and>
    it_ok v' it' \<and> fpos v' it' = fpos v it"
  proof (cases "xs @ ys = []")
    case True
    then have "v' = as @ bs" "it' = (length as, 0)"
      using e s by (auto simp: crv_erase_def Let_def)
    then show ?thesis
      using ok s True by (cases bs) (auto simp: fpos_def it_ok_def it_end_def chunk_ok_def nth_append)
  next
    case False
    define c' where "c' = c\<lparr>c_count := rcount xs + rcount ys, c_data := xs @ ys,
      c_begin := fst (hd (xs @ ys)), c_end := snd (last (xs @ ys))\<rparr>"
    have e': "v' = as @ c' # bs" "it' = (if ys \<noteq> [] then it else (Suc (length as), 0))"
      using e s False cnt
      by (auto simp: crv_erase_def Let_def it_deref_def c'_def list_update_append next_chunk_def
          split: if_splits)
    have c': "chunk_ok c'" "length (c_data c') \<le> mx"
      using False ok s by (simp_all add: c'_def chunk_ok_def)
    then have v': "crv_ok mx (as @ c' # bs)" using ok s by simp
    moreover have "it_ok v' it' \<and> fpos v' it' = fpos v it"
      using v' e' s it_ok_next_chunk [of mx as c' bs]
      by (cases ys) (auto simp: it_ok_def fpos_def c'_def)
    ultimately show ?thesis using e' s by (simp add: c'_def)
  qed
  then show "crv_ok mx v'" "flat v' = take (fpos v it) (flat v) @ drop (Suc (fpos v it)) (flat v)"
    "it_ok v' it'" "fpos v' it' = fpos v it" by auto
qed

subsection \<open>The contract of a cursor over a list of ranges\<close>

text \<open>
  What the algorithms of \<open>IndexSet\<close> use of the iterators: every valid cursor stands at a
  position of the list of ranges, and begin, end, increment, decrement and dereference are
  the operations on that position.
\<close>

locale range_cursor =
  fixes ok :: "'v \<Rightarrow> bool" and ranges :: "'v \<Rightarrow> range list"
    and valid :: "'v \<Rightarrow> 'i \<Rightarrow> bool" and pos :: "'v \<Rightarrow> 'i \<Rightarrow> nat"
    and start :: "'v \<Rightarrow> 'i" and stop :: "'v \<Rightarrow> 'i"
    and succ :: "'v \<Rightarrow> 'i \<Rightarrow> 'i" and pred :: "'v \<Rightarrow> 'i \<Rightarrow> 'i" and deref :: "'v \<Rightarrow> 'i \<Rightarrow> range"
  assumes start_valid: "ok v \<Longrightarrow> valid v (start v)"
    and start_pos: "ok v \<Longrightarrow> pos v (start v) = 0"
    and stop_valid: "ok v \<Longrightarrow> valid v (stop v)"
    and stop_pos: "ok v \<Longrightarrow> pos v (stop v) = length (ranges v)"
    and pos_less: "ok v \<Longrightarrow> valid v it \<Longrightarrow> it \<noteq> stop v \<Longrightarrow> pos v it < length (ranges v)"
    and pos_unique: "ok v \<Longrightarrow> valid v it \<Longrightarrow> valid v it' \<Longrightarrow> pos v it = pos v it' \<Longrightarrow> it = it'"
    and succ_law: "ok v \<Longrightarrow> valid v it \<Longrightarrow> it \<noteq> stop v \<Longrightarrow>
      valid v (succ v it) \<and> pos v (succ v it) = Suc (pos v it)"
    and pred_law: "ok v \<Longrightarrow> valid v it \<Longrightarrow> it \<noteq> start v \<Longrightarrow>
      valid v (pred v it) \<and> Suc (pos v (pred v it)) = pos v it"
    and deref_law: "ok v \<Longrightarrow> valid v it \<Longrightarrow> it \<noteq> stop v \<Longrightarrow> deref v it = ranges v ! pos v it"
begin

lemma pos_le: "ok v \<Longrightarrow> valid v it \<Longrightarrow> pos v it \<le> length (ranges v)"
  by (metis less_imp_le order_refl pos_less stop_pos)

lemma stop_iff: "ok v \<Longrightarrow> valid v it \<Longrightarrow> it = stop v \<longleftrightarrow> pos v it = length (ranges v)"
  by (metis less_irrefl pos_less stop_pos)

lemma start_iff: "ok v \<Longrightarrow> valid v it \<Longrightarrow> it = start v \<longleftrightarrow> pos v it = 0"
  by (metis pos_unique start_pos start_valid)

lemma pred_succ:
  assumes "ok v" "valid v it" "it \<noteq> stop v"
  shows "pred v (succ v it) = it"
proof -
  have s: "valid v (succ v it)" "pos v (succ v it) = Suc (pos v it)"
    using succ_law [OF assms] by auto
  then have "succ v it \<noteq> start v" using start_pos [OF assms(1)] by auto
  then show ?thesis
    using pred_law [OF assms(1) s(1)] s(2) assms pos_unique by auto
qed

lemma succ_pred:
  assumes "ok v" "valid v it" "it \<noteq> start v"
  shows "succ v (pred v it) = it"
proof -
  have p: "valid v (pred v it)" "Suc (pos v (pred v it)) = pos v it"
    using pred_law [OF assms] by auto
  then have "pred v it \<noteq> stop v"
    using pos_le [OF assms(1,2)] stop_pos [OF assms(1)] by auto
  then show ?thesis
    using succ_law [OF assms(1) p(1)] p(2) assms pos_unique by auto
qed

text \<open>A cursor splits the list into what lies before it and what it and its successors read.\<close>

lemma cursor_split:
  assumes "ok v" "valid v it"
  obtains xs ys where "ranges v = xs @ ys" "length xs = pos v it"
    "it = start v \<longleftrightarrow> xs = []" "it = stop v \<longleftrightarrow> ys = []"
    "ys \<noteq> [] \<Longrightarrow> deref v it = hd ys" "xs \<noteq> [] \<Longrightarrow> deref v (pred v it) = last xs"
proof -
  let ?p = "pos v it"
  let ?xs = "take ?p (ranges v)" and ?ys = "drop ?p (ranges v)"
  have le: "?p \<le> length (ranges v)" using pos_le [OF assms] .
  have st: "it = start v \<longleftrightarrow> ?p = 0" and en: "it = stop v \<longleftrightarrow> ?p = length (ranges v)"
    using start_iff [OF assms] stop_iff [OF assms] .
  have d: "deref v it = hd ?ys" if "?ys \<noteq> []"
    using that deref_law [OF assms] en by (simp add: hd_drop_conv_nth)
  have "deref v (pred v it) = last ?xs" if "?xs \<noteq> []"
  proof -
    have ns: "it \<noteq> start v" using that st by auto
    then have p: "valid v (pred v it)" "Suc (pos v (pred v it)) = ?p"
      using pred_law [OF assms] by auto
    then have "pred v it \<noteq> stop v" using le stop_pos [OF assms(1)] by auto
    then have "deref v (pred v it) = ranges v ! pos v (pred v it)"
      using deref_law [OF assms(1) p(1)] by simp
    also have "\<dots> = last ?xs"
      using p(2) le by (simp add: take_Suc_conv_app_nth flip: p(2))
    finally show ?thesis .
  qed
  with le st en d show ?thesis by (intro that [of ?xs ?ys]) auto
qed

end

interpretation cur: range_cursor "crv_ok mx" flat it_ok fpos it_begin it_end it_next it_prev it_deref
  for mx
  using flat_length_at fpos_inj it_next_ok it_prev_ok it_deref_flat
  by unfold_locales (auto simp: fpos_begin fpos_end)

subsection \<open>The self-check of debug builds\<close>

text \<open>
  \<open>verify\<close> runs after every mutation when \<open>REALM_DEBUG\<close> is defined; \<open>crv_verify\<close> is the
  conjunction of its assertions.
\<close>

fun verify_ranges :: "nat \<Rightarrow> range list \<Rightarrow> bool" where
  "verify_ranges prev_end [] = True"
| "verify_ranges prev_end (r # rs) =
     (fst r < snd r \<and> (prev_end = npos \<or> prev_end < fst r) \<and> verify_ranges (snd r) rs)"

definition crv_verify :: "crv \<Rightarrow> bool" where
  "crv_verify v \<longleftrightarrow> verify_ranges npos (flat v) \<and>
     (\<forall>c \<in> set v. c_data c \<noteq> [] \<and> fst (hd (c_data c)) = c_begin c \<and>
        snd (last (c_data c)) = c_end c \<and> c_count c \<le> c_end c - c_begin c \<and>
        rcount (c_data c) = c_count c)"

lemma verify_ranges_ok: "ranges_ok rs \<Longrightarrow> (rs \<noteq> [] \<Longrightarrow> p = npos \<or> p < fst (hd rs)) \<Longrightarrow> verify_ranges p rs"
proof (induction rs arbitrary: p)
  case (Cons r rs)
  then show ?case by (cases rs) auto
qed simp

lemma verify_ranges_sound:
  "verify_ranges p rs \<Longrightarrow> p \<noteq> npos \<Longrightarrow> \<forall>r \<in> set rs. snd r < npos \<Longrightarrow>
   ranges_ok rs \<and> (\<forall>r \<in> set rs. p < fst r)"
  by (induction p rs rule: verify_ranges.induct) force+

lemma verify_ranges_ok_iff:
  assumes "\<forall>r \<in> set rs. snd r < npos"
  shows "verify_ranges npos rs \<longleftrightarrow> ranges_ok rs"
proof
  assume "verify_ranges npos rs"
  then show "ranges_ok rs"
    using assms by (cases rs) (auto dest: verify_ranges_sound)
qed (simp add: verify_ranges_ok)

lemma rcount_le_bounds:
  "ranges_ok rs \<Longrightarrow> rs \<noteq> [] \<Longrightarrow> rcount rs \<le> snd (last rs) - fst (hd rs) \<and> fst (hd rs) < snd (last rs)"
proof (induction rs)
  case (Cons r rs)
  then show ?case by (cases rs) force+
qed simp

lemma ranges_ok_chunk: "ranges_ok (flat v) \<Longrightarrow> c \<in> set v \<Longrightarrow> ranges_ok (c_data c)"
  by (induction v) (auto simp: ranges_ok_append)

end
