(* ===== verification/Index_Set.thy ===== *)
theory Index_Set
  imports Chunked_Range_Vector
begin

text \<open>
  The operations of \<open>IndexSet\<close> that work in place on the chunked vector (\<open>index_set.cpp\<close>):
  search, membership, counting, insertion, removal and the shifting operations.  The bulk
  operations that rebuild the vector are in \<open>Index_Set_Bulk\<close>.

  \<open>index_set_ok\<close> is the representation invariant and \<open>indexes\<close> the set a vector denotes.
  An iterator is at the end exactly when its chunk number is the number of chunks; the
  loops test it in this form.
\<close>

definition index_set_ok :: "nat \<Rightarrow> crv \<Rightarrow> bool" where
  "index_set_ok mx v \<longleftrightarrow> crv_ok mx v \<and> ranges_ok (flat v)"

definition indexes :: "crv \<Rightarrow> nat set" where
  "indexes v = rset (flat v)"

definition as_indexes :: "crv \<Rightarrow> nat list" where
  "as_indexes v = ilist (flat v)"

lemma index_set_okD:
  "index_set_ok mx v \<Longrightarrow> crv_ok mx v" "index_set_ok mx v \<Longrightarrow> ranges_ok (flat v)"
  by (simp_all add: index_set_ok_def)

lemma index_set_okI: "crv_ok mx v \<Longrightarrow> ranges_ok (flat v) \<Longrightarrow> index_set_ok mx v"
  by (simp add: index_set_ok_def)

subsection \<open>find\<close>

definition is_find_from :: "crv \<Rightarrow> nat \<Rightarrow> iter \<Rightarrow> iter" where
  "is_find_from v index start =
     (let it = fst start + length (takeWhile (\<lambda>lft. \<not> c_end lft > index) (drop (fst start) v))
      in if length v \<le> it then it_end v
         else if index < c_begin (v ! it) then (it, 0)
         else
           let inner_begin = (if it = fst start then snd start else 0)
           in (it, inner_begin +
                length (takeWhile (\<lambda>lft. snd lft \<le> index) (drop inner_begin (c_data (v ! it))))))"

definition is_find :: "crv \<Rightarrow> nat \<Rightarrow> iter" where
  "is_find v index = is_find_from v index (it_begin v)"

text \<open>\<open>find\<close> stops at the first range that ends after the index.\<close>

lemma chunk_end_bound:
  assumes "chunk_ok c" "ranges_ok (c_data c)" "r \<in> set (c_data c)"
  shows "snd r \<le> c_end c" "c_begin c \<le> fst r"
proof -
  obtain xs y where d: "c_data c = xs @ [y]"
    using assms(1) by (metis append_butlast_last_id chunk_ok_def)
  then show "snd r \<le> c_end c"
    using assms by (fastforce simp: chunk_ok_def ranges_ok_append)
  obtain z zs where d: "c_data c = z # zs"
    using assms(1) by (cases "c_data c") (auto simp: chunk_ok_def)
  then show "c_begin c \<le> fst r"
    using assms by (fastforce simp: chunk_ok_def)
qed

lemma takeWhile_chunks_split:
  fixes i :: nat
  assumes "index_set_ok mx v" "o' \<le> length v"
  defines "it \<equiv> o' + length (takeWhile (\<lambda>c. \<not> c_end c > i) (drop o' v))"
  shows "it \<le> length v" "o' \<le> it"
    "\<And>r. r \<in> set (flat (drop o' (take it v))) \<Longrightarrow> snd r \<le> i"
    "it < length v \<Longrightarrow> i < c_end (v ! it)"
proof -
  let ?w = "takeWhile (\<lambda>c. \<not> c_end c > i) (drop o' v)"
  have "length ?w \<le> length v - o'"
    using length_takeWhile_le [of _ "drop o' v"] by simp
  then show "it \<le> length v" using assms(2) unfolding it_def by linarith
  show "o' \<le> it" unfolding it_def by simp
  have w: "drop o' (take it v) = ?w"
    by (simp add: it_def drop_take flip: takeWhile_eq_take)
  show "snd r \<le> i" if "r \<in> set (flat (drop o' (take it v)))" for r
  proof -
    from that obtain c where c: "c \<in> set ?w" "r \<in> set (c_data c)"
      unfolding w by (auto simp: flat_def)
    then have "c \<in> set v" "c_end c \<le> i"
      by (auto dest: set_takeWhileD in_set_dropD)
    then show ?thesis
      using c assms(1) chunk_end_bound(1) [of c r] ranges_ok_chunk [of v c]
      by (fastforce simp: index_set_ok_def crv_ok_def)
  qed
  show "i < c_end (v ! it)" if "it < length v"
  proof -
    have "length ?w < length (drop o' v)" using that assms(2) by (simp add: it_def)
    from nth_length_takeWhile [OF this] show ?thesis
      using assms(2) that by (simp add: it_def)
  qed
qed

lemma is_find_from_pos:
  assumes ok: "index_set_ok mx v" and st: "it_ok v st"
    and before: "\<And>r. r \<in> set (take (fpos v st) (flat v)) \<Longrightarrow> snd r \<le> i"
  shows "it_ok v (is_find_from v i st)" "fpos v (is_find_from v i st) = rpos (flat v) i"
proof -
  define it where "it = fst st + length (takeWhile (\<lambda>c. \<not> c_end c > i) (drop (fst st) v))"
  have o: "fst st \<le> length v" using st by (auto simp: it_ok_def it_end_def)
  note tw = takeWhile_chunks_split [OF ok o, where i = i, folded it_def]
  have rok: "ranges_ok (flat v)" using ok by (simp add: index_set_ok_def)
  have fst_part: "snd r \<le> i" if "r \<in> set (flat (take (fst st) v))" for r
  proof -
    have "flat v = flat (take (fst st) v) @ flat (drop (fst st) v)"
      by (simp flip: flat_simps_basic)
    then show ?thesis using that before [of r] by (simp add: fpos_def)
  qed
  have "take it v = take (fst st) v @ drop (fst st) (take it v)"
    using tw(2) by (metis append_take_drop_id min.absorb1 take_take)
  then have pre: "snd r \<le> i" if "r \<in> set (flat (take it v))" for r
    using that fst_part tw(3) by (metis Un_iff flat_simps_basic(3) set_append)
  have "it_ok v (is_find_from v i st) \<and> fpos v (is_find_from v i st) = rpos (flat v) i"
  proof (cases "length v \<le> it")
    case True
    then have "is_find_from v i st = it_end v"
      by (simp add: is_find_from_def it_def)
    moreover have "rpos (flat v @ []) i = length (flat v)"
      using True pre rok by (intro rpos_split) auto
    ultimately show ?thesis by (simp add: fpos_end)
  next
    case False
    then obtain as c bs where v: "v = as @ c # bs" and las: "it = length as"
      using split_at_nth [of it v] by (metis leI)
    have ta: "take it v = as" and vit: "v ! it = c" using v las by auto
    have c: "chunk_ok c" "ranges_ok (c_data c)"
      using ok v by (auto simp: index_set_ok_def ranges_ok_append)
    have cend: "i < c_end c" using tw(4) False v las by (metis leI nth_append_length)
    show ?thesis
    proof (cases "i < c_begin c")
      case True
      then have e: "is_find_from v i st = (it, 0)"
        using False vit unfolding is_find_from_def it_def [symmetric] Let_def by simp
      have pre': "\<forall>r \<in> set (flat as). snd r \<le> i" using pre ta by simp
      have "i < snd (hd (c_data c))"
        using True c ranges_ok_nonempty [OF c(2), of "hd (c_data c)"] by (auto simp: chunk_ok_def)
      then have "rpos (flat as @ c_data c @ flat bs) i = length (flat as)"
        using pre' rok v c by (intro rpos_split) (auto simp: chunk_ok_def)
      then show ?thesis
        using e v las c by (auto simp: fpos_def it_ok_def chunk_ok_def)
    next
      case nb: False
      define ib where "ib = (if it = fst st then snd st else 0)"
      define k where "k = ib + length (takeWhile (\<lambda>r. snd r \<le> i) (drop ib (c_data c)))"
      have e: "is_find_from v i st = (it, k)"
        using False nb vit unfolding is_find_from_def it_def [symmetric] Let_def k_def ib_def
        by simp
      have st': "snd st < length (c_data c)" if "it = fst st"
        using st that vit False by (auto simp: it_ok_def it_end_def)
      have ib: "ib < length (c_data c)"
        using st' c by (auto simp: ib_def chunk_ok_def)
      have ib_before: "snd r \<le> i" if "r \<in> set (take ib (c_data c))" for r
        using that before [of r] v las st' by (auto simp: ib_def fpos_def split: if_splits)
      have "\<exists>r \<in> set (drop ib (c_data c)). \<not> snd r \<le> i"
        using cend c(1) ib by (intro bexI [of _ "last (c_data c)"])
          (auto simp: chunk_ok_def last_drop [symmetric] simp del: last_drop)
      then have kl: "length (takeWhile (\<lambda>r. snd r \<le> i) (drop ib (c_data c))) < length (drop ib (c_data c))"
        by (meson length_takeWhile_less)
      then have k: "k < length (c_data c)" using ib by (simp add: k_def)
      have hdk: "i < snd (c_data c ! k)"
        using nth_length_takeWhile [OF kl] k ib by (simp add: k_def)
      have "set (take k (c_data c)) = set (take ib (c_data c)) \<union>
          set (takeWhile (\<lambda>r. snd r \<le> i) (drop ib (c_data c)))"
        by (simp add: k_def take_add flip: takeWhile_eq_take)
      then have tk: "snd r \<le> i" if "r \<in> set (take k (c_data c))" for r
        using that ib_before [of r] by (auto dest: set_takeWhileD)
      have fl: "flat v = (flat as @ take k (c_data c)) @ drop k (c_data c) @ flat bs"
        using v by simp
      have "rpos ((flat as @ take k (c_data c)) @ drop k (c_data c) @ flat bs) i =
          length (flat as @ take k (c_data c))"
        using pre [unfolded ta] tk hdk k rok [unfolded fl]
        by (intro rpos_split) (auto simp: hd_drop_conv_nth)
      then show ?thesis
        using e v las k unfolding fl by (auto simp: fpos_def it_ok_def)
    qed
  qed
  then show "it_ok v (is_find_from v i st)" "fpos v (is_find_from v i st) = rpos (flat v) i"
    by auto
qed

lemma is_find_pos:
  assumes "index_set_ok mx v"
  shows "it_ok v (is_find v i)" "fpos v (is_find v i) = rpos (flat v) i"
proof -
  have b: "it_ok v (it_begin v)" using assms it_ok_begin by (auto simp: index_set_ok_def)
  show "it_ok v (is_find v i)" "fpos v (is_find v i) = rpos (flat v) i"
    unfolding is_find_def by (rule is_find_from_pos [OF assms b]; simp add: fpos_begin)+
qed

text \<open>The situation right after a successful search, as the mutating operations use it.\<close>

definition found :: "nat \<Rightarrow> crv \<Rightarrow> iter \<Rightarrow> nat \<Rightarrow> bool" where
  "found mx v it i \<longleftrightarrow> index_set_ok mx v \<and> it_ok v it \<and> fpos v it = rpos (flat v) i"

lemma found_find: "index_set_ok mx v \<Longrightarrow> found mx v (is_find v i) i"
  by (simp add: found_def is_find_pos)

lemma found_split:
  assumes "found mx v it i"
  obtains xs ys where "flat v = xs @ ys" "length xs = fpos v it"
    "it = it_begin v \<longleftrightarrow> xs = []" "it = it_end v \<longleftrightarrow> ys = []"
    "ys \<noteq> [] \<Longrightarrow> it_deref v it = hd ys" "xs \<noteq> [] \<Longrightarrow> it_deref v (it_prev v it) = last xs"
    "\<And>x. x \<in> set xs \<Longrightarrow> snd x \<le> i" "\<And>y. y \<in> set ys \<Longrightarrow> i < snd y"
    "ranges_ok xs" "ranges_ok ys"
proof -
  have ok: "crv_ok mx v" "ranges_ok (flat v)" "it_ok v it" "fpos v it = rpos (flat v) i"
    using assms by (auto simp: found_def index_set_ok_def)
  from cur.cursor_split [OF ok(1,3)] obtain xs ys where s: "flat v = xs @ ys" "length xs = fpos v it"
    "it = it_begin v \<longleftrightarrow> xs = []" "it = it_end v \<longleftrightarrow> ys = []"
    "ys \<noteq> [] \<Longrightarrow> it_deref v it = hd ys" "xs \<noteq> [] \<Longrightarrow> it_deref v (it_prev v it) = last xs"
    by blast
  have "xs = take (rpos (flat v) i) (flat v)" "ys = drop (rpos (flat v) i) (flat v)"
    using s(1,2) ok(4) by auto
  then have "\<And>x. x \<in> set xs \<Longrightarrow> snd x \<le> i" "\<And>y. y \<in> set ys \<Longrightarrow> i < snd y"
    using rpos_take rpos_drop [OF ok(2)] by metis+
  then show ?thesis using s ok(2) by (intro that) (auto simp: ranges_ok_append)
qed

subsection \<open>contains\<close>

definition is_contains :: "crv \<Rightarrow> nat \<Rightarrow> bool" where
  "is_contains v index =
     (let it = is_find v index in it \<noteq> it_end v \<and> fst (it_deref v it) \<le> index)"

lemma is_contains_iff:
  assumes "index_set_ok mx v"
  shows "is_contains v i \<longleftrightarrow> i \<in> indexes v"
proof -
  from found_split [OF found_find [OF assms, of i]] obtain xs ys where s: "flat v = xs @ ys"
    "is_find v i = it_end v \<longleftrightarrow> ys = []" "ys \<noteq> [] \<Longrightarrow> it_deref v (is_find v i) = hd ys"
    "\<And>x. x \<in> set xs \<Longrightarrow> snd x \<le> i" "\<And>y. y \<in> set ys \<Longrightarrow> i < snd y" by metis
  have "ranges_ok (xs @ ys)" using assms s(1) by (simp add: index_set_ok_def)
  from rset_mem_split [OF this s(4,5)] s(1-3) show ?thesis
    by (auto simp: is_contains_def indexes_def)
qed

subsection \<open>do_add\<close>

definition do_add :: "nat \<Rightarrow> crv \<Rightarrow> iter \<Rightarrow> nat \<Rightarrow> (crv \<times> iter) option" where
  "do_add mx v it index = do {
     let more_before = (it \<noteq> it_begin v);
     let valid = (it \<noteq> it_end v);
     realm_assert (\<not> more_before \<or> snd (it_deref v (it_prev v it)) \<le> index);
     if valid \<and> fst (it_deref v it) \<le> index \<and> index < snd (it_deref v it) then Some (v, it)
     else if more_before \<and> snd (it_deref v (it_prev v it)) = index then
       let prev = it_prev v it;
           v1 = it_adjust v prev 0 1
       in if valid \<and> snd (it_deref v1 prev) = fst (it_deref v1 it) then
            let v2 = it_adjust v1 prev 0 (int (snd (it_deref v1 it)) - int (fst (it_deref v1 it)));
                (v3, it3) = crv_erase v2 it
            in Some (v3, it_prev v3 it3)
          else Some (v1, prev)
     else if valid \<and> fst (it_deref v it) = index + 1 then Some (it_adjust v it (- 1) 0, it)
     else crv_insert mx v it (index, index + 1)
   }"

text \<open>The same on the list of ranges before and after the position: the list and the position.\<close>

definition radd :: "range list \<Rightarrow> range list \<Rightarrow> nat \<Rightarrow> range list \<times> nat" where
  "radd xs ys i =
     (if ys \<noteq> [] \<and> fst (hd ys) \<le> i then (xs @ ys, length xs)
      else if xs \<noteq> [] \<and> snd (last xs) = i then
        (if ys \<noteq> [] \<and> fst (hd ys) = i + 1
         then (butlast xs @ (fst (last xs), snd (hd ys)) # tl ys, length xs - 1)
         else (butlast xs @ (fst (last xs), i + 1) # ys, length xs - 1))
      else if ys \<noteq> [] \<and> fst (hd ys) = i + 1 then (xs @ (i, snd (hd ys)) # tl ys, length xs)
      else (xs @ (i, i + 1) # ys, length xs))"

lemma radd_correct:
  assumes "ranges_ok (xs @ ys)" "\<And>x. x \<in> set xs \<Longrightarrow> snd x \<le> i" "\<And>y. y \<in> set ys \<Longrightarrow> i < snd y"
    and e: "radd xs ys i = (rs, p)"
  shows "ranges_ok rs" "rset rs = insert i (rset (xs @ ys))" "p < length rs"
    "fst (rs ! p) \<le> i \<and> i < snd (rs ! p)"
proof -
  consider (mem) y zs where "ys = y # zs" "fst y \<le> i"
    | (join) x ws y zs where "xs = ws @ [x]" "snd x = i" "ys = y # zs" "fst y = Suc i"
    | (extend) x ws where "xs = ws @ [x]" "snd x = i" "ys = [] \<or> Suc i < fst (hd ys)"
    | (front) y zs where "ys = y # zs" "fst y = Suc i" "xs = [] \<or> snd (last xs) < i"
    | (fresh) "xs = [] \<or> snd (last xs) < i" "ys = [] \<or> Suc i < fst (hd ys)"
  proof -
    have "xs = [] \<or> snd (last xs) = i \<or> snd (last xs) < i"
      using assms(2) [of "last xs"] by (cases "xs = []") auto
    moreover have "xs = [] \<or> xs = butlast xs @ [last xs]" using append_butlast_last_id by metis
    moreover have "ys = [] \<or> ys = hd ys # tl ys" using list.collapse by metis
    moreover have "ys = [] \<or> fst (hd ys) \<le> i \<or> fst (hd ys) = Suc i \<or> Suc i < fst (hd ys)" by linarith
    ultimately show ?thesis using that by metis
  qed
  then have "ranges_ok rs \<and> rset rs = insert i (rset (xs @ ys)) \<and> p < length rs \<and>
    fst (rs ! p) \<le> i \<and> i < snd (rs ! p)"
  proof cases
    case mem
    moreover from this have "i < snd y" using assms(3) by simp
    ultimately show ?thesis
      using e assms(1) by (auto simp: radd_def nth_append)
  next
    case join
    then have "rs = ws @ (fst x, snd y) # zs" "p = length ws"
      using e by (auto simp: radd_def)
    moreover have "fst x < i" "i < snd y" using join assms by (auto simp: ranges_ok_append)
    ultimately show ?thesis
      using join assms(1) by (force simp: ranges_ok_append)
  next
    case extend
    then have "rs = ws @ (fst x, Suc i) # ys" "p = length ws"
      using e by (auto simp: radd_def neq_Nil_conv)
    moreover have "\<forall>y \<in> set ys. Suc i < fst y"
      using extend assms(1) by (cases ys) (force simp: ranges_ok_append)+
    ultimately show ?thesis
      using extend assms(1) by (force simp: ranges_ok_append)
  next
    case front
    then have "rs = xs @ (i, snd y) # zs" "p = length xs"
      using e by (auto simp: radd_def)
    moreover have "\<forall>x \<in> set xs. snd x < i"
      using front assms(1,2) by (cases xs rule: rev_cases) (force simp: ranges_ok_append)+
    ultimately show ?thesis
      using front assms(1) by (force simp: ranges_ok_append)
  next
    case fresh
    then have "rs = xs @ (i, Suc i) # ys" "p = length xs"
      using e by (auto simp: radd_def)
    moreover have "\<forall>x \<in> set xs. snd x < i"
      using fresh assms(1,2) by (cases xs rule: rev_cases) (force simp: ranges_ok_append)+
    moreover have "\<forall>y \<in> set ys. Suc i < fst y"
      using fresh assms(1) by (cases ys) (force simp: ranges_ok_append)+
    ultimately show ?thesis
      using assms(1) by (force simp: ranges_ok_append)
  qed
  then show "ranges_ok rs" "rset rs = insert i (rset (xs @ ys))" "p < length rs"
    "fst (rs ! p) \<le> i \<and> i < snd (rs ! p)" by auto
qed

text \<open>One step of the refinement: adjusting the range before or at the position.\<close>

lemma adjust_at:
  assumes "crv_ok mx v" "it_ok v it" "flat v = xs @ (a, b) # ys" "fpos v it = length xs"
    "a \<le> b" "0 \<le> int a + f" "int a + f \<le> int b + g"
  shows "crv_ok mx (it_adjust v it f g)" "flat (it_adjust v it f g) = xs @ (off a f, off b g) # ys"
    "same_shape v (it_adjust v it f g)" "it_deref v it = (a, b)"
proof -
  have ne: "it \<noteq> it_end v"
    using assms(1-4) at_end_iff [OF assms(1,2)] by simp
  show d: "it_deref v it = (a, b)"
    using it_deref_flat [OF assms(2) ne] assms(3,4) by simp
  show "crv_ok mx (it_adjust v it f g)" "flat (it_adjust v it f g) = xs @ (off a f, off b g) # ys"
    using it_adjust_flat [OF assms(1,2) ne d assms(5-7)] assms(3,4) by simp_all
  show "same_shape v (it_adjust v it f g)"
    using assms(2) ne by simp
qed

lemma deref_at:
  assumes "crv_ok mx v" "it_ok v it" "flat v = xs @ r # ys" "fpos v it = length xs"
  shows "it_deref v it = r" "it \<noteq> it_end v"
proof -
  show "it \<noteq> it_end v" using assms at_end_iff [OF assms(1,2)] by simp
  then show "it_deref v it = r"
    using it_deref_flat [OF assms(2)] assms(3,4) by simp
qed

lemma do_add_join:
  assumes ok: "crv_ok mx v" "it_ok v it" and fl: "flat v = ws @ (a, i) # (Suc i, d) # zs"
    and p: "fpos v it = Suc (length ws)" and o: "a \<le> i" "Suc i \<le> d"
  shows "\<exists>v' it'. do_add mx v it i = Some (v', it') \<and> crv_ok mx v' \<and> it_ok v' it' \<and>
    flat v' = ws @ (a, d) # zs \<and> fpos v' it' = length ws"
proof -
  define prev where "prev = it_prev v it"
  have nb: "it \<noteq> it_begin v" using p it_begin_iff [OF ok] by simp
  have pr: "it_ok v prev" "fpos v prev = length ws"
    using it_prev_ok [OF ok nb] p by (simp_all add: prev_def)
  define v1 where "v1 = it_adjust v prev 0 1"
  have a1: "crv_ok mx v1" "flat v1 = ws @ (a, Suc i) # (Suc i, d) # zs" "same_shape v v1"
    "it_deref v prev = (a, i)"
    using adjust_at [OF ok(1) pr(1) fl pr(2), of 0 1] o by (simp_all add: v1_def)
  note sh = same_shape_it_ok [OF a1(3)] same_shape_fpos [OF a1(3)]
  have fl': "flat v = (ws @ [(a, i)]) @ (Suc i, d) # zs" using fl by simp
  have d0: "it_deref v it = (Suc i, d)" "it \<noteq> it_end v"
    using deref_at [OF ok fl'] p by simp_all
  have d1: "it_deref v1 prev = (a, Suc i)"
    using deref_at [OF a1(1) _ a1(2), of prev] pr sh by simp
  have fl1: "flat v1 = (ws @ [(a, Suc i)]) @ (Suc i, d) # zs" using a1(2) by simp
  have d1': "it_deref v1 it = (Suc i, d)"
    using deref_at [OF a1(1) _ fl1, of it] ok(2) p sh by simp
  define v2 where "v2 = it_adjust v1 prev 0 (int d - (1 + int i))"
  have a2: "crv_ok mx v2" "flat v2 = ws @ (a, d) # (Suc i, d) # zs" "same_shape v1 v2"
    using adjust_at [OF a1(1) _ a1(2), of prev 0 "int d - (1 + int i)"] pr sh o
    by (simp_all add: v2_def off_def)
  note sh2 = same_shape_it_ok [OF a2(3)] same_shape_fpos [OF a2(3)]
  obtain v3 it3 where e: "crv_erase v2 it = (v3, it3)" by (cases "crv_erase v2 it") blast
  have it2: "it_ok v2 it" "fpos v2 it = Suc (length ws)" using ok(2) p sh sh2 by simp_all
  have ne2: "it \<noteq> it_end v2" using at_end_iff [OF a2(1) it2(1)] it2(2) a2(2) by simp
  note er = crv_erase_flat [OF a2(1) it2(1) ne2 e]
  have f3: "flat v3 = ws @ (a, d) # zs" "fpos v3 it3 = Suc (length ws)"
    using er(2,4) it2(2) a2(2) by simp_all
  have "it3 \<noteq> it_begin v3" using it_begin_iff [OF er(1,3)] f3(2) by simp
  note pv = it_prev_ok [OF er(1,3) this]
  have "do_add mx v it i = Some (v3, it_prev v3 it3)"
    unfolding do_add_def using nb d0 a1(4) d1 d1' e o
    by (simp add: Let_def flip: prev_def v1_def v2_def)
  then show ?thesis using er(1) f3 pv by auto
qed

lemma do_add_flat:
  assumes f: "found mx v it i" and mx: "max_size_ok mx"
  defines "p \<equiv> fpos v it"
  shows "\<exists>v' it'. do_add mx v it i = Some (v', it') \<and> crv_ok mx v' \<and> it_ok v' it' \<and>
    (flat v', fpos v' it') = radd (take p (flat v)) (drop p (flat v)) i"
proof -
  have ok: "crv_ok mx v" "ranges_ok (flat v)" "it_ok v it"
    using f by (auto simp: found_def index_set_ok_def)
  from found_split [OF f] obtain xs ys where s: "flat v = xs @ ys" "length xs = p"
    "it = it_begin v \<longleftrightarrow> xs = []" "it = it_end v \<longleftrightarrow> ys = []"
    "ys \<noteq> [] \<Longrightarrow> it_deref v it = hd ys" "xs \<noteq> [] \<Longrightarrow> it_deref v (it_prev v it) = last xs"
    "\<And>x. x \<in> set xs \<Longrightarrow> snd x \<le> i" "\<And>y. y \<in> set ys \<Longrightarrow> i < snd y"
    unfolding p_def by metis
  have tk: "take p (flat v) = xs" "drop p (flat v) = ys" using s(1,2) by auto
  have as: "xs \<noteq> [] \<Longrightarrow> snd (it_deref v (it_prev v it)) \<le> i" using s(6,7) by simp
  have hd: "ys \<noteq> [] \<Longrightarrow> i < snd (hd ys)" using s(8) by simp
  show ?thesis
  proof (cases "ys \<noteq> [] \<and> fst (hd ys) \<le> i")
    case True
    then have "do_add mx v it i = Some (v, it)"
      using s(3-5) as hd by (auto simp: do_add_def realm_assert_def)
    then show ?thesis
      using True ok s(1) by (simp add: radd_def tk p_def [symmetric] s(2))
  next
    case nmem: False
    show ?thesis
    proof (cases "xs \<noteq> [] \<and> snd (last xs) = i")
      case True
      then obtain ws a where xs: "xs = ws @ [(a, i)]"
        by (metis append_butlast_last_id prod.collapse)
      then have ai: "a \<le> i" using ok(2) s(1) by (simp add: ranges_ok_append)
      show ?thesis
      proof (cases "ys \<noteq> [] \<and> fst (hd ys) = i + 1")
        case True
        then obtain d zs where ys: "ys = (Suc i, d) # zs"
          by (metis Suc_eq_plus1 list.collapse prod.collapse)
        have "Suc i \<le> d" using s(8) [of "(Suc i, d)"] ys by simp
        with do_add_join [OF ok(1,3) _ _ ai, of ws d zs] s(1,2) xs ys
        have "\<exists>v' it'. do_add mx v it i = Some (v', it') \<and> crv_ok mx v' \<and> it_ok v' it' \<and>
            flat v' = ws @ (a, d) # zs \<and> fpos v' it' = length ws"
          by (simp add: p_def)
        then show ?thesis
          unfolding tk using xs ys by (simp add: radd_def)
      next
        case False
        define prev where "prev = it_prev v it"
        have nb: "it \<noteq> it_begin v" using s(3) xs by simp
        have pr: "it_ok v prev" "fpos v prev = length ws"
          using it_prev_ok [OF ok(1,3) nb] s(2) xs by (simp_all add: prev_def p_def)
        have fl: "flat v = ws @ (a, i) # ys" using s(1) xs by simp
        have a1: "crv_ok mx (it_adjust v prev 0 1)" "flat (it_adjust v prev 0 1) = ws @ (a, Suc i) # ys"
          "same_shape v (it_adjust v prev 0 1)" "it_deref v prev = (a, i)"
          using adjust_at [OF ok(1) pr(1) fl pr(2), of 0 1] ai by simp_all
        have d1: "it_deref (it_adjust v prev 0 1) prev = (a, Suc i)"
          using deref_at [OF a1(1) _ a1(2), of prev] pr same_shape_it_ok [OF a1(3)]
            same_shape_fpos [OF a1(3)] by simp
        have d2: "it_deref (it_adjust v prev 0 1) it = hd ys" if ne: "ys \<noteq> []"
        proof -
          have "flat (it_adjust v prev 0 1) = (ws @ [(a, Suc i)]) @ hd ys # tl ys"
            using a1(2) ne by simp
          from deref_at(1) [OF a1(1) _ this, of it] show ?thesis
            using ok(3) s(2) xs same_shape_it_ok [OF a1(3)] same_shape_fpos [OF a1(3)]
            by (simp add: p_def)
        qed
        have "do_add mx v it i = Some (it_adjust v prev 0 1, prev)"
          unfolding do_add_def using nb nmem s(4,5) hd False a1(4) d1 d2
          by (auto simp: Let_def simp flip: prev_def)
        then show ?thesis
          using a1 pr False xs nmem same_shape_it_ok [OF a1(3)] same_shape_fpos [OF a1(3)]
          by (auto simp: radd_def tk)
      qed
    next
      case nprev: False
      show ?thesis
      proof (cases "ys \<noteq> [] \<and> fst (hd ys) = i + 1")
        case True
        then obtain d zs where ys: "ys = (Suc i, d) # zs"
          by (metis Suc_eq_plus1 list.collapse prod.collapse)
        have d: "Suc i \<le> d" using s(8) [of "(Suc i, d)"] ys by simp
        have fl: "flat v = xs @ (Suc i, d) # zs" using s(1) ys by simp
        have a1: "crv_ok mx (it_adjust v it (- 1) 0)" "flat (it_adjust v it (- 1) 0) = xs @ (i, d) # zs"
          "same_shape v (it_adjust v it (- 1) 0)"
          using adjust_at [OF ok(1,3) fl, of "- 1" 0] d s(2) by (simp_all add: p_def)
        have "do_add mx v it i = Some (it_adjust v it (- 1) 0, it)"
          unfolding do_add_def using nprev ys s(3-6) as by (auto simp: Let_def realm_assert_def)
        moreover have "radd xs ys i = (xs @ (i, d) # zs, p)"
          using nprev ys s(2) by (auto simp: radd_def)
        ultimately show ?thesis
          unfolding tk using a1 ok(3) same_shape_it_ok [OF a1(3)] same_shape_fpos [OF a1(3)]
          by (simp add: p_def)
      next
        case False
        have r: "radd xs ys i = (xs @ (i, Suc i) # ys, length xs)"
          using nmem nprev False by (auto simp: radd_def)
        have "ranges_ok (xs @ (i, Suc i) # ys)"
          using radd_correct(1) [OF _ s(7,8) r] ok(2) s(1) by simp
        with crv_insert_flat [OF ok(1) mx ok(3), of "(i, Suc i)"] tk p_def
        obtain v' it' where "crv_insert mx v it (i, Suc i) = Some (v', it')" "crv_ok mx v'"
          "flat v' = xs @ (i, Suc i) # ys" "it_ok v' it'" "fpos v' it' = p"
          by auto
        moreover have "do_add mx v it i = crv_insert mx v it (i, Suc i)"
          unfolding do_add_def using nprev nmem False s(3-6) as
          by (auto simp: Let_def realm_assert_def)
        ultimately show ?thesis using r s(2) tk by simp
      qed
    qed
  qed
qed

subsection \<open>add\<close>

text \<open>What a caller of \<open>do_add\<close> relies on.\<close>

lemma do_add_spec:
  assumes f: "found mx v it i" and mx: "max_size_ok mx"
  shows "\<exists>v' it'. do_add mx v it i = Some (v', it') \<and> index_set_ok mx v' \<and> it_ok v' it' \<and>
    indexes v' = insert i (indexes v) \<and> it' \<noteq> it_end v' \<and>
    (\<forall>r \<in> set (take (fpos v' it') (flat v')). snd r \<le> i)"
proof -
  from do_add_flat [OF assms] obtain v' it' where d: "do_add mx v it i = Some (v', it')"
    "crv_ok mx v'" "it_ok v' it'"
    "radd (take (fpos v it) (flat v)) (drop (fpos v it) (flat v)) i = (flat v', fpos v' it')"
    by metis
  have rok: "ranges_ok (flat v)" and p: "fpos v it = rpos (flat v) i"
    using f by (auto simp: found_def index_set_ok_def)
  have r: "ranges_ok (flat v')" "rset (flat v') = insert i (rset (flat v))"
    "fpos v' it' < length (flat v')"
    "fst (flat v' ! fpos v' it') \<le> i \<and> i < snd (flat v' ! fpos v' it')"
    using radd_correct [OF _ _ _ d(4)] rok rpos_take [of _ "flat v" i] rpos_drop [OF rok, of _ i]
    unfolding p by simp_all
  have "snd r \<le> i" if "r \<in> set (take (fpos v' it') (flat v'))" for r
  proof -
    let ?p = "fpos v' it'"
    have "ranges_ok (take ?p (flat v') @ flat v' ! ?p # drop (Suc ?p) (flat v'))"
      using r(1,3) by (simp flip: take_Suc_drop_eq)
    then have "snd r < fst (flat v' ! ?p)"
      using that by (simp add: ranges_ok_append)
    with r(4) show ?thesis by simp
  qed
  moreover have "it' \<noteq> it_end v'" using r(3) by (auto simp: fpos_end)
  ultimately show ?thesis
    using d r by (auto simp: index_set_ok_def indexes_def)
qed

definition is_add :: "nat \<Rightarrow> nat \<Rightarrow> crv \<Rightarrow> crv option" where
  "is_add mx index v = map_option fst (do_add mx v (is_find v index) index)"

fun add_from :: "nat \<Rightarrow> nat list \<Rightarrow> crv \<Rightarrow> iter \<Rightarrow> crv option" where
  "add_from mx [] v it = Some v"
| "add_from mx (index # is) v it = do {
     (v', it') \<leftarrow> do_add mx v (is_find_from v index it) index;
     add_from mx is v' it'
   }"

definition is_add_set :: "nat \<Rightarrow> crv \<Rightarrow> crv \<Rightarrow> crv option" where
  "is_add_set mx other v = add_from mx (as_indexes other) v (it_begin v)"

definition is_init :: "nat \<Rightarrow> nat list \<Rightarrow> crv option" where
  "is_init mx values = foldM (is_add mx) values []"

lemma is_add_correct:
  assumes "index_set_ok mx v" "max_size_ok mx"
  shows "\<exists>v'. is_add mx i v = Some v' \<and> index_set_ok mx v' \<and> indexes v' = insert i (indexes v)"
  using do_add_spec [OF found_find [OF assms(1)] assms(2), of i] by (auto simp: is_add_def)

lemma add_from_correct:
  assumes "index_set_ok mx v" "max_size_ok mx" "it_ok v it" "sorted_wrt (<) is"
    "\<And>r i. r \<in> set (take (fpos v it) (flat v)) \<Longrightarrow> i \<in> set is \<Longrightarrow> snd r \<le> i"
  shows "\<exists>v'. add_from mx is v it = Some v' \<and> index_set_ok mx v' \<and>
    indexes v' = indexes v \<union> set is"
  using assms
proof (induction mx "is" v it rule: add_from.induct)
  case (2 mx i "is" v it)
  have "found mx v (is_find_from v i it) i"
    using is_find_from_pos [OF "2.prems"(1,3), of i] "2.prems"(1,5) by (simp add: found_def)
  from do_add_spec [OF this "2.prems"(2)] obtain v' it' where d:
    "do_add mx v (is_find_from v i it) i = Some (v', it')" "index_set_ok mx v'" "it_ok v' it'"
    "indexes v' = insert i (indexes v)"
    "\<forall>r \<in> set (take (fpos v' it') (flat v')). snd r \<le> i" by metis
  have "\<exists>w. add_from mx is v' it' = Some w \<and> index_set_ok mx w \<and> indexes w = indexes v' \<union> set is"
    using d "2.prems"(2,4) by (intro "2.IH" [OF _ refl]) (fastforce intro: order_trans)+
  then show ?case using d by auto
qed auto

lemma is_add_set_correct:
  assumes "index_set_ok mx v" "index_set_ok mx' w" "max_size_ok mx"
  shows "\<exists>v'. is_add_set mx w v = Some v' \<and> index_set_ok mx v' \<and> indexes v' = indexes v \<union> indexes w"
proof -
  have "it_ok v (it_begin v)" using assms(1) it_ok_begin by (auto simp: index_set_ok_def)
  moreover have "sorted_wrt (<) (as_indexes w)"
    using assms(2) by (simp add: as_indexes_def index_set_ok_def sorted_ilist)
  ultimately show ?thesis
    using add_from_correct [OF assms(1,3), of "it_begin v" "as_indexes w"]
    by (simp add: is_add_set_def as_indexes_def indexes_def fpos_begin)
qed

subsection \<open>clear and set\<close>

definition is_clear :: "crv \<Rightarrow> crv" where
  "is_clear v = []"

definition is_set :: "nat \<Rightarrow> nat \<Rightarrow> crv \<Rightarrow> crv option" where
  "is_set mx len v =
     (let v' = is_clear v in if len \<noteq> 0 then crv_push_back mx v' (0, len) else Some v')"

lemma index_set_ok_Nil [simp]: "index_set_ok mx []" "indexes [] = {}"
  by (simp_all add: index_set_ok_def indexes_def)

lemma is_clear_correct: "index_set_ok mx (is_clear v)" "indexes (is_clear v) = {}"
  by (simp_all add: is_clear_def)

lemma is_set_correct:
  assumes "max_size_ok mx"
  shows "\<exists>v'. is_set mx len v = Some v' \<and> index_set_ok mx v' \<and> indexes v' = {..<len}"
  using crv_push_back_flat [OF crv_ok_simps(1) assms, of "(0, len)"]
  by (auto simp: is_set_def is_clear_def index_set_ok_def indexes_def)

subsection \<open>remove\<close>

partial_function (option) do_remove ::
  "nat \<Rightarrow> crv \<Rightarrow> iter \<Rightarrow> nat \<Rightarrow> nat \<Rightarrow> (crv \<times> iter) option" where
  "do_remove mx v it0 b0 e =
     (let it = is_find_from v b0 it0 in
      if it \<noteq> it_end v \<and> fst (it_deref v it) < e then
        let r = it_deref v it;
            b = max (fst r) b0
        in if fst r < b \<and> e < snd r then
             let v1 = it_set v it (fst r) b
             in Option.bind (crv_insert mx v1 (it_next v1 it) (e, snd r))
                  (\<lambda>(v2, it2). do_remove mx v2 (it_prev v2 it2) b e)
           else if b = fst r \<and> snd r \<le> e then
             (case crv_erase v it of (v1, it1) \<Rightarrow> do_remove mx v1 it1 b e)
           else if b = fst r then do_remove mx (it_set v it e (snd r)) it b e
           else do_remove mx (it_set v it (fst r) b) it b e
      else Some (v, it))"

definition is_remove :: "nat \<Rightarrow> nat \<Rightarrow> nat \<Rightarrow> crv \<Rightarrow> crv option" where
  "is_remove mx index cnt v =
     map_option fst (do_remove mx v (is_find v index) index (index + cnt))"

fun remove_from :: "nat \<Rightarrow> range list \<Rightarrow> crv \<Rightarrow> iter \<Rightarrow> crv option" where
  "remove_from mx [] v it = Some v"
| "remove_from mx (r # rs) v it = do {
     (v', it') \<leftarrow> do_remove mx v it (fst r) (snd r);
     if it' = it_end v' then Some v' else remove_from mx rs v' it'
   }"

definition is_remove_set :: "nat \<Rightarrow> crv \<Rightarrow> crv \<Rightarrow> crv option" where
  "is_remove_set mx values v = remove_from mx (flat values) v (it_begin v)"

lemma set_at:
  assumes "crv_ok mx v" "it_ok v it" "flat v = xs @ r # ys" "fpos v it = length xs"
  shows "crv_ok mx (it_set v it a b)" "flat (it_set v it a b) = xs @ (a, b) # ys"
    "same_shape v (it_set v it a b)"
proof -
  have ne: "it \<noteq> it_end v" by (rule deref_at(2) [OF assms])
  show "crv_ok mx (it_set v it a b)" "flat (it_set v it a b) = xs @ (a, b) # ys"
    using it_set_flat [OF assms(1,2) ne] assms(3,4) by simp_all
  show "same_shape v (it_set v it a b)" using assms(2) ne by simp
qed

text \<open>One iteration of \<open>do_remove\<close>: it either stops or goes on with fewer overlapping ranges.\<close>

definition overlaps :: "nat \<Rightarrow> nat \<Rightarrow> range list \<Rightarrow> nat" where
  "overlaps b e rs = length (filter (\<lambda>r. b < snd r \<and> fst r < e) rs)"

lemma overlaps_simps [simp]:
  "overlaps b e [] = 0"
  "overlaps b e (r # rs) = (if b < snd r \<and> fst r < e then 1 else 0) + overlaps b e rs"
  "overlaps b e (xs @ ys) = overlaps b e xs + overlaps b e ys"
  by (simp_all add: overlaps_def)

lemma overlaps_mono: "b \<le> b' \<Longrightarrow> overlaps b' e rs \<le> overlaps b e rs"
  unfolding overlaps_def by (rule length_filter_mono) auto

definition remove_ready :: "nat \<Rightarrow> crv \<Rightarrow> iter \<Rightarrow> nat \<Rightarrow> bool" where
  "remove_ready mx v it b \<longleftrightarrow> index_set_ok mx v \<and> it_ok v it \<and>
     (\<forall>r \<in> set (take (fpos v it) (flat v)). snd r \<le> b)"

lemma remove_ready_found: "remove_ready mx v it b \<Longrightarrow> found mx v (is_find_from v b it) b"
  using is_find_from_pos [of mx v it b] by (simp add: remove_ready_def found_def)

lemma do_remove_split_case:
  assumes ok: "crv_ok mx v" "it_ok v it" and mx: "max_size_ok mx"
    and fl: "flat v = xs @ (a, c) # zs" "fpos v it = length xs"
    and rok: "ranges_ok (flat v)" and o: "a < b" "b < e" "e < c"
  shows "\<exists>v2 it2. crv_insert mx (it_set v it a b) (it_next (it_set v it a b) it) (e, c) = Some (v2, it2) \<and>
    crv_ok mx v2 \<and> flat v2 = xs @ (a, b) # (e, c) # zs \<and> it_ok v2 (it_prev v2 it2) \<and>
    fpos v2 (it_prev v2 it2) = length xs"
proof -
  define v1 where "v1 = it_set v it a b"
  have s: "crv_ok mx v1" "flat v1 = xs @ (a, b) # zs" "same_shape v v1"
    using set_at [OF ok fl, of a b] by (simp_all add: v1_def)
  have it1: "it_ok v1 it" "fpos v1 it = length xs"
    using same_shape_it_ok [OF s(3)] same_shape_fpos [OF s(3)] ok(2) fl(2) by simp_all
  have ne: "it \<noteq> it_end v1" by (rule deref_at(2) [OF s(1) it1(1) s(2) it1(2)])
  have nx: "it_ok v1 (it_next v1 it)" "fpos v1 (it_next v1 it) = Suc (length xs)"
    using it_next_ok [OF s(1) it1(1) ne] it1(2) by simp_all
  have "ranges_ok (xs @ (a, b) # (e, c) # zs)"
    using rok fl(1) o by (force simp: ranges_ok_append)
  then obtain v2 it2 where i: "crv_insert mx v1 (it_next v1 it) (e, c) = Some (v2, it2)" "crv_ok mx v2"
    "flat v2 = xs @ (a, b) # (e, c) # zs" "it_ok v2 it2" "fpos v2 it2 = Suc (length xs)"
    using crv_insert_flat [OF s(1) mx nx(1), of "(e, c)"] nx(2) s(2) by auto
  have "it2 \<noteq> it_begin v2" using it_begin_iff [OF i(2,4)] i(5) by simp
  from it_prev_ok [OF i(2,4) this] i show ?thesis by (simp flip: v1_def)
qed

lemma rset_diff_cong:
  assumes "\<And>x. x \<in> X \<Longrightarrow> x < b" "\<And>x. x \<in> Z \<Longrightarrow> c < x" "b \<le> b'" "b' = max a b"
    "{a..<c} - {b..<e} = M - {b'..<e}" "a < c" "b < c" "a < e"
  shows "(X \<union> ({a..<c} \<union> Z)) - {b..<e} = (X \<union> (M \<union> Z)) - {b'..<(e::nat)}"
proof -
  have "X - {b..<e} = X - {b'..<e}" using assms(1,3) by fastforce
  moreover have "Z - {b..<e} = Z - {b'..<e}"
    using assms(2,4,6,7) by (fastforce simp: max_def)
  ultimately show ?thesis using assms(5) by blast
qed

lemma remove_progress:
  assumes fl: "flat v = xs @ (a, c) # zs" and rok: "ranges_ok (flat v)"
    and xs: "\<forall>x \<in> set xs. snd x \<le> b" and o: "b < c" "a < e" and b': "b' = max a b"
    and w: "crv_ok mx w" "flat w = xs @ ms @ zs" "it_ok w it" "fpos w it = length xs"
    and ms: "ranges_ok (xs @ ms @ zs)" "overlaps b' e ms = 0"
      "{a..<c} - {b..<e} = rset ms - {b'..<e}"
  shows "remove_ready mx w it b' \<and> overlaps b' e (flat w) < overlaps b e (flat v) \<and>
    indexes w - {b'..<e} = indexes v - {b..<e}"
proof -
  have bb: "b \<le> b'" and ac: "a < c" using b' rok fl by (auto simp: ranges_ok_append)
  have below: "\<And>x. x \<in> rset xs \<Longrightarrow> x < b" using xs by (fastforce simp: rset_iff)
  have above: "\<And>x. x \<in> rset zs \<Longrightarrow> c < x"
    using rok fl by (fastforce simp: rset_iff ranges_ok_append)
  have "remove_ready mx w it b'"
    using w ms(1) xs bb by (fastforce simp: remove_ready_def index_set_ok_def)
  moreover have "overlaps b' e (flat w) < overlaps b e (flat v)"
    using ms(2) o overlaps_mono [OF bb, of e xs] overlaps_mono [OF bb, of e zs]
    by (simp add: w(2) fl)
  moreover have "indexes w - {b'..<e} = indexes v - {b..<e}"
    unfolding indexes_def w(2) fl
    using rset_diff_cong [OF below above bb b' ms(3) ac o] by auto
  ultimately show ?thesis by blast
qed

lemma remove_continues:
  "do_remove mx v it0 b e = do_remove mx w it1 b' e \<Longrightarrow> b' < e \<Longrightarrow>
   remove_ready mx w it1 b' \<and> overlaps b' e (flat w) < overlaps b e (flat v) \<and>
     indexes w - {b'..<e} = indexes v - {b..<e} \<Longrightarrow>
   (\<exists>it. do_remove mx v it0 b e = Some (v, it) \<and> remove_ready mx v it e \<and>
      indexes v \<inter> {b..<e} = {}) \<or>
    (\<exists>w it1 b'. do_remove mx v it0 b e = do_remove mx w it1 b' e \<and> b' < e \<and>
      remove_ready mx w it1 b' \<and> overlaps b' e (flat w) < overlaps b e (flat v) \<and>
      indexes w - {b'..<e} = indexes v - {b..<e})"
  by blast

lemma do_remove_iter:
  assumes rdy: "remove_ready mx v it0 b" and mx: "max_size_ok mx" and be: "b < e"
  shows "(\<exists>it. do_remove mx v it0 b e = Some (v, it) \<and> remove_ready mx v it e \<and>
      indexes v \<inter> {b..<e} = {}) \<or>
    (\<exists>w it1 b'. do_remove mx v it0 b e = do_remove mx w it1 b' e \<and> b' < e \<and>
      remove_ready mx w it1 b' \<and> overlaps b' e (flat w) < overlaps b e (flat v) \<and>
      indexes w - {b'..<e} = indexes v - {b..<e})"
proof -
  define it where "it = is_find_from v b it0"
  have fd: "found mx v it b" using remove_ready_found [OF rdy] by (simp add: it_def)
  then have ok: "crv_ok mx v" "it_ok v it" and rok: "ranges_ok (flat v)"
    by (auto simp: found_def index_set_ok_def)
  from found_split [OF fd] obtain xs ys where s: "flat v = xs @ ys" "length xs = fpos v it"
    "it = it_end v \<longleftrightarrow> ys = []" "ys \<noteq> [] \<Longrightarrow> it_deref v it = hd ys"
    "\<And>x. x \<in> set xs \<Longrightarrow> snd x \<le> b" "\<And>y. y \<in> set ys \<Longrightarrow> b < snd y" by metis
  show ?thesis
  proof (cases "ys \<noteq> [] \<and> fst (hd ys) < e")
    case False
    then have "do_remove mx v it0 b e = Some (v, it)"
      using s(3,4) by (subst do_remove.simps) (auto simp: Let_def simp flip: it_def)
    moreover have "remove_ready mx v it e"
      using ok rok s(1,2,5) be by (fastforce simp: remove_ready_def index_set_ok_def)
    moreover have "rset xs \<inter> {b..<e} = {}"
      using s(5) by (fastforce simp: rset_iff)
    moreover have "rset ys \<inter> {b..<e} = {}"
      using False rok s(1) by (cases ys) (fastforce simp: rset_iff ranges_ok_append)+
    ultimately show ?thesis by (auto simp: indexes_def s(1))
  next
    case True
    then obtain a c zs where ys: "ys = (a, c) # zs" and ae: "a < e"
      by (metis list.collapse prod.collapse fst_conv)
    have bc: "b < c" using s(6) [of "(a, c)"] ys by simp
    have fl: "flat v = xs @ (a, c) # zs" and p: "fpos v it = length xs" using s(1,2) ys by simp_all
    define b' where "b' = max a b"
    have b'e: "b' < e" using ae be by (simp add: b'_def)
    have d: "it \<noteq> it_end v" "it_deref v it = (a, c)" using s(3,4) ys by auto
    have "\<forall>x \<in> set xs. snd x \<le> b" using s(5) by blast
    note prog = remove_progress [OF fl rok this bc ae b'_def]
    note unf = do_remove.simps [of mx v it0 b e, folded it_def, unfolded Let_def d(2)]
    consider (split) "a < b" "e < c" | (whole) "b \<le> a" "c \<le> e" | (front) "b \<le> a" "e < c"
      | (rest) "a < b" "c \<le> e" by linarith
    then show ?thesis
    proof cases
      case split
      then have b': "b' = b" by (simp add: b'_def)
      from do_remove_split_case [OF ok mx fl p rok split(1) be split(2)]
      obtain v2 it2 where v2: "crv_insert mx (it_set v it a b) (it_next (it_set v it a b) it) (e, c) = Some (v2, it2)"
        "crv_ok mx v2" "flat v2 = xs @ [(a, b), (e, c)] @ zs" "it_ok v2 (it_prev v2 it2)"
        "fpos v2 (it_prev v2 it2) = length xs" by auto
      have eq: "do_remove mx v it0 b e = do_remove mx v2 (it_prev v2 it2) b' e"
        using split d v2(1) ae b' unfolding unf by (simp add: max_def)
      have "ranges_ok (xs @ [(a, b), (e, c)] @ zs)"
        using rok fl split be by (force simp: ranges_ok_append)
      moreover have "{a..<c} - {b..<e} = rset [(a, b), (e, c)] - {b'..<e}"
        using split be b' by auto
      ultimately show ?thesis
        using remove_continues [OF eq b'e prog [OF v2(2-5)]] b' by simp
    next
      case whole
      then have b': "b' = a" by (simp add: b'_def)
      obtain v1 it1 where e: "crv_erase v it = (v1, it1)" by (cases "crv_erase v it") blast
      note er = crv_erase_flat [OF ok d(1) e]
      have eq: "do_remove mx v it0 b e = do_remove mx v1 it1 b' e"
        using whole d e ae b' unfolding unf by (simp add: max_def)
      have "flat v1 = xs @ [] @ zs" "fpos v1 it1 = length xs" using er fl p by simp_all
      moreover have "ranges_ok (xs @ [] @ zs)" using rok fl by (auto simp: ranges_ok_append)
      moreover have "{a..<c} - {b..<e} = rset [] - {b'..<e}" using whole by auto
      ultimately show ?thesis
        using remove_continues [OF eq b'e prog [OF er(1) _ er(3), of "[]"]] by simp
    next
      case front
      then have b': "b' = a" by (simp add: b'_def)
      note st = set_at [OF ok fl p, of e c]
      have eq: "do_remove mx v it0 b e = do_remove mx (it_set v it e c) it b' e"
        using front d ae b' unfolding unf by (simp add: max_def)
      have "ranges_ok (xs @ [(e, c)] @ zs)"
        using rok fl front ae by (force simp: ranges_ok_append)
      moreover have "{a..<c} - {b..<e} = rset [(e, c)] - {b'..<e}" using front ae b' by auto
      ultimately show ?thesis
        using remove_continues [OF eq b'e prog [OF st(1), of "[(e, c)]" it]] st(2)
          same_shape_it_ok [OF st(3)] same_shape_fpos [OF st(3)] ok(2) p by simp
    next
      case rest
      then have b': "b' = b" by (simp add: b'_def)
      note st = set_at [OF ok fl p, of a b]
      have eq: "do_remove mx v it0 b e = do_remove mx (it_set v it a b) it b' e"
        using rest d ae b' unfolding unf by (simp add: max_def)
      have "ranges_ok (xs @ [(a, b)] @ zs)"
        using rok fl rest bc by (force simp: ranges_ok_append)
      moreover have "{a..<c} - {b..<e} = rset [(a, b)] - {b'..<e}" using rest bc b' by auto
      ultimately show ?thesis
        using remove_continues [OF eq b'e prog [OF st(1), of "[(a, b)]" it]] st(2)
          same_shape_it_ok [OF st(3)] same_shape_fpos [OF st(3)] ok(2) p b' by simp
    qed
  qed
qed

lemma do_remove_correct:
  assumes "remove_ready mx v it0 b" "max_size_ok mx" "b < e"
  shows "\<exists>v' it'. do_remove mx v it0 b e = Some (v', it') \<and> remove_ready mx v' it' e \<and>
    indexes v' = indexes v - {b..<e}"
  using assms
proof (induction "overlaps b e (flat v)" arbitrary: v it0 b rule: less_induct)
  case less
  from do_remove_iter [OF less.prems] show ?case
  proof (elim disjE exE conjE)
    fix it
    assume "do_remove mx v it0 b e = Some (v, it)" "remove_ready mx v it e" "indexes v \<inter> {b..<e} = {}"
    then show ?case by auto
  next
    fix w it1 b'
    assume w: "do_remove mx v it0 b e = do_remove mx w it1 b' e" "b' < e" "remove_ready mx w it1 b'"
      "overlaps b' e (flat w) < overlaps b e (flat v)" "indexes w - {b'..<e} = indexes v - {b..<e}"
    from less.hyps [OF w(4,3) less.prems(2) w(2)] w(1,5) show ?case by simp
  qed
qed

lemma is_remove_correct:
  assumes "index_set_ok mx v" "max_size_ok mx" "0 < n"
  shows "\<exists>v'. is_remove mx i n v = Some v' \<and> index_set_ok mx v' \<and> indexes v' = indexes v - {i..<i + n}"
proof -
  have "remove_ready mx v (is_find v i) i"
    using is_find_pos [OF assms(1), of i] assms(1) rpos_take [of _ "flat v" i]
    by (simp add: remove_ready_def)
  from do_remove_correct [OF this assms(2), of "i + n"] assms(3) show ?thesis
    by (auto simp: is_remove_def remove_ready_def)
qed

lemma remove_from_correct:
  assumes "remove_ready mx v it b" "max_size_ok mx" "ranges_ok rs" "\<forall>r \<in> set rs. b \<le> fst r"
  shows "\<exists>v'. remove_from mx rs v it = Some v' \<and> index_set_ok mx v' \<and> indexes v' = indexes v - rset rs"
  using assms
proof (induction mx rs v it arbitrary: b rule: remove_from.induct)
  case (1 mx v it)
  then show ?case by (auto simp: remove_ready_def)
next
  case (2 mx r rs v it)
  have "remove_ready mx v it (fst r)"
    using "2.prems"(1,4) by (fastforce simp: remove_ready_def)
  from do_remove_correct [OF this "2.prems"(2), of "snd r"] "2.prems"(3)
  obtain v' it' where d: "do_remove mx v it (fst r) (snd r) = Some (v', it')"
    "remove_ready mx v' it' (snd r)" "indexes v' = indexes v - {fst r..<snd r}"
    by auto
  show ?case
  proof (cases "it' = it_end v'")
    case True
    have "\<forall>x \<in> indexes v'. x < snd r"
      using d(2) True by (fastforce simp: remove_ready_def indexes_def rset_iff fpos_end)
    moreover have "\<forall>x \<in> rset rs. snd r < x"
      using "2.prems"(3) by (fastforce simp: rset_iff)
    ultimately have "indexes v' \<inter> rset rs = {}" by fastforce
    then show ?thesis using d True by (auto simp: remove_ready_def)
  next
    case False
    have "\<exists>w. remove_from mx rs v' it' = Some w \<and> index_set_ok mx w \<and> indexes w = indexes v' - rset rs"
      using d "2.prems"(2,3) by (intro "2.IH" [OF _ refl False d(2)]) (auto simp: less_imp_le)
    then show ?thesis using d False by auto
  qed
qed

lemma is_remove_set_correct:
  assumes "index_set_ok mx v" "index_set_ok mx' w" "max_size_ok mx"
  shows "\<exists>v'. is_remove_set mx w v = Some v' \<and> index_set_ok mx v' \<and> indexes v' = indexes v - indexes w"
proof -
  have "remove_ready mx v (it_begin v) 0"
    using assms(1) it_ok_begin [of mx v] by (simp add: remove_ready_def index_set_ok_def fpos_begin)
  from remove_from_correct [OF this assms(3), of "flat w"] assms(2) show ?thesis
    by (simp add: is_remove_set_def index_set_ok_def indexes_def)
qed

subsection \<open>Shifting all ranges from an iterator on\<close>

function shift_from :: "crv \<Rightarrow> iter \<Rightarrow> int \<Rightarrow> crv" where
  "shift_from v it d =
     (if fst it < length v then shift_from (it_shift v it d) (it_next v it) d else v)"
  by pat_completeness auto
termination
  by (relation "measures [\<lambda>(v, it, d). length v - fst it,
      \<lambda>(v, it, d). length (c_data (v ! fst it)) - snd it]")
    (auto simp: it_shift_def it_next_def next_chunk_def Let_def)

declare shift_from.simps [simp del]

definition rmove :: "int \<Rightarrow> range list \<Rightarrow> range list" where
  "rmove d rs = map (\<lambda>r. (off (fst r) d, off (snd r) d)) rs"

lemma rmove_simps [simp]: "rmove d [] = []" "rmove d (r # rs) = (off (fst r) d, off (snd r) d) # rmove d rs"
  "length (rmove d rs) = length rs"
  by (simp_all add: rmove_def)

lemma shift_from_flat:
  assumes "crv_ok mx v" "it_ok v it" "flat v = xs @ ys" "fpos v it = length xs"
    "\<forall>r \<in> set ys. fst r \<le> snd r \<and> 0 \<le> int (fst r) + d"
  shows "crv_ok mx (shift_from v it d) \<and> flat (shift_from v it d) = xs @ rmove d ys \<and>
    same_shape v (shift_from v it d)"
  using assms
proof (induction v it d arbitrary: xs ys rule: shift_from.induct)
  case (1 v it d)
  show ?case
  proof (cases ys)
    case Nil
    then have "it = it_end v" using "1.prems" at_end_iff [of mx v it] by simp
    then have "shift_from v it d = v" by (subst shift_from.simps) (simp add: it_end_def)
    then show ?thesis using "1.prems" Nil by simp
  next
    case (Cons r zs)
    then have fl: "flat v = xs @ r # zs" using "1.prems" by simp
    have ne: "it \<noteq> it_end v" "it_deref v it = (fst r, snd r)"
      using deref_at [OF "1.prems"(1,2) fl "1.prems"(4)] by simp_all
    then have lt: "fst it < length v" using fst_at_end_iff [OF "1.prems"(2)] by simp
    let ?w = "it_shift v it d" and ?r' = "(off (fst r) d, off (snd r) d)"
    have w: "crv_ok mx ?w" "flat ?w = (xs @ [?r']) @ zs" "same_shape v ?w"
      using it_shift_flat [OF "1.prems"(1,2) ne] "1.prems"(2,4,5) Cons fl ne by simp_all
    have nx: "it_ok ?w (it_next v it)" "fpos ?w (it_next v it) = length (xs @ [?r'])"
      using it_next_ok [OF "1.prems"(1,2) ne(1)] "1.prems"(4) same_shape_it_ok [OF w(3)]
        same_shape_fpos [OF w(3)] by simp_all
    have "crv_ok mx (shift_from ?w (it_next v it) d) \<and>
      flat (shift_from ?w (it_next v it) d) = (xs @ [?r']) @ rmove d zs \<and>
      same_shape ?w (shift_from ?w (it_next v it) d)"
      using "1.IH" [OF lt w(1) nx(1) w(2) nx(2)] "1.prems"(5) Cons by simp
    then show ?thesis
      using lt w(3) Cons by (auto simp: shift_from.simps [of v it d] intro: same_shape_trans)
  qed
qed

end
