(* ===== verification/Index_Set_Shift.thy ===== *)
theory Index_Set_Shift
  imports Index_Set
begin

text \<open>
  The operations of \<open>IndexSet\<close> that renumber indices: \<open>insert_at\<close>, \<open>shift_for_insert_at\<close>,
  \<open>erase_at\<close>, \<open>erase_or_unshift\<close>, \<open>shift\<close>, \<open>unshift\<close>, \<open>add_shifted\<close>, and the counting they use.

  The set-level contracts are \<open>ins_shift\<close> (make room at a position), \<open>del_shift\<close> (close the
  gap of a position) and \<open>unrank\<close> (the number of non-members below an index): \<open>shift\<close> and
  \<open>unshift\<close> are the two directions of the order isomorphism between the naturals and the
  complement of the set.
\<close>

subsection \<open>Set-level contracts\<close>

definition ins_shift :: "nat \<Rightarrow> nat \<Rightarrow> nat set \<Rightarrow> nat set" where
  "ins_shift i n S = {x \<in> S. x < i} \<union> (\<lambda>x. x + n) ` {x \<in> S. i \<le> x}"

definition del_shift :: "nat \<Rightarrow> nat set \<Rightarrow> nat set" where
  "del_shift i S = {x \<in> S. x < i} \<union> (\<lambda>x. x - 1) ` {x \<in> S. i < x}"

definition unrank :: "nat set \<Rightarrow> nat \<Rightarrow> nat" where
  "unrank S k = card ({..<k} - S)"

lemma unrank_eq: "unrank S k = k - card (S \<inter> {..<k})"
proof -
  have "card ({..<k} - S) = card {..<k} - card ({..<k} \<inter> S)"
    by (rule card_Diff_subset_Int) simp
  then show ?thesis by (simp add: unrank_def Int_commute)
qed

lemma unrank_strict_mono: "j \<notin> S \<Longrightarrow> j < k \<Longrightarrow> unrank S j < unrank S k"
  unfolding unrank_def by (rule psubset_card_mono) auto

lemma unrank_inj: "j \<notin> S \<Longrightarrow> k \<notin> S \<Longrightarrow> unrank S j = unrank S k \<Longrightarrow> j = k"
  by (metis less_irrefl linorder_neqE_nat unrank_strict_mono)

lemma unrank_mono: "j \<le> k \<Longrightarrow> unrank S j \<le> unrank S k"
  unfolding unrank_def by (rule card_mono) auto

lemma unrank_le: "unrank S k \<le> k"
  by (simp add: unrank_eq)

lemma rset_rmove_int: "rset (rmove (int n) rs) = (\<lambda>x. x + n) ` rset rs"
  by (induction rs) (auto simp: image_Un)

lemma rset_rmove_dec: "\<forall>r \<in> set rs. 0 < fst r \<Longrightarrow> rset (rmove (- 1) rs) = (\<lambda>x. x - 1) ` rset rs"
proof (induction rs)
  case (Cons r rs)
  have "{fst r - 1..<snd r - 1} = (\<lambda>x. x - 1) ` {fst r..<snd r}"
    using Cons.prems by (force simp: image_iff Bex_def intro: exI [of _ "Suc _"])
  with Cons show ?case by (simp add: image_Un)
qed simp

lemma ranges_ok_rmove_int [simp]: "ranges_ok (rmove (int n) rs) \<longleftrightarrow> ranges_ok rs"
  by (induction rs) (auto simp: rmove_def)

lemma ranges_ok_rmove_dec: "ranges_ok rs \<Longrightarrow> \<forall>r \<in> set rs. 0 < fst r \<Longrightarrow> ranges_ok (rmove (- 1) rs)"
  by (induction rs) (force simp: rmove_def)+

lemma set_rmove: "set (rmove d rs) = (\<lambda>r. (off (fst r) d, off (snd r) d)) ` set rs"
  by (simp add: rmove_def)

subsection \<open>insert_at (one position)\<close>

fun insert_loop :: "nat \<Rightarrow> crv \<Rightarrow> iter \<Rightarrow> nat \<Rightarrow> nat \<Rightarrow> crv option" where
  "insert_loop mx v pos j 0 = Some v"
| "insert_loop mx v pos j (Suc n) = do {
     (v', it') \<leftarrow> do_add mx v pos j;
     insert_loop mx v' (it_next v' it') (j + 1) n
   }"

definition is_insert_at :: "nat \<Rightarrow> nat \<Rightarrow> nat \<Rightarrow> crv \<Rightarrow> crv option" where
  "is_insert_at mx index cnt v = do {
     realm_assert (cnt > 0);
     let pos = is_find v index;
     let (v1, in_existing) =
       (if pos \<noteq> it_end v then
          let (v0, b) = (if fst (it_deref v pos) \<le> index then (it_adjust v pos 0 (int cnt), True)
                         else (it_shift v pos (int cnt), False))
          in (shift_from v0 (it_next v0 pos) (int cnt), b)
        else (v, False));
     if \<not> in_existing then insert_loop mx v1 pos index cnt else Some v1
   }"

definition is_shift_for_insert_at :: "nat \<Rightarrow> nat \<Rightarrow> nat \<Rightarrow> crv \<Rightarrow> crv option" where
  "is_shift_for_insert_at mx index cnt v = do {
     realm_assert (cnt > 0);
     let it = is_find v index;
     if it = it_end v then Some v
     else
       let v1 = shift_from v it (int cnt);
           r = it_deref v1 it
       in if fst r < index + cnt then
            let v2 = it_set v1 it (fst r - cnt) index
            in map_option fst (crv_insert mx v2 (it_next v2 it) (index + cnt, snd r))
          else Some v1
   }"

lemma shiftable_up:
  assumes "ranges_ok (xs @ ys)"
  shows "\<forall>r \<in> set ys. fst r \<le> snd r \<and> 0 \<le> int (fst r) + int n"
proof
  fix r
  assume "r \<in> set ys"
  with ranges_ok_nonempty [OF assms, of r] show "fst r \<le> snd r \<and> 0 \<le> int (fst r) + int n" by simp
qed

lemma insert_loop_correct:
  assumes "crv_ok mx v" "it_ok v pos" "flat v = xs @ ys" "fpos v pos = length xs" "max_size_ok mx"
    "ranges_ok (xs @ ys)" "\<forall>x \<in> set xs. snd x \<le> j" "\<forall>y \<in> set ys. j + n < fst y"
  shows "\<exists>v'. insert_loop mx v pos j n = Some v' \<and> index_set_ok mx v' \<and>
    indexes v' = indexes v \<union> {j..<j + n}"
  using assms
proof (induction n arbitrary: v pos xs j)
  case 0
  then show ?case by (simp add: index_set_ok_def)
next
  case (Suc n)
  have "j < snd y" if "y \<in> set ys" for y
    using that Suc.prems(8) ranges_ok_nonempty [OF Suc.prems(6), of y] by force
  moreover have "Suc j < fst (hd ys)" if "ys \<noteq> []"
    using that Suc.prems(8) by (cases ys) auto
  ultimately have ys: "\<forall>y \<in> set ys. j < snd y" "ys \<noteq> [] \<Longrightarrow> Suc j < fst (hd ys)" by blast+
  have "ys = [] \<or> j < snd (hd ys)" using ys(1) hd_in_set by blast
  from rpos_split [OF Suc.prems(6,7) this] have "found mx v pos j"
    using Suc.prems by (simp add: found_def index_set_ok_def)
  from do_add_flat [OF this Suc.prems(5)] Suc.prems(3,4)
  obtain v' it' where d: "do_add mx v pos j = Some (v', it')" "crv_ok mx v'" "it_ok v' it'"
    "radd xs ys j = (flat v', fpos v' it')" by auto
  define ws r where "ws = (if xs \<noteq> [] \<and> snd (last xs) = j then butlast xs else xs)"
    and "r = (if xs \<noteq> [] \<and> snd (last xs) = j then fst (last xs) else j, Suc j)"
  have f: "flat v' = (ws @ [r]) @ ys" "fpos v' it' = length ws"
    using d(4) ys(2) by (auto simp: radd_def ws_def r_def split: if_splits)
  have "radd xs ys j = ((ws @ [r]) @ ys, length ws)" using d(4) f by simp
  from radd_correct(1,2) [OF Suc.prems(6) _ _ this] Suc.prems(7) ys(1)
  have rok: "ranges_ok ((ws @ [r]) @ ys)" "rset ((ws @ [r]) @ ys) = insert j (rset (xs @ ys))"
    by blast+
  have le: "\<forall>x \<in> set (ws @ [r]). snd x \<le> j + 1"
    using Suc.prems(7) by (auto simp: ws_def r_def dest: in_set_butlastD intro: le_SucI)
  have ne: "it' \<noteq> it_end v'" using f at_end_iff [OF d(2,3)] by simp
  have nx: "it_ok v' (it_next v' it')" "fpos v' (it_next v' it') = length (ws @ [r])"
    using it_next_ok [OF d(2,3) ne] f by simp_all
  have "\<forall>y \<in> set ys. j + 1 + n < fst y" using Suc.prems(8) by simp
  from Suc.IH [OF d(2) nx(1) f(1) nx(2) Suc.prems(5) rok(1) le this]
  show ?case
    using d(1) rok(2) Suc.prems(3) f(1) by (auto simp: indexes_def)
qed

lemma ins_shift_split:
  assumes "\<forall>x \<in> X. x < i" "\<forall>y \<in> Y. i \<le> y"
  shows "ins_shift i n (X \<union> Y) = X \<union> (\<lambda>x. x + n) ` Y"
  using assms by (fastforce simp: ins_shift_def)

lemma ins_shift_straddle:
  assumes "\<forall>x \<in> X. x < i" "\<forall>y \<in> Y. i \<le> y" "a \<le> i" "i < b"
  shows "ins_shift i n (X \<union> ({a..<b} \<union> Y)) = X \<union> ({a..<i} \<union> ({i + n..<b + n} \<union> (\<lambda>x. x + n) ` Y))"
proof -
  have e: "X \<union> ({a..<b} \<union> Y) = (X \<union> {a..<i}) \<union> ({i..<b} \<union> Y)" using assms(3,4) by auto
  have "ins_shift i n ((X \<union> {a..<i}) \<union> ({i..<b} \<union> Y)) = (X \<union> {a..<i}) \<union> (\<lambda>x. x + n) ` ({i..<b} \<union> Y)"
    using assms by (intro ins_shift_split) auto
  then show ?thesis unfolding e by (simp add: image_Un Un_assoc)
qed

lemma is_insert_at_correct:
  assumes ok: "index_set_ok mx v" and mx: "max_size_ok mx" and n: "0 < n"
  shows "\<exists>v'. is_insert_at mx i n v = Some v' \<and> index_set_ok mx v' \<and>
    indexes v' = ins_shift i n (indexes v) \<union> {i..<i + n}"
proof -
  define pos where "pos = is_find v i"
  have fd: "found mx v pos i" using found_find [OF ok] by (simp add: pos_def)
  then have c: "crv_ok mx v" "it_ok v pos" and rok: "ranges_ok (flat v)"
    by (auto simp: found_def index_set_ok_def)
  from found_split [OF fd] obtain xs ys where s: "flat v = xs @ ys" "length xs = fpos v pos"
    "pos = it_end v \<longleftrightarrow> ys = []" "ys \<noteq> [] \<Longrightarrow> it_deref v pos = hd ys"
    "\<And>x. x \<in> set xs \<Longrightarrow> snd x \<le> i" "\<And>y. y \<in> set ys \<Longrightarrow> i < snd y" by metis
  have X: "\<forall>x \<in> rset xs. x < i" using s(5) by (fastforce simp: rset_iff)
  have ndef: "is_insert_at mx i n v = (case (if pos \<noteq> it_end v then
          case (if fst (it_deref v pos) \<le> i then (it_adjust v pos 0 (int n), True)
                         else (it_shift v pos (int n), False))
          of (v0, b) \<Rightarrow> (shift_from v0 (it_next v0 pos) (int n), b)
        else (v, False)) of (v1, in_existing) \<Rightarrow> if \<not> in_existing then insert_loop mx v1 pos i n else Some v1)"
    using n by (simp add: is_insert_at_def Let_def flip: pos_def)
  show ?thesis
  proof (cases "ys \<noteq> [] \<and> fst (hd ys) \<le> i")
    case True
    then obtain a b zs where ys: "ys = (a, b) # zs" and ai: "a \<le> i"
      by (metis list.collapse prod.collapse fst_conv)
    have ib: "i < b" using s(6) [of "(a, b)"] ys by simp
    have fl: "flat v = xs @ (a, b) # zs" "fpos v pos = length xs" using s(1,2) ys by simp_all
    let ?v0 = "it_adjust v pos 0 (int n)"
    have a: "crv_ok mx ?v0" "flat ?v0 = xs @ (a, b + n) # zs" "same_shape v ?v0"
      using adjust_at [OF c fl, of 0 "int n"] ai ib by simp_all
    have p0: "it_ok ?v0 pos" "fpos ?v0 pos = length xs"
      using same_shape_it_ok [OF a(3)] same_shape_fpos [OF a(3)] c(2) fl(2) by simp_all
    have ne: "pos \<noteq> it_end ?v0" by (rule deref_at(2) [OF a(1) p0(1) a(2) p0(2)])
    have fl0: "flat ?v0 = (xs @ [(a, b + n)]) @ zs" using a(2) by simp
    define w where "w = shift_from ?v0 (it_next ?v0 pos) (int n)"
    have "\<forall>r \<in> set zs. fst r \<le> snd r \<and> 0 \<le> int (fst r) + int n"
      using rok fl(1) by (intro shiftable_up [of "xs @ [(a, b)]"]) simp
    then have w: "crv_ok mx w" "flat w = xs @ (a, b + n) # rmove (int n) zs"
      using shift_from_flat [OF a(1) _ fl0, of "it_next ?v0 pos" "int n"]
        it_next_ok [OF a(1) p0(1) ne] p0(2) by (simp_all add: w_def)
    have e: "is_insert_at mx i n v = Some w"
      using s(3,4) ys ai unfolding ndef by (simp add: w_def)
    have "ranges_ok (flat w)"
      using rok fl(1) unfolding w(2) by (force simp: ranges_ok_append set_rmove)
    moreover have "\<forall>y \<in> rset zs. i \<le> y"
      using rok fl(1) ib by (fastforce simp: ranges_ok_append rset_iff)
    from ins_shift_straddle [OF X this ai ib] have
      "ins_shift i n (indexes v) \<union> {i..<i + n} = indexes w"
      using ai ib by (auto simp: indexes_def fl(1) w(2) rset_rmove_int)
    ultimately show ?thesis using e w(1) by (simp add: index_set_ok_def)
  next
    case False
    have Y: "i < fst y" if "y \<in> set ys" for y
      using that False rok s(1) by (cases ys) (fastforce simp: ranges_ok_append)+
    have Y': "\<forall>y \<in> rset ys. i \<le> y" using Y by (fastforce simp: rset_iff)
    define v1 where "v1 = (if ys = [] then v else shift_from v pos (int n))"
    have nn: "\<forall>r \<in> set ys. fst r \<le> snd r \<and> 0 \<le> int (fst r) + int n"
      using rok s(1) by (intro shiftable_up [of xs]) simp
    have v1: "crv_ok mx v1" "flat v1 = xs @ rmove (int n) ys" "same_shape v v1"
      using shift_from_flat [OF c s(1) _ nn] s(1,2) c by (auto simp: v1_def)
    have e: "is_insert_at mx i n v = insert_loop mx v1 pos i n"
    proof (cases "ys = []")
      case True
      then show ?thesis using s(3) unfolding ndef by (simp add: v1_def)
    next
      case ne: False
      then have lt: "fst pos < length v" "pos \<noteq> it_end v" using s(3) fst_at_end_iff [OF c(2)] by auto
      have "same_shape v (it_shift v pos (int n))" using c(2) lt by simp
      from same_shape_it_next [OF this lt(1)]
      have "v1 = shift_from (it_shift v pos (int n)) (it_next (it_shift v pos (int n)) pos) (int n)"
        using ne lt(1) by (simp add: v1_def shift_from.simps [of v pos])
      then show ?thesis using s(4) False ne lt(2) unfolding ndef by auto
    qed
    have "it_ok v1 pos" "fpos v1 pos = length xs"
      using same_shape_it_ok [OF v1(3)] same_shape_fpos [OF v1(3)] c(2) s(2) by simp_all
    moreover have "ranges_ok (xs @ rmove (int n) ys)"
      using rok s(1) by (force simp: ranges_ok_append set_rmove)
    moreover have "\<forall>y \<in> set (rmove (int n) ys). i + n < fst y" using Y by (auto simp: set_rmove)
    ultimately obtain w where w: "insert_loop mx v1 pos i n = Some w" "index_set_ok mx w"
      "indexes w = indexes v1 \<union> {i..<i + n}"
      using insert_loop_correct [OF v1(1) _ v1(2) _ mx, of pos i n] s(5) by blast
    moreover have "indexes v1 = ins_shift i n (indexes v)"
      using ins_shift_split [OF X Y'] by (simp add: indexes_def v1(2) s(1) rset_rmove_int)
    ultimately show ?thesis using e by simp
  qed
qed

subsection \<open>shift_for_insert_at (one position)\<close>

lemma is_shift_for_insert_at_correct:
  assumes ok: "index_set_ok mx v" and mx: "max_size_ok mx" and n: "0 < n"
  shows "\<exists>v'. is_shift_for_insert_at mx i n v = Some v' \<and> index_set_ok mx v' \<and>
    indexes v' = ins_shift i n (indexes v)"
proof -
  define it where "it = is_find v i"
  have fd: "found mx v it i" using found_find [OF ok] by (simp add: it_def)
  then have c: "crv_ok mx v" "it_ok v it" and rok: "ranges_ok (flat v)"
    by (auto simp: found_def index_set_ok_def)
  from found_split [OF fd] obtain xs ys where s: "flat v = xs @ ys" "length xs = fpos v it"
    "it = it_end v \<longleftrightarrow> ys = []" "ys \<noteq> [] \<Longrightarrow> it_deref v it = hd ys"
    "\<And>x. x \<in> set xs \<Longrightarrow> snd x \<le> i" "\<And>y. y \<in> set ys \<Longrightarrow> i < snd y" by metis
  have X: "\<forall>x \<in> rset xs. x < i" using s(5) by (fastforce simp: rset_iff)
  show ?thesis
  proof (cases ys)
    case Nil
    then show ?thesis
      using s(1,3) n ok X ins_shift_split [of "rset xs" i "{}" n]
      by (auto simp: is_shift_for_insert_at_def indexes_def simp flip: it_def)
  next
    case (Cons y zs)
    obtain a b where y: "y = (a, b)" by force
    have ib: "i < b" using s(6) [of "(a, b)"] Cons y by simp
    define v1 where "v1 = shift_from v it (int n)"
    have v1: "crv_ok mx v1" "flat v1 = xs @ (a + n, b + n) # rmove (int n) zs" "same_shape v v1"
      using shift_from_flat [OF c s(1) _ shiftable_up] rok s(1,2) Cons y by (simp_all add: v1_def)
    have it1: "it_ok v1 it" "fpos v1 it = length xs"
      using same_shape_it_ok [OF v1(3)] same_shape_fpos [OF v1(3)] c(2) s(2) by simp_all
    have d1: "it_deref v1 it = (a + n, b + n)" by (rule deref_at(1) [OF v1(1) it1(1) v1(2) it1(2)])
    have ndef: "is_shift_for_insert_at mx i n v = (if a < i then
        map_option fst (crv_insert mx (it_set v1 it a i) (it_next (it_set v1 it a i) it) (i + n, b + n))
      else Some v1)"
      using s(3) Cons n d1 by (simp add: is_shift_for_insert_at_def Let_def flip: it_def v1_def)
    have Z: "\<forall>x \<in> rset zs. i \<le> x"
      using rok s(1) Cons y ib by (fastforce simp: ranges_ok_append rset_iff)
    show ?thesis
    proof (cases "a < i")
      case True
      define v2 where "v2 = it_set v1 it a i"
      have v2: "crv_ok mx v2" "flat v2 = xs @ (a, i) # rmove (int n) zs" "same_shape v1 v2"
        using set_at [OF v1(1) it1(1) v1(2) it1(2), of a i] by (simp_all add: v2_def)
      have it2: "it_ok v2 it" "fpos v2 it = length xs"
        using same_shape_it_ok [OF v2(3)] same_shape_fpos [OF v2(3)] it1 by simp_all
      have ne: "it \<noteq> it_end v2" by (rule deref_at(2) [OF v2(1) it2(1) v2(2) it2(2)])
      have nx: "it_ok v2 (it_next v2 it)" "fpos v2 (it_next v2 it) = Suc (length xs)"
        using it_next_ok [OF v2(1) it2(1) ne] it2(2) by simp_all
      have rok2: "ranges_ok (xs @ (a, i) # (i + n, b + n) # rmove (int n) zs)"
        using rok s(1) Cons y True ib n by (force simp: ranges_ok_append set_rmove)
      then obtain w it3 where "crv_insert mx v2 (it_next v2 it) (i + n, b + n) = Some (w, it3)"
        "crv_ok mx w" "flat w = xs @ (a, i) # (i + n, b + n) # rmove (int n) zs"
        using crv_insert_flat [OF v2(1) mx nx(1), of "(i + n, b + n)"] nx(2) v2(2) by auto
      moreover have "ins_shift i n (rset xs \<union> ({a..<b} \<union> rset zs)) =
          rset (xs @ (a, i) # (i + n, b + n) # rmove (int n) zs)"
        using ins_shift_straddle [OF X Z _ ib, where a = a and n = n] True by (simp add: rset_rmove_int)
      ultimately show ?thesis
        using True rok2 s(1) Cons y unfolding ndef by (simp add: index_set_ok_def indexes_def flip: v2_def)
    next
      case False
      have "\<forall>x \<in> rset ys. i \<le> x" using Z False Cons y by auto
      from ins_shift_split [OF X this, of n]
      have "ins_shift i n (indexes v) = rset (xs @ rmove (int n) ys)"
        by (simp add: indexes_def s(1) rset_rmove_int)
      moreover have "ranges_ok (xs @ rmove (int n) ys)"
        using rok s(1) by (force simp: ranges_ok_append set_rmove)
      ultimately show ?thesis
        using False v1(1,2) Cons y unfolding ndef by (simp add: index_set_ok_def indexes_def)
    qed
  qed
qed

subsection \<open>erase_at (one position)\<close>

definition do_erase :: "crv \<Rightarrow> iter \<Rightarrow> nat \<Rightarrow> crv" where
  "do_erase v it index =
     (let r = it_deref v it;
          (v1, it1) =
            (if fst r \<le> index then
               (if fst r + 1 = snd r then crv_erase v it
                else let v' = it_adjust v it 0 (- 1) in (v', it_next v' it))
             else if it \<noteq> it_begin v \<and> snd (it_deref v (it_prev v it)) + 1 = fst r then
               crv_erase (it_adjust v (it_prev v it) 0 (int (snd r) - int (fst r))) it
             else (v, it))
      in shift_from v1 it1 (- 1))"

definition is_erase_at :: "nat \<Rightarrow> crv \<Rightarrow> crv" where
  "is_erase_at index v =
     (let it = is_find v index in if it \<noteq> it_end v then do_erase v it index else v)"

lemma del_shift_split:
  assumes "\<forall>x \<in> X. x < i" "\<forall>y \<in> Y. i < y" "W \<subseteq> {i}"
  shows "del_shift i (X \<union> (W \<union> Y)) = X \<union> (\<lambda>x. x - 1) ` Y"
  using assms by (fastforce simp: del_shift_def)

lemma pred_image_atLeastLessThan: "0 < a \<Longrightarrow> (\<lambda>x. x - 1) ` {a..<b} = {a - 1..<b - (1::nat)}"
  by (force simp: image_iff Bex_def intro: exI [of _ "Suc _"])

lemma shift_dec_flat:
  assumes "crv_ok mx v" "it_ok v it" "flat v = xs @ ys" "fpos v it = length xs" "ranges_ok ys"
    "\<forall>y \<in> set ys. 0 < fst y"
  shows "crv_ok mx (shift_from v it (- 1)) \<and> flat (shift_from v it (- 1)) = xs @ rmove (- 1) ys"
  using shift_from_flat [OF assms(1-4), of "- 1"] assms(5,6)
  by (fastforce dest: ranges_ok_nonempty intro: less_imp_le)

lemma do_erase_member:
  assumes ok: "crv_ok mx v" "it_ok v it" and rok: "ranges_ok (xs @ (a, b) # zs)"
    and fl: "flat v = xs @ (a, b) # zs" "fpos v it = length xs" and ai: "a \<le> i" "i < b"
    and xs: "\<And>x. x \<in> set xs \<Longrightarrow> snd x \<le> i"
  shows "crv_ok mx (do_erase v it i) \<and> ranges_ok (flat (do_erase v it i)) \<and>
    rset (flat (do_erase v it i)) = del_shift i (rset (xs @ (a, b) # zs))"
proof -
  have d: "it_deref v it = (a, b)" "it \<noteq> it_end v" using deref_at [OF ok fl] by simp_all
  have zs: "ranges_ok zs" "\<forall>y \<in> set zs. b < fst y" using rok by (auto simp: ranges_ok_append)
  have X: "\<forall>x \<in> rset xs. x < i" using xs by (fastforce simp: rset_iff)
  have Z: "\<forall>y \<in> rset zs. b < y" using zs(2) by (fastforce simp: rset_iff)
  have zrok: "ranges_ok (rmove (- 1) zs)" "rset (rmove (- 1) zs) = (\<lambda>x. x - 1) ` rset zs"
    using zs by (intro ranges_ok_rmove_dec rset_rmove_dec; force)+
  have sep: "\<forall>x \<in> set xs. snd x < a" using rok by (auto simp: ranges_ok_append)
  show ?thesis
  proof (cases "Suc a = b")
    case True
    then have a: "a = i" using ai by simp
    obtain w it1 where e: "crv_erase v it = (w, it1)" by (cases "crv_erase v it") blast
    note er = crv_erase_flat [OF ok d(2) e]
    have "do_erase v it i = shift_from w it1 (- 1)"
      using True d e ai by (simp add: do_erase_def)
    moreover have "crv_ok mx (shift_from w it1 (- 1)) \<and> flat (shift_from w it1 (- 1)) = xs @ rmove (- 1) zs"
      using er fl zs by (intro shift_dec_flat) auto
    moreover have "ranges_ok (xs @ rmove (- 1) zs)"
      using rok zrok(1) sep zs(2) a True by (force simp: ranges_ok_append set_rmove)
    moreover have "rset (xs @ rmove (- 1) zs) = del_shift i (rset (xs @ (a, b) # zs))"
    proof -
      have "\<forall>y \<in> rset zs. i < y" using Z a True by auto
      from del_shift_split [OF X this, of "{a..<b}"] show ?thesis using a True zrok(2) by auto
    qed
    ultimately show ?thesis by simp
  next
    case False
    define w where "w = it_adjust v it 0 (- 1)"
    have w: "crv_ok mx w" "flat w = xs @ (a, b - 1) # zs" "same_shape v w"
      using adjust_at [OF ok fl, of 0 "- 1"] ai by (simp_all add: w_def)
    have it1: "it_ok w it" "fpos w it = length xs"
      using same_shape_it_ok [OF w(3)] same_shape_fpos [OF w(3)] ok(2) fl(2) by simp_all
    have ne: "it \<noteq> it_end w" by (rule deref_at(2) [OF w(1) it1(1) w(2) it1(2)])
    have fw: "flat w = (xs @ [(a, b - 1)]) @ zs" using w(2) by simp
    have "do_erase v it i = shift_from w (it_next w it) (- 1)"
      using False d ai by (simp add: do_erase_def Let_def flip: w_def)
    moreover have "crv_ok mx (shift_from w (it_next w it) (- 1)) \<and>
      flat (shift_from w (it_next w it) (- 1)) = (xs @ [(a, b - 1)]) @ rmove (- 1) zs"
      using it_next_ok [OF w(1) it1(1) ne] it1(2) fw zs by (intro shift_dec_flat [OF w(1)]) auto
    moreover have "ranges_ok (xs @ (a, b - 1) # rmove (- 1) zs)"
      using rok zrok(1) sep zs(2) False ai by (force simp: ranges_ok_append set_rmove)
    moreover have "rset (xs @ (a, b - 1) # rmove (- 1) zs) = del_shift i (rset (xs @ (a, b) # zs))"
    proof -
      have e: "rset (xs @ (a, b) # zs) = (rset xs \<union> {a..<i}) \<union> ({i} \<union> ({Suc i..<b} \<union> rset zs))"
        using ai by auto
      have "del_shift i \<dots> = (rset xs \<union> {a..<i}) \<union> (\<lambda>x. x - 1) ` ({Suc i..<b} \<union> rset zs)"
        using X Z ai by (intro del_shift_split) auto
      also have "\<dots> = (rset xs \<union> {a..<i}) \<union> ({i..<b - 1} \<union> rset (rmove (- 1) zs))"
        by (simp add: image_Un zrok(2) pred_image_atLeastLessThan [simplified])
      also have "\<dots> = rset (xs @ (a, b - 1) # rmove (- 1) zs)" using ai by auto
      finally show ?thesis using e by simp
    qed
    ultimately show ?thesis by simp
  qed
qed

lemma do_erase_gap:
  assumes ok: "crv_ok mx v" "it_ok v it" and rok: "ranges_ok (xs @ (a, b) # zs)"
    and fl: "flat v = xs @ (a, b) # zs" "fpos v it = length xs" and ai: "i < a"
    and xs: "\<And>x. x \<in> set xs \<Longrightarrow> snd x \<le> i"
  shows "crv_ok mx (do_erase v it i) \<and> ranges_ok (flat (do_erase v it i)) \<and>
    rset (flat (do_erase v it i)) = del_shift i (rset (xs @ (a, b) # zs))"
proof -
  let ?ys = "(a, b) # zs"
  have d: "it_deref v it = (a, b)" "it \<noteq> it_end v" using deref_at [OF ok fl] by simp_all
  have ab: "a < b" using rok by (simp add: ranges_ok_append)
  have ys: "ranges_ok ?ys" "\<forall>y \<in> set ?ys. 0 < fst y" "\<forall>y \<in> set zs. b < fst y"
    using rok ai by (auto simp: ranges_ok_append)
  have X: "\<forall>x \<in> rset xs. x < i" using xs by (fastforce simp: rset_iff)
  have Y: "\<forall>y \<in> rset ?ys. i < y" using ys(3) ai ab by (fastforce simp: rset_iff)
  have yrok: "ranges_ok (rmove (- 1) ?ys)" "rset (rmove (- 1) ?ys) = (\<lambda>x. x - 1) ` rset ?ys"
    using ranges_ok_rmove_dec [OF ys(1,2)] rset_rmove_dec [OF ys(2)] .
  have del: "del_shift i (rset (xs @ ?ys)) = rset xs \<union> rset (rmove (- 1) ?ys)"
    using del_shift_split [OF X Y, of "{}"] yrok(2) by simp
  show ?thesis
  proof (cases "xs \<noteq> [] \<and> Suc (snd (last xs)) = a")
    case True
    then obtain ws c e where xs': "xs = ws @ [(c, e)]" and e: "Suc e = a"
      by (metis append_butlast_last_id prod.collapse)
    then have ei: "e = i" using xs [of "(c, e)"] ai by simp
    have ce: "c < e" using rok xs' by (simp add: ranges_ok_append)
    define prev where "prev = it_prev v it"
    have nb: "it \<noteq> it_begin v" using it_begin_iff [OF ok] fl(2) xs' by simp
    have pr: "it_ok v prev" "fpos v prev = length ws"
      using it_prev_ok [OF ok nb] fl(2) xs' by (simp_all add: prev_def)
    have fv: "flat v = ws @ (c, e) # ?ys" using fl(1) xs' by simp
    define w where "w = it_adjust v prev 0 (int b - int a)"
    have w: "crv_ok mx w" "flat w = ws @ (c, b - 1) # (a, b) # zs" "same_shape v w"
      "it_deref v prev = (c, e)"
      using adjust_at [OF ok(1) pr(1) fv pr(2), of 0 "int b - int a"] ce ab e
      by (auto simp: w_def off_def)
    have it1: "it_ok w it" "fpos w it = Suc (length ws)"
      using same_shape_it_ok [OF w(3)] same_shape_fpos [OF w(3)] ok(2) fl(2) xs' by simp_all
    obtain u it2 where er': "crv_erase w it = (u, it2)" by (cases "crv_erase w it") blast
    have ne: "it \<noteq> it_end w" using at_end_iff [OF w(1) it1(1)] it1(2) w(2) by simp
    note er = crv_erase_flat [OF w(1) it1(1) ne er']
    have u: "flat u = (ws @ [(c, b - 1)]) @ zs" "fpos u it2 = length (ws @ [(c, b - 1)])"
      using er(2,4) it1(2) w(2) by simp_all
    have "do_erase v it i = shift_from u it2 (- 1)"
      using d nb w(4) e ai er' by (simp add: do_erase_def Let_def w_def prev_def)
    moreover have "crv_ok mx (shift_from u it2 (- 1)) \<and>
      flat (shift_from u it2 (- 1)) = (ws @ [(c, b - 1)]) @ rmove (- 1) zs"
      using er u ys by (intro shift_dec_flat) auto
    moreover have "ranges_ok (ws @ (c, b - 1) # rmove (- 1) zs)"
      using rok xs' yrok(1) ys(3) ce ab e by (force simp: ranges_ok_append set_rmove)
    moreover have "rset (ws @ (c, b - 1) # rmove (- 1) zs) = rset xs \<union> rset (rmove (- 1) ?ys)"
      using xs' ce ab e by auto
    ultimately show ?thesis using del by simp
  next
    case False
    have "it = it_begin v \<longleftrightarrow> xs = []" using it_begin_iff [OF ok] fl(2) by simp
    moreover have "it_deref v (it_prev v it) = last xs" if "xs \<noteq> []"
      using cur.cursor_split [OF ok] that fl by (metis append_eq_append_conv)
    ultimately have "do_erase v it i = shift_from v it (- 1)"
      using d ai False by (auto simp: do_erase_def Let_def)
    moreover have "crv_ok mx (shift_from v it (- 1)) \<and> flat (shift_from v it (- 1)) = xs @ rmove (- 1) ?ys"
      using shift_dec_flat [OF ok fl ys(1,2)] .
    moreover have "snd x < a - 1" if "x \<in> set xs" for x
    proof -
      have "last xs \<in> set xs" using that by (cases xs) auto
      then have "snd (last xs) < a" using rok by (simp add: ranges_ok_append)
      moreover have "snd x \<le> snd (last xs)"
        using rok that by (cases xs rule: rev_cases) (fastforce simp: ranges_ok_append)+
      ultimately show ?thesis using False that by (cases xs) auto
    qed
    then have "ranges_ok (xs @ rmove (- 1) ?ys)"
      using rok yrok(1) ab ys(3) by (force simp: ranges_ok_append set_rmove)
    ultimately show ?thesis using del by simp
  qed
qed

lemma do_erase_correct:
  assumes f: "found mx v it i" and ne: "it \<noteq> it_end v"
  shows "index_set_ok mx (do_erase v it i)" "indexes (do_erase v it i) = del_shift i (indexes v)"
proof -
  have ok: "crv_ok mx v" "it_ok v it" and rok: "ranges_ok (flat v)"
    using f by (auto simp: found_def index_set_ok_def)
  from found_split [OF f] obtain xs ys where s: "flat v = xs @ ys" "length xs = fpos v it"
    "it = it_end v \<longleftrightarrow> ys = []"
    "\<And>x. x \<in> set xs \<Longrightarrow> snd x \<le> i" "\<And>y. y \<in> set ys \<Longrightarrow> i < snd y" by metis
  then obtain a b zs where ys: "ys = (a, b) # zs" using ne by (metis list.exhaust surj_pair)
  have "crv_ok mx (do_erase v it i) \<and> ranges_ok (flat (do_erase v it i)) \<and>
    rset (flat (do_erase v it i)) = del_shift i (rset (xs @ (a, b) # zs))"
    using do_erase_member [OF ok, of xs a b zs i] do_erase_gap [OF ok, of xs a b zs i]
      rok s(1,2,4) s(5) [of "(a, b)"] ys by (cases "a \<le> i") auto
  then show "index_set_ok mx (do_erase v it i)" "indexes (do_erase v it i) = del_shift i (indexes v)"
    using s(1) ys by (simp_all add: index_set_ok_def indexes_def)
qed

lemma is_erase_at_correct:
  assumes "index_set_ok mx v"
  shows "index_set_ok mx (is_erase_at i v)" "indexes (is_erase_at i v) = del_shift i (indexes v)"
proof -
  have "index_set_ok mx (is_erase_at i v) \<and> indexes (is_erase_at i v) = del_shift i (indexes v)"
  proof (cases "is_find v i = it_end v")
    case True
    then have "rpos (flat v) i = length (flat v)"
      using is_find_pos [OF assms, of i] by (simp add: fpos_end)
    then have "\<forall>x \<in> indexes v. x < i"
      using rpos_take [of _ "flat v" i] by (fastforce simp: indexes_def rset_iff)
    then have "del_shift i (indexes v) = indexes v"
      by (fastforce simp: del_shift_def)
    then show ?thesis using True assms by (simp add: is_erase_at_def)
  next
    case False
    then show ?thesis
      using do_erase_correct [OF found_find [OF assms] False] by (simp add: is_erase_at_def)
  qed
  then show "index_set_ok mx (is_erase_at i v)" "indexes (is_erase_at i v) = del_shift i (indexes v)"
    by auto
qed

subsection \<open>Counting members up to an index\<close>

text \<open>
  The loops of \<open>count\<close>, \<open>add_shifted\<close> and \<open>erase_or_unshift\<close> first skip whole chunks by their
  cached bounds and counts, then single ranges.
\<close>

function count_rest :: "crv \<Rightarrow> nat \<Rightarrow> iter \<Rightarrow> nat \<Rightarrow> iter \<times> nat" where
  "count_rest v e it ret =
     (if fst it < length v \<and> snd (it_deref v it) < e \<and> snd it \<noteq> 0
      then count_rest v e (it_next v it) (ret + (snd (it_deref v it) - fst (it_deref v it)))
      else (it, ret))"
  by pat_completeness auto
termination
  by (relation "measures [\<lambda>(v, e, it, ret). length v - fst it,
      \<lambda>(v, e, it, ret). length (c_data (v ! fst it)) - snd it]")
    (auto simp: it_next_def next_chunk_def)

function count_chunks :: "crv \<Rightarrow> nat \<Rightarrow> iter \<Rightarrow> nat \<Rightarrow> iter \<times> nat" where
  "count_chunks v e it ret =
     (if fst it < length v \<and> c_end (v ! fst it) \<le> e
      then count_chunks v e (next_chunk it) (ret + c_count (v ! fst it))
      else (it, ret))"
  by pat_completeness auto
termination
  by (relation "measure (\<lambda>(v, e, it, ret). length v - fst it)") (auto simp: next_chunk_def)

function count_ranges :: "crv \<Rightarrow> nat \<Rightarrow> iter \<Rightarrow> nat \<Rightarrow> iter \<times> nat" where
  "count_ranges v e it ret =
     (if fst it < length v \<and> snd (it_deref v it) \<le> e
      then count_ranges v e (it_next v it) (ret + (snd (it_deref v it) - fst (it_deref v it)))
      else (it, ret))"
  by pat_completeness auto
termination
  by (relation "measures [\<lambda>(v, e, it, ret). length v - fst it,
      \<lambda>(v, e, it, ret). length (c_data (v ! fst it)) - snd it]")
    (auto simp: it_next_def next_chunk_def)

declare count_rest.simps [simp del] count_chunks.simps [simp del] count_ranges.simps [simp del]

text \<open>The part of \<open>count\<close> after the first, possibly partial, chunk.\<close>

definition count_tail :: "crv \<Rightarrow> nat \<Rightarrow> iter \<Rightarrow> nat \<Rightarrow> nat" where
  "count_tail v e it ret =
     (let (it1, ret1) = count_chunks v e it ret;
          (it2, ret2) = count_ranges v e it1 ret1
      in if it2 \<noteq> it_end v \<and> fst (it_deref v it2) < e then ret2 + (e - fst (it_deref v it2)) else ret2)"

definition is_count :: "crv \<Rightarrow> nat \<Rightarrow> nat \<Rightarrow> nat" where
  "is_count v start_index end_index =
     (let it = is_find v start_index; r = it_deref v it in
      if it = it_end v \<or> end_index \<le> fst r then 0
      else if end_index \<le> snd r then min (snd r) end_index - max (fst r) start_index
      else if fst r < start_index \<or> snd it \<noteq> 0 then
        let (it1, ret1) = count_rest v end_index (it_next v it) (snd r - max (fst r) start_index);
            ret2 = (if it1 \<noteq> it_end v \<and> fst (it_deref v it1) < end_index \<and> snd it1 \<noteq> 0
                    then ret1 + (end_index - fst (it_deref v it1)) else ret1)
        in if it1 = it_end v \<or> end_index \<le> snd (it_deref v it1) then ret2
           else count_tail v end_index it1 ret2
      else count_tail v end_index it 0)"

definition is_unshift :: "nat \<Rightarrow> crv \<Rightarrow> nat" where
  "is_unshift index v = index - is_count v 0 index"

fun rcount_upto :: "range list \<Rightarrow> nat \<Rightarrow> nat" where
  "rcount_upto [] e = 0"
| "rcount_upto (r # rs) e =
     (if snd r \<le> e then snd r - fst r + rcount_upto rs e
      else if fst r < e then e - fst r else 0)"

lemma rcount_upto_card: "ranges_ok rs \<Longrightarrow> rcount_upto rs e = card (rset rs \<inter> {..<e})"
proof (induction rs)
  case (Cons r rs)
  have disj: "{fst r..<snd r} \<inter> (rset rs \<inter> {..<e}) = {}"
    using Cons.prems by (fastforce simp: rset_iff)
  show ?case
  proof (cases "snd r \<le> e")
    case True
    then have "rset (r # rs) \<inter> {..<e} = {fst r..<snd r} \<union> (rset rs \<inter> {..<e})" by auto
    with True disj Cons show ?thesis by (simp add: card_Un_disjoint)
  next
    case False
    then have "rset rs \<inter> {..<e} = {}" using Cons.prems by (fastforce simp: rset_iff)
    then have "rset (r # rs) \<inter> {..<e} = {fst r..<min (snd r) e}" by auto
    with False show ?thesis by simp
  qed
qed simp

lemma count_ranges_correct:
  assumes "crv_ok mx v" "it_ok v it" "flat v = xs @ ys" "fpos v it = length xs"
  shows "(case count_ranges v e it ret of (it2, ret2) \<Rightarrow>
    if it2 \<noteq> it_end v \<and> fst (it_deref v it2) < e then ret2 + (e - fst (it_deref v it2)) else ret2)
    = ret + rcount_upto ys e"
  using assms
proof (induction ys arbitrary: it ret xs)
  case Nil
  then have "it = it_end v" using at_end_iff [of mx v it] by simp
  moreover from this have "count_ranges v e it ret = (it, ret)"
    by (subst count_ranges.simps) (simp add: it_end_def)
  ultimately show ?case by simp
next
  case (Cons r ys)
  have d: "it_deref v it = r" "it \<noteq> it_end v" using deref_at [OF Cons.prems] by simp_all
  then have lt: "fst it < length v" using fst_at_end_iff [OF Cons.prems(2)] by simp
  have nx: "it_ok v (it_next v it)" "fpos v (it_next v it) = length (xs @ [r])"
    using it_next_ok [OF Cons.prems(1,2) d(2)] Cons.prems(4) by simp_all
  have fl: "flat v = (xs @ [r]) @ ys" using Cons.prems(3) by simp
  show ?case
    using Cons.IH [OF Cons.prems(1) nx(1) fl nx(2), of "ret + (snd r - fst r)"] lt d
    by (auto simp: count_ranges.simps [of v e it])
qed

lemma rcount_upto_chunk:
  "ranges_ok (ds @ ys) \<Longrightarrow> (ds \<noteq> [] \<Longrightarrow> snd (last ds) \<le> e) \<Longrightarrow>
   rcount_upto (ds @ ys) e = rcount ds + rcount_upto ys e"
proof (induction ds)
  case (Cons d ds)
  then have "snd d \<le> e"
    by (cases ds rule: rev_cases) (auto simp: ranges_ok_append intro: less_imp_le order_trans)
  with Cons show ?case by (cases ds) auto
qed simp

lemma it_ok_chunk_start:
  assumes "crv_ok mx v" "k \<le> length v"
  shows "it_ok v (k, 0)" "fpos v (k, 0) = length (flat (take k v))"
    "flat v = flat (take k v) @ flat (drop k v)"
proof -
  show "it_ok v (k, 0)"
    using assms crv_okD [OF assms(1), of k]
    by (cases "k = length v") (auto simp: it_ok_def it_end_def chunk_ok_def)
  show "fpos v (k, 0) = length (flat (take k v))" by (simp add: fpos_def)
  show "flat v = flat (take k v) @ flat (drop k v)"
    by (metis append_take_drop_id flat_simps_basic(3))
qed

lemma count_tail_correct:
  assumes "crv_ok mx v" "ranges_ok (flat v)" "k \<le> length v"
  shows "count_tail v e (k, 0) ret = ret + rcount_upto (flat (drop k v)) e"
  using assms(3)
proof (induction "length v - k" arbitrary: k ret rule: less_induct)
  case less
  note at = it_ok_chunk_start [OF assms(1) less.prems]
  show ?case
  proof (cases "k < length v \<and> c_end (v ! k) \<le> e")
    case True
    define c where "c = v ! k"
    have c: "chunk_ok c" using True crv_okD [OF assms(1)] by (simp add: c_def)
    have dr: "flat (drop k v) = c_data c @ flat (drop (Suc k) v)"
      using True by (simp add: c_def flip: Cons_nth_drop_Suc)
    have "ranges_ok (c_data c @ flat (drop (Suc k) v))"
      using assms(2) at(3) dr by (simp add: ranges_ok_append)
    then have "rcount_upto (flat (drop k v)) e = c_count c + rcount_upto (flat (drop (Suc k) v)) e"
      using rcount_upto_chunk [of "c_data c"] c True dr by (simp add: chunk_ok_def c_def)
    moreover have "count_tail v e (k, 0) ret = count_tail v e (Suc k, 0) (ret + c_count c)"
      using True by (simp add: count_tail_def count_chunks.simps [of v e "(k, 0)"] next_chunk_def c_def)
    moreover have "length v - Suc k < length v - k" "Suc k \<le> length v" using True by auto
    ultimately show ?thesis using less.hyps [of "Suc k"] by simp
  next
    case False
    then have "count_chunks v e (k, 0) ret = ((k, 0), ret)"
      by (subst count_chunks.simps) auto
    then show ?thesis
      using count_ranges_correct [OF assms(1) at(1,3,2), of e ret]
      by (simp add: count_tail_def)
  qed
qed

lemma is_count_from_zero:
  assumes ok: "index_set_ok mx v"
  shows "is_count v 0 e = card (indexes v \<inter> {..<e})"
proof -
  have rok: "ranges_ok (flat v)" and c: "crv_ok mx v" using ok by (auto simp: index_set_ok_def)
  have "rpos (flat v) 0 = 0"
    using rok by (cases "flat v") (auto simp: rpos_def)
  then have b: "is_find v 0 = it_begin v"
    using is_find_pos [OF ok, of 0] it_begin_iff [OF c] by simp
  have "is_count v 0 e = rcount_upto (flat v) e"
  proof (cases "flat v")
    case Nil
    then have "it_begin v = it_end v"
      using at_end_iff [OF c it_ok_begin [OF c]] by (simp add: fpos_begin)
    then show ?thesis using Nil b by (simp add: is_count_def)
  next
    case (Cons r rs)
    have d: "it_deref v (it_begin v) = r" "it_begin v \<noteq> it_end v"
      using deref_at [OF c it_ok_begin [OF c], of "[]" r rs] Cons by (simp_all add: fpos_begin)
    have rs: "\<forall>s \<in> set rs. snd r < fst s" using rok Cons by simp
    have z: "rcount_upto rs e = 0" if "e \<le> snd r"
      using rs that rok Cons by (cases rs) auto
    have t: "count_tail v e (it_begin v) 0 = rcount_upto (flat v) e"
      using count_tail_correct [OF c rok, of 0 e 0] by (simp add: it_begin_def)
    show ?thesis
      using d b z Cons t rok by (auto simp: is_count_def Let_def it_begin_def)
  qed
  then show ?thesis using rcount_upto_card [OF rok] by (simp add: indexes_def)
qed

lemma is_unshift_correct:
  "index_set_ok mx v \<Longrightarrow> is_unshift i v = unrank (indexes v) i"
  by (simp add: is_unshift_def is_count_from_zero unrank_eq)

subsection \<open>shift and add_shifted\<close>

fun rshift :: "range list \<Rightarrow> nat \<Rightarrow> nat" where
  "rshift [] index = index"
| "rshift (r # rs) index =
     (if index < fst r then index else rshift rs (index + (snd r - fst r)))"

definition is_shift :: "nat \<Rightarrow> crv \<Rightarrow> nat" where
  "is_shift index v = rshift (flat v) index"

function shift_chunks :: "crv \<Rightarrow> iter \<Rightarrow> nat \<Rightarrow> iter \<times> nat" where
  "shift_chunks v it index =
     (if fst it < length v \<and> c_end (v ! fst it) \<le> index
      then shift_chunks v (next_chunk it) (index + c_count (v ! fst it))
      else (it, index))"
  by pat_completeness auto
termination
  by (relation "measure (\<lambda>(v, it, index). length v - fst it)") (auto simp: next_chunk_def)

function shift_ranges :: "crv \<Rightarrow> iter \<Rightarrow> nat \<Rightarrow> iter \<times> nat" where
  "shift_ranges v it index =
     (if fst it < length v \<and> fst (it_deref v it) \<le> index
      then shift_ranges v (it_next v it) (index + (snd (it_deref v it) - fst (it_deref v it)))
      else (it, index))"
  by pat_completeness auto
termination
  by (relation "measures [\<lambda>(v, it, index). length v - fst it,
      \<lambda>(v, it, index). length (c_data (v ! fst it)) - snd it]")
    (auto simp: it_next_def next_chunk_def)

declare shift_chunks.simps [simp del] shift_ranges.simps [simp del]

definition is_add_shifted :: "nat \<Rightarrow> nat \<Rightarrow> crv \<Rightarrow> (crv \<times> nat) option" where
  "is_add_shifted mx index v =
     (let (it1, index1) = shift_chunks v (it_begin v) index;
          (it2, index2) = shift_ranges v it1 index1
      in do { (v', _) \<leftarrow> do_add mx v it2 index2; Some (v', index2) })"

text \<open>
  \<open>rskip\<close> is where the two loops stop: the number of ranges passed and the shifted index.
\<close>

fun rskip :: "range list \<Rightarrow> nat \<Rightarrow> nat" where
  "rskip [] index = 0"
| "rskip (r # rs) index = (if index < fst r then 0 else Suc (rskip rs (index + (snd r - fst r))))"

lemma rskip_le: "rskip rs i \<le> length rs"
  by (induction rs i rule: rskip.induct) auto

lemma rshift_rcount: "rshift rs i = i + rcount (take (rskip rs i) rs)"
  by (induction rs i rule: rshift.induct) auto

lemma rskip_before:
  "ranges_ok rs \<Longrightarrow> r \<in> set (take (rskip rs i) rs) \<Longrightarrow> snd r \<le> rshift rs i"
proof (induction rs i rule: rshift.induct)
  case (2 s rs i)
  have "j \<le> rshift rs j" for j by (simp add: rshift_rcount)
  from this [of "i + (snd s - fst s)"] 2 show ?case
    by (auto split: if_splits intro: order_trans)
qed simp

lemma rskip_after:
  "ranges_ok rs \<Longrightarrow> r \<in> set (drop (rskip rs i) rs) \<Longrightarrow> rshift rs i < fst r"
proof (induction rs i rule: rshift.induct)
  case (2 s rs i)
  then show ?case by (cases "i < fst s") (auto intro: less_trans dest: ranges_ok_nonempty)
qed simp

lemma rshift_correct:
  assumes "ranges_ok rs"
  shows "rshift rs i \<notin> rset rs" "unrank (rset rs) (rshift rs i) = i"
    "rpos rs (rshift rs i) = rskip rs i"
proof -
  let ?k = "rshift rs i" and ?p = "rskip rs i"
  let ?xs = "take ?p rs" and ?ys = "drop ?p rs"
  have b: "\<And>r. r \<in> set ?xs \<Longrightarrow> snd r \<le> ?k" by (rule rskip_before [OF assms])
  have a: "\<And>r. r \<in> set ?ys \<Longrightarrow> ?k < fst r" by (rule rskip_after [OF assms])
  have e: "rset rs = rset ?xs \<union> rset ?ys" by (metis append_take_drop_id rset_append)
  have X: "\<forall>x \<in> rset ?xs. x < ?k" using b by (fastforce simp: rset_iff)
  have Y: "\<forall>y \<in> rset ?ys. ?k < y" using a by (fastforce simp: rset_iff)
  show "?k \<notin> rset rs" unfolding e using X Y by auto
  have "rset rs \<inter> {..<?k} = rset ?xs" unfolding e using X Y by fastforce
  moreover have "ranges_ok ?xs" by (metis append_take_drop_id assms ranges_ok_append)
  ultimately show "unrank (rset rs) ?k = i"
    using rcount_eq_card [of ?xs] by (simp add: unrank_eq rshift_rcount)
  have "?ys = [] \<or> ?k < snd (hd ?ys)"
    using a [of "hd ?ys"] ranges_ok_nonempty [OF assms, of "hd ?ys"]
    by (metis hd_in_set in_set_dropD less_trans)
  from rpos_split [of ?xs ?ys ?k] this assms b show "rpos rs ?k = ?p"
    by (simp add: rskip_le)
qed

lemma shift_ranges_correct:
  assumes "crv_ok mx v" "it_ok v it" "flat v = xs @ ys" "fpos v it = length xs"
    "shift_ranges v it index = (it', index')"
  shows "it_ok v it'" "fpos v it' = length xs + rskip ys index" "index' = rshift ys index"
proof -
  have "it_ok v it' \<and> fpos v it' = length xs + rskip ys index \<and> index' = rshift ys index"
    using assms
  proof (induction ys arbitrary: it index xs)
    case Nil
    then have "it = it_end v" using at_end_iff [of mx v it] by simp
    then have "shift_ranges v it index = (it, index)"
      by (subst shift_ranges.simps) (simp add: it_end_def)
    then show ?case using Nil by simp
  next
    case (Cons r ys)
    have d: "it_deref v it = r" "it \<noteq> it_end v" using deref_at [OF Cons.prems(1-4)] by simp_all
    then have lt: "fst it < length v" using fst_at_end_iff [OF Cons.prems(2)] by simp
    have nx: "it_ok v (it_next v it)" "fpos v (it_next v it) = length (xs @ [r])"
      using it_next_ok [OF Cons.prems(1,2) d(2)] Cons.prems(4) by simp_all
    have fl: "flat v = (xs @ [r]) @ ys" using Cons.prems(3) by simp
    show ?case
    proof (cases "index < fst r")
      case True
      then have "shift_ranges v it index = (it, index)"
        using d by (subst shift_ranges.simps) simp
      then show ?thesis using True Cons.prems by simp
    next
      case False
      then have "shift_ranges v (it_next v it) (index + (snd r - fst r)) = (it', index')"
        using Cons.prems(5) d lt by (simp add: shift_ranges.simps [of v it])
      from Cons.IH [OF Cons.prems(1) nx(1) fl nx(2) this] False show ?thesis by simp
    qed
  qed
  then show "it_ok v it'" "fpos v it' = length xs + rskip ys index" "index' = rshift ys index"
    by auto
qed

lemma rskip_chunk:
  assumes "ranges_ok (ds @ ys)" "ds \<noteq> [] \<Longrightarrow> snd (last ds) \<le> index"
  shows "rskip (ds @ ys) index = length ds + rskip ys (index + rcount ds) \<and>
    rshift (ds @ ys) index = rshift ys (index + rcount ds)"
  using assms
proof (induction ds arbitrary: index)
  case (Cons d ds)
  have "fst d < snd d" "\<forall>s \<in> set ds. snd d < fst s \<and> fst s < snd s"
    using Cons.prems(1) by (auto simp: ranges_ok_append dest: ranges_ok_nonempty)
  then have "snd d \<le> index"
    using Cons.prems(2) last_in_set [of ds] by (cases "ds = []") (simp, fastforce)
  then have "fst d \<le> index" using \<open>fst d < snd d\<close> by simp
  moreover have "ds \<noteq> [] \<Longrightarrow> snd (last ds) \<le> index + (snd d - fst d)" using Cons.prems(2) by simp
  ultimately show ?case using Cons.IH [of "index + (snd d - fst d)"] Cons.prems(1)
    by (simp add: add.assoc)
qed simp

lemma shift_chunks_correct:
  assumes "crv_ok mx v" "ranges_ok (flat v)" "k \<le> length v"
    "shift_chunks v (k, 0) index = (it', index')"
  shows "\<exists>m. it' = (m, 0) \<and> k \<le> m \<and> m \<le> length v \<and>
    length (flat (take k v)) + rskip (flat (drop k v)) index =
      length (flat (take m v)) + rskip (flat (drop m v)) index' \<and>
    rshift (flat (drop k v)) index = rshift (flat (drop m v)) index'"
  using assms(3,4)
proof (induction "length v - k" arbitrary: k index rule: less_induct)
  case less
  show ?case
  proof (cases "k < length v \<and> c_end (v ! k) \<le> index")
    case True
    define c where "c = v ! k"
    have c: "chunk_ok c" using True crv_okD [OF assms(1)] by (simp add: c_def)
    have dr: "flat (drop k v) = c_data c @ flat (drop (Suc k) v)"
      using True by (simp add: c_def flip: Cons_nth_drop_Suc)
    have tk: "flat (take (Suc k) v) = flat (take k v) @ c_data c"
      using True by (simp add: c_def take_Suc_conv_app_nth)
    have "ranges_ok (c_data c @ flat (drop (Suc k) v))"
      using assms(2) it_ok_chunk_start(3) [OF assms(1) less.prems(1)] dr by (simp add: ranges_ok_append)
    then have "rskip (flat (drop k v)) index = length (c_data c) + rskip (flat (drop (Suc k) v)) (index + c_count c) \<and>
      rshift (flat (drop k v)) index = rshift (flat (drop (Suc k) v)) (index + c_count c)"
      unfolding dr using rskip_chunk [of "c_data c" _ index] c True by (simp add: chunk_ok_def c_def)
    moreover have "shift_chunks v (Suc k, 0) (index + c_count c) = (it', index')"
      using less.prems(2) True by (simp add: shift_chunks.simps [of v "(k, 0)"] next_chunk_def c_def)
    moreover have "length v - Suc k < length v - k" "Suc k \<le> length v" using True by auto
    ultimately show ?thesis using less.hyps [of "Suc k" "index + c_count c"] tk by fastforce
  next
    case False
    then have "shift_chunks v (k, 0) index = ((k, 0), index)"
      by (subst shift_chunks.simps) auto
    then show ?thesis using less.prems by auto
  qed
qed

lemma is_shift_correct:
  assumes "index_set_ok mx v"
  shows "is_shift i v \<notin> indexes v" "unrank (indexes v) (is_shift i v) = i"
  using rshift_correct [of "flat v" i] assms by (simp_all add: is_shift_def indexes_def index_set_ok_def)

lemma is_add_shifted_correct:
  assumes ok: "index_set_ok mx v" and mx: "max_size_ok mx"
  shows "\<exists>v'. is_add_shifted mx i v = Some (v', is_shift i v) \<and> index_set_ok mx v' \<and>
    indexes v' = insert (is_shift i v) (indexes v)"
proof -
  have c: "crv_ok mx v" and rok: "ranges_ok (flat v)" using ok by (auto simp: index_set_ok_def)
  obtain it1 j where e1: "shift_chunks v (it_begin v) i = (it1, j)"
    by (cases "shift_chunks v (it_begin v) i") blast
  obtain it2 k where e2: "shift_ranges v it1 j = (it2, k)"
    by (cases "shift_ranges v it1 j") blast
  from shift_chunks_correct [OF c rok, of 0 i it1 j] e1 obtain m where m: "it1 = (m, 0)"
    "m \<le> length v" "rskip (flat v) i = length (flat (take m v)) + rskip (flat (drop m v)) j"
    "rshift (flat v) i = rshift (flat (drop m v)) j"
    by (auto simp: it_begin_def)
  note at = it_ok_chunk_start [OF c m(2)]
  note sr = shift_ranges_correct [OF c _ at(3) at(2), of j it2 k] 
  have r: "it_ok v it2" "fpos v it2 = rskip (flat v) i" "k = is_shift i v"
    using sr at(1) e2 m by (simp_all add: is_shift_def)
  have "found mx v it2 k"
    using r ok rshift_correct(3) [OF rok, of i] by (simp add: found_def is_shift_def)
  from do_add_spec [OF this mx] r(3) e1 e2 show ?thesis
    by (auto simp: is_add_shifted_def)
qed

subsection \<open>erase_or_unshift\<close>

function unshift_chunks :: "crv \<Rightarrow> nat \<Rightarrow> iter \<Rightarrow> nat \<Rightarrow> iter \<times> nat" where
  "unshift_chunks v index it shifted =
     (if fst it < length v \<and> c_end (v ! fst it) \<le> index
      then unshift_chunks v index (next_chunk it) (shifted - c_count (v ! fst it))
      else (it, shifted))"
  by pat_completeness auto
termination
  by (relation "measure (\<lambda>(v, index, it, shifted). length v - fst it)") (auto simp: next_chunk_def)

function unshift_ranges :: "crv \<Rightarrow> nat \<Rightarrow> iter \<Rightarrow> nat \<Rightarrow> iter \<times> nat" where
  "unshift_ranges v index it shifted =
     (if fst it < length v \<and> snd (it_deref v it) \<le> index
      then unshift_ranges v index (it_next v it) (shifted - (snd (it_deref v it) - fst (it_deref v it)))
      else (it, shifted))"
  by pat_completeness auto
termination
  by (relation "measures [\<lambda>(v, index, it, shifted). length v - fst it,
      \<lambda>(v, index, it, shifted). length (c_data (v ! fst it)) - snd it]")
    (auto simp: it_next_def next_chunk_def)

declare unshift_chunks.simps [simp del] unshift_ranges.simps [simp del]

definition is_erase_or_unshift :: "nat \<Rightarrow> crv \<Rightarrow> crv \<times> nat" where
  "is_erase_or_unshift index v =
     (let (it1, shifted1) = unshift_chunks v index (it_begin v) index;
          (it, shifted2) = unshift_ranges v index it1 shifted1
      in if it = it_end v then (v, shifted2)
         else
           let shifted = (if fst (it_deref v it) \<le> index then npos else shifted2)
           in (do_erase v it index, shifted))"

lemma unshift_ranges_correct:
  assumes "crv_ok mx v" "it_ok v it" "flat v = xs @ ys" "fpos v it = length xs"
    "unshift_ranges v index it s = (it', s')"
  shows "it_ok v it' \<and> fpos v it' = length xs + rpos ys index \<and>
    s' = s - rcount (take (rpos ys index) ys)"
  using assms
proof (induction ys arbitrary: it s xs)
  case Nil
  then have "it = it_end v" using at_end_iff [of mx v it] by simp
  then have "unshift_ranges v index it s = (it, s)"
    by (subst unshift_ranges.simps) (simp add: it_end_def)
  then show ?case using Nil by (simp add: rpos_def)
next
  case (Cons r ys)
  have d: "it_deref v it = r" "it \<noteq> it_end v" using deref_at [OF Cons.prems(1-4)] by simp_all
  then have lt: "fst it < length v" using fst_at_end_iff [OF Cons.prems(2)] by simp
  have nx: "it_ok v (it_next v it)" "fpos v (it_next v it) = length (xs @ [r])"
    using it_next_ok [OF Cons.prems(1,2) d(2)] Cons.prems(4) by simp_all
  have fl: "flat v = (xs @ [r]) @ ys" using Cons.prems(3) by simp
  show ?case
  proof (cases "snd r \<le> index")
    case False
    then have "unshift_ranges v index it s = (it, s)"
      using d by (subst unshift_ranges.simps) simp
    then show ?thesis using False Cons.prems by (simp add: rpos_def)
  next
    case True
    then have "unshift_ranges v index (it_next v it) (s - (snd r - fst r)) = (it', s')"
      using Cons.prems(5) d lt by (simp add: unshift_ranges.simps [of v index it])
    from Cons.IH [OF Cons.prems(1) nx(1) fl nx(2) this] True show ?thesis by (simp add: rpos_def)
  qed
qed

lemma rpos_chunk:
  assumes "ranges_ok (ds @ ys)" "ds \<noteq> [] \<Longrightarrow> snd (last ds) \<le> index"
  shows "rpos (ds @ ys) index = length ds + rpos ys index"
proof -
  have "\<forall>d \<in> set ds. snd d \<le> index"
    using assms by (cases ds rule: rev_cases) (force simp: ranges_ok_append)+
  then show ?thesis by (simp add: rpos_def takeWhile_append2)
qed

lemma unshift_chunks_correct:
  assumes "crv_ok mx v" "ranges_ok (flat v)" "k \<le> length v"
    "unshift_chunks v index (k, 0) s = (it', s')"
  shows "\<exists>m. it' = (m, 0) \<and> k \<le> m \<and> m \<le> length v \<and>
    length (flat (take k v)) + rpos (flat (drop k v)) index =
      length (flat (take m v)) + rpos (flat (drop m v)) index \<and>
    s - rcount (take (rpos (flat (drop k v)) index) (flat (drop k v))) =
      s' - rcount (take (rpos (flat (drop m v)) index) (flat (drop m v)))"
  using assms(3,4)
proof (induction "length v - k" arbitrary: k s rule: less_induct)
  case less
  show ?case
  proof (cases "k < length v \<and> c_end (v ! k) \<le> index")
    case True
    define c where "c = v ! k"
    have c: "chunk_ok c" using True crv_okD [OF assms(1)] by (simp add: c_def)
    have dr: "flat (drop k v) = c_data c @ flat (drop (Suc k) v)"
      using True by (simp add: c_def flip: Cons_nth_drop_Suc)
    have tk: "flat (take (Suc k) v) = flat (take k v) @ c_data c"
      using True by (simp add: c_def take_Suc_conv_app_nth)
    have "ranges_ok (c_data c @ flat (drop (Suc k) v))"
      using assms(2) it_ok_chunk_start(3) [OF assms(1) less.prems(1)] dr by (simp add: ranges_ok_append)
    then have "rpos (flat (drop k v)) index = length (c_data c) + rpos (flat (drop (Suc k) v)) index"
      unfolding dr using rpos_chunk [of "c_data c" _ index] c True by (simp add: chunk_ok_def c_def)
    moreover have "c_count c = rcount (c_data c)" using c by (simp add: chunk_ok_def)
    moreover have "unshift_chunks v index (Suc k, 0) (s - c_count c) = (it', s')"
      using less.prems(2) True by (simp add: unshift_chunks.simps [of v index "(k, 0)"] next_chunk_def c_def)
    moreover have "length v - Suc k < length v - k" "Suc k \<le> length v" using True by auto
    ultimately show ?thesis using less.hyps [of "Suc k" "s - c_count c"] tk dr by fastforce
  next
    case False
    then have "unshift_chunks v index (k, 0) s = ((k, 0), s)"
      by (subst unshift_chunks.simps) auto
    then show ?thesis using less.prems by auto
  qed
qed

lemma is_erase_or_unshift_correct:
  assumes ok: "index_set_ok mx v"
  shows "index_set_ok mx (fst (is_erase_or_unshift i v))"
    "indexes (fst (is_erase_or_unshift i v)) = del_shift i (indexes v)"
    "snd (is_erase_or_unshift i v) = (if i \<in> indexes v then npos else unrank (indexes v) i)"
proof -
  have c: "crv_ok mx v" and rok: "ranges_ok (flat v)" using ok by (auto simp: index_set_ok_def)
  obtain it1 j where e1: "unshift_chunks v i (it_begin v) i = (it1, j)"
    by (cases "unshift_chunks v i (it_begin v) i") blast
  obtain it2 k where e2: "unshift_ranges v i it1 j = (it2, k)"
    by (cases "unshift_ranges v i it1 j") blast
  from unshift_chunks_correct [OF c rok, of 0 i i it1 j] e1 obtain m where m: "it1 = (m, 0)"
    "m \<le> length v" "rpos (flat v) i = length (flat (take m v)) + rpos (flat (drop m v)) i"
    "i - rcount (take (rpos (flat v) i) (flat v)) = j - rcount (take (rpos (flat (drop m v)) i) (flat (drop m v)))"
    by (auto simp: it_begin_def)
  note at = it_ok_chunk_start [OF c m(2)]
  have r: "it_ok v it2" "fpos v it2 = rpos (flat v) i" "k = i - rcount (take (rpos (flat v) i) (flat v))"
    using unshift_ranges_correct [OF c at(1,3,2), of i j it2 k] e2 m by simp_all
  have f: "it2 = is_find v i"
    using fpos_inj [OF c r(1)] is_find_pos [OF ok, of i] r(2) by simp
  obtain xs ys where s: "flat v = xs @ ys" "length xs = rpos (flat v) i"
    "\<And>x. x \<in> set xs \<Longrightarrow> snd x \<le> i" "\<And>y. y \<in> set ys \<Longrightarrow> i < snd y" "ranges_ok xs" "ranges_ok ys"
    using ranges_ok_split [OF rok, of i] by metis
  have un: "k = unrank (indexes v) i" if "i \<notin> indexes v"
  proof -
    have "rset xs \<inter> {..<i} = rset xs" using s(3) by (fastforce simp: rset_iff)
    moreover have "\<forall>y \<in> set ys. i < fst y"
    proof (cases ys)
      case (Cons y zs)
      have "ranges_ok (xs @ ys)" using rok s(1) by simp
      from rset_mem_split [OF this s(3,4)] have "i < fst y"
        using that Cons s(1) by (simp add: indexes_def)
      moreover have "\<forall>z \<in> set zs. snd y < fst z" "fst y < snd y"
        using \<open>ranges_ok (xs @ ys)\<close> Cons by (auto simp: ranges_ok_append)
      ultimately show ?thesis using Cons by auto
    qed simp
    then have "rset ys \<inter> {..<i} = {}" by (fastforce simp: rset_iff)
    ultimately have "card (indexes v \<inter> {..<i}) = rcount xs"
      using rcount_eq_card [OF s(5)] by (simp add: indexes_def s(1) Int_Un_distrib2)
    then show ?thesis using r(3) s(1,2) by (simp add: unrank_eq)
  qed
  have mem: "i \<in> indexes v \<longleftrightarrow> it2 \<noteq> it_end v \<and> fst (it_deref v it2) \<le> i"
    using is_contains_iff [OF ok, of i] f by (simp add: is_contains_def Let_def)
  have e: "is_erase_or_unshift i v = (is_erase_at i v, if i \<in> indexes v then npos else k)"
    using e1 e2 mem f by (auto simp: is_erase_or_unshift_def is_erase_at_def Let_def)
  show "index_set_ok mx (fst (is_erase_or_unshift i v))"
    "indexes (fst (is_erase_or_unshift i v)) = del_shift i (indexes v)"
    using is_erase_at_correct [OF ok, of i] by (simp_all add: e)
  show "snd (is_erase_or_unshift i v) = (if i \<in> indexes v then npos else unrank (indexes v) i)"
    using un by (simp add: e)
qed

end
