(* ===== verification/Range_Builder.thy ===== *)
theory Range_Builder
  imports Index_Set_Shift
begin

text \<open>
  \<open>ChunkedRangeVectorBuilder\<close> of \<open>index_set.cpp\<close>: the bulk operations of \<open>IndexSet\<close> push the
  indices of their result in increasing order and take over the finished chunks.

  On the flattened list a push is \<open>rpush\<close>.  The layout invariant \<open>builder_ok\<close> holds for every
  sequence of ordered pushes.  The cached counts (\<open>builder_counts\<close>) are kept by pushes of
  single indices, and by pushes of ranges as long as the chunks allocated up front suffice:
  the branch that allocates one more chunk stores the count 1 whatever the range.
\<close>

record builder =
  b_data :: crv
  b_pos :: nat

definition empty_chunk :: chunk where
  "empty_chunk = \<lparr>c_data = [], c_begin = 0, c_end = 0, c_count = 0\<rparr>"

definition builder_init :: "nat \<Rightarrow> crv \<Rightarrow> builder" where
  "builder_init mx expected =
     \<lparr>b_data = replicate (length (flat expected) div mx + 1) empty_chunk, b_pos = 0\<rparr>"

definition push_range :: "nat \<Rightarrow> range \<Rightarrow> builder \<Rightarrow> builder" where
  "push_range mx r b =
     (let c = b_data b ! b_pos b; d = c_data c in
      if d = [] then
        b\<lparr>b_data := (b_data b)[b_pos b :=
            c\<lparr>c_data := [r], c_count := snd r - fst r, c_begin := fst r\<rparr>]\<rparr>
      else if fst r = snd (last d) then
        b\<lparr>b_data := (b_data b)[b_pos b :=
            c\<lparr>c_data := butlast d @ [(fst (last d), snd r)],
              c_count := c_count c + (snd r - fst r)\<rparr>]\<rparr>
      else if length d < mx then
        b\<lparr>b_data := (b_data b)[b_pos b :=
            c\<lparr>c_data := d @ [r], c_count := c_count c + (snd r - fst r)\<rparr>]\<rparr>
      else
        let data1 = (b_data b)[b_pos b := c\<lparr>c_end := snd (last d)\<rparr>];
            pos1 = b_pos b + 1
        in if length data1 \<le> pos1 then
             \<lparr>b_data = data1 @ [\<lparr>c_data = [r], c_begin = fst r, c_end = 0, c_count = 1\<rparr>],
               b_pos = pos1\<rparr>
           else
             let n = data1 ! pos1 in
             \<lparr>b_data = data1[pos1 := n\<lparr>c_data := c_data n @ [r], c_begin := fst r,
               c_count := snd r - fst r\<rparr>], b_pos = pos1\<rparr>)"

definition push_index :: "nat \<Rightarrow> nat \<Rightarrow> builder \<Rightarrow> builder" where
  "push_index mx i b = push_range mx (i, i + 1) b"

definition builder_finalize :: "builder \<Rightarrow> crv" where
  "builder_finalize b =
     (if b_data b \<noteq> [] then
        let d = take (b_pos b + 1) (b_data b) in
        if c_data (last d) = [] then butlast d
        else butlast d @ [(last d)\<lparr>c_end := snd (last (c_data (last d)))\<rparr>]
      else b_data b)"

subsection \<open>Pushes on the flattened list\<close>

definition rpush :: "range list \<Rightarrow> range \<Rightarrow> range list" where
  "rpush rs r =
     (if rs \<noteq> [] \<and> fst r = snd (last rs) then butlast rs @ [(fst (last rs), snd r)] else rs @ [r])"

lemma rpush_ok:
  assumes "ranges_ok rs" "fst r < snd r" "rs \<noteq> [] \<longrightarrow> snd (last rs) \<le> fst r"
  shows "ranges_ok (rpush rs r)" "rset (rpush rs r) = rset rs \<union> {fst r..<snd r}"
    "rpush rs r \<noteq> []" "snd (last (rpush rs r)) = snd r"
proof -
  have "ranges_ok (rpush rs r) \<and> rset (rpush rs r) = rset rs \<union> {fst r..<snd r} \<and>
    rpush rs r \<noteq> [] \<and> snd (last (rpush rs r)) = snd r"
  proof (cases rs rule: rev_cases)
    case (snoc ws x)
    have x: "fst x < snd x" "\<forall>w \<in> set ws. snd w < fst x" "ranges_ok ws" "snd x \<le> fst r"
      using assms snoc by (auto simp: ranges_ok_append)
    show ?thesis
    proof (cases "fst r = snd x")
      case True
      then show ?thesis using x assms(2) snoc by (force simp: rpush_def ranges_ok_append)
    next
      case False
      then have "\<forall>w \<in> set rs. snd w < fst r" using x snoc by force
      then show ?thesis using False assms(1,2) snoc by (auto simp: rpush_def ranges_ok_append)
    qed
  qed (use assms in \<open>auto simp: rpush_def\<close>)
  then show "ranges_ok (rpush rs r)" "rset (rpush rs r) = rset rs \<union> {fst r..<snd r}"
    "rpush rs r \<noteq> []" "snd (last (rpush rs r)) = snd r" by auto
qed

subsection \<open>The builder's invariants\<close>

definition bflat :: "builder \<Rightarrow> range list" where
  "bflat b = flat (take (b_pos b + 1) (b_data b))"

text \<open>Finished chunks are full; the current chunk lacks only its end; later ones are unused.\<close>

definition builder_ok :: "nat \<Rightarrow> builder \<Rightarrow> bool" where
  "builder_ok mx b \<longleftrightarrow> (\<exists>as c bs. b_data b = as @ c # bs \<and> length as = b_pos b \<and>
     (\<forall>a \<in> set as. length (c_data a) = mx \<and> c_begin a = fst (hd (c_data a)) \<and>
        c_end a = snd (last (c_data a))) \<and>
     length (c_data c) \<le> mx \<and> (c_data c \<noteq> [] \<longrightarrow> c_begin c = fst (hd (c_data c))) \<and>
     (c_data c = [] \<longrightarrow> as = []) \<and> (\<forall>x \<in> set bs. c_data x = []))"

definition builder_counts :: "builder \<Rightarrow> bool" where
  "builder_counts b \<longleftrightarrow>
     (\<forall>c \<in> set (take (b_pos b + 1) (b_data b)). c_data c \<noteq> [] \<longrightarrow> c_count c = rcount (c_data c))"

lemma builder_okE:
  assumes "builder_ok mx b"
  obtains as c bs where "b = \<lparr>b_data = as @ c # bs, b_pos = length as\<rparr>"
    "\<forall>a \<in> set as. length (c_data a) = mx \<and> c_begin a = fst (hd (c_data a)) \<and>
        c_end a = snd (last (c_data a))"
    "length (c_data c) \<le> mx" "c_data c \<noteq> [] \<longrightarrow> c_begin c = fst (hd (c_data c))"
    "c_data c = [] \<longrightarrow> as = []" "\<forall>x \<in> set bs. c_data x = []"
  using assms by (cases b) (auto simp: builder_ok_def)

lemma builder_okI:
  assumes "\<forall>a \<in> set as. length (c_data a) = mx \<and> c_begin a = fst (hd (c_data a)) \<and>
        c_end a = snd (last (c_data a))"
    "length (c_data c) \<le> mx" "c_data c \<noteq> [] \<Longrightarrow> c_begin c = fst (hd (c_data c))"
    "c_data c = [] \<Longrightarrow> as = []" "\<forall>x \<in> set bs. c_data x = []"
  shows "builder_ok mx \<lparr>b_data = as @ c # bs, b_pos = length as\<rparr>"
  unfolding builder_ok_def using assms by (intro exI [of _ as] exI [of _ c] exI [of _ bs]) auto

lemma bflat_simp [simp]:
  "bflat \<lparr>b_data = as @ c # bs, b_pos = length as\<rparr> = flat as @ c_data c"
  by (simp add: bflat_def)

lemma builder_counts_simp [simp]:
  "builder_counts \<lparr>b_data = as @ c # bs, b_pos = length as\<rparr> \<longleftrightarrow>
   (\<forall>x \<in> set as. c_data x \<noteq> [] \<longrightarrow> c_count x = rcount (c_data x)) \<and>
   (c_data c \<noteq> [] \<longrightarrow> c_count c = rcount (c_data c))"
  by (auto simp: builder_counts_def)

lemma builder_init_ok:
  assumes "max_size_ok mx"
  shows "builder_ok mx (builder_init mx v)" "builder_counts (builder_init mx v)"
    "bflat (builder_init mx v) = []" "length (b_data (builder_init mx v)) = length (flat v) div mx + 1"
proof -
  have e: "builder_init mx v = \<lparr>b_data = [] @ empty_chunk # replicate (length (flat v) div mx) empty_chunk,
    b_pos = length ([] :: crv)\<rparr>"
    by (simp add: builder_init_def)
  show "builder_ok mx (builder_init mx v)"
    unfolding e by (rule builder_okI) (auto simp: empty_chunk_def)
  show "builder_counts (builder_init mx v)" "bflat (builder_init mx v) = []"
    unfolding e builder_counts_simp bflat_simp by (simp_all add: empty_chunk_def)
  show "length (b_data (builder_init mx v)) = length (flat v) div mx + 1"
    by (simp add: builder_init_def)
qed

lemma push_range_cases:
  assumes "b = \<lparr>b_data = as @ c # bs, b_pos = length as\<rparr>"
  shows "push_range mx r b =
     (let d = c_data c in
      if d = [] then \<lparr>b_data = as @ c\<lparr>c_data := [r], c_count := snd r - fst r, c_begin := fst r\<rparr> # bs,
        b_pos = length as\<rparr>
      else if fst r = snd (last d) then
        \<lparr>b_data = as @ c\<lparr>c_data := butlast d @ [(fst (last d), snd r)],
              c_count := c_count c + (snd r - fst r)\<rparr> # bs, b_pos = length as\<rparr>
      else if length d < mx then
        \<lparr>b_data = as @ c\<lparr>c_data := d @ [r], c_count := c_count c + (snd r - fst r)\<rparr> # bs,
          b_pos = length as\<rparr>
      else
        \<lparr>b_data = (as @ [c\<lparr>c_end := snd (last d)\<rparr>]) @
           (case bs of [] \<Rightarrow> [\<lparr>c_data = [r], c_begin = fst r, c_end = 0, c_count = 1\<rparr>]
            | n # bs' \<Rightarrow> n\<lparr>c_data := c_data n @ [r], c_begin := fst r, c_count := snd r - fst r\<rparr> # bs'),
         b_pos = length (as @ [c\<lparr>c_end := snd (last d)\<rparr>])\<rparr>)"
  using assms by (auto simp: push_range_def Let_def nth_append list_update_append split: list.splits)

lemma rpush_append: "ys \<noteq> [] \<Longrightarrow> rpush (xs @ ys) r = xs @ rpush ys r"
  by (auto simp: rpush_def butlast_append)

lemma push_range_ok:
  assumes "max_size_ok mx" "builder_ok mx b"
  shows "builder_ok mx (push_range mx r b)" "bflat (push_range mx r b) = rpush (bflat b) r"
proof -
  obtain as c bs where b: "b = \<lparr>b_data = as @ c # bs, b_pos = length as\<rparr>"
    "\<forall>a \<in> set as. length (c_data a) = mx \<and> c_begin a = fst (hd (c_data a)) \<and>
        c_end a = snd (last (c_data a))"
    "length (c_data c) \<le> mx" "c_data c \<noteq> [] \<longrightarrow> c_begin c = fst (hd (c_data c))"
    "c_data c = [] \<longrightarrow> as = []" "\<forall>x \<in> set bs. c_data x = []"
    using assms(2) by (rule builder_okE)
  have mx: "0 < mx" using assms(1) by (simp add: max_size_ok_def)
  have hd: "fst (hd (butlast xs @ [(fst (last xs), y)])) = fst (hd xs)" if "xs \<noteq> []" for xs :: "range list" and y
    using that by (cases xs rule: rev_cases) (auto simp: hd_append)
  note e = push_range_cases [OF b(1), of mx r]
  consider (none) "c_data c = []" | (join) "c_data c \<noteq> []" "fst r = snd (last (c_data c))"
    | (room) "c_data c \<noteq> []" "fst r \<noteq> snd (last (c_data c))" "length (c_data c) < mx"
    | (full) "c_data c \<noteq> []" "fst r \<noteq> snd (last (c_data c))" "length (c_data c) = mx"
    using b(3) by fastforce
  then have "builder_ok mx (push_range mx r b) \<and> bflat (push_range mx r b) = rpush (bflat b) r"
  proof cases
    case none
    with b(5) have "as = []" by simp
    have "builder_ok mx \<lparr>b_data = as @ c\<lparr>c_data := [r], c_count := snd r - fst r, c_begin := fst r\<rparr> # bs, b_pos = length as\<rparr>"
      by (rule builder_okI) (use b mx in auto)
    then show ?thesis unfolding e Let_def using none \<open>as = []\<close> b(1) by (auto simp: rpush_def bflat_def)
  next
    case join
    have "builder_ok mx \<lparr>b_data = as @ c\<lparr>c_data := butlast (c_data c) @ [(fst (last (c_data c)), snd r)],
      c_count := c_count c + (snd r - fst r)\<rparr> # bs, b_pos = length as\<rparr>"
      by (rule builder_okI) (use b join hd in auto)
    then show ?thesis unfolding e Let_def using join b(1) by (simp add: rpush_append) (simp add: rpush_def)
  next
    case room
    have "builder_ok mx \<lparr>b_data = as @ c\<lparr>c_data := c_data c @ [r],
      c_count := c_count c + (snd r - fst r)\<rparr> # bs, b_pos = length as\<rparr>"
      by (rule builder_okI) (use b room in auto)
    then show ?thesis unfolding e Let_def using room b(1) by (simp add: rpush_append) (simp add: rpush_def)
  next
    case full
    let ?c = "c\<lparr>c_end := snd (last (c_data c))\<rparr>"
    define n where "n = (case bs of [] \<Rightarrow> \<lparr>c_data = [r], c_begin = fst r, c_end = 0, c_count = 1\<rparr>
       | n # bs' \<Rightarrow> n\<lparr>c_data := c_data n @ [r], c_begin := fst r, c_count := snd r - fst r\<rparr>)"
    have n: "c_data n = [r]" "c_begin n = fst r" using b(6) by (auto simp: n_def split: list.splits)
    have tl: "\<forall>x \<in> set (tl bs). c_data x = []" using b(6) by (cases bs) auto
    have f: "push_range mx r b = \<lparr>b_data = (as @ [?c]) @ n # tl bs, b_pos = length (as @ [?c])\<rparr>"
      unfolding e Let_def using full by (auto simp: n_def split: list.splits)
    have "builder_ok mx (push_range mx r b)"
      unfolding f by (rule builder_okI) (use b full mx n tl in auto)
    moreover have "bflat (push_range mx r b) = rpush (bflat b) r"
      unfolding f bflat_simp using full b(1) n by (simp add: rpush_append) (simp add: rpush_def)
    ultimately show ?thesis by simp
  qed
  then show "builder_ok mx (push_range mx r b)" "bflat (push_range mx r b) = rpush (bflat b) r"
    by simp_all
qed

text \<open>The cached counts survive a push of a single index, and any push within the capacity.\<close>

lemma bflat_length:
  assumes "builder_ok mx b"
  shows "length (bflat b) \<le> (b_pos b + 1) * mx" "b_pos b * mx \<le> length (bflat b)" "b_pos b < length (b_data b)"
proof -
  obtain as c bs where b: "b = \<lparr>b_data = as @ c # bs, b_pos = length as\<rparr>"
    "\<forall>a \<in> set as. length (c_data a) = mx \<and> c_begin a = fst (hd (c_data a)) \<and>
        c_end a = snd (last (c_data a))" "length (c_data c) \<le> mx"
    using assms by (rule builder_okE)
  have "length (flat as) = length as * mx" using b(2) by (induction as) auto
  then show "length (bflat b) \<le> (b_pos b + 1) * mx" "b_pos b * mx \<le> length (bflat b)"
    "b_pos b < length (b_data b)" using b(1,3) by auto
qed

lemma rcount_butlast:
  "rs \<noteq> [] \<Longrightarrow> ranges_ok rs \<Longrightarrow> s \<ge> snd (last rs) \<Longrightarrow>
   rcount (butlast rs) + (s - fst (last rs)) = rcount rs + s - snd (last rs)"
  by (cases rs rule: rev_cases) (auto simp: ranges_ok_append)

lemma push_range_counts:
  assumes "max_size_ok mx" "builder_ok mx b" "builder_counts b" "ranges_ok (bflat b)" "fst r < snd r"
    "snd r - fst r = 1 \<or> length (rpush (bflat b) r) \<le> length (b_data b) * mx"
  shows "builder_counts (push_range mx r b)"
proof -
  obtain as c bs where b: "b = \<lparr>b_data = as @ c # bs, b_pos = length as\<rparr>"
    "\<forall>a \<in> set as. length (c_data a) = mx \<and> c_begin a = fst (hd (c_data a)) \<and>
        c_end a = snd (last (c_data a))"
    "length (c_data c) \<le> mx" "\<forall>x \<in> set bs. c_data x = []"
    using assms(2) by (rule builder_okE)
  have fl: "length (flat as) = length as * mx" using b(2) by (induction as) auto
  have room: "bs \<noteq> [] \<or> snd r - fst r = 1"
    if "length (c_data c) = mx" "c_data c \<noteq> []" "fst r \<noteq> snd (last (c_data c))"
    using that assms(6) fl b(1) by (cases bs) (auto simp: rpush_def)
  have counts: "\<forall>x \<in> set as. c_data x \<noteq> [] \<longrightarrow> c_count x = rcount (c_data x)"
    "c_data c \<noteq> [] \<Longrightarrow> c_count c = rcount (c_data c)" using assms(3) b(1) by auto
  have ok: "ranges_ok (c_data c)" using assms(4) b(1) by (simp add: ranges_ok_append)
  show ?thesis
  proof (cases "c_data c \<noteq> [] \<and> fst r \<noteq> snd (last (c_data c)) \<and> \<not> length (c_data c) < mx")
    case True
    let ?c = "c\<lparr>c_end := snd (last (c_data c))\<rparr>"
    define n where "n = (case bs of [] \<Rightarrow> \<lparr>c_data = [r], c_begin = fst r, c_end = 0, c_count = 1\<rparr>
       | n # bs' \<Rightarrow> n\<lparr>c_data := c_data n @ [r], c_begin := fst r, c_count := snd r - fst r\<rparr>)"
    have f: "push_range mx r b = \<lparr>b_data = (as @ [?c]) @ n # tl bs, b_pos = length (as @ [?c])\<rparr>"
      unfolding push_range_cases [OF b(1)] Let_def using True by (auto simp: n_def split: list.splits)
    have "c_count n = rcount (c_data n)" using room True b(3,4) by (auto simp: n_def split: list.splits)
    then show ?thesis unfolding f builder_counts_simp using counts by auto
  next
    case False
    then show ?thesis unfolding push_range_cases [OF b(1)] Let_def
      using counts ok assms(5) by (auto simp: rcount_butlast)
  qed
qed

lemma push_range_capacity: "length (b_data b) \<le> length (b_data (push_range mx r b))"
  by (simp add: push_range_def Let_def)

lemma length_rpush: "length rs \<le> length (rpush rs r)"
  by (simp add: rpush_def)

subsection \<open>Finishing\<close>

lemma builder_finalize_flat:
  assumes "builder_ok mx b"
  shows "flat (builder_finalize b) = bflat b"
proof -
  obtain as c bs where b: "b = \<lparr>b_data = as @ c # bs, b_pos = length as\<rparr>"
    using assms by (rule builder_okE)
  show ?thesis unfolding b by (simp add: builder_finalize_def Let_def)
qed

lemma builder_finalize_ok:
  assumes "max_size_ok mx" "builder_ok mx b" "builder_counts b"
  shows "crv_ok mx (builder_finalize b)"
proof -
  obtain as c bs where b: "b = \<lparr>b_data = as @ c # bs, b_pos = length as\<rparr>"
    "\<forall>a \<in> set as. length (c_data a) = mx \<and> c_begin a = fst (hd (c_data a)) \<and>
        c_end a = snd (last (c_data a))"
    "length (c_data c) \<le> mx" "c_data c \<noteq> [] \<longrightarrow> c_begin c = fst (hd (c_data c))"
    using assms(2) by (rule builder_okE)
  have "0 < mx" using assms(1) by (simp add: max_size_ok_def)
  then have "\<forall>a \<in> set as. c_data a \<noteq> []" using b(2) by force
  then have "crv_ok mx as" using b assms(3) by (auto simp: crv_ok_def chunk_ok_def)
  then show ?thesis using b assms(3)
    by (auto simp: builder_finalize_def Let_def chunk_ok_def)
qed

subsection \<open>The builder as a sink of increasing indices\<close>

definition building :: "nat \<Rightarrow> builder \<Rightarrow> nat set \<Rightarrow> bool" where
  "building mx b S \<longleftrightarrow> max_size_ok mx \<and> builder_ok mx b \<and> builder_counts b \<and>
     ranges_ok (bflat b) \<and> rset (bflat b) = S"

locale index_sink =
  fixes rep :: "'b \<Rightarrow> nat set \<Rightarrow> bool"
    and push :: "nat \<Rightarrow> 'b \<Rightarrow> 'b"
  assumes push_rep: "rep b S \<Longrightarrow> \<forall>x \<in> S. x < i \<Longrightarrow> rep (push i b) (insert i S)"
begin

lemma fold_push_rep:
  "rep b S \<Longrightarrow> sorted_wrt (<) zs \<Longrightarrow> \<forall>x \<in> S. \<forall>z \<in> set zs. x < z \<Longrightarrow>
   rep (fold push zs b) (S \<union> set zs)"
proof (induction zs arbitrary: b S)
  case (Cons z zs)
  have "rep (push z b) (insert z S)" using Cons.prems by (intro push_rep) auto
  then have "rep (fold push zs (push z b)) (insert z S \<union> set zs)"
    using Cons.prems by (intro Cons.IH) auto
  then show ?case by simp
qed simp

end

lemma ranges_ok_last_le:
  assumes "ranges_ok rs" "\<forall>x \<in> rset rs. x < i" "rs \<noteq> []"
  shows "snd (last rs) \<le> i"
  using assms by (cases rs rule: rev_cases) (auto simp: ranges_ok_append dest: bspec [of _ _ "snd (last rs) - 1"])

lemma building_push:
  assumes "building mx b S" "\<forall>x \<in> S. x < i"
  shows "building mx (push_index mx i b) (insert i S)"
proof -
  note b = assms(1) [unfolded building_def]
  have "bflat b \<noteq> [] \<Longrightarrow> snd (last (bflat b)) \<le> i" using b assms(2) by (intro ranges_ok_last_le) auto
  then have "ranges_ok (rpush (bflat b) (i, i + 1))" "rset (rpush (bflat b) (i, i + 1)) = insert i S"
    using b rpush_ok [of "bflat b" "(i, i + 1)"] by auto
  moreover have "builder_counts (push_range mx (i, i + 1) b)" using b by (intro push_range_counts) auto
  ultimately show ?thesis
    using b push_range_ok [of mx b "(i, i + 1)"] by (simp add: building_def push_index_def)
qed

interpretation sink: index_sink "building mx" "push_index mx" for mx
  by unfold_locales (rule building_push)

lemma building_init: "max_size_ok mx \<Longrightarrow> building mx (builder_init mx v) {}"
  using builder_init_ok [of mx v] by (simp add: building_def)

lemma building_finalize:
  "building mx b S \<Longrightarrow> index_set_ok mx (builder_finalize b) \<and> indexes (builder_finalize b) = S"
  by (auto simp: building_def index_set_ok_def indexes_def builder_finalize_flat builder_finalize_ok)

lemma build_indexes:
  assumes "max_size_ok mx" "sorted_wrt (<) zs"
  shows "index_set_ok mx (builder_finalize (fold (push_index mx) zs (builder_init mx v)))"
    "indexes (builder_finalize (fold (push_index mx) zs (builder_init mx v))) = set zs"
  using building_finalize [OF sink.fold_push_rep [OF building_init [OF assms(1)] assms(2)], of v] by auto

end
