(* ===== verification/Index_Set_Bulk.thy ===== *)
theory Index_Set_Bulk
  imports Range_Builder
begin

text \<open>
  The bulk operations of \<open>IndexSet\<close> that take another set: \<open>insert_at\<close>, \<open>shift_for_insert_at\<close>,
  \<open>erase_at\<close> and \<open>add_shifted_by\<close>.  Each is one pass over both sets that feeds the builder.

  A pass is shown to push a strictly increasing list, so that the builder's contract applies;
  what the list holds is stated through \<open>unrank\<close>, the numbering of the rows that are not in a set.
\<close>

subsection \<open>insert_at and shift_for_insert_at\<close>

fun insert_at_loop :: "nat \<Rightarrow> nat list \<Rightarrow> nat list \<Rightarrow> nat \<Rightarrow> builder \<Rightarrow> builder" where
  "insert_at_loop mx (x # xs) (y # ys) shift b =
     (if x + shift < y then insert_at_loop mx xs (y # ys) shift (push_index mx (x + shift) b)
      else insert_at_loop mx (x # xs) ys (shift + 1) (push_index mx y b))"
| "insert_at_loop mx xs [] shift b = fold (\<lambda>x. push_index mx (x + shift)) xs b"
| "insert_at_loop mx [] ys shift b = fold (push_index mx) ys b"

definition is_insert_at_set :: "nat \<Rightarrow> crv \<Rightarrow> crv \<Rightarrow> crv" where
  "is_insert_at_set mx positions v =
     (if positions = [] then v
      else if v = [] then positions
      else builder_finalize (insert_at_loop mx (as_indexes v) (as_indexes positions) 0 (builder_init mx v)))"

fun shift_insert_loop :: "nat \<Rightarrow> nat list \<Rightarrow> nat list \<Rightarrow> nat \<Rightarrow> builder \<Rightarrow> builder" where
  "shift_insert_loop mx (x # xs) (y # ys) shift b =
     (if x + shift < y then shift_insert_loop mx xs (y # ys) shift (push_index mx (x + shift) b)
      else shift_insert_loop mx (x # xs) ys (shift + 1) b)"
| "shift_insert_loop mx xs [] shift b = fold (\<lambda>x. push_index mx (x + shift)) xs b"
| "shift_insert_loop mx [] ys shift b = b"

definition is_shift_for_insert_at_set :: "nat \<Rightarrow> crv \<Rightarrow> crv \<Rightarrow> crv" where
  "is_shift_for_insert_at_set mx values v =
     (if v = [] \<or> values = [] then v
      else if c_end (last v) \<le> c_begin (hd values) then v
      else builder_finalize
             (shift_insert_loop mx (as_indexes v) (as_indexes values) 0 (builder_init mx v)))"

fun merged :: "nat list \<Rightarrow> nat list \<Rightarrow> nat \<Rightarrow> nat list" where
  "merged (x # xs) (y # ys) s =
     (if x + s < y then (x + s) # merged xs (y # ys) s else y # merged (x # xs) ys (s + 1))"
| "merged xs [] s = map (\<lambda>x. x + s) xs"
| "merged [] ys s = ys"

definition moved :: "nat set \<Rightarrow> nat set \<Rightarrow> nat set" where
  "moved Y X = {k. k \<notin> Y \<and> unrank Y k \<in> X}"

lemma unrank_below: "\<forall>y \<in> Y. k \<le> y \<Longrightarrow> unrank Y k = k"
proof -
  assume "\<forall>y \<in> Y. k \<le> y"
  then have "Y \<inter> {..<k} = {}" by fastforce
  then show ?thesis by (simp add: unrank_eq)
qed

lemma unrank_insert:
  assumes "y \<notin> Y" "\<forall>z \<in> Y. y < z"
  shows "unrank (insert y Y) k = (if y < k then unrank Y k - 1 else k)"
    "y < k \<Longrightarrow> y < unrank Y k"
proof -
  show "unrank (insert y Y) k = (if y < k then unrank Y k - 1 else k)"
  proof (cases "y < k")
    case True
    then have "insert y Y \<inter> {..<k} = insert y (Y \<inter> {..<k})" by auto
    with True assms(1) show ?thesis by (simp add: unrank_eq)
  qed (use assms in \<open>auto intro!: unrank_below\<close>)
  show "y < unrank Y k" if "y < k"
  proof -
    have "unrank Y y = y" using assms(2) by (intro unrank_below) auto
    then show ?thesis using unrank_strict_mono [OF assms(1) that] by simp
  qed
qed

lemma moved_step_keep:
  assumes "\<forall>y \<in> Y. k < y"
  shows "moved Y (insert k X) = insert k (moved Y X)"
proof -
  have "unrank Y k = k" using assms by (intro unrank_below) auto
  moreover have "k \<notin> Y" using assms by blast
  ultimately show ?thesis using unrank_inj [of _ Y k] by (auto simp: moved_def)
qed

lemma moved_step_insert:
  assumes "\<forall>z \<in> Y. y < z" "\<forall>x \<in> X. y \<le> x"
  shows "moved (insert y Y) X = moved Y (Suc ` X)"
proof -
  have y: "y \<notin> Y" using assms(1) by blast
  have b: "unrank Y k = k" if "k \<le> y" for k using that assms(1) by (intro unrank_below) auto
  have "k \<in> moved (insert y Y) X \<longleftrightarrow> k \<in> moved Y (Suc ` X)" for k
  proof (cases "y < k")
    case True
    then show ?thesis
      using unrank_insert [OF y assms(1), of k]
      by (cases "unrank Y k") (auto simp: moved_def image_iff)
  next
    case False
    have "k \<notin> Suc ` X" using False assms(2) by force
    moreover have "k = y \<or> k \<notin> X" using False assms(2) by force
    ultimately show ?thesis using unrank_insert(1) [OF y assms(1), of k] False b [of k] by (auto simp: moved_def)
  qed
  then show ?thesis by blast
qed

lemma moved_gt: "\<forall>x \<in> X. i < x \<Longrightarrow> \<forall>k \<in> moved Y X. i < k"
  using unrank_le by (fastforce simp: moved_def intro: less_le_trans)

lemma moved_empty [simp]: "moved {} X = X"
  by (auto simp: moved_def unrank_def)

lemma moved_empty_right [simp]: "moved Y {} = {}"
  by (auto simp: moved_def)

lemma insert_at_loop_fold: "insert_at_loop mx xs ys s b = fold (push_index mx) (merged xs ys s) b"
  by (induction mx xs ys s b rule: insert_at_loop.induct) (auto simp: fold_map comp_def)

lemma merged_set:
  "sorted_wrt (<) xs \<Longrightarrow> sorted_wrt (<) ys \<Longrightarrow>
   set (merged xs ys s) = set ys \<union> moved (set ys) ((+) s ` set xs) \<and> sorted_wrt (<) (merged xs ys s)"
proof (induction xs ys s rule: merged.induct)
  case (1 x xs y ys s)
  show ?case
  proof (cases "x + s < y")
    case True
    with 1 have IH: "set (merged xs (y # ys) s) = set (y # ys) \<union> moved (set (y # ys)) ((+) s ` set xs)"
      "sorted_wrt (<) (merged xs (y # ys) s)" by auto
    have y: "\<forall>z \<in> set (y # ys). x + s < z" using True "1.prems" by auto
    have "\<forall>k \<in> moved (set (y # ys)) ((+) s ` set xs). x + s < k"
      by (rule moved_gt) (use "1.prems" in auto)
    then show ?thesis using True IH y moved_step_keep [OF y, of "(+) s ` set xs"]
      by (auto simp: add.commute [of x s])
  next
    case False
    with 1 have IH: "set (merged (x # xs) ys (s + 1)) = set ys \<union> moved (set ys) ((+) (s + 1) ` set (x # xs))"
      "sorted_wrt (<) (merged (x # xs) ys (s + 1))" by auto
    have e: "(+) (s + 1) ` set (x # xs) = Suc ` (+) s ` set (x # xs)" by (auto simp: image_image)
    have X: "\<forall>z \<in> (+) s ` set (x # xs). y \<le> z" using False "1.prems" by fastforce
    have "moved (set (y # ys)) ((+) s ` set (x # xs)) = moved (set ys) ((+) (s + 1) ` set (x # xs))"
      unfolding e using moved_step_insert [OF _ X, of "set ys"] "1.prems" by simp
    moreover have "\<forall>k \<in> moved (set ys) ((+) (s + 1) ` set (x # xs)). y < k"
      unfolding e by (rule moved_gt) (use X in auto)
    ultimately show ?thesis using False IH "1.prems" by auto
  qed
next
  case (2 xs s)
  then show ?case by (auto simp: sorted_wrt_map)
qed simp

lemma shift_insert_loop_fold:
  "sorted_wrt (<) xs \<Longrightarrow> sorted_wrt (<) ys \<Longrightarrow>
   shift_insert_loop mx xs ys s b = fold (push_index mx) (filter (\<lambda>k. k \<notin> set ys) (merged xs ys s)) b"
proof (induction mx xs ys s b rule: shift_insert_loop.induct)
  case (1 mx x xs y ys s b)
  show ?case
  proof (cases "x + s < y")
    case False
    have m: "y \<notin> set (merged (x # xs) ys (s + 1))"
    proof -
      have "\<forall>k \<in> moved (set ys) ((+) (s + 1) ` set (x # xs)). y < k"
        by (rule moved_gt) (use False "1.prems" in fastforce)
      then show ?thesis using merged_set [of "x # xs" ys "s + 1"] "1.prems" by auto
    qed
    then have "filter (\<lambda>k. k \<notin> set (y # ys)) (merged (x # xs) ys (s + 1)) =
      filter (\<lambda>k. k \<notin> set ys) (merged (x # xs) ys (s + 1))" by (intro filter_cong) auto
    then show ?thesis using 1 False by simp
  next
    case True
    then show ?thesis using 1 by (auto simp: not_less less_imp_le)
  qed
next
  case (2 mx xs s b)
  show ?case by (simp add: fold_map comp_def)
next
  case (3 mx y ys s b)
  show ?case by simp
qed

lemma as_indexes_sorted:
  assumes "index_set_ok mx v"
  shows "sorted_wrt (<) (as_indexes v)" "set (as_indexes v) = indexes v"
  using assms by (auto simp: as_indexes_def indexes_def index_set_ok_def sorted_ilist)

lemma is_insert_at_set_correct:
  assumes "max_size_ok mx" "index_set_ok mx v" "index_set_ok mx positions"
  shows "index_set_ok mx (is_insert_at_set mx positions v)"
    "indexes (is_insert_at_set mx positions v) = indexes positions \<union> moved (indexes positions) (indexes v)"
  using build_indexes [OF assms(1), of "merged (as_indexes v) (as_indexes positions) 0" v]
    merged_set [of "as_indexes v" "as_indexes positions" 0]
    as_indexes_sorted [OF assms(2)] as_indexes_sorted [OF assms(3)] assms
  by (auto simp: is_insert_at_set_def insert_at_loop_fold)

lemma moved_above:
  assumes "\<forall>y \<in> Y. \<forall>x \<in> X. x < y"
  shows "moved Y X = X"
proof (intro set_eqI iffI)
  fix k assume k: "k \<in> X"
  then have "unrank Y k = k" using assms by (intro unrank_below) (auto intro: less_imp_le)
  then show "k \<in> moved Y X" using k assms by (auto simp: moved_def)
next
  fix k assume "k \<in> moved Y X"
  then have k: "k \<notin> Y" "unrank Y k \<in> X" by (auto simp: moved_def)
  then have u: "unrank Y (unrank Y k) = unrank Y k" "unrank Y k \<notin> Y"
    using assms by (auto intro!: unrank_below intro: less_imp_le)
  then show "k \<in> X" using unrank_inj [OF k(1) u(2)] k(2) by simp
qed

lemma indexes_bounds:
  assumes "index_set_ok mx v" "v \<noteq> []" "x \<in> indexes v"
  shows "c_begin (hd v) \<le> x" "x < c_end (last v)"
proof -
  have c: "chunk_ok (hd v)" "chunk_ok (last v)" using assms by (auto simp: index_set_ok_def crv_ok_def)
  obtain r where r: "r \<in> set (flat v)" "fst r \<le> x" "x < snd r"
    using assms(3) by (auto simp: indexes_def rset_iff)
  obtain ps z where z: "flat v = ps @ [z]" "snd z = c_end (last v)"
  proof -
    have "flat v = flat (butlast v) @ c_data (last v)"
      using assms(2) by (cases v rule: rev_cases) auto
    then show ?thesis using c(2) that [of "flat (butlast v) @ butlast (c_data (last v))" "last (c_data (last v))"]
      by (auto simp: chunk_ok_def)
  qed
  have ok: "ranges_ok (flat v)" using assms(1) by (simp add: index_set_ok_def)
  show "x < c_end (last v)" using r z ok ranges_ok_nonempty [OF ok, of z]
    by (auto simp: ranges_ok_append intro: less_trans)
  have "flat v = c_data (hd v) @ flat (tl v)" using assms(2) by (cases v) auto
  then obtain y qs where y: "flat v = y # qs" "fst y = c_begin (hd v)"
    using c(1) by (cases "c_data (hd v)") (auto simp: chunk_ok_def)
  show "c_begin (hd v) \<le> x" using r y ok by (auto intro: order_trans less_imp_le)
qed

lemma is_shift_for_insert_at_set_correct:
  assumes "max_size_ok mx" "index_set_ok mx v" "index_set_ok mx vs"
  shows "index_set_ok mx (is_shift_for_insert_at_set mx vs v)"
    "indexes (is_shift_for_insert_at_set mx vs v) = moved (indexes vs) (indexes v)"
proof -
  note s = as_indexes_sorted [OF assms(2)] as_indexes_sorted [OF assms(3)]
  have a: "moved (indexes vs) (indexes v) = indexes v"
    if "v \<noteq> []" "vs \<noteq> []" "c_end (last v) \<le> c_begin (hd vs)"
    using that indexes_bounds [OF assms(2)] indexes_bounds [OF assms(3)]
    by (intro moved_above) (meson less_le_trans order_trans)
  have m: "set (filter (\<lambda>k. k \<notin> indexes vs) (merged (as_indexes v) (as_indexes vs) 0)) =
      moved (indexes vs) (indexes v)"
    using merged_set [of "as_indexes v" "as_indexes vs" 0] s by (auto simp: moved_def)
  have "sorted_wrt (<) (filter (\<lambda>k. k \<notin> indexes vs) (merged (as_indexes v) (as_indexes vs) 0))"
    using merged_set [of "as_indexes v" "as_indexes vs" 0] s by (simp add: sorted_wrt_filter)
  note b = build_indexes [OF assms(1) this, of v, unfolded m]
  show "index_set_ok mx (is_shift_for_insert_at_set mx vs v)"
    "indexes (is_shift_for_insert_at_set mx vs v) = moved (indexes vs) (indexes v)"
    using a b assms s by (auto simp: is_shift_for_insert_at_set_def shift_insert_loop_fold)
qed

subsection \<open>erase_at\<close>

fun erase_at_loop :: "nat \<Rightarrow> nat list \<Rightarrow> nat list \<Rightarrow> nat \<Rightarrow> builder \<Rightarrow> builder" where
  "erase_at_loop mx (x # xs) (y # ys) shift b =
     (if x < y then erase_at_loop mx xs (y # ys) shift (push_index mx (x - shift) b)
      else if x = y then erase_at_loop mx xs ys (shift + 1) b
      else erase_at_loop mx (x # xs) ys (shift + 1) b)"
| "erase_at_loop mx xs [] shift b = fold (\<lambda>x. push_index mx (x - shift)) xs b"
| "erase_at_loop mx [] ys shift b = b"

definition is_erase_at_set :: "nat \<Rightarrow> crv \<Rightarrow> crv \<Rightarrow> crv" where
  "is_erase_at_set mx positions v =
     (if v = [] \<or> positions = [] then v
      else builder_finalize (erase_at_loop mx (as_indexes v) (as_indexes positions) 0 (builder_init mx v)))"

text \<open>
  \<open>C\<close> stands for the positions already passed; \<open>card C\<close> is the loop's shift, so the shift never
  exceeds the index it is subtracted from.
\<close>

lemma erase_at_loop_fold:
  "sorted_wrt (<) xs \<Longrightarrow> sorted_wrt (<) ys \<Longrightarrow> finite C \<Longrightarrow> \<forall>c \<in> C. \<forall>z \<in> set xs \<union> set ys. c < z \<Longrightarrow>
   erase_at_loop mx xs ys (card C) b =
   fold (push_index mx) (map (unrank (C \<union> set ys)) (filter (\<lambda>x. x \<notin> set ys) xs)) b"
proof (induction mx xs ys "card C" b arbitrary: C rule: erase_at_loop.induct)
  case (1 mx x xs y ys b)
  have c: "card (insert y C) = card C + 1" using "1.prems" by (subst card_insert_disjoint) auto
  have u: "insert y C \<union> set ys = C \<union> set (y # ys)" by auto
  consider "x < y" | "x = y" | "y < x" by linarith
  then show ?case
  proof cases
    assume xy: "x < y"
    have "(C \<union> set (y # ys)) \<inter> {..<x} = C" using xy "1.prems" by auto
    then have "unrank (C \<union> set (y # ys)) x = x - card C" by (simp add: unrank_eq)
    then show ?thesis using 1 xy by auto
  next
    assume xy: "x = y"
    have "filter (\<lambda>x. x \<notin> set (y # ys)) xs = filter (\<lambda>x. x \<notin> set ys) xs"
      using xy "1.prems" by (intro filter_cong) auto
    then show ?thesis using "1.hyps"(2) [of "insert y C"] "1.prems" xy c u by auto
  next
    assume xy: "y < x"
    have "filter (\<lambda>x. x \<notin> set (y # ys)) (x # xs) = filter (\<lambda>x. x \<notin> set ys) (x # xs)"
      using xy "1.prems" by (intro filter_cong) auto
    moreover have "\<forall>z \<in> set xs \<union> set ys. y < z" using xy "1.prems" by auto
    ultimately show ?thesis using "1.hyps"(3) [of "insert y C"] "1.prems" xy c u by auto
  qed
next
  case (2 mx xs b)
  have "x - card C = unrank C x" if "x \<in> set xs" for x
  proof -
    have "C \<inter> {..<x} = C" using 2 that by auto
    then show ?thesis by (simp add: unrank_eq)
  qed
  then have "map (\<lambda>x. x - card C) xs = map (unrank C) xs" by simp
  then show ?case by (simp add: fold_map comp_def flip: \<open>map (\<lambda>x. x - card C) xs = map (unrank C) xs\<close>)
qed simp

lemma sorted_map_unrank: "sorted_wrt (<) zs \<Longrightarrow> \<forall>z \<in> set zs. z \<notin> Y \<Longrightarrow> sorted_wrt (<) (map (unrank Y) zs)"
  by (induction zs) (auto intro: unrank_strict_mono)

lemma is_erase_at_set_correct:
  assumes "max_size_ok mx" "index_set_ok mx v" "index_set_ok mx positions"
  shows "index_set_ok mx (is_erase_at_set mx positions v)"
    "indexes (is_erase_at_set mx positions v) =
       unrank (indexes positions) ` (indexes v - indexes positions)"
proof -
  note s = as_indexes_sorted [OF assms(2)] as_indexes_sorted [OF assms(3)]
  define zs where "zs = map (unrank (indexes positions)) (filter (\<lambda>x. x \<notin> indexes positions) (as_indexes v))"
  have "sorted_wrt (<) zs" unfolding zs_def using s by (intro sorted_map_unrank) (auto intro: sorted_wrt_filter)
  note b = build_indexes [OF assms(1) this, of v]
  have "erase_at_loop mx (as_indexes v) (as_indexes positions) 0 (builder_init mx v) =
    fold (push_index mx) zs (builder_init mx v)"
    using erase_at_loop_fold [of "as_indexes v" "as_indexes positions" "{}"] s by (simp add: zs_def)
  moreover have "set zs = unrank (indexes positions) ` (indexes v - indexes positions)"
    using s by (auto simp: zs_def)
  moreover have "unrank {} ` X = X" for X by (simp add: unrank_def)
  ultimately show "index_set_ok mx (is_erase_at_set mx positions v)"
    "indexes (is_erase_at_set mx positions v) =
       unrank (indexes positions) ` (indexes v - indexes positions)"
    using b assms(2) by (auto simp: is_erase_at_set_def)
qed

subsection \<open>add_shifted_by\<close>

text \<open>
  The three nested loops of \<open>add_shifted_by\<close>.  The subtraction \<open>index - new_shift\<close> precedes the
  assertion \<open>index >= new_shift\<close> in the source; the assertion always holds (below), so the
  truncated difference is the one the program computes.
\<close>

fun pass_shifted :: "range list \<Rightarrow> nat \<Rightarrow> nat \<Rightarrow> nat \<Rightarrow> range list \<times> nat \<times> nat" where
  "pass_shifted [] index new_shift skip_until = ([], new_shift, skip_until)"
| "pass_shifted (r # rs) index new_shift skip_until =
     (if fst r \<le> index then pass_shifted rs index (new_shift + (snd r - fst r)) (snd r)
      else (r # rs, new_shift, skip_until))"

fun pass_old :: "nat \<Rightarrow> range list \<Rightarrow> nat \<Rightarrow> nat \<Rightarrow> builder \<Rightarrow> range list \<times> nat \<times> builder" where
  "pass_old mx [] target old_shift b = ([], old_shift, b)"
| "pass_old mx (r # rs) target old_shift b =
     (if fst r \<le> target + old_shift
      then pass_old mx rs target (old_shift + (snd r - fst r)) (fold (push_index mx) [fst r..<snd r] b)
      else (r # rs, old_shift, b))"

fun add_shifted_loop :: "nat \<Rightarrow> nat list \<Rightarrow> range list \<Rightarrow> range list \<Rightarrow> nat \<Rightarrow> nat \<Rightarrow> nat \<Rightarrow> builder \<Rightarrow>
    (range list \<times> builder) option" where
  "add_shifted_loop mx [] old shifted skip_until old_shift new_shift b = Some (old, b)"
| "add_shifted_loop mx (index # is) old shifted skip_until old_shift new_shift b =
     (let (shifted1, new_shift1, skip1) = pass_shifted shifted index new_shift skip_until in
      if index < skip1 then add_shifted_loop mx is old shifted1 skip1 old_shift new_shift1 b
      else
        let (old1, old_shift1, b1) = pass_old mx old (index - new_shift1) old_shift b
        in do {
          realm_assert (new_shift1 \<le> index);
          add_shifted_loop mx is old1 shifted1 skip1 old_shift1 new_shift1
            (push_index mx (index - new_shift1 + old_shift1) b1)
        })"

definition is_add_shifted_by :: "nat \<Rightarrow> crv \<Rightarrow> crv \<Rightarrow> crv \<Rightarrow> crv option" where
  "is_add_shifted_by mx shifted_by values v =
     (if values = [] then Some v
      else do {
        (old, b) \<leftarrow> add_shifted_loop mx (as_indexes values) (flat v) (flat shifted_by) 0 0 0 (builder_init mx v);
        Some (builder_finalize (fold (push_range mx) old b))
      })"

lemma pass_shifted_eq:
  "ranges_ok rs \<Longrightarrow> \<exists>xs ys. rs = xs @ ys \<and> (\<forall>r \<in> set xs. fst r \<le> index) \<and> (\<forall>r \<in> set ys. index < fst r) \<and>
     pass_shifted rs index ns sk = (ys, ns + rcount xs, if xs = [] then sk else snd (last xs))"
proof (induction rs arbitrary: ns sk)
  case (Cons r rs)
  show ?case
  proof (cases "fst r \<le> index")
    case True
    obtain xs ys where "rs = xs @ ys" "\<forall>r \<in> set xs. fst r \<le> index" "\<forall>r \<in> set ys. index < fst r"
      "pass_shifted rs index (ns + (snd r - fst r)) (snd r) =
        (ys, ns + (snd r - fst r) + rcount xs, if xs = [] then snd r else snd (last xs))"
      using Cons.IH [of "ns + (snd r - fst r)" "snd r"] Cons.prems by auto
    then show ?thesis using True by (intro exI [of _ "r # xs"] exI [of _ ys]) auto
  next
    case False
    then show ?thesis using Cons.prems by (intro exI [of _ "[]"] exI [of _ "r # rs"]) (auto intro: less_trans)
  qed
qed simp

lemma pass_old_correct:
  "building mx b D \<Longrightarrow> ranges_ok rs \<Longrightarrow> \<forall>d \<in> D. \<forall>r \<in> set rs. d < fst r \<Longrightarrow>
   \<exists>b'. pass_old mx rs t os b =
          (drop (rskip rs (t + os)) rs, os + rcount (take (rskip rs (t + os)) rs), b') \<and>
        building mx b' (D \<union> rset (take (rskip rs (t + os)) rs)) \<and> length (b_data b) \<le> length (b_data b')"
proof (induction rs arbitrary: os b D)
  case (Cons r rs)
  show ?case
  proof (cases "fst r \<le> t + os")
    case True
    let ?b = "fold (push_index mx) [fst r..<snd r] b"
    have D: "building mx ?b (D \<union> {fst r..<snd r})"
      using sink.fold_push_rep [OF Cons.prems(1), of "[fst r..<snd r]"] Cons.prems(3) by force
    have cap: "length (b_data b) \<le> length (b_data ?b)"
      by (rule fold_invariant [where Q = "\<lambda>_. True"])
        (auto simp: push_index_def intro: order_trans push_range_capacity)
    have "\<forall>d \<in> D \<union> {fst r..<snd r}. \<forall>s \<in> set rs. d < fst s"
      using Cons.prems by (auto dest: less_trans)
    from Cons.IH [OF D _ this, of "os + (snd r - fst r)"] Cons.prems True cap
    show ?thesis by (auto simp: add.assoc Un_assoc)
  next
    case False
    then show ?thesis using Cons.prems by simp
  qed
qed simp

lemma rshift_strict_mono: "i < j \<Longrightarrow> rshift rs i < rshift rs j"
proof (induction rs arbitrary: i j)
  case (Cons r rs)
  have "j \<le> rshift rs j'" if "j \<le> j'" for j j' using that by (simp add: rshift_rcount)
  then show ?case using Cons.prems Cons.IH [of "i + (snd r - fst r)" "j + (snd r - fst r)"]
    by (auto intro: less_le_trans)
qed simp

lemma rskip_append: "rskip ps t = length ps \<Longrightarrow> rskip (ps @ rs) t = length ps + rskip rs (t + rcount ps)"
  by (induction ps arbitrary: t) (auto split: if_splits simp: add.assoc)

lemma rskip_take: "t \<le> t' \<Longrightarrow> rskip (take (rskip rs t) rs) t' = rskip rs t"
  by (induction rs arbitrary: t t') auto

lemma shifted_split:
  assumes "ranges_ok (qs @ ys)" "\<forall>q \<in> set qs. fst q \<le> i" "\<forall>y \<in> set ys. i < fst y"
  shows "i < (if qs = [] then 0 else snd (last qs)) \<longleftrightarrow> i \<in> rset (qs @ ys)"
    "i \<notin> rset (qs @ ys) \<Longrightarrow> rcount qs \<le> i \<and> i - rcount qs = unrank (rset (qs @ ys)) i"
proof -
  have y: "i \<notin> rset ys" using assms(3) by (force simp: rset_iff)
  show e: "i < (if qs = [] then 0 else snd (last qs)) \<longleftrightarrow> i \<in> rset (qs @ ys)"
  proof (cases qs rule: rev_cases)
    case (snoc zs q)
    have "snd w < fst q" if "w \<in> set zs" for w using that snoc assms(1) by (auto simp: ranges_ok_append)
    then have "i \<notin> rset zs" using snoc assms(2) by (force simp: rset_iff)
    then show ?thesis using snoc assms(2) y by auto
  qed (use y in auto)
  assume n: "i \<notin> rset (qs @ ys)"
  have le: "\<forall>q \<in> set qs. snd q \<le> i"
    using n assms(2) by (force simp: rset_iff)
  have "rset (qs @ ys) \<inter> {..<i} = rset qs" using le assms(3) by (force simp: rset_iff)
  moreover have "rcount qs = card (rset qs)" using assms(1) by (simp add: ranges_ok_append rcount_eq_card)
  moreover have "card (rset qs) \<le> card {..<i}" using le by (intro card_mono) (force simp: rset_iff)+
  ultimately show "rcount qs \<le> i \<and> i - rcount qs = unrank (rset (qs @ ys)) i"
    by (simp add: unrank_eq)
qed

definition shifted_inv :: "nat \<Rightarrow> range list \<Rightarrow> nat list \<Rightarrow> range list \<Rightarrow> range list \<Rightarrow>
    range list \<Rightarrow> nat set \<Rightarrow> builder \<Rightarrow> bool" where
  "shifted_inv mx B is ps rs qs T b \<longleftrightarrow> ranges_ok (ps @ rs) \<and>
     building mx b (rset ps \<union> rshift (ps @ rs) ` T) \<and>
     (\<forall>d \<in> rset ps \<union> rshift (ps @ rs) ` T. \<forall>r \<in> set rs. d < fst r) \<and>
     (\<forall>q \<in> set qs. \<forall>i \<in> set is. fst q \<le> i) \<and>
     (\<forall>i \<in> set is. i \<notin> rset B \<longrightarrow> (\<forall>t \<in> T. t < unrank (rset B) i) \<and>
        rskip ps (unrank (rset B) i) = length ps)"

lemma shifted_inv_push:
  assumes "shifted_inv mx B (i # is) ps rs qs T b" "i \<notin> rset B" "sorted_wrt (<) (i # is)"
    "\<forall>q \<in> set xs. fst q \<le> i" "t = unrank (rset B) i" "n = rskip rs (t + rcount ps)"
    "ps' = ps @ take n rs" "building mx b' (rset ps \<union> rshift (ps @ rs) ` T \<union> rset (take n rs))"
  shows "shifted_inv mx B is ps' (drop n rs) (qs @ xs) (insert t T) (push_index mx (t + rcount ps') b')"
proof -
  note a = assms(1) [unfolded shifted_inv_def]
  have o: "ps' @ drop n rs = ps @ rs" using assms(7) by simp
  have sk: "rskip (ps @ rs) t = length ps'" "ps' = take (rskip (ps @ rs) t) (ps @ rs)"
    using a assms(2,5,6,7) rskip_le [of rs "t + rcount ps"] by (auto simp: rskip_append)
  have k: "t + rcount ps' = rshift (ps @ rs) t" using sk(2) by (simp add: rshift_rcount)
  have ok: "ranges_ok (ps @ rs)" using a by simp
  have "\<forall>r \<in> set ps'. snd r \<le> rshift (ps @ rs) t" using rskip_before [OF ok] sk(2) by metis
  then have "\<forall>d \<in> rset ps'. d < rshift (ps @ rs) t" by (force simp: rset_iff)
  moreover have "\<forall>d \<in> rshift (ps @ rs) ` T. d < rshift (ps @ rs) t"
    using a assms(2,5) by (auto intro!: rshift_strict_mono)
  ultimately have D: "\<forall>d \<in> rset ps' \<union> rshift (ps @ rs) ` T. d < rshift (ps @ rs) t" by blast
  have "building mx b' (rset ps' \<union> rshift (ps @ rs) ` T)" using assms(7,8) by (simp add: Un_ac)
  from building_push [OF this D] have b:
    "building mx (push_index mx (t + rcount ps') b') (rset ps' \<union> rshift (ps @ rs) ` insert t T)"
    by (simp add: k)
  have dr: "drop n rs = drop (rskip (ps @ rs) t) (ps @ rs)" using o sk by (metis append_eq_conv_conj)
  have "\<forall>r \<in> set (drop n rs). rshift (ps @ rs) t < fst r" using rskip_after [OF ok] dr by metis
  then have a3: "\<forall>d \<in> rset ps' \<union> rshift (ps @ rs) ` insert t T. \<forall>r \<in> set (drop n rs). d < fst r"
    using D by (metis Un_iff image_insert insert_iff less_trans)
  have a4: "\<forall>q \<in> set (qs @ xs). \<forall>j \<in> set is. fst q \<le> j"
  proof -
    have "\<forall>j \<in> set is. i \<le> j" using assms(3) by auto
    moreover have "\<forall>q \<in> set (qs @ xs). fst q \<le> i" using a assms(4) by auto
    ultimately show ?thesis by (meson order_trans)
  qed
  have "t < unrank (rset B) j" if "j \<in> set is" for j
    using that assms(2,3,5) unrank_strict_mono by auto
  then have "(\<forall>s \<in> insert t T. s < unrank (rset B) j) \<and> rskip ps' (unrank (rset B) j) = length ps'"
    if "j \<in> set is" "j \<notin> rset B" for j
    using that a sk rskip_take [of t "unrank (rset B) j" "ps @ rs"] by (auto simp: less_imp_le)
  then show ?thesis using b a3 a4 ok by (simp add: shifted_inv_def o)
qed

lemma add_shifted_loop_correct:
  "shifted_inv mx B is ps rs qs T b \<Longrightarrow> sorted_wrt (<) is \<Longrightarrow> ranges_ok B \<Longrightarrow> B = qs @ ss \<Longrightarrow>
   \<exists>ps' rs' b' T'. add_shifted_loop mx is rs ss (if qs = [] then 0 else snd (last qs)) (rcount ps) (rcount qs) b
        = Some (rs', b') \<and> T' = T \<union> unrank (rset B) ` (set is - rset B) \<and> ps' @ rs' = ps @ rs \<and>
     building mx b' (rset ps' \<union> rshift (ps @ rs) ` T') \<and>
     (\<forall>d \<in> rset ps' \<union> rshift (ps @ rs) ` T'. \<forall>r \<in> set rs'. d < fst r) \<and>
     length (b_data b) \<le> length (b_data b')"
proof (induction "is" arbitrary: ps rs qs ss T b)
  case Nil
  then show ?case by (auto simp: shifted_inv_def)
next
  case (Cons i "is")
  note a = Cons.prems(1) [unfolded shifted_inv_def]
  obtain xs ys where x: "ss = xs @ ys" "\<forall>r \<in> set xs. fst r \<le> i" "\<forall>r \<in> set ys. i < fst r"
    "pass_shifted ss i (rcount qs) (if qs = [] then 0 else snd (last qs)) =
      (ys, rcount (qs @ xs), if xs = [] then (if qs = [] then 0 else snd (last qs)) else snd (last xs))"
    using pass_shifted_eq [of ss i "rcount qs" "if qs = [] then 0 else snd (last qs)"] Cons.prems(3,4)
    by (auto simp: ranges_ok_append)
  define sk where "sk = (if qs @ xs = [] then 0 else snd (last (qs @ xs)))"
  have p: "pass_shifted ss i (rcount qs) (if qs = [] then 0 else snd (last qs)) = (ys, rcount (qs @ xs), sk)"
    unfolding x(4) sk_def by auto
  have B: "B = (qs @ xs) @ ys" using Cons.prems(4) x(1) by simp
  have q: "\<forall>q \<in> set (qs @ xs). fst q \<le> i" using a x(2) by auto
  note f = shifted_split [OF Cons.prems(3) [unfolded B] q x(3), folded B sk_def]
  have sorted: "sorted_wrt (<) is" using Cons.prems(2) by simp
  show ?case
  proof (cases "i \<in> rset B")
    case True
    have "\<forall>j \<in> set is. i \<le> j" using Cons.prems(2) by auto
    then have "\<forall>q \<in> set (qs @ xs). \<forall>j \<in> set is. fst q \<le> j" using q by (meson order_trans)
    then have inv: "shifted_inv mx B is ps rs (qs @ xs) T b"
      using a by (simp add: shifted_inv_def)
    have "set (i # is) - rset B = set is - rset B" using True by auto
    with Cons.IH [OF inv sorted Cons.prems(3) B] f(1) True show ?thesis
      by (simp add: p sk_def del: append_is_Nil_conv rcount_simps)
  next
    case False
    define t where "t = unrank (rset B) i"
    define n where "n = rskip rs (t + rcount ps)"
    have t: "i - rcount (qs @ xs) = t" "rcount (qs @ xs) \<le> i" using f(2) False by (auto simp: t_def)
    have ok: "ranges_ok rs" using a by (simp add: ranges_ok_append)
    obtain b1 where b1: "pass_old mx rs t (rcount ps) b = (drop n rs, rcount (ps @ take n rs), b1)"
      "building mx b1 (rset ps \<union> rshift (ps @ rs) ` T \<union> rset (take n rs))"
      "length (b_data b) \<le> length (b_data b1)"
      using pass_old_correct [OF _ ok, of mx b "rset ps \<union> rshift (ps @ rs) ` T" t "rcount ps"] a
      by (auto simp: n_def)
    note inv = shifted_inv_push [OF Cons.prems(1) False Cons.prems(2) x(2) t_def n_def refl b1(2)]
    have T: "insert t T \<union> unrank (rset B) ` (set is - rset B) = T \<union> unrank (rset B) ` (set (i # is) - rset B)"
      using False t_def by auto
    have cap: "length (b_data b) \<le> length (b_data (push_index mx k b1))" for k
      using b1(3) push_range_capacity [of b1 mx "(k, k + 1)"] by (simp add: push_index_def)
    have step: "add_shifted_loop mx (i # is) rs ss (if qs = [] then 0 else snd (last qs)) (rcount ps) (rcount qs) b =
      add_shifted_loop mx is (drop n rs) ys sk (rcount (ps @ take n rs)) (rcount (qs @ xs))
        (push_index mx (t + rcount (ps @ take n rs)) b1)"
      using f(1) False t b1(1) by (simp add: p realm_assert_bind del: rcount_simps)
    from Cons.IH [OF inv sorted Cons.prems(3) B, folded sk_def, unfolded T] cap [of "t + rcount (ps @ take n rs)"]
    show ?thesis unfolding step by (simp add: T del: rcount_simps) (meson order_trans)
  qed
qed

lemma copy_rest:
  "max_size_ok mx \<Longrightarrow> builder_ok mx b \<Longrightarrow> ranges_ok (bflat b) \<Longrightarrow> ranges_ok rs \<Longrightarrow>
   \<forall>d \<in> rset (bflat b). \<forall>r \<in> set rs. d < fst r \<Longrightarrow> b' = fold (push_range mx) rs b \<Longrightarrow>
   builder_ok mx b' \<and> ranges_ok (bflat b') \<and> rset (bflat b') = rset (bflat b) \<union> rset rs \<and>
   length (bflat b) \<le> length (bflat b') \<and>
   (builder_counts b \<and> length (bflat b') \<le> length (b_data b) * mx \<longrightarrow> builder_counts b')"
proof (induction rs arbitrary: b)
  case (Cons r rs)
  let ?b = "push_range mx r b"
  have r: "fst r < snd r" "ranges_ok rs" "\<forall>s \<in> set rs. snd r < fst s" using Cons.prems(4) by auto
  have "bflat b \<noteq> [] \<longrightarrow> snd (last (bflat b)) \<le> fst r"
    using Cons.prems(3,5) by (intro impI ranges_ok_last_le) auto
  note p = rpush_ok [OF Cons.prems(3) r(1) this] push_range_ok [OF Cons.prems(1,2), of r]
  have "\<forall>d \<in> {fst r..<snd r}. \<forall>s \<in> set rs. d < fst s"
    using r(3) by (meson atLeastLessThan_iff less_trans)
  then have "\<forall>d \<in> rset (bflat ?b). \<forall>s \<in> set rs. d < fst s"
    unfolding p(6) p(2) using Cons.prems(5) by (meson Un_iff list.set_intros(2))
  then have IH: "builder_ok mx b' \<and> ranges_ok (bflat b') \<and> rset (bflat b') = rset (bflat ?b) \<union> rset rs \<and>
    length (bflat ?b) \<le> length (bflat b') \<and>
    (builder_counts ?b \<and> length (bflat b') \<le> length (b_data ?b) * mx \<longrightarrow> builder_counts b')"
    using Cons.prems p r by (intro Cons.IH) auto
  have c: "builder_counts ?b" if "builder_counts b" "length (bflat b') \<le> length (b_data b) * mx"
    using that Cons.prems p r IH by (intro push_range_counts) auto
  have "n \<le> length (b_data ?b) * mx" if "n \<le> length (b_data b) * mx" for n
    using that mult_le_mono1 [OF push_range_capacity, of b mx mx r] by linarith
  moreover have "length (bflat b) \<le> length (bflat ?b)" using p(6) length_rpush [of "bflat b" r] by simp
  ultimately show ?case using IH c p(2,6) by (auto simp del: mult_le_cancel2)
qed simp

lemma moved_eq_rshift:
  assumes "ranges_ok rs"
  shows "moved (rset rs) T = rshift rs ` T"
proof -
  have "k \<in> rshift rs ` T" if "k \<notin> rset rs" "unrank (rset rs) k \<in> T" for k
    using that rshift_correct [OF assms, of "unrank (rset rs) k"] unrank_inj by (metis imageI)
  then show ?thesis using rshift_correct [OF assms] by (auto simp: moved_def)
qed

text \<open>The debug build's closing assertion: the size of the result is the one expected.\<close>

lemma is_add_shifted_by_correct:
  assumes "max_size_ok mx" "index_set_ok mx v" "index_set_ok mx B" "index_set_ok mx V"
  shows "\<exists>v'. is_add_shifted_by mx B V v = Some v' \<and> ranges_ok (flat v') \<and>
     indexes v' = indexes v \<union> moved (indexes v) (unrank (indexes B) ` (indexes V - indexes B)) \<and>
     (length (flat v') \<le> (length (flat v) div mx + 1) * mx \<longrightarrow> index_set_ok mx v')"
proof (cases "V = []")
  case True
  then show ?thesis using assms by (simp add: is_add_shifted_by_def index_set_ok_def)
next
  case False
  note s = as_indexes_sorted [OF assms(4)]
  define T where "T = unrank (indexes B) ` (indexes V - indexes B)"
  have ok: "ranges_ok (flat v)" "ranges_ok (flat B)" using assms by (auto simp: index_set_ok_def)
  have "shifted_inv mx (flat B) (as_indexes V) [] (flat v) [] {} (builder_init mx v)"
    using ok building_init [OF assms(1), of v] by (simp add: shifted_inv_def)
  from add_shifted_loop_correct [OF this s(1) ok(2), of "flat B"] obtain ps rs b where l:
    "add_shifted_loop mx (as_indexes V) (flat v) (flat B) 0 0 0 (builder_init mx v) = Some (rs, b)"
    "ps @ rs = flat v" "building mx b (rset ps \<union> rshift (flat v) ` T)"
    "\<forall>d \<in> rset ps \<union> rshift (flat v) ` T. \<forall>r \<in> set rs. d < fst r"
    "length (b_data (builder_init mx v)) \<le> length (b_data b)"
    using s(2) by (auto simp: T_def indexes_def)
  define b' where "b' = fold (push_range mx) rs b"
  have rs: "ranges_ok rs" using ok l(2) by (metis ranges_ok_append)
  note b = l(3) [unfolded building_def]
  have c: "builder_ok mx b' \<and> ranges_ok (bflat b') \<and> rset (bflat b') = rset (bflat b) \<union> rset rs \<and>
    length (bflat b) \<le> length (bflat b') \<and>
    (builder_counts b \<and> length (bflat b') \<le> length (b_data b) * mx \<longrightarrow> builder_counts b')"
    using b rs l(4) by (intro copy_rest) (auto simp: b'_def)
  have fl: "flat (builder_finalize b') = bflat b'" using c builder_finalize_flat by blast
  have "rset (bflat b') = rset (flat v) \<union> rshift (flat v) ` T" using b c by (auto simp flip: l(2))
  then have i: "indexes (builder_finalize b') = indexes v \<union> moved (indexes v) T"
    using moved_eq_rshift [OF ok(1)] by (simp add: indexes_def fl)
  have cap: "(length (flat v) div mx + 1) * mx \<le> length (b_data b) * mx"
    using l(5) builder_init_ok(4) [OF assms(1), of v] by (intro mult_le_mono1) simp
  have k: "index_set_ok mx (builder_finalize b')"
    if "length (bflat b') \<le> (length (flat v) div mx + 1) * mx"
  proof -
    have "builder_counts b'" using that cap b c by (meson order_trans)
    then show ?thesis using c builder_finalize_ok [OF assms(1)] fl by (simp add: index_set_ok_def)
  qed
  have e: "is_add_shifted_by mx B V v = Some (builder_finalize b')"
    using False l(1) by (simp add: is_add_shifted_by_def b'_def)
  show ?thesis using e c i k fl by (auto simp: T_def)
qed

end
