(* ===== verification/Change_Builder.thy ===== *)
theory Change_Builder
  imports Index_Set_Bulk "HOL-Library.AList"
begin

text \<open>
  \<open>CollectionChangeBuilder\<close> (\<open>impl/collection_change_builder.cpp\<close>) over \<open>CollectionChangeSet\<close>
  (\<open>collection_notifications.hpp\<close>): the accumulator that turns a stream of row and list
  operations into deletions, insertions, modifications and moves.

  \<open>m_move_mapping\<close>, an unordered map from new to old indices, is an association list with
  distinct keys.  Assertions that are checked in every build make an operation \<open>None\<close>.
\<close>

record move =
  mv_from :: nat
  mv_to :: nat

record change_set =
  deletions :: crv
  insertions :: crv
  modifications :: crv
  modifications_new :: crv
  moves :: "move list"
  columns :: "crv list"

record change_builder = change_set +
  m_move_mapping :: "(nat \<times> nat) list"
  m_track_columns :: bool

definition cs_empty :: "'a change_set_scheme \<Rightarrow> bool" where
  "cs_empty b \<longleftrightarrow> deletions b = [] \<and> insertions b = [] \<and> modifications b = [] \<and>
     modifications_new b = [] \<and> moves b = []"

definition cb_default :: change_builder where
  "cb_default = \<lparr>deletions = [], insertions = [], modifications = [], modifications_new = [],
     moves = [], columns = [], m_move_mapping = [], m_track_columns = True\<rparr>"

definition cb_construct :: "nat \<Rightarrow> crv \<Rightarrow> crv \<Rightarrow> crv \<Rightarrow> move list \<Rightarrow> change_builder option" where
  "cb_construct mx dels inss mods ms =
     foldM (\<lambda>m b. do {
         d \<leftarrow> is_add mx (mv_from m) (deletions b);
         i \<leftarrow> is_add mx (mv_to m) (insertions b);
         Some (b\<lparr>deletions := d, insertions := i\<rparr>)
       }) ms (cb_default\<lparr>deletions := dels, insertions := inss, modifications := mods, moves := ms\<rparr>)"

subsection \<open>modify, insert, erase, clear\<close>

definition resize :: "'a \<Rightarrow> nat \<Rightarrow> 'a list \<Rightarrow> 'a list" where
  "resize x n xs = take n xs @ replicate (n - length xs) x"

definition cb_modify :: "nat \<Rightarrow> nat \<Rightarrow> nat \<Rightarrow> change_builder \<Rightarrow> change_builder option" where
  "cb_modify mx ndx col b = do {
     m \<leftarrow> is_add mx ndx (modifications b);
     let b1 = b\<lparr>modifications := m\<rparr>;
     if \<not> m_track_columns b \<or> col = npos then Some b1
     else do {
       let cols = (if length (columns b1) \<le> col then resize [] (col + 1) (columns b1) else columns b1);
       c \<leftarrow> is_add mx ndx (cols ! col);
       Some (b1\<lparr>columns := cols[col := c]\<rparr>)
     }
   }"

fun mapM :: "('a \<Rightarrow> 'b option) \<Rightarrow> 'a list \<Rightarrow> 'b list option" where
  "mapM f [] = Some []"
| "mapM f (x # xs) = do { y \<leftarrow> f x; ys \<leftarrow> mapM f xs; Some (y # ys) }"

definition for_each_col :: "(crv \<Rightarrow> crv option) \<Rightarrow> change_builder \<Rightarrow> change_builder option" where
  "for_each_col f b = do {
     m \<leftarrow> f (modifications b);
     if m_track_columns b then do {
       cs \<leftarrow> mapM f (columns b);
       Some (b\<lparr>modifications := m, columns := cs\<rparr>)
     }
     else Some (b\<lparr>modifications := m\<rparr>)
   }"

text \<open>\<open>unordered_map::insert\<close> keeps an existing entry.\<close>

definition mm_insert :: "nat \<times> nat \<Rightarrow> (nat \<times> nat) list \<Rightarrow> (nat \<times> nat) list" where
  "mm_insert p m = (if map_of m (fst p) = None then p # m else m)"

definition shift_mapping :: "nat \<Rightarrow> nat \<Rightarrow> (nat \<times> nat) list \<Rightarrow> (nat \<times> nat) list" where
  "shift_mapping index count m =
     (let shifted = map (\<lambda>p. (fst p + count, snd p)) (filter (\<lambda>p. index \<le> fst p) m);
          kept = filter (\<lambda>p. \<not> index \<le> fst p) m
      in fold mm_insert shifted kept)"

definition cb_insert :: "nat \<Rightarrow> nat \<Rightarrow> nat \<Rightarrow> bool \<Rightarrow> change_builder \<Rightarrow> change_builder option" where
  "cb_insert mx index count track_moves b = do {
     realm_assert (count \<noteq> 0);
     b1 \<leftarrow> for_each_col (is_shift_for_insert_at mx index count) b;
     if \<not> track_moves then Some b1
     else do {
       ins \<leftarrow> is_insert_at mx index count (insertions b1);
       let b2 = b1\<lparr>insertions := ins,
         moves := map (\<lambda>m. if index \<le> mv_to m then m\<lparr>mv_to := mv_to m + count\<rparr> else m) (moves b1)\<rparr>;
       if m_move_mapping b2 = [] then Some b2
       else Some (b2\<lparr>m_move_mapping := shift_mapping index count (m_move_mapping b2)\<rparr>)
     }
   }"

fun erase_moves :: "nat \<Rightarrow> move list \<Rightarrow> move list" where
  "erase_moves index [] = []"
| "erase_moves index (m # ms) =
     (if mv_to m = index then erase_moves index ms
      else if index < mv_to m then m\<lparr>mv_to := mv_to m - 1\<rparr> # erase_moves index ms
      else m # erase_moves index ms)"

definition cb_erase :: "nat \<Rightarrow> nat \<Rightarrow> change_builder \<Rightarrow> change_builder option" where
  "cb_erase mx index b = do {
     b1 \<leftarrow> for_each_col (\<lambda>c. Some (is_erase_at index c)) b;
     let (ins, unshifted) = is_erase_or_unshift index (insertions b1);
     let b2 = b1\<lparr>insertions := ins\<rparr>;
     b3 \<leftarrow> (if unshifted \<noteq> npos
           then do { (d, _) \<leftarrow> is_add_shifted mx unshifted (deletions b2); Some (b2\<lparr>deletions := d\<rparr>) }
           else Some b2);
     Some (b3\<lparr>moves := erase_moves index (moves b3)\<rparr>)
   }"

definition cb_clear :: "nat \<Rightarrow> nat \<Rightarrow> change_builder \<Rightarrow> change_builder option" where
  "cb_clear mx old_size b = do {
     let size = (if old_size \<noteq> npos
                 then old_size + rcount (flat (deletions b)) - rcount (flat (insertions b))
                 else old_size);
     d \<leftarrow> is_set mx size (deletions b);
     Some (b\<lparr>modifications := is_clear (modifications b), insertions := is_clear (insertions b),
       moves := [], m_move_mapping := [], columns := [], deletions := d\<rparr>)
   }"

subsection \<open>move\<close>

fun move_loop :: "nat \<Rightarrow> nat \<Rightarrow> nat \<Rightarrow> move list \<Rightarrow> bool \<Rightarrow> crv \<Rightarrow> (move list \<times> bool \<times> crv) option" where
  "move_loop mx from to [] updated ins = Some ([], updated, ins)"
| "move_loop mx from to (m # ms) updated ins =
     (if mv_to m \<noteq> from then do {
        let m1 = (if to \<le> mv_to m \<and> mv_to m < from then m\<lparr>mv_to := mv_to m + 1\<rparr>
                  else if mv_to m \<le> to \<and> from < mv_to m then m\<lparr>mv_to := mv_to m - 1\<rparr> else m);
        (ms1, updated1, ins1) \<leftarrow> move_loop mx from to ms updated ins;
        Some (m1 # ms1, updated1, ins1)
      }
      else do {
        realm_assert (\<not> updated);
        ins' \<leftarrow> is_insert_at mx to 1 (is_erase_at from ins);
        (ms1, updated1, ins1) \<leftarrow> move_loop mx from to ms True ins';
        Some (m\<lparr>mv_to := to\<rparr> # ms1, updated1, ins1)
      })"

definition move_col :: "nat \<Rightarrow> nat \<Rightarrow> nat \<Rightarrow> crv \<Rightarrow> crv option" where
  "move_col mx from to col =
     (if is_contains col from then is_insert_at mx to 1 (is_erase_at from col)
      else is_shift_for_insert_at mx to 1 (is_erase_at from col))"

definition move_row :: "nat \<Rightarrow> nat \<Rightarrow> nat \<Rightarrow> change_builder \<Rightarrow> change_builder option" where
  "move_row mx from to b = do {
     (ms, updated, ins) \<leftarrow> move_loop mx from to (moves b) False (insertions b);
     let b1 = b\<lparr>insertions := ins, moves := ms\<rparr>;
     if updated then Some b1
     else do {
       let (ins1, shifted_from) = is_erase_or_unshift from (insertions b1);
       ins2 \<leftarrow> is_insert_at mx to 1 ins1;
       let b2 = b1\<lparr>insertions := ins2\<rparr>;
       if shifted_from \<noteq> npos then do {
         (d, shifted_from1) \<leftarrow> is_add_shifted mx shifted_from (deletions b2);
         Some (b2\<lparr>deletions := d, moves := moves b2 @ [\<lparr>mv_from = shifted_from1, mv_to = to\<rparr>]\<rparr>)
       }
       else Some b2
     }
   }"

definition cb_move :: "nat \<Rightarrow> nat \<Rightarrow> nat \<Rightarrow> change_builder \<Rightarrow> change_builder option" where
  "cb_move mx from to b = do {
     realm_assert (from \<noteq> to);
     b1 \<leftarrow> move_row mx from to b;
     for_each_col (move_col mx from to) b1
   }"

subsection \<open>Operations with row semantics: move_over, swap, subsume, parse_complete\<close>

text \<open>The end of the last range: \<open>prev(v.end())->second\<close>.\<close>

definition last_second :: "crv \<Rightarrow> nat" where
  "last_second v = snd (it_deref v (it_prev v (it_end v)))"

definition move_over_col :: "nat \<Rightarrow> nat \<Rightarrow> nat \<Rightarrow> crv \<Rightarrow> crv option" where
  "move_over_col mx row_ndx last_row col =
     (if is_contains col last_row then do { c \<leftarrow> is_remove mx last_row 1 col; is_add mx row_ndx c }
      else is_remove mx row_ndx 1 col)"

text \<open>The last row takes the place of another one: what \<open>move_over\<close> records when it tracks moves.\<close>

definition move_over_source :: "nat \<Rightarrow> nat \<Rightarrow> nat \<Rightarrow> change_builder \<Rightarrow> change_builder option" where
  "move_over_source mx row_ndx last_row b =
     (let row_is_insertion = is_contains (insertions b) row_ndx;
          last_is_insertion = (insertions b \<noteq> [] \<and> last_second (insertions b) = last_row + 1);
          (mapping1, last_was_already_moved) =
            (if last_is_insertion then
               (case map_of (m_move_mapping b) last_row of
                  Some from \<Rightarrow> (AList.delete last_row (AList.update row_ndx from (m_move_mapping b)), True)
                | None \<Rightarrow> (m_move_mapping b, False))
             else (m_move_mapping b, False));
          mapping2 = (if row_is_insertion \<and> \<not> last_was_already_moved
                      then AList.delete row_ndx mapping1 else mapping1);
          b2 = b\<lparr>m_move_mapping := mapping2\<rparr>
      in if last_is_insertion
         then do { ins \<leftarrow> is_remove mx last_row 1 (insertions b2); Some (b2\<lparr>insertions := ins\<rparr>) }
         else if \<not> last_was_already_moved then do {
           (d, shifted_last_row) \<leftarrow>
             is_add_shifted mx (is_unshift last_row (insertions b2)) (deletions b2);
           Some (b2\<lparr>deletions := d,
             m_move_mapping := AList.update row_ndx shifted_last_row (m_move_mapping b2)\<rparr>)
         }
         else Some b2)"

definition move_over_track :: "nat \<Rightarrow> nat \<Rightarrow> nat \<Rightarrow> change_builder \<Rightarrow> change_builder option" where
  "move_over_track mx row_ndx last_row b = do {
     let row_is_insertion = is_contains (insertions b) row_ndx;
     b3 \<leftarrow> move_over_source mx row_ndx last_row b;
     if \<not> row_is_insertion then do {
       (d, _) \<leftarrow> is_add_shifted mx (is_unshift row_ndx (insertions b3)) (deletions b3);
       ins \<leftarrow> is_add mx row_ndx (insertions b3);
       Some (b3\<lparr>deletions := d, insertions := ins\<rparr>)
     }
     else Some b3
   }"

definition cb_move_over :: "nat \<Rightarrow> nat \<Rightarrow> nat \<Rightarrow> bool \<Rightarrow> change_builder \<Rightarrow> change_builder option" where
  "cb_move_over mx row_ndx last_row track_moves b = do {
     realm_assert (row_ndx \<le> last_row);
     realm_assert (insertions b = [] \<or> last_second (insertions b) - 1 \<le> last_row);
     realm_assert (modifications b = [] \<or> last_second (modifications b) - 1 \<le> last_row);
     if row_ndx = last_row then do {
       b1 \<leftarrow> (if track_moves then do {
               let (ins, shifted_from) = is_erase_or_unshift row_ndx (insertions b);
               d \<leftarrow> (if shifted_from \<noteq> npos
                    then do { (d, _) \<leftarrow> is_add_shifted mx shifted_from (deletions b); Some d }
                    else Some (deletions b));
               Some (b\<lparr>insertions := ins, deletions := d,
                 m_move_mapping := AList.delete row_ndx (m_move_mapping b)\<rparr>)
             }
             else Some b);
       for_each_col (is_remove mx row_ndx 1) b1
     }
     else do {
       b1 \<leftarrow> for_each_col (move_over_col mx row_ndx last_row) b;
       if \<not> track_moves then Some b1 else move_over_track mx row_ndx last_row b1
     }
   }"

definition swap_col :: "nat \<Rightarrow> nat \<Rightarrow> nat \<Rightarrow> crv \<Rightarrow> crv option" where
  "swap_col mx ndx_1 ndx_2 col =
     (let row_1_modified = is_contains col ndx_1; row_2_modified = is_contains col ndx_2 in
      if row_1_modified \<noteq> row_2_modified then
        (if row_1_modified then do { c \<leftarrow> is_remove mx ndx_1 1 col; is_add mx ndx_2 c }
         else do { c \<leftarrow> is_remove mx ndx_2 1 col; is_add mx ndx_1 c })
      else Some col)"

text \<open>
  Mark a row that is not an insertion as one, and its source as deleted; \<open>target\<close> is the row the
  content moves to.
\<close>

definition add_move :: "nat \<Rightarrow> nat \<Rightarrow> nat \<Rightarrow> change_builder \<Rightarrow> change_builder option" where
  "add_move mx ndx target b =
     (if \<not> is_contains (insertions b) ndx then do {
        (d, from) \<leftarrow> is_add_shifted mx (is_unshift ndx (insertions b)) (deletions b);
        ins \<leftarrow> is_add mx ndx (insertions b);
        Some (b\<lparr>deletions := d, insertions := ins,
          m_move_mapping := AList.update target from (m_move_mapping b)\<rparr>)
      }
      else Some b)"

definition update_move :: "nat \<Rightarrow> nat \<Rightarrow> nat \<Rightarrow> nat \<Rightarrow> change_builder \<Rightarrow> change_builder option" where
  "update_move mx original ndx_1 ndx_2 b =
     add_move mx ndx_1 ndx_2
       (b\<lparr>m_move_mapping := AList.update ndx_1 original (AList.delete ndx_2 (m_move_mapping b))\<rparr>)"

definition cb_swap :: "nat \<Rightarrow> nat \<Rightarrow> nat \<Rightarrow> bool \<Rightarrow> change_builder \<Rightarrow> change_builder option" where
  "cb_swap mx ndx_a ndx_b track_moves b = do {
     realm_assert (ndx_a \<noteq> ndx_b);
     let (ndx_1, ndx_2) = (if ndx_b < ndx_a then (ndx_b, ndx_a) else (ndx_a, ndx_b));
     b1 \<leftarrow> for_each_col (swap_col mx ndx_1 ndx_2) b;
     if \<not> track_moves then Some b1
     else (case (map_of (m_move_mapping b1) ndx_1, map_of (m_move_mapping b1) ndx_2) of
         (Some from_1, Some from_2) \<Rightarrow>
           Some (b1\<lparr>m_move_mapping := AList.update ndx_1 from_2 (AList.update ndx_2 from_1 (m_move_mapping b1))\<rparr>)
       | (Some from_1, None) \<Rightarrow> update_move mx from_1 ndx_2 ndx_1 b1
       | (None, Some from_2) \<Rightarrow> update_move mx from_2 ndx_1 ndx_2 b1
       | (None, None) \<Rightarrow> do { b2 \<leftarrow> add_move mx ndx_2 ndx_1 b1; add_move mx ndx_1 ndx_2 b2 })
   }"

definition subsume_col :: "nat \<Rightarrow> nat \<Rightarrow> nat \<Rightarrow> crv \<Rightarrow> crv option" where
  "subsume_col mx old_ndx new_ndx col = (if is_contains col old_ndx then is_add mx new_ndx col else Some col)"

definition cb_subsume :: "nat \<Rightarrow> nat \<Rightarrow> nat \<Rightarrow> bool \<Rightarrow> change_builder \<Rightarrow> change_builder option" where
  "cb_subsume mx old_ndx new_ndx track_moves b = do {
     realm_assert (old_ndx \<noteq> new_ndx);
     b1 \<leftarrow> for_each_col (subsume_col mx old_ndx new_ndx) b;
     if \<not> track_moves then Some b1
     else (case map_of (m_move_mapping b1) old_ndx of
         Some from \<Rightarrow>
           Some (b1\<lparr>m_move_mapping := AList.delete old_ndx (AList.update new_ndx from (m_move_mapping b1))\<rparr>)
       | None \<Rightarrow>
           if \<not> is_contains (insertions b1) old_ndx then
             Some (b1\<lparr>m_move_mapping := AList.update new_ndx
               (is_shift (is_unshift old_ndx (insertions b1)) (deletions b1)) (m_move_mapping b1)\<rparr>)
           else Some b1)
   }"

definition parse_move :: "nat \<Rightarrow> nat \<times> nat \<Rightarrow> change_builder \<Rightarrow> change_builder option" where
  "parse_move mx p b =
     (if fst p = snd p then do {
        d \<leftarrow> is_remove mx (snd p) 1 (deletions b);
        i \<leftarrow> is_remove mx (fst p) 1 (insertions b);
        Some (b\<lparr>deletions := d, insertions := i\<rparr>)
      }
      else Some (b\<lparr>moves := moves b @ [\<lparr>mv_from = snd p, mv_to = fst p\<rparr>]\<rparr>))"

definition cb_parse_complete :: "nat \<Rightarrow> change_builder \<Rightarrow> change_builder option" where
  "cb_parse_complete mx b = do {
     b1 \<leftarrow> foldM (parse_move mx) (m_move_mapping b) b;
     Some (b1\<lparr>m_move_mapping := [], moves := sort_key mv_from (moves b1)\<rparr>)
   }"

subsection \<open>clean_up_stale_moves and merge\<close>

fun clean_moves :: "nat \<Rightarrow> move list \<Rightarrow> crv \<Rightarrow> crv \<Rightarrow> (move list \<times> crv \<times> crv) option" where
  "clean_moves mx [] dels inss = Some ([], dels, inss)"
| "clean_moves mx (m # ms) dels inss =
     (if mv_from m - is_count dels 0 (mv_from m) \<noteq> mv_to m - is_count inss 0 (mv_to m) then do {
        (ms', dels', inss') \<leftarrow> clean_moves mx ms dels inss;
        Some (m # ms', dels', inss')
      }
      else do {
        dels1 \<leftarrow> is_remove mx (mv_from m) 1 dels;
        inss1 \<leftarrow> is_remove mx (mv_to m) 1 inss;
        clean_moves mx ms dels1 inss1
      })"

definition clean_up_stale_moves :: "nat \<Rightarrow> change_builder \<Rightarrow> change_builder option" where
  "clean_up_stale_moves mx b = do {
     (ms, d, i) \<leftarrow> clean_moves mx (moves b) (deletions b) (insertions b);
     Some (b\<lparr>moves := ms, deletions := d, insertions := i\<rparr>)
   }"

text \<open>
  The local \<open>for_each_col\<close> of \<open>merge\<close>: the shorter column list is padded with empty sets, then the
  columns are visited in pairs.
\<close>

definition pad_columns :: "change_builder \<times> change_builder \<Rightarrow> change_builder \<times> change_builder" where
  "pad_columns p =
     (let b = fst p; c = snd p in
      if m_track_columns b then
        (if length (columns b) < length (columns c)
         then (b\<lparr>columns := resize [] (length (columns c)) (columns b)\<rparr>, c)
         else if length (columns c) < length (columns b)
         then (b, c\<lparr>columns := resize [] (length (columns b)) (columns c)\<rparr>)
         else p)
      else p)"

definition keep_col :: "nat \<Rightarrow> nat \<Rightarrow> nat \<Rightarrow> crv \<Rightarrow> crv \<Rightarrow> crv option" where
  "keep_col mx from to col other = (if is_contains col from then is_add mx to other else Some other)"

definition keep_modified ::
    "nat \<Rightarrow> nat \<Rightarrow> nat \<Rightarrow> change_builder \<times> change_builder \<Rightarrow> (change_builder \<times> change_builder) option" where
  "keep_modified mx from to p = do {
     m \<leftarrow> keep_col mx from to (modifications (fst p)) (modifications (snd p));
     let (b, c) = pad_columns (fst p, (snd p)\<lparr>modifications := m\<rparr>);
     if m_track_columns b then do {
       cs \<leftarrow> mapM (\<lambda>(col, other). keep_col mx from to col other) (zip (columns b) (columns c));
       Some (b, c\<lparr>columns := cs\<rparr>)
     }
     else Some (b, c)
   }"

fun merge_old_moves :: "nat \<Rightarrow> move list \<Rightarrow> change_builder \<times> change_builder \<Rightarrow>
    (move list \<times> change_builder \<times> change_builder) option" where
  "merge_old_moves mx [] p = Some ([], p)"
| "merge_old_moves mx (old # olds) p =
     (let c = snd p; i = length (takeWhile (\<lambda>m. mv_to old \<noteq> mv_from m) (moves c)) in
      if i < length (moves c) then do {
        let again = moves c ! i;
        p1 \<leftarrow> keep_modified mx (mv_from again) (mv_to again) p;
        let p2 = (fst p1, (snd p1)\<lparr>moves := butlast ((moves c)[i := last (moves c)])\<rparr>);
        (ms, p') \<leftarrow> merge_old_moves mx olds p2;
        Some (old\<lparr>mv_to := mv_to again\<rparr> # ms, p')
      }
      else if is_contains (deletions c) (mv_to old) then merge_old_moves mx olds p
      else do {
        (ms, p') \<leftarrow> merge_old_moves mx olds p;
        Some (old\<lparr>mv_to := is_shift (is_unshift (mv_to old) (deletions c)) (insertions c)\<rparr> # ms, p')
      })"

definition merge_col :: "nat \<Rightarrow> crv \<Rightarrow> crv \<Rightarrow> crv \<Rightarrow> crv \<Rightarrow> crv option" where
  "merge_col mx dels inss col other =
     is_add_set mx other (is_shift_for_insert_at_set mx inss (is_erase_at_set mx dels col))"

definition merge_cols :: "nat \<Rightarrow> change_builder \<times> change_builder \<Rightarrow> change_builder option" where
  "merge_cols mx p = do {
     m \<leftarrow> merge_col mx (deletions (snd p)) (insertions (snd p))
           (modifications (fst p)) (modifications (snd p));
     let (b, c) = pad_columns ((fst p)\<lparr>modifications := m\<rparr>, snd p);
     if m_track_columns b then do {
       cs \<leftarrow> mapM (\<lambda>(col, other). merge_col mx (deletions c) (insertions c) col other)
              (zip (columns b) (columns c));
       Some (b\<lparr>columns := cs\<rparr>)
     }
     else Some b
   }"

definition cb_merge :: "nat \<Rightarrow> change_builder \<Rightarrow> change_builder \<Rightarrow> change_builder option" where
  "cb_merge mx c0 b0 =
     (if cs_empty c0 then Some b0
      else if cs_empty b0 then Some c0
      else do {
        (b1, c1) \<leftarrow>
          (if moves c0 \<noteq> [] \<or> deletions c0 \<noteq> [] \<or> insertions c0 \<noteq> [] then do {
             (ms, b, c) \<leftarrow> merge_old_moves mx (moves b0) (b0, c0);
             Some (b\<lparr>moves := ms\<rparr>, c)
           }
           else Some (b0, c0));
        let c2 = (if insertions b1 \<noteq> [] \<and> moves c1 \<noteq> []
                  then c1\<lparr>moves := filter (\<lambda>m. \<not> is_contains (insertions b1) (mv_from m)) (moves c1)\<rparr>
                  else c1);
        (b3, c3) \<leftarrow>
          (if modifications b1 \<noteq> [] \<and> moves c2 \<noteq> []
           then foldM (\<lambda>m p. keep_modified mx (mv_from m) (mv_to m) p) (moves c2) (b1, c2)
           else Some (b1, c2));
        let c4 = (if deletions b3 \<noteq> [] \<or> insertions b3 \<noteq> []
                  then c3\<lparr>moves := map (\<lambda>m. m\<lparr>mv_from :=
                         is_shift (is_unshift (mv_from m) (insertions b3)) (deletions b3)\<rparr>) (moves c3)\<rparr>
                  else c3);
        let b4 = b3\<lparr>moves := moves b3 @ moves c4\<rparr>;
        dels \<leftarrow> is_add_shifted_by mx (insertions b4) (deletions c4) (deletions b4);
        let inss = is_insert_at_set mx (insertions c4) (is_erase_at_set mx (deletions c4) (insertions b4));
        b5 \<leftarrow> clean_up_stale_moves mx (b4\<lparr>deletions := dels, insertions := inss\<rparr>);
        merge_cols mx (b5, c4)
      })"

subsection \<open>Columns and the final change set\<close>

definition cb_insert_column :: "nat \<Rightarrow> change_builder \<Rightarrow> change_builder" where
  "cb_insert_column ndx b =
     (if ndx < length (columns b) then b\<lparr>columns := take ndx (columns b) @ [] # drop ndx (columns b)\<rparr> else b)"

text \<open>\<open>std::rotate(first, n_first, last)\<close> on the positions of a list.\<close>

definition rotate_range :: "nat \<Rightarrow> nat \<Rightarrow> nat \<Rightarrow> 'a list \<Rightarrow> 'a list" where
  "rotate_range first n_first stop xs =
     take first xs @ drop n_first (take stop xs) @ drop first (take n_first xs) @ drop stop xs"

definition cb_move_column :: "nat \<Rightarrow> nat \<Rightarrow> change_builder \<Rightarrow> change_builder" where
  "cb_move_column from to b =
     (if length (columns b) \<le> from \<and> length (columns b) \<le> to then b
      else
        let cols = (if length (columns b) \<le> from \<or> length (columns b) \<le> to
                    then resize [] (max from to + 1) (columns b) else columns b)
        in if from < to then b\<lparr>columns := rotate_range from (from + 1) (to + 1) cols\<rparr>
           else b\<lparr>columns := rotate_range to from (from + 1) cols\<rparr>)"

definition cb_finalize :: "nat \<Rightarrow> change_builder \<Rightarrow> change_set option" where
  "cb_finalize mx b = do {
     let in_old = is_shift_for_insert_at_set mx (deletions b)
                    (is_erase_at_set mx (insertions b) (modifications b));
     m \<leftarrow> is_remove_set mx (insertions b) (modifications b);
     Some \<lparr>deletions = deletions b, insertions = insertions b, modifications = in_old,
       modifications_new = m, moves = moves b, columns = columns b\<rparr>
   }"

end
