(* ===== verification/Row_Numbering.thy ===== *)
theory Row_Numbering
  imports Index_Set_Bulk
begin

text \<open>
  What a pair of deletion and insertion sets says about rows.  Rows of the new collection that are
  not insertions and rows of the old collection that are not deletions correspond in order; an
  inserted row may have a recorded source (a move).  \<open>orig\<close> is the resulting partial map from new
  to old positions, the abstract content of a change set, and the lemmas below say how it changes
  with the two sets.
\<close>

subsection \<open>The i-th row outside a finite set\<close>

definition free :: "nat set \<Rightarrow> nat \<Rightarrow> nat" where
  "free D i = (LEAST k. i < unrank D (Suc k))"

lemma unrank_Suc: "unrank D (Suc k) = unrank D k + (if k \<in> D then 0 else 1)"
  by (simp add: unrank_def lessThan_Suc insert_Diff_if)

lemma unrank_0 [simp]: "unrank D 0 = 0"
  by (simp add: unrank_def)

lemma free_exists:
  assumes "finite D"
  shows "i < unrank D (Suc (i + card D))"
proof -
  have "card (D \<inter> {..<Suc (i + card D)}) \<le> card D" by (intro card_mono assms) auto
  then show ?thesis by (simp add: unrank_eq)
qed

lemma free_props:
  assumes "finite D"
  shows "free D i \<notin> D \<and> unrank D (free D i) = i"
proof -
  let ?k = "free D i"
  have a: "i < unrank D (Suc ?k)"
    unfolding free_def by (rule LeastI) (rule free_exists [OF assms])
  have b: "unrank D ?k \<le> i"
  proof (cases ?k)
    case (Suc j)
    then have "\<not> i < unrank D (Suc j)"
      using not_less_Least [of j "\<lambda>k. i < unrank D (Suc k)"] by (simp add: free_def)
    then show ?thesis using Suc by simp
  qed simp
  show ?thesis using a b by (auto simp: unrank_Suc split: if_splits)
qed

lemma free_eqI: "finite D \<Longrightarrow> k \<notin> D \<Longrightarrow> unrank D k = i \<Longrightarrow> free D i = k"
  using free_props [of D i] unrank_inj [of "free D i" D k] by simp

lemma free_unrank [simp]: "finite D \<Longrightarrow> k \<notin> D \<Longrightarrow> free D (unrank D k) = k"
  by (rule free_eqI) auto

lemma free_less_iff: "finite D \<Longrightarrow> free D i < free D j \<longleftrightarrow> i < j"
  using free_props [of D i] free_props [of D j] unrank_strict_mono unrank_mono
  by (metis leD leI)

lemma is_shift_free: "index_set_ok mx v \<Longrightarrow> is_shift i v = free (indexes v) i"
  using is_shift_correct [of mx v i] by (intro free_eqI [symmetric]) (auto simp: indexes_def)

lemma unrank_insert_gen:
  assumes "x \<notin> D"
  shows "unrank (insert x D) y = unrank D y - (if x < y then 1 else 0)"
proof (cases "x < y")
  case True
  then have "{..<y} - D = insert x ({..<y} - insert x D)" using assms by auto
  moreover have "x \<notin> {..<y} - insert x D" by simp
  ultimately have "card ({..<y} - D) = Suc (card ({..<y} - insert x D))" by (metis card_insert_disjoint finite_Diff finite_lessThan)
  then show ?thesis using True by (simp add: unrank_def)
next
  case False
  then have "{..<y} - insert x D = {..<y} - D" by auto
  then show ?thesis using False by (simp add: unrank_def)
qed

subsection \<open>Reference operations on per-row data\<close>

definition row_insert :: "nat \<Rightarrow> nat \<Rightarrow> 'a \<Rightarrow> (nat \<Rightarrow> 'a) \<Rightarrow> nat \<Rightarrow> 'a" where
  "row_insert i n d f k = (if k < i then f k else if k < i + n then d else f (k - n))"

definition row_erase :: "nat \<Rightarrow> (nat \<Rightarrow> 'a) \<Rightarrow> nat \<Rightarrow> 'a" where
  "row_erase i f k = (if k < i then f k else f (k + 1))"

definition row_move :: "nat \<Rightarrow> nat \<Rightarrow> (nat \<Rightarrow> 'a) \<Rightarrow> nat \<Rightarrow> 'a" where
  "row_move from to f = row_insert to 1 (f from) (row_erase from f)"

lemma row_insert_upd:
  "i \<le> k \<Longrightarrow> k < i + n \<Longrightarrow> (row_insert i n d f)(k := x) = (\<lambda>j. if j = k then x else row_insert i n d f j)"
  by auto

lemma row_move_insert: "row_move from to f = (row_insert to 1 d (row_erase from f))(to := f from)"
  by (auto simp: row_move_def row_insert_def)

lemma ins_shift_iff: "k \<in> ins_shift i n S \<longleftrightarrow> row_insert i n False (\<lambda>k. k \<in> S) k"
proof -
  have "k \<in> (\<lambda>x. x + n) ` {x \<in> S. i \<le> x} \<longleftrightarrow> i + n \<le> k \<and> k - n \<in> S"
    by (auto simp: image_iff intro!: bexI [of _ "k - n"])
  then show ?thesis by (auto simp: ins_shift_def row_insert_def)
qed

lemma del_shift_iff: "k \<in> del_shift i S \<longleftrightarrow> row_erase i (\<lambda>k. k \<in> S) k"
proof -
  have "k \<in> (\<lambda>x. x - 1) ` {x \<in> S. i < x} \<longleftrightarrow> i \<le> k \<and> k + 1 \<in> S"
    by (force simp: image_iff)
  then show ?thesis by (auto simp: del_shift_def row_erase_def)
qed

subsection \<open>The origin of a row\<close>

definition orig :: "nat set \<Rightarrow> nat set \<Rightarrow> (nat \<Rightarrow> nat option) \<Rightarrow> nat \<Rightarrow> nat option" where
  "orig D I src k = (if k \<in> I then src k else Some (free D (unrank I k)))"

lemma unrank_ins_shift:
  assumes "k < i \<or> i + n \<le> k"
  shows "unrank (ins_shift i n I \<union> {i..<i + n}) k = (if k < i then unrank I k else unrank I (k - n))"
proof (cases "k < i")
  case True
  have "{..<k} - (ins_shift i n I \<union> {i..<i + n}) = {..<k} - I"
    using True by (auto simp: ins_shift_iff row_insert_def)
  then show ?thesis using True by (simp add: unrank_def)
next
  case False
  then have k: "i + n \<le> k" using assms by simp
  have "bij_betw (\<lambda>x. if x < i then x else x + n) ({..<k - n} - I)
    ({..<k} - (ins_shift i n I \<union> {i..<i + n}))"
    by (rule bij_betw_byWitness [where f' = "\<lambda>x. if x < i then x else x - n"])
      (use k in \<open>auto simp: ins_shift_iff row_insert_def\<close>)
  then show ?thesis using False by (simp add: unrank_def bij_betw_same_card)
qed

lemma unrank_del_shift:
  assumes "i \<in> I"
  shows "unrank (del_shift i I) k = (if k < i then unrank I k else unrank I (k + 1))"
proof (induction k)
  case 0
  then show ?case using assms by (cases "i = 0") (auto simp: unrank_Suc)
next
  case (Suc k)
  consider "Suc k < i" | "Suc k = i" | "i \<le> k" by linarith
  then show ?case
    by cases (use Suc assms in \<open>auto simp: unrank_Suc del_shift_iff row_erase_def\<close>)
qed

lemma orig_insert:
  "orig D (ins_shift i n I \<union> {i..<i + n}) (row_insert i n None src) = row_insert i n None (orig D I src)"
proof
  fix k
  consider "k < i" | "i \<le> k" "k < i + n" | "i + n \<le> k" by linarith
  then show "orig D (ins_shift i n I \<union> {i..<i + n}) (row_insert i n None src) k =
    row_insert i n None (orig D I src) k"
    by cases (auto simp: orig_def row_insert_def ins_shift_iff unrank_ins_shift)
qed

lemma orig_erase:
  "i \<in> I \<Longrightarrow> orig D (del_shift i I) (row_erase i src) = row_erase i (orig D I src)"
  by (rule ext) (auto simp: orig_def row_erase_def del_shift_iff unrank_del_shift)

lemma orig_mark:
  assumes "finite D" "k \<notin> I"
  shows "orig (insert (free D (unrank I k)) D) (insert k I) src = (orig D I src)(k := src k)"
proof
  fix j
  let ?x = "free D (unrank I k)"
  have x: "?x \<notin> D" "unrank D ?x = unrank I k" using free_props [OF assms(1)] by auto
  show "orig (insert ?x D) (insert k I) src j = ((orig D I src)(k := src k)) j"
  proof (cases "j \<in> insert k I")
    case False
    let ?y = "free D (unrank I j)"
    have y: "?y \<notin> D" "unrank D ?y = unrank I j" using free_props [OF assms(1)] by auto
    have "unrank I j \<noteq> unrank I k" using False assms(2) unrank_inj by auto
    then have n: "?y \<notin> insert ?x D" using y x by auto
    have "unrank I k < unrank I j \<longleftrightarrow> k < j"
      using False assms(2) unrank_strict_mono unrank_mono by (metis insertCI leD leI)
    then have "?x < ?y \<longleftrightarrow> k < j" using free_less_iff [OF assms(1)] by simp
    then have "unrank (insert ?x D) ?y = unrank (insert k I) j"
      using y x(1) assms(2) by (simp add: unrank_insert_gen)
    then have "free (insert ?x D) (unrank (insert k I) j) = ?y"
      using n assms(1) by (intro free_eqI) auto
    then show ?thesis using False by (simp add: orig_def)
  qed (auto simp: orig_def)
qed

lemma orig_unmark:
  assumes "finite D" "x \<in> D" "k \<in> I" "unrank D x = unrank I k"
  shows "orig (D - {x}) (I - {k}) src = (orig D I src)(k := Some x)"
proof -
  have u: "unrank (D - {x}) x = unrank (I - {k}) k"
    using assms(4) unrank_insert_gen [of x "D - {x}" x] unrank_insert_gen [of k "I - {k}" k] assms(2,3)
    by (simp add: insert_absorb)
  then have f: "free (D - {x}) (unrank (I - {k}) k) = x" using assms(1) by (intro free_eqI) auto
  have "orig D I src = (orig (D - {x}) (I - {k}) src)(k := src k)"
    using orig_mark [of "D - {x}" k "I - {k}" src] assms f by (simp add: insert_absorb)
  moreover have "orig (D - {x}) (I - {k}) src k = Some x" using f by (simp add: orig_def)
  ultimately show ?thesis by (simp add: fun_upd_idem)
qed

lemma orig_source: "k \<in> I \<Longrightarrow> orig D I (src(k := x)) = (orig D I src)(k := x)"
  by (auto simp: orig_def)

lemma orig_cong: "\<forall>k \<in> I. src k = src' k \<Longrightarrow> orig D I src = orig D I src'"
  by (auto simp: orig_def)

text \<open>Deleting a row that is not an insertion deletes its source.\<close>

lemma orig_erase_row:
  assumes "finite D" "i \<notin> I"
  shows "orig (insert (free D (unrank I i)) D) (del_shift i I) (row_erase i src) = row_erase i (orig D I src)"
proof -
  have "del_shift i (insert i I) = del_shift i I" by (auto simp: del_shift_def)
  then have "orig (insert (free D (unrank I i)) D) (del_shift i I) (row_erase i src) =
    row_erase i (orig (insert (free D (unrank I i)) D) (insert i I) src)"
    using orig_erase [of i "insert i I"] by simp
  also have "\<dots> = row_erase i ((orig D I src)(i := src i))" by (simp add: orig_mark [OF assms])
  also have "\<dots> = row_erase i (orig D I src)" by (rule ext) (auto simp: row_erase_def)
  finally show ?thesis .
qed

text \<open>Moving a row that is not an insertion records its source.\<close>

lemma orig_move:
  assumes "from \<in> I"
  shows "orig D (ins_shift to 1 (del_shift from I) \<union> {to..<to + 1}) (row_move from to src) =
    row_move from to (orig D I src)"
proof -
  let ?S = "ins_shift to 1 (del_shift from I) \<union> {to..<to + 1}"
  have "orig D ?S (row_move from to src) =
    (orig D ?S (row_insert to 1 None (row_erase from src)))(to := src from)"
    unfolding row_move_insert [where d = None] by (rule orig_source) simp
  also have "\<dots> = (row_insert to 1 None (row_erase from (orig D I src)))(to := orig D I src from)"
    unfolding orig_insert orig_erase [OF assms] using assms by (simp add: orig_def)
  finally show ?thesis by (simp only: row_move_insert [where d = None])
qed

lemma orig_move_row:
  assumes "finite D" "from \<notin> I" "x = free D (unrank I from)"
  shows "orig (insert x D) (ins_shift to 1 (del_shift from I) \<union> {to..<to + 1})
    ((row_move from to src)(to := Some x)) = row_move from to (orig D I src)"
proof -
  have d: "del_shift from (insert from I) = del_shift from I" by (auto simp: del_shift_def)
  have e: "(row_move from to src)(to := Some x) = row_move from to (src(from := Some x))"
    by (rule ext) (auto simp: row_move_def row_insert_def row_erase_def)
  have "orig (insert x D) (insert from I) (src(from := Some x)) = (orig D I (src(from := Some x)))(from := Some x)"
    using orig_mark [OF assms(1,2), of "src(from := Some x)"] assms(3) by simp
  also have "\<dots> = orig D I src" using assms(2,3) by (auto simp: orig_def)
  finally show ?thesis
    using orig_move [of "from" "insert from I" "insert x D" to "src(from := Some x)"] unfolding d e by simp
qed

end
