(* ===== verification/Change_Lists.thy ===== *)
theory Change_Lists
  imports Change_Builder Row_Numbering
begin

text \<open>
  The builder with list semantics (\<open>insert\<close>, \<open>erase\<close>, \<open>move\<close>, \<open>modify\<close>, \<open>clear\<close>) implements the
  reference operations on rows: the origin of every row and its modified flags change exactly as
  the edited list does.  The clients of the index sets go through the interface
  \<open>index_set_ops\<close>.
\<close>

subsection \<open>The interface of the index sets\<close>

definition iset_ok :: "nat \<Rightarrow> crv \<Rightarrow> bool" where
  "iset_ok mx v \<longleftrightarrow> max_size_ok mx \<and> index_set_ok mx v"

locale index_set_ops =
  fixes ok :: "'s \<Rightarrow> bool"
    and members :: "'s \<Rightarrow> nat set"
    and contains :: "'s \<Rightarrow> nat \<Rightarrow> bool"
    and add :: "nat \<Rightarrow> 's \<Rightarrow> 's option"
    and remove :: "nat \<Rightarrow> 's \<Rightarrow> 's option"
    and insert_row :: "nat \<Rightarrow> 's \<Rightarrow> 's option"
    and shift_row :: "nat \<Rightarrow> 's \<Rightarrow> 's option"
    and erase_row :: "nat \<Rightarrow> 's \<Rightarrow> 's"
  assumes contains: "ok v \<Longrightarrow> contains v i \<longleftrightarrow> i \<in> members v"
    and add: "ok v \<Longrightarrow> \<exists>v'. add i v = Some v' \<and> ok v' \<and> members v' = insert i (members v)"
    and remove: "ok v \<Longrightarrow> \<exists>v'. remove i v = Some v' \<and> ok v' \<and> members v' = members v - {i}"
    and insert_row: "ok v \<Longrightarrow> \<exists>v'. insert_row i v = Some v' \<and> ok v' \<and>
      (\<lambda>k. k \<in> members v') = row_insert i 1 True (\<lambda>k. k \<in> members v)"
    and shift_row: "ok v \<Longrightarrow> \<exists>v'. shift_row i v = Some v' \<and> ok v' \<and>
      (\<lambda>k. k \<in> members v') = row_insert i 1 False (\<lambda>k. k \<in> members v)"
    and erase_row: "ok v \<Longrightarrow> ok (erase_row i v) \<and> (\<lambda>k. k \<in> members (erase_row i v)) = row_erase i (\<lambda>k. k \<in> members v)"
begin

lemma relocate:
  assumes "ok v"
  shows "\<exists>v'. (if contains v from then insert_row to (erase_row from v) else shift_row to (erase_row from v)) = Some v' \<and>
    ok v' \<and> (\<lambda>k. k \<in> members v') = row_move from to (\<lambda>k. k \<in> members v)"
proof (cases "from \<in> members v")
  case True
  then show ?thesis
    using insert_row [of "erase_row from v" to] erase_row [OF assms, of "from"] contains [OF assms, of "from"]
    by (auto simp: row_move_def)
next
  case False
  then show ?thesis
    using shift_row [of "erase_row from v" to] erase_row [OF assms, of "from"] contains [OF assms, of "from"]
    by (auto simp: row_move_def)
qed

lemma replace:
  assumes "ok v" "row \<noteq> end_row"
  shows "\<exists>v'. (if contains v end_row then do { c \<leftarrow> remove end_row v; add row c } else remove row v) = Some v' \<and> ok v' \<and>
    (\<lambda>k. k \<in> members v') = (\<lambda>k. k \<in> members v)(row := end_row \<in> members v, end_row := False)"
proof (cases "end_row \<in> members v")
  case True
  obtain v1 where v1: "remove end_row v = Some v1" "ok v1" "members v1 = members v - {end_row}"
    using remove [OF assms(1)] by blast
  obtain v2 where v2: "add row v1 = Some v2" "ok v2" "members v2 = insert row (members v1)"
    using add [OF v1(2)] by blast
  show ?thesis
    by (rule exI [of _ v2])
      (use True v1 v2 contains [OF assms(1), of end_row] assms(2) in \<open>simp add: fun_eq_iff\<close>)
next
  case False
  then show ?thesis using remove [OF assms(1), of row] contains [OF assms(1), of end_row]
    by (auto simp: fun_eq_iff)
qed

lemma exchange:
  assumes "ok v" "i \<noteq> j"
  shows "\<exists>v'. (if contains v i \<noteq> contains v j then
        (if contains v i then do { c \<leftarrow> remove i v; add j c } else do { c \<leftarrow> remove j v; add i c })
      else Some v) = Some v' \<and> ok v' \<and>
    (\<lambda>k. k \<in> members v') = (\<lambda>k. k \<in> members v)(i := j \<in> members v, j := i \<in> members v)"
proof -
  have *: "\<exists>v'. do { c \<leftarrow> remove x v; add y c } = Some v' \<and> ok v' \<and> members v' = insert y (members v - {x})" for x y
  proof -
    obtain v1 where v1: "remove x v = Some v1" "ok v1" "members v1 = members v - {x}"
      using remove [OF assms(1)] by blast
    then show ?thesis using add [OF v1(2), of y] by simp
  qed
  obtain v1 v2 where v: "do { c \<leftarrow> remove i v; add j c } = Some v1" "ok v1" "members v1 = insert j (members v - {i})"
    "do { c \<leftarrow> remove j v; add i c } = Some v2" "ok v2" "members v2 = insert i (members v - {j})"
    using * [of i j] * [of j i] by blast
  show ?thesis
    by (rule exI [of _ "if (i \<in> members v) = (j \<in> members v) then v else if i \<in> members v then v1 else v2"])
      (use v contains [OF assms(1)] assms in \<open>simp add: fun_eq_iff\<close>)
qed

lemma carry:
  assumes "ok v"
  shows "\<exists>v'. (if contains v i then add j v else Some v) = Some v' \<and> ok v' \<and>
    (\<lambda>k. k \<in> members v') = (\<lambda>k. k \<in> members v)(j := j \<in> members v \<or> i \<in> members v)"
  using add [OF assms, of j] contains [OF assms, of i] assms by (auto simp: fun_eq_iff)

end

lemma is_insert_at_rows:
  assumes "iset_ok mx v" "0 < n"
  shows "\<exists>v'. is_insert_at mx i n v = Some v' \<and> iset_ok mx v' \<and>
    (\<lambda>k. k \<in> indexes v') = row_insert i n True (\<lambda>k. k \<in> indexes v) \<and>
    indexes v' = ins_shift i n (indexes v) \<union> {i..<i + n}"
  using is_insert_at_correct [of mx v n i] assms
  by (auto simp: iset_ok_def ins_shift_iff row_insert_def fun_eq_iff)

lemma is_shift_for_insert_at_rows:
  assumes "iset_ok mx v" "0 < n"
  shows "\<exists>v'. is_shift_for_insert_at mx i n v = Some v' \<and> iset_ok mx v' \<and>
    (\<lambda>k. k \<in> indexes v') = row_insert i n False (\<lambda>k. k \<in> indexes v)"
  using is_shift_for_insert_at_correct [of mx v n i] assms
  by (auto simp: iset_ok_def ins_shift_iff row_insert_def fun_eq_iff)

lemma is_erase_at_rows:
  assumes "iset_ok mx v"
  shows "iset_ok mx (is_erase_at i v) \<and> (\<lambda>k. k \<in> indexes (is_erase_at i v)) = row_erase i (\<lambda>k. k \<in> indexes v)"
  using is_erase_at_correct [of mx v i] assms
  by (auto simp: iset_ok_def del_shift_iff fun_eq_iff)

interpretation ixs: index_set_ops "iset_ok mx" indexes is_contains "is_add mx" "\<lambda>i. is_remove mx i 1"
  "\<lambda>i. is_insert_at mx i 1" "\<lambda>i. is_shift_for_insert_at mx i 1" is_erase_at for mx
proof
  show "is_contains v i \<longleftrightarrow> i \<in> indexes v" if "iset_ok mx v" for v i
    using that by (auto simp: iset_ok_def is_contains_iff)
  show "\<exists>v'. is_add mx i v = Some v' \<and> iset_ok mx v' \<and> indexes v' = insert i (indexes v)"
    if "iset_ok mx v" for v i using that is_add_correct by (auto simp: iset_ok_def)
  show "\<exists>v'. is_remove mx i 1 v = Some v' \<and> iset_ok mx v' \<and> indexes v' = indexes v - {i}"
    if "iset_ok mx v" for v i using that is_remove_correct [of mx v 1 i] by (auto simp: iset_ok_def)
  show "\<exists>v'. is_insert_at mx i 1 v = Some v' \<and> iset_ok mx v' \<and>
      (\<lambda>k. k \<in> indexes v') = row_insert i 1 True (\<lambda>k. k \<in> indexes v)" if "iset_ok mx v" for v i
    using is_insert_at_rows [OF that, of 1 i] by auto
  show "\<exists>v'. is_shift_for_insert_at mx i 1 v = Some v' \<and> iset_ok mx v' \<and>
      (\<lambda>k. k \<in> indexes v') = row_insert i 1 False (\<lambda>k. k \<in> indexes v)" if "iset_ok mx v" for v i
    using is_shift_for_insert_at_rows [OF that, of 1 i] by auto
  show "iset_ok mx (is_erase_at i v) \<and>
      (\<lambda>k. k \<in> indexes (is_erase_at i v)) = row_erase i (\<lambda>k. k \<in> indexes v)" if "iset_ok mx v" for v i
    by (rule is_erase_at_rows [OF that])
qed

subsection \<open>The builder's invariant and its content\<close>

definition cb_ok :: "nat \<Rightarrow> change_builder \<Rightarrow> bool" where
  "cb_ok mx b \<longleftrightarrow> iset_ok mx (deletions b) \<and> iset_ok mx (insertions b) \<and> iset_ok mx (modifications b) \<and>
     (\<forall>c \<in> set (columns b). iset_ok mx c)"

definition sources :: "change_builder \<Rightarrow> nat \<Rightarrow> nat option" where
  "sources b = map_of (map (\<lambda>m. (mv_to m, mv_from m)) (moves b) @ m_move_mapping b)"

definition origin :: "change_builder \<Rightarrow> nat \<Rightarrow> nat option" where
  "origin b k =
     (if is_contains (insertions b) k then sources b k
      else Some (is_shift (is_unshift k (insertions b)) (deletions b)))"

definition modified :: "change_builder \<Rightarrow> nat \<Rightarrow> bool" where
  "modified b k \<longleftrightarrow> is_contains (modifications b) k"

definition col_modified :: "change_builder \<Rightarrow> nat \<Rightarrow> nat \<Rightarrow> bool" where
  "col_modified b c k \<longleftrightarrow> c < length (columns b) \<and> is_contains (columns b ! c) k"

lemma origin_orig:
  assumes "cb_ok mx b"
  shows "origin b = orig (indexes (deletions b)) (indexes (insertions b)) (sources b)"
  using assms ixs.contains [of mx "insertions b"]
  by (auto simp: origin_def orig_def cb_ok_def iset_ok_def is_shift_free is_unshift_correct)

lemma origin_cong:
  "deletions b' = deletions b \<Longrightarrow> insertions b' = insertions b \<Longrightarrow> moves b' = moves b \<Longrightarrow>
   m_move_mapping b' = m_move_mapping b \<Longrightarrow> origin b' = origin b"
  by (rule ext) (simp add: origin_def sources_def)

lemma modified_iff: "cb_ok mx b \<Longrightarrow> modified b = (\<lambda>k. k \<in> indexes (modifications b))"
  using ixs.contains [of mx "modifications b"] by (auto simp: modified_def cb_ok_def)

lemma col_modified_iff:
  "cb_ok mx b \<Longrightarrow> c < length (columns b) \<Longrightarrow> col_modified b c = (\<lambda>k. k \<in> indexes (columns b ! c))"
  using ixs.contains [of mx "columns b ! c"] by (auto simp: col_modified_def cb_ok_def)

text \<open>\<open>cols_by g b b'\<close>: the row flags and every tracked column changed by \<open>g\<close>, nothing else did.\<close>

definition cols_by :: "((nat \<Rightarrow> bool) \<Rightarrow> nat \<Rightarrow> bool) \<Rightarrow> change_builder \<Rightarrow> change_builder \<Rightarrow> bool" where
  "cols_by g b b' \<longleftrightarrow> modified b' = g (modified b) \<and> length (columns b') = length (columns b) \<and>
     (\<forall>c < length (columns b). col_modified b' c =
        (if m_track_columns b then g (col_modified b c) else col_modified b c))"

lemma cols_by_cong:
  "modifications b'' = modifications b' \<Longrightarrow> columns b'' = columns b' \<Longrightarrow> cols_by g b b'' \<longleftrightarrow> cols_by g b b'"
  by (simp add: cols_by_def modified_def [abs_def] col_modified_def [abs_def])

lemma cols_by_cong_source:
  assumes "modifications b1 = modifications b" "columns b1 = columns b" "m_track_columns b1 = m_track_columns b"
  shows "cols_by g b1 b' \<longleftrightarrow> cols_by g b b'"
proof -
  have "modified b1 = modified b" "col_modified b1 = col_modified b"
    using assms by (simp_all add: modified_def [abs_def] col_modified_def [abs_def])
  then show ?thesis using assms by (simp add: cols_by_def)
qed

lemma mapM_spec:
  assumes "\<forall>x \<in> set xs. \<exists>y. f x = Some y \<and> P x y"
  shows "\<exists>ys. mapM f xs = Some ys \<and> list_all2 P xs ys"
  using assms by (induction xs) fastforce+

lemma for_each_col_spec:
  assumes ok: "cb_ok mx b"
    and f: "\<forall>v. iset_ok mx v \<longrightarrow>
      (\<exists>v'. f v = Some v' \<and> iset_ok mx v' \<and> (\<lambda>k. k \<in> indexes v') = g (\<lambda>k. k \<in> indexes v))"
  shows "\<exists>m cs. for_each_col f b = Some (b\<lparr>modifications := m, columns := cs\<rparr>) \<and>
    cb_ok mx (b\<lparr>modifications := m, columns := cs\<rparr>) \<and>
    cols_by g b (b\<lparr>modifications := m, columns := cs\<rparr>)"
proof -
  obtain m where m: "f (modifications b) = Some m" "iset_ok mx m"
    "(\<lambda>k. k \<in> indexes m) = g (\<lambda>k. k \<in> indexes (modifications b))"
    using ok f by (auto simp: cb_ok_def)
  let ?P = "\<lambda>v v'. iset_ok mx v' \<and> (\<lambda>k. k \<in> indexes v') = g (\<lambda>k. k \<in> indexes v)"
  have "\<exists>cs. mapM f (columns b) = Some cs \<and> list_all2 ?P (columns b) cs"
    by (rule mapM_spec) (use ok f in \<open>auto simp: cb_ok_def\<close>)
  then obtain cs where cs: "mapM f (columns b) = Some cs" "list_all2 ?P (columns b) cs" by blast
  define cs' where "cs' = (if m_track_columns b then cs else columns b)"
  let ?b = "b\<lparr>modifications := m, columns := cs'\<rparr>"
  have "\<forall>c \<in> set cs. iset_ok mx c" using cs(2) by (auto simp: list_all2_conv_all_nth in_set_conv_nth)
  then have ok': "cb_ok mx ?b" using ok m by (auto simp: cb_ok_def cs'_def)
  have len: "length cs' = length (columns b)" using cs(2) by (auto simp: cs'_def dest: list_all2_lengthD)
  have "col_modified ?b c = (if m_track_columns b then g (col_modified b c) else col_modified b c)"
    if "c < length (columns b)" for c
    using that cs(2) len col_modified_iff [OF ok that] col_modified_iff [OF ok', of c]
    by (auto simp: cs'_def list_all2_conv_all_nth)
  then have "cols_by g b ?b" using m(3) modified_iff [OF ok] modified_iff [OF ok'] len
    by (simp add: cols_by_def)
  moreover have "for_each_col f b = Some ?b" using m(1) cs(1) by (simp add: for_each_col_def cs'_def)
  ultimately show ?thesis using ok' by blast
qed

subsection \<open>Keys of the recorded moves\<close>

lemma map_of_rekey:
  assumes "inj f"
  shows "map_of (map (\<lambda>p. (f (fst p), snd p)) xs) (f k) = map_of xs k"
  using assms by (induction xs) (auto simp: inj_def)

lemma map_of_rekey_None:
  assumes "\<forall>j. k \<noteq> f j"
  shows "map_of (map (\<lambda>p. (f (fst p), snd p)) xs) k = None"
  using assms by (induction xs) auto

lemma map_of_fold_mm_insert: "map_of (fold mm_insert xs m) = map_of xs ++ map_of m"
proof (induction xs arbitrary: m)
  case (Cons p xs)
  have "map_of (mm_insert p m) = [fst p \<mapsto> snd p] ++ map_of m"
    by (rule ext) (auto simp: mm_insert_def map_add_def split: option.splits)
  then show ?case by (simp add: Cons map_add_assoc map_add_upd_left) (rule ext, auto simp: map_add_def split: option.splits)
qed simp

lemma map_of_filter_key: "map_of (filter (\<lambda>p. P (fst p)) xs) k = (if P k then map_of xs k else None)"
  by (induction xs) auto

lemma row_insert_rekey:
  fixes f :: "nat \<Rightarrow> nat"
  assumes "f = (\<lambda>k. if i \<le> k then k + n else k)" "0 < n"
  shows "map_of (map (\<lambda>p. (f (fst p), snd p)) xs) = row_insert i n None (map_of xs)"
proof
  fix k
  have inj: "inj f" using assms(1) by (auto simp: inj_def split: if_splits)
  consider "k < i" | "i \<le> k" "k < i + n" | "i + n \<le> k" by linarith
  then show "map_of (map (\<lambda>p. (f (fst p), snd p)) xs) k = row_insert i n None (map_of xs) k"
  proof cases
    case 1
    then have "f k = k" using assms(1) by simp
    then show ?thesis using map_of_rekey [OF inj, of xs k] 1 by (simp add: row_insert_def)
  next
    case 2
    then have "\<forall>j. k \<noteq> f j" using assms(1) by auto
    then show ?thesis using map_of_rekey_None [of k f xs] 2 by (simp add: row_insert_def)
  next
    case 3
    then have "f (k - n) = k" using assms(1) by simp
    then show ?thesis using map_of_rekey [OF inj, of xs "k - n"] 3 by (simp add: row_insert_def)
  qed
qed

lemma map_of_shift_mapping:
  assumes "0 < n"
  shows "map_of (shift_mapping i n m) = row_insert i n None (map_of m)"
proof
  fix k
  let ?hi = "filter (\<lambda>p. i \<le> fst p) m"
  have inj: "inj (\<lambda>k. k + n)" by (simp add: inj_def)
  have hi: "map_of (map (\<lambda>p. (fst p + n, snd p)) ?hi) k = (if i + n \<le> k then map_of m (k - n) else None)"
  proof (cases "n \<le> k")
    case True
    then show ?thesis
      using map_of_rekey [OF inj, of ?hi "k - n"] map_of_filter_key [of "\<lambda>k. i \<le> k" m "k - n"] by auto
  next
    case False
    then have "map_of (map (\<lambda>p. (fst p + n, snd p)) ?hi) k = None"
      by (intro map_of_rekey_None [where f = "\<lambda>k. k + n"]) auto
    then show ?thesis using False by simp
  qed
  have "map_of (filter (\<lambda>p. \<not> i \<le> fst p) m) k = (if k < i then map_of m k else None)"
    using map_of_filter_key [of "\<lambda>k. \<not> i \<le> k" m k] by simp
  then show "map_of (shift_mapping i n m) k = row_insert i n None (map_of m) k"
    using hi assms
    by (auto simp: shift_mapping_def map_of_fold_mm_insert map_add_def row_insert_def split: option.splits)
qed

lemma row_insert_map_add: "row_insert i n None (f ++ g) = row_insert i n None f ++ row_insert i n None g"
  by (rule ext) (auto simp: row_insert_def map_add_def split: option.splits)

lemma distinct_map_injI: "inj f \<Longrightarrow> distinct xs \<Longrightarrow> distinct (map f xs)"
  by (simp add: distinct_map inj_on_def inj_def)

text \<open>
  The recorded moves are a part of the change set: every source is deleted, every destination
  inserted, and no two moves share one.  With list semantics the mapping of the row operations is
  unused.
\<close>

definition moves_ok :: "change_builder \<Rightarrow> bool" where
  "moves_ok b \<longleftrightarrow> distinct (map mv_to (moves b)) \<and> distinct (map mv_from (moves b)) \<and>
     (\<forall>m \<in> set (moves b). mv_from m \<in> indexes (deletions b) \<and> mv_to m \<in> indexes (insertions b))"

definition list_ok :: "nat \<Rightarrow> change_builder \<Rightarrow> bool" where
  "list_ok mx b \<longleftrightarrow> cb_ok mx b \<and> moves_ok b \<and> m_move_mapping b = []"

subsection \<open>insert\<close>

lemma cb_insert_correct:
  assumes ok: "cb_ok mx b" and n: "0 < n"
  shows "\<exists>b'. cb_insert mx i n True b = Some b' \<and> cb_ok mx b' \<and>
    origin b' = row_insert i n None (origin b) \<and> cols_by (row_insert i n False) b b' \<and>
    (moves_ok b \<longrightarrow> moves_ok b') \<and> (m_move_mapping b = [] \<longrightarrow> m_move_mapping b' = [])"
proof -
  obtain m cs where c: "for_each_col (is_shift_for_insert_at mx i n) b = Some (b\<lparr>modifications := m, columns := cs\<rparr>)"
    "cb_ok mx (b\<lparr>modifications := m, columns := cs\<rparr>)"
    "cols_by (row_insert i n False) b (b\<lparr>modifications := m, columns := cs\<rparr>)"
    using for_each_col_spec [OF ok, of "is_shift_for_insert_at mx i n" "row_insert i n False"]
      is_shift_for_insert_at_rows [OF _ n] by blast
  obtain ins where ins: "is_insert_at mx i n (insertions b) = Some ins" "iset_ok mx ins"
    "indexes ins = ins_shift i n (indexes (insertions b)) \<union> {i..<i + n}"
    using is_insert_at_rows [of mx "insertions b" n i] ok n by (auto simp: cb_ok_def)
  let ?up = "\<lambda>k. if i \<le> k then k + n else k"
  let ?mm = "if m_move_mapping b = [] then [] else shift_mapping i n (m_move_mapping b)"
  define b' where "b' = b\<lparr>modifications := m, columns := cs, insertions := ins,
    moves := map (\<lambda>m. if i \<le> mv_to m then m\<lparr>mv_to := mv_to m + n\<rparr> else m) (moves b), m_move_mapping := ?mm\<rparr>"
  have run: "cb_insert mx i n True b = Some b'"
    using c(1) ins(1) n by (cases b) (simp add: cb_insert_def b'_def)
  have ok': "cb_ok mx b'" using c(2) ins(2) by (simp add: cb_ok_def b'_def)
  have mv: "map (\<lambda>m. (mv_to m, mv_from m)) (moves b') =
    map (\<lambda>p. (?up (fst p), snd p)) (map (\<lambda>m. (mv_to m, mv_from m)) (moves b))"
    by (simp add: b'_def)
  have mm: "map_of (m_move_mapping b') = row_insert i n None (map_of (m_move_mapping b))"
    using map_of_shift_mapping [OF n, of i "m_move_mapping b"] by (auto simp: b'_def row_insert_def)
  have "sources b' = row_insert i n None (sources b)"
    unfolding sources_def map_of_append mv mm row_insert_map_add
      row_insert_rekey [OF refl n, of i "map (\<lambda>m. (mv_to m, mv_from m)) (moves b)"] ..
  then have "origin b' = row_insert i n None (origin b)"
    unfolding origin_orig [OF ok] origin_orig [OF ok'] using ins(3) by (simp add: b'_def orig_insert)
  moreover have "cols_by (row_insert i n False) b b'"
    by (rule cols_by_cong [THEN iffD2, OF _ _ c(3)]) (simp_all add: b'_def)
  moreover have "moves_ok b'" if "moves_ok b"
  proof -
    have t: "mv_to (if i \<le> mv_to m then m\<lparr>mv_to := mv_to m + n\<rparr> else m) = ?up (mv_to m)"
      "mv_from (if i \<le> mv_to m then m\<lparr>mv_to := mv_to m + n\<rparr> else m) = mv_from m" for m by auto
    have "map mv_to (moves b') = map ?up (map mv_to (moves b))" "map mv_from (moves b') = map mv_from (moves b)"
      by (auto simp: b'_def)
    moreover have "inj ?up" by (auto simp: inj_def)
    ultimately have "distinct (map mv_to (moves b'))" "distinct (map mv_from (moves b'))"
      using that distinct_map_injI [of ?up "map mv_to (moves b)"] by (auto simp: moves_ok_def)
    moreover have "mv_from m' \<in> indexes (deletions b) \<and> mv_to m' \<in> indexes ins" if "m' \<in> set (moves b')" for m'
      using that \<open>moves_ok b\<close> ins(3) by (auto simp: b'_def moves_ok_def t ins_shift_iff row_insert_def)
    ultimately show ?thesis by (simp add: moves_ok_def b'_def)
  qed
  moreover have "m_move_mapping b = [] \<longrightarrow> m_move_mapping b' = []" by (simp add: b'_def)
  ultimately show ?thesis using run ok' by blast
qed

subsection \<open>erase\<close>

lemma is_add_shifted_free:
  assumes "iset_ok mx v"
  shows "\<exists>v'. is_add_shifted mx i v = Some (v', free (indexes v) i) \<and> iset_ok mx v' \<and>
    indexes v' = insert (free (indexes v) i) (indexes v)"
  using is_add_shifted_correct [of mx v i] assms by (auto simp: iset_ok_def is_shift_free)

lemma finite_indexes [simp]: "finite (indexes v)"
  by (simp add: indexes_def)

lemma is_erase_or_unshift_rows:
  assumes "iset_ok mx v" "i < npos"
  shows "\<exists>v' u. is_erase_or_unshift i v = (v', u) \<and> iset_ok mx v' \<and> indexes v' = del_shift i (indexes v) \<and>
    (i \<in> indexes v \<longrightarrow> u = npos) \<and> (i \<notin> indexes v \<longrightarrow> u = unrank (indexes v) i \<and> u \<noteq> npos)"
proof -
  obtain v' u where e: "is_erase_or_unshift i v = (v', u)" by (cases "is_erase_or_unshift i v")
  have "unrank (indexes v) i \<noteq> npos" using unrank_le [of "indexes v" i] assms(2) by linarith
  then show ?thesis using e is_erase_or_unshift_correct [of mx v i] assms(1) by (auto simp: iset_ok_def)
qed

abbreviation move_pairs :: "move list \<Rightarrow> (nat \<times> nat) list" where
  "move_pairs ms \<equiv> map (\<lambda>m. (mv_to m, mv_from m)) ms"

lemma map_of_erase_moves: "map_of (move_pairs (erase_moves i ms)) = row_erase i (map_of (move_pairs ms))"
proof (induction ms)
  case Nil
  then show ?case by (auto simp: row_erase_def)
next
  case (Cons m ms)
  show ?case by (rule ext) (use Cons in \<open>auto simp: row_erase_def fun_eq_iff\<close>)
qed

lemma set_erase_moves:
  "m \<in> set (erase_moves i ms) \<Longrightarrow> \<exists>m0 \<in> set ms. mv_to m0 \<noteq> i \<and> mv_from m = mv_from m0 \<and>
     mv_to m = (if i < mv_to m0 then mv_to m0 - 1 else mv_to m0)"
  by (induction ms) (force split: if_splits)+

lemma erase_moves_distinct:
  assumes "distinct (map mv_to ms)" "distinct (map mv_from ms)"
  shows "distinct (map mv_to (erase_moves i ms))" "distinct (map mv_from (erase_moves i ms))"
proof -
  have "distinct (map mv_to (erase_moves i ms)) \<and> distinct (map mv_from (erase_moves i ms))"
    using assms
  proof (induction ms)
    case (Cons m ms)
    have "mv_from m \<notin> mv_from ` set (erase_moves i ms)"
      using Cons.prems set_erase_moves [of _ i ms] by fastforce
    moreover have "(if i < mv_to m then mv_to m - 1 else mv_to m) \<notin> mv_to ` set (erase_moves i ms)" if "mv_to m \<noteq> i"
    proof
      assume "(if i < mv_to m then mv_to m - 1 else mv_to m) \<in> mv_to ` set (erase_moves i ms)"
      then obtain x where "x \<in> set ms" "mv_to x \<noteq> i"
        "(if i < mv_to m then mv_to m - 1 else mv_to m) = (if i < mv_to x then mv_to x - 1 else mv_to x)"
        using set_erase_moves [of _ i ms] by fastforce
      moreover from this that have "mv_to m = mv_to x" by (auto split: if_splits)
      ultimately show False using Cons.prems(1) by force
    qed
    ultimately show ?case using Cons by auto
  qed simp
  then show "distinct (map mv_to (erase_moves i ms))" "distinct (map mv_from (erase_moves i ms))" by auto
qed

lemma cb_erase_correct:
  assumes l: "list_ok mx b" and i: "i < npos"
  shows "\<exists>b'. cb_erase mx i b = Some b' \<and> list_ok mx b' \<and>
    origin b' = row_erase i (origin b) \<and> cols_by (row_erase i) b b'"
proof -
  have ok: "cb_ok mx b" and mv: "moves_ok b" and mm: "m_move_mapping b = []" using l by (auto simp: list_ok_def)
  let ?D = "indexes (deletions b)" and ?I = "indexes (insertions b)"
  obtain m cs where c: "for_each_col (\<lambda>c. Some (is_erase_at i c)) b = Some (b\<lparr>modifications := m, columns := cs\<rparr>)"
    "cb_ok mx (b\<lparr>modifications := m, columns := cs\<rparr>)" "cols_by (row_erase i) b (b\<lparr>modifications := m, columns := cs\<rparr>)"
    using for_each_col_spec [OF ok, of "\<lambda>c. Some (is_erase_at i c)" "row_erase i"] is_erase_at_rows by blast
  obtain ins u where ins: "is_erase_or_unshift i (insertions b) = (ins, u)" "iset_ok mx ins"
    "indexes ins = del_shift i ?I" "i \<in> ?I \<Longrightarrow> u = npos" "i \<notin> ?I \<Longrightarrow> u = unrank ?I i \<and> u \<noteq> npos"
    using is_erase_or_unshift_rows [of mx "insertions b" i] ok i by (auto simp: cb_ok_def)
  obtain d where d: "is_add_shifted mx (unrank ?I i) (deletions b) = Some (d, free ?D (unrank ?I i))" "iset_ok mx d"
    "indexes d = insert (free ?D (unrank ?I i)) ?D"
    using is_add_shifted_free [of mx "deletions b" "unrank ?I i"] ok by (auto simp: cb_ok_def)
  define d' where "d' = (if i \<in> ?I then deletions b else d)"
  define b' where "b' = b\<lparr>modifications := m, columns := cs, insertions := ins, deletions := d',
    moves := erase_moves i (moves b)\<rparr>"
  have run: "cb_erase mx i b = Some b'"
    using c(1) ins d(1) by (auto simp: cb_erase_def b'_def d'_def)
  have ok': "cb_ok mx b'" using c(2) ins(2) d(2) by (auto simp: cb_ok_def b'_def d'_def)
  have src: "sources b' = row_erase i (sources b)"
    using mm by (simp add: sources_def b'_def map_of_erase_moves)
  have "origin b' = row_erase i (origin b)"
    unfolding origin_orig [OF ok] origin_orig [OF ok'] src
    using orig_erase [of i ?I ?D "sources b"] orig_erase_row [of ?D i ?I "sources b"] ins(3) d(3)
    by (auto simp: b'_def d'_def)
  moreover have "cols_by (row_erase i) b b'"
    by (rule cols_by_cong [THEN iffD2, OF _ _ c(3)]) (simp_all add: b'_def)
  moreover have "moves_ok b'"
    unfolding moves_ok_def
  proof (intro conjI ballI)
    show "distinct (map mv_to (moves b'))" "distinct (map mv_from (moves b'))"
      using mv erase_moves_distinct [of "moves b" i] by (auto simp: b'_def moves_ok_def)
    fix m' assume "m' \<in> set (moves b')"
    then obtain m0 where "m0 \<in> set (moves b)" "mv_to m0 \<noteq> i" "mv_from m' = mv_from m0"
      "mv_to m' = (if i < mv_to m0 then mv_to m0 - 1 else mv_to m0)"
      using set_erase_moves [of m' i "moves b"] by (auto simp: b'_def)
    then show "mv_from m' \<in> indexes (deletions b')" "mv_to m' \<in> indexes (insertions b')"
      using mv ins(3) d(3) by (auto simp: b'_def d'_def moves_ok_def del_shift_iff row_erase_def)
  qed
  ultimately show ?thesis using run ok' mm by (auto simp: list_ok_def b'_def)
qed

subsection \<open>move\<close>

text \<open>Where a row goes when the row at \<open>from\<close> is moved to \<open>to\<close>.\<close>

definition new_pos :: "nat \<Rightarrow> nat \<Rightarrow> nat \<Rightarrow> nat" where
  "new_pos from to k =
     (if k = from then to else if to \<le> k \<and> k < from then k + 1
      else if k \<le> to \<and> from < k then k - 1 else k)"

definition old_pos :: "nat \<Rightarrow> nat \<Rightarrow> nat \<Rightarrow> nat" where
  "old_pos from to k = row_move from to (\<lambda>k. k) k"

lemma row_move_old_pos: "row_move from to f k = f (old_pos from to k)"
  by (simp add: old_pos_def row_move_def row_insert_def row_erase_def)

lemma new_old_pos [simp]: "new_pos from to (old_pos from to k) = k" "old_pos from to (new_pos from to k) = k"
  by (auto simp: new_pos_def old_pos_def row_move_def row_insert_def row_erase_def)

lemma inj_new_pos: "inj (new_pos from to)"
  by (metis injI new_old_pos(2))

definition retarget :: "nat \<Rightarrow> nat \<Rightarrow> move list \<Rightarrow> move list" where
  "retarget from to ms = map (\<lambda>m. m\<lparr>mv_to := new_pos from to (mv_to m)\<rparr>) ms"

lemma retarget_facts:
  "map mv_to (retarget from to ms) = map (new_pos from to) (map mv_to ms)"
  "map mv_from (retarget from to ms) = map mv_from ms"
  "map_of (move_pairs (retarget from to ms)) = row_move from to (map_of (move_pairs ms))"
proof -
  show "map mv_to (retarget from to ms) = map (new_pos from to) (map mv_to ms)"
    "map mv_from (retarget from to ms) = map mv_from ms" by (simp_all add: retarget_def)
  show "map_of (move_pairs (retarget from to ms)) = row_move from to (map_of (move_pairs ms))"
  proof
    fix k
    have "move_pairs (retarget from to ms) = map (\<lambda>p. (new_pos from to (fst p), snd p)) (move_pairs ms)"
      by (simp add: retarget_def)
    then show "map_of (move_pairs (retarget from to ms)) k = row_move from to (map_of (move_pairs ms)) k"
      using map_of_rekey [OF inj_new_pos, of "from" to "move_pairs ms" "old_pos from to k"]
      by (simp add: row_move_old_pos)
  qed
qed

lemma shift_other_move:
  "mv_to m \<noteq> from \<Longrightarrow>
   (if to \<le> mv_to m \<and> mv_to m < from then m\<lparr>mv_to := mv_to m + 1\<rparr>
    else if mv_to m \<le> to \<and> from < mv_to m then m\<lparr>mv_to := mv_to m - 1\<rparr> else m) =
   m\<lparr>mv_to := new_pos from to (mv_to m)\<rparr>"
  by (simp add: new_pos_def)

lemma move_loop_none:
  "from \<notin> mv_to ` set ms \<Longrightarrow> move_loop mx from to ms u ins = Some (retarget from to ms, u, ins)"
proof (induction ms)
  case (Cons m ms)
  then have "mv_to m \<noteq> from" by auto
  from shift_other_move [OF this, of to] show ?case
    using Cons by (simp add: Let_def retarget_def)
qed (simp add: retarget_def)

lemma move_loop_some:
  assumes "from \<in> mv_to ` set ms" "distinct (map mv_to ms)" "is_insert_at mx to 1 (is_erase_at from ins) = Some ins'"
  shows "move_loop mx from to ms False ins = Some (retarget from to ms, True, ins')"
  using assms(1,2)
proof (induction ms)
  case (Cons m ms)
  show ?case
  proof (cases "mv_to m = from")
    case True
    then have "from \<notin> mv_to ` set ms" using Cons.prems(2) by auto
    then show ?thesis using True assms(3)
      by (simp add: move_loop_none) (simp add: retarget_def new_pos_def)
  next
    case False
    from shift_other_move [OF this, of to] show ?thesis
      using False Cons by (simp add: Let_def retarget_def)
  qed
qed simp

lemma move_col_rows:
  "iset_ok mx v \<Longrightarrow> \<exists>v'. move_col mx from to v = Some v' \<and> iset_ok mx v' \<and>
     (\<lambda>k. k \<in> indexes v') = row_move from to (\<lambda>k. k \<in> indexes v)"
  unfolding move_col_def by (rule ixs.relocate)

lemma move_insertions:
  assumes "iset_ok mx v" "iset_ok mx v1" "indexes v1 = del_shift from (indexes v)"
  shows "\<exists>v'. is_insert_at mx to 1 v1 = Some v' \<and> iset_ok mx v' \<and>
    indexes v' = ins_shift to 1 (del_shift from (indexes v)) \<union> {to..<to + 1}"
  using is_insert_at_rows [of mx v1 1 to] assms by auto

lemma moved_insertion_iff:
  "k \<in> ins_shift to 1 (del_shift from I) \<union> {to..<to + 1} \<longleftrightarrow> k = to \<or> old_pos from to k \<in> I"
  by (auto simp: ins_shift_iff row_insert_def del_shift_iff row_erase_def old_pos_def row_move_def)

text \<open>The part of \<open>move\<close> before the columns: both ways of updating the recorded moves.\<close>

lemma move_row_inserted:
  assumes l: "list_ok mx b" and ft: "from < npos" "from \<in> indexes (insertions b)"
  shows "\<exists>ins. move_row mx from to b = Some (b\<lparr>insertions := ins, moves := retarget from to (moves b)\<rparr>) \<and>
    iset_ok mx ins \<and> indexes ins = ins_shift to 1 (del_shift from (indexes (insertions b))) \<union> {to..<to + 1}"
proof -
  have mv: "moves_ok b" and iok: "iset_ok mx (insertions b)" using l by (auto simp: list_ok_def cb_ok_def)
  let ?I = "indexes (insertions b)"
  show ?thesis
  proof (cases "from \<in> mv_to ` set (moves b)")
    case True
    have e: "iset_ok mx (is_erase_at from (insertions b))" "indexes (is_erase_at from (insertions b)) = del_shift from ?I"
      using is_erase_at_correct [of mx "insertions b" "from"] iok by (auto simp: iset_ok_def)
    obtain ins where ins: "is_insert_at mx to 1 (is_erase_at from (insertions b)) = Some ins" "iset_ok mx ins"
      "indexes ins = ins_shift to 1 (del_shift from ?I) \<union> {to..<to + 1}"
      using move_insertions [OF iok e] by blast
    have "move_loop mx from to (moves b) False (insertions b) = Some (retarget from to (moves b), True, ins)"
      using True mv ins(1) by (intro move_loop_some) (auto simp: moves_ok_def)
    then have "move_row mx from to b = Some (b\<lparr>insertions := ins, moves := retarget from to (moves b)\<rparr>)"
      by (simp add: move_row_def)
    then show ?thesis using ins(2,3) by blast
  next
    case False
    note ml = move_loop_none [OF False, of mx to False "insertions b"]
    obtain ins1 where u: "is_erase_or_unshift from (insertions b) = (ins1, npos)" "iset_ok mx ins1"
      "indexes ins1 = del_shift from ?I"
      using is_erase_or_unshift_rows [OF iok ft(1)] ft(2) by blast
    obtain ins where ins: "is_insert_at mx to 1 ins1 = Some ins" "iset_ok mx ins"
      "indexes ins = ins_shift to 1 (del_shift from ?I) \<union> {to..<to + 1}"
      using move_insertions [OF iok u(2,3)] by blast
    have "move_row mx from to b = Some (b\<lparr>insertions := ins, moves := retarget from to (moves b)\<rparr>)"
      using ml u(1) ins(1) by (cases b) (simp add: move_row_def)
    then show ?thesis using ins(2,3) by blast
  qed
qed

lemma move_row_new:
  assumes l: "list_ok mx b" and ft: "from < npos" "from \<notin> indexes (insertions b)"
    and x: "x = free (indexes (deletions b)) (unrank (indexes (insertions b)) from)"
  shows "\<exists>ins d. move_row mx from to b = Some (b\<lparr>deletions := d, insertions := ins,
      moves := retarget from to (moves b) @ [\<lparr>mv_from = x, mv_to = to\<rparr>]\<rparr>) \<and>
    iset_ok mx ins \<and> indexes ins = ins_shift to 1 (del_shift from (indexes (insertions b))) \<union> {to..<to + 1} \<and>
    iset_ok mx d \<and> indexes d = insert x (indexes (deletions b))"
proof -
  have mv: "moves_ok b" and iok: "iset_ok mx (insertions b)" "iset_ok mx (deletions b)"
    using l by (auto simp: list_ok_def cb_ok_def)
  let ?I = "indexes (insertions b)" and ?D = "indexes (deletions b)"
  have "from \<notin> mv_to ` set (moves b)" using mv ft(2) by (auto simp: moves_ok_def)
  note ml = move_loop_none [OF this, of mx to False "insertions b"]
  obtain ins1 where u: "is_erase_or_unshift from (insertions b) = (ins1, unrank ?I from)" "iset_ok mx ins1"
    "indexes ins1 = del_shift from ?I" "unrank ?I from \<noteq> npos"
    using is_erase_or_unshift_rows [OF iok(1) ft(1)] ft(2) by blast
  obtain ins where ins: "is_insert_at mx to 1 ins1 = Some ins" "iset_ok mx ins"
    "indexes ins = ins_shift to 1 (del_shift from ?I) \<union> {to..<to + 1}"
    using move_insertions [OF iok(1) u(2,3)] by blast
  obtain d where d: "is_add_shifted mx (unrank ?I from) (deletions b) = Some (d, x)" "iset_ok mx d"
    "indexes d = insert x ?D"
    using is_add_shifted_free [OF iok(2)] x by blast
  have "move_row mx from to b = Some (b\<lparr>deletions := d, insertions := ins,
      moves := retarget from to (moves b) @ [\<lparr>mv_from = x, mv_to = to\<rparr>]\<rparr>)"
    using ml u(1,4) ins(1) d(1) by (cases b) (simp add: move_row_def)
  then show ?thesis using ins d by blast
qed

lemma retarget_moves_ok:
  assumes "moves_ok b" "indexes ins = ins_shift to 1 (del_shift from (indexes (insertions b))) \<union> {to..<to + 1}"
  shows "distinct (map mv_to (retarget from to (moves b)))" "distinct (map mv_from (retarget from to (moves b)))"
    "\<forall>m \<in> set (retarget from to (moves b)). mv_from m \<in> indexes (deletions b) \<and> mv_to m \<in> indexes ins"
proof -
  show "distinct (map mv_to (retarget from to (moves b)))" "distinct (map mv_from (retarget from to (moves b)))"
    using assms distinct_map_injI [OF inj_new_pos, of "map mv_to (moves b)" "from" to]
    by (auto simp: moves_ok_def retarget_facts(1,2))
  have "new_pos from to t \<in> indexes ins" if "t \<in> indexes (insertions b)" for t
    unfolding assms(2) moved_insertion_iff using that by simp
  then show "\<forall>m \<in> set (retarget from to (moves b)). mv_from m \<in> indexes (deletions b) \<and> mv_to m \<in> indexes ins"
    using assms(1) by (auto simp: retarget_def moves_ok_def)
qed

lemma move_row_correct:
  assumes l: "list_ok mx b" and ft: "from < npos"
  shows "\<exists>b'. move_row mx from to b = Some b' \<and> list_ok mx b' \<and> origin b' = row_move from to (origin b) \<and>
    modifications b' = modifications b \<and> columns b' = columns b \<and> m_track_columns b' = m_track_columns b"
proof -
  have ok: "cb_ok mx b" and mv: "moves_ok b" and mm: "m_move_mapping b = []" using l by (auto simp: list_ok_def)
  let ?D = "indexes (deletions b)" and ?I = "indexes (insertions b)"
  show ?thesis
  proof (cases "from \<in> ?I")
    case True
    obtain ins where i: "move_row mx from to b = Some (b\<lparr>insertions := ins, moves := retarget from to (moves b)\<rparr>)"
      "iset_ok mx ins" "indexes ins = ins_shift to 1 (del_shift from ?I) \<union> {to..<to + 1}"
      using move_row_inserted [OF l ft True] by blast
    let ?b = "b\<lparr>insertions := ins, moves := retarget from to (moves b)\<rparr>"
    have ok': "cb_ok mx ?b" using ok i(2) by (simp add: cb_ok_def)
    have src: "sources ?b = row_move from to (sources b)" using mm by (simp add: sources_def retarget_facts)
    have "origin ?b = row_move from to (origin b)"
      unfolding origin_orig [OF ok] origin_orig [OF ok'] src using orig_move [OF True] i(3) by simp
    moreover have "moves_ok ?b" using retarget_moves_ok [OF mv i(3)] by (simp add: moves_ok_def)
    ultimately show ?thesis using i(1) ok' mm by (simp add: list_ok_def)
  next
    case False
    let ?x = "free ?D (unrank ?I from)"
    let ?ms = "retarget from to (moves b) @ [\<lparr>mv_from = ?x, mv_to = to\<rparr>]"
    obtain ins d where i: "move_row mx from to b = Some (b\<lparr>deletions := d, insertions := ins, moves := ?ms\<rparr>)"
      "iset_ok mx ins" "indexes ins = ins_shift to 1 (del_shift from ?I) \<union> {to..<to + 1}"
      "iset_ok mx d" "indexes d = insert ?x ?D"
      using move_row_new [OF l ft False refl] by blast
    let ?b = "b\<lparr>deletions := d, insertions := ins, moves := ?ms\<rparr>"
    have ok': "cb_ok mx ?b" using ok i(2,4) by (simp add: cb_ok_def)
    have "sources b from = None" using mv mm False by (auto simp: sources_def moves_ok_def map_of_eq_None_iff)
    then have src: "sources ?b = (row_move from to (sources b))(to := Some ?x)"
      using mm by (auto simp: sources_def map_add_def retarget_facts(3) row_move_def row_insert_def fun_eq_iff
        split: option.splits)
    have "origin ?b = row_move from to (origin b)"
      unfolding origin_orig [OF ok] origin_orig [OF ok'] src
      using orig_move_row [of ?D "from" ?I ?x to "sources b"] i(3,5) False by simp
    moreover have "moves_ok ?b"
    proof -
      have "?x \<notin> ?D" using free_props by auto
      moreover have "to \<notin> mv_to ` set (retarget from to (moves b))"
      proof
        assume "to \<in> mv_to ` set (retarget from to (moves b))"
        then have "to \<in> (\<lambda>m. new_pos from to (mv_to m)) ` set (moves b)" by (simp add: retarget_def image_image)
        then obtain m where "m \<in> set (moves b)" "new_pos from to (mv_to m) = to" by auto
        then have "mv_to m = from" by (metis inj_new_pos inj_eq new_pos_def)
        then show False using \<open>m \<in> set (moves b)\<close> mv False by (auto simp: moves_ok_def)
      qed
      ultimately show ?thesis using retarget_moves_ok [OF mv i(3)] i(3,5) by (auto simp: moves_ok_def)
    qed
    ultimately show ?thesis using i(1) ok' mm by (simp add: list_ok_def)
  qed
qed

lemma cb_move_correct:
  assumes l: "list_ok mx b" and ft: "from < npos" "from \<noteq> to"
  shows "\<exists>b'. cb_move mx from to b = Some b' \<and> list_ok mx b' \<and>
    origin b' = row_move from to (origin b) \<and> cols_by (row_move from to) b b'"
proof -
  obtain b1 where b1: "move_row mx from to b = Some b1" "list_ok mx b1" "origin b1 = row_move from to (origin b)"
    "modifications b1 = modifications b" "columns b1 = columns b" "m_track_columns b1 = m_track_columns b"
    using move_row_correct [OF l ft(1)] by blast
  then have ok1: "cb_ok mx b1" by (simp add: list_ok_def)
  obtain m cs where c: "for_each_col (move_col mx from to) b1 = Some (b1\<lparr>modifications := m, columns := cs\<rparr>)"
    "cb_ok mx (b1\<lparr>modifications := m, columns := cs\<rparr>)"
    "cols_by (row_move from to) b1 (b1\<lparr>modifications := m, columns := cs\<rparr>)"
    using for_each_col_spec [OF ok1, of "move_col mx from to" "row_move from to"] move_col_rows by blast
  let ?b = "b1\<lparr>modifications := m, columns := cs\<rparr>"
  have "cols_by (row_move from to) b ?b"
    using c(3) cols_by_cong_source [OF b1(4,5,6)] by simp
  moreover have "origin ?b = origin b1" by (rule origin_cong) simp_all
  moreover have "list_ok mx ?b" using b1(2) c(2) by (simp add: list_ok_def moves_ok_def)
  ultimately show ?thesis using b1(1,3) c(1) ft(2) by (auto simp: cb_move_def)
qed

subsection \<open>modify, clear and finalize\<close>

lemma iset_ok_Nil: "max_size_ok mx \<Longrightarrow> iset_ok mx []"
  by (simp add: iset_ok_def)

lemma cb_modify_correct:
  assumes ok: "cb_ok mx b"
  shows "\<exists>b'. cb_modify mx ndx col b = Some b' \<and> cb_ok mx b' \<and> origin b' = origin b \<and>
    modified b' = (modified b)(ndx := True) \<and>
    col_modified b' = (if m_track_columns b \<and> col \<noteq> npos
      then (col_modified b)(col := (col_modified b col)(ndx := True)) else col_modified b) \<and>
    moves b' = moves b \<and> m_move_mapping b' = m_move_mapping b"
proof -
  obtain m where m: "is_add mx ndx (modifications b) = Some m" "iset_ok mx m"
    "indexes m = insert ndx (indexes (modifications b))"
    using ixs.add [of mx "modifications b" ndx] ok by (auto simp: cb_ok_def)
  show ?thesis
  proof (cases "m_track_columns b \<and> col \<noteq> npos")
    case False
    let ?b = "b\<lparr>modifications := m\<rparr>"
    have ok': "cb_ok mx ?b" using ok m by (simp add: cb_ok_def)
    have "modified ?b = (modified b)(ndx := True)"
      unfolding modified_iff [OF ok] modified_iff [OF ok'] using m(3) by (auto simp: fun_eq_iff)
    moreover have "origin ?b = origin b" by (rule origin_cong) simp_all
    moreover have "col_modified ?b = col_modified b" by (simp add: col_modified_def [abs_def])
    moreover have "cb_modify mx ndx col b = Some ?b" using False m(1) by (auto simp: cb_modify_def)
    ultimately show ?thesis using False ok' by auto
  next
    case True
    define cols where "cols = (if length (columns b) \<le> col then resize [] (col + 1) (columns b) else columns b)"
    have mx: "max_size_ok mx" using ok by (simp add: cb_ok_def iset_ok_def)
    have cols: "col < length cols" "\<forall>c \<in> set cols. iset_ok mx c"
      using ok iset_ok_Nil [OF mx] by (auto simp: cols_def resize_def cb_ok_def dest: in_set_takeD)
    have old: "col_modified b c k \<longleftrightarrow> c < length cols \<and> k \<in> indexes (cols ! c)" for c k
      using col_modified_iff [OF ok, of c]
      by (cases "c < length (columns b)") (auto simp: cols_def resize_def nth_append col_modified_def nth_replicate)
    obtain c where c: "is_add mx ndx (cols ! col) = Some c" "iset_ok mx c"
      "indexes c = insert ndx (indexes (cols ! col))"
      using ixs.add [of mx "cols ! col" ndx] cols by auto
    let ?b = "b\<lparr>modifications := m, columns := cols[col := c]\<rparr>"
    have "set (cols[col := c]) \<subseteq> insert c (set cols)" by (rule set_update_subset_insert)
    then have ok': "cb_ok mx ?b" using ok m(2) c(2) cols(2) by (auto simp: cb_ok_def)
    have "modified ?b = (modified b)(ndx := True)"
      unfolding modified_iff [OF ok] modified_iff [OF ok'] using m(3) by (auto simp: fun_eq_iff)
    moreover have "col_modified ?b = (col_modified b)(col := (col_modified b col)(ndx := True))"
    proof (intro ext)
      fix a k
      have "col_modified ?b a k \<longleftrightarrow> a < length cols \<and> k \<in> indexes (cols[col := c] ! a)"
        using col_modified_iff [OF ok', of a, THEN fun_cong, of k]
        by (cases "a < length cols") (simp_all add: col_modified_def)
      then show "col_modified ?b a k = ((col_modified b)(col := (col_modified b col)(ndx := True))) a k"
        using cols(1) c(3) by (auto simp: old nth_list_update)
    qed
    moreover have "cb_modify mx ndx col b = Some ?b" using True m(1) c(1) by (cases "length (columns b) \<le> col") (simp_all add: cb_modify_def Let_def cols_def)
    moreover have "origin ?b = origin b" by (rule origin_cong) simp_all
    ultimately show ?thesis using ok' True by auto
  qed
qed

lemma rcount_indexes: "iset_ok mx v \<Longrightarrow> rcount (flat v) = card (indexes v)"
  by (simp add: iset_ok_def index_set_ok_def indexes_def rcount_eq_card)

lemma cb_clear_correct:
  assumes ok: "cb_ok mx b"
    and size: "old_size \<noteq> npos" "card (indexes (insertions b)) \<le> old_size + card (indexes (deletions b))"
  shows "\<exists>b'. cb_clear mx old_size b = Some b' \<and> list_ok mx b' \<and> moves b' = [] \<and> columns b' = [] \<and>
    indexes (deletions b') = {..<old_size + card (indexes (deletions b)) - card (indexes (insertions b))} \<and>
    indexes (insertions b') = {} \<and> indexes (modifications b') = {}"
proof -
  let ?n = "old_size + card (indexes (deletions b)) - card (indexes (insertions b))"
  have mx: "max_size_ok mx" using ok by (simp add: cb_ok_def iset_ok_def)
  obtain d where d: "is_set mx ?n (deletions b) = Some d" "index_set_ok mx d" "indexes d = {..<?n}"
    using is_set_correct [OF mx, of ?n "deletions b"] by blast
  have "rcount (flat (deletions b)) = card (indexes (deletions b))"
    "rcount (flat (insertions b)) = card (indexes (insertions b))"
    using ok rcount_indexes by (auto simp: cb_ok_def)
  then show ?thesis using d size mx
    by (auto simp: cb_clear_def is_clear_def list_ok_def cb_ok_def moves_ok_def iset_ok_def)
qed

text \<open>
  \<open>finalize\<close>: the modified rows that are not insertions, once by their new and once by their old
  positions.  The two sets have the same size, as the header promises.
\<close>

lemma cb_finalize_correct:
  assumes ok: "cb_ok mx b"
  shows "\<exists>c. cb_finalize mx b = Some c \<and> iset_ok mx (modifications c) \<and> iset_ok mx (modifications_new c) \<and>
    indexes (modifications_new c) = {k. modified b k \<and> k \<notin> indexes (insertions b)} \<and>
    indexes (modifications c) = (the \<circ> origin b) ` {k. modified b k \<and> k \<notin> indexes (insertions b)} \<and>
    card (indexes (modifications c)) = card (indexes (modifications_new c)) \<and>
    deletions c = deletions b \<and> insertions c = insertions b \<and> moves c = moves b \<and> columns c = columns b"
proof -
  let ?D = "indexes (deletions b)" and ?I = "indexes (insertions b)" and ?M = "indexes (modifications b)"
  have k: "index_set_ok mx (deletions b)" "index_set_ok mx (insertions b)" "index_set_ok mx (modifications b)"
    "max_size_ok mx" using ok by (auto simp: cb_ok_def iset_ok_def)
  let ?e = "is_erase_at_set mx (insertions b) (modifications b)"
  note e = is_erase_at_set_correct [OF k(4) k(3) k(2)]
  note s = is_shift_for_insert_at_set_correct [OF k(4) e(1) k(1)]
  obtain m where m: "is_remove_set mx (insertions b) (modifications b) = Some m" "index_set_ok mx m"
    "indexes m = ?M - ?I" using is_remove_set_correct [OF k(3) k(2) k(4)] by blast
  have o: "the (origin b x) = free ?D (unrank ?I x)" if "x \<notin> ?I" for x
    using that by (simp add: origin_orig [OF ok] orig_def)
  have "moved ?D (unrank ?I ` (?M - ?I)) = (\<lambda>x. free ?D (unrank ?I x)) ` (?M - ?I)"
  proof -
    have "y \<in> moved ?D T \<longleftrightarrow> y \<in> free ?D ` T" for y T
      using free_props [of ?D] by (force simp: moved_def image_iff)
    then show ?thesis by (auto simp: image_image)
  qed
  also have "\<dots> = (the \<circ> origin b) ` (?M - ?I)" using o by (auto simp: image_iff)
  finally have old: "moved ?D (unrank ?I ` (?M - ?I)) = (the \<circ> origin b) ` (?M - ?I)" .
  have "inj_on (the \<circ> origin b) (?M - ?I)"
  proof (rule inj_onI)
    fix x y assume xy: "x \<in> ?M - ?I" "y \<in> ?M - ?I" "(the \<circ> origin b) x = (the \<circ> origin b) y"
    then have "unrank ?I x = unrank ?I y" using o free_props [of ?D] by (metis DiffD2 comp_apply finite_indexes)
    then show "x = y" using xy unrank_inj by blast
  qed
  then have card: "card ((the \<circ> origin b) ` (?M - ?I)) = card (?M - ?I)" by (rule card_image)
  have M: "{k. modified b k \<and> k \<notin> ?I} = ?M - ?I" using modified_iff [OF ok] by auto
  show ?thesis unfolding M using m s old card e(2) k(4) by (simp add: cb_finalize_def iset_ok_def)
qed

end
