(* ===== verification/Change_Rows.thy ===== *)
theory Change_Rows
  imports Change_Lists
begin

text \<open>
  The builder with row semantics (\<open>move_over\<close>, \<open>swap\<close>, \<open>subsume\<close>, insertion at the end,
  \<open>parse_complete\<close>), as the transaction log parser uses it for tables: a row that is not an
  insertion never changes its number, deleting a row moves the last row into its place.

  \<open>shape N n D I\<close> is what the deletions and insertions of a table that had \<open>N\<close> rows and now has
  \<open>n\<close> look like; \<open>row_ok\<close> adds the recorded moves.
\<close>

definition shape :: "nat \<Rightarrow> nat \<Rightarrow> nat set \<Rightarrow> nat set \<Rightarrow> bool" where
  "shape N n D I \<longleftrightarrow> I = {k. k < n \<and> (N \<le> k \<or> k \<in> D)} \<and> D \<subseteq> {..<N} \<and> {n..<N} \<subseteq> D"

lemma shape_free:
  assumes "shape N n D I" "finite D" "k < n" "k \<notin> I"
  shows "k \<notin> D" "k < N" "free D (unrank I k) = k"
proof -
  show k: "k \<notin> D" "k < N" using assms by (auto simp: shape_def)
  have "I \<inter> {..<k} = D \<inter> {..<k}" using assms(1,3) k by (auto simp: shape_def)
  then have "unrank I k = unrank D k" by (simp add: unrank_eq)
  then show "free D (unrank I k) = k" using k assms(2) by simp
qed

lemma shape_mark:
  assumes "shape N n D I" "k < n" "k \<notin> I"
  shows "shape N n (insert k D) (insert k I)"
  using assms by (auto simp: shape_def)

lemma shape_drop:
  assumes "shape N (Suc l) D I"
  shows "l \<in> I \<Longrightarrow> shape N l D (I - {l})" "l \<notin> I \<Longrightarrow> shape N l (insert l D) I"
proof -
  have "{l..<N} \<subseteq> insert l {Suc l..<N}" by auto
  then show "l \<in> I \<Longrightarrow> shape N l D (I - {l})" "l \<notin> I \<Longrightarrow> shape N l (insert l D) I"
    using assms by (auto simp: shape_def less_Suc_eq)
qed

lemma shape_grow: "shape N n D I \<Longrightarrow> shape N (n + c) D (I \<union> {n..<n + c})"
  by (auto simp: shape_def) (meson atLeastLessThan_iff leI subsetD)+

text \<open>\<open>pending\<close>: sources already recorded whose deletion follows in the next operation.\<close>

definition row_ok :: "nat \<Rightarrow> nat \<Rightarrow> nat \<Rightarrow> nat set \<Rightarrow> change_builder \<Rightarrow> bool" where
  "row_ok mx N n pending b \<longleftrightarrow> cb_ok mx b \<and> moves b = [] \<and> distinct (map fst (m_move_mapping b)) \<and>
     shape N n (indexes (deletions b)) (indexes (insertions b)) \<and>
     dom (map_of (m_move_mapping b)) \<subseteq> indexes (insertions b) \<and>
     ran (map_of (m_move_mapping b)) \<subseteq> indexes (deletions b) \<union> pending \<and>
     inj_on (map_of (m_move_mapping b)) (dom (map_of (m_move_mapping b))) \<and>
     indexes (modifications b) \<subseteq> {..<n} \<and> pending \<inter> indexes (insertions b) = {}"

lemma row_origin:
  assumes "row_ok mx N n P b" "k < n"
  shows "origin b k = (if k \<in> indexes (insertions b) then map_of (m_move_mapping b) k else Some k)"
proof -
  have "cb_ok mx b" and s: "shape N n (indexes (deletions b)) (indexes (insertions b))"
    using assms by (auto simp: row_ok_def)
  then show ?thesis using shape_free [OF s _ assms(2)] assms(1)
    by (simp add: origin_orig orig_def sources_def row_ok_def)
qed

lemma last_second_bounds:
  assumes "iset_ok mx v" "v \<noteq> []"
  shows "last_second v - 1 \<in> indexes v" "\<forall>x \<in> indexes v. x < last_second v" "0 < last_second v"
proof -
  have ok: "crv_ok mx v" "ranges_ok (flat v)" using assms(1) by (auto simp: iset_ok_def index_set_ok_def)
  have c: "c_data (last v) \<noteq> []" using ok(1) assms(2) chunk_ok_nonempty by (auto simp: crv_ok_def)
  have e: "flat v = flat (butlast v) @ c_data (last v)" using assms(2) by (cases v rule: rev_cases) auto
  have "last_second v = snd (last (c_data (last v)))"
    using assms(2) c
    by (simp add: last_second_def it_prev_def it_end_def it_deref_def last_conv_nth)
  then have l: "last_second v = snd (last (flat v))" "flat v \<noteq> []" using e c by auto
  obtain ws z where z: "flat v = ws @ [z]" using l(2) by (cases "flat v" rule: rev_cases) auto
  have z': "fst z < snd z" "\<forall>w \<in> set ws. snd w < fst z" using ok(2) z by (auto simp: ranges_ok_append)
  have "\<forall>w \<in> set (flat v). snd w \<le> snd z"
  proof
    fix w assume "w \<in> set (flat v)"
    then show "snd w \<le> snd z" using z z' by (cases "w = z") (auto dest!: bspec [of _ _ w])
  qed
  then have "\<forall>x \<in> indexes v. x < snd z" unfolding indexes_def by (metis rset_iff less_le_trans)
  then show "last_second v - 1 \<in> indexes v" "\<forall>x \<in> indexes v. x < last_second v" "0 < last_second v"
    using l z z' by (auto simp: indexes_def)
qed

lemma last_is_member:
  assumes "iset_ok mx v" "indexes v \<subseteq> {..<Suc l}"
  shows "v \<noteq> [] \<and> last_second v = l + 1 \<longleftrightarrow> l \<in> indexes v" "v = [] \<or> last_second v - 1 \<le> l"
proof -
  show le: "v = [] \<or> last_second v - 1 \<le> l"
    using last_second_bounds [OF assms(1)] assms(2) by fastforce
  show "v \<noteq> [] \<and> last_second v = l + 1 \<longleftrightarrow> l \<in> indexes v"
  proof (cases "v = []")
    case False
    note b = last_second_bounds [OF assms(1) False]
    have "l < last_second v" if "l \<in> indexes v" using that b(2) by blast
    then show ?thesis using False le b(1,3) by auto
  qed simp
qed

subsection \<open>Marking rows\<close>

lemma row_shift_facts:
  assumes ok: "cb_ok mx b" and s: "shape N n (indexes (deletions b)) (indexes (insertions b))"
    and k: "k < n" "k \<notin> indexes (insertions b)"
  shows "\<exists>d. is_add_shifted mx (is_unshift k (insertions b)) (deletions b) = Some (d, k) \<and> iset_ok mx d \<and>
    indexes d = insert k (indexes (deletions b))"
proof -
  have "is_unshift k (insertions b) = unrank (indexes (insertions b)) k"
    using ok is_unshift_correct by (auto simp: cb_ok_def iset_ok_def)
  then show ?thesis
    using is_add_shifted_free [of mx "deletions b" "unrank (indexes (insertions b)) k"] ok
      shape_free(3) [OF s _ k] by (simp add: cb_ok_def)
qed

lemma add_move_correct:
  assumes ok: "cb_ok mx b" and s: "shape N n (indexes (deletions b)) (indexes (insertions b))" and k: "k < n"
  shows "\<exists>d i mm. add_move mx k t b = Some (b\<lparr>deletions := d, insertions := i, m_move_mapping := mm\<rparr>) \<and>
    iset_ok mx d \<and> iset_ok mx i \<and> indexes i = insert k (indexes (insertions b)) \<and>
    shape N n (indexes d) (indexes i) \<and>
    (distinct (map fst (m_move_mapping b)) \<longrightarrow> distinct (map fst mm)) \<and>
    (if k \<in> indexes (insertions b) then indexes d = indexes (deletions b) \<and> mm = m_move_mapping b
     else k \<notin> indexes (deletions b) \<and> indexes d = insert k (indexes (deletions b)) \<and>
       map_of mm = (map_of (m_move_mapping b))(t \<mapsto> k))"
proof (cases "k \<in> indexes (insertions b)")
  case True
  then have "add_move mx k t b = Some b" using ok ixs.contains [of mx "insertions b" k]
    by (simp add: add_move_def cb_ok_def)
  then show ?thesis using True ok s
    by (intro exI [of _ "deletions b"] exI [of _ "insertions b"] exI [of _ "m_move_mapping b"])
      (auto simp: cb_ok_def insert_absorb)
next
  case False
  obtain d where d: "is_add_shifted mx (is_unshift k (insertions b)) (deletions b) = Some (d, k)" "iset_ok mx d"
    "indexes d = insert k (indexes (deletions b))" using row_shift_facts [OF ok s k False] by blast
  obtain i where i: "is_add mx k (insertions b) = Some i" "iset_ok mx i" "indexes i = insert k (indexes (insertions b))"
    using ixs.add [of mx "insertions b" k] ok by (auto simp: cb_ok_def)
  have "add_move mx k t b = Some (b\<lparr>deletions := d, insertions := i,
    m_move_mapping := AList.update t k (m_move_mapping b)\<rparr>)"
    using False ok d(1) i(1) ixs.contains [of mx "insertions b" k] by (simp add: add_move_def cb_ok_def)
  then show ?thesis using d i False shape_mark [OF s k False] shape_free(1) [OF s _ k False]
    by (intro exI [of _ d] exI [of _ i] exI [of _ "AList.update t k (m_move_mapping b)"])
      (auto simp: update_conv' distinct_update)
qed

lemma row_okI:
  assumes "cb_ok mx b" "moves b = []" "distinct (map fst (m_move_mapping b))"
    "shape N n (indexes (deletions b)) (indexes (insertions b))"
    "map_of (m_move_mapping b) = src" "dom src \<subseteq> indexes (insertions b)"
    "ran src \<subseteq> indexes (deletions b) \<union> pending" "inj_on src (dom src)" "indexes (modifications b) \<subseteq> {..<n}"
    "pending \<inter> indexes (insertions b) = {}"
  shows "row_ok mx N n pending b"
  using assms by (simp add: row_ok_def)

subsection \<open>swap\<close>

lemma inj_on_map_iff: "inj_on m (dom m) \<longleftrightarrow> (\<forall>x y v. m x = Some v \<longrightarrow> m y = Some v \<longrightarrow> x = y)"
  by (auto simp: inj_on_def dom_def)

text \<open>The effect of \<open>swap\<close> on the two sets and the mapping; it is symmetric in the two rows.\<close>

definition swap_post :: "nat \<Rightarrow> nat \<Rightarrow> nat \<Rightarrow> change_builder \<Rightarrow> nat \<Rightarrow> nat \<Rightarrow> change_builder option \<Rightarrow> bool" where
  "swap_post mx N n b i j res \<longleftrightarrow> (\<exists>d s mm. res = Some (b\<lparr>deletions := d, insertions := s, m_move_mapping := mm\<rparr>) \<and>
    iset_ok mx d \<and> iset_ok mx s \<and> shape N n (indexes d) (indexes s) \<and> distinct (map fst mm) \<and>
    indexes (deletions b) \<subseteq> indexes d \<and> indexes s = indexes (insertions b) \<union> {i, j} \<and>
    (\<forall>k \<in> {i, j} - indexes (insertions b). k \<in> indexes d \<and> k \<notin> indexes (deletions b)) \<and>
    map_of mm = (map_of (m_move_mapping b))(i := origin b j, j := origin b i))"

lemma swap_post_sym: "i \<noteq> j \<Longrightarrow> swap_post mx N n b i j res \<Longrightarrow> swap_post mx N n b j i res"
  unfolding swap_post_def by (simp add: insert_commute fun_upd_twist)

lemma update_move_correct:
  assumes r: "row_ok mx N n {} b" and xy: "x < n" "y < n" "x \<noteq> y"
    and m: "map_of (m_move_mapping b) y = Some f" "map_of (m_move_mapping b) x = None"
  shows "swap_post mx N n b x y (update_move mx f x y b)"
proof -
  let ?m = "map_of (m_move_mapping b)" and ?I = "indexes (insertions b)" and ?D = "indexes (deletions b)"
  have ok: "cb_ok mx b" and s: "shape N n ?D ?I" and dst: "distinct (map fst (m_move_mapping b))"
    and dom: "dom ?m \<subseteq> ?I" using r by (auto simp: row_ok_def)
  have y: "y \<in> ?I" using dom m(1) by auto
  have o: "origin b y = Some f" "origin b x = (if x \<in> ?I then None else Some x)"
    using row_origin [OF r xy(1)] row_origin [OF r xy(2)] m y by auto
  define b1 where "b1 = b\<lparr>m_move_mapping := AList.update x f (AList.delete y (m_move_mapping b))\<rparr>"
  have f: "deletions b1 = deletions b" "insertions b1 = insertions b" by (simp_all add: b1_def)
  have ok1: "cb_ok mx b1" using ok by (simp add: cb_ok_def b1_def)
  have s1: "shape N n (indexes (deletions b1)) (indexes (insertions b1))" using s f by simp
  have dst1: "distinct (map fst (m_move_mapping b1))" using dst by (simp add: distinct_update distinct_delete b1_def)
  have m1: "map_of (m_move_mapping b1) = ?m(y := None, x \<mapsto> f)" by (simp add: update_conv' delete_conv' b1_def)
  obtain d i mm where a: "add_move mx x y b1 = Some (b1\<lparr>deletions := d, insertions := i, m_move_mapping := mm\<rparr>)"
    "iset_ok mx d" "iset_ok mx i" "indexes i = insert x ?I" "shape N n (indexes d) (indexes i)" "distinct (map fst mm)"
    "if x \<in> ?I then indexes d = ?D \<and> mm = m_move_mapping b1
     else x \<notin> ?D \<and> indexes d = insert x ?D \<and> map_of mm = (map_of (m_move_mapping b1))(y \<mapsto> x)"
    using add_move_correct [OF ok1 s1 xy(1), of y, unfolded f] dst1 by blast
  have "map_of mm = ?m(x := origin b y, y := origin b x)"
  proof (cases "x \<in> ?I")
    case True
    then have "map_of mm = ?m(y := None, x \<mapsto> f)" using a(7) m1 by simp
    then show ?thesis using True o xy(3) by (simp add: fun_upd_twist)
  next
    case False
    then have "map_of mm = ?m(y := None, x \<mapsto> f, y \<mapsto> x)" using a(7) m1 by simp
    also have "\<dots> = ?m(x \<mapsto> f, y \<mapsto> x)" by (rule ext) simp
    finally show ?thesis using False o by simp
  qed
  moreover have "update_move mx f x y b = Some (b\<lparr>deletions := d, insertions := i, m_move_mapping := mm\<rparr>)"
    using a(1) by (simp add: update_move_def b1_def)
  moreover have "indexes i = ?I \<union> {x, y}" using a(4) y by auto
  moreover have "?D \<subseteq> indexes d" "\<forall>k \<in> {x, y} - ?I. k \<in> indexes d \<and> k \<notin> ?D"
    using a(7) y by (auto split: if_splits)
  ultimately show ?thesis unfolding swap_post_def using a(2,3,5,6)
    by (intro exI [of _ d] exI [of _ i] exI [of _ mm]) simp
qed

lemma add_moves_correct:
  assumes r: "row_ok mx N n {} b" and ij: "i < n" "j < n" "i \<noteq> j"
    and m: "map_of (m_move_mapping b) i = None" "map_of (m_move_mapping b) j = None"
  shows "swap_post mx N n b i j (do { b2 \<leftarrow> add_move mx j i b; add_move mx i j b2 })"
proof -
  let ?m = "map_of (m_move_mapping b)" and ?I = "indexes (insertions b)" and ?D = "indexes (deletions b)"
  have ok: "cb_ok mx b" and s: "shape N n ?D ?I" and dst: "distinct (map fst (m_move_mapping b))"
    using r by (auto simp: row_ok_def)
  have o: "origin b k = (if k \<in> ?I then ?m k else Some k)" if "k < n" for k using row_origin [OF r that] .
  obtain d1 i1 mm1 where a: "add_move mx j i b = Some (b\<lparr>deletions := d1, insertions := i1, m_move_mapping := mm1\<rparr>)"
    "iset_ok mx d1" "iset_ok mx i1" "indexes i1 = insert j ?I" "shape N n (indexes d1) (indexes i1)" "distinct (map fst mm1)"
    "if j \<in> ?I then indexes d1 = ?D \<and> mm1 = m_move_mapping b
     else j \<notin> ?D \<and> indexes d1 = insert j ?D \<and> map_of mm1 = ?m(i \<mapsto> j)"
    using add_move_correct [OF ok s ij(2), of i] dst by blast
  define b1 where "b1 = b\<lparr>deletions := d1, insertions := i1, m_move_mapping := mm1\<rparr>"
  have f: "deletions b1 = d1" "insertions b1 = i1" "m_move_mapping b1 = mm1" by (simp_all add: b1_def)
  have ok1: "cb_ok mx b1" using ok a(2,3) by (simp add: cb_ok_def b1_def)
  obtain d i2 mm where c: "add_move mx i j b1 = Some (b1\<lparr>deletions := d, insertions := i2, m_move_mapping := mm\<rparr>)"
    "iset_ok mx d" "iset_ok mx i2" "indexes i2 = insert i (indexes i1)" "shape N n (indexes d) (indexes i2)" "distinct (map fst mm)"
    "if i \<in> indexes i1 then indexes d = indexes d1 \<and> mm = mm1
     else i \<notin> indexes d1 \<and> indexes d = insert i (indexes d1) \<and> map_of mm = (map_of mm1)(j \<mapsto> i)"
    using add_move_correct [OF ok1 _ ij(1), of N j, unfolded f] a(5,6) by blast
  have I1: "i \<in> indexes i1 \<longleftrightarrow> i \<in> ?I" using a(4) ij(3) by auto
  have "map_of mm = ?m(i := origin b j, j := origin b i)"
  proof (rule ext)
    fix k show "map_of mm k = (?m(i := origin b j, j := origin b i)) k"
      by (cases "i \<in> ?I"; cases "j \<in> ?I")
        (use a(7) c(7) [unfolded I1] m ij(3) o [OF ij(1)] o [OF ij(2)] in simp_all)
  qed
  moreover have "do { b2 \<leftarrow> add_move mx j i b; add_move mx i j b2 } =
    Some (b\<lparr>deletions := d, insertions := i2, m_move_mapping := mm\<rparr>)" using a(1) c(1) by (simp add: b1_def)
  moreover have "indexes i2 = ?I \<union> {i, j}" using a(4) c(4) by auto
  moreover have "?D \<subseteq> indexes d" "\<forall>k \<in> {i, j} - ?I. k \<in> indexes d \<and> k \<notin> ?D"
    using a(7) c(7) unfolding I1 by (auto split: if_splits)
  ultimately show ?thesis unfolding swap_post_def using c(2,3,5,6)
    by (intro exI [of _ d] exI [of _ i2] exI [of _ mm]) simp
qed

lemma swap_post_cases:
  assumes r: "row_ok mx N n {} b" and ij: "i < n" "j < n" "i \<noteq> j"
  shows "swap_post mx N n b i j (case (map_of (m_move_mapping b) i, map_of (m_move_mapping b) j) of
         (Some from_1, Some from_2) \<Rightarrow>
           Some (b\<lparr>m_move_mapping := AList.update i from_2 (AList.update j from_1 (m_move_mapping b))\<rparr>)
       | (Some from_1, None) \<Rightarrow> update_move mx from_1 j i b
       | (None, Some from_2) \<Rightarrow> update_move mx from_2 i j b
       | (None, None) \<Rightarrow> do { b2 \<leftarrow> add_move mx j i b; add_move mx i j b2 })"
proof -
  let ?m = "map_of (m_move_mapping b)" and ?I = "indexes (insertions b)"
  have ok: "cb_ok mx b" and s: "shape N n (indexes (deletions b)) ?I" and dst: "distinct (map fst (m_move_mapping b))"
    and dom: "dom ?m \<subseteq> ?I" using r by (auto simp: row_ok_def)
  consider (both) f g where "?m i = Some f" "?m j = Some g" | (one) f where "?m i = Some f" "?m j = None"
    | (two) g where "?m i = None" "?m j = Some g" | (none) "?m i = None" "?m j = None" by (metis not_Some_eq)
  then show ?thesis
  proof cases
    case both
    have I: "i \<in> ?I" "j \<in> ?I" using both dom by auto
    have o: "origin b i = Some f" "origin b j = Some g"
      using row_origin [OF r ij(1)] row_origin [OF r ij(2)] both I by auto
    let ?mm = "AList.update i g (AList.update j f (m_move_mapping b))"
    have "map_of ?mm = ?m(i := origin b j, j := origin b i)"
      using ij(3) o by (simp add: update_conv' fun_upd_twist)
    moreover have "distinct (map fst ?mm)" using dst by (simp add: distinct_update)
    ultimately show ?thesis unfolding swap_post_def using both I ok s
      by (intro exI [of _ "deletions b"] exI [of _ "insertions b"] exI [of _ ?mm]) (auto simp: cb_ok_def)
  next
    case one
    then show ?thesis using update_move_correct [OF r ij(2,1)] ij(3) by (auto intro: swap_post_sym)
  next
    case two
    then show ?thesis using update_move_correct [OF r ij] by auto
  next
    case none
    then show ?thesis using add_moves_correct [OF r ij] by simp
  qed
qed

lemma swap_col_rows:
  "i \<noteq> j \<Longrightarrow> \<forall>v. iset_ok mx v \<longrightarrow> (\<exists>v'. swap_col mx i j v = Some v' \<and> iset_ok mx v' \<and>
     (\<lambda>k. k \<in> indexes v') = (\<lambda>f. f(i := f j, j := f i)) (\<lambda>k. k \<in> indexes v))"
  unfolding swap_col_def Let_def using ixs.exchange by blast

text \<open>
  A new mapping whose entries are origins of old rows under an injective renaming keeps the sources
  deleted (or pending) and distinct.
\<close>

lemma mapping_from_origin:
  assumes r: "row_ok mx N n P b"
    and g: "\<forall>k \<in> dom src'. src' k = origin b (g k) \<and> g k < n" "inj_on g (dom src')"
    and new: "\<forall>k \<in> dom src'. g k \<notin> indexes (insertions b) \<longrightarrow> g k \<in> D' \<union> P' \<and> g k \<notin> P"
    and D: "indexes (deletions b) \<union> P \<subseteq> D' \<union> P'"
  shows "ran src' \<subseteq> D' \<union> P'" "inj_on src' (dom src')"
proof -
  let ?m = "map_of (m_move_mapping b)" and ?I = "indexes (insertions b)"
  have ran: "ran ?m \<subseteq> indexes (deletions b) \<union> P" and inj: "\<forall>x y v. ?m x = Some v \<longrightarrow> ?m y = Some v \<longrightarrow> x = y"
    and s: "shape N n (indexes (deletions b)) ?I"
    using r by (auto simp: row_ok_def inj_on_map_iff)
  have v: "if g k \<in> ?I then ?m (g k) = Some v \<and> v \<in> indexes (deletions b) \<union> P
     else v = g k \<and> v \<notin> indexes (deletions b) \<union> P" if "src' k = Some v" for k v
  proof -
    have k: "k \<in> dom src'" using that by auto
    have o: "origin b (g k) = Some v" "g k < n" using g(1) k that by auto
    show ?thesis
    proof (cases "g k \<in> ?I")
      case True
      then show ?thesis using o row_origin [OF r o(2)] ran by (auto simp: ran_def)
    next
      case False
      then have "v = g k" using o row_origin [OF r o(2)] by simp
      moreover have "g k \<notin> indexes (deletions b)" using shape_free(1) [OF s _ o(2) False] by simp
      moreover have "g k \<notin> P" using new k False by blast
      ultimately show ?thesis using False by simp
    qed
  qed
  show "ran src' \<subseteq> D' \<union> P'"
  proof
    fix v assume "v \<in> ran src'"
    then obtain k where k: "src' k = Some v" by (auto simp: ran_def)
    then show "v \<in> D' \<union> P'" using v [OF k] new D by (cases "g k \<in> ?I") auto
  qed
  show "inj_on src' (dom src')"
    unfolding inj_on_map_iff
  proof (intro allI impI)
    fix x y w assume xy: "src' x = Some w" "src' y = Some w"
    have "g x = g y" using v [OF xy(1)] v [OF xy(2)] inj
      by (cases "g x \<in> ?I"; cases "g y \<in> ?I") (auto split: if_splits)
    then show "x = y" using g(2) xy by (auto simp: inj_on_def)
  qed
qed

lemma row_ok_cols:
  assumes r: "row_ok mx N n P b" and c: "cb_ok mx (b\<lparr>modifications := m, columns := cs\<rparr>)" and m: "indexes m \<subseteq> {..<n'}"
  shows "cb_ok mx (b\<lparr>modifications := m, columns := cs\<rparr>)" "origin (b\<lparr>modifications := m, columns := cs\<rparr>) = origin b"
    "n' = n \<Longrightarrow> row_ok mx N n P (b\<lparr>modifications := m, columns := cs\<rparr>)"
  using assms by (auto simp: row_ok_def intro!: origin_cong)

lemma cb_swap_ordered:
  assumes r: "row_ok mx N n {} b" and ij: "i < n" "j < n" "i < j"
  shows "\<exists>b'. cb_swap mx i j True b = Some b' \<and> cb_swap mx j i True b = Some b' \<and> row_ok mx N n {} b' \<and>
    (\<forall>k < n. origin b' k = ((origin b)(i := origin b j, j := origin b i)) k) \<and>
    cols_by (\<lambda>f. f(i := f j, j := f i)) b b'"
proof -
  let ?g = "\<lambda>f. f(i := f j, j := f i)"
  have ok: "cb_ok mx b" using r by (simp add: row_ok_def)
  obtain m cs where c: "for_each_col (swap_col mx i j) b = Some (b\<lparr>modifications := m, columns := cs\<rparr>)"
    "cb_ok mx (b\<lparr>modifications := m, columns := cs\<rparr>)" "cols_by ?g b (b\<lparr>modifications := m, columns := cs\<rparr>)"
    using for_each_col_spec [OF ok swap_col_rows [OF less_imp_neq [OF ij(3)]]] by blast
  define b1 where "b1 = b\<lparr>modifications := m, columns := cs\<rparr>"
  have "(\<lambda>k. k \<in> indexes m) = ?g (\<lambda>k. k \<in> indexes (modifications b))"
    using c(3) modified_iff [OF ok] modified_iff [OF c(2)] by (simp add: cols_by_def)
  then have fl: "k \<in> indexes m \<Longrightarrow> k = i \<or> k = j \<or> k \<in> indexes (modifications b)" for k
    by (metis fun_upd_other)
  have M: "indexes (modifications b) \<subseteq> {..<n}" using r by (simp add: row_ok_def)
  have "k < n" if "k \<in> indexes m" for k using fl [OF that] ij M by auto
  then have "indexes m \<subseteq> {..<n}" by auto
  then have r1: "row_ok mx N n {} b1" "origin b1 = origin b" "cb_ok mx b1"
    using row_ok_cols [OF r c(2)] by (auto simp: b1_def)
  let ?I = "indexes (insertions b1)" and ?D = "indexes (deletions b1)" and ?m = "map_of (m_move_mapping b1)"
  note post = swap_post_cases [OF r1(1) ij(1,2)]
  obtain d s mm where p: "iset_ok mx d" "iset_ok mx s" "shape N n (indexes d) (indexes s)" "distinct (map fst mm)"
    "?D \<subseteq> indexes d" "indexes s = ?I \<union> {i, j}" "\<forall>k \<in> {i, j} - ?I. k \<in> indexes d \<and> k \<notin> ?D"
    "map_of mm = ?m(i := origin b j, j := origin b i)"
    and run: "cb_swap mx i j True b = Some (b1\<lparr>deletions := d, insertions := s, m_move_mapping := mm\<rparr>)"
      "cb_swap mx j i True b = Some (b1\<lparr>deletions := d, insertions := s, m_move_mapping := mm\<rparr>)"
  proof -
    have "swap_post mx N n b1 i j (cb_swap mx i j True b) \<and> cb_swap mx j i True b = cb_swap mx i j True b"
      using post ij(3) c(1) [folded b1_def] by (simp add: cb_swap_def)
    then show ?thesis unfolding swap_post_def r1(2) using that by metis
  qed
  define b' where "b' = b1\<lparr>deletions := d, insertions := s, m_move_mapping := mm\<rparr>"
  have dom: "dom (map_of mm) \<subseteq> indexes s" using p(6,8) r1(1) by (auto simp: row_ok_def split: if_splits)
  have I: "k < n" if "k \<in> indexes s" for k using that p(3) by (auto simp: shape_def)
  define t where "t k = (if k = i then j else if k = j then i else k)" for k
  have src: "map_of mm k = origin b1 (t k) \<and> t k < n" if "k \<in> indexes s" for k
    using that I [OF that] p(6,8) row_origin [OF r1(1)] ij by (auto simp: t_def r1(2))
  have t: "\<forall>k \<in> dom (map_of mm). map_of mm k = origin b1 (t k) \<and> t k < n" "inj_on t (dom (map_of mm))"
    "\<forall>k \<in> dom (map_of mm). t k \<notin> ?I \<longrightarrow> t k \<in> indexes d \<union> {} \<and> t k \<notin> {}"
    "?D \<union> {} \<subseteq> indexes d \<union> {}"
    using src dom p(5,6,7) ij(3) by (blast, auto simp: inj_on_def t_def split: if_splits)
  note ran = mapping_from_origin [OF r1(1) t]
  have "cb_ok mx b'" using r1(3) p(1,2) by (simp add: cb_ok_def b'_def)
  then have r': "row_ok mx N n {} b'"
    using r1(1) p(3,4) dom ran by (intro row_okI [OF _ _ _ _ refl]) (auto simp: b'_def row_ok_def)
  have "origin b' k = ((origin b)(i := origin b j, j := origin b i)) k" if "k < n" for k
  proof (cases "k \<in> indexes s")
    case True
    then show ?thesis using row_origin [OF r' that] src [OF True] by (auto simp: b'_def t_def r1(2))
  next
    case False
    then show ?thesis using row_origin [OF r' that] row_origin [OF r1(1) that] p(6) by (auto simp: b'_def r1(2))
  qed
  moreover have "cols_by ?g b b'"
    by (rule cols_by_cong [THEN iffD2, OF _ _ c(3)]) (simp_all add: b'_def b1_def)
  ultimately show ?thesis using run r' by (auto simp: b'_def)
qed

lemma cb_swap_correct:
  assumes r: "row_ok mx N n {} b" and ij: "i < n" "j < n" "i \<noteq> j"
  shows "\<exists>b'. cb_swap mx i j True b = Some b' \<and> row_ok mx N n {} b' \<and>
    (\<forall>k < n. origin b' k = ((origin b)(i := origin b j, j := origin b i)) k) \<and>
    cols_by (\<lambda>f. f(i := f j, j := f i)) b b'"
proof (cases "i < j")
  case True
  then show ?thesis using cb_swap_ordered [OF r ij(1,2)] by blast
next
  case False
  then have "j < i" using ij(3) by simp
  note o = cb_swap_ordered [OF r ij(2,1) this]
  have e: "(\<lambda>f :: nat \<Rightarrow> bool. f(j := f i, i := f j)) = (\<lambda>f. f(i := f j, j := f i))"
    "(origin b)(j := origin b i, i := origin b j) = (origin b)(i := origin b j, j := origin b i)"
    using ij(3) by (auto simp: fun_upd_twist)
  show ?thesis using o unfolding e by blast
qed

subsection \<open>move_over\<close>

lemma move_over_col_rows:
  "i \<noteq> j \<Longrightarrow> \<forall>v. iset_ok mx v \<longrightarrow> (\<exists>v'. move_over_col mx i j v = Some v' \<and> iset_ok mx v' \<and>
     (\<lambda>k. k \<in> indexes v') = (\<lambda>f. f(i := f j, j := False)) (\<lambda>k. k \<in> indexes v))"
  unfolding move_over_col_def using ixs.replace by blast

lemma remove_rows:
  "\<forall>v. iset_ok mx v \<longrightarrow> (\<exists>v'. is_remove mx i 1 v = Some v' \<and> iset_ok mx v' \<and>
     (\<lambda>k. k \<in> indexes v') = (\<lambda>f. f(i := False)) (\<lambda>k. k \<in> indexes v))"
proof (intro allI impI)
  fix v assume "iset_ok mx v"
  then obtain v' where "is_remove mx i 1 v = Some v'" "iset_ok mx v'" "indexes v' = indexes v - {i}"
    using ixs.remove by blast
  then show "\<exists>v'. is_remove mx i 1 v = Some v' \<and> iset_ok mx v' \<and>
     (\<lambda>k. k \<in> indexes v') = (\<lambda>f. f(i := False)) (\<lambda>k. k \<in> indexes v)"
    by (auto simp: fun_eq_iff)
qed

lemma del_shift_last: "I \<subseteq> {..<Suc l} \<Longrightarrow> del_shift l I = I - {l}"
  by (auto simp: del_shift_def)

text \<open>Deleting the last row.\<close>

lemma cb_move_over_last:
  assumes r: "row_ok mx N (Suc l) P b" and P: "P \<subseteq> {l}" and l: "l < npos"
  shows "\<exists>b'. cb_move_over mx l l True b = Some b' \<and> row_ok mx N l {} b' \<and>
    (\<forall>k < l. origin b' k = origin b k) \<and> cols_by (\<lambda>f. f(l := False)) b b'"
proof -
  let ?I = "indexes (insertions b)" and ?D = "indexes (deletions b)" and ?m = "map_of (m_move_mapping b)"
  have ok: "cb_ok mx b" and s: "shape N (Suc l) ?D ?I" and M: "indexes (modifications b) \<subseteq> {..<Suc l}"
    and I: "?I \<subseteq> {..<Suc l}" and iok: "iset_ok mx (insertions b)" "iset_ok mx (deletions b)" "iset_ok mx (modifications b)"
    using r by (auto simp: row_ok_def shape_def cb_ok_def)
  obtain ins u where u: "is_erase_or_unshift l (insertions b) = (ins, u)" "iset_ok mx ins" "indexes ins = ?I - {l}"
    "l \<in> ?I \<longrightarrow> u = npos" "l \<notin> ?I \<longrightarrow> u = unrank ?I l \<and> u \<noteq> npos"
    using is_erase_or_unshift_rows [OF iok(1) l] del_shift_last [OF I] by auto
  obtain d0 where d0: "l \<notin> ?I \<Longrightarrow> is_add_shifted mx (unrank ?I l) (deletions b) = Some (d0, l)" "iset_ok mx d0"
    "l \<notin> ?I \<Longrightarrow> indexes d0 = insert l ?D"
    using is_add_shifted_free [OF iok(2), of "unrank ?I l"] shape_free(3) [OF s _ lessI] by (cases "l \<in> ?I") auto
  define d where "d = (if l \<in> ?I then deletions b else d0)"
  have d: "iset_ok mx d" "indexes d = (if l \<in> ?I then ?D else insert l ?D)"
    using d0 iok(2) by (auto simp: d_def)
  define b1 where "b1 = b\<lparr>insertions := ins, deletions := d, m_move_mapping := AList.delete l (m_move_mapping b)\<rparr>"
  have ok1: "cb_ok mx b1" using ok u(2) d(1) by (simp add: cb_ok_def b1_def)
  obtain m cs where c: "for_each_col (is_remove mx l 1) b1 = Some (b1\<lparr>modifications := m, columns := cs\<rparr>)"
    "cb_ok mx (b1\<lparr>modifications := m, columns := cs\<rparr>)"
    "cols_by (\<lambda>f. f(l := False)) b1 (b1\<lparr>modifications := m, columns := cs\<rparr>)"
    using for_each_col_spec [OF ok1 remove_rows] by blast
  define b' where "b' = b1\<lparr>modifications := m, columns := cs\<rparr>"
  have "cb_move_over mx l l True b = for_each_col (is_remove mx l 1) b1"
    using last_is_member(2) [OF iok(1) I] last_is_member(2) [OF iok(3) M] u d0
    by (auto simp: cb_move_over_def b1_def d_def realm_assert_bind)
  then have run: "cb_move_over mx l l True b = Some b'" using c(1) by (simp add: b'_def)
  have e: "(\<lambda>k. k \<in> indexes m) = (\<lambda>k. k \<in> indexes (modifications b))(l := False)"
    using c(3) modified_iff [OF c(2)] modified_iff [OF ok1] by (simp add: cols_by_def b1_def)
  have "k \<in> indexes m \<longleftrightarrow> k \<noteq> l \<and> k \<in> indexes (modifications b)" for k
    using fun_cong [OF e, of k] by simp
  then have m: "indexes m \<subseteq> {..<l}" using M by (auto simp: less_Suc_eq)
  have src: "map_of (m_move_mapping b') = ?m(l := None)" by (simp add: b'_def b1_def delete_conv')
  have s': "shape N l (indexes d) (indexes ins)" using shape_drop [OF s] d(2) u(3) by auto
  have dom: "dom (?m(l := None)) \<subseteq> indexes ins" using r u(3) by (auto simp: row_ok_def)
  have o: "?m k = origin b k" if "k \<in> ?I" for k using row_origin [OF r, of k] that I by auto
  have "?D \<union> P \<subseteq> indexes d" using P d(2) r by (auto simp: row_ok_def)
  moreover have "ran (?m(l := None)) \<subseteq> ran ?m" by (auto simp: ran_def)
  ultimately have ran: "ran (?m(l := None)) \<subseteq> indexes d \<union> {}" using r by (auto simp: row_ok_def)
  have inj: "inj_on (?m(l := None)) (dom (?m(l := None)))"
    using r unfolding row_ok_def inj_on_map_iff by (metis fun_upd_apply option.distinct(1))
  have r': "row_ok mx N l {} b'"
    using c(2) r s' dom ran inj m src
    by (intro row_okI [OF _ _ _ _ src]) (auto simp: b'_def b1_def row_ok_def distinct_delete)
  have "origin b' k = origin b k" if "k < l" for k
    using that row_origin [OF r' that] row_origin [OF r, of k] src u(3) by (auto simp: b'_def b1_def)
  moreover have "cols_by (\<lambda>f. f(l := False)) b b'"
    unfolding b'_def using c(3) cols_by_cong_source [of b1 b] by (simp add: b1_def)
  ultimately show ?thesis using run r' by blast
qed

lemma move_over_source_correct:
  assumes r: "row_ok mx N (Suc l) P b" and row: "row < l"
  shows "\<exists>d i mm. move_over_source mx row l b = Some (b\<lparr>deletions := d, insertions := i, m_move_mapping := mm\<rparr>) \<and>
    iset_ok mx d \<and> iset_ok mx i \<and> distinct (map fst mm) \<and> indexes i = indexes (insertions b) - {l} \<and>
    indexes d = (if l \<in> indexes (insertions b) then indexes (deletions b) else insert l (indexes (deletions b))) \<and>
    map_of mm = (map_of (m_move_mapping b))(row := origin b l, l := None)"
proof -
  let ?I = "indexes (insertions b)" and ?D = "indexes (deletions b)" and ?m = "map_of (m_move_mapping b)"
  have ok: "cb_ok mx b" and s: "shape N (Suc l) ?D ?I" and I: "?I \<subseteq> {..<Suc l}" and dst: "distinct (map fst (m_move_mapping b))"
    and dom: "dom ?m \<subseteq> ?I" and iok: "iset_ok mx (insertions b)" "iset_ok mx (deletions b)"
    using r by (auto simp: row_ok_def shape_def cb_ok_def)
  have o: "origin b l = (if l \<in> ?I then ?m l else Some l)" using row_origin [OF r] by simp
  have li: "insertions b \<noteq> [] \<and> last_second (insertions b) = l + 1 \<longleftrightarrow> l \<in> ?I" by (rule last_is_member(1) [OF iok(1) I])
  have ri: "is_contains (insertions b) row \<longleftrightarrow> row \<in> ?I" by (rule ixs.contains [OF iok(1)])
  have rn: "?m row = None" if "row \<notin> ?I" using that dom by auto
  define mm1 where "mm1 = (if row \<in> ?I then AList.delete row (m_move_mapping b) else m_move_mapping b)"
  have mm1: "map_of mm1 = ?m(row := None)" "distinct (map fst mm1)"
    using dst rn by (auto simp: mm1_def delete_conv' distinct_delete fun_upd_idem)
  show ?thesis
  proof (cases "l \<in> ?I")
    case True
    obtain i where i: "is_remove mx l 1 (insertions b) = Some i" "iset_ok mx i" "indexes i = ?I - {l}"
      using ixs.remove [OF iok(1)] by blast
    define mm where "mm = (case ?m l of Some f \<Rightarrow> AList.delete l (AList.update row f (m_move_mapping b)) | None \<Rightarrow> mm1)"
    have "move_over_source mx row l b = Some (b\<lparr>insertions := i, m_move_mapping := mm\<rparr>)"
    proof -
      have "insertions b \<noteq> []" "last_second (insertions b) = Suc l" using li True by auto
      then show ?thesis using i(1) by (cases "?m l") (auto simp: move_over_source_def ri mm_def mm1_def Let_def)
    qed
    then have "move_over_source mx row l b = Some (b\<lparr>deletions := deletions b, insertions := i, m_move_mapping := mm\<rparr>)"
      by simp
    moreover have "map_of mm = ?m(row := origin b l, l := None)"
      using True o row mm1 by (cases "?m l") (auto simp: mm_def delete_conv' update_conv' fun_eq_iff)
    moreover have "distinct (map fst mm)"
      using dst mm1 by (cases "?m l") (auto simp: mm_def distinct_delete distinct_update)
    ultimately show ?thesis using i(2,3) iok(2) True
      by (intro exI [of _ "deletions b"] exI [of _ i] exI [of _ mm]) simp
  next
    case False
    obtain d where d: "is_add_shifted mx (is_unshift l (insertions b)) (deletions b) = Some (d, l)" "iset_ok mx d"
      "indexes d = insert l ?D" using row_shift_facts [OF ok s lessI False] by blast
    let ?mm = "AList.update row l mm1"
    have "move_over_source mx row l b = Some (b\<lparr>deletions := d, m_move_mapping := ?mm\<rparr>)"
      unfolding move_over_source_def li ri using False d(1) by (simp add: mm1_def Let_def)
    then have "move_over_source mx row l b = Some (b\<lparr>deletions := d, insertions := insertions b, m_move_mapping := ?mm\<rparr>)"
      by simp
    moreover have "?m l = None" using False dom by auto
    then have "map_of ?mm = ?m(row := origin b l, l := None)"
      using False o row mm1 by (auto simp: update_conv' fun_eq_iff)
    moreover have "distinct (map fst ?mm)" using mm1 by (simp add: distinct_update)
    ultimately show ?thesis using d(2,3) iok(1) False
      by (intro exI [of _ d] exI [of _ "insertions b"] exI [of _ ?mm]) simp
  qed
qed

lemma move_over_track_correct:
  assumes r: "row_ok mx N (Suc l) P b" and row: "row < l"
  shows "\<exists>d i mm. move_over_track mx row l b = Some (b\<lparr>deletions := d, insertions := i, m_move_mapping := mm\<rparr>) \<and>
    iset_ok mx d \<and> iset_ok mx i \<and> distinct (map fst mm) \<and> shape N l (indexes d) (indexes i) \<and>
    indexes i = indexes (insertions b) - {l} \<union> {row} \<and> indexes (deletions b) \<subseteq> indexes d \<and>
    (\<forall>k \<in> {row, l} - indexes (insertions b). k \<in> indexes d) \<and>
    map_of mm = (map_of (m_move_mapping b))(row := origin b l, l := None)"
proof -
  let ?I = "indexes (insertions b)" and ?D = "indexes (deletions b)"
  have ok: "cb_ok mx b" and s: "shape N (Suc l) ?D ?I" and iok: "iset_ok mx (insertions b)"
    using r by (auto simp: row_ok_def cb_ok_def)
  obtain d i mm where a: "move_over_source mx row l b = Some (b\<lparr>deletions := d, insertions := i, m_move_mapping := mm\<rparr>)"
    "iset_ok mx d" "iset_ok mx i" "distinct (map fst mm)" "indexes i = ?I - {l}"
    "indexes d = (if l \<in> ?I then ?D else insert l ?D)" "map_of mm = (map_of (m_move_mapping b))(row := origin b l, l := None)"
    using move_over_source_correct [OF r row] by blast
  have s3: "shape N l (indexes d) (indexes i)" using shape_drop [OF s] a(5,6) by auto
  have ri: "is_contains (insertions b) row \<longleftrightarrow> row \<in> ?I" by (rule ixs.contains [OF iok])
  show ?thesis
  proof (cases "row \<in> ?I")
    case True
    then have "move_over_track mx row l b = Some (b\<lparr>deletions := d, insertions := i, m_move_mapping := mm\<rparr>)"
      using a(1) ri by (simp add: move_over_track_def)
    moreover have "indexes i = ?I - {l} \<union> {row}" using a(5) True row by auto
    moreover have "?D \<subseteq> indexes d" "\<forall>k \<in> {row, l} - ?I. k \<in> indexes d" using a(6) True by auto
    ultimately show ?thesis using a(2,3,4,7) s3
      by (intro exI [of _ d] exI [of _ i] exI [of _ mm]) simp
  next
    case False
    define b3 where "b3 = b\<lparr>deletions := d, insertions := i, m_move_mapping := mm\<rparr>"
    have ok3: "cb_ok mx b3" using ok a(2,3) by (simp add: cb_ok_def b3_def)
    have n: "row \<notin> indexes i" using False a(5) by simp
    obtain d' where d': "is_add_shifted mx (is_unshift row i) d = Some (d', row)" "iset_ok mx d'"
      "indexes d' = insert row (indexes d)" using row_shift_facts [OF ok3, of N l row] s3 row n by (auto simp: b3_def)
    obtain i' where i': "is_add mx row i = Some i'" "iset_ok mx i'" "indexes i' = insert row (indexes i)"
      using ixs.add [OF a(3)] by blast
    have "move_over_track mx row l b = Some (b\<lparr>deletions := d', insertions := i', m_move_mapping := mm\<rparr>)"
      using a(1) ri False d'(1) i'(1) by (cases b) (simp add: move_over_track_def)
    moreover have "indexes i' = ?I - {l} \<union> {row}" using a(5) i'(3) by auto
    moreover have "?D \<subseteq> indexes d'" "\<forall>k \<in> {row, l} - ?I. k \<in> indexes d'" using a(6) d'(3) by auto
    moreover have "shape N l (indexes d') (indexes i')" using shape_mark [OF s3 row n] d'(3) i'(3) by simp
    ultimately show ?thesis using a(4,7) d'(2) i'(2)
      by (intro exI [of _ d'] exI [of _ i'] exI [of _ mm]) simp
  qed
qed

lemma cb_move_over_inner:
  assumes r: "row_ok mx N (Suc l) P b" and P: "P \<subseteq> {row}" and row: "row < l"
  shows "\<exists>b'. cb_move_over mx row l True b = Some b' \<and> row_ok mx N l {} b' \<and>
    (\<forall>k < l. origin b' k = ((origin b)(row := origin b l)) k) \<and>
    cols_by (\<lambda>f. f(row := f l, l := False)) b b'"
proof -
  let ?g = "\<lambda>f. f(row := f l, l := False)"
  have ok: "cb_ok mx b" and I: "indexes (insertions b) \<subseteq> {..<Suc l}" and M: "indexes (modifications b) \<subseteq> {..<Suc l}"
    and iok: "iset_ok mx (insertions b)" "iset_ok mx (modifications b)"
    using r by (auto simp: row_ok_def shape_def cb_ok_def)
  obtain m cs where c: "for_each_col (move_over_col mx row l) b = Some (b\<lparr>modifications := m, columns := cs\<rparr>)"
    "cb_ok mx (b\<lparr>modifications := m, columns := cs\<rparr>)" "cols_by ?g b (b\<lparr>modifications := m, columns := cs\<rparr>)"
    using for_each_col_spec [OF ok move_over_col_rows [OF less_imp_neq [OF row]]] by blast
  define b1 where "b1 = b\<lparr>modifications := m, columns := cs\<rparr>"
  have e: "(\<lambda>k. k \<in> indexes m) = ?g (\<lambda>k. k \<in> indexes (modifications b))"
    using c(3) modified_iff [OF ok] modified_iff [OF c(2)] by (simp add: cols_by_def)
  have fl: "k < l" if "k \<in> indexes m" for k
    using fun_cong [OF e, of k] that M row by (auto simp: less_Suc_eq split: if_splits)
  then have m: "indexes m \<subseteq> {..<Suc l}" by (auto simp: less_Suc_eq)
  have r1: "row_ok mx N (Suc l) P b1" "origin b1 = origin b" "cb_ok mx b1"
    using row_ok_cols [OF r c(2) m] by (auto simp: b1_def)
  let ?I = "indexes (insertions b1)" and ?D = "indexes (deletions b1)"
  obtain d i mm where t: "move_over_track mx row l b1 = Some (b1\<lparr>deletions := d, insertions := i, m_move_mapping := mm\<rparr>)"
    "iset_ok mx d" "iset_ok mx i" "distinct (map fst mm)" "shape N l (indexes d) (indexes i)"
    "indexes i = ?I - {l} \<union> {row}" "?D \<subseteq> indexes d" "\<forall>k \<in> {row, l} - ?I. k \<in> indexes d"
    "map_of mm = (map_of (m_move_mapping b1))(row := origin b1 l, l := None)"
    using move_over_track_correct [OF r1(1) row] by blast
  define b' where "b' = b1\<lparr>deletions := d, insertions := i, m_move_mapping := mm\<rparr>"
  have run: "cb_move_over mx row l True b = Some b'"
    using c(1) [folded b1_def] t(1) row last_is_member(2) [OF iok(1) I] last_is_member(2) [OF iok(2) M]
    by (simp add: cb_move_over_def b'_def realm_assert_bind)
  have dom1: "dom (map_of (m_move_mapping b1)) \<subseteq> ?I" using r1(1) by (simp add: row_ok_def)
  have dom: "dom (map_of mm) \<subseteq> indexes i" "l \<notin> dom (map_of mm)" using t(6,9) dom1 by (auto split: if_splits)
  define g where "g k = (if k = row then l else k)" for k
  have src: "map_of mm k = origin b1 (g k) \<and> g k < Suc l" if "k \<in> indexes i" for k
    using that t(5,6,9) row_origin [OF r1(1), of k] row by (auto simp: g_def shape_def)
  have h: "\<forall>k \<in> dom (map_of mm). map_of mm k = origin b1 (g k) \<and> g k < Suc l" using src dom(1) by blast
  have "inj_on g (dom (map_of mm))" using dom(2) by (auto simp: inj_on_def g_def split: if_splits)
  moreover have "\<forall>k \<in> dom (map_of mm). g k \<notin> ?I \<longrightarrow> g k \<in> indexes d \<union> {} \<and> g k \<notin> P"
    using dom t(6,8) P row by (auto simp: g_def)
  moreover have "?D \<union> P \<subseteq> indexes d \<union> {}" using t(7,8) P r1(1) by (auto simp: row_ok_def)
  ultimately have ran: "ran (map_of mm) \<subseteq> indexes d \<union> {}" "inj_on (map_of mm) (dom (map_of mm))"
    using mapping_from_origin [OF r1(1) h] by blast+
  have ok': "cb_ok mx b'" using r1(3) t(2,3) by (simp add: cb_ok_def b'_def)
  have "indexes (modifications b') \<subseteq> {..<l}" using fl by (auto simp: b'_def b1_def)
  then have r': "row_ok mx N l {} b'"
    using r1(1) t(4,5) dom(1) ran ok' by (intro row_okI [OF _ _ _ _ refl]) (simp_all add: b'_def row_ok_def)
  have "origin b' k = ((origin b)(row := origin b l)) k" if "k < l" for k
  proof (cases "k \<in> indexes i")
    case True
    then show ?thesis using row_origin [OF r' that] src [OF True] by (auto simp: b'_def g_def r1(2))
  next
    case False
    then have "k \<noteq> row" "k \<notin> ?I" using t(6) that by auto
    then show ?thesis using row_origin [OF r' that] row_origin [OF r1(1), of k] that False by (simp add: b'_def r1(2))
  qed
  moreover have "cols_by ?g b b'"
    by (rule cols_by_cong [THEN iffD2, OF _ _ c(3)]) (simp_all add: b'_def b1_def)
  ultimately show ?thesis using run r' by blast
qed

lemma cb_move_over_correct:
  assumes r: "row_ok mx N (Suc l) P b" and P: "P \<subseteq> {row}" and row: "row \<le> l" "l < npos"
  shows "\<exists>b'. cb_move_over mx row l True b = Some b' \<and> row_ok mx N l {} b' \<and>
    (\<forall>k < l. origin b' k = ((origin b)(row := origin b l)) k) \<and>
    cols_by (\<lambda>f. f(row := f l, l := False)) b b'"
proof (cases "row = l")
  case True
  have "(\<lambda>f :: nat \<Rightarrow> bool. f(row := f l, l := False)) = (\<lambda>f. f(l := False))" using True by auto
  then show ?thesis using cb_move_over_last [OF r _ row(2)] P True by auto
next
  case False
  then show ?thesis using cb_move_over_inner [OF r P] row(1) by simp
qed

subsection \<open>subsume and insertion at the end\<close>

lemma subsume_col_rows:
  "\<forall>v. iset_ok mx v \<longrightarrow> (\<exists>v'. subsume_col mx i j v = Some v' \<and> iset_ok mx v' \<and>
     (\<lambda>k. k \<in> indexes v') = (\<lambda>f. f(j := f j \<or> f i)) (\<lambda>k. k \<in> indexes v))"
  unfolding subsume_col_def using ixs.carry by blast

text \<open>
  \<open>subsume\<close> gives the fresh row \<open>new\<close> the origin of \<open>old\<close>; the source is deleted only by the
  \<open>move_over(old, ...)\<close> that follows.
\<close>

lemma cb_subsume_correct:
  assumes r: "row_ok mx N n {} b" and on: "old < n" "new < n" "old \<noteq> new"
    and new: "new \<in> indexes (insertions b)" "map_of (m_move_mapping b) new = None"
  shows "\<exists>b'. cb_subsume mx old new True b = Some b' \<and>
    row_ok mx N n (if old \<in> indexes (insertions b) then {} else {old}) b' \<and>
    origin b' new = origin b old \<and> (\<forall>k < n. k \<noteq> new \<longrightarrow> k \<noteq> old \<longrightarrow> origin b' k = origin b k) \<and>
    cols_by (\<lambda>f. f(new := f new \<or> f old)) b b'"
proof -
  let ?g = "\<lambda>f. f(new := f new \<or> f old)"
  have ok: "cb_ok mx b" and M: "indexes (modifications b) \<subseteq> {..<n}" using r by (auto simp: row_ok_def)
  obtain m cs where c: "for_each_col (subsume_col mx old new) b = Some (b\<lparr>modifications := m, columns := cs\<rparr>)"
    "cb_ok mx (b\<lparr>modifications := m, columns := cs\<rparr>)" "cols_by ?g b (b\<lparr>modifications := m, columns := cs\<rparr>)"
    using for_each_col_spec [OF ok subsume_col_rows] by blast
  define b1 where "b1 = b\<lparr>modifications := m, columns := cs\<rparr>"
  have e: "(\<lambda>k. k \<in> indexes m) = ?g (\<lambda>k. k \<in> indexes (modifications b))"
    using c(3) modified_iff [OF ok] modified_iff [OF c(2)] by (simp add: cols_by_def)
  have "k < n" if "k \<in> indexes m" for k
    using fun_cong [OF e, of k] that M on by (auto split: if_splits)
  then have m: "indexes m \<subseteq> {..<n}" by auto
  have r1: "row_ok mx N n {} b1" "origin b1 = origin b" "cb_ok mx b1"
    using row_ok_cols [OF r c(2) m] by (auto simp: b1_def)
  let ?I = "indexes (insertions b1)" and ?D = "indexes (deletions b1)" and ?m = "map_of (m_move_mapping b1)"
  have new1: "new \<in> ?I" "?m new = None" using new by (auto simp: b1_def)
  have s: "shape N n ?D ?I" and dst: "distinct (map fst (m_move_mapping b1))" and dom1: "dom ?m \<subseteq> ?I"
    and iok: "iset_ok mx (insertions b1)" "iset_ok mx (deletions b1)" using r1(1) by (auto simp: row_ok_def cb_ok_def)
  have ri: "is_contains (insertions b1) old \<longleftrightarrow> old \<in> ?I" by (rule ixs.contains [OF iok(1)])
  have sh: "is_shift (is_unshift old (insertions b1)) (deletions b1) = old" if "old \<notin> ?I"
    using shape_free(3) [OF s _ on(1) that] iok by (auto simp: iset_ok_def is_shift_free is_unshift_correct)
  have o: "origin b old = (if old \<in> ?I then ?m old else Some old)" using row_origin [OF r1(1) on(1)] r1(2) by simp
  define mm where "mm = (case ?m old of Some f \<Rightarrow> AList.delete old (AList.update new f (m_move_mapping b1))
    | None \<Rightarrow> if old \<notin> ?I then AList.update new old (m_move_mapping b1) else m_move_mapping b1)"
  define b' where "b' = b1\<lparr>m_move_mapping := mm\<rparr>"
  have run: "cb_subsume mx old new True b = Some b'"
    using c(1) [folded b1_def] on(3) ri sh by (cases "?m old") (auto simp: cb_subsume_def b'_def mm_def realm_assert_bind)
  have "?m old = None" if "old \<notin> ?I" using that dom1 by auto
  then have src: "map_of mm = ?m(new := origin b old, old := None)" "distinct (map fst mm)"
    using o new1(2) on(3) dst
    by (cases "?m old"; auto simp: mm_def update_conv' delete_conv' fun_eq_iff distinct_update distinct_delete)+
  have dom: "dom (map_of mm) \<subseteq> ?I" "old \<notin> dom (map_of mm)" using src(1) dom1 new1(1) by (auto split: if_splits)
  define g where "g k = (if k = new then old else k)" for k
  have I: "k < n" if "k \<in> ?I" for k using that s by (auto simp: shape_def)
  have h: "\<forall>k \<in> dom (map_of mm). map_of mm k = origin b1 (g k) \<and> g k < n"
  proof
    fix k assume "k \<in> dom (map_of mm)"
    then have "k \<in> ?I" "k \<noteq> old" using dom by auto
    then show "map_of mm k = origin b1 (g k) \<and> g k < n"
      using src(1) row_origin [OF r1(1) I, of k] I on(1) by (simp add: g_def r1(2))
  qed
  have "inj_on g (dom (map_of mm))" using dom(2) by (auto simp: inj_on_def g_def split: if_splits)
  moreover define P where "P = (if old \<in> ?I then {} else {old})"
  have "\<forall>k \<in> dom (map_of mm). g k \<notin> ?I \<longrightarrow> g k \<in> ?D \<union> P \<and> g k \<notin> {}" using dom(1) by (auto simp: g_def P_def)
  moreover have "?D \<union> {} \<subseteq> ?D \<union> P" by blast
  ultimately have ran: "ran (map_of mm) \<subseteq> ?D \<union> P" "inj_on (map_of mm) (dom (map_of mm))"
    using mapping_from_origin [OF r1(1) h] by blast+
  have r': "row_ok mx N n P b'"
    using r1(1,3) src(2) dom(1) ran
    by (intro row_okI [OF _ _ _ _ refl]) (auto simp: b'_def row_ok_def cb_ok_def P_def)
  have "origin b' new = origin b old" "\<forall>k < n. k \<noteq> new \<longrightarrow> k \<noteq> old \<longrightarrow> origin b' k = origin b k"
    using row_origin [OF r'] row_origin [OF r1(1)] src(1) new1 on r1(2) by (auto simp: b'_def)
  moreover have "cols_by ?g b b'"
    by (rule cols_by_cong [THEN iffD2, OF _ _ c(3)]) (simp_all add: b'_def b1_def)
  ultimately show ?thesis using run r' by (auto simp: P_def b1_def)
qed

lemma cb_insert_rows:
  assumes r: "row_ok mx N n {} b" and c: "0 < c"
  shows "\<exists>b'. cb_insert mx n c True b = Some b' \<and> row_ok mx N (n + c) {} b' \<and>
    origin b' = row_insert n c None (origin b) \<and> cols_by (row_insert n c False) b b'"
proof -
  have ok: "cb_ok mx b" and I: "indexes (insertions b) \<subseteq> {..<n}" and M: "indexes (modifications b) \<subseteq> {..<n}"
    and mv: "moves b = []" and dst: "distinct (map fst (m_move_mapping b))"
    and dom: "dom (map_of (m_move_mapping b)) \<subseteq> indexes (insertions b)" using r by (auto simp: row_ok_def shape_def)
  obtain m cs where f: "for_each_col (is_shift_for_insert_at mx n c) b = Some (b\<lparr>modifications := m, columns := cs\<rparr>)"
    "cb_ok mx (b\<lparr>modifications := m, columns := cs\<rparr>)"
    "cols_by (row_insert n c False) b (b\<lparr>modifications := m, columns := cs\<rparr>)"
    using for_each_col_spec [OF ok, of "is_shift_for_insert_at mx n c" "row_insert n c False"]
      is_shift_for_insert_at_rows [OF _ c] by blast
  obtain ins where ins: "is_insert_at mx n c (insertions b) = Some ins" "iset_ok mx ins"
    "indexes ins = ins_shift n c (indexes (insertions b)) \<union> {n..<n + c}"
    using is_insert_at_rows [of mx "insertions b" c n] ok c by (auto simp: cb_ok_def)
  have I': "indexes ins = indexes (insertions b) \<union> {n..<n + c}"
  proof -
    have "k - c \<notin> indexes (insertions b)" if "n + c \<le> k" for k using I that by force
    then show ?thesis unfolding ins(3) using I by (auto simp: ins_shift_iff row_insert_def not_less)
  qed
  have lt: "fst p < n" if "p \<in> set (m_move_mapping b)" for p
  proof -
    have "fst p \<in> dom (map_of (m_move_mapping b))" using that by (simp add: dom_map_of_conv_image_fst)
    then show ?thesis using dom I by auto
  qed
  then have keep: "shift_mapping n c (m_move_mapping b) = m_move_mapping b"
    by (simp add: shift_mapping_def filter_id_conv filter_empty_conv not_le flip: not_le)
  let ?b = "b\<lparr>modifications := m, columns := cs, insertions := ins\<rparr>"
  have run: "cb_insert mx n c True b = Some ?b"
    using f(1) ins(1) c mv keep by (cases b) (simp add: cb_insert_def realm_assert_bind Let_def)
  have e: "(\<lambda>k. k \<in> indexes m) = row_insert n c False (\<lambda>k. k \<in> indexes (modifications b))"
    using f(3) modified_iff [OF ok] modified_iff [OF f(2)] by (simp add: cols_by_def)
  have "k < n + c" if "k \<in> indexes m" for k
    using fun_cong [OF e, of k] that M by (auto simp: row_insert_def split: if_splits)
  then have "row_ok mx N (n + c) {} ?b"
    using r f(2) ins(2) I' shape_grow [of N n "indexes (deletions b)" "indexes (insertions b)" c]
    by (auto simp: row_ok_def cb_ok_def)
  then show ?thesis using run cb_insert_correct [OF ok c, of n] by auto
qed

subsection \<open>parse_complete\<close>

lemma parse_moves_fold:
  "cb_ok mx b \<Longrightarrow> \<exists>b'. foldM (parse_move mx) ps b = Some b' \<and> cb_ok mx b' \<and>
     indexes (deletions b') = indexes (deletions b) - {x. (x, x) \<in> set ps} \<and>
     indexes (insertions b') = indexes (insertions b) - {x. (x, x) \<in> set ps} \<and>
     moves b' = moves b @ map (\<lambda>p. \<lparr>mv_from = snd p, mv_to = fst p\<rparr>) (filter (\<lambda>p. fst p \<noteq> snd p) ps) \<and>
     modifications b' = modifications b \<and> columns b' = columns b"
proof (induction ps arbitrary: b)
  case (Cons p ps)
  obtain b1 where b1: "parse_move mx p b = Some b1" "cb_ok mx b1"
    "indexes (deletions b1) = indexes (deletions b) - {x. p = (x, x)}"
    "indexes (insertions b1) = indexes (insertions b) - {x. p = (x, x)}"
    "moves b1 = moves b @ (if fst p \<noteq> snd p then [\<lparr>mv_from = snd p, mv_to = fst p\<rparr>] else [])"
    "modifications b1 = modifications b" "columns b1 = columns b"
  proof (cases "fst p = snd p")
    case True
    have iok: "iset_ok mx (deletions b)" "iset_ok mx (insertions b)" using Cons.prems by (auto simp: cb_ok_def)
    obtain d where d: "is_remove mx (snd p) 1 (deletions b) = Some d" "iset_ok mx d"
      "indexes d = indexes (deletions b) - {snd p}" using ixs.remove [OF iok(1)] by blast
    obtain i where i: "is_remove mx (fst p) 1 (insertions b) = Some i" "iset_ok mx i"
      "indexes i = indexes (insertions b) - {fst p}" using ixs.remove [OF iok(2)] by blast
    show ?thesis
      by (rule that [of "b\<lparr>deletions := d, insertions := i\<rparr>"])
        (use True d i Cons.prems in \<open>auto simp: parse_move_def cb_ok_def prod_eq_iff\<close>)
  next
    case False
    show ?thesis
      by (rule that [of "b\<lparr>moves := moves b @ [\<lparr>mv_from = snd p, mv_to = fst p\<rparr>]\<rparr>"])
        (use False Cons.prems in \<open>auto simp: parse_move_def cb_ok_def\<close>)
  qed
  from Cons.IH [OF b1(2)] b1 show ?case by auto
qed simp

lemma map_of_drop_stale: "(k, k) \<notin> set xs \<Longrightarrow> map_of (filter (\<lambda>p. fst p \<noteq> snd p) xs) k = map_of xs k"
  by (induction xs) auto

lemma cb_parse_complete_correct:
  assumes r: "row_ok mx N n {} b"
  shows "\<exists>b'. cb_parse_complete mx b = Some b' \<and> list_ok mx b' \<and> (\<forall>k < n. origin b' k = origin b k) \<and>
    sorted (map mv_from (moves b')) \<and> (\<forall>m \<in> set (moves b'). mv_from m \<noteq> mv_to m) \<and>
    modifications b' = modifications b \<and> columns b' = columns b"
proof -
  let ?I = "indexes (insertions b)" and ?D = "indexes (deletions b)" and ?mm = "m_move_mapping b"
  have ok: "cb_ok mx b" and s: "shape N n ?D ?I" and mv: "moves b = []" and dst: "distinct (map fst ?mm)"
    and dom: "dom (map_of ?mm) \<subseteq> ?I" and ran: "ran (map_of ?mm) \<subseteq> ?D" and inj: "\<forall>x y v. map_of ?mm x = Some v \<longrightarrow> map_of ?mm y = Some v \<longrightarrow> x = y"
    using r by (auto simp: row_ok_def inj_on_map_iff)
  define S where "S = {x. (x, x) \<in> set ?mm}"
  define ms where "ms = map (\<lambda>p. \<lparr>mv_from = snd p, mv_to = fst p\<rparr>) (filter (\<lambda>p. fst p \<noteq> snd p) ?mm)"
  obtain b1 where b1: "foldM (parse_move mx) ?mm b = Some b1" "cb_ok mx b1" "indexes (deletions b1) = ?D - S"
    "indexes (insertions b1) = ?I - S" "moves b1 = ms" "modifications b1 = modifications b" "columns b1 = columns b"
    using parse_moves_fold [OF ok, of ?mm] mv by (auto simp: S_def ms_def)
  define b' where "b' = b1\<lparr>m_move_mapping := [], moves := sort_key mv_from ms\<rparr>"
  have run: "cb_parse_complete mx b = Some b'" using b1 by (simp add: cb_parse_complete_def b'_def)
  have ok': "cb_ok mx b'" using b1(2) by (simp add: cb_ok_def b'_def)
  have some: "map_of ?mm k = Some v" if "(k, v) \<in> set ?mm" for k v using that dst by simp
  have S: "S \<subseteq> ?I" using some dom by (auto simp: S_def)
  have SD: "S \<subseteq> ?D" using some ran by (fastforce simp: S_def intro: ranI)
  have s': "shape N n (?D - S) (?I - S)" using s S SD by (auto simp: shape_def)
  have mem: "m \<in> set ms \<Longrightarrow> (mv_to m, mv_from m) \<in> set ?mm \<and> mv_to m \<noteq> mv_from m" for m by (auto simp: ms_def)
  have "map mv_to ms = map fst (filter (\<lambda>p. fst p \<noteq> snd p) ?mm)" "map mv_from ms = map snd (filter (\<lambda>p. fst p \<noteq> snd p) ?mm)"
    by (simp_all add: ms_def)
  then have d1: "distinct (map mv_to ms)" using dst by (simp add: distinct_map_filter)
  have d2: "distinct (map mv_from ms)"
  proof -
    have "distinct ms" using d1 by (simp add: distinct_map)
    moreover have "inj_on mv_from (set ms)"
      using mem some inj by (intro inj_onI) (metis move.equality old.unit.exhaust)
    ultimately show ?thesis by (simp add: distinct_map)
  qed
  have "moves_ok b'"
  proof -
    have "distinct (map mv_to (sort_key mv_from ms))" "distinct (map mv_from (sort_key mv_from ms))"
      using d1 d2 by (simp_all add: distinct_map)
    moreover have "mv_from m \<in> ?D - S \<and> mv_to m \<in> ?I - S" if "m \<in> set ms" for m
    proof -
      note a = mem [OF that]
      have v: "map_of ?mm (mv_to m) = Some (mv_from m)" using some a by blast
      have "mv_to m \<notin> S" unfolding S_def using v some a by (metis mem_Collect_eq option.inject)
      moreover have "mv_from m \<notin> S" unfolding S_def using v some inj a by (metis mem_Collect_eq)
      ultimately show ?thesis using v dom ran by (auto simp: ran_def)
    qed
    ultimately show ?thesis using b1(3,4) by (simp add: moves_ok_def b'_def)
  qed
  moreover have "origin b' k = origin b k" if k: "k < n" for k
  proof -
    have pairs: "set (move_pairs (sort_key mv_from ms)) = set (filter (\<lambda>p. fst p \<noteq> snd p) ?mm)"
      by (force simp: ms_def)
    have "distinct (map fst (move_pairs (sort_key mv_from ms)))" using d1 by (simp add: comp_def distinct_map)
    then have "map_of (move_pairs (sort_key mv_from ms)) = map_of (filter (\<lambda>p. fst p \<noteq> snd p) ?mm)"
      using pairs dst by (subst map_of_inject_set) (auto simp: distinct_map_filter)
    then have src: "sources b' = map_of (filter (\<lambda>p. fst p \<noteq> snd p) ?mm)" by (simp add: sources_def b'_def)
    have o': "origin b' k = (if k \<in> ?I - S then sources b' k else Some k)"
      using origin_orig [OF ok'] shape_free(3) [OF s' _ k] b1(3,4) by (simp add: orig_def b'_def)
    have f: "sources b' k = map_of ?mm k" if "k \<notin> S"
      using that map_of_drop_stale [of k ?mm] unfolding src S_def by simp
    have "map_of ?mm k = Some k" if "k \<in> S" using that some by (simp add: S_def)
    then show ?thesis using o' row_origin [OF r k] f S by auto
  qed
  moreover have "sorted (map mv_from (moves b'))" "\<forall>m \<in> set (moves b'). mv_from m \<noteq> mv_to m"
    using mem [THEN conjunct2] by (fastforce simp: b'_def)+
  ultimately show ?thesis using run ok' b1(6,7) by (auto simp: list_ok_def b'_def)
qed

end
