(* ===== verification/Change_Runs.thy ===== *)
theory Change_Runs
  imports Change_Rows
begin

text \<open>
  Whole runs of the change builder.  The reference is an edit of the list of rows itself: every
  row carries the position it had in the old collection (\<open>None\<close> for a new row).  A run of list
  operations, and a run of table operations, is simulated by the builder: its \<open>origin\<close> map lists
  exactly the rows of the edited collection.
\<close>

definition contents :: "nat \<Rightarrow> change_builder \<Rightarrow> nat option list" where
  "contents n b = map (origin b) [0..<n]"

subsection \<open>Editing a list of rows\<close>

definition list_insert :: "nat \<Rightarrow> 'a list \<Rightarrow> 'a list \<Rightarrow> 'a list" where
  "list_insert i ys xs = take i xs @ ys @ drop i xs"

definition list_erase :: "nat \<Rightarrow> 'a list \<Rightarrow> 'a list" where
  "list_erase i xs = take i xs @ drop (Suc i) xs"

lemma nth_list_insert:
  "i \<le> length xs \<Longrightarrow> k < length xs + length ys \<Longrightarrow>
   list_insert i ys xs ! k = (if k < i then xs ! k else if k < i + length ys then ys ! (k - i) else xs ! (k - length ys))"
  by (auto simp: list_insert_def nth_append min_def)

lemma nth_list_erase:
  "i < length xs \<Longrightarrow> k < length xs - 1 \<Longrightarrow> list_erase i xs ! k = (if k < i then xs ! k else xs ! (k + 1))"
  by (auto simp: list_erase_def nth_append min_def)

lemma length_list_edit [simp]:
  "length (list_insert i ys xs) = length xs + length ys"
  "i < length xs \<Longrightarrow> length (list_erase i xs) = length xs - 1"
  by (auto simp: list_insert_def list_erase_def)

lemma map_row_insert:
  assumes "i \<le> n"
  shows "map (row_insert i c d f) [0..<n + c] = list_insert i (replicate c d) (map f [0..<n])"
  by (rule nth_equalityI) (use assms in \<open>auto simp: nth_list_insert row_insert_def\<close>)

lemma map_row_erase:
  assumes "i < n"
  shows "map (row_erase i f) [0..<n - 1] = list_erase i (map f [0..<n])"
  by (rule nth_equalityI) (use assms in \<open>auto simp: nth_list_erase row_erase_def\<close>)

lemma map_row_move:
  assumes "from < n" "to < n"
  shows "map (row_move from to f) [0..<n] =
    list_insert to [map f [0..<n] ! from] (list_erase from (map f [0..<n]))"
proof -
  have "map (row_move from to f) [0..<n] = map (row_insert to 1 (f from) (row_erase from f)) [0..<(n - 1) + 1]"
    using assms by (simp add: row_move_def)
  also have "\<dots> = list_insert to [f from] (map (row_erase from f) [0..<n - 1])"
    using map_row_insert [of to "n - 1" 1 "f from" "row_erase from f"] assms by simp
  finally show ?thesis using map_row_erase [OF assms(1), of f] assms by (simp del: upt_Suc)
qed

subsection \<open>Runs of list operations\<close>

datatype list_op = Insert nat nat | Erase nat | Move nat nat | Modify nat nat

fun list_apply :: "nat \<Rightarrow> list_op \<Rightarrow> change_builder \<Rightarrow> change_builder option" where
  "list_apply mx (Insert i n) b = cb_insert mx i n True b"
| "list_apply mx (Erase i) b = cb_erase mx i b"
| "list_apply mx (Move from to) b = cb_move mx from to b"
| "list_apply mx (Modify i col) b = cb_modify mx i col b"

fun list_edit :: "list_op \<Rightarrow> 'a option list \<Rightarrow> 'a option list" where
  "list_edit (Insert i n) xs = list_insert i (replicate n None) xs"
| "list_edit (Erase i) xs = list_erase i xs"
| "list_edit (Move from to) xs = list_insert to [xs ! from] (list_erase from xs)"
| "list_edit (Modify i col) xs = xs"

fun list_flags :: "list_op \<Rightarrow> (nat \<Rightarrow> bool) \<Rightarrow> nat \<Rightarrow> bool" where
  "list_flags (Insert i n) f = row_insert i n False f"
| "list_flags (Erase i) f = row_erase i f"
| "list_flags (Move from to) f = row_move from to f"
| "list_flags (Modify i col) f = f(i := True)"

fun list_op_ok :: "list_op \<Rightarrow> nat \<Rightarrow> bool" where
  "list_op_ok (Insert i c) n \<longleftrightarrow> 0 < c \<and> i \<le> n"
| "list_op_ok (Erase i) n \<longleftrightarrow> i < n"
| "list_op_ok (Move from to) n \<longleftrightarrow> from \<noteq> to \<and> from < n \<and> to < n"
| "list_op_ok (Modify i col) n \<longleftrightarrow> i < n"

fun list_ops_ok :: "list_op list \<Rightarrow> nat \<Rightarrow> bool" where
  "list_ops_ok [] n \<longleftrightarrow> n \<le> npos"
| "list_ops_ok (op # ops) n \<longleftrightarrow> n \<le> npos \<and> list_op_ok op n \<and>
     list_ops_ok ops (length (list_edit op (replicate n (None :: nat option))))"

lemma list_edit_length_cong: "length xs = length ys \<Longrightarrow> length (list_edit op xs) = length (list_edit op ys)"
  by (cases op) (auto simp: list_insert_def list_erase_def)

lemma list_step:
  assumes l: "list_ok mx b" and op: "list_op_ok op n" "n \<le> npos"
  shows "\<exists>b'. list_apply mx op b = Some b' \<and> list_ok mx b' \<and>
    contents (length (list_edit op (contents n b))) b' = list_edit op (contents n b) \<and>
    modified b' = list_flags op (modified b)"
proof (cases op)
  case (Insert i c)
  then show ?thesis using cb_insert_correct [of mx b c i] l op map_row_insert [of i n c None "origin b"]
    by (auto simp: contents_def list_ok_def cols_by_def)
next
  case (Erase i)
  then show ?thesis using cb_erase_correct [OF l, of i] op map_row_erase [of i n "origin b"]
    by (auto simp: contents_def cols_by_def)
next
  case (Move i j)
  then have "length (list_edit op (contents n b)) = n" using op by (auto simp: contents_def)
  then show ?thesis using Move cb_move_correct [OF l, of i j] op map_row_move [of i n j "origin b"]
    by (auto simp: contents_def cols_by_def)
next
  case (Modify i col)
  have ok: "cb_ok mx b" using l by (simp add: list_ok_def)
  obtain b' where b': "cb_modify mx i col b = Some b'" "cb_ok mx b'" "origin b' = origin b"
    "modified b' = (modified b)(i := True)" "moves b' = moves b" "m_move_mapping b' = m_move_mapping b"
    "deletions b' = deletions b" "insertions b' = insertions b"
    using cb_modify_correct [OF ok, of i col]
    by (auto simp: cb_modify_def bind_eq_Some_conv Let_def split: if_splits)
  then show ?thesis using Modify l by (auto simp: contents_def list_ok_def moves_ok_def)
qed

lemma list_run:
  "list_ok mx b \<Longrightarrow> list_ops_ok ops n \<Longrightarrow>
   \<exists>b'. foldM (list_apply mx) ops b = Some b' \<and> list_ok mx b' \<and>
     contents (length (fold list_edit ops (contents n b))) b' = fold list_edit ops (contents n b) \<and>
     modified b' = fold list_flags ops (modified b)"
proof (induction ops arbitrary: b n)
  case Nil
  then show ?case by (simp add: contents_def)
next
  case (Cons op ops)
  let ?n = "length (list_edit op (contents n b))"
  have op: "list_op_ok op n" "n \<le> npos" using Cons.prems(2) by auto
  obtain b1 where b1: "list_apply mx op b = Some b1" "list_ok mx b1"
    "contents ?n b1 = list_edit op (contents n b)" "modified b1 = list_flags op (modified b)"
    using list_step [OF Cons.prems(1) op] by blast
  have "list_ops_ok ops ?n"
    using Cons.prems(2) list_edit_length_cong [of "contents n b" "replicate n (None :: nat option)" op]
    by (simp add: contents_def)
  from Cons.IH [OF b1(2) this] show ?case using b1 by simp
qed

subsection \<open>Runs of table operations\<close>

datatype row_op = Add_Rows nat | Move_Last_Over nat | Swap nat nat

fun row_apply :: "nat \<Rightarrow> row_op \<Rightarrow> nat \<times> change_builder \<Rightarrow> (nat \<times> change_builder) option" where
  "row_apply mx (Add_Rows c) (n, b) = do { b' \<leftarrow> cb_insert mx n c True b; Some (n + c, b') }"
| "row_apply mx (Move_Last_Over i) (n, b) = do { b' \<leftarrow> cb_move_over mx i (n - 1) True b; Some (n - 1, b') }"
| "row_apply mx (Swap i j) (n, b) = do { b' \<leftarrow> cb_swap mx i j True b; Some (n, b') }"

fun row_edit :: "row_op \<Rightarrow> 'a option list \<Rightarrow> 'a option list" where
  "row_edit (Add_Rows c) xs = xs @ replicate c None"
| "row_edit (Move_Last_Over i) xs = butlast (xs[i := last xs])"
| "row_edit (Swap i j) xs = xs[i := xs ! j, j := xs ! i]"

fun row_op_ok :: "row_op \<Rightarrow> nat \<Rightarrow> bool" where
  "row_op_ok (Add_Rows c) n \<longleftrightarrow> 0 < c"
| "row_op_ok (Move_Last_Over i) n \<longleftrightarrow> i < n"
| "row_op_ok (Swap i j) n \<longleftrightarrow> i < n \<and> j < n \<and> i \<noteq> j"

fun row_ops_ok :: "row_op list \<Rightarrow> nat \<Rightarrow> bool" where
  "row_ops_ok [] n \<longleftrightarrow> n \<le> npos"
| "row_ops_ok (op # ops) n \<longleftrightarrow> n \<le> npos \<and> row_op_ok op n \<and>
     row_ops_ok ops (length (row_edit op (replicate n (None :: nat option))))"

lemma row_edit_length_cong: "length xs = length ys \<Longrightarrow> length (row_edit op xs) = length (row_edit op ys)"
  by (cases op) auto

lemma row_step:
  assumes r: "row_ok mx N n {} b" and op: "row_op_ok op n" "n \<le> npos"
  shows "\<exists>n' b'. row_apply mx op (n, b) = Some (n', b') \<and> row_ok mx N n' {} b' \<and>
    n' = length (row_edit op (contents n b)) \<and> contents n' b' = row_edit op (contents n b)"
proof (cases op)
  case (Add_Rows c)
  then obtain b' where "cb_insert mx n c True b = Some b'" "row_ok mx N (n + c) {} b'"
    "origin b' = row_insert n c None (origin b)" using cb_insert_rows [OF r, of c] op by auto
  then show ?thesis using Add_Rows map_row_insert [of n n c None "origin b"]
    by (simp add: contents_def list_insert_def)
next
  case (Move_Last_Over i)
  then obtain l where l: "n = Suc l" "i \<le> l" "l < npos" using op by (cases n) auto
  obtain b' where b': "cb_move_over mx i l True b = Some b'" "row_ok mx N l {} b'"
    "\<forall>k < l. origin b' k = ((origin b)(i := origin b l)) k"
    using cb_move_over_correct [of mx N l "{}" b i] r l by auto
  have "contents l b' = butlast ((contents n b)[i := last (contents n b)])"
    by (rule nth_equalityI) (use b'(3) l in \<open>auto simp: contents_def nth_butlast nth_list_update nth_append\<close>)
  then show ?thesis using Move_Last_Over l b' by (simp add: contents_def)
next
  case (Swap i j)
  then obtain b' where b': "cb_swap mx i j True b = Some b'" "row_ok mx N n {} b'"
    "\<forall>k < n. origin b' k = ((origin b)(i := origin b j, j := origin b i)) k"
    using cb_swap_correct [OF r, of i j] op by auto
  have "contents n b' = (contents n b)[i := contents n b ! j, j := contents n b ! i]"
    by (rule nth_equalityI) (use b'(3) Swap op in \<open>auto simp: contents_def nth_list_update\<close>)
  then show ?thesis using Swap b' by (simp add: contents_def)
qed

lemma row_run:
  "row_ok mx N n {} b \<Longrightarrow> row_ops_ok ops n \<Longrightarrow>
   \<exists>n' b'. foldM (row_apply mx) ops (n, b) = Some (n', b') \<and> row_ok mx N n' {} b' \<and>
     contents n' b' = fold row_edit ops (contents n b)"
proof (induction ops arbitrary: b n)
  case Nil
  then show ?case by simp
next
  case (Cons op ops)
  have op: "row_op_ok op n" "n \<le> npos" using Cons.prems(2) by auto
  obtain n1 b1 where b1: "row_apply mx op (n, b) = Some (n1, b1)" "row_ok mx N n1 {} b1"
    "n1 = length (row_edit op (contents n b))" "contents n1 b1 = row_edit op (contents n b)"
    using row_step [OF Cons.prems(1) op] by blast
  have "row_ops_ok ops n1"
    using Cons.prems(2) row_edit_length_cong [of "contents n b" "replicate n (None :: nat option)" op] b1(3)
    by (simp add: contents_def)
  from Cons.IH [OF b1(2) this] show ?case using b1 by simp
qed

subsection \<open>The empty builder\<close>

lemma cb_default_ok:
  assumes "max_size_ok mx"
  shows "list_ok mx cb_default" "row_ok mx N N {} cb_default" "contents N cb_default = map Some [0..<N]"
    "modified cb_default = (\<lambda>_. False)"
proof -
  have ok: "cb_ok mx cb_default" using assms by (simp add: cb_default_def cb_ok_def iset_ok_def)
  then show "list_ok mx cb_default" "row_ok mx N N {} cb_default"
    by (auto simp: list_ok_def moves_ok_def row_ok_def cb_default_def shape_def)
  have "free {} (unrank {} k) = k" for k by simp
  then have "origin cb_default = Some"
    unfolding origin_orig [OF ok] by (simp add: orig_def cb_default_def fun_eq_iff)
  then show "contents N cb_default = map Some [0..<N]" by (simp add: contents_def)
  show "modified cb_default = (\<lambda>_. False)" using modified_iff [OF ok] by (simp add: cb_default_def)
qed

end
