(* ===== verification/Change_Merge.thy ===== *)
theory Change_Merge
  imports Change_Lists "HOL-Library.Multiset" "HOL-Library.Sublist"
begin

text \<open>
  \<open>CollectionChangeBuilder::merge\<close>: the change set of two consecutive edits.  The origin map of the
  result is the composition of the two origin maps; a row that has an origin is modified when the
  second edit modified it or the first modified the row it came from.
\<close>

subsection \<open>Composition of numberings\<close>

lemma unrank_Un_moved: "unrank (D \<union> moved D T) f = unrank T (unrank D f)"
  by (induction f) (auto simp: unrank_Suc moved_def)

lemma Un_moved_unrank: "I \<union> moved I (unrank I ` (X - I)) = I \<union> X"
proof -
  have "k \<in> X" if "k \<notin> I" "x \<in> X" "x \<notin> I" "unrank I k = unrank I x" for k x
    using that unrank_inj by blast
  then show ?thesis by (auto simp: moved_def)
qed

lemma unrank_unrank: "unrank (unrank I ` (X - I)) (unrank I j) = unrank (I \<union> X) j"
  using unrank_Un_moved [of I "unrank I ` (X - I)" j] by (simp add: Un_moved_unrank)

lemma free_compose:
  assumes fin: "finite D" "finite D1" "finite I1" and j: "j \<notin> I" "j \<notin> D1" and k: "k \<notin> I1" "unrank I1 k = unrank D1 j"
  shows "free (D \<union> moved D (unrank I ` (D1 - I))) (unrank (I1 \<union> moved I1 (unrank D1 ` (I - D1))) k) =
    free D (unrank I j)"
proof (rule free_eqI)
  let ?f = "free D (unrank I j)"
  have f: "?f \<notin> D" "unrank D ?f = unrank I j" using free_props [OF fin(1)] by auto
  have "unrank I j \<notin> unrank I ` (D1 - I)" using j unrank_inj by blast
  then show "?f \<notin> D \<union> moved D (unrank I ` (D1 - I))" using f by (simp add: moved_def)
  show "unrank (D \<union> moved D (unrank I ` (D1 - I))) ?f = unrank (I1 \<union> moved I1 (unrank D1 ` (I - D1))) k"
    using f k unrank_unrank [of I D1 j] unrank_unrank [of D1 I j] by (simp add: unrank_Un_moved Un_commute)
  have "moved D T \<subseteq> free D ` T" for T
  proof
    fix x assume "x \<in> moved D T"
    then have "x = free D (unrank D x)" "unrank D x \<in> T" using fin(1) by (auto simp: moved_def)
    then show "x \<in> free D ` T" by blast
  qed
  then have "finite (moved D (unrank I ` (D1 - I)))" using fin(2) by (metis finite_Diff finite_imageI finite_subset)
  then show "finite (D \<union> moved D (unrank I ` (D1 - I)))" using fin(1) by simp
qed

text \<open>\<open>comp f g\<close>: the origin map of two consecutive edits.\<close>

definition orig_comp :: "(nat \<Rightarrow> nat option) \<Rightarrow> (nat \<Rightarrow> nat option) \<Rightarrow> nat \<Rightarrow> nat option" where
  "orig_comp f g k = (case g k of None \<Rightarrow> None | Some j \<Rightarrow> f j)"

lemma orig_merge:
  assumes fin: "finite D" "finite D1" "finite I1"
    and src: "\<forall>k \<in> I2. src2 k = orig_comp (orig D I src) (orig D1 I1 src1) k"
    and sets: "D2 = D \<union> moved D (unrank I ` (D1 - I))" "I2 = I1 \<union> moved I1 (unrank D1 ` (I - D1))"
  shows "orig D2 I2 src2 = orig_comp (orig D I src) (orig D1 I1 src1)"
proof
  fix k
  show "orig D2 I2 src2 k = orig_comp (orig D I src) (orig D1 I1 src1) k"
  proof (cases "k \<in> I2")
    case True
    then show ?thesis using src by (simp add: orig_def)
  next
    case False
    define j where "j = free D1 (unrank I1 k)"
    have k: "k \<notin> I1" "unrank I1 k \<notin> unrank D1 ` (I - D1)" using False sets(2) by (auto simp: moved_def)
    have j: "j \<notin> D1" "unrank D1 j = unrank I1 k" using free_props [OF fin(2)] by (auto simp: j_def)
    then have "j \<notin> I" using k(2) by (metis DiffI imageI)
    then show ?thesis using free_compose [OF fin _ j(1) k(1), of I] j False k(1) sets
      by (simp add: orig_def orig_comp_def flip: j_def)
  qed
qed

lemma merged_insertions_iff:
  assumes "finite D1"
  shows "k \<in> I1 \<union> moved I1 (unrank D1 ` (I - D1)) \<longleftrightarrow> k \<in> I1 \<or> free D1 (unrank I1 k) \<in> I"
proof -
  note f = free_props [OF assms, of "unrank I1 k"]
  have "unrank I1 k \<in> unrank D1 ` (I - D1) \<longleftrightarrow> free D1 (unrank I1 k) \<in> I"
  proof
    assume "unrank I1 k \<in> unrank D1 ` (I - D1)"
    then obtain x where x: "x \<in> I" "x \<notin> D1" "unrank I1 k = unrank D1 x" by auto
    then have "free D1 (unrank I1 k) = x" using assms by simp
    then show "free D1 (unrank I1 k) \<in> I" using x by simp
  next
    assume "free D1 (unrank I1 k) \<in> I"
    then show "unrank I1 k \<in> unrank D1 ` (I - D1)" using f by (metis DiffI imageI)
  qed
  then show ?thesis by (auto simp: moved_def)
qed

subsection \<open>Removing stale moves\<close>

definition moves_within :: "nat set \<Rightarrow> nat set \<Rightarrow> move list \<Rightarrow> bool" where
  "moves_within D I ms \<longleftrightarrow> distinct (map mv_to ms) \<and> distinct (map mv_from ms) \<and>
     (\<forall>m \<in> set ms. mv_from m \<in> D \<and> mv_to m \<in> I)"

lemma is_count_unrank: "iset_ok mx v \<Longrightarrow> i - is_count v 0 i = unrank (indexes v) i"
  using is_count_from_zero [of mx v i] by (simp add: iset_ok_def unrank_eq)

lemma map_of_pairs_remove:
  assumes "distinct (map mv_to (ps @ m # ms))" "k \<noteq> mv_to m"
  shows "map_of (move_pairs (ps @ m # ms)) k = map_of (move_pairs (ps @ ms)) k"
  using assms by (induction ps) auto

lemma map_of_pairs_mem:
  "distinct (map mv_to ms) \<Longrightarrow> m \<in> set ms \<Longrightarrow> map_of (move_pairs ms) (mv_to m) = Some (mv_from m)"
  by (rule map_of_is_SomeI) (auto simp: comp_def)

lemma clean_moves_correct:
  "iset_ok mx d \<Longrightarrow> iset_ok mx i \<Longrightarrow> moves_within (indexes d) (indexes i) (ps @ ms) \<Longrightarrow>
   \<exists>ms' d' i'. clean_moves mx ms d i = Some (ms', d', i') \<and> iset_ok mx d' \<and> iset_ok mx i' \<and>
     moves_within (indexes d') (indexes i') (ps @ ms') \<and>
     orig (indexes d') (indexes i') (map_of (move_pairs (ps @ ms'))) =
     orig (indexes d) (indexes i) (map_of (move_pairs (ps @ ms)))"
proof (induction ms arbitrary: ps d i)
  case Nil
  then show ?case by simp
next
  case (Cons m ms)
  have c: "mv_from m - is_count d 0 (mv_from m) = unrank (indexes d) (mv_from m)"
    "mv_to m - is_count i 0 (mv_to m) = unrank (indexes i) (mv_to m)"
    using Cons.prems is_count_unrank by auto
  show ?case
  proof (cases "unrank (indexes d) (mv_from m) = unrank (indexes i) (mv_to m)")
    case False
    from Cons.IH [of d i "ps @ [m]"] Cons.prems c False show ?thesis by auto
  next
    case True
    obtain d1 where d1: "is_remove mx (mv_from m) 1 d = Some d1" "iset_ok mx d1" "indexes d1 = indexes d - {mv_from m}"
      using ixs.remove [OF Cons.prems(1)] by blast
    obtain i1 where i1: "is_remove mx (mv_to m) 1 i = Some i1" "iset_ok mx i1" "indexes i1 = indexes i - {mv_to m}"
      using ixs.remove [OF Cons.prems(2)] by blast
    have w: "moves_within (indexes d1) (indexes i1) (ps @ ms)"
      using Cons.prems(3) d1(3) i1(3) by (auto simp: moves_within_def) (metis image_eqI)+
    have m: "mv_from m \<in> indexes d" "mv_to m \<in> indexes i" "distinct (map mv_to (ps @ m # ms))"
      using Cons.prems(3) by (auto simp: moves_within_def)
    let ?src = "map_of (move_pairs (ps @ m # ms))"
    have "orig (indexes d1) (indexes i1) (map_of (move_pairs (ps @ ms))) = orig (indexes d1) (indexes i1) ?src"
      using i1(3) map_of_pairs_remove [OF m(3)] by (intro orig_cong) (metis DiffD2 singletonI)
    also have "\<dots> = (orig (indexes d) (indexes i) ?src)(mv_to m := Some (mv_from m))"
      unfolding d1(3) i1(3) by (rule orig_unmark) (use m True in auto)
    also have "\<dots> = orig (indexes d) (indexes i) ?src"
    proof -
      have "orig (indexes d) (indexes i) ?src (mv_to m) = Some (mv_from m)"
        using m(2) map_of_pairs_mem [OF m(3), of m] by (simp add: orig_def)
      then show ?thesis by (simp add: fun_upd_idem)
    qed
    finally have e: "orig (indexes d1) (indexes i1) (map_of (move_pairs (ps @ ms))) = orig (indexes d) (indexes i) ?src" .
    from Cons.IH [OF d1(2) i1(2) w] c True d1(1) i1(1) show ?thesis unfolding e by simp
  qed
qed

subsection \<open>Columns during a merge\<close>

definition same_rows :: "change_builder \<Rightarrow> change_builder \<Rightarrow> bool" where
  "same_rows b b' \<longleftrightarrow> deletions b' = deletions b \<and> insertions b' = insertions b \<and>
     m_move_mapping b' = m_move_mapping b \<and> m_track_columns b' = m_track_columns b"

lemma same_rows_refl [simp]: "same_rows b b"
  by (simp add: same_rows_def)

lemma same_rows_trans: "same_rows b c \<Longrightarrow> same_rows c d \<Longrightarrow> same_rows b d"
  by (simp add: same_rows_def)

lemma resize_ok: "max_size_ok mx \<Longrightarrow> \<forall>c \<in> set cs. iset_ok mx c \<Longrightarrow> \<forall>c \<in> set (resize [] n cs). iset_ok mx c"
  by (auto simp: resize_def iset_ok_Nil dest: in_set_takeD)

lemma pad_columns_correct:
  assumes "cb_ok mx b" "cb_ok mx c"
  shows "\<exists>b' c'. pad_columns (b, c) = (b', c') \<and> cb_ok mx b' \<and> cb_ok mx c' \<and> same_rows b b' \<and> same_rows c c' \<and>
    moves b' = moves b \<and> moves c' = moves c \<and> modifications b' = modifications b \<and> modifications c' = modifications c"
proof -
  have mx: "max_size_ok mx" using assms(1) by (simp add: cb_ok_def iset_ok_def)
  have r: "\<forall>x \<in> set (resize [] n (columns b)). iset_ok mx x" "\<forall>x \<in> set (resize [] n (columns c)). iset_ok mx x" for n
    using resize_ok [OF mx] assms by (auto simp: cb_ok_def)
  show ?thesis using assms r by (auto simp: pad_columns_def Let_def cb_ok_def same_rows_def)
qed

lemma mapM_zip_ok:
  assumes "\<forall>x \<in> set xs. iset_ok mx x" "\<forall>y \<in> set ys. iset_ok mx y"
    and f: "\<And>x y. iset_ok mx x \<Longrightarrow> iset_ok mx y \<Longrightarrow> \<exists>z. f (x, y) = Some z \<and> iset_ok mx z"
  shows "\<exists>zs. mapM f (zip xs ys) = Some zs \<and> (\<forall>z \<in> set zs. iset_ok mx z)"
proof -
  have "\<forall>p \<in> set (zip xs ys). \<exists>z. f p = Some z \<and> iset_ok mx z"
  proof
    fix p assume p: "p \<in> set (zip xs ys)"
    obtain x y where xy: "p = (x, y)" by (cases p)
    then have "x \<in> set xs" "y \<in> set ys" using p set_zip_leftD set_zip_rightD by metis+
    then show "\<exists>z. f p = Some z \<and> iset_ok mx z" using assms(1,2) f xy by blast
  qed
  then have "\<exists>zs. mapM f (zip xs ys) = Some zs \<and> list_all2 (\<lambda>_ z. iset_ok mx z) (zip xs ys) zs" by (rule mapM_spec)
  then obtain zs where zs: "mapM f (zip xs ys) = Some zs" "list_all2 (\<lambda>_ z. iset_ok mx z) (zip xs ys) zs" by blast
  have "\<forall>z \<in> set zs. iset_ok mx z" using zs(2)
    by (metis in_set_conv_nth list_all2_conv_all_nth)
  then show ?thesis using zs(1) by blast
qed

lemma keep_col_correct:
  assumes "iset_ok mx col" "iset_ok mx other"
  shows "\<exists>v. keep_col mx from to col other = Some v \<and> iset_ok mx v \<and>
    indexes v = indexes other \<union> (if from \<in> indexes col then {to} else {})"
  using assms ixs.add [OF assms(2), of to] ixs.contains [OF assms(1), of "from"]
  by (auto simp: keep_col_def)

lemma keep_modified_correct:
  assumes ok: "cb_ok mx b" "cb_ok mx c"
  shows "\<exists>b' c'. keep_modified mx from to (b, c) = Some (b', c') \<and> cb_ok mx b' \<and> cb_ok mx c' \<and>
    same_rows b b' \<and> same_rows c c' \<and> moves b' = moves b \<and> moves c' = moves c \<and> modifications b' = modifications b \<and>
    indexes (modifications c') = indexes (modifications c) \<union> (if from \<in> indexes (modifications b) then {to} else {})"
proof -
  obtain m where m: "keep_col mx from to (modifications b) (modifications c) = Some m" "iset_ok mx m"
    "indexes m = indexes (modifications c) \<union> (if from \<in> indexes (modifications b) then {to} else {})"
    using keep_col_correct ok unfolding cb_ok_def by blast
  have ok1: "cb_ok mx (c\<lparr>modifications := m\<rparr>)" using ok m by (simp add: cb_ok_def)
  obtain b' c' where p: "pad_columns (b, c\<lparr>modifications := m\<rparr>) = (b', c')" "cb_ok mx b'" "cb_ok mx c'"
    "same_rows b b'" "same_rows (c\<lparr>modifications := m\<rparr>) c'" "moves b' = moves b" "moves c' = moves (c\<lparr>modifications := m\<rparr>)"
    "modifications b' = modifications b" "modifications c' = modifications (c\<lparr>modifications := m\<rparr>)"
    using pad_columns_correct [OF ok(1) ok1] by blast
  obtain cs where cs: "mapM (\<lambda>(col, other). keep_col mx from to col other) (zip (columns b') (columns c')) = Some cs"
    "\<forall>z \<in> set cs. iset_ok mx z"
    using mapM_zip_ok [of "columns b'" mx "columns c'" "\<lambda>(col, other). keep_col mx from to col other"] p(2,3)
      keep_col_correct by (fastforce simp: cb_ok_def)
  show ?thesis
  proof (cases "m_track_columns b'")
    case True
    then have "keep_modified mx from to (b, c) = Some (b', c'\<lparr>columns := cs\<rparr>)"
      using m(1) p(1) cs(1) by (simp add: keep_modified_def)
    moreover have "cb_ok mx (c'\<lparr>columns := cs\<rparr>)" "same_rows c (c'\<lparr>columns := cs\<rparr>)"
      using p(3,5) cs(2) by (simp_all add: cb_ok_def same_rows_def)
    ultimately show ?thesis using m(3) p(2,4,6-9)
      by (intro exI [of _ b'] exI [of _ "c'\<lparr>columns := cs\<rparr>"]) simp
  next
    case False
    then show ?thesis using m p
      by (intro exI [of _ b'] exI [of _ c']) (auto simp: keep_modified_def same_rows_def)
  qed
qed

lemma merge_col_correct:
  assumes "iset_ok mx d" "iset_ok mx i" "iset_ok mx col" "iset_ok mx other"
  shows "\<exists>v. merge_col mx d i col other = Some v \<and> iset_ok mx v \<and>
    indexes v = moved (indexes i) (unrank (indexes d) ` (indexes col - indexes d)) \<union> indexes other"
proof -
  have mx: "max_size_ok mx" and k: "index_set_ok mx d" "index_set_ok mx i" "index_set_ok mx col" "index_set_ok mx other"
    using assms by (auto simp: iset_ok_def)
  note e = is_erase_at_set_correct [OF mx k(3) k(1)]
  note s = is_shift_for_insert_at_set_correct [OF mx e(1) k(2)]
  from is_add_set_correct [OF s(1) k(4) mx] s(2) e(2) mx show ?thesis by (auto simp: merge_col_def iset_ok_def)
qed

lemma merge_cols_correct:
  assumes ok: "cb_ok mx b" "cb_ok mx c"
  shows "\<exists>b'. merge_cols mx (b, c) = Some b' \<and> cb_ok mx b' \<and> same_rows b b' \<and> moves b' = moves b \<and>
    indexes (modifications b') = moved (indexes (insertions c))
      (unrank (indexes (deletions c)) ` (indexes (modifications b) - indexes (deletions c))) \<union> indexes (modifications c)"
proof -
  have k: "iset_ok mx (deletions c)" "iset_ok mx (insertions c)" "iset_ok mx (modifications b)" "iset_ok mx (modifications c)"
    using ok by (auto simp: cb_ok_def)
  obtain m where m: "merge_col mx (deletions c) (insertions c) (modifications b) (modifications c) = Some m" "iset_ok mx m"
    "indexes m = moved (indexes (insertions c))
      (unrank (indexes (deletions c)) ` (indexes (modifications b) - indexes (deletions c))) \<union> indexes (modifications c)"
    using merge_col_correct [OF k] by blast
  have ok1: "cb_ok mx (b\<lparr>modifications := m\<rparr>)" using ok m by (simp add: cb_ok_def)
  obtain b' c' where p: "pad_columns (b\<lparr>modifications := m\<rparr>, c) = (b', c')" "cb_ok mx b'" "cb_ok mx c'"
    "same_rows (b\<lparr>modifications := m\<rparr>) b'" "same_rows c c'" "moves b' = moves (b\<lparr>modifications := m\<rparr>)"
    "modifications b' = modifications (b\<lparr>modifications := m\<rparr>)"
    using pad_columns_correct [OF ok1 ok(2)] by blast
  have "\<And>x y. iset_ok mx x \<Longrightarrow> iset_ok mx y \<Longrightarrow> \<exists>z. merge_col mx (deletions c') (insertions c') x y = Some z \<and> iset_ok mx z"
    using merge_col_correct p(3) by (force simp: cb_ok_def)
  then obtain cs where cs: "mapM (\<lambda>(col, other). merge_col mx (deletions c') (insertions c') col other)
      (zip (columns b') (columns c')) = Some cs" "\<forall>z \<in> set cs. iset_ok mx z"
    using mapM_zip_ok [of "columns b'" mx "columns c'" "\<lambda>(col, other). merge_col mx (deletions c') (insertions c') col other"]
      p(2,3) by (fastforce simp: cb_ok_def)
  show ?thesis
  proof (cases "m_track_columns b'")
    case True
    then show ?thesis using m p cs
      by (intro exI [of _ "b'\<lparr>columns := cs\<rparr>"]) (auto simp: merge_cols_def cb_ok_def same_rows_def)
  next
    case False
    then show ?thesis using m p by (intro exI [of _ b']) (auto simp: merge_cols_def same_rows_def)
  qed
qed

subsection \<open>Updating the recorded moves\<close>

lemma mset_remove_by_last:
  assumes "i < length xs"
  shows "mset (butlast (xs[i := last xs])) = mset xs - {#xs ! i#}"
proof (cases xs rule: rev_cases)
  case (snoc ys z)
  show ?thesis
  proof (cases "i = length ys")
    case False
    then have "i < length ys" using assms snoc by simp
    then show ?thesis using snoc by (simp add: list_update_append nth_append mset_update)
  qed (use snoc in \<open>simp add: list_update_append nth_append\<close>)
qed (use assms in simp)

lemma remove_by_last:
  assumes "i < length xs" "distinct (map f xs)" "xs' = butlast (xs[i := last xs])"
  shows "mset xs' = mset (remove1 (xs ! i) xs)" "set xs' = {x \<in> set xs. f x \<noteq> f (xs ! i)}"
proof -
  show m: "mset xs' = mset (remove1 (xs ! i) xs)" using mset_remove_by_last [OF assms(1)] assms(3) by simp
  have d: "distinct xs" using assms(2) by (simp add: distinct_map)
  then have "set xs' = set xs - {xs ! i}" using mset_eq_setD [OF m] by simp
  moreover have "x = xs ! i" if "x \<in> set xs" "f x = f (xs ! i)" for x
    using that assms(1,2) by (auto simp: distinct_map inj_on_def)
  ultimately show "set xs' = {x \<in> set xs. f x \<noteq> f (xs ! i)}" by auto
qed

lemma remove_by_last_distinct:
  assumes "i < length xs" "distinct (map f xs)"
  shows "distinct (map f (butlast (xs[i := last xs])))"
proof -
  have "mset (map f (butlast (xs[i := last xs]))) = mset (map f (remove1 (xs ! i) xs))"
    using remove_by_last(1) [OF assms refl] by (simp only: mset_map)
  moreover have "distinct (map f (remove1 (xs ! i) xs))"
    using assms(2) by (meson distinct_map distinct_remove1 inj_on_subset set_remove1_subset)
  ultimately show ?thesis by (metis mset_eq_imp_distinct_iff)
qed

text \<open>
  What the loop over the old moves does, as a relation: a move is kept when its row survives the new
  change set, with the row's new position.
\<close>

definition kept_moves :: "nat set \<Rightarrow> nat set \<Rightarrow> move list \<Rightarrow> move list \<Rightarrow> (nat \<times> nat) set" where
  "kept_moves D1 I1 news olds = {(k, f). \<exists>j. (j, f) \<in> set (move_pairs olds) \<and>
     ((k, j) \<in> set (move_pairs news) \<or>
      j \<notin> mv_from ` set news \<and> j \<notin> D1 \<and> k = free I1 (unrank D1 j))}"

definition merge_state :: "nat \<Rightarrow> change_builder \<Rightarrow> change_builder \<Rightarrow> change_builder \<times> change_builder \<Rightarrow> bool" where
  "merge_state mx b c p \<longleftrightarrow> cb_ok mx (fst p) \<and> cb_ok mx (snd p) \<and> same_rows b (fst p) \<and> same_rows c (snd p) \<and>
     modifications (fst p) = modifications b"

lemma merge_state_self: "cb_ok mx b \<Longrightarrow> cb_ok mx c \<Longrightarrow> merge_state mx b c (b, c)"
  by (simp add: merge_state_def)

lemma merge_state_trans:
  "merge_state mx b c p \<Longrightarrow> merge_state mx (fst p) (snd p) q \<Longrightarrow> merge_state mx b c q"
  by (auto simp: merge_state_def intro: same_rows_trans)

lemma merge_state_moves: "merge_state mx b c (b', c') \<Longrightarrow> merge_state mx b c (b'\<lparr>moves := ms\<rparr>, c'\<lparr>moves := ns\<rparr>)"
  by (auto simp: merge_state_def cb_ok_def same_rows_def)

lemma kept_moves_Cons:
  "kept_moves D1 I1 news (old # olds) = kept_moves D1 I1 news [old] \<union> kept_moves D1 I1 news olds"
  by (auto simp: kept_moves_def)

lemma takeWhile_found:
  assumes "i = length (takeWhile (\<lambda>m. to \<noteq> f m) xs)"
  shows "i < length xs \<longleftrightarrow> to \<in> f ` set xs" "i < length xs \<Longrightarrow> f (xs ! i) = to"
proof -
  show found: "i < length xs \<Longrightarrow> f (xs ! i) = to" using nth_length_takeWhile [of "\<lambda>m. to \<noteq> f m" xs] assms by simp
  show "i < length xs \<longleftrightarrow> to \<in> f ` set xs"
  proof
    assume "i < length xs" then show "to \<in> f ` set xs" using found by force
  next
    assume "to \<in> f ` set xs"
    then obtain x where "x \<in> set xs" "\<not> to \<noteq> f x" by auto
    then show "i < length xs" unfolding assms by (rule length_takeWhile_less)
  qed
qed

lemma kept_moves_drop:
  assumes "distinct (map mv_from news)" "again \<in> set news" "set news' = {n \<in> set news. mv_from n \<noteq> mv_from again}"
    and "mv_from again \<notin> mv_to ` set olds"
  shows "kept_moves D1 I1 news' olds = kept_moves D1 I1 news olds"
proof -
  have "(k, j) \<in> set (move_pairs news') \<longleftrightarrow> (k, j) \<in> set (move_pairs news)"
    "j \<in> mv_from ` set news' \<longleftrightarrow> j \<in> mv_from ` set news" if "(j, f) \<in> set (move_pairs olds)" for j k f
    using that assms(3,4) by (auto simp: image_iff) metis+
  then show ?thesis unfolding kept_moves_def by blast
qed


lemma kept_moves_again:
  assumes "distinct (map mv_from news)" "again \<in> set news" "mv_from again = mv_to old"
  shows "kept_moves D1 I1 news [old] = {(mv_to again, mv_from old)}"
proof -
  have "m = again" if "m \<in> set news" "mv_from m = mv_to old" for m
    using that assms by (metis distinct_map inj_onD)
  then have "(\<exists>n \<in> set news. k = mv_to n \<and> mv_to old = mv_from n) \<longleftrightarrow> k = mv_to again" for k
    using assms(2,3) by metis
  moreover have "mv_to old \<in> mv_from ` set news" using assms(2,3) by (metis imageI)
  ultimately show ?thesis by (auto simp: kept_moves_def image_iff)
qed

lemma kept_moves_gone: "mv_to old \<notin> mv_from ` set news \<Longrightarrow> kept_moves D1 I1 news [old] =
    (if mv_to old \<in> D1 then {} else {(free I1 (unrank D1 (mv_to old)), mv_from old)})"
  by (auto simp: kept_moves_def image_iff)

definition old_moves_post :: "nat \<Rightarrow> move list \<Rightarrow> change_builder \<Rightarrow> change_builder \<Rightarrow>
    move list \<times> change_builder \<times> change_builder \<Rightarrow> bool" where
  "old_moves_post mx olds b c r = (case r of (ms, b', c') \<Rightarrow>
     merge_state mx b c (b', c') \<and>
     set (move_pairs ms) = kept_moves (indexes (deletions c)) (indexes (insertions c)) (moves c) olds \<and>
     subseq (map mv_from ms) (map mv_from olds) \<and>
     set (moves c') = {n \<in> set (moves c). mv_from n \<notin> mv_to ` set olds} \<and>
     distinct (map mv_from (moves c')) \<and> distinct (map mv_to (moves c')) \<and>
     indexes (modifications c') = indexes (modifications c) \<union>
       {mv_to n | n. n \<in> set (moves c) \<and> mv_from n \<in> mv_to ` set olds \<inter> indexes (modifications b)})"

lemma old_moves_again:
  assumes ok: "cb_ok mx b" "cb_ok mx c" and d: "distinct (map mv_from (moves c))" "distinct (map mv_to (moves c))"
    and i: "i < length (moves c)" "mv_from (moves c ! i) = mv_to old" "mv_to old \<notin> mv_to ` set olds"
    and p1: "merge_state mx b c (b1, c1)" "moves c1 = moves c"
      "indexes (modifications c1) = indexes (modifications c) \<union>
        (if mv_to old \<in> indexes (modifications b) then {mv_to (moves c ! i)} else {})"
    and c2: "c2 = c1\<lparr>moves := butlast ((moves c)[i := last (moves c)])\<rparr>"
    and post: "old_moves_post mx olds b1 c2 (ms, p')"
  shows "old_moves_post mx (old # olds) b c (old\<lparr>mv_to := mv_to (moves c ! i)\<rparr> # ms, p')"
proof -
  let ?a = "moves c ! i"
  have a: "?a \<in> set (moves c)" using i(1) by simp
  have set2: "set (moves c2) = {n \<in> set (moves c). mv_from n \<noteq> mv_from ?a}"
    using remove_by_last(2) [OF i(1) d(1) refl] c2 by simp
  have uniq: "n = ?a" if "n \<in> set (moves c)" "mv_from n = mv_to old" for n
    using that a d(1) i(2) by (metis distinct_map inj_onD)
  have st: "merge_state mx b c (b1, c2)"
    using p1(1) merge_state_moves [of mx b c b1 c1 "moves b1"] c2 by simp
  then have rows: "deletions c2 = deletions c" "insertions c2 = insertions c" "modifications b1 = modifications b"
    by (simp_all add: merge_state_def same_rows_def)
  obtain b' c' where p': "p' = (b', c')" by (cases p')
  note post = post [unfolded p' old_moves_post_def prod.case rows]
  have k: "kept_moves D1 I1 (moves c2) olds = kept_moves D1 I1 (moves c) olds" for D1 I1
    by (rule kept_moves_drop [OF d(1) a set2]) (use i in simp)
  have "merge_state mx b c p'" using post p' merge_state_trans [OF st] by simp
  moreover have "set (move_pairs (old\<lparr>mv_to := mv_to ?a\<rparr> # ms)) =
      kept_moves (indexes (deletions c)) (indexes (insertions c)) (moves c) (old # olds)"
    using post k kept_moves_again [OF d(1) a i(2)]
    by (subst kept_moves_Cons) simp
  moreover have "set (moves c') = {n \<in> set (moves c). mv_from n \<notin> mv_to ` set (old # olds)}"
    using post set2 i(2) by auto
  moreover have "indexes (modifications c') = indexes (modifications c) \<union>
       {mv_to n | n. n \<in> set (moves c) \<and> mv_from n \<in> mv_to ` set (old # olds) \<inter> indexes (modifications b)}"
  proof -
    have e: "n \<in> set (moves c) \<and> mv_from n \<in> mv_to ` set (old # olds) \<inter> M \<longleftrightarrow>
        n = ?a \<and> mv_to old \<in> M \<or> n \<in> set (moves c2) \<and> mv_from n \<in> mv_to ` set olds \<inter> M" for n M
    proof (cases "mv_from n = mv_to old")
      case True
      then have "n \<in> set (moves c) \<longleftrightarrow> n = ?a" using uniq a by blast
      then show ?thesis using True i(2,3) by (auto simp: set2)
    next
      case False
      then have "n \<noteq> ?a" using i(2) by auto
      then show ?thesis using False i(2) by (auto simp: set2)
    qed
    have "indexes (modifications c2) = indexes (modifications c1)" using c2 by simp
    then show ?thesis using post p1(3) unfolding e by auto
  qed
  ultimately show ?thesis using post p' by (simp add: old_moves_post_def)
qed


lemma old_moves_gone:
  assumes g: "mv_to old \<notin> mv_from ` set (moves c)" and post: "old_moves_post mx olds b c (ms, b', c')"
  shows "old_moves_post mx (old # olds) b c (if mv_to old \<in> indexes (deletions c) then (ms, b', c')
      else (old\<lparr>mv_to := free (indexes (insertions c)) (unrank (indexes (deletions c)) (mv_to old))\<rparr> # ms, b', c'))"
proof -
  let ?D = "indexes (deletions c)" and ?I = "indexes (insertions c)"
  have n: "n \<in> set (moves c) \<and> mv_from n \<in> mv_to ` set (old # olds) \<inter> M \<longleftrightarrow>
      n \<in> set (moves c) \<and> mv_from n \<in> mv_to ` set olds \<inter> M"
    "n \<in> set (moves c) \<and> mv_from n \<notin> mv_to ` set (old # olds) \<longleftrightarrow>
      n \<in> set (moves c) \<and> mv_from n \<notin> mv_to ` set olds" for n M
    using g by (auto simp: image_iff)
  have "kept_moves ?D ?I (moves c) (old # olds) = kept_moves ?D ?I (moves c) olds \<union>
      (if mv_to old \<in> ?D then {} else {(free ?I (unrank ?D (mv_to old)), mv_from old)})"
    using kept_moves_Cons [of ?D ?I "moves c" old olds] kept_moves_gone [OF g] by (simp add: Un_commute)
  then show ?thesis using post unfolding old_moves_post_def prod.case n
    by (auto simp: n)
qed

lemma merge_old_moves_correct:
  assumes "cb_ok mx b" "cb_ok mx c" "distinct (map mv_from (moves c))" "distinct (map mv_to (moves c))"
    "distinct (map mv_to olds)"
  shows "\<exists>r. merge_old_moves mx olds (b, c) = Some r \<and> old_moves_post mx olds b c r"
  using assms
proof (induction olds arbitrary: b c)
  case Nil
  then show ?case by (simp add: old_moves_post_def merge_state_self kept_moves_def)
next
  case (Cons old olds)
  define i where "i = length (takeWhile (\<lambda>m. mv_to old \<noteq> mv_from m) (moves c))"
  note found = takeWhile_found [OF i_def]
  show ?case
  proof (cases "i < length (moves c)")
    case True
    let ?a = "moves c ! i"
    obtain b1 c1 where k: "keep_modified mx (mv_from ?a) (mv_to ?a) (b, c) = Some (b1, c1)" "cb_ok mx b1" "cb_ok mx c1"
      "same_rows b b1" "same_rows c c1" "moves c1 = moves c" "modifications b1 = modifications b"
      "indexes (modifications c1) = indexes (modifications c) \<union>
        (if mv_from ?a \<in> indexes (modifications b) then {mv_to ?a} else {})"
      using keep_modified_correct [OF Cons.prems(1,2)] by blast
    define c2 where "c2 = c1\<lparr>moves := butlast ((moves c)[i := last (moves c)])\<rparr>"
    have "cb_ok mx c2" using k(3) by (simp add: c2_def cb_ok_def)
    then obtain ms p' where ih: "merge_old_moves mx olds (b1, c2) = Some (ms, p')" "old_moves_post mx olds b1 c2 (ms, p')"
      using Cons.IH [OF k(2), of c2] Cons.prems(3-5) remove_by_last_distinct [OF True] by (auto simp: c2_def)
    have "old_moves_post mx (old # olds) b c (old\<lparr>mv_to := mv_to ?a\<rparr> # ms, p')"
      by (rule old_moves_again [OF Cons.prems(1-4) True found(2) [OF True], of olds b1 c1])
        (use Cons.prems(5) k ih(2) c2_def found(2) [OF True] in \<open>auto simp: merge_state_def\<close>)
    then show ?thesis using True k(1) ih(1) by (simp add: Let_def i_def [symmetric] c2_def)
  next
    case False
    then have g: "mv_to old \<notin> mv_from ` set (moves c)" using found(1) by simp
    obtain ms b' c' where ih: "merge_old_moves mx olds (b, c) = Some (ms, b', c')" "old_moves_post mx olds b c (ms, b', c')"
      using Cons.IH [OF Cons.prems(1-4)] Cons.prems(5) by auto
    have con: "is_contains (deletions c) (mv_to old) \<longleftrightarrow> mv_to old \<in> indexes (deletions c)"
      and sh: "is_shift (is_unshift (mv_to old) (deletions c)) (insertions c) =
        free (indexes (insertions c)) (unrank (indexes (deletions c)) (mv_to old))"
      using Cons.prems(2) ixs.contains [of mx "deletions c"]
      by (auto simp: cb_ok_def iset_ok_def is_shift_free is_unshift_correct)
    let ?r = "if mv_to old \<in> indexes (deletions c) then (ms, b', c')
      else (old\<lparr>mv_to := free (indexes (insertions c)) (unrank (indexes (deletions c)) (mv_to old))\<rparr> # ms, b', c')"
    have "old_moves_post mx (old # olds) b c ?r"
      by (rule old_moves_gone [OF g ih(2)])
    then show ?thesis using False ih(1) con sh
      by (cases "mv_to old \<in> indexes (deletions c)") (simp_all add: Let_def i_def [symmetric])
  qed
qed

end
