(* ===== verification/Change_Compose.thy ===== *)
theory Change_Compose
  imports Change_Merge
begin

text \<open>
  Correctness of \<open>CollectionChangeBuilder::merge\<close>: the moves recorded after the merge, the merged index
  sets and, from both, that the origin map of the result is the composition of the two origin maps.
\<close>


lemma kept_moves_iff:
  assumes fin: "finite D1" "finite I1" and w: "moves_within D1 I1 news"
  shows "(k, f) \<in> kept_moves D1 I1 news olds \<longleftrightarrow>
    (\<exists>j. (j, f) \<in> set (move_pairs olds) \<and> orig D1 I1 (map_of (move_pairs news)) k = Some j)"
proof -
  have d: "distinct (map fst (move_pairs news))" using w by (simp add: moves_within_def comp_def)
  have m: "(k, j) \<in> set (move_pairs news) \<longleftrightarrow> k \<in> I1 \<and> map_of (move_pairs news) k = Some j" for j
    using w d by (auto simp: moves_within_def)
  have "j \<notin> mv_from ` set news \<and> j \<notin> D1 \<and> k = free I1 (unrank D1 j) \<longleftrightarrow> k \<notin> I1 \<and> j = free D1 (unrank I1 k)" for j
  proof
    assume "j \<notin> mv_from ` set news \<and> j \<notin> D1 \<and> k = free I1 (unrank D1 j)"
    then show "k \<notin> I1 \<and> j = free D1 (unrank I1 k)" using free_props [OF fin(2)] fin(1) by simp
  next
    assume "k \<notin> I1 \<and> j = free D1 (unrank I1 k)"
    then have "j \<notin> D1 \<and> k = free I1 (unrank D1 j)" using free_props [OF fin(1)] fin(2) by simp
    then show "j \<notin> mv_from ` set news \<and> j \<notin> D1 \<and> k = free I1 (unrank D1 j)"
      using w by (auto simp: moves_within_def)
  qed
  then have o: "(k, j) \<in> set (move_pairs news) \<or>
      j \<notin> mv_from ` set news \<and> j \<notin> D1 \<and> k = free I1 (unrank D1 j) \<longleftrightarrow>
      orig D1 I1 (map_of (move_pairs news)) k = Some j" for j
    unfolding m orig_def by auto
  show ?thesis unfolding kept_moves_def by (simp only: o mem_Collect_eq prod.case)
qed

lemma distinct_to_from:
  assumes "distinct (map mv_from ms)" "\<forall>m \<in> set ms. \<forall>m' \<in> set ms. mv_to m = mv_to m' \<longrightarrow> mv_from m = mv_from m'"
  shows "distinct (map mv_to ms)"
  using assms unfolding distinct_map inj_on_def by metis

lemma subseq_distinct_map: "subseq xs ys \<Longrightarrow> distinct ys \<Longrightarrow> distinct xs"
  by (metis distinct_nthsI subseq_conv_nths)

lemma kept_moves_within:
  assumes fin: "finite D1" "finite I1" and w: "moves_within D I olds" "moves_within D1 I1 news"
    and ms: "set (move_pairs ms) = kept_moves D1 I1 news olds" "subseq (map mv_from ms) (map mv_from olds)"
  shows "moves_within D (I1 \<union> moved I1 (unrank D1 ` (I - D1))) ms"
proof -
  let ?c = "orig D1 I1 (map_of (move_pairs news))"
  have k: "\<exists>j. (j, mv_from m) \<in> set (move_pairs olds) \<and> ?c (mv_to m) = Some j" if "m \<in> set ms" for m
    using that ms(1) kept_moves_iff [OF fin w(2)] by (metis (no_types, lifting) image_eqI list.set_map)
  have f: "distinct (map mv_from ms)" using w(1) subseq_distinct_map [OF ms(2)] by (simp add: moves_within_def)
  have "inj_on mv_to (set olds)" using w(1) by (simp add: moves_within_def distinct_map)
  then have "mv_from m = mv_from m'" if "m \<in> set ms" "m' \<in> set ms" "mv_to m = mv_to m'" for m m'
    using k [OF that(1)] k [OF that(2)] that(3) by (auto simp: inj_on_def)
  then have t: "distinct (map mv_to ms)" using distinct_to_from [OF f] by blast
  have "mv_from m \<in> D \<and> mv_to m \<in> I1 \<union> moved I1 (unrank D1 ` (I - D1))" if m: "m \<in> set ms" for m
  proof -
    obtain j where j: "(j, mv_from m) \<in> set (move_pairs olds)" "?c (mv_to m) = Some j" using k [OF m] by blast
    then have "mv_from m \<in> D" "j \<in> I" using w(1) by (auto simp: moves_within_def)
    then show ?thesis unfolding merged_insertions_iff [OF fin(1)] using j(2) by (auto simp: orig_def split: if_splits)
  qed
  then show ?thesis using t f by (simp add: moves_within_def)
qed

definition shift_source :: "nat set \<Rightarrow> nat set \<Rightarrow> move \<Rightarrow> move" where
  "shift_source D I m = m\<lparr>mv_from := free D (unrank I (mv_from m))\<rparr>"

lemma new_moves_within:
  assumes fin: "finite D" and w: "moves_within D1 I1 ns" "\<forall>n \<in> set ns. mv_from n \<notin> I"
  shows "moves_within (moved D (unrank I ` (D1 - I))) I1 (map (shift_source D I) ns)"
proof -
  have "distinct (map (\<lambda>n. free D (unrank I (mv_from n))) ns)"
  proof -
    have "inj_on (\<lambda>n. free D (unrank I (mv_from n))) (set ns)"
    proof (rule inj_onI)
      fix m n assume a: "m \<in> set ns" "n \<in> set ns" "free D (unrank I (mv_from m)) = free D (unrank I (mv_from n))"
      then have "unrank I (mv_from m) = unrank I (mv_from n)" using free_props [OF fin] by metis
      then have "mv_from m = mv_from n" using w(2) a unrank_inj by blast
      then show "m = n" using w(1) a by (auto simp: moves_within_def distinct_map inj_on_def)
    qed
    then show ?thesis using w(1) by (simp add: distinct_map moves_within_def)
  qed
  moreover have "free D (unrank I (mv_from n)) \<in> moved D (unrank I ` (D1 - I))" if "n \<in> set ns" for n
    using that w free_props [OF fin] by (auto simp: moved_def moves_within_def)
  ultimately show ?thesis using w(1) by (auto simp: moves_within_def shift_source_def comp_def)
qed


lemma moves_within_append:
  assumes "moves_within D I ms" "moves_within D' I' ns" "D \<inter> D' = {}" "mv_to ` set ms \<inter> mv_to ` set ns = {}"
  shows "moves_within (D \<union> D') (I \<union> I') (ms @ ns)"
  using assms by (fastforce simp: moves_within_def)

lemma map_of_pairs_iff:
  "distinct (map mv_to ms) \<Longrightarrow> map_of (move_pairs ms) k = Some f \<longleftrightarrow> (k, f) \<in> set (move_pairs ms)"
  by (rule map_of_eq_Some_iff) (simp add: comp_def)

lemma option_eqI: "(\<And>f. x = Some f \<longleftrightarrow> y = Some f) \<Longrightarrow> x = y"
  by (cases x; cases y) auto

lemma orig_comp_iff: "orig_comp f g k = Some x \<longleftrightarrow> (\<exists>j. g k = Some j \<and> f j = Some x)"
  by (simp add: orig_comp_def split: option.split)

lemma merged_moves:
  assumes fin: "finite D" "finite D1" "finite I1" and w: "moves_within D I olds" "moves_within D1 I1 news"
    and ms: "set (move_pairs ms) = kept_moves D1 I1 news olds" "subseq (map mv_from ms) (map mv_from olds)"
    and ns: "set ns = {n \<in> set news. mv_from n \<notin> I}" "distinct (map mv_from ns)" "distinct (map mv_to ns)"
    and D2: "D2 = D \<union> moved D (unrank I ` (D1 - I))" and I2: "I2 = I1 \<union> moved I1 (unrank D1 ` (I - D1))"
  shows "moves_within D2 I2 (ms @ map (shift_source D I) ns)"
    "orig D2 I2 (map_of (move_pairs (ms @ map (shift_source D I) ns))) =
      orig_comp (orig D I (map_of (move_pairs olds))) (orig D1 I1 (map_of (move_pairs news)))"
proof -
  let ?ns = "map (shift_source D I) ns" and ?c = "orig D1 I1 (map_of (move_pairs news))"
  have w1: "moves_within D I2 ms" unfolding I2 by (rule kept_moves_within [OF fin(2,3) w ms])
  have wn: "moves_within D1 I1 ns" using w(2) ns by (auto simp: moves_within_def)
  have w2: "moves_within (moved D (unrank I ` (D1 - I))) I1 ?ns"
    by (rule new_moves_within [OF fin(1) wn]) (use ns(1) in simp)
  have old: "(k, f) \<in> set (move_pairs ms) \<longleftrightarrow> (\<exists>j. map_of (move_pairs olds) j = Some f \<and> j \<in> I \<and> ?c k = Some j)" for k f
    unfolding ms(1) kept_moves_iff [OF fin(2,3) w(2)] using w(1) map_of_pairs_iff [of olds]
    by (auto simp: moves_within_def)
  have new: "(k, f) \<in> set (move_pairs ?ns) \<longleftrightarrow> (\<exists>j. k \<in> I1 \<and> ?c k = Some j \<and> j \<notin> I \<and> f = free D (unrank I j))" for k f
  proof -
    have "(k, f) \<in> set (move_pairs ?ns) \<longleftrightarrow> (\<exists>j. (k, j) \<in> set (move_pairs news) \<and> j \<notin> I \<and> f = free D (unrank I j))"
      using ns(1) by (auto simp: shift_source_def image_iff)
    also have "\<dots> \<longleftrightarrow> (\<exists>j. k \<in> I1 \<and> ?c k = Some j \<and> j \<notin> I \<and> f = free D (unrank I j))"
      using w(2) map_of_pairs_iff [of news k] by (auto simp: moves_within_def orig_def)
    finally show ?thesis .
  qed
  have disj: "mv_to ` set ms \<inter> mv_to ` set ?ns = {}"
  proof -
    have "\<not> ((k, f) \<in> set (move_pairs ms) \<and> (k, g) \<in> set (move_pairs ?ns))" for k f g using old new by auto
    then show ?thesis by fastforce
  qed
  have "D \<inter> moved D (unrank I ` (D1 - I)) = {}" by (auto simp: moved_def)
  from moves_within_append [OF w1 w2 this disj] show w3: "moves_within D2 I2 (ms @ ?ns)"
    unfolding D2 I2 by (simp add: Un_absorb1 Un_commute Un_left_commute)
  have "\<forall>k \<in> I2. map_of (move_pairs (ms @ ?ns)) k = orig_comp (orig D I (map_of (move_pairs olds))) ?c k"
  proof
    fix k assume "k \<in> I2"
    then have "k \<notin> I1 \<Longrightarrow> free D1 (unrank I1 k) \<in> I" unfolding I2 merged_insertions_iff [OF fin(2)] by simp
    then have i: "k \<in> I1" if "?c k = Some j" "j \<notin> I" for j using that by (auto simp: orig_def split: if_splits)
    have "map_of (move_pairs (ms @ ?ns)) k = Some f \<longleftrightarrow> orig_comp (orig D I (map_of (move_pairs olds))) ?c k = Some f" for f
    proof -
      have "map_of (move_pairs (ms @ ?ns)) k = Some f \<longleftrightarrow> (k, f) \<in> set (move_pairs ms) \<or> (k, f) \<in> set (move_pairs ?ns)"
        using map_of_pairs_iff [of "ms @ ?ns" k f] w3 by (simp add: moves_within_def)
      also have "\<dots> \<longleftrightarrow> (\<exists>j. ?c k = Some j \<and> orig D I (map_of (move_pairs olds)) j = Some f)"
      proof (cases "?c k")
        case (Some j)
        then show ?thesis unfolding old new using i [OF Some] by (cases "j \<in> I") (auto simp: orig_def [of D I])
      next
        case None
        then show ?thesis unfolding old new by simp
      qed
      finally show ?thesis by (simp only: orig_comp_iff)
    qed
    then show "map_of (move_pairs (ms @ ?ns)) k = orig_comp (orig D I (map_of (move_pairs olds))) ?c k"
      by (rule option_eqI)
  qed
  from orig_merge [OF fin this D2 I2] show "orig D2 I2 (map_of (move_pairs (ms @ ?ns))) =
      orig_comp (orig D I (map_of (move_pairs olds))) ?c" .
qed

lemma keep_all_correct:
  assumes "cb_ok mx b" "cb_ok mx c"
  shows "\<exists>p. foldM (\<lambda>m p. keep_modified mx (mv_from m) (mv_to m) p) ns (b, c) = Some p \<and> merge_state mx b c p \<and>
    moves (fst p) = moves b \<and> moves (snd p) = moves c \<and>
    indexes (modifications (snd p)) = indexes (modifications c) \<union> {mv_to n | n. n \<in> set ns \<and> mv_from n \<in> indexes (modifications b)}"
  using assms
proof (induction ns arbitrary: b c)
  case Nil
  then show ?case by (simp add: merge_state_self)
next
  case (Cons n ns)
  obtain b1 c1 where k: "keep_modified mx (mv_from n) (mv_to n) (b, c) = Some (b1, c1)" "cb_ok mx b1" "cb_ok mx c1"
      "same_rows b b1" "same_rows c c1" "moves b1 = moves b" "moves c1 = moves c" "modifications b1 = modifications b"
      "indexes (modifications c1) = indexes (modifications c) \<union>
        (if mv_from n \<in> indexes (modifications b) then {mv_to n} else {})"
    using keep_modified_correct [OF Cons.prems] by blast
  from Cons.IH [OF k(2,3)] obtain p where p: "foldM (\<lambda>m p. keep_modified mx (mv_from m) (mv_to m) p) ns (b1, c1) = Some p"
    "merge_state mx b1 c1 p" "moves (fst p) = moves b1" "moves (snd p) = moves c1"
    "indexes (modifications (snd p)) = indexes (modifications c1) \<union> {mv_to n | n. n \<in> set ns \<and> mv_from n \<in> indexes (modifications b1)}"
    by blast
  have "merge_state mx b c (b1, c1)" using k by (simp add: merge_state_def)
  from merge_state_trans [OF this, of p] have "merge_state mx b c p" using p(2) by simp
  then show ?case using k p by (intro exI [of _ p]) auto
qed


lemma free_unrank_empty [simp]: "free {} (unrank {} k) = k"
  by simp

lemma kept_moves_unchanged: "kept_moves {} {} [] olds = set (move_pairs olds)"
  by (auto simp: kept_moves_def)

lemma merge_olds:
  assumes ok: "list_ok mx b" "list_ok mx c"
  shows "\<exists>ms b1 c1. (if moves c \<noteq> [] \<or> deletions c \<noteq> [] \<or> insertions c \<noteq> [] then do {
       (ms, b, c) \<leftarrow> merge_old_moves mx (moves b) (b, c);
       Some (b\<lparr>moves := ms\<rparr>, c)
     } else Some (b, c)) = Some (b1\<lparr>moves := ms\<rparr>, c1) \<and> old_moves_post mx (moves b) b c (ms, b1, c1)"
proof -
  have k: "cb_ok mx b" "cb_ok mx c" "distinct (map mv_from (moves c))" "distinct (map mv_to (moves c))"
    "distinct (map mv_to (moves b))" using ok by (auto simp: list_ok_def moves_ok_def)
  show ?thesis
  proof (cases "moves c \<noteq> [] \<or> deletions c \<noteq> [] \<or> insertions c \<noteq> []")
    case True
    obtain ms b1 c1 where "merge_old_moves mx (moves b) (b, c) = Some (ms, b1, c1)" "old_moves_post mx (moves b) b c (ms, b1, c1)"
      using merge_old_moves_correct [OF k] by (metis prod_cases3)
    then show ?thesis using True by (intro exI [of _ ms] exI [of _ b1] exI [of _ c1]) simp
  next
    case False
    then have "old_moves_post mx (moves b) b c (moves b, b, c)"
      using k by (simp add: old_moves_post_def merge_state_self indexes_def flat_def kept_moves_unchanged)
    then show ?thesis using False by (intro exI [of _ "moves b"] exI [of _ b] exI [of _ c]) simp
  qed
qed

lemma merge_news:
  assumes ok: "cb_ok mx b" "cb_ok mx c" and d: "distinct (map mv_from (moves c))" "distinct (map mv_to (moves c))"
    and c2: "c2 = (if insertions b \<noteq> [] \<and> moves c \<noteq> []
      then c\<lparr>moves := filter (\<lambda>m. \<not> is_contains (insertions b) (mv_from m)) (moves c)\<rparr> else c)"
  shows "\<exists>b3 c3. (if modifications b \<noteq> [] \<and> moves c2 \<noteq> []
      then foldM (\<lambda>m p. keep_modified mx (mv_from m) (mv_to m) p) (moves c2) (b, c2) else Some (b, c2)) = Some (b3, c3) \<and>
    merge_state mx b c (b3, c3) \<and> moves b3 = moves b \<and>
    set (moves c3) = {n \<in> set (moves c). mv_from n \<notin> indexes (insertions b)} \<and>
    distinct (map mv_from (moves c3)) \<and> distinct (map mv_to (moves c3)) \<and>
    indexes (modifications c3) = indexes (modifications c) \<union> {mv_to n | n. n \<in> set (moves c3) \<and> mv_from n \<in> indexes (modifications b)}"
proof -
  have con: "is_contains (insertions b) i \<longleftrightarrow> i \<in> indexes (insertions b)" for i
    using ok(1) ixs.contains by (auto simp: cb_ok_def)
  have m2: "moves c2 = filter (\<lambda>m. mv_from m \<notin> indexes (insertions b)) (moves c)"
    unfolding c2 by (auto simp: con indexes_def flat_def)
  have d2: "distinct (map mv_from (moves c2))" "distinct (map mv_to (moves c2))"
    unfolding m2 using d by (simp_all add: distinct_map_filter)
  have same: "cb_ok mx c2" "merge_state mx b c (b, c2)" "modifications c2 = modifications c"
    unfolding c2 using ok by (auto simp: cb_ok_def merge_state_def same_rows_def)
  show ?thesis
  proof (cases "modifications b \<noteq> [] \<and> moves c2 \<noteq> []")
    case True
    obtain p where p: "foldM (\<lambda>m p. keep_modified mx (mv_from m) (mv_to m) p) (moves c2) (b, c2) = Some p"
      "merge_state mx b c2 p" "moves (fst p) = moves b" "moves (snd p) = moves c2"
      "indexes (modifications (snd p)) = indexes (modifications c2) \<union> {mv_to n | n. n \<in> set (moves c2) \<and> mv_from n \<in> indexes (modifications b)}"
      using keep_all_correct [OF ok(1) same(1)] by blast
    have "merge_state mx b c p" using merge_state_trans [OF same(2), of p] p(2) by simp
    then show ?thesis using True p same(3) m2 d2
      by (intro exI [of _ "fst p"] exI [of _ "snd p"]) simp
  next
    case False
    then have "{mv_to n | n. n \<in> set (moves c2) \<and> mv_from n \<in> indexes (modifications b)} = {}"
      by (auto simp: indexes_def flat_def)
    then show ?thesis using False same m2 d2 by (intro exI [of _ b] exI [of _ c2]) auto
  qed
qed

lemma merge_sources:
  assumes "cb_ok mx b"
  shows "moves (if deletions b \<noteq> [] \<or> insertions b \<noteq> []
      then c\<lparr>moves := map (\<lambda>m. m\<lparr>mv_from := is_shift (is_unshift (mv_from m) (insertions b)) (deletions b)\<rparr>) (moves c)\<rparr>
      else c) = map (shift_source (indexes (deletions b)) (indexes (insertions b))) (moves c)"
proof -
  have s: "is_shift (is_unshift i (insertions b)) (deletions b) = free (indexes (deletions b)) (unrank (indexes (insertions b)) i)" for i
    using assms by (auto simp: cb_ok_def iset_ok_def is_shift_free is_unshift_correct)
  have "shift_source {} {} = id" by (rule ext) (simp add: shift_source_def)
  then show ?thesis by (auto simp: s shift_source_def [abs_def] indexes_def flat_def)
qed


text \<open>
  The bulk \<open>add_shifted_by\<close> caches wrong counts when it outgrows the chunks reserved up front; the merged
  deletions must fit them.
\<close>

definition merge_fits :: "nat \<Rightarrow> change_builder \<Rightarrow> change_builder \<Rightarrow> bool" where
  "merge_fits mx c b = (case is_add_shifted_by mx (insertions b) (deletions c) (deletions b) of
     None \<Rightarrow> False | Some v \<Rightarrow> length (flat v) \<le> (length (flat (deletions b)) div mx + 1) * mx)"

lemma merge_index_sets:
  assumes "cb_ok mx b" "cb_ok mx c" "merge_fits mx c b"
  shows "\<exists>dels. is_add_shifted_by mx (insertions b) (deletions c) (deletions b) = Some dels \<and> iset_ok mx dels \<and>
    indexes dels = indexes (deletions b) \<union>
      moved (indexes (deletions b)) (unrank (indexes (insertions b)) ` (indexes (deletions c) - indexes (insertions b)))"
    "iset_ok mx (is_insert_at_set mx (insertions c) (is_erase_at_set mx (deletions c) (insertions b)))"
    "indexes (is_insert_at_set mx (insertions c) (is_erase_at_set mx (deletions c) (insertions b))) =
      indexes (insertions c) \<union>
      moved (indexes (insertions c)) (unrank (indexes (deletions c)) ` (indexes (insertions b) - indexes (deletions c)))"
proof -
  have mx: "max_size_ok mx" and k: "index_set_ok mx (deletions b)" "index_set_ok mx (insertions b)"
    "index_set_ok mx (deletions c)" "index_set_ok mx (insertions c)" using assms by (auto simp: cb_ok_def iset_ok_def)
  show "\<exists>dels. is_add_shifted_by mx (insertions b) (deletions c) (deletions b) = Some dels \<and> iset_ok mx dels \<and>
    indexes dels = indexes (deletions b) \<union>
      moved (indexes (deletions b)) (unrank (indexes (insertions b)) ` (indexes (deletions c) - indexes (insertions b)))"
    using is_add_shifted_by_correct [OF mx k(1,2,3)] assms(3) mx by (auto simp: iset_ok_def merge_fits_def)
  note e = is_erase_at_set_correct [OF mx k(2,3)]
  note i = is_insert_at_set_correct [OF mx e(1) k(4)]
  show "iset_ok mx (is_insert_at_set mx (insertions c) (is_erase_at_set mx (deletions c) (insertions b)))"
    using i(1) mx by (simp add: iset_ok_def)
  show "indexes (is_insert_at_set mx (insertions c) (is_erase_at_set mx (deletions c) (insertions b))) =
      indexes (insertions c) \<union>
      moved (indexes (insertions c)) (unrank (indexes (deletions c)) ` (indexes (insertions b) - indexes (deletions c)))"
    using i(2) e(2) by (simp add: Un_commute)
qed


text \<open>The rows the merged change set marks as modified.\<close>

lemma merged_modified_iff:
  assumes fin: "finite D1" and w: "moves_within D1 I1 news" and tos: "tos \<subseteq> I"
    and M2: "M2 = moved I1 (unrank D1 ` (M - D1)) \<union> (M1 \<union> {mv_to n | n. n \<in> set news \<and> mv_from n \<in> tos \<inter> M} \<union>
      {mv_to n | n. n \<in> set news \<and> mv_from n \<notin> I \<and> mv_from n \<in> M})"
    and j: "orig D1 I1 (map_of (move_pairs news)) k = Some j" "j \<in> I \<longrightarrow> j \<in> tos"
  shows "k \<in> M2 \<longleftrightarrow> k \<in> M1 \<or> j \<in> M"
proof (cases "k \<in> I1")
  case True
  then have m: "(k, j) \<in> set (move_pairs news)" using j(1) w map_of_pairs_iff [of news k j]
    by (simp add: orig_def moves_within_def)
  have "mv_from n = j" if "n \<in> set news" "mv_to n = k" for n
    using that m w by (auto simp: moves_within_def distinct_map inj_on_def)
  moreover obtain n where "n \<in> set news" "mv_to n = k" "mv_from n = j" using m by auto
  moreover have "k \<notin> moved I1 X" for X using True by (simp add: moved_def)
  ultimately show ?thesis using j(2) tos unfolding M2 by auto
next
  case False
  then have "mv_to n \<noteq> k" if "n \<in> set news" for n using that w by (auto simp: moves_within_def)
  moreover have "k \<in> moved I1 (unrank D1 ` (M - D1)) \<longleftrightarrow> j \<in> M"
    using False j(1) merged_insertions_iff [OF fin, of k I1 M] by (simp add: orig_def)
  ultimately show ?thesis unfolding M2 by auto
qed


lemma list_ok_parts:
  assumes "list_ok mx b"
  shows "cb_ok mx b" "moves_within (indexes (deletions b)) (indexes (insertions b)) (moves b)"
    "origin b = orig (indexes (deletions b)) (indexes (insertions b)) (map_of (move_pairs (moves b)))"
    "finite (indexes (deletions b))" "finite (indexes (insertions b))"
  using assms origin_orig [of mx b]
  by (auto simp: list_ok_def moves_ok_def moves_within_def sources_def)

lemma empty_origin:
  assumes "list_ok mx b" "cs_empty b"
  shows "origin b = Some" "modified b = (\<lambda>_. False)"
  using assms list_ok_parts(3) [OF assms(1)] modified_iff [OF list_ok_parts(1) [OF assms(1)]]
  by (auto simp: cs_empty_def orig_def indexes_def flat_def fun_eq_iff)

definition merge_prepared :: "nat \<Rightarrow> change_builder \<Rightarrow> change_builder \<Rightarrow>
    change_builder \<Rightarrow> change_builder \<Rightarrow> bool" where
  "merge_prepared mx b c b3 c3 \<longleftrightarrow> merge_state mx b c (b3, c3) \<and>
     set (move_pairs (moves b3)) = kept_moves (indexes (deletions c)) (indexes (insertions c)) (moves c) (moves b) \<and>
     subseq (map mv_from (moves b3)) (map mv_from (moves b)) \<and>
     set (moves c3) = {n \<in> set (moves c). mv_from n \<notin> indexes (insertions b)} \<and>
     distinct (map mv_from (moves c3)) \<and> distinct (map mv_to (moves c3)) \<and>
     indexes (modifications c3) = indexes (modifications c) \<union>
       {mv_to n | n. n \<in> set (moves c) \<and> mv_from n \<in> mv_to ` set (moves b) \<inter> indexes (modifications b)} \<union>
       {mv_to n | n. n \<in> set (moves c) \<and> mv_from n \<notin> indexes (insertions b) \<and> mv_from n \<in> indexes (modifications b)}"


lemma merge_prepare:
  assumes ok: "list_ok mx b" "list_ok mx c"
  shows "\<exists>b1 c1 b3 c3. (if moves c \<noteq> [] \<or> deletions c \<noteq> [] \<or> insertions c \<noteq> [] then do {
       (ms, b, c) \<leftarrow> merge_old_moves mx (moves b) (b, c);
       Some (b\<lparr>moves := ms\<rparr>, c)
     } else Some (b, c)) = Some (b1, c1) \<and>
     (let c2 = (if insertions b1 \<noteq> [] \<and> moves c1 \<noteq> []
        then c1\<lparr>moves := filter (\<lambda>m. \<not> is_contains (insertions b1) (mv_from m)) (moves c1)\<rparr> else c1)
      in (if modifications b1 \<noteq> [] \<and> moves c2 \<noteq> []
        then foldM (\<lambda>m p. keep_modified mx (mv_from m) (mv_to m) p) (moves c2) (b1, c2) else Some (b1, c2))) = Some (b3, c3) \<and>
     merge_prepared mx b c b3 c3"
proof -
  obtain ms b0 c1 where s1: "(if moves c \<noteq> [] \<or> deletions c \<noteq> [] \<or> insertions c \<noteq> [] then do {
       (ms, b, c) \<leftarrow> merge_old_moves mx (moves b) (b, c);
       Some (b\<lparr>moves := ms\<rparr>, c)
     } else Some (b, c)) = Some (b0\<lparr>moves := ms\<rparr>, c1)" and post: "old_moves_post mx (moves b) b c (ms, b0, c1)"
    using merge_olds [OF ok] by blast
  define b1 where "b1 = b0\<lparr>moves := ms\<rparr>"
  define c2 where "c2 = (if insertions b1 \<noteq> [] \<and> moves c1 \<noteq> []
      then c1\<lparr>moves := filter (\<lambda>m. \<not> is_contains (insertions b1) (mv_from m)) (moves c1)\<rparr> else c1)"
  note post = post [unfolded old_moves_post_def prod.case]
  have st: "merge_state mx b c (b1, c1)"
    using merge_state_moves [of mx b c b0 c1 ms "moves c1"] post by (simp add: b1_def)
  then have k: "cb_ok mx b1" "cb_ok mx c1" "insertions b1 = insertions b" "modifications b1 = modifications b" "moves b1 = ms"
    by (simp_all add: merge_state_def same_rows_def b1_def)
  have d1: "distinct (map mv_from (moves c1))" "distinct (map mv_to (moves c1))" using post by simp_all
  obtain b3 c3 where s3: "(if modifications b1 \<noteq> [] \<and> moves c2 \<noteq> []
      then foldM (\<lambda>m p. keep_modified mx (mv_from m) (mv_to m) p) (moves c2) (b1, c2) else Some (b1, c2)) = Some (b3, c3)"
    "merge_state mx b1 c1 (b3, c3)" "moves b3 = moves b1"
    "set (moves c3) = {n \<in> set (moves c1). mv_from n \<notin> indexes (insertions b1)}"
    "distinct (map mv_from (moves c3))" "distinct (map mv_to (moves c3))"
    "indexes (modifications c3) = indexes (modifications c1) \<union>
      {mv_to n | n. n \<in> set (moves c3) \<and> mv_from n \<in> indexes (modifications b1)}"
    using merge_news [OF k(1,2) d1 c2_def] by blast
  have tos: "mv_to ` set (moves b) \<subseteq> indexes (insertions b)"
    using list_ok_parts(2) [OF ok(1)] by (auto simp: moves_within_def)
  have set3: "set (moves c3) = {n \<in> set (moves c). mv_from n \<notin> indexes (insertions b)}"
  proof -
    have "set (moves c1) = {n \<in> set (moves c). mv_from n \<notin> mv_to ` set (moves b)}" using post by simp
    then show ?thesis unfolding s3(4) k(3) using tos by blast
  qed
  have "merge_prepared mx b c b3 c3"
    unfolding merge_prepared_def
    using merge_state_trans [OF st, of "(b3, c3)"] s3(2,3,5,6) set3 post k(4,5) s3(7) [unfolded set3] by simp
  then show ?thesis using s1 s3(1)
    by (intro exI [of _ b1] exI [of _ c1] exI [of _ b3] exI [of _ c3]) (simp only: b1_def [symmetric] c2_def [symmetric] Let_def)
qed


lemma clean_up_correct:
  assumes "cb_ok mx b" "moves_within (indexes (deletions b)) (indexes (insertions b)) (moves b)" "m_move_mapping b = []"
  shows "\<exists>b'. clean_up_stale_moves mx b = Some b' \<and> list_ok mx b' \<and>
    origin b' = orig (indexes (deletions b)) (indexes (insertions b)) (map_of (move_pairs (moves b))) \<and>
    modifications b' = modifications b"
proof -
  obtain ms d i where m: "clean_moves mx (moves b) (deletions b) (insertions b) = Some (ms, d, i)" "iset_ok mx d" "iset_ok mx i"
    "moves_within (indexes d) (indexes i) ms"
    "orig (indexes d) (indexes i) (map_of (move_pairs ms)) =
      orig (indexes (deletions b)) (indexes (insertions b)) (map_of (move_pairs (moves b)))"
    using clean_moves_correct [of mx "deletions b" "insertions b" "[]" "moves b"] assms(1,2) by (auto simp: cb_ok_def)
  let ?b = "b\<lparr>moves := ms, deletions := d, insertions := i\<rparr>"
  have ok: "list_ok mx ?b" using assms(1,3) m(2-4) by (simp add: list_ok_def cb_ok_def moves_ok_def moves_within_def)
  then have "origin ?b = orig (indexes d) (indexes i) (map_of (move_pairs ms))" using list_ok_parts(3) [OF ok] by simp
  then show ?thesis using ok m(1,5) by (intro exI [of _ ?b]) (simp add: clean_up_stale_moves_def)
qed

lemma merge_finish:
  assumes ok: "list_ok mx b" "list_ok mx c" "merge_fits mx c b" and prep: "merge_prepared mx b c b3 c3"
    and c4: "c4 = (if deletions b3 \<noteq> [] \<or> insertions b3 \<noteq> []
      then c3\<lparr>moves := map (\<lambda>m. m\<lparr>mv_from := is_shift (is_unshift (mv_from m) (insertions b3)) (deletions b3)\<rparr>) (moves c3)\<rparr>
      else c3)"
  shows "\<exists>r. (let b4 = b3\<lparr>moves := moves b3 @ moves c4\<rparr> in do {
        dels \<leftarrow> is_add_shifted_by mx (insertions b4) (deletions c4) (deletions b4);
        let inss = is_insert_at_set mx (insertions c4) (is_erase_at_set mx (deletions c4) (insertions b4));
        b5 \<leftarrow> clean_up_stale_moves mx (b4\<lparr>deletions := dels, insertions := inss\<rparr>);
        merge_cols mx (b5, c4) }) = Some r \<and> list_ok mx r \<and> origin r = orig_comp (origin b) (origin c) \<and>
    indexes (modifications r) = moved (indexes (insertions c))
      (unrank (indexes (deletions c)) ` (indexes (modifications b) - indexes (deletions c))) \<union> indexes (modifications c3)"
proof -
  let ?D = "indexes (deletions b)" and ?I = "indexes (insertions b)"
  let ?D1 = "indexes (deletions c)" and ?I1 = "indexes (insertions c)"
  note pb = list_ok_parts [OF ok(1)] and pc = list_ok_parts [OF ok(2)]
  note prep = prep [unfolded merge_prepared_def merge_state_def fst_conv snd_conv]
  have c4': "cb_ok mx c4" "deletions c4 = deletions c" "insertions c4 = insertions c" "modifications c4 = modifications c3"
    using prep unfolding c4 by (auto simp: cb_ok_def same_rows_def)
  have rows: "deletions b3 = deletions b" "insertions b3 = insertions b" "m_move_mapping b3 = []"
    using prep ok(1) by (simp_all add: same_rows_def list_ok_def)
  have m4: "moves c4 = map (shift_source ?D ?I) (moves c3)"
    using merge_sources [of mx b3 c3] prep rows unfolding c4 by simp
  obtain dels where dels: "is_add_shifted_by mx (insertions b) (deletions c) (deletions b) = Some dels" "iset_ok mx dels"
    "indexes dels = ?D \<union> moved ?D (unrank ?I ` (?D1 - ?I))" using merge_index_sets(1) [OF pb(1) pc(1) ok(3)] by blast
  define inss where "inss = is_insert_at_set mx (insertions c) (is_erase_at_set mx (deletions c) (insertions b))"
  note inss = merge_index_sets(2,3) [OF pb(1) pc(1) ok(3), folded inss_def]
  define b4 where "b4 = b3\<lparr>moves := moves b3 @ moves c4, deletions := dels, insertions := inss\<rparr>"
  note mm = merged_moves [OF pb(4) pc(4,5) pb(2) pc(2) _ _ _ _ _ dels(3) inss(2), of "moves b3" "moves c3"]
  have "cb_ok mx b4" using prep dels(2) inss(1) by (auto simp: b4_def cb_ok_def)
  moreover have "moves_within (indexes (deletions b4)) (indexes (insertions b4)) (moves b4)"
    using mm(1) prep by (simp add: b4_def m4)
  moreover have "m_move_mapping b4 = []" using rows by (simp add: b4_def)
  ultimately obtain b5 where b5: "clean_up_stale_moves mx b4 = Some b5" "list_ok mx b5"
    "origin b5 = orig (indexes (deletions b4)) (indexes (insertions b4)) (map_of (move_pairs (moves b4)))"
    "modifications b5 = modifications b4" using clean_up_correct by blast
  obtain r where r: "merge_cols mx (b5, c4) = Some r" "cb_ok mx r" "same_rows b5 r" "moves r = moves b5"
    "indexes (modifications r) = moved ?I1 (unrank ?D1 ` (indexes (modifications b) - ?D1)) \<union> indexes (modifications c3)"
    using merge_cols_correct [OF list_ok_parts(1) [OF b5(2)] c4'(1)] c4' b5(4) prep by (auto simp: b4_def)
  have "origin r = origin b5" using r(3,4) by (intro origin_cong) (simp_all add: same_rows_def)
  also have "\<dots> = orig_comp (origin b) (origin c)" using b5(3) mm(2) prep pb(3) pc(3) by (simp add: b4_def m4)
  finally have "origin r = orig_comp (origin b) (origin c)" .
  moreover have "list_ok mx r" using b5(2) r(2-4) by (simp add: list_ok_def moves_ok_def same_rows_def)
  moreover have "b3\<lparr>moves := moves b3 @ moves c4\<rparr>\<lparr>deletions := dels, insertions := inss\<rparr> = b4" by (simp add: b4_def)
  ultimately show ?thesis using dels(1) b5(1) r(1,5) rows(1,2) c4'(2,3)
    by (intro exI [of _ r]) (simp add: inss_def [symmetric])
qed

text \<open>
  The change set of two consecutive edits: the origin maps compose, and a surviving row is modified
  when either edit modified it.
\<close>

lemma cb_merge_correct:
  assumes ok: "list_ok mx b" "list_ok mx c" "merge_fits mx c b"
  shows "\<exists>r. cb_merge mx c b = Some r \<and> list_ok mx r \<and> origin r = orig_comp (origin b) (origin c) \<and>
    (\<forall>k. origin r k \<noteq> None \<longrightarrow> (modified r k \<longleftrightarrow> modified c k \<or> modified b (the (origin c k))))"
proof (cases "cs_empty c \<or> cs_empty b")
  case True
  then show ?thesis
  proof
    assume e: "cs_empty c"
    note f = empty_origin [OF ok(2) e]
    have "origin b = orig_comp (origin b) (origin c)" using f(1) by (simp add: orig_comp_def fun_eq_iff)
    then show ?thesis using e ok(1) f by (intro exI [of _ b]) (simp add: cb_merge_def)
  next
    assume e: "cs_empty b"
    note f = empty_origin [OF ok(1) e]
    have "origin c = orig_comp (origin b) (origin c)" using f(1) by (auto simp: orig_comp_def fun_eq_iff split: option.split)
    then show ?thesis
      using e ok f empty_origin [OF ok(2)]
      by (cases "cs_empty c") (auto simp: cb_merge_def)
  qed
next
  case False
  note pb = list_ok_parts [OF ok(1)] and pc = list_ok_parts [OF ok(2)]
  obtain b1 c1 b3 c3 where s: "(if moves c \<noteq> [] \<or> deletions c \<noteq> [] \<or> insertions c \<noteq> [] then do {
       (ms, b, c) \<leftarrow> merge_old_moves mx (moves b) (b, c);
       Some (b\<lparr>moves := ms\<rparr>, c)
     } else Some (b, c)) = Some (b1, c1)"
     "(let c2 = (if insertions b1 \<noteq> [] \<and> moves c1 \<noteq> []
        then c1\<lparr>moves := filter (\<lambda>m. \<not> is_contains (insertions b1) (mv_from m)) (moves c1)\<rparr> else c1)
      in (if modifications b1 \<noteq> [] \<and> moves c2 \<noteq> []
        then foldM (\<lambda>m p. keep_modified mx (mv_from m) (mv_to m) p) (moves c2) (b1, c2) else Some (b1, c2))) = Some (b3, c3)"
     "merge_prepared mx b c b3 c3"
    using merge_prepare [OF ok(1,2)] by blast
  obtain r where r: "cb_merge mx c b = Some r" "list_ok mx r" "origin r = orig_comp (origin b) (origin c)"
    "indexes (modifications r) = moved (indexes (insertions c))
      (unrank (indexes (deletions c)) ` (indexes (modifications b) - indexes (deletions c))) \<union> indexes (modifications c3)"
    using merge_finish [OF ok s(3) refl] s(1,2) False unfolding cb_merge_def Let_def by auto
  have "modified r k \<longleftrightarrow> modified c k \<or> modified b (the (origin c k))" if k: "origin r k \<noteq> None" for k
  proof -
    obtain j where j: "origin c k = Some j" "origin b j \<noteq> None" using k r(3) by (auto simp: orig_comp_def split: option.splits)
    have tos: "mv_to ` set (moves b) \<subseteq> indexes (insertions b)" using pb(2) by (auto simp: moves_within_def)
    have "j \<in> indexes (insertions b) \<longrightarrow> j \<in> mv_to ` set (moves b)"
      using j(2) pb(3) by (auto simp: orig_def dest!: map_of_SomeD)
    then show ?thesis
      using merged_modified_iff [OF pc(4) pc(2) tos, of "indexes (modifications r)" "indexes (modifications b)" "indexes (modifications c)" k j]
        r(4) s(3) j(1) pc(3) modified_iff [OF pb(1)] modified_iff [OF pc(1)] modified_iff [OF list_ok_parts(1) [OF r(2)]]
      by (simp add: merge_prepared_def)
  qed
  then show ?thesis using r by blast
qed

end
