(* ===== verification/Log_Input.thy ===== *)
theory Log_Input
  imports Prelude "HOL-Library.Word"
begin

text \<open>
  The byte streams a transaction log is read from (\<open>core/realm/impl/input_stream.hpp\<close>) and the reading
  primitives of \<open>TransactLogParser\<close> on top of them.  An input stream hands out blocks of bytes; the parser
  keeps the unread rest of the current block (\<open>m_input_begin\<close> to \<open>m_input_end\<close>) and asks for the next block
  when it is exhausted.  The interface of the streams is the locale \<open>no_copy_input_stream\<close>: a block is
  never empty and the blocks, in order, are the bytes of the log.  All stream classes implement it.
\<close>

type_synonym byte = "8 word"

subsection \<open>InputStream: reading into a buffer\<close>

text \<open>\<open>SimpleInputStream\<close>: its state is the bytes between \<open>m_ptr\<close> and \<open>m_end\<close>.\<close>

definition simple_read :: "nat \<Rightarrow> byte list \<Rightarrow> byte list \<times> byte list" where
  "simple_read sz s = (let n = min sz (length s) in (take n s, drop n s))"

locale byte_source =
  fixes ok :: "'s \<Rightarrow> bool"
    and read :: "nat \<Rightarrow> 's \<Rightarrow> byte list \<times> 's"
    and remaining :: "'s \<Rightarrow> byte list"
  assumes read_bytes: "ok s \<Longrightarrow> read sz s = (bs, s') \<Longrightarrow> ok s' \<and> remaining s = bs @ remaining s' \<and> length bs \<le> sz"
    and read_progress: "ok s \<Longrightarrow> read sz s = (bs, s') \<Longrightarrow> bs = [] \<Longrightarrow> sz = 0 \<or> remaining s = []"

interpretation simple: byte_source "\<lambda>_. True" simple_read id
  by unfold_locales (auto simp: simple_read_def Let_def min_def split: if_splits)

subsection \<open>NoCopyInputStream: handing out blocks\<close>

locale no_copy_input_stream =
  fixes ok :: "'s \<Rightarrow> bool"
    and next_block :: "'s \<Rightarrow> (byte list \<times> 's) option"
    and content :: "'s \<Rightarrow> byte list"
  assumes next_None: "ok s \<Longrightarrow> next_block s = None \<Longrightarrow> content s = []"
    and next_Some: "ok s \<Longrightarrow> next_block s = Some (b, s') \<Longrightarrow> ok s' \<and> b \<noteq> [] \<and> content s = b @ content s'"

definition adaptor_next_block :: "(nat \<Rightarrow> 's \<Rightarrow> byte list \<times> 's) \<Rightarrow> nat \<Rightarrow> 's \<Rightarrow> (byte list \<times> 's) option" where
  "adaptor_next_block rd buffer_size s =
     (let (bs, s') = rd buffer_size s; n = length bs in if n \<noteq> 0 then Some (bs, s') else None)"

context byte_source
begin

lemma adaptor: "0 < n \<Longrightarrow> no_copy_input_stream ok (adaptor_next_block read n) remaining"
  by unfold_locales
    (auto simp: adaptor_next_block_def Let_def split: prod.splits if_splits dest: read_bytes read_progress)

end

text \<open>\<open>SimpleNoCopyInputStream\<close>: one block, then the end; \<open>m_size\<close> is zeroed when it has been handed out.\<close>

definition whole_next_block :: "byte list \<Rightarrow> (byte list \<times> byte list) option" where
  "whole_next_block s = (if length s = 0 then None else Some (s, []))"

interpretation whole: no_copy_input_stream "\<lambda>_. True" whole_next_block id
  by unfold_locales (auto simp: whole_next_block_def split: if_splits)

text \<open>\<open>MultiLogNoCopyInputStream\<close>: the logs that are left, and what is left of the first one for \<open>read\<close>.\<close>

record multi_log =
  ml_logs :: "byte list list"
  ml_curr :: nat

definition multi_log_init :: "byte list list \<Rightarrow> multi_log" where
  "multi_log_init logs = \<lparr>ml_logs = logs, ml_curr = (case logs of [] \<Rightarrow> 0 | l # _ \<Rightarrow> length l)\<rparr>"

fun multi_log_read_from :: "nat \<Rightarrow> nat \<Rightarrow> byte list list \<Rightarrow> byte list \<times> multi_log" where
  "multi_log_read_from sz left [] = ([], \<lparr>ml_logs = [], ml_curr = left\<rparr>)"
| "multi_log_read_from sz left (l # ls) =
     (if 0 < left then
        let offset = length l - left; size_2 = min left sz
        in (take size_2 (drop offset l), \<lparr>ml_logs = l # ls, ml_curr = left - size_2\<rparr>)
      else (case ls of [] \<Rightarrow> ([], \<lparr>ml_logs = [], ml_curr = left\<rparr>)
            | l' # _ \<Rightarrow> multi_log_read_from sz (length l') ls))"

definition multi_log_read :: "nat \<Rightarrow> multi_log \<Rightarrow> byte list \<times> multi_log" where
  "multi_log_read sz s = multi_log_read_from sz (ml_curr s) (ml_logs s)"

fun multi_log_blocks :: "byte list list \<Rightarrow> (byte list \<times> byte list list) option" where
  "multi_log_blocks [] = None"
| "multi_log_blocks (l # ls) = (if length l = 0 then multi_log_blocks ls else Some (l, ls))"

definition multi_log_next_block :: "multi_log \<Rightarrow> (byte list \<times> multi_log) option" where
  "multi_log_next_block s = (case multi_log_blocks (ml_logs s) of
     None \<Rightarrow> None | Some (b, ls) \<Rightarrow> Some (b, s\<lparr>ml_logs := ls\<rparr>))"

lemma multi_log_blocks_spec:
  "multi_log_blocks ls = None \<Longrightarrow> concat ls = []"
  "multi_log_blocks ls = Some (b, ls') \<Longrightarrow> b \<noteq> [] \<and> concat ls = b @ concat ls'"
  by (induction ls) (auto split: if_splits)

interpretation multi: no_copy_input_stream "\<lambda>_. True" multi_log_next_block "\<lambda>s. concat (ml_logs s)"
proof
  show "concat (ml_logs s) = []" if "multi_log_next_block s = None" for s
    using that multi_log_blocks_spec(1) by (auto simp: multi_log_next_block_def split: option.splits)
  show "True \<and> b \<noteq> [] \<and> concat (ml_logs s) = b @ concat (ml_logs s')" if "multi_log_next_block s = Some (b, s')" for s b s'
    using that multi_log_blocks_spec(2) by (auto simp: multi_log_next_block_def split: option.splits)
qed

text \<open>Reading a multi-log with \<open>read\<close>: the first log counts from the current offset.\<close>

definition multi_log_rest :: "multi_log \<Rightarrow> byte list" where
  "multi_log_rest s = (case ml_logs s of [] \<Rightarrow> [] | l # ls \<Rightarrow> drop (length l - ml_curr s) l @ concat ls)"

definition multi_log_ok :: "multi_log \<Rightarrow> bool" where
  "multi_log_ok s \<longleftrightarrow> (case ml_logs s of [] \<Rightarrow> True | l # _ \<Rightarrow> ml_curr s \<le> length l)"

lemma multi_log_read_from_spec:
  "multi_log_ok \<lparr>ml_logs = ls, ml_curr = c\<rparr> \<Longrightarrow> multi_log_read_from sz c ls = (bs, s') \<Longrightarrow>
   multi_log_rest \<lparr>ml_logs = ls, ml_curr = c\<rparr> = bs @ multi_log_rest s' \<and> multi_log_ok s' \<and> length bs \<le> sz \<and>
   (bs = [] \<longrightarrow> sz = 0 \<or> multi_log_rest \<lparr>ml_logs = ls, ml_curr = c\<rparr> = [])"
proof (induction sz c ls arbitrary: bs s' rule: multi_log_read_from.induct)
  case (2 sz c l ls)
  show ?case
  proof (cases "0 < c")
    case True
    then have "bs = take (min c sz) (drop (length l - c) l)" "s' = \<lparr>ml_logs = l # ls, ml_curr = c - min c sz\<rparr>"
      using "2.prems"(2) by (simp_all add: Let_def)
    moreover have "drop (length l - c) l = take (min c sz) (drop (length l - c) l) @ drop (length l - (c - min c sz)) l"
    proof -
      have "drop (length l - (c - min c sz)) l = drop (min c sz) (drop (length l - c) l)"
        using "2.prems"(1) by (simp add: multi_log_ok_def add.commute)
      then show ?thesis by (metis append_take_drop_id)
    qed
    ultimately show ?thesis using True "2.prems"(1)
      by (auto simp: multi_log_rest_def multi_log_ok_def)
  next
    case c: False
    show ?thesis
    proof (cases ls)
      case Nil
      then show ?thesis using c "2.prems" by (auto simp: multi_log_rest_def multi_log_ok_def)
    next
      case (Cons l' ls')
      have r: "multi_log_rest \<lparr>ml_logs = l # ls, ml_curr = c\<rparr> = multi_log_rest \<lparr>ml_logs = ls, ml_curr = length l'\<rparr>"
        "multi_log_ok \<lparr>ml_logs = ls, ml_curr = length l'\<rparr>"
        using c Cons by (simp_all add: multi_log_rest_def multi_log_ok_def)
      have "multi_log_read_from sz (length l') ls = (bs, s')" using "2.prems"(2) c Cons by simp
      from "2.IH" [OF c Cons r(2) this] show ?thesis unfolding r(1) .
    qed
  qed
qed (auto simp: multi_log_rest_def multi_log_ok_def)


interpretation multi_source: byte_source multi_log_ok multi_log_read multi_log_rest
proof
  fix s sz bs s'
  assume a: "multi_log_ok s" "multi_log_read sz s = (bs, s')"
  have "s = \<lparr>ml_logs = ml_logs s, ml_curr = ml_curr s\<rparr>" by simp
  with a multi_log_read_from_spec [of "ml_logs s" "ml_curr s" sz bs s']
  show "multi_log_ok s' \<and> multi_log_rest s = bs @ multi_log_rest s' \<and> length bs \<le> sz"
    "bs = [] \<Longrightarrow> sz = 0 \<or> multi_log_rest s = []" by (auto simp: multi_log_read_def)
qed

text \<open>
  \<open>ChangesetInputStream\<close>: the changesets of a range of versions, fetched from the history in batches of
  \<open>NB_BUFFERS\<close>.  A changeset is read through a \<open>BinaryIterator\<close>, here the list of its pieces;
  \<open>get_changesets\<close> of the history is the parameter \<open>hist\<close>.
\<close>

record changeset_stream =
  cs_begin_version :: nat
  cs_end_version :: nat
  cs_changesets :: "byte list list list"
  cs_valid :: bool

definition NB_BUFFERS :: nat where
  "NB_BUFFERS = 8"

definition bi_get_next :: "byte list list \<Rightarrow> byte list \<times> byte list list" where
  "bi_get_next it = (case it of [] \<Rightarrow> ([], []) | p # ps \<Rightarrow> (p, ps))"

definition get_changeset :: "(nat \<Rightarrow> byte list list) \<Rightarrow> changeset_stream \<Rightarrow> changeset_stream" where
  "get_changeset hist s =
     (let versions_to_get = cs_end_version s - cs_begin_version s;
          valid = (0 < versions_to_get)
      in if valid then
           let versions_to_get = (if NB_BUFFERS < versions_to_get then NB_BUFFERS else versions_to_get);
               end_version = cs_begin_version s + versions_to_get
           in s\<lparr>cs_valid := valid, cs_changesets := map hist [cs_begin_version s..<end_version],
                cs_begin_version := end_version\<rparr>
         else s\<lparr>cs_valid := valid\<rparr>)"

definition changeset_stream_init :: "(nat \<Rightarrow> byte list list) \<Rightarrow> nat \<Rightarrow> nat \<Rightarrow> changeset_stream" where
  "changeset_stream_init hist begin_version end_version =
     get_changeset hist \<lparr>cs_begin_version = begin_version, cs_end_version = end_version,
       cs_changesets = [], cs_valid = False\<rparr>"

definition cs_measure :: "changeset_stream \<Rightarrow> nat" where
  "cs_measure s = (if cs_valid s then 2 + 2 * (cs_end_version s - cs_begin_version s) + length (cs_changesets s) else 0)"

function changeset_next_block ::
    "(nat \<Rightarrow> byte list list) \<Rightarrow> changeset_stream \<Rightarrow> (byte list \<times> changeset_stream) option" where
  "changeset_next_block hist s =
     (if cs_valid s then
        (case cs_changesets s of
           [] \<Rightarrow> None
         | it # its \<Rightarrow>
             let (actual, it') = bi_get_next it
             in if 0 < length actual then Some (actual, s\<lparr>cs_changesets := it' # its\<rparr>)
                else if its = [] then changeset_next_block hist (get_changeset hist (s\<lparr>cs_changesets := []\<rparr>))
                else changeset_next_block hist (s\<lparr>cs_changesets := its\<rparr>))
      else None)"
  by pat_completeness auto
termination
  by (relation "measure (\<lambda>(hist, s). cs_measure s)")
    (auto simp: cs_measure_def get_changeset_def NB_BUFFERS_def Let_def split: if_splits)


declare changeset_next_block.simps [simp del]

definition cs_ok :: "(nat \<Rightarrow> byte list list) \<Rightarrow> changeset_stream \<Rightarrow> bool" where
  "cs_ok hist s \<longleftrightarrow> (\<forall>v. [] \<notin> set (hist v)) \<and> (cs_valid s \<longrightarrow> cs_changesets s \<noteq> [] \<and> [] \<notin> set (concat (cs_changesets s)))"

definition cs_content :: "(nat \<Rightarrow> byte list list) \<Rightarrow> changeset_stream \<Rightarrow> byte list" where
  "cs_content hist s = (if cs_valid s then concat (concat (cs_changesets s)) @
     concat (concat (map hist [cs_begin_version s..<cs_end_version s])) else [])"

lemma get_changeset_content:
  assumes "\<forall>v. [] \<notin> set (hist v)"
  shows "cs_ok hist (get_changeset hist (s\<lparr>cs_changesets := []\<rparr>))"
    "cs_content hist (get_changeset hist (s\<lparr>cs_changesets := []\<rparr>)) =
      concat (concat (map hist [cs_begin_version s..<cs_end_version s]))"
proof -
  have "[a..<a + n] @ [a + n..<b] = [a..<b]" if "n \<le> b - a" "a < b" for a b n :: nat
    using that upt_add_eq_append [of a "a + n" "b - (a + n)"] by simp
  then have e: "concat (concat (map hist [a..<a + n])) @ concat (concat (map hist [a + n..<b])) = concat (concat (map hist [a..<b]))"
    if "n \<le> b - a" "a < b" for a b n :: nat
    using that by (metis concat_append map_append)
  show "cs_ok hist (get_changeset hist (s\<lparr>cs_changesets := []\<rparr>))"
    "cs_content hist (get_changeset hist (s\<lparr>cs_changesets := []\<rparr>)) =
      concat (concat (map hist [cs_begin_version s..<cs_end_version s]))"
    using assms e [of NB_BUFFERS "cs_end_version s" "cs_begin_version s"]
    by (auto simp: cs_ok_def cs_content_def get_changeset_def Let_def NB_BUFFERS_def)
qed


lemma changeset_next_block_spec:
  "cs_ok hist s \<Longrightarrow>
   (case changeset_next_block hist s of
      None \<Rightarrow> cs_content hist s = []
    | Some (b, s') \<Rightarrow> cs_ok hist s' \<and> b \<noteq> [] \<and> cs_content hist s = b @ cs_content hist s')"
proof (induction hist s rule: changeset_next_block.induct)
  case (1 hist s)
  show ?case
  proof (cases "cs_valid s")
    case v: True
    obtain it its where c: "cs_changesets s = it # its" using "1.prems" v by (cases "cs_changesets s") (auto simp: cs_ok_def)
    show ?thesis
    proof (cases it)
      case (Cons p ps)
      then have "p \<noteq> []" using "1.prems" v c by (auto simp: cs_ok_def)
      then show ?thesis using v c Cons "1.prems"
        by (subst changeset_next_block.simps) (auto simp: bi_get_next_def cs_ok_def cs_content_def)
    next
      case Nil
      have n: "bi_get_next it = ([], [])" using Nil by (simp add: bi_get_next_def)
      show ?thesis
      proof (cases its)
        case its: Nil
        let ?s = "get_changeset hist (s\<lparr>cs_changesets := []\<rparr>)"
        have h: "\<forall>v. [] \<notin> set (hist v)" using "1.prems" by (simp add: cs_ok_def)
        have s: "cs_ok hist ?s" "cs_content hist ?s = cs_content hist s"
          using get_changeset_content [OF h, of s] v c Nil its by (simp_all add: cs_content_def [of hist s])
        have "changeset_next_block hist s = changeset_next_block hist ?s"
          using v c n its by (subst changeset_next_block.simps) simp
        then show ?thesis using "1.IH"(1) [OF v c n [symmetric] _ _ its] s n by (auto split: option.splits)
      next
        case (Cons it2 its2)
        let ?s = "s\<lparr>cs_changesets := its\<rparr>"
        have s: "cs_ok hist ?s" "cs_content hist ?s = cs_content hist s"
          using v c Nil Cons "1.prems" by (simp_all add: cs_ok_def cs_content_def)
        have "changeset_next_block hist s = changeset_next_block hist ?s"
          using v c n Cons by (subst changeset_next_block.simps) simp
        then show ?thesis using "1.IH"(2) [OF v c n [symmetric]] s n Cons by (auto split: option.splits)
      qed
    qed
  next
    case False
    then show ?thesis by (subst changeset_next_block.simps) (simp add: cs_content_def)
  qed
qed

interpretation changesets: no_copy_input_stream "cs_ok hist" "changeset_next_block hist" "cs_content hist" for hist
proof
  show "cs_content hist s = []" if "cs_ok hist s" "changeset_next_block hist s = None" for s
    using changeset_next_block_spec [OF that(1)] that(2) by simp
  show "cs_ok hist s' \<and> b \<noteq> [] \<and> cs_content hist s = b @ cs_content hist s'"
    if "cs_ok hist s" "changeset_next_block hist s = Some (b, s')" for s b s'
    using changeset_next_block_spec [OF that(1)] that(2) by simp
qed

lemma changeset_stream_init_content:
  assumes "\<forall>v. [] \<notin> set (hist v)"
  shows "cs_ok hist (changeset_stream_init hist a b)"
    "cs_content hist (changeset_stream_init hist a b) = concat (concat (map hist [a..<b]))"
  using get_changeset_content [OF assms, of "\<lparr>cs_begin_version = a, cs_end_version = b, cs_changesets = [], cs_valid = False\<rparr>"]
  by (simp_all add: changeset_stream_init_def)


subsection \<open>Reading primitives of the parser\<close>

text \<open>
  The parser's view of its input: the unread bytes of the current block and the stream.  \<open>None\<close> stands for
  an exit by the exception \<open>BadTransactLog\<close>.
\<close>

type_synonym 's input = "byte list \<times> 's"

definition read_char :: "('s \<Rightarrow> (byte list \<times> 's) option) \<Rightarrow> 's input \<Rightarrow> (byte \<times> 's input) option" where
  "read_char nb p = (case fst p of
     c # cs \<Rightarrow> Some (c, cs, snd p)
   | [] \<Rightarrow> (case nb (snd p) of Some (c # cs, s) \<Rightarrow> Some (c, cs, s) | _ \<Rightarrow> None))"

definition has_next :: "('s \<Rightarrow> (byte list \<times> 's) option) \<Rightarrow> 's input \<Rightarrow> bool \<times> 's input" where
  "has_next nb p =
     (if fst p \<noteq> [] then (True, p)
      else case nb (snd p) of None \<Rightarrow> (False, p) | Some (b, s) \<Rightarrow> (True, b, s))"

partial_function (option) read_bytes ::
    "('s \<Rightarrow> (byte list \<times> 's) option) \<Rightarrow> nat \<Rightarrow> 's input \<Rightarrow> (byte list \<times> 's input) option" where
  "read_bytes nb n p =
     (if n \<le> length (fst p) then Some (take n (fst p), drop n (fst p), snd p)
      else (case nb (snd p) of
              None \<Rightarrow> None
            | Some (b, s) \<Rightarrow> do {
                (data, p') \<leftarrow> read_bytes nb (n - length (fst p)) (b, s);
                Some (fst p @ data, p')
              }))"

definition read_buffer :: "('s \<Rightarrow> (byte list \<times> 's) option) \<Rightarrow> nat \<Rightarrow> 's input \<Rightarrow> (byte list \<times> 's input) option" where
  "read_buffer nb n p =
     (if n \<le> length (fst p) then Some (take n (fst p), drop n (fst p), snd p) else read_bytes nb n p)"

text \<open>The state after \<open>n\<close> bytes have been read.\<close>

fun adv :: "('s \<Rightarrow> (byte list \<times> 's) option) \<Rightarrow> nat \<Rightarrow> 's input \<Rightarrow> 's input" where
  "adv nb 0 p = p"
| "adv nb (Suc n) p = (case read_char nb p of None \<Rightarrow> p | Some (c, p') \<Rightarrow> adv nb n p')"

context no_copy_input_stream
begin

definition bytes :: "'s input \<Rightarrow> byte list" where
  "bytes p = fst p @ content (snd p)"

definition good :: "'s input \<Rightarrow> bool" where
  "good p \<longleftrightarrow> ok (snd p)"

lemma read_char_Cons:
  assumes "good p" "bytes p = c # cs"
  shows "\<exists>p'. read_char next_block p = Some (c, p') \<and> good p' \<and> bytes p' = cs"
proof (cases "fst p")
  case Nil
  then have "content (snd p) = c # cs" using assms by (simp add: bytes_def)
  then obtain b s' where b: "next_block (snd p) = Some (b, s')" using assms next_None by (fastforce simp: good_def)
  then have "ok s'" "b \<noteq> []" "content (snd p) = b @ content s'" using assms next_Some by (auto simp: good_def)
  then show ?thesis using Nil b assms by (cases b) (auto simp: read_char_def good_def bytes_def)
qed (use assms in \<open>auto simp: read_char_def good_def bytes_def\<close>)

lemma read_char_Nil:
  assumes "good p" "bytes p = []"
  shows "read_char next_block p = None"
proof -
  have "fst p = []" "content (snd p) = []" using assms by (auto simp: bytes_def)
  moreover have "next_block (snd p) = None"
    using calculation(2) assms(1) next_Some by (cases "next_block (snd p)") (auto simp: good_def)
  ultimately show ?thesis by (simp add: read_char_def)
qed

lemma read_char_adv:
  assumes "good p" "bytes p = c # cs"
  shows "read_char next_block p = Some (c, adv next_block 1 p)"
  using read_char_Cons [OF assms] by auto

lemma adv_good: "good p \<Longrightarrow> good (adv next_block n p) \<and> bytes (adv next_block n p) = drop n (bytes p)"
proof (induction n arbitrary: p)
  case (Suc n)
  show ?case
  proof (cases "bytes p")
    case Nil
    then show ?thesis using Suc.prems read_char_Nil by simp
  next
    case (Cons c cs)
    then show ?thesis using read_char_Cons [OF Suc.prems Cons] Suc.IH by auto
  qed
qed simp

lemma adv_adv: "adv next_block m (adv next_block n p) = adv next_block (n + m) p"
proof (induction n arbitrary: p)
  case (Suc n)
  show ?case
  proof (cases "read_char next_block p")
    case None
    then have "adv next_block k p = p" for k by (cases k) auto
    then show ?thesis using None by simp
  qed (use Suc in auto)
qed simp

lemma adv_block: "n \<le> length cur \<Longrightarrow> adv next_block n (cur, s) = (drop n cur, s)"
proof (induction n arbitrary: cur)
  case (Suc n)
  then show ?case by (cases cur) (auto simp: read_char_def)
qed simp

lemma adv_next:
  assumes "ok s" "next_block s = Some (b, s')" "0 < n"
  shows "adv next_block n ([], s) = adv next_block n (b, s')"
proof -
  have "b \<noteq> []" using next_Some [OF assms(1,2)] by simp
  then have "read_char next_block ([], s) = read_char next_block (b, s')"
    using assms(2) by (auto simp: read_char_def split: list.splits)
  moreover have "read_char next_block (b, s') \<noteq> None" using \<open>b \<noteq> []\<close> by (cases b) (auto simp: read_char_def)
  ultimately show ?thesis using assms(3) by (cases n) auto
qed

lemma read_bytes_adv:
  "good p \<Longrightarrow> read_bytes next_block n p = (if n \<le> length (bytes p) then Some (take n (bytes p), adv next_block n p) else None)"
proof (induction "length (content (snd p))" arbitrary: p n rule: less_induct)
  case less
  obtain cur s where p: "p = (cur, s)" by (cases p)
  show ?case
  proof (cases "n \<le> length cur")
    case True
    then show ?thesis using p adv_block [OF True, of s] by (subst read_bytes.simps) (auto simp: bytes_def)
  next
    case n: False
    show ?thesis
    proof (cases "next_block s")
      case None
      then have "content s = []" using next_None less.prems p by (simp add: good_def)
      then show ?thesis using n None p by (subst read_bytes.simps) (auto simp: bytes_def)
    next
      case (Some q)
      obtain b s' where q: "q = (b, s')" by (cases q)
      have s': "ok s'" "b \<noteq> []" "content s = b @ content s'"
        using next_Some [of s b s'] less.prems Some p q by (auto simp: good_def)
      have ih: "read_bytes next_block (n - length cur) (b, s') =
          (if n - length cur \<le> length (bytes (b, s')) then Some (take (n - length cur) (bytes (b, s')), adv next_block (n - length cur) (b, s')) else None)"
        by (rule less.hyps) (use p s' in \<open>auto simp: good_def\<close>)
      have "adv next_block n p = adv next_block (n - length cur) (adv next_block (length cur) p)"
        unfolding adv_adv using n by simp
      also have "\<dots> = adv next_block (n - length cur) (b, s')"
        using adv_block [of "length cur" cur s] adv_next [of s b s' "n - length cur"] less.prems Some p q n by (simp add: good_def)
      finally show ?thesis using n Some p q s' ih
        by (subst read_bytes.simps) (auto simp: bytes_def)
    qed
  qed
qed

lemma read_buffer_adv:
  "good p \<Longrightarrow> read_buffer next_block n p = (if n \<le> length (bytes p) then Some (take n (bytes p), adv next_block n p) else None)"
  using read_bytes_adv [of p n] adv_block [of n "fst p" "snd p"] by (auto simp: read_buffer_def bytes_def)

lemma has_next_spec:
  assumes "good p"
  shows "\<exists>p'. has_next next_block p = (bytes p \<noteq> [], p') \<and> good p' \<and> bytes p' = bytes p"
proof (cases "fst p = []")
  case True
  show ?thesis
  proof (cases "next_block (snd p)")
    case None
    then show ?thesis using True assms next_None by (auto simp: has_next_def bytes_def good_def)
  next
    case (Some q)
    then show ?thesis using True assms next_Some [of "snd p" "fst q" "snd q"] by (cases q) (auto simp: has_next_def bytes_def good_def)
  qed
qed (use assms in \<open>auto simp: has_next_def bytes_def\<close>)

end

declare adv.simps(2) [simp del]

end
