(* ===== verification/Safe_Int.thy ===== *)
theory Safe_Int
  imports Prelude
begin

text \<open>
  The overflow-checked integer operations of \<open>core/realm/util/safe_int_ops.hpp\<close>.  A built-in integer type
  is described by its \<open>std::numeric_limits\<close>: the number of value bits and the signedness.  Values are
  mathematical integers in the range of their type, and every conversion to an unsigned type is written as
  a reduction modulo \<open>2 ^ digits\<close>.  The operations come in four variants, one for each combination of
  signedness, as the template specialisations do.  They are shown to agree with the mathematical
  comparison, and to fail exactly when the exact result is outside the range of the left operand.
\<close>

subsection \<open>Integer types\<close>

record int_type =
  digits :: nat
  is_signed :: bool

definition int_max :: "int_type \<Rightarrow> int" where
  "int_max T = 2 ^ digits T - 1"

definition int_min :: "int_type \<Rightarrow> int" where
  "int_min T = (if is_signed T then - (2 ^ digits T) else 0)"

definition in_range :: "int_type \<Rightarrow> int \<Rightarrow> bool" where
  "in_range T v \<longleftrightarrow> int_min T \<le> v \<and> v \<le> int_max T"

text \<open>The types of the LP64 platforms: \<open>bool\<close> and the integers of 8, 16, 32 and 64 bits.\<close>

definition int_type_ok :: "int_type \<Rightarrow> bool" where
  "int_type_ok T \<longleftrightarrow> (if is_signed T then digits T \<in> {7, 15, 31, 63} else digits T \<in> {1, 8, 16, 32, 64})"

definition t_int64 :: int_type where "t_int64 = \<lparr>digits = 63, is_signed = True\<rparr>"
definition t_int :: int_type where "t_int = \<lparr>digits = 31, is_signed = True\<rparr>"
definition t_char :: int_type where "t_char = \<lparr>digits = 7, is_signed = True\<rparr>"
definition t_size :: int_type where "t_size = \<lparr>digits = 64, is_signed = False\<rparr>"

lemmas int_type_defs = t_int64_def t_int_def t_char_def t_size_def

lemma int_types_ok [simp]: "int_type_ok t_int64" "int_type_ok t_int" "int_type_ok t_char" "int_type_ok t_size"
  by (simp_all add: int_type_defs int_type_ok_def)

text \<open>\<open>To(value)\<close>: reduction modulo the width, read as two's complement for a signed type.\<close>

definition int_cast :: "int_type \<Rightarrow> int \<Rightarrow> int" where
  "int_cast T v = (if is_signed T then (v + 2 ^ digits T) mod 2 ^ (digits T + 1) - 2 ^ digits T
                   else v mod 2 ^ digits T)"

subsection \<open>Choice of the common unsigned type\<close>

definition least_unsigned :: "nat \<Rightarrow> nat option" where
  "least_unsigned bits = find (\<lambda>d. bits \<le> d) [8, 16, 32, 64, 64]"

definition choose_widest_int :: "nat \<Rightarrow> nat \<Rightarrow> nat" where
  "choose_widest_int a b = (if b \<le> a then a else b)"

definition fastest_unsigned :: "nat \<Rightarrow> nat" where
  "fastest_unsigned bits = (case least_unsigned bits of None \<Rightarrow> 64 | Some d \<Rightarrow> choose_widest_int 32 d)"

text \<open>The number of bits an operand needs in two's complement.\<close>

definition needed_bits :: "int_type \<Rightarrow> nat" where
  "needed_bits T = (if is_signed T then digits T + 1 else digits T)"

definition common_unsigned :: "int_type \<Rightarrow> int_type \<Rightarrow> int_type" where
  "common_unsigned L R =
     \<lparr>digits = fastest_unsigned (if needed_bits R \<le> needed_bits L then needed_bits L else needed_bits R),
      is_signed = False\<rparr>"

subsection \<open>The primitives\<close>

definition is_negative :: "int_type \<Rightarrow> int \<Rightarrow> bool" where
  "is_negative T v \<longleftrightarrow> (if is_signed T then v < 0 else False)"

definition cast_to_unsigned :: "int_type \<Rightarrow> int \<Rightarrow> int" where
  "cast_to_unsigned To v = (if digits To = 1 then v mod 2 else int_cast To v)"

definition from_twos_compl :: "int_type \<Rightarrow> int_type \<Rightarrow> int \<Rightarrow> int" where
  "from_twos_compl To From twos_compl =
     (let sign_bit = 2 ^ (digits From - 1);
          non_negative = (\<not> is_signed To \<or> (twos_compl div sign_bit) mod 2 = 0)
      in if non_negative then int_cast To twos_compl
         else int_cast To (- 1 - int_cast To (int_cast From (int_cast From (- 1) - twos_compl))))"

subsection \<open>Operations by signedness\<close>

definition equal_uu :: "int_type \<Rightarrow> int_type \<Rightarrow> int \<Rightarrow> int \<Rightarrow> bool" where
  "equal_uu L R l r \<longleftrightarrow> int_cast (common_unsigned L R) l = int_cast (common_unsigned L R) r"

definition less_uu :: "int_type \<Rightarrow> int_type \<Rightarrow> int \<Rightarrow> int \<Rightarrow> bool" where
  "less_uu L R l r \<longleftrightarrow> int_cast (common_unsigned L R) l < int_cast (common_unsigned L R) r"

definition add_uu :: "int_type \<Rightarrow> int_type \<Rightarrow> int \<Rightarrow> int \<Rightarrow> int option" where
  "add_uu L R lval rval =
     (let C = common_unsigned L R; lval_2 = cast_to_unsigned L (lval + rval);
          overflow = int_cast C lval_2 < int_cast C rval
      in if overflow then None else Some lval_2)"

definition sub_uu :: "int_type \<Rightarrow> int_type \<Rightarrow> int \<Rightarrow> int \<Rightarrow> int option" where
  "sub_uu L R lval rval =
     (let C = common_unsigned L R; lval_2 = int_cast C (int_cast C lval - int_cast C rval);
          overflow = int_cast C lval < lval_2
      in if overflow then None else Some (cast_to_unsigned L lval_2))"

definition equal_us :: "int_type \<Rightarrow> int_type \<Rightarrow> int \<Rightarrow> int \<Rightarrow> bool" where
  "equal_us L R l r \<longleftrightarrow> (if digits R < digits L then 0 \<le> r \<and> l = cast_to_unsigned L r else int_cast R l = r)"

definition less_us :: "int_type \<Rightarrow> int_type \<Rightarrow> int \<Rightarrow> int \<Rightarrow> bool" where
  "less_us L R l r \<longleftrightarrow> (if digits R < digits L then 0 \<le> r \<and> l < cast_to_unsigned L r else int_cast R l < r)"

definition add_us :: "int_type \<Rightarrow> int_type \<Rightarrow> int \<Rightarrow> int \<Rightarrow> int option" where
  "add_us L R lval rval =
     (let C = common_unsigned L R; lval_2 = int_cast C (lval + int_cast C rval);
          overflow = (if digits L < digits C then int_cast C (int_max L) < lval_2
                      else (lval_2 < int_cast C lval) = (0 \<le> rval))
      in if overflow then None else Some (cast_to_unsigned L lval_2))"

definition sub_us :: "int_type \<Rightarrow> int_type \<Rightarrow> int \<Rightarrow> int \<Rightarrow> int option" where
  "sub_us L R lval rval =
     (let C = common_unsigned L R; lval_2 = int_cast C (lval - int_cast C rval);
          overflow = (if digits L < digits C then int_cast C (int_max L) < lval_2
                      else (int_cast C lval < lval_2) = (0 \<le> rval))
      in if overflow then None else Some (cast_to_unsigned L lval_2))"

definition equal_su :: "int_type \<Rightarrow> int_type \<Rightarrow> int \<Rightarrow> int \<Rightarrow> bool" where
  "equal_su L R l r \<longleftrightarrow> (if digits L < digits R then 0 \<le> l \<and> cast_to_unsigned R l = r else l = int_cast L r)"

definition less_su :: "int_type \<Rightarrow> int_type \<Rightarrow> int \<Rightarrow> int \<Rightarrow> bool" where
  "less_su L R l r \<longleftrightarrow> (if digits L < digits R then l < 0 \<or> cast_to_unsigned R l < r else l < int_cast L r)"

definition add_su :: "int_type \<Rightarrow> int_type \<Rightarrow> int \<Rightarrow> int \<Rightarrow> int option" where
  "add_su L R lval rval =
     (let C = common_unsigned L R; max_add = int_cast C (int_cast C (int_max L) - int_cast C lval);
          overflow = max_add < int_cast C rval
      in if overflow then None else Some (from_twos_compl L C (int_cast C (int_cast C lval + rval))))"

definition sub_su :: "int_type \<Rightarrow> int_type \<Rightarrow> int \<Rightarrow> int \<Rightarrow> int option" where
  "sub_su L R lval rval =
     (let C = common_unsigned L R; max_sub = int_cast C (int_cast C lval - int_cast C (int_min L));
          overflow = max_sub < int_cast C rval
      in if overflow then None else Some (from_twos_compl L C (int_cast C (int_cast C lval - rval))))"

definition add_ss :: "int_type \<Rightarrow> int_type \<Rightarrow> int \<Rightarrow> int \<Rightarrow> int option" where
  "add_ss L R lval rval =
     (if rval < 0 then (if lval < int_min L - rval then None else Some (int_cast L (lval + rval)))
      else (if int_max L - rval < lval then None else Some (int_cast L (lval + rval))))"

definition sub_ss :: "int_type \<Rightarrow> int_type \<Rightarrow> int \<Rightarrow> int \<Rightarrow> int option" where
  "sub_ss L R lval rval =
     (if rval < 0 then (if int_max L + rval < lval then None else Some (int_cast L (lval - rval)))
      else (if lval < int_min L + rval then None else Some (int_cast L (lval - rval))))"

subsection \<open>Dispatch\<close>

definition int_equal_to :: "int_type \<Rightarrow> int_type \<Rightarrow> int \<Rightarrow> int \<Rightarrow> bool" where
  "int_equal_to A B a b =
     (if is_signed A then (if is_signed B then a = b else equal_su A B a b)
      else (if is_signed B then equal_us A B a b else equal_uu A B a b))"

definition int_less_than :: "int_type \<Rightarrow> int_type \<Rightarrow> int \<Rightarrow> int \<Rightarrow> bool" where
  "int_less_than A B a b =
     (if is_signed A then (if is_signed B then a < b else less_su A B a b)
      else (if is_signed B then less_us A B a b else less_uu A B a b))"

definition int_not_equal_to :: "int_type \<Rightarrow> int_type \<Rightarrow> int \<Rightarrow> int \<Rightarrow> bool" where
  "int_not_equal_to A B a b \<longleftrightarrow> \<not> int_equal_to A B a b"

definition int_less_than_or_equal :: "int_type \<Rightarrow> int_type \<Rightarrow> int \<Rightarrow> int \<Rightarrow> bool" where
  "int_less_than_or_equal A B a b \<longleftrightarrow> \<not> int_less_than B A b a"

definition int_greater_than :: "int_type \<Rightarrow> int_type \<Rightarrow> int \<Rightarrow> int \<Rightarrow> bool" where
  "int_greater_than A B a b \<longleftrightarrow> int_less_than B A b a"

definition int_greater_than_or_equal :: "int_type \<Rightarrow> int_type \<Rightarrow> int \<Rightarrow> int \<Rightarrow> bool" where
  "int_greater_than_or_equal A B a b \<longleftrightarrow> \<not> int_less_than A B a b"

definition int_add_with_overflow_detect :: "int_type \<Rightarrow> int_type \<Rightarrow> int \<Rightarrow> int \<Rightarrow> int option" where
  "int_add_with_overflow_detect L R lval rval =
     (if is_signed L then (if is_signed R then add_ss L R lval rval else add_su L R lval rval)
      else (if is_signed R then add_us L R lval rval else add_uu L R lval rval))"

definition int_subtract_with_overflow_detect :: "int_type \<Rightarrow> int_type \<Rightarrow> int \<Rightarrow> int \<Rightarrow> int option" where
  "int_subtract_with_overflow_detect L R lval rval =
     (if is_signed L then (if is_signed R then sub_ss L R lval rval else sub_su L R lval rval)
      else (if is_signed R then sub_us L R lval rval else sub_uu L R lval rval))"

text \<open>The type of \<open>A() op B()\<close>: integral promotion, then the usual arithmetic conversions.\<close>

definition promote :: "int_type \<Rightarrow> int_type" where
  "promote T = (if needed_bits T < 32 then t_int else T)"

definition arith_bin_op_type :: "int_type \<Rightarrow> int_type \<Rightarrow> int_type" where
  "arith_bin_op_type A B =
     (let P = promote A; Q = promote B
      in if is_signed P = is_signed Q then (if digits Q \<le> digits P then P else Q)
         else if is_signed P then (if digits P < digits Q then Q else P)
         else (if digits Q < digits P then P else Q))"

text \<open>A failed \<open>REALM_ASSERT\<close> is the outer \<open>None\<close>; an overflow is \<open>Some None\<close>.\<close>

definition int_multiply_with_overflow_detect :: "int_type \<Rightarrow> int_type \<Rightarrow> int \<Rightarrow> int \<Rightarrow> int option option" where
  "int_multiply_with_overflow_detect L R lval rval = do {
     realm_assert (int_greater_than_or_equal L t_int lval 0);
     realm_assert (int_greater_than R t_int rval 0);
     if int_less_than (arith_bin_op_type L R) L (int_max L div rval) lval then Some None
     else Some (Some (int_cast L (lval * rval)))
   }"

definition int_shift_left_with_overflow_detect :: "int_type \<Rightarrow> int \<Rightarrow> nat \<Rightarrow> int option option" where
  "int_shift_left_with_overflow_detect T lval i = do {
     realm_assert (int_greater_than_or_equal T t_int lval 0);
     if int_max T div 2 ^ i < lval then Some None
     else Some (Some (int_cast T (lval * 2 ^ i)))
   }"

definition int_cast_has_overflow :: "int_type \<Rightarrow> int_type \<Rightarrow> int \<Rightarrow> bool" where
  "int_cast_has_overflow To From from \<longleftrightarrow>
     int_less_than From To from (int_min To) \<or> int_less_than To From (int_max To) from"

definition int_cast_with_overflow_detect :: "int_type \<Rightarrow> int_type \<Rightarrow> int \<Rightarrow> int option" where
  "int_cast_with_overflow_detect To From from =
     (if \<not> int_cast_has_overflow To From from then Some (int_cast To from) else None)"


subsection \<open>Ranges and conversions\<close>

lemma mod_wrap:
  fixes x m :: int
  shows "0 \<le> x \<Longrightarrow> x < m \<Longrightarrow> x mod m = x"
    "- m \<le> x \<Longrightarrow> x < 0 \<Longrightarrow> x mod m = x + m"
    "m \<le> x \<Longrightarrow> x < 2 * m \<Longrightarrow> x mod m = x - m"
proof -
  show "0 \<le> x \<Longrightarrow> x < m \<Longrightarrow> x mod m = x" by simp
  assume "- m \<le> x" "x < 0"
  then have "(x + m) mod m = x + m" by (intro mod_pos_pos_trivial) auto
  then show "x mod m = x + m" by simp
next
  assume "m \<le> x" "x < 2 * m"
  then have "(x - m) mod m = x - m" by (intro mod_pos_pos_trivial) auto
  then show "x mod m = x - m" by (simp add: mod_diff_right_eq)
qed

lemma in_range_unsigned: "\<not> is_signed T \<Longrightarrow> in_range T v \<longleftrightarrow> 0 \<le> v \<and> v < 2 ^ digits T"
  by (auto simp: in_range_def int_min_def int_max_def)

lemma in_range_signed: "is_signed T \<Longrightarrow> in_range T v \<longleftrightarrow> - (2 ^ digits T) \<le> v \<and> v < 2 ^ digits T"
  by (auto simp: in_range_def int_min_def int_max_def)

lemma in_range_nonneg: "0 \<le> v \<Longrightarrow> v < 2 ^ digits T \<Longrightarrow> in_range T v"
  by (cases "is_signed T") (simp_all add: in_range_unsigned in_range_signed order_trans [of _ 0])

lemma int_cast_id: "in_range T v \<Longrightarrow> int_cast T v = v"
  by (cases "is_signed T") (simp_all add: int_cast_def in_range_unsigned in_range_signed)

lemma cast_to_unsigned_id: "\<not> is_signed T \<Longrightarrow> in_range T v \<Longrightarrow> cast_to_unsigned T v = v"
  by (auto simp: cast_to_unsigned_def int_cast_id in_range_unsigned)

lemma cast_to_unsigned_mod: "\<not> is_signed T \<Longrightarrow> cast_to_unsigned T v = v mod 2 ^ digits T"
  by (simp add: cast_to_unsigned_def int_cast_def)

lemma needed_bits_le: "int_type_ok T \<Longrightarrow> needed_bits T \<le> 64"
  by (auto simp: int_type_ok_def needed_bits_def split: if_splits)

lemma fastest_unsigned_ge: "bits \<le> 64 \<Longrightarrow> bits \<le> fastest_unsigned bits \<and> fastest_unsigned bits \<in> {32, 64}"
  by (auto simp: fastest_unsigned_def least_unsigned_def choose_widest_int_def)

lemma common_unsigned_signed [simp]: "\<not> is_signed (common_unsigned L R)"
  by (simp add: common_unsigned_def)

lemma common_unsigned_ge:
  assumes "int_type_ok L" "int_type_ok R"
  shows "needed_bits L \<le> digits (common_unsigned L R)" "needed_bits R \<le> digits (common_unsigned L R)"
    "digits (common_unsigned L R) \<in> {32, 64}"
proof -
  let ?n = "if needed_bits R \<le> needed_bits L then needed_bits L else needed_bits R"
  have "?n \<le> 64" using needed_bits_le assms by auto
  from fastest_unsigned_ge [OF this] show "needed_bits L \<le> digits (common_unsigned L R)"
    "needed_bits R \<le> digits (common_unsigned L R)" "digits (common_unsigned L R) \<in> {32, 64}"
    by (auto simp: common_unsigned_def split: if_splits)
qed

lemma int_cast_unsigned: "\<not> is_signed T \<Longrightarrow> int_cast T v = v mod 2 ^ digits T"
  by (simp add: int_cast_def)

lemma pow_le: "a \<le> b \<Longrightarrow> (2 :: int) ^ a \<le> 2 ^ b"
  by simp

lemma pow_half: "a < b \<Longrightarrow> 2 * (2 :: int) ^ a \<le> 2 ^ b"
  using pow_le [of "Suc a" b] by simp

lemma in_range_mono:
  assumes "digits A \<le> digits B" "0 \<le> v" "in_range A v"
  shows "in_range B v"
proof -
  have "v < 2 ^ digits A" using assms(3) by (simp add: in_range_def int_max_def)
  also have "\<dots> \<le> 2 ^ digits B" by (rule pow_le [OF assms(1)])
  finally have "v < 2 ^ digits B" .
  moreover have "- (2 ^ digits B) \<le> (0 :: int)" by simp
  ultimately show ?thesis using assms(2) by (simp add: in_range_def int_min_def int_max_def)
qed

lemma in_range_common:
  assumes "int_type_ok L" "int_type_ok R" "0 \<le> v"
  shows "in_range L v \<Longrightarrow> in_range (common_unsigned L R) v" "in_range R v \<Longrightarrow> in_range (common_unsigned L R) v"
proof -
  have "digits L \<le> digits (common_unsigned L R)" "digits R \<le> digits (common_unsigned L R)"
    using common_unsigned_ge [OF assms(1,2)] by (auto simp: needed_bits_def split: if_splits)
  then show "in_range L v \<Longrightarrow> in_range (common_unsigned L R) v" "in_range R v \<Longrightarrow> in_range (common_unsigned L R) v"
    using in_range_mono assms(3) by blast+
qed

subsection \<open>Comparisons\<close>

lemma int_less_than_correct:
  assumes "int_type_ok A" "int_type_ok B" "in_range A a" "in_range B b"
  shows "int_less_than A B a b \<longleftrightarrow> a < b"
proof -
  have uu: "less_uu A B a b \<longleftrightarrow> a < b" if "\<not> is_signed A" "\<not> is_signed B"
    using that assms in_range_common [OF assms(1,2)] by (simp add: less_uu_def int_cast_id in_range_unsigned)
  have us: "less_us A B a b \<longleftrightarrow> a < b" if "\<not> is_signed A" "is_signed B"
  proof (cases "digits B < digits A")
    case True
    then have "0 \<le> b \<Longrightarrow> in_range A b" using assms(4) by (intro in_range_mono [of B A]) auto
    then show ?thesis using True that assms(3)
      by (cases "0 \<le> b") (auto simp: less_us_def cast_to_unsigned_id in_range_unsigned [of A])
  next
    case False
    then have "in_range B a" using that assms(3) by (intro in_range_mono [of A B]) (auto simp: in_range_unsigned)
    then show ?thesis using False by (simp add: less_us_def int_cast_id)
  qed
  have su: "less_su A B a b \<longleftrightarrow> a < b" if "is_signed A" "\<not> is_signed B"
  proof (cases "digits A < digits B")
    case True
    then have "0 \<le> a \<Longrightarrow> in_range B a" using assms(3) by (intro in_range_mono [of A B]) auto
    then show ?thesis using True that assms(4)
      by (cases "0 \<le> a") (auto simp: less_su_def cast_to_unsigned_id in_range_unsigned [of B])
  next
    case False
    then have "in_range A b" using that assms(4) by (intro in_range_mono [of B A]) (auto simp: in_range_unsigned)
    then show ?thesis using False by (simp add: less_su_def int_cast_id)
  qed
  from uu us su show ?thesis by (auto simp: int_less_than_def)
qed

lemma int_equal_to_correct:
  assumes "int_type_ok A" "int_type_ok B" "in_range A a" "in_range B b"
  shows "int_equal_to A B a b \<longleftrightarrow> a = b"
proof -
  have uu: "equal_uu A B a b \<longleftrightarrow> a = b" if "\<not> is_signed A" "\<not> is_signed B"
    using that assms in_range_common [OF assms(1,2)] by (simp add: equal_uu_def int_cast_id in_range_unsigned)
  have us: "equal_us A B a b \<longleftrightarrow> a = b" if "\<not> is_signed A" "is_signed B"
  proof (cases "digits B < digits A")
    case True
    then have "0 \<le> b \<Longrightarrow> in_range A b" using assms(4) by (intro in_range_mono [of B A]) auto
    then show ?thesis using True that assms(3)
      by (cases "0 \<le> b") (auto simp: equal_us_def cast_to_unsigned_id in_range_unsigned [of A])
  next
    case False
    then have "in_range B a" using that assms(3) by (intro in_range_mono [of A B]) (auto simp: in_range_unsigned)
    then show ?thesis using False by (simp add: equal_us_def int_cast_id)
  qed
  have su: "equal_su A B a b \<longleftrightarrow> a = b" if "is_signed A" "\<not> is_signed B"
  proof (cases "digits A < digits B")
    case True
    then have "0 \<le> a \<Longrightarrow> in_range B a" using assms(3) by (intro in_range_mono [of A B]) auto
    then show ?thesis using True that assms(4)
      by (cases "0 \<le> a") (auto simp: equal_su_def cast_to_unsigned_id in_range_unsigned [of B])
  next
    case False
    then have "in_range A b" using that assms(4) by (intro in_range_mono [of B A]) (auto simp: in_range_unsigned)
    then show ?thesis using False by (simp add: equal_su_def int_cast_id)
  qed
  from uu us su show ?thesis by (auto simp: int_equal_to_def)
qed


subsection \<open>Addition and subtraction\<close>

text \<open>The exact result, if the type can hold it.\<close>

definition fit :: "int_type \<Rightarrow> int \<Rightarrow> int option" where
  "fit T v = (if in_range T v then Some v else None)"

lemma add_ss_correct: "is_signed L \<Longrightarrow> in_range L l \<Longrightarrow> add_ss L R l r = fit L (l + r)"
  by (auto simp: add_ss_def fit_def int_cast_id in_range_def int_min_def)

lemma sub_ss_correct: "is_signed L \<Longrightarrow> in_range L l \<Longrightarrow> sub_ss L R l r = fit L (l - r)"
  by (auto simp: sub_ss_def fit_def int_cast_id in_range_def int_min_def)

lemma add_uu_correct:
  assumes ok: "int_type_ok L" "int_type_ok R" and u: "\<not> is_signed L" "\<not> is_signed R"
    and r: "in_range L l" "in_range R r"
  shows "add_uu L R l r = fit L (l + r)"
proof -
  let ?m = "2 ^ digits L :: int"
  have b: "0 \<le> l" "l < ?m" "0 \<le> r" using r u by (simp_all add: in_range_unsigned)
  have r2: "in_range L ((l + r) mod ?m)" using u by (simp add: in_range_unsigned)
  have c: "int_cast (common_unsigned L R) ((l + r) mod ?m) = (l + r) mod ?m" "int_cast (common_unsigned L R) r = r"
    using r r2 b in_range_common [OF ok] by (auto intro!: int_cast_id simp: u)
  have e: "add_uu L R l r = (if (l + r) mod ?m < r then None else Some ((l + r) mod ?m))"
    using c u by (simp add: add_uu_def cast_to_unsigned_mod)
  show ?thesis
  proof (cases "l + r < ?m")
    case True
    then show ?thesis using e b u by (simp add: fit_def in_range_unsigned)
  next
    case False
    have "(l + r) mod ?m < r"
    proof (cases "r < ?m")
      case True
      then have "(l + r) mod ?m = l + r - ?m" using False b by (intro mod_wrap(3)) auto
      then show ?thesis using b by simp
    next
      case large: False
      have "(l + r) mod ?m < ?m" by simp
      then show ?thesis using large by linarith
    qed
    then show ?thesis using e False u by (simp add: fit_def in_range_unsigned)
  qed
qed

lemma sub_uu_correct:
  assumes ok: "int_type_ok L" "int_type_ok R" and u: "\<not> is_signed L" "\<not> is_signed R"
    and r: "in_range L l" "in_range R r"
  shows "sub_uu L R l r = fit L (l - r)"
proof -
  let ?C = "common_unsigned L R"
  let ?c = "2 ^ digits ?C :: int"
  have b: "0 \<le> l" "0 \<le> r" using r u by (simp_all add: in_range_unsigned)
  have c: "in_range ?C l" "in_range ?C r" using in_range_common [OF ok] r b by auto
  then have cb: "l < ?c" "r < ?c" by (simp_all add: in_range_unsigned)
  have e: "sub_uu L R l r = (if l < (l - r) mod ?c then None else Some ((l - r) mod ?c mod 2 ^ digits L))"
    using c u by (simp add: sub_uu_def int_cast_id cast_to_unsigned_mod int_cast_unsigned [of ?C "l - r"])
  show ?thesis
  proof (cases "r \<le> l")
    case True
    then have "(l - r) mod ?c = l - r" "in_range L (l - r)" using b cb r(1) u by (simp_all add: in_range_unsigned)
    then show ?thesis using e b u by (simp add: fit_def in_range_unsigned)
  next
    case False
    then have "(l - r) mod ?c = l - r + ?c" using b cb by (intro mod_wrap(2)) auto
    then show ?thesis using e False cb u by (simp add: fit_def in_range_unsigned)
  qed
qed


text \<open>The sum of an unsigned and a signed operand, computed in the common unsigned type.\<close>

lemma wrap_sum:
  fixes l s C :: int
  assumes "0 \<le> l" "l < C" "- C \<le> s" "s \<le> C"
  shows "(l + s) mod C = (if l + s < 0 then l + s + C else if l + s < C then l + s else l + s - C)"
proof -
  consider "l + s < 0" | "0 \<le> l + s" "l + s < C" | "C \<le> l + s" by linarith
  then show ?thesis
  proof cases
    case 1
    then show ?thesis using mod_wrap(2) [of C "l + s"] assms by simp
  next
    case 2
    then show ?thesis by simp
  next
    case 3
    then show ?thesis using mod_wrap(3) [of C "l + s"] assms by simp
  qed
qed

lemma mixed_bounds:
  assumes ok: "int_type_ok L" "int_type_ok R" and s: "\<not> is_signed L" "is_signed R"
    and r: "in_range L l" "in_range R r" and C: "C = (2 :: int) ^ digits (common_unsigned L R)"
  shows "0 \<le> l" "l < 2 ^ digits L" "- (2 ^ digits R) \<le> r" "r < 2 ^ digits R" "2 * 2 ^ digits R \<le> C"
    "if digits L < digits (common_unsigned L R) then 2 * 2 ^ digits L \<le> C else 2 ^ digits L = C"
proof -
  have d: "digits L \<le> digits (common_unsigned L R)" "digits R < digits (common_unsigned L R)"
    using common_unsigned_ge [OF ok] s by (auto simp: needed_bits_def)
  then show "2 * 2 ^ digits R \<le> C" unfolding C by (intro pow_half)
  show "if digits L < digits (common_unsigned L R) then 2 * 2 ^ digits L \<le> C else 2 ^ digits L = C"
    using d pow_half [of "digits L"] unfolding C by (auto simp: le_antisym)
qed (use r s in \<open>simp_all add: in_range_unsigned in_range_signed\<close>)

lemma add_us_correct:
  assumes a: "int_type_ok L" "int_type_ok R" "\<not> is_signed L" "is_signed R" "in_range L l" "in_range R r"
  shows "add_us L R l r = fit L (l + r)"
proof -
  define C where "C = (2 :: int) ^ digits (common_unsigned L R)"
  define m where "m = (2 :: int) ^ digits L"
  note b = mixed_bounds [OF a C_def, folded m_def]
  have m: "0 < m" "m \<le> C" using b(1,2,6) by (auto simp: m_def split: if_splits)
  define x where "x = (l + r) mod C"
  have x: "x = (if l + r < 0 then l + r + C else if l + r < C then l + r else l + r - C)"
    unfolding x_def by (rule wrap_sum) (use b m in linarith)+
  have c: "int_cast (common_unsigned L R) v = v mod C" for v by (simp add: int_cast_unsigned C_def)
  have mx: "(m - 1) mod C = m - 1" "l mod C = l" using m b by auto
  have e: "add_us L R l r = (if (if digits L < digits (common_unsigned L R) then m - 1 < x
      else (x < l) = (0 \<le> r)) then None else Some (x mod m))"
    using a(3) mx by (simp add: add_us_def c int_max_def cast_to_unsigned_mod m_def [symmetric] mod_add_right_eq x_def [symmetric])
  have f: "fit L (l + r) = (if 0 \<le> l + r \<and> l + r < m then Some (l + r) else None)"
    using a(3) by (simp add: fit_def in_range_unsigned m_def)
  show ?thesis
  proof (cases "0 \<le> l + r \<and> l + r < m")
    case True
    then have "x = l + r" "x mod m = l + r" using x m by auto
    then show ?thesis using True b unfolding e f by auto
  next
    case False
    then show ?thesis using b m x unfolding e f by (auto split: if_splits)
  qed
qed

lemma sub_us_correct:
  assumes a: "int_type_ok L" "int_type_ok R" "\<not> is_signed L" "is_signed R" "in_range L l" "in_range R r"
  shows "sub_us L R l r = fit L (l - r)"
proof -
  define C where "C = (2 :: int) ^ digits (common_unsigned L R)"
  define m where "m = (2 :: int) ^ digits L"
  note b = mixed_bounds [OF a C_def, folded m_def]
  have m: "0 < m" "m \<le> C" using b(1,2,6) by (auto simp: m_def split: if_splits)
  define x where "x = (l - r) mod C"
  have x: "x = (if l - r < 0 then l - r + C else if l - r < C then l - r else l - r - C)"
    using wrap_sum [of l C "- r"] b m by (simp add: x_def)
  have c: "int_cast (common_unsigned L R) v = v mod C" for v by (simp add: int_cast_unsigned C_def)
  have mx: "(m - 1) mod C = m - 1" "l mod C = l" using m b by auto
  have e: "sub_us L R l r = (if (if digits L < digits (common_unsigned L R) then m - 1 < x
      else (l < x) = (0 \<le> r)) then None else Some (x mod m))"
    using a(3) mx by (simp add: sub_us_def c int_max_def cast_to_unsigned_mod m_def [symmetric] mod_diff_right_eq x_def [symmetric])
  have f: "fit L (l - r) = (if 0 \<le> l - r \<and> l - r < m then Some (l - r) else None)"
    using a(3) by (simp add: fit_def in_range_unsigned m_def)
  show ?thesis
  proof (cases "0 \<le> l - r \<and> l - r < m")
    case True
    then have "x = l - r" "x mod m = l - r" using x m by auto
    then show ?thesis using True b unfolding e f by auto
  next
    case False
    then show ?thesis using b m x unfolding e f by (auto split: if_splits)
  qed
qed

lemma from_twos_compl_correct:
  assumes ok: "int_type_ok L" "int_type_ok R" and s: "is_signed L" and v: "in_range L v"
    and C: "C = common_unsigned L R"
  shows "from_twos_compl L C (v mod 2 ^ digits C) = v"
proof -
  let ?c = "2 ^ digits C :: int" and ?h = "2 ^ (digits C - 1) :: int"
  have "needed_bits L \<le> digits C" "digits C \<in> {32, 64}" using common_unsigned_ge [OF ok] C by auto
  then have d: "digits L \<le> digits C - 1" "?c = 2 * ?h" using s by (auto simp: needed_bits_def simp flip: power_Suc)
  have "2 ^ digits L \<le> ?h" by (rule pow_le [OF d(1)])
  moreover have "- (2 ^ digits L) \<le> v" "v < 2 ^ digits L" using v s by (simp_all add: in_range_signed)
  ultimately have b: "- ?h \<le> v" "v < ?h" by linarith+
  have h: "0 < ?h" by simp
  have cc: "int_cast C w = w mod ?c" for w using C by (simp add: int_cast_unsigned)
  show ?thesis
  proof (cases "0 \<le> v")
    case True
    then have "v mod ?c = v" "v div ?h = 0" using b d(2) by auto
    then show ?thesis using v by (simp add: from_twos_compl_def int_cast_id)
  next
    case False
    have m: "v mod ?c = v + ?c" using False b d(2) by (intro mod_wrap(2)) auto
    have "(v + ?c) div ?h = 1"
    proof -
      have "(v + ?c) div ?h = ((v + ?h) + 1 * ?h) div ?h" using d(2) by (simp add: algebra_simps)
      also have "\<dots> = 1 + (v + ?h) div ?h" by (subst div_mult_self1) (use h in auto)
      also have "(v + ?h) div ?h = 0" using False b by auto
      finally show ?thesis by simp
    qed
    then have neg: "\<not> (\<not> is_signed L \<or> (v mod ?c) div ?h mod 2 = 0)" using s m by simp
    have "int_cast C (int_cast C (- 1) - v mod ?c) = - 1 - v"
    proof -
      have "(- 1 mod ?c - (v + ?c)) mod ?c = (- 1 - v - ?c) mod ?c"
        by (subst mod_diff_left_eq) (simp add: algebra_simps)
      also have "\<dots> = - 1 - v" using False b d(2) by (simp only: minus_mod_self2) auto
      finally show ?thesis unfolding cc m .
    qed
    moreover have "in_range L (- 1 - v)" using v s False by (simp add: in_range_signed)
    ultimately show ?thesis using neg v by (simp add: from_twos_compl_def int_cast_id Let_def)
  qed
qed


lemma su_bounds:
  assumes ok: "int_type_ok L" "int_type_ok R" and s: "is_signed L" "\<not> is_signed R"
    and r: "in_range L l" "in_range R r" and C: "C = (2 :: int) ^ digits (common_unsigned L R)"
  shows "0 \<le> r" "r < C" "- (2 ^ digits L) \<le> l" "l < 2 ^ digits L" "2 * 2 ^ digits L \<le> C"
proof -
  have "digits L < digits (common_unsigned L R)"
    using common_unsigned_ge [OF ok] s by (auto simp: needed_bits_def)
  then show "2 * 2 ^ digits L \<le> C" unfolding C by (intro pow_half)
  show "0 \<le> r" using r s by (simp add: in_range_unsigned)
  then show "r < C" using in_range_common(2) [OF ok _ r(2)] unfolding C by (simp add: in_range_unsigned)
qed (use r s in \<open>simp_all add: in_range_signed\<close>)

lemma add_su_correct:
  assumes a: "int_type_ok L" "int_type_ok R" "is_signed L" "\<not> is_signed R" "in_range L l" "in_range R r"
  shows "add_su L R l r = fit L (l + r)"
proof -
  define C where "C = (2 :: int) ^ digits (common_unsigned L R)"
  note b = su_bounds [OF a C_def]
  have c: "int_cast (common_unsigned L R) v = v mod C" for v by (simp add: int_cast_unsigned C_def)
  have "(int_max L - l) mod C = int_max L - l" using b by (simp add: int_max_def)
  then have e: "add_su L R l r = (if int_max L - l < r then None
      else Some (from_twos_compl L (common_unsigned L R) ((l + r) mod C)))"
    using b unfolding add_su_def Let_def c mod_diff_eq mod_add_left_eq by simp
  show ?thesis
  proof (cases "in_range L (l + r)")
    case True
    then show ?thesis using e from_twos_compl_correct [OF a(1,2,3) True refl] unfolding C_def
      by (simp add: fit_def in_range_def)
  next
    case False
    then have "int_max L - l < r" using a(5) b(1) by (auto simp: in_range_def)
    then show ?thesis using e False by (simp add: fit_def)
  qed
qed

lemma sub_su_correct:
  assumes a: "int_type_ok L" "int_type_ok R" "is_signed L" "\<not> is_signed R" "in_range L l" "in_range R r"
  shows "sub_su L R l r = fit L (l - r)"
proof -
  define C where "C = (2 :: int) ^ digits (common_unsigned L R)"
  note b = su_bounds [OF a C_def]
  have c: "int_cast (common_unsigned L R) v = v mod C" for v by (simp add: int_cast_unsigned C_def)
  have "(l - int_min L) mod C = l - int_min L" using b a(3) by (simp add: int_min_def)
  then have e: "sub_su L R l r = (if l - int_min L < r then None
      else Some (from_twos_compl L (common_unsigned L R) ((l - r) mod C)))"
    using b unfolding sub_su_def Let_def c mod_diff_left_eq mod_diff_right_eq by simp
  show ?thesis
  proof (cases "in_range L (l - r)")
    case True
    then show ?thesis using e from_twos_compl_correct [OF a(1,2,3) True refl] unfolding C_def
      by (simp add: fit_def in_range_def)
  next
    case False
    then have "l - int_min L < r" using a(5) b(1) by (auto simp: in_range_def)
    then show ?thesis using e False by (simp add: fit_def)
  qed
qed

lemma int_add_correct:
  "int_type_ok L \<Longrightarrow> int_type_ok R \<Longrightarrow> in_range L l \<Longrightarrow> in_range R r \<Longrightarrow>
   int_add_with_overflow_detect L R l r = fit L (l + r)"
  by (simp add: int_add_with_overflow_detect_def add_ss_correct add_su_correct add_us_correct add_uu_correct)

lemma int_subtract_correct:
  "int_type_ok L \<Longrightarrow> int_type_ok R \<Longrightarrow> in_range L l \<Longrightarrow> in_range R r \<Longrightarrow>
   int_subtract_with_overflow_detect L R l r = fit L (l - r)"
  by (simp add: int_subtract_with_overflow_detect_def sub_ss_correct sub_su_correct sub_us_correct sub_uu_correct)

subsection \<open>Multiplication, shift and conversion\<close>

lemma in_range_small [simp]: "int_type_ok T \<Longrightarrow> in_range T 0" "in_range t_int 0"
  by (auto simp: in_range_def int_min_def int_max_def t_int_def)

lemma arith_bin_op_type_ok:
  assumes "int_type_ok L" "int_type_ok R"
  shows "int_type_ok (arith_bin_op_type L R)" "digits L \<le> digits (arith_bin_op_type L R)"
  using assms
  by (auto simp: arith_bin_op_type_def promote_def int_type_ok_def needed_bits_def t_int_def Let_def)

lemma div_le_iff_mult: "0 < r \<Longrightarrow> m div r < l \<longleftrightarrow> m < l * (r :: int)"
proof -
  assume r: "0 < r"
  have e: "m = (m div r) * r + m mod r" "0 \<le> m mod r" "m mod r < r" using r by simp_all
  show ?thesis
  proof
    assume "m div r < l"
    then have "(m div r + 1) * r \<le> l * r" using r by (intro mult_right_mono) auto
    then show "m < l * r" using e by (simp only: distrib_right)
  next
    assume "m < l * r"
    then have "(m div r) * r < l * r" using e by linarith
    then show "m div r < l" using r by simp
  qed
qed

lemma int_multiply_correct:
  assumes ok: "int_type_ok L" "int_type_ok R" and r: "in_range L l" "in_range R r" "0 \<le> l" "0 < r"
  shows "int_multiply_with_overflow_detect L R l r = Some (fit L (l * r))"
proof -
  let ?q = "int_max L div r"
  have m: "0 \<le> int_max L" by (simp add: int_max_def)
  have "(int_max L + 1) * 1 \<le> (int_max L + 1) * r" using m r(4) by (intro mult_left_mono) auto
  then have "?q \<le> int_max L" using div_le_iff_mult [OF r(4), of "int_max L" "int_max L + 1"] by simp
  moreover have "0 \<le> ?q" using m r(4) by (simp add: pos_imp_zdiv_nonneg_iff)
  ultimately have "in_range L ?q" by (auto simp: in_range_def int_min_def order_trans [of _ 0])
  then have q: "in_range (arith_bin_op_type L R) ?q"
    using in_range_mono [OF arith_bin_op_type_ok(2) [OF ok] \<open>0 \<le> ?q\<close>] by blast
  have t: "int_less_than (arith_bin_op_type L R) L ?q l \<longleftrightarrow> int_max L < l * r"
    using int_less_than_correct [OF arith_bin_op_type_ok(1) [OF ok] ok(1) q r(1)] div_le_iff_mult [OF r(4)] by simp
  have "int_greater_than_or_equal L t_int l 0" "int_greater_than R t_int r 0"
    using int_less_than_correct [of L t_int l 0] int_less_than_correct [of t_int R 0 r] ok r
    by (simp_all add: int_greater_than_or_equal_def int_greater_than_def)
  moreover have "in_range L (l * r) \<longleftrightarrow> \<not> int_max L < l * r" using r
    by (auto simp: in_range_def int_min_def order_trans [of _ 0])
  ultimately show ?thesis using t by (simp add: int_multiply_with_overflow_detect_def fit_def int_cast_id)
qed

lemma int_shift_left_correct:
  assumes ok: "int_type_ok T" and r: "in_range T l" "0 \<le> l"
  shows "int_shift_left_with_overflow_detect T l i = Some (fit T (l * 2 ^ i))"
proof -
  have "int_greater_than_or_equal T t_int l 0"
    using int_less_than_correct [of T t_int l 0] ok r by (simp add: int_greater_than_or_equal_def)
  moreover have "int_max T div 2 ^ i < l \<longleftrightarrow> int_max T < l * 2 ^ i" by (rule div_le_iff_mult) simp
  moreover have "in_range T (l * 2 ^ i) \<longleftrightarrow> \<not> int_max T < l * 2 ^ i" using r
    by (auto simp: in_range_def int_min_def order_trans [of _ 0])
  ultimately show ?thesis by (simp add: int_shift_left_with_overflow_detect_def fit_def int_cast_id)
qed

lemma int_limits_in_range: "int_type_ok T \<Longrightarrow> in_range T (int_min T) \<and> in_range T (int_max T)"
  by (auto simp: in_range_def int_min_def int_max_def order_trans [of _ 0])

lemma int_cast_overflow_correct:
  assumes "int_type_ok To" "int_type_ok From" "in_range From v"
  shows "int_cast_with_overflow_detect To From v = fit To v"
proof -
  have "int_less_than From To v (int_min To) \<longleftrightarrow> v < int_min To" "int_less_than To From (int_max To) v \<longleftrightarrow> int_max To < v"
    using assms int_limits_in_range [of To] by (auto simp: int_less_than_correct)
  then show ?thesis
    by (auto simp: int_cast_with_overflow_detect_def int_cast_has_overflow_def fit_def int_cast_id in_range_def)
qed

end
