(* ===== verification/Log_Int.thy ===== *)
theory Log_Int
  imports Log_Input Safe_Int
begin

text \<open>
  The integer encoding of the transaction log: \<open>TransactLogEncoder::encode_int\<close> and
  \<open>TransactLogParser::read_int\<close>.  Seven bits per byte, least significant first, the top bit of a byte set
  when another byte follows; the sixth bit of the last byte is the sign.
\<close>

subsection \<open>encode_int\<close>

fun encode_loop :: "nat \<Rightarrow> int \<Rightarrow> byte list \<times> int" where
  "encode_loop 0 v = ([], v)"
| "encode_loop (Suc n) v =
     (if drop_bit 6 v = 0 then ([], v)
      else let (bs, w) = encode_loop n (drop_bit 7 v)
           in (word_of_int (or (push_bit 7 1) (take_bit 7 v)) # bs, w))"

definition max_bytes :: "int_type \<Rightarrow> nat" where
  "max_bytes T = ((1 + digits T) + (7 - 1)) div 7"

definition encode_int :: "int_type \<Rightarrow> int \<Rightarrow> byte list option" where
  "encode_int T value = do {
     let negative = is_negative T value;
     let value = (if negative then int_cast T (- (value + 1)) else value);
     realm_assert (\<not> is_negative T value);
     let (bs, w) = encode_loop (max_bytes T) value;
     Some (bs @ [word_of_int (if negative then or (push_bit 6 1) w else w)])
   }"

subsection \<open>read_int\<close>

fun read_loop :: "('s \<Rightarrow> (byte list \<times> 's) option) \<Rightarrow> int_type \<Rightarrow> nat \<Rightarrow> nat \<Rightarrow> int \<Rightarrow> 's input \<Rightarrow>
    (int \<times> int \<times> 's input) option" where
  "read_loop nb T 0 i value p = Some (value, 0, p)"
| "read_loop nb T (Suc n) i value p = do {
     (c, p1) \<leftarrow> read_char nb p;
     let part = uint c;
     if 0xFF < part then None
     else if \<not> bit part 7 then do {
       shifted \<leftarrow> int_shift_left_with_overflow_detect T (take_bit 6 part) (i * 7);
       q \<leftarrow> shifted;
       Some (or value q, part, p1)
     }
     else if n = 0 then None
     else read_loop nb T n (i + 1) (or value (int_cast T (push_bit (i * 7) (int_cast T (take_bit 7 part))))) p1
   }"

definition read_int :: "('s \<Rightarrow> (byte list \<times> 's) option) \<Rightarrow> int_type \<Rightarrow> 's input \<Rightarrow> (int \<times> 's input) option" where
  "read_int nb T p = do {
     (value, part, p1) \<leftarrow> read_loop nb T ((digits T + 1 + 6) div 7) 0 0 p;
     if bit part 6 then do {
       v \<leftarrow> int_subtract_with_overflow_detect T t_int (int_cast T (- value)) 1;
       Some (v, p1)
     }
     else Some (value, p1)
   }"

subsection \<open>The encoding\<close>

text \<open>The bytes of a value, independent of the type it is stored in.\<close>

function int_bytes :: "bool \<Rightarrow> int \<Rightarrow> byte list" where
  "int_bytes neg m =
     (if m < 64 then [word_of_int (if neg then 64 + m else m)]
      else word_of_int (128 + m mod 128) # int_bytes neg (m div 128))"
  by pat_completeness auto
termination by (relation "measure (\<lambda>(_, m). nat m)") auto

declare int_bytes.simps [simp del]

definition log_int :: "int \<Rightarrow> byte list" where
  "log_int v = (if v < 0 then int_bytes True (- v - 1) else int_bytes False v)"

lemma drop_bit_6_0: "0 \<le> v \<Longrightarrow> drop_bit 6 v = 0 \<longleftrightarrow> v < (64 :: int)"
  by (auto simp: drop_bit_eq_div)

lemma or_add: "0 \<le> (a :: int) \<Longrightarrow> a < 2 ^ n \<Longrightarrow> or a (push_bit n b) = a + b * 2 ^ n"
  using concat_bit_eq [of n a b] by (simp add: concat_bit_def take_bit_int_eq_self push_bit_eq_mult)

lemma or_128: "or (push_bit 7 1) (take_bit 7 v) = 128 + v mod (128 :: int)"
  using or_add [of "v mod 128" 7 1] by (simp add: take_bit_eq_mod or.commute)

lemma or_64: "0 \<le> v \<Longrightarrow> v < 64 \<Longrightarrow> or (push_bit 6 1) v = 64 + (v :: int)"
  using or_add [of v 6 1] by (simp add: or.commute)

lemma or_64_numeral: "0 \<le> v \<Longrightarrow> v < 64 \<Longrightarrow> or 64 v = 64 + (v :: int)"
  using or_64 [of v] by simp

lemma encode_loop_bytes:
  "0 \<le> v \<Longrightarrow> v < 64 * 128 ^ n \<Longrightarrow> \<exists>bs w. encode_loop n v = (bs, w) \<and> 0 \<le> w \<and> w < 64 \<and>
     (\<forall>neg. int_bytes neg v = bs @ [word_of_int (if neg then 64 + w else w)])"
proof (induction n arbitrary: v)
  case 0
  then show ?case by (simp add: int_bytes.simps)
next
  case (Suc n)
  show ?case
  proof (cases "v < 64")
    case True
    then show ?thesis using Suc.prems drop_bit_6_0 [of v] by (simp add: int_bytes.simps)
  next
    case False
    have "0 \<le> v div 128" "v div 128 < 64 * 128 ^ n" using Suc.prems by (auto simp: div_le_iff_mult)
    from Suc.IH [OF this] obtain bs w where "encode_loop n (v div 128) = (bs, w)" "0 \<le> w" "w < 64"
      "\<forall>neg. int_bytes neg (v div 128) = bs @ [word_of_int (if neg then 64 + w else w)]" by blast
    then show ?thesis using False Suc.prems drop_bit_6_0 [of v] or_128 [of v]
      by (simp add: int_bytes.simps [of _ v] drop_bit_eq_div)
  qed
qed

lemma max_bytes_enough: "(2 :: int) ^ digits T \<le> 64 * 128 ^ max_bytes T"
proof -
  have "digits T \<le> 7 * max_bytes T" unfolding max_bytes_def by linarith
  then have "(2 :: int) ^ digits T \<le> 2 ^ (7 * max_bytes T)" by simp
  also have "\<dots> = 128 ^ max_bytes T" by (simp add: power_mult)
  also have "\<dots> \<le> 64 * 128 ^ max_bytes T" by simp
  finally show ?thesis .
qed

lemma encode_int_log_int:
  assumes "in_range T v"
  shows "encode_int T v = Some (log_int v)"
proof -
  define m where "m = (if v < 0 then - v - 1 else v)"
  have m: "0 \<le> m" "m < 2 ^ digits T" using assms
    by (auto simp: m_def in_range_def int_min_def int_max_def split: if_splits)
  have neg: "is_negative T v \<longleftrightarrow> v < 0" using assms by (auto simp: is_negative_def in_range_def int_min_def)
  have "in_range T m" using m by (auto simp: in_range_def int_min_def int_max_def order_trans [of _ 0])
  then have c: "(if is_negative T v then int_cast T (- (v + 1)) else v) = m" unfolding neg
    by (auto simp: m_def int_cast_id)
  have "\<not> is_negative T m" using m by (simp add: is_negative_def)
  moreover obtain bs w where "encode_loop (max_bytes T) m = (bs, w)" "0 \<le> w" "w < 64"
    "\<forall>neg. int_bytes neg m = bs @ [word_of_int (if neg then 64 + w else w)]"
    using encode_loop_bytes [of m "max_bytes T"] m max_bytes_enough [of T] by auto
  ultimately show ?thesis unfolding encode_int_def Let_def c
    by (auto simp: neg or_64_numeral log_int_def m_def)
qed


subsection \<open>Decoding\<close>

lemma uint_byte: "0 \<le> v \<Longrightarrow> v < 256 \<Longrightarrow> uint (word_of_int v :: byte) = v"
  by (simp add: uint_word_of_int_eq take_bit_int_eq_self)

lemma byte_bits:
  fixes v :: int
  assumes "0 \<le> v" "v < 64"
  shows "bit (64 + v) 6" "\<not> bit v 6" "\<not> bit (64 + v) 7" "\<not> bit v 7" "take_bit 6 (64 + v) = v" "take_bit 6 v = v"
proof -
  have "(64 + v) div 64 = v div 64 + 1" by simp
  then have "(64 + v) div 64 = 1" using assms by simp
  then show "bit (64 + v) 6" "\<not> bit v 6" "\<not> bit (64 + v) 7" "\<not> bit v 7" "take_bit 6 (64 + v) = v" "take_bit 6 v = v"
    using assms by (simp_all add: bit_iff_odd take_bit_eq_mod)
qed

lemma cont_byte_bits:
  fixes v :: int
  shows "bit (128 + v mod 128) 7" "take_bit 7 (128 + v mod 128) = v mod 128"
proof -
  have "(128 + v mod 128) div 128 = 1" by simp
  then show "bit (128 + v mod 128) 7" by (simp add: bit_iff_odd)
  show "take_bit 7 (128 + v mod 128) = v mod 128" by (simp add: take_bit_eq_mod)
qed

definition log_type_ok :: "int_type \<Rightarrow> bool" where
  "log_type_ok T \<longleftrightarrow> int_type_ok T \<and> 7 \<le> digits T"

lemma log_types_ok [simp]: "log_type_ok t_int64" "log_type_ok t_int" "log_type_ok t_char" "log_type_ok t_size"
  by (simp_all add: log_type_ok_def) (simp_all add: int_type_defs)

lemma shifted_fits:
  fixes a m :: int
  assumes "k \<le> d" "0 \<le> a" "a < 2 ^ k" "0 \<le> m"
  shows "m * 2 ^ k \<le> 2 ^ d - 1 \<longleftrightarrow> a + m * 2 ^ k \<le> 2 ^ d - 1"
proof
  assume "m * 2 ^ k \<le> 2 ^ d - 1"
  then have "m * 2 ^ k < 2 ^ (d - k) * 2 ^ k" using assms(1) by (simp flip: power_add)
  then have "m + 1 \<le> 2 ^ (d - k)" by simp
  then have "(m + 1) * 2 ^ k \<le> 2 ^ (d - k) * 2 ^ k" by (intro mult_right_mono) auto
  also have "\<dots> = 2 ^ d" using assms(1) by (simp flip: power_add)
  finally show "a + m * 2 ^ k \<le> 2 ^ d - 1" using assms(3) by (simp add: algebra_simps)
qed (use assms in auto)

lemma horner: "c * P + q * (128 * P) = (128 * q + c) * (P :: int)"
  by (simp add: algebra_simps)

lemma too_many_bytes:
  assumes "d < 7 * Suc i" "64 \<le> m" "0 \<le> (a :: int)"
  shows "\<not> a + m * 2 ^ (7 * i) \<le> 2 ^ d - 1"
proof -
  have "(2 :: int) ^ d \<le> 2 ^ (6 + 7 * i)" using assms(1) by (intro power_increasing) auto
  also have "\<dots> = 64 * 2 ^ (7 * i)" by (simp add: power_add)
  also have "\<dots> \<le> m * 2 ^ (7 * i)" using assms(2) by (intro mult_right_mono) auto
  finally show ?thesis using assms(3) by linarith
qed

text \<open>
  What \<open>read_int<T>\<close> returns for a value written by \<open>encode_int\<close>, with any type on either side.
\<close>

definition read_result :: "int_type \<Rightarrow> int \<Rightarrow> int option" where
  "read_result T v =
     (if is_signed T \<or> 0 \<le> v then fit T v
      else if - v - 1 \<le> int_max T \<and> v \<noteq> - 1 then Some (2 ^ digits T + v) else None)"

context no_copy_input_stream
begin

lemma read_loop_bytes:
  assumes "log_type_ok T"
  shows "good p \<Longrightarrow> bytes p = int_bytes neg m @ rest \<Longrightarrow> 0 \<le> m \<Longrightarrow> 0 \<le> a \<Longrightarrow> a < 2 ^ (7 * i) \<Longrightarrow>
    7 * (i + n) \<le> digits T \<Longrightarrow> digits T < 7 * (i + Suc n) \<Longrightarrow>
    \<exists>part. bit part 6 = neg \<and> read_loop next_block T (Suc n) i a p =
      (if a + m * 2 ^ (7 * i) \<le> int_max T
       then Some (a + m * 2 ^ (7 * i), part, adv next_block (length (int_bytes neg m)) p) else None)"
proof (induction n arbitrary: p a i m)
  have ok: "int_type_ok T" "7 \<le> digits T" using assms by (auto simp: log_type_ok_def)
  have r127: "in_range T v" if "0 \<le> v" "v < 128" for v
    using in_range_mono [of "\<lparr>digits = 7, is_signed = False\<rparr>" T v] ok that by (simp add: in_range_unsigned)
  have last_byte: "\<exists>part. bit part 6 = neg \<and> read_loop next_block T (Suc n) i a p =
      (if a + m * 2 ^ (7 * i) \<le> int_max T then Some (a + m * 2 ^ (7 * i), part, adv next_block (length (int_bytes neg m)) p) else None)"
    if p: "good p" "bytes p = int_bytes neg m @ rest" and m: "0 \<le> m" "m < 64" and a: "0 \<le> a" "a < 2 ^ (7 * i)"
      and d: "7 * i \<le> digits T" for p n i a m
  proof -
    let ?part = "if neg then 64 + m else m"
    have b: "int_bytes neg m = [word_of_int ?part]" using m by (simp add: int_bytes.simps)
    have u: "uint (word_of_int ?part :: byte) = ?part" using m by (intro uint_byte) auto
    have "read_char next_block p = Some (word_of_int ?part, adv next_block 1 p)" using p b by (intro read_char_adv) auto
    moreover have "int_shift_left_with_overflow_detect T (take_bit 6 ?part) (i * 7) = Some (fit T (m * 2 ^ (7 * i)))"
      using int_shift_left_correct [OF ok(1) r127 [of m], of "7 * i"] m byte_bits by (auto simp: mult.commute)
    moreover have "in_range T (m * 2 ^ (7 * i)) \<longleftrightarrow> a + m * 2 ^ (7 * i) \<le> int_max T"
      using shifted_fits [OF d a m(1)] m(1) by (auto simp: in_range_def int_max_def int_min_def order_trans [of _ 0])
    moreover have "or a (m * 2 ^ (7 * i)) = a + m * 2 ^ (7 * i)" using or_add [OF a, of m] by (simp add: push_bit_eq_mult)
    moreover have "\<not> 0xFF < ?part" "\<not> bit ?part 7" using m byte_bits by auto
    ultimately show ?thesis using byte_bits [OF m] b
      by (intro exI [of _ ?part]) (auto simp: u fit_def)
  qed
  {
    case (0 p a i m)
    show ?case
    proof (cases "m < 64")
      case True
      then show ?thesis using last_byte [of p m a i 0] "0.prems" by simp
    next
      case False
      define B where "B = (word_of_int (128 + m mod 128) :: byte)"
      have b: "int_bytes neg m = B # int_bytes neg (m div 128)" using False by (simp add: int_bytes.simps [of neg m] B_def)
      have u: "uint B = 128 + m mod 128" using pos_mod_bound [of 128 m] unfolding B_def by (intro uint_byte) auto
      have "read_char next_block p = Some (B, adv next_block 1 p)" using "0.prems" b by (intro read_char_adv) auto
      then have "read_loop next_block T (Suc 0) i a p = None" using cont_byte_bits(1) [of m] by (simp add: u Let_def)
      moreover have "\<not> a + m * 2 ^ (7 * i) \<le> int_max T"
        using too_many_bytes [of "digits T" i m a] "0.prems" False by (simp add: int_max_def)
      moreover have "\<exists>part :: int. bit part 6 = neg" using byte_bits [of 0] by (metis order_refl zero_less_numeral)
      ultimately show ?thesis by auto
    qed
  next
    case (Suc n p a i m)
    show ?case
    proof (cases "m < 64")
      case True
      then show ?thesis using last_byte [of p m a i "Suc n"] Suc.prems by simp
    next
      case False
      let ?c = "m mod 128"
      define B where "B = (word_of_int (128 + ?c) :: byte)"
      have b: "int_bytes neg m = B # int_bytes neg (m div 128)" using False by (simp add: int_bytes.simps [of neg m] B_def)
      have c: "0 \<le> ?c" "?c < 128" by simp_all
      have u: "uint B = 128 + ?c" using c unfolding B_def by (intro uint_byte) auto
      have ch: "read_char next_block p = Some (B, adv next_block 1 p)"
        using Suc.prems b by (intro read_char_adv) auto
      have "?c * 2 ^ (7 * i) < 128 * 2 ^ (7 * i)" using c by simp
      also have "\<dots> = (2 :: int) ^ (7 * Suc i)" by (simp add: power_add)
      also have "\<dots> \<le> 2 ^ digits T" using Suc.prems(6) by (intro power_increasing) auto
      finally have "in_range T (?c * 2 ^ (7 * i))" using c(1) by (intro in_range_nonneg) simp_all
      then have v: "or a (int_cast T (push_bit (i * 7) (int_cast T (take_bit 7 (128 + ?c))))) = a + ?c * 2 ^ (7 * i)"
        using or_add [of a "7 * i" ?c] Suc.prems(4,5) r127 [OF c] cont_byte_bits(2) [of m]
        by (simp add: int_cast_id push_bit_eq_mult mult.commute)
      let ?a = "a + ?c * 2 ^ (7 * i)"
      have a': "0 \<le> ?a" "?a < 2 ^ (7 * Suc i)"
      proof -
        have "?c * 2 ^ (7 * i) \<le> 127 * 2 ^ (7 * i)" using c by (intro mult_right_mono) auto
        moreover have e: "(2 :: int) ^ (7 * Suc i) = 128 * 2 ^ (7 * i)" by (simp add: power_add)
        ultimately show "?a < 2 ^ (7 * Suc i)" using Suc.prems(5) unfolding e by linarith
      qed (use Suc.prems c in simp)
      have q: "good (adv next_block 1 p)" "bytes (adv next_block 1 p) = int_bytes neg (m div 128) @ rest"
        using adv_good [OF Suc.prems(1), of 1] Suc.prems(2) b by auto
      have eq: "?a + m div 128 * 2 ^ (7 * Suc i) = a + m * 2 ^ (7 * i)"
        using horner [of ?c "2 ^ (7 * i)" "m div 128"] by (simp add: power_add)
      have d: "0 \<le> m div 128" "7 * (Suc i + n) \<le> digits T" "digits T < 7 * (Suc i + Suc n)"
        using Suc.prems(3,6,7) by (simp_all add: pos_imp_zdiv_nonneg_iff)
      obtain part where part: "bit part 6 = neg" "read_loop next_block T (Suc n) (Suc i) ?a (adv next_block 1 p) =
        (if a + m * 2 ^ (7 * i) \<le> int_max T
         then Some (a + m * 2 ^ (7 * i), part, adv next_block (length (int_bytes neg (m div 128))) (adv next_block 1 p)) else None)"
        using Suc.IH [OF q d(1) a' d(2,3), unfolded eq] by blast
      have "read_loop next_block T (Suc (Suc n)) i a p = read_loop next_block T (Suc n) (Suc i) ?a (adv next_block 1 p)"
      proof -
        have "\<not> 0xFF < uint B" using c u by linarith
        then show ?thesis using ch cont_byte_bits(1) [of m] v u
          by (subst read_loop.simps) (simp add: Let_def del: read_loop.simps)
      qed
      then show ?thesis using part b by (intro exI [of _ part]) (simp add: adv_adv del: read_loop.simps)
    qed
  }
qed

lemma read_int_log_int:
  assumes T: "log_type_ok T" and p: "good p" "bytes p = log_int v @ rest"
  shows "read_int next_block T p = map_option (\<lambda>w. (w, adv next_block (length (log_int v)) p)) (read_result T v)"
proof -
  define m where "m = (if v < 0 then - v - 1 else v)"
  define neg where "neg \<longleftrightarrow> v < 0"
  have l: "log_int v = int_bytes neg m" by (simp add: log_int_def m_def neg_def)
  have m: "0 \<le> m" by (simp add: m_def)
  define n where "n = (digits T + 1 + 6) div 7 - 1"
  have n: "(digits T + 1 + 6) div 7 = Suc n" "7 * n \<le> digits T" "digits T < 7 * Suc n"
    using T by (auto simp: n_def log_type_ok_def)
  obtain part where part: "bit part 6 = neg" "read_loop next_block T (Suc n) 0 0 p =
      (if m \<le> int_max T then Some (m, part, adv next_block (length (log_int v)) p) else None)"
    using read_loop_bytes [OF T p(1), of neg m rest 0 0 n] p(2) m n l by auto
  have ok: "int_type_ok T" "0 < (2 :: int) ^ digits T" using T by (simp_all add: log_type_ok_def)
  show ?thesis
  proof (cases "m \<le> int_max T")
    case False
    then have "read_result T v = None"
      by (auto simp: read_result_def fit_def in_range_def int_min_def int_max_def m_def split: if_splits)
    then show ?thesis using False unfolding read_int_def n(1) part(2) by simp
  next
    case True
    have one: "in_range t_int 1" by (simp add: in_range_def int_min_def int_max_def t_int_def)
    define u where "u = int_cast T (- m)"
    have u: "in_range T u" "u = (if is_signed T \<or> m = 0 then - m else 2 ^ digits T - m)"
    proof -
      show "in_range T u" using True m ok(2) unfolding u_def
        by (cases "is_signed T") (auto simp: int_cast_id in_range_def int_max_def int_min_def int_cast_def [of T])
      show "u = (if is_signed T \<or> m = 0 then - m else 2 ^ digits T - m)"
      proof (cases "is_signed T \<or> m = 0")
        case True
        then have "in_range T (- m)" using \<open>m \<le> int_max T\<close> m ok(2) by (auto simp: in_range_def int_max_def int_min_def)
        then show ?thesis using True by (simp add: u_def int_cast_id)
      next
        case False
        then show ?thesis using mod_wrap(2) [of "2 ^ digits T" "- m"] True m by (simp add: u_def int_cast_def int_max_def)
      qed
    qed
    have "int_subtract_with_overflow_detect T t_int u 1 = fit T (u - 1)"
      by (rule int_subtract_correct [OF ok(1) _ u(1) one]) simp
    then have r: "read_int next_block T p = (if neg then map_option (\<lambda>w. (w, adv next_block (length (log_int v)) p)) (fit T (u - 1))
        else Some (m, adv next_block (length (log_int v)) p))"
      using True part(1) unfolding read_int_def n(1) part(2) by (auto simp: u_def [symmetric] fit_def)
    have "read_result T v = (if neg then fit T (u - 1) else Some m)"
      using True m ok(2) u(2)
      by (auto simp: read_result_def fit_def neg_def m_def in_range_def int_max_def int_min_def split: if_splits)
    then show ?thesis using r by simp
  qed
qed

end

end
