(* ===== verification/Buffer.thy ===== *)
theory Buffer
  imports Safe_Int
begin

text \<open>
  \<open>util::Buffer\<close> and \<open>util::AppendBuffer\<close> (\<open>core/realm/util/buffer.hpp\<close>).  A buffer is the list of its
  elements (\<open>m_size\<close> is its length); freshly allocated elements have the value \<open>junk\<close>.  \<open>None\<close> is the
  exception \<open>BufferSizeOverflow\<close>.  Copying outside a buffer is \<open>None\<close> too.
\<close>

definition size_max :: nat where
  "size_max = 2 ^ 64 - 1"

definition buffer_resize :: "'a \<Rightarrow> nat \<Rightarrow> nat \<Rightarrow> nat \<Rightarrow> nat \<Rightarrow> 'a list \<Rightarrow> 'a list option" where
  "buffer_resize junk new_size copy_begin copy_end copy_to m_data = do {
     realm_assert (copy_begin \<le> copy_end \<and> copy_end \<le> length m_data \<and> copy_to + (copy_end - copy_begin) \<le> new_size);
     let new_data = replicate new_size junk;
     let copied = take (copy_end - copy_begin) (drop copy_begin m_data);
     Some (take copy_to new_data @ copied @ drop (copy_to + length copied) new_data)
   }"

definition buffer_set_size :: "'a \<Rightarrow> nat \<Rightarrow> 'a list \<Rightarrow> 'a list" where
  "buffer_set_size junk new_size m_data = replicate new_size junk"

definition buffer_reserve :: "'a \<Rightarrow> nat \<Rightarrow> nat \<Rightarrow> 'a list \<Rightarrow> 'a list option" where
  "buffer_reserve junk used_size min_capacity m_data =
     (let current_capacity = length m_data
      in if min_capacity \<le> current_capacity then Some m_data
         else do {
           product \<leftarrow> int_multiply_with_overflow_detect t_size t_int (int current_capacity) 3;
           let new_capacity = (case product of None \<Rightarrow> size_max | Some c \<Rightarrow> nat c) div 2;
           let new_capacity = (if new_capacity < min_capacity then min_capacity else new_capacity);
           buffer_resize junk new_capacity 0 used_size 0 m_data
         })"

definition buffer_reserve_extra :: "'a \<Rightarrow> nat \<Rightarrow> nat \<Rightarrow> 'a list \<Rightarrow> 'a list option" where
  "buffer_reserve_extra junk used_size min_extra_capacity m_data = do {
     min_capacity \<leftarrow> int_add_with_overflow_detect t_size t_size (int used_size) (int min_extra_capacity);
     buffer_reserve junk used_size (nat min_capacity) m_data
   }"

text \<open>\<open>safe_copy_n(src, n, data + at)\<close> into a buffer.\<close>

definition copy_into :: "nat \<Rightarrow> 'a list \<Rightarrow> 'a list \<Rightarrow> 'a list option" where
  "copy_into at src data = do {
     realm_assert (at + length src \<le> length data);
     Some (take at data @ src @ drop (at + length src) data)
   }"

record 'a append_buffer =
  ab_buffer :: "'a list"
  ab_size :: nat

definition ab_append :: "'a \<Rightarrow> 'a list \<Rightarrow> 'a append_buffer \<Rightarrow> 'a append_buffer option" where
  "ab_append junk append_data b = do {
     buf \<leftarrow> buffer_reserve_extra junk (ab_size b) (length append_data) (ab_buffer b);
     buf \<leftarrow> copy_into (ab_size b) append_data buf;
     Some (b\<lparr>ab_buffer := buf, ab_size := ab_size b + length append_data\<rparr>)
   }"

definition ab_reserve :: "'a \<Rightarrow> nat \<Rightarrow> 'a append_buffer \<Rightarrow> 'a append_buffer option" where
  "ab_reserve junk min_capacity b = do {
     buf \<leftarrow> buffer_reserve junk (ab_size b) min_capacity (ab_buffer b);
     Some (b\<lparr>ab_buffer := buf\<rparr>)
   }"

definition ab_resize :: "'a \<Rightarrow> nat \<Rightarrow> 'a append_buffer \<Rightarrow> 'a append_buffer option" where
  "ab_resize junk new_size b = do {
     b \<leftarrow> ab_reserve junk new_size b;
     Some (b\<lparr>ab_size := new_size\<rparr>)
   }"

definition ab_clear :: "'a append_buffer \<Rightarrow> 'a append_buffer" where
  "ab_clear b = b\<lparr>ab_size := 0\<rparr>"

definition ab_release :: "'a append_buffer \<Rightarrow> 'a list \<times> 'a append_buffer" where
  "ab_release b = (ab_buffer b, b\<lparr>ab_buffer := [], ab_size := 0\<rparr>)"

subsection \<open>Growth\<close>

lemma size_in_range: "in_range t_size (int n) \<longleftrightarrow> n \<le> size_max"
  by (auto simp: in_range_unsigned t_size_def size_max_def)

lemma buffer_reserve_correct:
  assumes "used \<le> length d" "length d \<le> size_max" "min_capacity \<le> size_max"
  shows "\<exists>d'. buffer_reserve junk used min_capacity d = Some d' \<and> min_capacity \<le> length d' \<and> length d \<le> length d' \<and>
    length d' \<le> size_max \<and> take used d' = take used d"
proof (cases "min_capacity \<le> length d")
  case True
  then show ?thesis using assms by (simp add: buffer_reserve_def)
next
  case False
  let ?c = "int (length d)"
  have m: "int_multiply_with_overflow_detect t_size t_int ?c 3 = Some (fit t_size (?c * 3))"
  proof (rule int_multiply_correct)
    show "in_range t_size ?c" using assms by (simp add: size_in_range)
    show "in_range t_int 3" by (simp add: in_range_def int_min_def int_max_def t_int_def)
  qed simp_all
  define n where "n = (case fit t_size (?c * 3) of None \<Rightarrow> size_max | Some c \<Rightarrow> nat c) div 2"
  have n: "n \<le> size_max"
    by (auto simp: n_def fit_def size_in_range [of "length d * 3", simplified] split: option.splits if_splits)
  define n' where "n' = (if n < min_capacity then min_capacity else n)"
  have n': "min_capacity \<le> n'" "n' \<le> size_max" "length d < n'" using n assms False by (auto simp: n'_def)
  have "buffer_reserve junk used min_capacity d = buffer_resize junk n' 0 used 0 d"
    using False m by (simp add: buffer_reserve_def Let_def n_def n'_def)
  also have "\<dots> = Some (take used d @ drop used (replicate n' junk))"
    using assms n' by (simp add: buffer_resize_def Let_def)
  finally show ?thesis using n' assms by (intro exI [of _ "take used d @ drop used (replicate n' junk)"]) simp
qed

lemma buffer_reserve_extra_correct:
  assumes "used \<le> length d" "length d \<le> size_max" "extra \<le> size_max"
  shows "if used + extra \<le> size_max
    then \<exists>d'. buffer_reserve_extra junk used extra d = Some d' \<and> used + extra \<le> length d' \<and> length d' \<le> size_max \<and>
      take used d' = take used d
    else buffer_reserve_extra junk used extra d = None"
proof -
  have "int_add_with_overflow_detect t_size t_size (int used) (int extra) = fit t_size (int used + int extra)"
    by (rule int_add_correct) (use assms in \<open>auto simp: size_in_range\<close>)
  moreover have "in_range t_size (int used + int extra) \<longleftrightarrow> used + extra \<le> size_max"
    using size_in_range [of "used + extra"] by simp
  ultimately show ?thesis using buffer_reserve_correct [OF assms(1,2), of "used + extra" junk]
    by (auto simp: buffer_reserve_extra_def fit_def nat_add_distrib)
qed

subsection \<open>The append buffer as a list\<close>

definition ab_ok :: "'a append_buffer \<Rightarrow> bool" where
  "ab_ok b \<longleftrightarrow> ab_size b \<le> length (ab_buffer b) \<and> length (ab_buffer b) \<le> size_max"

definition ab_contents :: "'a append_buffer \<Rightarrow> 'a list" where
  "ab_contents b = take (ab_size b) (ab_buffer b)"

lemma ab_append_correct:
  assumes "ab_ok b" "length xs \<le> size_max"
  shows "if ab_size b + length xs \<le> size_max
    then \<exists>b'. ab_append junk xs b = Some b' \<and> ab_ok b' \<and> ab_contents b' = ab_contents b @ xs
    else ab_append junk xs b = None"
proof (cases "ab_size b + length xs \<le> size_max")
  case True
  then obtain d where d: "buffer_reserve_extra junk (ab_size b) (length xs) (ab_buffer b) = Some d"
    "ab_size b + length xs \<le> length d" "length d \<le> size_max" "take (ab_size b) d = take (ab_size b) (ab_buffer b)"
    using buffer_reserve_extra_correct [of "ab_size b" "ab_buffer b" "length xs" junk] assms by (auto simp: ab_ok_def)
  let ?d = "take (ab_size b) d @ xs @ drop (ab_size b + length xs) d"
  have "ab_append junk xs b = Some (b\<lparr>ab_buffer := ?d, ab_size := ab_size b + length xs\<rparr>)"
    using d by (simp add: ab_append_def copy_into_def)
  then show ?thesis using True d assms by (auto simp: ab_ok_def ab_contents_def)
next
  case False
  then show ?thesis using buffer_reserve_extra_correct [of "ab_size b" "ab_buffer b" "length xs" junk] assms
    by (simp add: ab_append_def ab_ok_def)
qed

lemma ab_resize_correct:
  assumes "ab_ok b" "n \<le> size_max"
  shows "\<exists>b'. ab_resize junk n b = Some b' \<and> ab_ok b' \<and> ab_size b' = n \<and>
    take (min n (ab_size b)) (ab_contents b') = take n (ab_contents b)"
proof -
  obtain d where d: "buffer_reserve junk (ab_size b) n (ab_buffer b) = Some d" "n \<le> length d"
    "length d \<le> size_max" "take (ab_size b) d = take (ab_size b) (ab_buffer b)"
    using buffer_reserve_correct [of "ab_size b" "ab_buffer b" n junk] assms by (auto simp: ab_ok_def)
  then have "take (min n (ab_size b)) d = take (min n (ab_size b)) (ab_buffer b)"
    by (metis take_take)
  then show ?thesis using d by (simp add: ab_resize_def ab_reserve_def ab_ok_def ab_contents_def min.commute)
qed

end
