(* ===== verification/Log_Encoder.thy ===== *)
theory Log_Encoder
  imports Log_Int Buffer
begin

text \<open>
  The instructions of the transaction log and \<open>TransactLogEncoder\<close> (\<open>core/realm/impl/transact_log.hpp\<close>),
  writing into a \<open>TransactLogBufferStream\<close>.  The free region of the buffer is given by two offsets; writing
  past its end is \<open>None\<close>, as is a failed assertion.  The methods of the encoder are one definition each; all
  of them reserve an upper bound of the space an instruction needs and then write its fields.

  \<open>select_table\<close>, \<open>select_descriptor\<close> and \<open>select_link_list\<close> are declared in the header and defined in a
  file that is not part of the sources; the clients take them as parameters.
\<close>

subsection \<open>Enumerations\<close>

datatype (plugins only: code size) instruction =
  instr_InsertGroupLevelTable | instr_EraseGroupLevelTable | instr_RenameGroupLevelTable
| instr_MoveGroupLevelTable | instr_SelectTable | instr_Set | instr_SetUnique | instr_SetDefault
| instr_AddInteger | instr_NullifyLink | instr_InsertSubstring | instr_EraseFromString
| instr_InsertEmptyRows | instr_EraseRows | instr_SwapRows | instr_MoveRow | instr_MergeRows
| instr_ClearTable | instr_OptimizeTable | instr_SelectDescriptor | instr_InsertColumn
| instr_InsertLinkColumn | instr_InsertNullableColumn | instr_EraseColumn | instr_EraseLinkColumn
| instr_RenameColumn | instr_MoveColumn | instr_AddSearchIndex | instr_RemoveSearchIndex
| instr_SetLinkType | instr_SelectLinkList | instr_LinkListSet | instr_LinkListInsert
| instr_LinkListMove | instr_LinkListSwap | instr_LinkListErase | instr_LinkListNullify
| instr_LinkListClear | instr_LinkListSetAll | instr_AddRowWithKey

primrec instr_code :: "instruction \<Rightarrow> int" where
  "instr_code instr_InsertGroupLevelTable = 1"
| "instr_code instr_EraseGroupLevelTable = 2"
| "instr_code instr_RenameGroupLevelTable = 3"
| "instr_code instr_MoveGroupLevelTable = 4"
| "instr_code instr_SelectTable = 5"
| "instr_code instr_Set = 6"
| "instr_code instr_SetUnique = 7"
| "instr_code instr_SetDefault = 8"
| "instr_code instr_AddInteger = 9"
| "instr_code instr_NullifyLink = 10"
| "instr_code instr_InsertSubstring = 11"
| "instr_code instr_EraseFromString = 12"
| "instr_code instr_InsertEmptyRows = 13"
| "instr_code instr_EraseRows = 14"
| "instr_code instr_SwapRows = 15"
| "instr_code instr_MoveRow = 16"
| "instr_code instr_MergeRows = 17"
| "instr_code instr_ClearTable = 18"
| "instr_code instr_OptimizeTable = 19"
| "instr_code instr_SelectDescriptor = 20"
| "instr_code instr_InsertColumn = 21"
| "instr_code instr_InsertLinkColumn = 22"
| "instr_code instr_InsertNullableColumn = 23"
| "instr_code instr_EraseColumn = 24"
| "instr_code instr_EraseLinkColumn = 25"
| "instr_code instr_RenameColumn = 26"
| "instr_code instr_MoveColumn = 27"
| "instr_code instr_AddSearchIndex = 28"
| "instr_code instr_RemoveSearchIndex = 29"
| "instr_code instr_SetLinkType = 30"
| "instr_code instr_SelectLinkList = 31"
| "instr_code instr_LinkListSet = 32"
| "instr_code instr_LinkListInsert = 33"
| "instr_code instr_LinkListMove = 34"
| "instr_code instr_LinkListSwap = 35"
| "instr_code instr_LinkListErase = 36"
| "instr_code instr_LinkListNullify = 37"
| "instr_code instr_LinkListClear = 38"
| "instr_code instr_LinkListSetAll = 39"
| "instr_code instr_AddRowWithKey = 40"

definition all_instructions :: "instruction list" where
  "all_instructions =
     [instr_InsertGroupLevelTable, instr_EraseGroupLevelTable, instr_RenameGroupLevelTable, instr_MoveGroupLevelTable,
      instr_SelectTable, instr_Set, instr_SetUnique, instr_SetDefault,
      instr_AddInteger, instr_NullifyLink, instr_InsertSubstring, instr_EraseFromString,
      instr_InsertEmptyRows, instr_EraseRows, instr_SwapRows, instr_MoveRow,
      instr_MergeRows, instr_ClearTable, instr_OptimizeTable, instr_SelectDescriptor,
      instr_InsertColumn, instr_InsertLinkColumn, instr_InsertNullableColumn, instr_EraseColumn,
      instr_EraseLinkColumn, instr_RenameColumn, instr_MoveColumn, instr_AddSearchIndex,
      instr_RemoveSearchIndex, instr_SetLinkType, instr_SelectLinkList, instr_LinkListSet,
      instr_LinkListInsert, instr_LinkListMove, instr_LinkListSwap, instr_LinkListErase,
      instr_LinkListNullify, instr_LinkListClear, instr_LinkListSetAll, instr_AddRowWithKey]"

definition instr_of_code :: "int \<Rightarrow> instruction option" where
  "instr_of_code n = find (\<lambda>i. instr_code i = n) all_instructions"

datatype data_type =
  type_Int | type_Bool | type_Float | type_Double | type_String | type_Binary | type_OldDateTime
| type_Timestamp | type_Table | type_Mixed | type_Link | type_LinkList

fun type_code :: "data_type \<Rightarrow> int" where
  "type_code type_Int = 0"
| "type_code type_Bool = 1"
| "type_code type_Float = 9"
| "type_code type_Double = 10"
| "type_code type_String = 2"
| "type_code type_Binary = 4"
| "type_code type_OldDateTime = 7"
| "type_code type_Timestamp = 8"
| "type_code type_Table = 5"
| "type_code type_Mixed = 6"
| "type_code type_Link = 12"
| "type_code type_LinkList = 13"

definition type_of_code :: "int \<Rightarrow> data_type option" where
  "type_of_code n = find (\<lambda>t. type_code t = n)
     [type_Int, type_Bool, type_Float, type_Double, type_String, type_Binary, type_OldDateTime,
      type_Timestamp, type_Table, type_Mixed, type_Link, type_LinkList]"

datatype link_type = link_Strong | link_Weak

fun link_code :: "link_type \<Rightarrow> int" where
  "link_code link_Strong = 0"
| "link_code link_Weak = 1"

definition link_of_code :: "int \<Rightarrow> link_type option" where
  "link_of_code n = find (\<lambda>t. link_code t = n) [link_Strong, link_Weak]"

lemma instr_roundtrip: "instr_of_code (instr_code i) = Some i"
  by (cases i) (simp_all add: instr_of_code_def all_instructions_def)

lemma instr_code_bounds: "1 \<le> instr_code i \<and> instr_code i \<le> 40"
  by (cases i) simp_all

lemma type_roundtrip: "type_of_code (type_code t) = Some t"
  by (cases t) (simp_all add: type_of_code_def)

lemma type_code_bounds: "0 \<le> type_code t \<and> type_code t \<le> 13"
  by (cases t) simp_all

lemma link_roundtrip: "link_of_code (link_code t) = Some t"
  by (cases t) (simp_all add: link_of_code_def)

subsection \<open>Fields of an instruction\<close>

text \<open>
  What the overloads of \<open>encode\<close> accept.  Floating point numbers are written as the bytes of their
  representation, \<open>StringData\<close> as its size and bytes.
\<close>

datatype field =
  F_instr instruction
| F_type data_type
| F_bool bool
| F_num int_type int
| F_float "byte list"
| F_double "byte list"
| F_string "byte list"
| F_ints "int list"

definition max_enc_bytes_per_int :: nat where "max_enc_bytes_per_int = 10"
definition max_enc_bytes_per_double :: nat where "max_enc_bytes_per_double = 8"

definition max_enc_bytes_per_num :: nat where
  "max_enc_bytes_per_num =
     (if max_enc_bytes_per_int < max_enc_bytes_per_double then max_enc_bytes_per_double else max_enc_bytes_per_int)"

definition max_numbers_per_chunk :: nat where "max_numbers_per_chunk = 8"

fun max_size :: "field \<Rightarrow> nat" where
  "max_size (F_instr _) = 1"
| "max_size (F_type _) = 1"
| "max_size (F_bool _) = 1"
| "max_size (F_num _ _) = max_enc_bytes_per_num"
| "max_size (F_float _) = max_enc_bytes_per_num"
| "max_size (F_double _) = max_enc_bytes_per_num"
| "max_size (F_string s) = max_enc_bytes_per_num + length s"
| "max_size (F_ints _) = max_enc_bytes_per_num * max_numbers_per_chunk"

definition max_size_list :: "field list \<Rightarrow> nat" where
  "max_size_list fs = sum_list (map max_size fs)"

subsection \<open>The buffer and its free region\<close>

record encoder =
  e_data :: "byte list"
  e_begin :: nat
  e_end :: nat

definition encoder_init :: encoder where
  "encoder_init = \<lparr>e_data = [], e_begin = 0, e_end = 0\<rparr>"

definition transact_log_reserve :: "byte \<Rightarrow> nat \<Rightarrow> encoder \<Rightarrow> encoder option" where
  "transact_log_reserve junk n e = do {
     realm_assert (e_begin e \<le> length (e_data e));
     data \<leftarrow> buffer_reserve_extra junk (e_begin e) n (e_data e);
     Some (e\<lparr>e_data := data, e_end := length data\<rparr>)
   }"

definition reserve :: "byte \<Rightarrow> nat \<Rightarrow> encoder \<Rightarrow> encoder option" where
  "reserve junk n e = (if e_end e - e_begin e < n then transact_log_reserve junk n e else Some e)"

text \<open>Writing bytes at the write position and advancing it; \<open>advance\<close> asserts the bound in debug builds.\<close>

definition write_bytes :: "byte list \<Rightarrow> encoder \<Rightarrow> encoder option" where
  "write_bytes bs e = do {
     realm_assert (e_begin e + length bs \<le> e_end e);
     data \<leftarrow> copy_into (e_begin e) bs (e_data e);
     Some (e\<lparr>e_data := data, e_begin := e_begin e + length bs\<rparr>)
   }"

definition transact_log_append :: "byte \<Rightarrow> byte list \<Rightarrow> encoder \<Rightarrow> encoder option" where
  "transact_log_append junk bs e = do {
     e \<leftarrow> transact_log_reserve junk (length bs) e;
     write_bytes bs e
   }"

definition encode_number :: "int_type \<Rightarrow> int \<Rightarrow> encoder \<Rightarrow> encoder option" where
  "encode_number T v e = do { bs \<leftarrow> encode_int (promote T) v; write_bytes bs e }"

fun encode_ints :: "int list \<Rightarrow> encoder \<Rightarrow> encoder option" where
  "encode_ints [] e = Some e"
| "encode_ints (v # vs) e = do { bs \<leftarrow> encode_int t_int64 v; e \<leftarrow> write_bytes bs e; encode_ints vs e }"

function encode_chunks :: "byte \<Rightarrow> int list \<Rightarrow> encoder \<Rightarrow> encoder option" where
  "encode_chunks junk vs e =
     (if max_numbers_per_chunk < length vs then do {
        e \<leftarrow> encode_ints (take max_numbers_per_chunk vs) e;
        e \<leftarrow> reserve junk (max_enc_bytes_per_num * max_numbers_per_chunk) e;
        encode_chunks junk (drop max_numbers_per_chunk vs) e
      }
      else encode_ints vs e)"
  by pat_completeness auto
termination
  by (relation "measure (\<lambda>(_, vs, _). length vs)") (auto simp: max_numbers_per_chunk_def)

declare encode_chunks.simps [simp del]

fun encode :: "byte \<Rightarrow> field \<Rightarrow> encoder \<Rightarrow> encoder option" where
  "encode junk (F_instr i) e = write_bytes [word_of_int (instr_code i)] e"
| "encode junk (F_type t) e = write_bytes [word_of_int (type_code t)] e"
| "encode junk (F_bool b) e = write_bytes [if b then 1 else 0] e"
| "encode junk (F_num T v) e = encode_number T v e"
| "encode junk (F_float bs) e = write_bytes bs e"
| "encode junk (F_double bs) e = write_bytes bs e"
| "encode junk (F_string s) e = do { e \<leftarrow> encode_number t_size (int (length s)) e; write_bytes s e }"
| "encode junk (F_ints vs) e = encode_chunks junk vs e"

definition encode_list :: "byte \<Rightarrow> field list \<Rightarrow> encoder \<Rightarrow> encoder option" where
  "encode_list junk fs e = foldM (encode junk) fs e"

definition append_simple_instr :: "byte \<Rightarrow> field list \<Rightarrow> encoder \<Rightarrow> encoder option" where
  "append_simple_instr junk fs e = do {
     e \<leftarrow> reserve junk (max_size_list fs) e;
     encode_list junk fs e
   }"

end
