(* ===== verification/Log_Methods.thy ===== *)
theory Log_Methods
  imports Log_Encoder
begin

text \<open>
  The methods of \<open>TransactLogEncoder\<close>, and that each of them appends the bytes of its fields: the space
  reserved up front is enough, so no write leaves the free region of the buffer.
\<close>

subsection \<open>The methods of the encoder\<close>

type_synonym enc = "encoder \<Rightarrow> encoder option"

definition variant_ok :: "instruction \<Rightarrow> bool" where
  "variant_ok variant \<longleftrightarrow> variant = instr_Set \<or> variant = instr_SetDefault"

definition enc_insert_group_level_table :: "byte \<Rightarrow> int \<Rightarrow> int \<Rightarrow> byte list \<Rightarrow> enc" where
  "enc_insert_group_level_table junk table_ndx prior_num_tables name =
     append_simple_instr junk [F_instr instr_InsertGroupLevelTable, F_num t_size table_ndx,
       F_num t_size prior_num_tables, F_string name]"

definition enc_erase_group_level_table :: "byte \<Rightarrow> int \<Rightarrow> int \<Rightarrow> enc" where
  "enc_erase_group_level_table junk table_ndx prior_num_tables =
     append_simple_instr junk [F_instr instr_EraseGroupLevelTable, F_num t_size table_ndx, F_num t_size prior_num_tables]"

definition enc_rename_group_level_table :: "byte \<Rightarrow> int \<Rightarrow> byte list \<Rightarrow> enc" where
  "enc_rename_group_level_table junk table_ndx new_name =
     append_simple_instr junk [F_instr instr_RenameGroupLevelTable, F_num t_size table_ndx, F_string new_name]"

definition enc_insert_column :: "byte \<Rightarrow> int \<Rightarrow> data_type \<Rightarrow> byte list \<Rightarrow> bool \<Rightarrow> enc" where
  "enc_insert_column junk col_ndx type name nullable =
     (let instr = (if nullable then instr_InsertNullableColumn else instr_InsertColumn)
      in append_simple_instr junk [F_instr instr, F_num t_size col_ndx, F_type type, F_string name])"

definition is_link_type :: "data_type \<Rightarrow> bool" where
  "is_link_type t \<longleftrightarrow> t = type_Link \<or> t = type_LinkList"

definition enc_insert_link_column :: "byte \<Rightarrow> int \<Rightarrow> data_type \<Rightarrow> byte list \<Rightarrow> int \<Rightarrow> int \<Rightarrow> enc" where
  "enc_insert_link_column junk col_ndx type name link_target_table_ndx backlink_col_ndx e = do {
     realm_assert (is_link_type type);
     append_simple_instr junk [F_instr instr_InsertLinkColumn, F_num t_size col_ndx, F_type type,
       F_num t_size link_target_table_ndx, F_num t_size backlink_col_ndx, F_string name] e
   }"

definition enc_erase_column :: "byte \<Rightarrow> int \<Rightarrow> enc" where
  "enc_erase_column junk col_ndx = append_simple_instr junk [F_instr instr_EraseColumn, F_num t_size col_ndx]"

definition enc_erase_link_column :: "byte \<Rightarrow> int \<Rightarrow> int \<Rightarrow> int \<Rightarrow> enc" where
  "enc_erase_link_column junk col_ndx link_target_table_ndx backlink_col_ndx =
     append_simple_instr junk [F_instr instr_EraseLinkColumn, F_num t_size col_ndx,
       F_num t_size link_target_table_ndx, F_num t_size backlink_col_ndx]"

definition enc_rename_column :: "byte \<Rightarrow> int \<Rightarrow> byte list \<Rightarrow> enc" where
  "enc_rename_column junk col_ndx new_name =
     append_simple_instr junk [F_instr instr_RenameColumn, F_num t_size col_ndx, F_string new_name]"

definition enc_set_int :: "byte \<Rightarrow> int \<Rightarrow> int \<Rightarrow> int \<Rightarrow> instruction \<Rightarrow> int \<Rightarrow> enc" where
  "enc_set_int junk col_ndx ndx value variant prior_num_rows e = do {
     realm_assert (variant_ok variant \<or> variant = instr_SetUnique);
     if variant = instr_SetUnique
     then append_simple_instr junk [F_instr variant, F_type type_Int, F_num t_size col_ndx, F_num t_size ndx,
            F_num t_size prior_num_rows, F_num t_int64 value] e
     else append_simple_instr junk [F_instr variant, F_type type_Int, F_num t_size col_ndx, F_num t_size ndx,
            F_num t_int64 value] e
   }"

definition enc_add_int :: "byte \<Rightarrow> int \<Rightarrow> int \<Rightarrow> int \<Rightarrow> enc" where
  "enc_add_int junk col_ndx ndx value =
     append_simple_instr junk [F_instr instr_AddInteger, F_num t_size col_ndx, F_num t_size ndx, F_num t_int64 value]"

definition enc_set_bool :: "byte \<Rightarrow> int \<Rightarrow> int \<Rightarrow> bool \<Rightarrow> instruction \<Rightarrow> enc" where
  "enc_set_bool junk col_ndx ndx value variant e = do {
     realm_assert (variant_ok variant);
     append_simple_instr junk [F_instr variant, F_type type_Bool, F_num t_size col_ndx, F_num t_size ndx, F_bool value] e
   }"

definition enc_set_float :: "byte \<Rightarrow> int \<Rightarrow> int \<Rightarrow> byte list \<Rightarrow> instruction \<Rightarrow> enc" where
  "enc_set_float junk col_ndx ndx value variant e = do {
     realm_assert (variant_ok variant);
     append_simple_instr junk [F_instr variant, F_type type_Float, F_num t_size col_ndx, F_num t_size ndx, F_float value] e
   }"

text \<open>\<open>set_double\<close> checks the variant and then writes \<open>instr_Set\<close> whatever it is.\<close>

definition enc_set_double :: "byte \<Rightarrow> int \<Rightarrow> int \<Rightarrow> byte list \<Rightarrow> instruction \<Rightarrow> enc" where
  "enc_set_double junk col_ndx ndx value variant e = do {
     realm_assert (variant_ok variant);
     append_simple_instr junk [F_instr instr_Set, F_type type_Double, F_num t_size col_ndx, F_num t_size ndx,
       F_double value] e
   }"

definition set_null_sentinel :: int where
  "set_null_sentinel = - 1"

definition enc_set_null :: "byte \<Rightarrow> int \<Rightarrow> int \<Rightarrow> instruction \<Rightarrow> int \<Rightarrow> enc" where
  "enc_set_null junk col_ndx ndx variant prior_num_rows e = do {
     realm_assert (variant_ok variant \<or> variant = instr_SetUnique);
     if variant = instr_SetUnique
     then append_simple_instr junk [F_instr variant, F_num t_int set_null_sentinel, F_num t_size col_ndx,
            F_num t_size ndx, F_num t_size prior_num_rows] e
     else append_simple_instr junk [F_instr variant, F_num t_int set_null_sentinel, F_num t_size col_ndx,
            F_num t_size ndx] e
   }"

definition enc_set_string :: "byte \<Rightarrow> int \<Rightarrow> int \<Rightarrow> byte list option \<Rightarrow> instruction \<Rightarrow> int \<Rightarrow> enc" where
  "enc_set_string junk col_ndx ndx value variant prior_num_rows e = do {
     realm_assert (variant_ok variant \<or> variant = instr_SetUnique);
     case value of
       None \<Rightarrow> enc_set_null junk col_ndx ndx variant prior_num_rows e
     | Some s \<Rightarrow>
         if variant = instr_SetUnique
         then append_simple_instr junk [F_instr variant, F_type type_String, F_num t_size col_ndx, F_num t_size ndx,
                F_num t_size prior_num_rows, F_string s] e
         else append_simple_instr junk [F_instr variant, F_type type_String, F_num t_size col_ndx, F_num t_size ndx,
                F_string s] e
   }"

definition enc_set_binary :: "byte \<Rightarrow> int \<Rightarrow> int \<Rightarrow> byte list option \<Rightarrow> instruction \<Rightarrow> enc" where
  "enc_set_binary junk col_ndx row_ndx value variant e = do {
     realm_assert (variant_ok variant);
     case value of
       None \<Rightarrow> enc_set_null junk col_ndx row_ndx variant 0 e
     | Some b \<Rightarrow>
         append_simple_instr junk [F_instr variant, F_type type_Binary, F_num t_size col_ndx, F_num t_size row_ndx,
           F_string b] e
   }"

definition enc_set_olddatetime :: "byte \<Rightarrow> int \<Rightarrow> int \<Rightarrow> int \<Rightarrow> instruction \<Rightarrow> enc" where
  "enc_set_olddatetime junk col_ndx ndx value variant e = do {
     realm_assert (variant_ok variant);
     append_simple_instr junk [F_instr variant, F_type type_OldDateTime, F_num t_size col_ndx, F_num t_size ndx,
       F_num t_int64 value] e
   }"

text \<open>A \<open>Timestamp\<close> is null or a number of seconds and of nanoseconds; its getters assert that it is not null.\<close>

definition enc_set_timestamp :: "byte \<Rightarrow> int \<Rightarrow> int \<Rightarrow> (int \<times> int) option \<Rightarrow> instruction \<Rightarrow> enc" where
  "enc_set_timestamp junk col_ndx ndx value variant e = do {
     realm_assert (variant_ok variant);
     (seconds, nanoseconds) \<leftarrow> value;
     append_simple_instr junk [F_instr variant, F_type type_Timestamp, F_num t_size col_ndx, F_num t_size ndx,
       F_num t_int64 seconds, F_num t_int nanoseconds] e
   }"

definition enc_set_table :: "byte \<Rightarrow> int \<Rightarrow> int \<Rightarrow> instruction \<Rightarrow> enc" where
  "enc_set_table junk col_ndx ndx variant e = do {
     realm_assert (variant_ok variant);
     append_simple_instr junk [F_instr variant, F_type type_Table, F_num t_size col_ndx, F_num t_size ndx] e
   }"

datatype mixed =
  Mixed_int int | Mixed_bool bool | Mixed_float "byte list" | Mixed_double "byte list" | Mixed_olddatetime int
| Mixed_string "byte list" | Mixed_binary "byte list" | Mixed_timestamp int int | Mixed_table

fun mixed_type :: "mixed \<Rightarrow> data_type" where
  "mixed_type (Mixed_int _) = type_Int"
| "mixed_type (Mixed_bool _) = type_Bool"
| "mixed_type (Mixed_float _) = type_Float"
| "mixed_type (Mixed_double _) = type_Double"
| "mixed_type (Mixed_olddatetime _) = type_OldDateTime"
| "mixed_type (Mixed_string _) = type_String"
| "mixed_type (Mixed_binary _) = type_Binary"
| "mixed_type (Mixed_timestamp _ _) = type_Timestamp"
| "mixed_type Mixed_table = type_Table"

fun mixed_fields :: "mixed \<Rightarrow> field list" where
  "mixed_fields (Mixed_int v) = [F_num t_int64 v]"
| "mixed_fields (Mixed_bool b) = [F_bool b]"
| "mixed_fields (Mixed_float f) = [F_float f]"
| "mixed_fields (Mixed_double d) = [F_double d]"
| "mixed_fields (Mixed_olddatetime v) = [F_num t_int64 v]"
| "mixed_fields (Mixed_string s) = [F_string s]"
| "mixed_fields (Mixed_binary b) = [F_string b]"
| "mixed_fields (Mixed_timestamp s n) = [F_num t_int64 s, F_num t_int n]"
| "mixed_fields Mixed_table = []"

definition append_mixed_instr :: "byte \<Rightarrow> instruction \<Rightarrow> mixed \<Rightarrow> field list \<Rightarrow> enc" where
  "append_mixed_instr junk instr value numbers =
     append_simple_instr junk (F_instr instr # numbers @ F_type (mixed_type value) # mixed_fields value)"

definition enc_set_mixed :: "byte \<Rightarrow> int \<Rightarrow> int \<Rightarrow> mixed \<Rightarrow> instruction \<Rightarrow> enc" where
  "enc_set_mixed junk col_ndx ndx value variant e = do {
     realm_assert (variant_ok variant);
     append_mixed_instr junk variant value [F_type type_Mixed, F_num t_size col_ndx, F_num t_size ndx] e
   }"

definition enc_set_link :: "byte \<Rightarrow> int \<Rightarrow> int \<Rightarrow> int \<Rightarrow> int \<Rightarrow> instruction \<Rightarrow> enc" where
  "enc_set_link junk col_ndx ndx value target_group_level_ndx variant e = do {
     realm_assert (variant_ok variant);
     let value_2 = int_cast t_size (1 + value);
     append_simple_instr junk [F_instr variant, F_type type_Link, F_num t_size col_ndx, F_num t_size ndx,
       F_num t_size value_2, F_num t_size target_group_level_ndx] e
   }"

definition enc_nullify_link :: "byte \<Rightarrow> int \<Rightarrow> int \<Rightarrow> int \<Rightarrow> enc" where
  "enc_nullify_link junk col_ndx ndx target_group_level_ndx =
     append_simple_instr junk [F_instr instr_NullifyLink, F_num t_size col_ndx, F_num t_size ndx,
       F_num t_size target_group_level_ndx]"

definition enc_insert_substring :: "byte \<Rightarrow> int \<Rightarrow> int \<Rightarrow> int \<Rightarrow> byte list \<Rightarrow> enc" where
  "enc_insert_substring junk col_ndx row_ndx pos value =
     append_simple_instr junk [F_instr instr_InsertSubstring, F_num t_size col_ndx, F_num t_size row_ndx,
       F_num t_size pos, F_string value]"

definition enc_erase_substring :: "byte \<Rightarrow> int \<Rightarrow> int \<Rightarrow> int \<Rightarrow> int \<Rightarrow> enc" where
  "enc_erase_substring junk col_ndx row_ndx pos sz =
     append_simple_instr junk [F_instr instr_EraseFromString, F_num t_size col_ndx, F_num t_size row_ndx,
       F_num t_size pos, F_num t_size sz]"

definition enc_insert_empty_rows :: "byte \<Rightarrow> int \<Rightarrow> int \<Rightarrow> int \<Rightarrow> bool \<Rightarrow> enc" where
  "enc_insert_empty_rows junk row_ndx num_rows_to_insert prior_num_rows unordered =
     append_simple_instr junk [F_instr instr_InsertEmptyRows, F_num t_size row_ndx, F_num t_size num_rows_to_insert,
       F_num t_size prior_num_rows, F_bool unordered]"

definition enc_add_row_with_key :: "byte \<Rightarrow> int \<Rightarrow> int \<Rightarrow> int \<Rightarrow> int \<Rightarrow> enc" where
  "enc_add_row_with_key junk row_ndx prior_num_rows key_col_ndx key =
     append_simple_instr junk [F_instr instr_AddRowWithKey, F_num t_size row_ndx, F_num t_size prior_num_rows,
       F_num t_size key_col_ndx, F_num t_int64 key]"

definition enc_erase_rows :: "byte \<Rightarrow> int \<Rightarrow> int \<Rightarrow> int \<Rightarrow> bool \<Rightarrow> enc" where
  "enc_erase_rows junk row_ndx num_rows_to_erase prior_num_rows unordered =
     append_simple_instr junk [F_instr instr_EraseRows, F_num t_size row_ndx, F_num t_size num_rows_to_erase,
       F_num t_size prior_num_rows, F_bool unordered]"

definition enc_swap_rows :: "byte \<Rightarrow> int \<Rightarrow> int \<Rightarrow> enc" where
  "enc_swap_rows junk row_ndx_1 row_ndx_2 =
     append_simple_instr junk [F_instr instr_SwapRows, F_num t_size row_ndx_1, F_num t_size row_ndx_2]"

definition enc_move_row :: "byte \<Rightarrow> int \<Rightarrow> int \<Rightarrow> enc" where
  "enc_move_row junk from_ndx to_ndx =
     append_simple_instr junk [F_instr instr_MoveRow, F_num t_size from_ndx, F_num t_size to_ndx]"

definition enc_merge_rows :: "byte \<Rightarrow> int \<Rightarrow> int \<Rightarrow> enc" where
  "enc_merge_rows junk row_ndx new_row_ndx =
     append_simple_instr junk [F_instr instr_MergeRows, F_num t_size row_ndx, F_num t_size new_row_ndx]"

definition enc_add_search_index :: "byte \<Rightarrow> int \<Rightarrow> enc" where
  "enc_add_search_index junk col_ndx = append_simple_instr junk [F_instr instr_AddSearchIndex, F_num t_size col_ndx]"

definition enc_remove_search_index :: "byte \<Rightarrow> int \<Rightarrow> enc" where
  "enc_remove_search_index junk col_ndx =
     append_simple_instr junk [F_instr instr_RemoveSearchIndex, F_num t_size col_ndx]"

definition enc_set_link_type :: "byte \<Rightarrow> int \<Rightarrow> link_type \<Rightarrow> enc" where
  "enc_set_link_type junk col_ndx link_type =
     append_simple_instr junk [F_instr instr_SetLinkType, F_num t_size col_ndx, F_num t_int (link_code link_type)]"

definition enc_clear_table :: "byte \<Rightarrow> int \<Rightarrow> enc" where
  "enc_clear_table junk old_size = append_simple_instr junk [F_instr instr_ClearTable, F_num t_size old_size]"

definition enc_optimize_table :: "byte \<Rightarrow> enc" where
  "enc_optimize_table junk = append_simple_instr junk [F_instr instr_OptimizeTable]"

definition enc_link_list_set :: "byte \<Rightarrow> int \<Rightarrow> int \<Rightarrow> int \<Rightarrow> enc" where
  "enc_link_list_set junk link_ndx value prior_size =
     append_simple_instr junk [F_instr instr_LinkListSet, F_num t_size link_ndx, F_num t_size value, F_num t_size prior_size]"

definition enc_link_list_nullify :: "byte \<Rightarrow> int \<Rightarrow> int \<Rightarrow> enc" where
  "enc_link_list_nullify junk link_ndx prior_size =
     append_simple_instr junk [F_instr instr_LinkListNullify, F_num t_size link_ndx, F_num t_size prior_size]"

definition enc_link_list_set_all :: "byte \<Rightarrow> int list \<Rightarrow> enc" where
  "enc_link_list_set_all junk values =
     append_simple_instr junk [F_instr instr_LinkListSetAll, F_num t_size (int (length values)), F_ints values]"

definition enc_link_list_insert :: "byte \<Rightarrow> int \<Rightarrow> int \<Rightarrow> int \<Rightarrow> enc" where
  "enc_link_list_insert junk link_ndx value prior_size =
     append_simple_instr junk [F_instr instr_LinkListInsert, F_num t_size link_ndx, F_num t_size value,
       F_num t_size prior_size]"

definition enc_link_list_move :: "byte \<Rightarrow> int \<Rightarrow> int \<Rightarrow> enc" where
  "enc_link_list_move junk from_link_ndx to_link_ndx e = do {
     realm_assert (from_link_ndx \<noteq> to_link_ndx);
     append_simple_instr junk [F_instr instr_LinkListMove, F_num t_size from_link_ndx, F_num t_size to_link_ndx] e
   }"

definition enc_link_list_swap :: "byte \<Rightarrow> int \<Rightarrow> int \<Rightarrow> enc" where
  "enc_link_list_swap junk link1_ndx link2_ndx =
     append_simple_instr junk [F_instr instr_LinkListSwap, F_num t_size link1_ndx, F_num t_size link2_ndx]"

definition enc_link_list_erase :: "byte \<Rightarrow> int \<Rightarrow> int \<Rightarrow> enc" where
  "enc_link_list_erase junk link_ndx prior_size =
     append_simple_instr junk [F_instr instr_LinkListErase, F_num t_size link_ndx, F_num t_size prior_size]"

definition enc_link_list_clear :: "byte \<Rightarrow> int \<Rightarrow> enc" where
  "enc_link_list_clear junk old_list_size =
     append_simple_instr junk [F_instr instr_LinkListClear, F_num t_size old_list_size]"


subsection \<open>Space\<close>

lemma int_bytes_length: "0 \<le> m \<Longrightarrow> m < 64 * 128 ^ n \<Longrightarrow> length (int_bytes neg m) \<le> Suc n"
proof (induction n arbitrary: m)
  case (Suc n)
  have "m div 128 < 64 * 128 ^ n" "0 \<le> m div 128" using Suc.prems by (auto simp: div_le_iff_mult)
  then show ?case using Suc.IH [of "m div 128"] by (subst int_bytes.simps) auto
qed (simp add: int_bytes.simps)

lemma log_int_length:
  assumes "in_range t_int64 v \<or> in_range t_size v"
  shows "length (log_int v) \<le> 10"
proof -
  define m where "m = (if v < 0 then - v - 1 else v)"
  have m: "0 \<le> m" "m < 2 ^ 64"
    using assms by (auto simp: m_def in_range_def int_min_def int_max_def t_int64_def t_size_def split: if_splits)
  then have "m < 64 * 128 ^ 9" by simp
  from int_bytes_length [OF m(1) this] have "length (int_bytes neg m) \<le> 10" for neg by simp
  then show ?thesis by (auto simp: log_int_def m_def split: if_splits)
qed

definition field_ok :: "field \<Rightarrow> bool" where
  "field_ok f = (case f of
     F_num T v \<Rightarrow> T \<in> {t_size, t_int64, t_int} \<and> in_range T v
   | F_float bs \<Rightarrow> length bs = 4
   | F_double bs \<Rightarrow> length bs = 8
   | F_string s \<Rightarrow> length s \<le> size_max
   | F_ints vs \<Rightarrow> (\<forall>v \<in> set vs. in_range t_int64 v)
   | _ \<Rightarrow> True)"

fun field_bytes :: "field \<Rightarrow> byte list" where
  "field_bytes (F_instr i) = [word_of_int (instr_code i)]"
| "field_bytes (F_type t) = [word_of_int (type_code t)]"
| "field_bytes (F_bool b) = [if b then 1 else 0]"
| "field_bytes (F_num T v) = log_int v"
| "field_bytes (F_float bs) = bs"
| "field_bytes (F_double bs) = bs"
| "field_bytes (F_string s) = log_int (int (length s)) @ s"
| "field_bytes (F_ints vs) = concat (map log_int vs)"

definition fields_bytes :: "field list \<Rightarrow> byte list" where
  "fields_bytes fs = concat (map field_bytes fs)"

lemma fields_bytes_simps [simp]:
  "fields_bytes [] = []" "fields_bytes (f # fs) = field_bytes f @ fields_bytes fs"
  "fields_bytes (fs @ gs) = fields_bytes fs @ fields_bytes gs"
  by (simp_all add: fields_bytes_def)

definition encoder_ok :: "encoder \<Rightarrow> bool" where
  "encoder_ok e \<longleftrightarrow> e_begin e \<le> e_end e \<and> e_end e \<le> length (e_data e) \<and> length (e_data e) \<le> size_max"

definition written :: "encoder \<Rightarrow> byte list" where
  "written e = take (e_begin e) (e_data e)"

definition free_space :: "encoder \<Rightarrow> nat" where
  "free_space e = e_end e - e_begin e"

lemma reserve_correct:
  assumes "encoder_ok e" "length (written e) + n \<le> size_max"
  shows "\<exists>e'. reserve junk n e = Some e' \<and> encoder_ok e' \<and> written e' = written e \<and> n \<le> free_space e'"
proof (cases "free_space e < n")
  case True
  have w: "length (written e) = e_begin e" using assms(1) by (simp add: written_def encoder_ok_def)
  obtain d where d: "buffer_reserve_extra junk (e_begin e) n (e_data e) = Some d" "e_begin e + n \<le> length d"
    "length d \<le> size_max" "take (e_begin e) d = take (e_begin e) (e_data e)"
    using buffer_reserve_extra_correct [of "e_begin e" "e_data e" n junk] assms w by (auto simp: encoder_ok_def)
  show ?thesis
    by (rule exI [of _ "e\<lparr>e_data := d, e_end := length d\<rparr>"])
      (use d True assms in \<open>auto simp: reserve_def transact_log_reserve_def encoder_ok_def written_def free_space_def\<close>)
qed (use assms in \<open>simp add: reserve_def free_space_def\<close>)

lemma write_bytes_correct:
  assumes "encoder_ok e" "length bs \<le> free_space e"
  shows "\<exists>e'. write_bytes bs e = Some e' \<and> encoder_ok e' \<and> written e' = written e @ bs \<and>
    free_space e' = free_space e - length bs"
proof -
  have b: "e_begin e + length bs \<le> e_end e" "e_end e \<le> length (e_data e)"
    using assms by (auto simp: encoder_ok_def free_space_def)
  let ?d = "take (e_begin e) (e_data e) @ bs @ drop (e_begin e + length bs) (e_data e)"
  show ?thesis
    by (rule exI [of _ "e\<lparr>e_data := ?d, e_begin := e_begin e + length bs\<rparr>"])
      (use b assms in \<open>auto simp: write_bytes_def copy_into_def encoder_ok_def written_def free_space_def\<close>)
qed

lemma encode_number_correct:
  assumes "encoder_ok e" "T \<in> {t_size, t_int64, t_int}" "in_range T v" "10 \<le> free_space e"
  shows "\<exists>e'. encode_number T v e = Some e' \<and> encoder_ok e' \<and> written e' = written e @ log_int v \<and>
    free_space e' = free_space e - length (log_int v) \<and> length (log_int v) \<le> 10"
proof -
  have p: "promote T = T" using assms(2) by (auto simp: promote_def needed_bits_def int_type_defs)
  have "in_range t_int64 v \<or> in_range t_size v"
    using assms(2,3) by (auto simp: in_range_def int_min_def int_max_def int_type_defs)
  from log_int_length [OF this] have l: "length (log_int v) \<le> 10" .
  then show ?thesis using write_bytes_correct [of e "log_int v"] assms encode_int_log_int [OF assms(3)]
    by (simp add: encode_number_def p)
qed

lemma encode_ints_correct:
  "encoder_ok e \<Longrightarrow> \<forall>v \<in> set vs. in_range t_int64 v \<Longrightarrow> 10 * length vs \<le> free_space e \<Longrightarrow>
   \<exists>e'. encode_ints vs e = Some e' \<and> encoder_ok e' \<and> written e' = written e @ concat (map log_int vs)"
proof (induction vs arbitrary: e)
  case (Cons v vs)
  have "length (log_int v) \<le> 10" using Cons.prems by (intro log_int_length) auto
  then obtain e1 where e1: "write_bytes (log_int v) e = Some e1" "encoder_ok e1" "written e1 = written e @ log_int v"
    "free_space e1 = free_space e - length (log_int v)" "length (log_int v) \<le> 10"
    using write_bytes_correct [OF Cons.prems(1), of "log_int v"] Cons.prems(3) by auto
  have "10 * length vs \<le> free_space e1" using e1(4,5) Cons.prems(3) by simp
  from Cons.IH [OF e1(2) _ this] Cons.prems(2) e1(1,3) show ?case by (auto simp: encode_int_log_int)
qed simp


lemma encode_chunks_correct:
  "encoder_ok e \<Longrightarrow> \<forall>v \<in> set vs. in_range t_int64 v \<Longrightarrow> 80 \<le> free_space e \<Longrightarrow>
   length (written e) + 10 * length vs + 80 \<le> size_max \<Longrightarrow>
   \<exists>e'. encode_chunks junk vs e = Some e' \<and> encoder_ok e' \<and> written e' = written e @ concat (map log_int vs)"
proof (induction junk vs e rule: encode_chunks.induct)
  case (1 junk vs e)
  show ?case
  proof (cases "max_numbers_per_chunk < length vs")
    case True
    let ?a = "take max_numbers_per_chunk vs" and ?b = "drop max_numbers_per_chunk vs"
    have a: "\<forall>v \<in> set ?a. in_range t_int64 v" using "1.prems"(2) by (meson in_set_takeD)
    have "10 * length ?a \<le> free_space e" using "1.prems"(3) by (simp add: max_numbers_per_chunk_def)
    from encode_ints_correct [OF "1.prems"(1) a this] obtain e1 where e1: "encode_ints ?a e = Some e1" "encoder_ok e1"
      "written e1 = written e @ concat (map log_int ?a)" by blast
    have len: "length (concat (map log_int xs)) \<le> 10 * length xs" if "\<forall>v \<in> set xs. in_range t_int64 v" for xs
      using that log_int_length by (induction xs) fastforce+
    have "length (written e1) + 80 + 10 * length ?b \<le> size_max"
      using len [OF a] "1.prems"(4) True e1(3) by (simp add: max_numbers_per_chunk_def)
    moreover then obtain e2 where e2: "reserve junk (max_enc_bytes_per_num * max_numbers_per_chunk) e1 = Some e2" "encoder_ok e2"
      "written e2 = written e1" "80 \<le> free_space e2"
      using reserve_correct [OF e1(2), of 80 junk]
      by (auto simp: max_numbers_per_chunk_def max_enc_bytes_per_num_def max_enc_bytes_per_int_def max_enc_bytes_per_double_def)
    moreover have "\<forall>v \<in> set ?b. in_range t_int64 v" using "1.prems"(2) by (meson in_set_dropD)
    ultimately obtain e' where "encode_chunks junk ?b e2 = Some e'" "encoder_ok e'"
      "written e' = written e2 @ concat (map log_int ?b)"
      using "1.IH" [OF True, of e1 e2] e1(1) by auto
    moreover have "concat (map log_int vs) = concat (map log_int ?a) @ concat (map log_int ?b)"
      by (metis append_take_drop_id concat_append map_append)
    ultimately show ?thesis using True e1 e2
      by (subst encode_chunks.simps) simp
  next
    case False
    then show ?thesis using encode_ints_correct [OF "1.prems"(1,2)] "1.prems"(3)
      by (subst encode_chunks.simps) (simp add: max_numbers_per_chunk_def)
  qed
qed

lemmas max_enc_defs = max_enc_bytes_per_num_def max_enc_bytes_per_int_def max_enc_bytes_per_double_def
  max_numbers_per_chunk_def

definition is_ints :: "field \<Rightarrow> bool" where
  "is_ints f = (case f of F_ints _ \<Rightarrow> True | _ \<Rightarrow> False)"

lemma encode_correct:
  assumes "encoder_ok e" "field_ok f" "\<not> is_ints f" "max_size f \<le> free_space e"
  shows "\<exists>e'. encode junk f e = Some e' \<and> encoder_ok e' \<and> written e' = written e @ field_bytes f \<and>
    free_space e - max_size f \<le> free_space e' \<and> length (field_bytes f) \<le> max_size f"
proof (cases f)
  case (F_num T v)
  then show ?thesis using encode_number_correct [OF assms(1), of T v] assms by (auto simp: field_ok_def max_enc_defs)
next
  case (F_string s)
  have r: "in_range t_size (int (length s))" using assms(2) F_string by (simp add: field_ok_def size_in_range)
  obtain e1 where e1: "encode_number t_size (int (length s)) e = Some e1" "encoder_ok e1"
    "written e1 = written e @ log_int (int (length s))" "free_space e1 = free_space e - length (log_int (int (length s)))"
    "length (log_int (int (length s))) \<le> 10"
    using encode_number_correct [OF assms(1) _ r] assms(4) F_string by (auto simp: max_enc_defs)
  have "length s \<le> free_space e1" using e1(4,5) assms(4) F_string by (simp add: max_enc_defs)
  from write_bytes_correct [OF e1(2) this] obtain e2 where "write_bytes s e1 = Some e2" "encoder_ok e2"
    "written e2 = written e1 @ s" "free_space e2 = free_space e1 - length s" by blast
  then show ?thesis using F_string e1 by (simp add: max_enc_defs)
qed (use assms write_bytes_correct [OF assms(1), of "field_bytes f"] in \<open>auto simp: field_ok_def is_ints_def max_enc_defs\<close>)

lemma encode_list_correct:
  "encoder_ok e \<Longrightarrow> \<forall>f \<in> set fs. field_ok f \<and> \<not> is_ints f \<Longrightarrow> max_size_list fs + k \<le> free_space e \<Longrightarrow>
   \<exists>e'. foldM (encode junk) fs e = Some e' \<and> encoder_ok e' \<and> written e' = written e @ fields_bytes fs \<and> k \<le> free_space e' \<and>
     length (fields_bytes fs) \<le> max_size_list fs"
proof (induction fs arbitrary: e)
  case (Cons f fs)
  obtain e1 where e1: "encode junk f e = Some e1" "encoder_ok e1" "written e1 = written e @ field_bytes f"
    "free_space e - max_size f \<le> free_space e1" "length (field_bytes f) \<le> max_size f"
    using encode_correct [OF Cons.prems(1), of f junk] Cons.prems by (auto simp: max_size_list_def)
  have "max_size_list fs + k \<le> free_space e1" using e1(4) Cons.prems(3) by (simp add: max_size_list_def)
  from Cons.IH [OF e1(2) _ this] obtain e2 where "foldM (encode junk) fs e1 = Some e2" "encoder_ok e2"
    "written e2 = written e1 @ fields_bytes fs" "k \<le> free_space e2" "length (fields_bytes fs) \<le> max_size_list fs"
    using Cons.prems(2) by auto
  then show ?case using e1 by (simp add: max_size_list_def)
qed (simp add: max_size_list_def)

text \<open>
  An instruction whose only list of integers, if any, is its last field.  The room it needs includes the
  chunks a list of integers reserves on the way.
\<close>

definition fields_ok :: "field list \<Rightarrow> bool" where
  "fields_ok fs \<longleftrightarrow> (\<forall>f \<in> set fs. field_ok f) \<and> (\<forall>f \<in> set (butlast fs). \<not> is_ints f)"

definition fields_room :: "field list \<Rightarrow> nat" where
  "fields_room fs = max_size_list fs + (if fs \<noteq> [] then (case last fs of F_ints vs \<Rightarrow> 10 * length vs | _ \<Rightarrow> 0) else 0)"

lemma append_simple_instr_correct:
  assumes "encoder_ok e" "fields_ok fs" "length (written e) + fields_room fs \<le> size_max"
  shows "\<exists>e'. append_simple_instr junk fs e = Some e' \<and> encoder_ok e' \<and> written e' = written e @ fields_bytes fs"
proof -
  obtain e1 where e1: "reserve junk (max_size_list fs) e = Some e1" "encoder_ok e1" "written e1 = written e"
    "max_size_list fs \<le> free_space e1"
    using reserve_correct [OF assms(1), of "max_size_list fs" junk] assms(3) by (auto simp: fields_room_def)
  show ?thesis
  proof (cases "\<exists>gs vs. fs = gs @ [F_ints vs]")
    case True
    then obtain gs vs where fs: "fs = gs @ [F_ints vs]" by blast
    have gs: "\<forall>f \<in> set gs. field_ok f \<and> \<not> is_ints f" and vs: "\<forall>v \<in> set vs. in_range t_int64 v"
      using assms(2) fs by (auto simp: fields_ok_def field_ok_def)
    have "max_size_list gs + 80 \<le> free_space e1" using e1(4) fs by (simp add: max_size_list_def max_enc_defs)
    then obtain e2 where e2: "foldM (encode junk) gs e1 = Some e2" "encoder_ok e2" "written e2 = written e1 @ fields_bytes gs"
      "80 \<le> free_space e2" "length (fields_bytes gs) \<le> max_size_list gs"
      using encode_list_correct [OF e1(2) gs] by blast
    have "length (written e2) + 10 * length vs + 80 \<le> size_max"
      using assms(3) e2(3,5) e1(3) fs by (simp add: fields_room_def max_size_list_def max_enc_defs)
    from encode_chunks_correct [OF e2(2) vs e2(4) this, of junk] show ?thesis
      using e1 e2 fs by (auto simp: append_simple_instr_def encode_list_def foldM_append)
  next
    case False
    then have "\<forall>f \<in> set fs. field_ok f \<and> \<not> is_ints f"
      using assms(2) by (cases fs rule: rev_cases) (auto simp: fields_ok_def is_ints_def split: field.splits)
    from encode_list_correct [OF e1(2) this, of 0 junk] e1 show ?thesis
      by (auto simp: append_simple_instr_def encode_list_def)
  qed
qed

end
