(* ===== verification/Log_Parser.thy ===== *)
theory Log_Parser
  imports Log_Methods
begin

text \<open>
  \<open>TransactLogParser\<close> (\<open>core/realm/impl/transact_log.hpp\<close>): the instructions of a log are decoded one by one
  and handed to an instruction handler.  A handler is a function from the call and its state to the new
  state; \<open>None\<close> when the method returns false, which makes the parser throw, or throws itself.
\<close>

subsection \<open>Calls of an instruction handler\<close>

datatype (plugins only: code size) call =
  Select_table int "(int \<times> int) list"
| Select_descriptor "int list"
| Select_link_list int int int
| Insert_group_level_table int int "byte list"
| Erase_group_level_table int int
| Rename_group_level_table int "byte list"
| Insert_empty_rows int int int bool
| Add_row_with_key int int int int
| Erase_rows int int int bool
| Swap_rows int int
| Move_row int int
| Merge_rows int int
| Clear_table int
| Set_int int int int instruction int
| Add_int int int int
| Set_bool int int bool instruction
| Set_float int int "byte list" instruction
| Set_double int int "byte list" instruction
| Set_string int int "byte list option" instruction int
| Set_binary int int "byte list option" instruction
| Set_olddatetime int int int instruction
| Set_timestamp int int "(int \<times> int) option" instruction
| Set_table int int instruction
| Set_mixed int int mixed instruction
| Set_link int int int int instruction
| Set_null int int instruction int
| Nullify_link int int int
| Insert_substring int int int "byte list"
| Erase_substring int int int int
| Optimize_table
| Insert_link_column int data_type "byte list" int int
| Insert_column int data_type "byte list" bool
| Erase_link_column int int int
| Erase_column int
| Rename_column int "byte list"
| Add_search_index int
| Remove_search_index int
| Set_link_type int link_type
| Link_list_set int int int
| Link_list_insert int int int
| Link_list_move int int
| Link_list_swap int int
| Link_list_erase int int
| Link_list_nullify int int
| Link_list_clear int

type_synonym 'st handler = "call \<Rightarrow> 'st \<Rightarrow> 'st option"
type_synonym 's blocks = "'s \<Rightarrow> (byte list \<times> 's) option"

definition invoke :: "'st handler \<Rightarrow> call \<Rightarrow> 'st \<Rightarrow> 's input \<Rightarrow> ('st \<times> 's input) option" where
  "invoke h c st p = do { st' \<leftarrow> h c st; Some (st', p) }"

subsection \<open>Reading values\<close>

definition read_bool :: "'s blocks \<Rightarrow> 's input \<Rightarrow> (bool \<times> 's input) option" where
  "read_bool nb p = do { (v, p) \<leftarrow> read_int nb t_char p; Some (v \<noteq> 0, p) }"

definition read_float :: "'s blocks \<Rightarrow> 's input \<Rightarrow> (byte list \<times> 's input) option" where
  "read_float nb p = read_bytes nb 4 p"

definition read_double :: "'s blocks \<Rightarrow> 's input \<Rightarrow> (byte list \<times> 's input) option" where
  "read_double nb p = read_bytes nb 8 p"

text \<open>\<open>Table::max_string_size\<close>: \<open>0xFFFFF8\<close> less the array header of eight bytes, less one.\<close>

definition max_string_size :: int where
  "max_string_size = 0xFFFFF8 - 8 - 1"

definition read_string :: "'s blocks \<Rightarrow> 's input \<Rightarrow> (byte list \<times> 's input) option" where
  "read_string nb p = do {
     (sz, p) \<leftarrow> read_int nb t_size p;
     if max_string_size < sz then None else read_buffer nb (nat sz) p
   }"

definition read_binary :: "'s blocks \<Rightarrow> 's input \<Rightarrow> (byte list \<times> 's input) option" where
  "read_binary nb p = do { (sz, p) \<leftarrow> read_int nb t_size p; read_buffer nb (nat sz) p }"

text \<open>The constructor \<open>Timestamp(seconds, nanoseconds)\<close> asserts its sign combinations.\<close>

definition nanoseconds_per_second :: int where
  "nanoseconds_per_second = 1000000000"

definition timestamp_ok :: "int \<Rightarrow> int \<Rightarrow> bool" where
  "timestamp_ok seconds nanoseconds \<longleftrightarrow>
     - nanoseconds_per_second < nanoseconds \<and> nanoseconds < nanoseconds_per_second \<and>
     (0 \<le> seconds \<and> 0 \<le> nanoseconds \<or> seconds \<le> 0 \<and> nanoseconds \<le> 0)"

definition read_timestamp :: "'s blocks \<Rightarrow> 's input \<Rightarrow> ((int \<times> int) \<times> 's input) option" where
  "read_timestamp nb p = do {
     (seconds, p) \<leftarrow> read_int nb t_int64 p;
     (nanoseconds, p) \<leftarrow> read_int nb t_int p;
     realm_assert (timestamp_ok seconds nanoseconds);
     Some ((seconds, nanoseconds), p)
   }"

definition read_mixed :: "'s blocks \<Rightarrow> 's input \<Rightarrow> (mixed \<times> 's input) option" where
  "read_mixed nb p = do {
     (type, p) \<leftarrow> read_int nb t_int p;
     case type_of_code type of
       Some type_Int \<Rightarrow> do { (v, p) \<leftarrow> read_int nb t_int64 p; Some (Mixed_int v, p) }
     | Some type_Bool \<Rightarrow> do { (v, p) \<leftarrow> read_bool nb p; Some (Mixed_bool v, p) }
     | Some type_Float \<Rightarrow> do { (v, p) \<leftarrow> read_float nb p; Some (Mixed_float v, p) }
     | Some type_Double \<Rightarrow> do { (v, p) \<leftarrow> read_double nb p; Some (Mixed_double v, p) }
     | Some type_OldDateTime \<Rightarrow> do { (v, p) \<leftarrow> read_int nb t_int64 p; Some (Mixed_olddatetime v, p) }
     | Some type_Timestamp \<Rightarrow> do { ((s, n), p) \<leftarrow> read_timestamp nb p; Some (Mixed_timestamp s n, p) }
     | Some type_String \<Rightarrow> do { (v, p) \<leftarrow> read_string nb p; Some (Mixed_string v, p) }
     | Some type_Binary \<Rightarrow> do { (v, p) \<leftarrow> read_binary nb p; Some (Mixed_binary v, p) }
     | Some type_Table \<Rightarrow> Some (Mixed_table, p)
     | _ \<Rightarrow> None
   }"

definition is_valid_data_type :: "int \<Rightarrow> bool" where
  "is_valid_data_type type \<longleftrightarrow> type_of_code type \<noteq> None"

definition is_valid_link_type :: "int \<Rightarrow> bool" where
  "is_valid_link_type type \<longleftrightarrow> link_of_code type \<noteq> None"

definition max_levels :: int where
  "max_levels = 1024"

fun read_path :: "'s blocks \<Rightarrow> nat \<Rightarrow> 's input \<Rightarrow> (int list \<times> 's input) option" where
  "read_path nb 0 p = Some ([], p)"
| "read_path nb (Suc n) p = do {
     (col_ndx, p) \<leftarrow> read_int nb t_size p;
     (path, p) \<leftarrow> read_path nb n p;
     Some (col_ndx # path, p)
   }"

fun read_table_path :: "'s blocks \<Rightarrow> nat \<Rightarrow> 's input \<Rightarrow> ((int \<times> int) list \<times> 's input) option" where
  "read_table_path nb 0 p = Some ([], p)"
| "read_table_path nb (Suc n) p = do {
     (col_ndx, p) \<leftarrow> read_int nb t_size p;
     (row_ndx, p) \<leftarrow> read_int nb t_size p;
     (path, p) \<leftarrow> read_table_path nb n p;
     Some ((col_ndx, row_ndx) # path, p)
   }"

subsection \<open>Parsing one instruction\<close>

definition parse_set_value ::
  "'s blocks \<Rightarrow> 'st handler \<Rightarrow> instruction \<Rightarrow> int \<Rightarrow> int \<Rightarrow> int \<Rightarrow> int \<Rightarrow> 'st \<Rightarrow> 's input \<Rightarrow> ('st \<times> 's input) option" where
  "parse_set_value nb h instr type col_ndx row_ndx prior_num_rows st p =
     (if type = set_null_sentinel then invoke h (Set_null col_ndx row_ndx instr prior_num_rows) st p
     else case type_of_code type of
       Some type_Int \<Rightarrow> do {
         (v, p) \<leftarrow> read_int nb t_int64 p; invoke h (Set_int col_ndx row_ndx v instr prior_num_rows) st p }
     | Some type_Bool \<Rightarrow> do { (v, p) \<leftarrow> read_bool nb p; invoke h (Set_bool col_ndx row_ndx v instr) st p }
     | Some type_Float \<Rightarrow> do { (v, p) \<leftarrow> read_float nb p; invoke h (Set_float col_ndx row_ndx v instr) st p }
     | Some type_Double \<Rightarrow> do { (v, p) \<leftarrow> read_double nb p; invoke h (Set_double col_ndx row_ndx v instr) st p }
     | Some type_String \<Rightarrow> do {
         (v, p) \<leftarrow> read_string nb p; invoke h (Set_string col_ndx row_ndx (Some v) instr prior_num_rows) st p }
     | Some type_Binary \<Rightarrow> do {
         (v, p) \<leftarrow> read_binary nb p; invoke h (Set_binary col_ndx row_ndx (Some v) instr) st p }
     | Some type_OldDateTime \<Rightarrow> do {
         (v, p) \<leftarrow> read_int nb t_int64 p; invoke h (Set_olddatetime col_ndx row_ndx v instr) st p }
     | Some type_Timestamp \<Rightarrow> do {
         (seconds, p) \<leftarrow> read_int nb t_int64 p;
         (nanoseconds, p) \<leftarrow> read_int nb t_int p;
         realm_assert (timestamp_ok seconds nanoseconds);
         invoke h (Set_timestamp col_ndx row_ndx (Some (seconds, nanoseconds)) instr) st p }
     | Some type_Table \<Rightarrow> invoke h (Set_table col_ndx row_ndx instr) st p
     | Some type_Mixed \<Rightarrow> do { (v, p) \<leftarrow> read_mixed nb p; invoke h (Set_mixed col_ndx row_ndx v instr) st p }
     | Some type_Link \<Rightarrow> do {
         (v, p) \<leftarrow> read_int nb t_size p;
         let target_row_ndx = int_cast t_size (v - 1);
         (target_group_level_ndx, p) \<leftarrow> read_int nb t_size p;
         invoke h (Set_link col_ndx row_ndx target_row_ndx target_group_level_ndx instr) st p }
     | _ \<Rightarrow> None)"

definition parse_set :: "'s blocks \<Rightarrow> 'st handler \<Rightarrow> instruction \<Rightarrow> 'st \<Rightarrow> 's input \<Rightarrow> ('st \<times> 's input) option" where
  "parse_set nb h instr st p = do {
     (type, p) \<leftarrow> read_int nb t_int p;
     (col_ndx, p) \<leftarrow> read_int nb t_size p;
     (row_ndx, p) \<leftarrow> read_int nb t_size p;
     (prior_num_rows, p) \<leftarrow> (if instr = instr_SetUnique then read_int nb t_size p else Some (0, p));
     parse_set_value nb h instr type col_ndx row_ndx prior_num_rows st p
   }"

definition parse_cell :: "'s blocks \<Rightarrow> 'st handler \<Rightarrow> instruction \<Rightarrow> 'st \<Rightarrow> 's input \<Rightarrow> ('st \<times> 's input) option" where
  "parse_cell nb h instr st p = (case instr of
     instr_AddInteger \<Rightarrow> do {
       (col_ndx, p) \<leftarrow> read_int nb t_size p;
       (row_ndx, p) \<leftarrow> read_int nb t_size p;
       (v, p) \<leftarrow> read_int nb t_int64 p;
       invoke h (Add_int col_ndx row_ndx v) st p }
   | instr_NullifyLink \<Rightarrow> do {
       (col_ndx, p) \<leftarrow> read_int nb t_size p;
       (row_ndx, p) \<leftarrow> read_int nb t_size p;
       (target_group_level_ndx, p) \<leftarrow> read_int nb t_size p;
       invoke h (Nullify_link col_ndx row_ndx target_group_level_ndx) st p }
   | instr_InsertSubstring \<Rightarrow> do {
       (col_ndx, p) \<leftarrow> read_int nb t_size p;
       (row_ndx, p) \<leftarrow> read_int nb t_size p;
       (pos, p) \<leftarrow> read_int nb t_size p;
       (v, p) \<leftarrow> read_string nb p;
       invoke h (Insert_substring col_ndx row_ndx pos v) st p }
   | instr_EraseFromString \<Rightarrow> do {
       (col_ndx, p) \<leftarrow> read_int nb t_size p;
       (row_ndx, p) \<leftarrow> read_int nb t_size p;
       (pos, p) \<leftarrow> read_int nb t_size p;
       (sz, p) \<leftarrow> read_int nb t_size p;
       invoke h (Erase_substring col_ndx row_ndx pos sz) st p }
   | _ \<Rightarrow> None)"

definition parse_rows :: "'s blocks \<Rightarrow> 'st handler \<Rightarrow> instruction \<Rightarrow> 'st \<Rightarrow> 's input \<Rightarrow> ('st \<times> 's input) option" where
  "parse_rows nb h instr st p = (case instr of
     instr_InsertEmptyRows \<Rightarrow> do {
       (row_ndx, p) \<leftarrow> read_int nb t_size p;
       (num_rows_to_insert, p) \<leftarrow> read_int nb t_size p;
       (prior_num_rows, p) \<leftarrow> read_int nb t_size p;
       (unordered, p) \<leftarrow> read_bool nb p;
       invoke h (Insert_empty_rows row_ndx num_rows_to_insert prior_num_rows unordered) st p }
   | instr_AddRowWithKey \<Rightarrow> do {
       (row_ndx, p) \<leftarrow> read_int nb t_size p;
       (prior_num_rows, p) \<leftarrow> read_int nb t_size p;
       (key_col_ndx, p) \<leftarrow> read_int nb t_size p;
       (key, p) \<leftarrow> read_int nb t_int64 p;
       invoke h (Add_row_with_key row_ndx prior_num_rows key_col_ndx key) st p }
   | instr_EraseRows \<Rightarrow> do {
       (row_ndx, p) \<leftarrow> read_int nb t_size p;
       (num_rows_to_erase, p) \<leftarrow> read_int nb t_size p;
       (prior_num_rows, p) \<leftarrow> read_int nb t_size p;
       (unordered, p) \<leftarrow> read_bool nb p;
       invoke h (Erase_rows row_ndx num_rows_to_erase prior_num_rows unordered) st p }
   | instr_SwapRows \<Rightarrow> do {
       (row_ndx_1, p) \<leftarrow> read_int nb t_size p;
       (row_ndx_2, p) \<leftarrow> read_int nb t_size p;
       invoke h (Swap_rows row_ndx_1 row_ndx_2) st p }
   | instr_MoveRow \<Rightarrow> do {
       (from_ndx, p) \<leftarrow> read_int nb t_size p;
       (to_ndx, p) \<leftarrow> read_int nb t_size p;
       invoke h (Move_row from_ndx to_ndx) st p }
   | instr_MergeRows \<Rightarrow> do {
       (row_ndx, p) \<leftarrow> read_int nb t_size p;
       (new_row_ndx, p) \<leftarrow> read_int nb t_size p;
       invoke h (Merge_rows row_ndx new_row_ndx) st p }
   | instr_SelectTable \<Rightarrow> do {
       (levels, p) \<leftarrow> read_int nb t_int p;
       if levels < 0 \<or> max_levels < levels then None
       else do {
         (group_level_ndx, p) \<leftarrow> read_int nb t_size p;
         (path, p) \<leftarrow> read_table_path nb (nat levels) p;
         invoke h (Select_table group_level_ndx path) st p
       } }
   | instr_ClearTable \<Rightarrow> do {
       (old_size, p) \<leftarrow> read_int nb t_size p;
       invoke h (Clear_table old_size) st p }
   | _ \<Rightarrow> None)"

fun parse_set_all :: "'s blocks \<Rightarrow> 'st handler \<Rightarrow> nat \<Rightarrow> int \<Rightarrow> int \<Rightarrow> 'st \<Rightarrow> 's input \<Rightarrow> ('st \<times> 's input) option" where
  "parse_set_all nb h 0 i sz st p = Some (st, p)"
| "parse_set_all nb h (Suc n) i sz st p = do {
     (link, p) \<leftarrow> read_int nb t_size p;
     (st, p) \<leftarrow> invoke h (Link_list_set i link sz) st p;
     parse_set_all nb h n (i + 1) sz st p
   }"

definition parse_link_list :: "'s blocks \<Rightarrow> 'st handler \<Rightarrow> instruction \<Rightarrow> 'st \<Rightarrow> 's input \<Rightarrow> ('st \<times> 's input) option" where
  "parse_link_list nb h instr st p = (case instr of
     instr_LinkListSet \<Rightarrow> do {
       (link_ndx, p) \<leftarrow> read_int nb t_size p;
       (v, p) \<leftarrow> read_int nb t_size p;
       (prior_size, p) \<leftarrow> read_int nb t_size p;
       invoke h (Link_list_set link_ndx v prior_size) st p }
   | instr_LinkListSetAll \<Rightarrow> do {
       (sz, p) \<leftarrow> read_int nb t_size p;
       parse_set_all nb h (nat sz) 0 sz st p }
   | instr_LinkListInsert \<Rightarrow> do {
       (link_ndx, p) \<leftarrow> read_int nb t_size p;
       (v, p) \<leftarrow> read_int nb t_size p;
       (prior_size, p) \<leftarrow> read_int nb t_size p;
       invoke h (Link_list_insert link_ndx v prior_size) st p }
   | instr_LinkListMove \<Rightarrow> do {
       (from_link_ndx, p) \<leftarrow> read_int nb t_size p;
       (to_link_ndx, p) \<leftarrow> read_int nb t_size p;
       invoke h (Link_list_move from_link_ndx to_link_ndx) st p }
   | instr_LinkListSwap \<Rightarrow> do {
       (link1_ndx, p) \<leftarrow> read_int nb t_size p;
       (link2_ndx, p) \<leftarrow> read_int nb t_size p;
       invoke h (Link_list_swap link1_ndx link2_ndx) st p }
   | instr_LinkListErase \<Rightarrow> do {
       (link_ndx, p) \<leftarrow> read_int nb t_size p;
       (prior_size, p) \<leftarrow> read_int nb t_size p;
       invoke h (Link_list_erase link_ndx prior_size) st p }
   | instr_LinkListNullify \<Rightarrow> do {
       (link_ndx, p) \<leftarrow> read_int nb t_size p;
       (prior_size, p) \<leftarrow> read_int nb t_size p;
       invoke h (Link_list_nullify link_ndx prior_size) st p }
   | instr_LinkListClear \<Rightarrow> do {
       (old_list_size, p) \<leftarrow> read_int nb t_size p;
       invoke h (Link_list_clear old_list_size) st p }
   | instr_SelectLinkList \<Rightarrow> do {
       (col_ndx, p) \<leftarrow> read_int nb t_size p;
       (row_ndx, p) \<leftarrow> read_int nb t_size p;
       (target_group_level_ndx, p) \<leftarrow> read_int nb t_size p;
       invoke h (Select_link_list col_ndx row_ndx target_group_level_ndx) st p }
   | _ \<Rightarrow> None)"

definition parse_columns :: "'s blocks \<Rightarrow> 'st handler \<Rightarrow> instruction \<Rightarrow> 'st \<Rightarrow> 's input \<Rightarrow> ('st \<times> 's input) option" where
  "parse_columns nb h instr st p = (case instr of
     instr_MoveColumn \<Rightarrow> None
   | instr_AddSearchIndex \<Rightarrow> do {
       (col_ndx, p) \<leftarrow> read_int nb t_size p;
       invoke h (Add_search_index col_ndx) st p }
   | instr_RemoveSearchIndex \<Rightarrow> do {
       (col_ndx, p) \<leftarrow> read_int nb t_size p;
       invoke h (Remove_search_index col_ndx) st p }
   | instr_SetLinkType \<Rightarrow> do {
       (col_ndx, p) \<leftarrow> read_int nb t_size p;
       (link_type, p) \<leftarrow> read_int nb t_int p;
       if \<not> is_valid_link_type link_type then None
       else invoke h (Set_link_type col_ndx (the (link_of_code link_type))) st p }
   | instr_InsertLinkColumn \<Rightarrow> do {
       (col_ndx, p) \<leftarrow> read_int nb t_size p;
       (type, p) \<leftarrow> read_int nb t_int p;
       if \<not> is_valid_data_type type then None
       else if \<not> is_link_type (the (type_of_code type)) then None
       else do {
         (link_target_table_ndx, p) \<leftarrow> read_int nb t_size p;
         (backlink_col_ndx, p) \<leftarrow> read_int nb t_size p;
         (name, p) \<leftarrow> read_string nb p;
         invoke h (Insert_link_column col_ndx (the (type_of_code type)) name link_target_table_ndx backlink_col_ndx) st p
       } }
   | instr_EraseColumn \<Rightarrow> do {
       (col_ndx, p) \<leftarrow> read_int nb t_size p;
       invoke h (Erase_column col_ndx) st p }
   | instr_EraseLinkColumn \<Rightarrow> do {
       (col_ndx, p) \<leftarrow> read_int nb t_size p;
       (link_target_table_ndx, p) \<leftarrow> read_int nb t_size p;
       (backlink_col_ndx, p) \<leftarrow> read_int nb t_size p;
       invoke h (Erase_link_column col_ndx link_target_table_ndx backlink_col_ndx) st p }
   | instr_RenameColumn \<Rightarrow> do {
       (col_ndx, p) \<leftarrow> read_int nb t_size p;
       (name, p) \<leftarrow> read_string nb p;
       invoke h (Rename_column col_ndx name) st p }
   | instr_SelectDescriptor \<Rightarrow> do {
       (levels, p) \<leftarrow> read_int nb t_int p;
       if levels < 0 \<or> max_levels < levels then None
       else do {
         (path, p) \<leftarrow> read_path nb (nat levels) p;
         invoke h (Select_descriptor path) st p
       } }
   | _ \<Rightarrow> None)"

definition parse_insert_column :: "'s blocks \<Rightarrow> 'st handler \<Rightarrow> instruction \<Rightarrow> 'st \<Rightarrow> 's input \<Rightarrow> ('st \<times> 's input) option" where
  "parse_insert_column nb h instr st p = do {
     (col_ndx, p) \<leftarrow> read_int nb t_size p;
     (type, p) \<leftarrow> read_int nb t_int p;
     if \<not> is_valid_data_type type then None
     else if is_link_type (the (type_of_code type)) then None
     else do {
       (name, p) \<leftarrow> read_string nb p;
       let nullable = (instr = instr_InsertNullableColumn);
       if nullable \<and> the (type_of_code type) = type_Mixed then None
       else invoke h (Insert_column col_ndx (the (type_of_code type)) name nullable) st p
     }
   }"

definition parse_tables :: "'s blocks \<Rightarrow> 'st handler \<Rightarrow> instruction \<Rightarrow> 'st \<Rightarrow> 's input \<Rightarrow> ('st \<times> 's input) option" where
  "parse_tables nb h instr st p = (case instr of
     instr_InsertGroupLevelTable \<Rightarrow> do {
       (table_ndx, p) \<leftarrow> read_int nb t_size p;
       (num_tables, p) \<leftarrow> read_int nb t_size p;
       (name, p) \<leftarrow> read_string nb p;
       invoke h (Insert_group_level_table table_ndx num_tables name) st p }
   | instr_EraseGroupLevelTable \<Rightarrow> do {
       (table_ndx, p) \<leftarrow> read_int nb t_size p;
       (prior_num_tables, p) \<leftarrow> read_int nb t_size p;
       invoke h (Erase_group_level_table table_ndx prior_num_tables) st p }
   | instr_RenameGroupLevelTable \<Rightarrow> do {
       (table_ndx, p) \<leftarrow> read_int nb t_size p;
       (new_name, p) \<leftarrow> read_string nb p;
       invoke h (Rename_group_level_table table_ndx new_name) st p }
   | instr_MoveGroupLevelTable \<Rightarrow> None
   | instr_OptimizeTable \<Rightarrow> invoke h Optimize_table st p
   | _ \<Rightarrow> None)"

definition parse_instr :: "'s blocks \<Rightarrow> 'st handler \<Rightarrow> instruction \<Rightarrow> 'st \<Rightarrow> 's input \<Rightarrow> ('st \<times> 's input) option" where
  "parse_instr nb h instr st p =
     (if instr \<in> {instr_SetDefault, instr_SetUnique, instr_Set} then parse_set nb h instr st p
      else if instr \<in> {instr_AddInteger, instr_NullifyLink, instr_InsertSubstring, instr_EraseFromString}
      then parse_cell nb h instr st p
      else if instr \<in> {instr_InsertEmptyRows, instr_AddRowWithKey, instr_EraseRows, instr_SwapRows, instr_MoveRow,
        instr_MergeRows, instr_SelectTable, instr_ClearTable} then parse_rows nb h instr st p
      else if instr \<in> {instr_LinkListSet, instr_LinkListSetAll, instr_LinkListInsert, instr_LinkListMove,
        instr_LinkListSwap, instr_LinkListErase, instr_LinkListNullify, instr_LinkListClear, instr_SelectLinkList}
      then parse_link_list nb h instr st p
      else if instr \<in> {instr_InsertColumn, instr_InsertNullableColumn} then parse_insert_column nb h instr st p
      else if instr \<in> {instr_InsertGroupLevelTable, instr_EraseGroupLevelTable, instr_RenameGroupLevelTable,
        instr_MoveGroupLevelTable, instr_OptimizeTable} then parse_tables nb h instr st p
      else parse_columns nb h instr st p)"

definition parse_one :: "'s blocks \<Rightarrow> 'st handler \<Rightarrow> 'st \<Rightarrow> 's input \<Rightarrow> ('st \<times> 's input) option" where
  "parse_one nb h st p = do {
     (instr_ch, p) \<leftarrow> read_char nb p;
     instr \<leftarrow> instr_of_code (sint instr_ch);
     parse_instr nb h instr st p
   }"

partial_function (option) parse_loop :: "'s blocks \<Rightarrow> 'st handler \<Rightarrow> 'st \<Rightarrow> 's input \<Rightarrow> 'st option" where
  "parse_loop nb h st p =
     (case has_next nb p of (available, p) \<Rightarrow>
        if available then do { (st, p) \<leftarrow> parse_one nb h st p; parse_loop nb h st p } else Some st)"

definition parse :: "'s blocks \<Rightarrow> 'st handler \<Rightarrow> 'st \<Rightarrow> 's \<Rightarrow> 'st option" where
  "parse nb h st s = parse_loop nb h st ([], s)"

text \<open>The overload for an \<open>InputStream\<close>, read through a buffer of \<open>n\<close> bytes.\<close>

definition parse_in :: "(nat \<Rightarrow> 's \<Rightarrow> byte list \<times> 's) \<Rightarrow> nat \<Rightarrow> 'st handler \<Rightarrow> 'st \<Rightarrow> 's \<Rightarrow> 'st option" where
  "parse_in read n h st s = parse (adaptor_next_block read n) h st s"

definition null_observer :: "'st handler" where
  "null_observer c st = Some st"

end
