(* ===== verification/Log_Roundtrip.thy ===== *)
theory Log_Roundtrip
  imports Log_Parser
begin

text \<open>
  The format of the log, as the fields of each call, and that the parser reads it: the bytes of a call are
  parsed as one instruction that makes this call, and a whole log makes its calls in order.
\<close>

subsection \<open>The format\<close>

fun path_fields :: "int list \<Rightarrow> field list" where
  "path_fields cs = map (F_num t_size) cs"

fun table_path_fields :: "(int \<times> int) list \<Rightarrow> field list" where
  "table_path_fields [] = []"
| "table_path_fields ((c, r) # path) = F_num t_size c # F_num t_size r # table_path_fields path"

definition cell_fields :: "instruction \<Rightarrow> field \<Rightarrow> int \<Rightarrow> int \<Rightarrow> int \<Rightarrow> field list" where
  "cell_fields instr type col row prior =
     F_instr instr # type # F_num t_size col # F_num t_size row #
       (if instr = instr_SetUnique then [F_num t_size prior] else [])"

fun call_fields :: "call \<Rightarrow> field list" where
  "call_fields (Select_table g path) =
     F_instr instr_SelectTable # F_num t_int (int (length path)) # F_num t_size g # table_path_fields path"
| "call_fields (Select_descriptor path) =
     F_instr instr_SelectDescriptor # F_num t_int (int (length path)) # path_fields path"
| "call_fields (Select_link_list c r g) = F_instr instr_SelectLinkList # path_fields [c, r, g]"
| "call_fields (Insert_group_level_table t n s) =
     F_instr instr_InsertGroupLevelTable # path_fields [t, n] @ [F_string s]"
| "call_fields (Erase_group_level_table t n) = F_instr instr_EraseGroupLevelTable # path_fields [t, n]"
| "call_fields (Rename_group_level_table t s) = F_instr instr_RenameGroupLevelTable # path_fields [t] @ [F_string s]"
| "call_fields (Insert_empty_rows r n k u) = F_instr instr_InsertEmptyRows # path_fields [r, n, k] @ [F_bool u]"
| "call_fields (Add_row_with_key r n c k) = F_instr instr_AddRowWithKey # path_fields [r, n, c] @ [F_num t_int64 k]"
| "call_fields (Erase_rows r n k u) = F_instr instr_EraseRows # path_fields [r, n, k] @ [F_bool u]"
| "call_fields (Swap_rows a b) = F_instr instr_SwapRows # path_fields [a, b]"
| "call_fields (Move_row a b) = F_instr instr_MoveRow # path_fields [a, b]"
| "call_fields (Merge_rows a b) = F_instr instr_MergeRows # path_fields [a, b]"
| "call_fields (Clear_table n) = F_instr instr_ClearTable # path_fields [n]"
| "call_fields (Set_int c r v i n) = cell_fields i (F_type type_Int) c r n @ [F_num t_int64 v]"
| "call_fields (Add_int c r v) = F_instr instr_AddInteger # path_fields [c, r] @ [F_num t_int64 v]"
| "call_fields (Set_bool c r v i) = cell_fields i (F_type type_Bool) c r 0 @ [F_bool v]"
| "call_fields (Set_float c r v i) = cell_fields i (F_type type_Float) c r 0 @ [F_float v]"
| "call_fields (Set_double c r v i) = cell_fields i (F_type type_Double) c r 0 @ [F_double v]"
| "call_fields (Set_string c r v i n) = cell_fields i (F_type type_String) c r n @ [F_string (the v)]"
| "call_fields (Set_binary c r v i) = cell_fields i (F_type type_Binary) c r 0 @ [F_string (the v)]"
| "call_fields (Set_olddatetime c r v i) = cell_fields i (F_type type_OldDateTime) c r 0 @ [F_num t_int64 v]"
| "call_fields (Set_timestamp c r v i) =
     cell_fields i (F_type type_Timestamp) c r 0 @ [F_num t_int64 (fst (the v)), F_num t_int (snd (the v))]"
| "call_fields (Set_table c r i) = cell_fields i (F_type type_Table) c r 0"
| "call_fields (Set_mixed c r v i) =
     cell_fields i (F_type type_Mixed) c r 0 @ F_type (mixed_type v) # mixed_fields v"
| "call_fields (Set_link c r v g i) =
     cell_fields i (F_type type_Link) c r 0 @ path_fields [int_cast t_size (1 + v), g]"
| "call_fields (Set_null c r i n) = cell_fields i (F_num t_int set_null_sentinel) c r n"
| "call_fields (Nullify_link c r g) = F_instr instr_NullifyLink # path_fields [c, r, g]"
| "call_fields (Insert_substring c r p s) = F_instr instr_InsertSubstring # path_fields [c, r, p] @ [F_string s]"
| "call_fields (Erase_substring c r p n) = F_instr instr_EraseFromString # path_fields [c, r, p, n]"
| "call_fields Optimize_table = [F_instr instr_OptimizeTable]"
| "call_fields (Insert_link_column c t s g b) =
     F_instr instr_InsertLinkColumn # F_num t_size c # F_type t # path_fields [g, b] @ [F_string s]"
| "call_fields (Insert_column c t s n) =
     [F_instr (if n then instr_InsertNullableColumn else instr_InsertColumn), F_num t_size c, F_type t, F_string s]"
| "call_fields (Erase_link_column c g b) = F_instr instr_EraseLinkColumn # path_fields [c, g, b]"
| "call_fields (Erase_column c) = F_instr instr_EraseColumn # path_fields [c]"
| "call_fields (Rename_column c s) = F_instr instr_RenameColumn # path_fields [c] @ [F_string s]"
| "call_fields (Add_search_index c) = F_instr instr_AddSearchIndex # path_fields [c]"
| "call_fields (Remove_search_index c) = F_instr instr_RemoveSearchIndex # path_fields [c]"
| "call_fields (Set_link_type c l) = [F_instr instr_SetLinkType, F_num t_size c, F_num t_int (link_code l)]"
| "call_fields (Link_list_set a b n) = F_instr instr_LinkListSet # path_fields [a, b, n]"
| "call_fields (Link_list_insert a b n) = F_instr instr_LinkListInsert # path_fields [a, b, n]"
| "call_fields (Link_list_move a b) = F_instr instr_LinkListMove # path_fields [a, b]"
| "call_fields (Link_list_swap a b) = F_instr instr_LinkListSwap # path_fields [a, b]"
| "call_fields (Link_list_erase a n) = F_instr instr_LinkListErase # path_fields [a, n]"
| "call_fields (Link_list_nullify a n) = F_instr instr_LinkListNullify # path_fields [a, n]"
| "call_fields (Link_list_clear n) = F_instr instr_LinkListClear # path_fields [n]"

text \<open>
  The calls that are written this way: null strings, binaries and timestamps are other calls, only some
  variants go with each type, and the number of rows is only kept with \<open>SetUnique\<close>.
\<close>

definition unique_ok :: "instruction \<Rightarrow> int \<Rightarrow> bool" where
  "unique_ok i n \<longleftrightarrow> variant_ok i \<and> n = 0 \<or> i = instr_SetUnique"

fun mixed_ok :: "mixed \<Rightarrow> bool" where
  "mixed_ok (Mixed_timestamp s n) = timestamp_ok s n"
| "mixed_ok (Mixed_string s) = (int (length s) \<le> max_string_size)"
| "mixed_ok _ = True"

fun call_shape :: "call \<Rightarrow> bool" where
  "call_shape (Select_table g path) = (int (length path) \<le> max_levels)"
| "call_shape (Select_descriptor path) = (int (length path) \<le> max_levels)"
| "call_shape (Insert_group_level_table t n s) = (int (length s) \<le> max_string_size)"
| "call_shape (Rename_group_level_table t s) = (int (length s) \<le> max_string_size)"
| "call_shape (Set_int c r v i n) = unique_ok i n"
| "call_shape (Set_bool c r v i) = variant_ok i"
| "call_shape (Set_float c r v i) = variant_ok i"
| "call_shape (Set_double c r v i) = variant_ok i"
| "call_shape (Set_string c r v i n) =
     (unique_ok i n \<and> (case v of None \<Rightarrow> False | Some s \<Rightarrow> int (length s) \<le> max_string_size))"
| "call_shape (Set_binary c r v i) = (variant_ok i \<and> v \<noteq> None)"
| "call_shape (Set_olddatetime c r v i) = variant_ok i"
| "call_shape (Set_timestamp c r v i) = (variant_ok i \<and> (case v of None \<Rightarrow> False | Some (s, n) \<Rightarrow> timestamp_ok s n))"
| "call_shape (Set_table c r i) = variant_ok i"
| "call_shape (Set_mixed c r v i) = (variant_ok i \<and> mixed_ok v)"
| "call_shape (Set_link c r v g i) = (variant_ok i \<and> in_range t_size v)"
| "call_shape (Set_null c r i n) = unique_ok i n"
| "call_shape (Insert_substring c r p s) = (int (length s) \<le> max_string_size)"
| "call_shape (Insert_link_column c t s g b) = (is_link_type t \<and> int (length s) \<le> max_string_size)"
| "call_shape (Insert_column c t s n) =
     (\<not> is_link_type t \<and> \<not> (n \<and> t = type_Mixed) \<and> int (length s) \<le> max_string_size)"
| "call_shape (Rename_column c s) = (int (length s) \<le> max_string_size)"
| "call_shape _ = True"

definition call_ok :: "call \<Rightarrow> bool" where
  "call_ok c \<longleftrightarrow> call_shape c \<and> (\<forall>f \<in> set (call_fields c). field_ok f)"

definition call_bytes :: "call \<Rightarrow> byte list" where
  "call_bytes c = fields_bytes (call_fields c)"


definition call_instr :: "call \<Rightarrow> instruction" where
  "call_instr c = (case call_fields c of F_instr i # _ \<Rightarrow> i | _ \<Rightarrow> instr_Set)"

lemma call_fields_Cons: "call_fields c = F_instr (call_instr c) # tl (call_fields c)"
  by (cases c) (simp_all add: call_instr_def cell_fields_def)

text \<open>
  An entry of a log is the instruction of one call, or a \<open>LinkListSetAll\<close>, which the parser turns into one
  call per element.
\<close>

datatype log_entry = Call call | Set_all "int list"

fun set_all_calls :: "int \<Rightarrow> int \<Rightarrow> int list \<Rightarrow> call list" where
  "set_all_calls i n [] = []"
| "set_all_calls i n (v # vs) = Link_list_set i v n # set_all_calls (i + 1) n vs"

fun entry_calls :: "log_entry \<Rightarrow> call list" where
  "entry_calls (Call c) = [c]"
| "entry_calls (Set_all vs) = set_all_calls 0 (int (length vs)) vs"

fun entry_fields :: "log_entry \<Rightarrow> field list" where
  "entry_fields (Call c) = call_fields c"
| "entry_fields (Set_all vs) = [F_instr instr_LinkListSetAll, F_num t_size (int (length vs)), F_ints vs]"

fun entry_ok :: "log_entry \<Rightarrow> bool" where
  "entry_ok (Call c) = call_ok c"
| "entry_ok (Set_all vs) = (length vs \<le> size_max \<and> (\<forall>v \<in> set vs. in_range t_size v \<and> in_range t_int64 v))"

definition entry_bytes :: "log_entry \<Rightarrow> byte list" where
  "entry_bytes x = fields_bytes (entry_fields x)"

lemma entry_bytes_simps [simp]:
  "entry_bytes (Call c) = call_bytes c"
  "entry_bytes (Set_all vs) = field_bytes (F_instr instr_LinkListSetAll) @ log_int (int (length vs)) @ concat (map log_int vs)"
  by (simp_all add: entry_bytes_def call_bytes_def)

lemma entry_bytes_nonempty: "entry_bytes x \<noteq> []"
proof (cases x)
  case (Call c)
  have "call_bytes c = field_bytes (F_instr (call_instr c)) @ fields_bytes (tl (call_fields c))"
    unfolding call_bytes_def by (subst call_fields_Cons) simp
  then show ?thesis using Call by simp
qed simp

definition log_bytes :: "log_entry list \<Rightarrow> byte list" where
  "log_bytes es = concat (map entry_bytes es)"

definition log_calls :: "log_entry list \<Rightarrow> call list" where
  "log_calls es = concat (map entry_calls es)"

lemma log_simps [simp]:
  "log_bytes [] = []" "log_bytes (x # es) = entry_bytes x @ log_bytes es"
  "log_calls [] = []" "log_calls (x # es) = entry_calls x @ log_calls es"
  by (simp_all add: log_bytes_def log_calls_def)

subsection \<open>Bytes of single fields\<close>

lemma small_log_int: "0 \<le> v \<Longrightarrow> v < 64 \<Longrightarrow> log_int v = [word_of_int v]"
  by (simp add: log_int_def int_bytes.simps)

lemma sint_byte: "0 \<le> v \<Longrightarrow> v < 128 \<Longrightarrow> sint (word_of_int v :: byte) = v"
  by (simp add: sint_sbintrunc' signed_take_bit_int_eq_self)

lemma sint_instr: "sint (word_of_int (instr_code i) :: byte) = instr_code i"
  using instr_code_bounds [of i] by (intro sint_byte) auto

lemma in_range_type_code [simp]: "in_range t_int (type_code t)"
  using type_code_bounds [of t] by (simp add: in_range_def int_min_def int_max_def t_int_def)

lemma type_code_not_sentinel [simp]: "type_code t \<noteq> set_null_sentinel" "set_null_sentinel \<noteq> type_code t"
  using type_code_bounds [of t] by (simp_all add: set_null_sentinel_def)

declare link_roundtrip [simp]

lemma field_bytes_type: "field_bytes (F_type t) = log_int (type_code t)"
  using type_code_bounds [of t] by (simp add: small_log_int)

lemma field_bytes_bool: "field_bytes (F_bool b) = log_int (if b then 1 else 0)"
  by (simp add: small_log_int)

lemma read_result_in_range: "in_range T v \<Longrightarrow> read_result T v = Some v"
  by (cases "is_signed T") (simp_all add: read_result_def fit_def in_range_def int_min_def)

lemma in_range_char_bool: "in_range t_char (if b then 1 else 0)"
  by (simp add: in_range_def int_min_def int_max_def t_char_def)

lemma string_size_in_range: "int (length s) \<le> max_string_size \<Longrightarrow> in_range t_size (int (length s))"
  by (simp add: in_range_def int_min_def int_max_def t_size_def max_string_size_def)


subsection \<open>Reading fields\<close>

context no_copy_input_stream
begin

definition reads :: "('s input \<Rightarrow> ('a \<times> 's input) option) \<Rightarrow> byte list \<Rightarrow> 'a option \<Rightarrow> bool" where
  "reads f bs r \<longleftrightarrow> (\<forall>p rest. good p \<longrightarrow> bytes p = bs @ rest \<longrightarrow>
     f p = map_option (\<lambda>v. (v, adv next_block (length bs) p)) r)"

lemma readsD: "reads f bs r \<Longrightarrow> good p \<Longrightarrow> bytes p = bs @ rest \<Longrightarrow>
    f p = map_option (\<lambda>v. (v, adv next_block (length bs) p)) r"
  unfolding reads_def by blast

lemma reads_bind_result:
  assumes "reads f bs r" "\<And>v. r = Some v \<Longrightarrow> reads (g v) bs' r'" "r = None \<Longrightarrow> r' = None"
  shows "reads (\<lambda>p. f p \<bind> (\<lambda>(x, p). g x p)) (bs @ bs') r'"
  unfolding reads_def
proof (intro allI impI)
  fix p rest
  assume p: "good p" "bytes p = (bs @ bs') @ rest"
  let ?q = "adv next_block (length bs) p"
  have f: "f p = map_option (\<lambda>v. (v, ?q)) r" using readsD [OF assms(1) p(1)] p(2) by simp
  have "good ?q" "bytes ?q = bs' @ rest" using adv_good [OF p(1), of "length bs"] p(2) by simp_all
  then show "f p \<bind> (\<lambda>(x, p). g x p) = map_option (\<lambda>v. (v, adv next_block (length (bs @ bs')) p)) r'"
    using f assms(2,3) readsD [of "g v" bs' r' ?q rest for v] by (cases r) (simp_all add: adv_adv)
qed

lemma reads_bind: "reads f bs (Some v) \<Longrightarrow> reads (g v) bs' r \<Longrightarrow> reads (\<lambda>p. f p \<bind> (\<lambda>(x, p). g x p)) (bs @ bs') r"
  by (rule reads_bind_result) auto

lemma reads_int: "log_type_ok T \<Longrightarrow> in_range T v \<Longrightarrow> reads (read_int next_block T) (log_int v) (Some v)"
  unfolding reads_def using read_int_log_int [of T _ v] by (simp add: read_result_in_range)

lemma reads_Some: "reads (\<lambda>p. Some (v, p)) [] (Some v)"
  by (simp add: reads_def)

lemma reads_bool: "reads (read_bool next_block) (field_bytes (F_bool b)) (Some b)"
proof -
  have "reads (read_bool next_block) (log_int (if b then 1 else 0) @ []) (Some ((if b then 1 else 0) \<noteq> (0 :: int)))"
    unfolding read_bool_def [abs_def] by (intro reads_bind [OF reads_int reads_Some] in_range_char_bool) simp
  then show ?thesis unfolding field_bytes_bool by (cases b) simp_all
qed

lemma reads_read_bytes: "n = length bs \<Longrightarrow> reads (read_bytes next_block n) bs (Some bs)"
  unfolding reads_def using read_bytes_adv by simp

lemma reads_buffer: "n = length bs \<Longrightarrow> reads (read_buffer next_block n) bs (Some bs)"
  unfolding reads_def using read_buffer_adv by simp

lemma reads_string:
  assumes "int (length s) \<le> max_string_size"
  shows "reads (read_string next_block) (field_bytes (F_string s)) (Some s)"
proof -
  have "reads (\<lambda>p. if max_string_size < int (length s) then None else read_buffer next_block (nat (int (length s))) p) s (Some s)"
    using assms reads_buffer [of "length s" s] by simp
  then show ?thesis unfolding read_string_def [abs_def] field_bytes.simps
    by (rule reads_bind [OF reads_int, rotated -1]) (use string_size_in_range [OF assms] in simp_all)
qed

lemma reads_binary: "length s \<le> size_max \<Longrightarrow> reads (read_binary next_block) (field_bytes (F_string s)) (Some s)"
  unfolding read_binary_def [abs_def] field_bytes.simps
  by (rule reads_bind [OF reads_int reads_buffer]) (simp_all add: size_in_range)

text \<open>The rules that follow the parser through the fields of an instruction.\<close>

lemma reads_num_field:
  "log_type_ok U \<Longrightarrow> in_range U v \<Longrightarrow> reads (g v) (fields_bytes fs) r \<Longrightarrow>
     reads (\<lambda>p. read_int next_block U p \<bind> (\<lambda>(x, p). g x p)) (fields_bytes (F_num T v # fs)) r"
  unfolding fields_bytes_simps field_bytes.simps by (rule reads_bind [OF reads_int])

lemma reads_type_field:
  "reads (g (type_code t)) (fields_bytes fs) r \<Longrightarrow>
     reads (\<lambda>p. read_int next_block t_int p \<bind> (\<lambda>(x, p). g x p)) (fields_bytes (F_type t # fs)) r"
  unfolding fields_bytes_simps field_bytes_type by (rule reads_bind [OF reads_int]) simp_all

lemma reads_bool_field:
  "reads (g b) (fields_bytes fs) r \<Longrightarrow>
     reads (\<lambda>p. read_bool next_block p \<bind> (\<lambda>(x, p). g x p)) (fields_bytes (F_bool b # fs)) r"
  unfolding fields_bytes_simps by (rule reads_bind [OF reads_bool])

lemma reads_float_field:
  "length f = 4 \<Longrightarrow> reads (g f) (fields_bytes fs) r \<Longrightarrow>
     reads (\<lambda>p. read_float next_block p \<bind> (\<lambda>(x, p). g x p)) (fields_bytes (F_float f # fs)) r"
  unfolding fields_bytes_simps field_bytes.simps read_float_def by (rule reads_bind [OF reads_read_bytes]) simp_all

lemma reads_double_field:
  "length d = 8 \<Longrightarrow> reads (g d) (fields_bytes fs) r \<Longrightarrow>
     reads (\<lambda>p. read_double next_block p \<bind> (\<lambda>(x, p). g x p)) (fields_bytes (F_double d # fs)) r"
  unfolding fields_bytes_simps field_bytes.simps read_double_def by (rule reads_bind [OF reads_read_bytes]) simp_all

lemma reads_string_field:
  "int (length s) \<le> max_string_size \<Longrightarrow> reads (g s) (fields_bytes fs) r \<Longrightarrow>
     reads (\<lambda>p. read_string next_block p \<bind> (\<lambda>(x, p). g x p)) (fields_bytes (F_string s # fs)) r"
  unfolding fields_bytes_simps by (rule reads_bind [OF reads_string])

lemma reads_binary_field:
  "length s \<le> size_max \<Longrightarrow> reads (g s) (fields_bytes fs) r \<Longrightarrow>
     reads (\<lambda>p. read_binary next_block p \<bind> (\<lambda>(x, p). g x p)) (fields_bytes (F_string s # fs)) r"
  unfolding fields_bytes_simps by (rule reads_bind [OF reads_binary])

lemma reads_invoke: "reads (\<lambda>p. invoke h c st p) (fields_bytes []) (h c st)"
  by (cases "h c st") (simp_all add: reads_def invoke_def)

lemma reads_return: "reads (\<lambda>p. Some (v, p)) (fields_bytes []) (Some v)"
  using reads_Some by simp

lemma reads_assert: "b \<Longrightarrow> reads f bs r \<Longrightarrow> reads (\<lambda>p. realm_assert b \<bind> (\<lambda>_. f p)) bs r"
  by simp

lemmas reads_intros = reads_num_field reads_type_field reads_bool_field reads_float_field reads_double_field
  reads_string_field reads_binary_field reads_invoke reads_return reads_assert

subsection \<open>Reading calls\<close>

definition parses :: "'st handler \<Rightarrow> 'st \<Rightarrow> call \<Rightarrow> bool" where
  "parses h st c \<longleftrightarrow> (call_ok c \<longrightarrow>
     reads (parse_instr next_block h (call_instr c) st) (fields_bytes (tl (call_fields c))) (h c st))"

lemmas parses_simps = parses_def call_instr_def parse_instr_def [abs_def] call_ok_def field_ok_def

lemma parses_rows:
  "parses h st (Insert_empty_rows r n k u)" "parses h st (Add_row_with_key r n col key)" "parses h st (Erase_rows r n k u)"
  "parses h st (Swap_rows a b)" "parses h st (Move_row a b)" "parses h st (Merge_rows a b)" "parses h st (Clear_table n)"
  by (simp_all add: parses_simps parse_rows_def [abs_def] del: fields_bytes_simps)
    ((intro reads_intros impI; simp)+)

lemma parses_cells:
  "parses h st (Add_int c r v)" "parses h st (Nullify_link c r g)" "parses h st (Insert_substring c r k s)"
  "parses h st (Erase_substring c r k n)"
  by (simp_all add: parses_simps parse_cell_def [abs_def] del: fields_bytes_simps)
    ((intro reads_intros impI; simp)+)

lemma parses_link_list:
  "parses h st (Link_list_set a b n)" "parses h st (Link_list_insert a b n)" "parses h st (Link_list_move a b)"
  "parses h st (Link_list_swap a b)" "parses h st (Link_list_erase a n)" "parses h st (Link_list_nullify a n)"
  "parses h st (Link_list_clear n)" "parses h st (Select_link_list c r g)"
  by (simp_all add: parses_simps parse_link_list_def [abs_def] del: fields_bytes_simps)
    ((intro reads_intros impI; simp)+)

lemma parses_tables:
  "parses h st (Insert_group_level_table t n s)" "parses h st (Erase_group_level_table t n)"
  "parses h st (Rename_group_level_table t s)" "parses h st Optimize_table"
  by (simp_all add: parses_simps parse_tables_def [abs_def] del: fields_bytes_simps)
    ((intro reads_intros impI; simp)+)



lemma reads_else: "\<not> b \<Longrightarrow> reads f bs r \<Longrightarrow> reads (\<lambda>p. if b then None else f p) bs r"
  by simp

lemmas parse_field_simps = is_valid_data_type_def is_valid_link_type_def type_roundtrip

lemma parses_columns:
  "parses h st (Insert_link_column c t s g b)" "parses h st (Erase_link_column c g b)"
  "parses h st (Erase_column c)" "parses h st (Rename_column c s)" "parses h st (Add_search_index c)"
  "parses h st (Remove_search_index c)" "parses h st (Set_link_type c l)"
  by (simp_all add: parses_simps parse_columns_def [abs_def] del: fields_bytes_simps)
    ((intro reads_intros impI reads_else; simp add: parse_field_simps del: fields_bytes_simps)+)

lemma parses_insert_column: "parses h st (Insert_column c t s n)"
  by (cases n; simp add: parses_simps parse_insert_column_def [abs_def] del: fields_bytes_simps;
    (intro reads_intros impI reads_else; simp add: parse_field_simps del: fields_bytes_simps)+)

lemma reads_set:
  assumes "unique_ok i n" "in_range t_size c" "in_range t_size r" "in_range t_size n"
    "field_bytes tf = log_int tc" "in_range t_int tc" "reads (parse_set_value next_block h i tc c r n st) (fields_bytes fs) res"
  shows "reads (parse_instr next_block h i st) (fields_bytes (tl (cell_fields i tf c r n) @ fs)) res"
proof -
  have "parse_instr next_block h i st = parse_set next_block h i st" using assms(1)
    by (auto simp: parse_instr_def [abs_def] unique_ok_def variant_ok_def)
  moreover have "tl (cell_fields i tf c r n) @ fs = tf # F_num t_size c # F_num t_size r #
     (if i = instr_SetUnique then [F_num t_size n] else []) @ fs" by (simp add: cell_fields_def)
  moreover have "reads (parse_set next_block h i st) (field_bytes (F_num t_int tc) @ fields_bytes (F_num t_size c # F_num t_size r #
     (if i = instr_SetUnique then [F_num t_size n] else []) @ fs)) res"
    using assms(1,7) unfolding parse_set_def [abs_def] fields_bytes_simps(2) [symmetric]
    by (cases "i = instr_SetUnique") (auto simp del: fields_bytes_simps simp: unique_ok_def intro!: reads_intros assms)
  ultimately show ?thesis using assms(5) by simp
qed


lemma call_ok_fields: "call_ok c \<Longrightarrow> \<forall>f \<in> set (call_fields c). field_ok f"
  by (simp add: call_ok_def)

lemma variant_unique: "variant_ok i \<Longrightarrow> unique_ok i 0" "variant_ok i \<Longrightarrow> i \<noteq> instr_SetUnique"
  by (auto simp: unique_ok_def variant_ok_def)

lemma zero_in_range [simp]: "in_range t_size 0"
  by (simp add: in_range_def int_min_def int_max_def t_size_def)

lemma unique_range: "unique_ok i n \<Longrightarrow> (i = instr_SetUnique \<longrightarrow> in_range t_size n) \<Longrightarrow> in_range t_size n"
  by (auto simp: unique_ok_def)

lemma reads_set_type:
  assumes "unique_ok i n" "\<forall>f \<in> set (cell_fields i (F_type t) c r n). field_ok f"
    "reads (parse_set_value next_block h i (type_code t) c r n st) (fields_bytes fs) res"
  shows "reads (parse_instr next_block h i st) (fields_bytes (tl (cell_fields i (F_type t) c r n) @ fs)) res"
proof -
  have "in_range t_size c" "in_range t_size r" "i = instr_SetUnique \<longrightarrow> in_range t_size n"
    using assms(2) by (auto simp: cell_fields_def field_ok_def)
  then show ?thesis using assms(1,3) unique_range by (intro reads_set [OF _ _ _ _ field_bytes_type]) auto
qed

lemma reads_timestamp:
  assumes "in_range t_int64 s" "in_range t_int n" "timestamp_ok s n"
  shows "reads (read_timestamp next_block) (fields_bytes [F_num t_int64 s, F_num t_int n]) (Some (s, n))"
  using assms unfolding read_timestamp_def [abs_def] by (intro reads_intros) simp_all

lemma reads_bind_fields:
  "reads f (fields_bytes fs) (Some v) \<Longrightarrow> reads (g v) (fields_bytes gs) r \<Longrightarrow>
     reads (\<lambda>p. f p \<bind> (\<lambda>(x, p). g x p)) (fields_bytes (fs @ gs)) r"
  unfolding fields_bytes_simps by (rule reads_bind)

lemma reads_mixed:
  assumes "mixed_ok v" "\<forall>f \<in> set (mixed_fields v). field_ok f"
  shows "reads (read_mixed next_block) (fields_bytes (F_type (mixed_type v) # mixed_fields v)) (Some v)"
  unfolding read_mixed_def [abs_def]
proof (rule reads_type_field, cases v)
  case (Mixed_timestamp s n)
  have "reads (read_timestamp next_block) (fields_bytes [F_num t_int64 s, F_num t_int n]) (Some (s, n))"
    using assms Mixed_timestamp by (intro reads_timestamp) (simp_all add: field_ok_def)
  from reads_bind [OF this reads_Some, of "case_prod Mixed_timestamp"]
  show "reads (\<lambda>p. case type_of_code (type_code (mixed_type v)) of
       Some type_Int \<Rightarrow> do { (v, p) \<leftarrow> read_int next_block t_int64 p; Some (Mixed_int v, p) }
     | Some type_Bool \<Rightarrow> do { (v, p) \<leftarrow> read_bool next_block p; Some (Mixed_bool v, p) }
     | Some type_Float \<Rightarrow> do { (v, p) \<leftarrow> read_float next_block p; Some (Mixed_float v, p) }
     | Some type_Double \<Rightarrow> do { (v, p) \<leftarrow> read_double next_block p; Some (Mixed_double v, p) }
     | Some type_OldDateTime \<Rightarrow> do { (v, p) \<leftarrow> read_int next_block t_int64 p; Some (Mixed_olddatetime v, p) }
     | Some type_Timestamp \<Rightarrow> do { ((s, n), p) \<leftarrow> read_timestamp next_block p; Some (Mixed_timestamp s n, p) }
     | Some type_String \<Rightarrow> do { (v, p) \<leftarrow> read_string next_block p; Some (Mixed_string v, p) }
     | Some type_Binary \<Rightarrow> do { (v, p) \<leftarrow> read_binary next_block p; Some (Mixed_binary v, p) }
     | Some type_Table \<Rightarrow> Some (Mixed_table, p)
     | _ \<Rightarrow> None) (fields_bytes (mixed_fields v)) (Some v)"
    unfolding type_roundtrip by (simp add: Mixed_timestamp case_prod_unfold)
qed (insert assms, simp_all add: field_ok_def type_roundtrip del: fields_bytes_simps type_code.simps, (intro reads_intros; simp)+)

lemma parses_setI:
  assumes "call_fields x = cell_fields i (F_type t) c r n @ fs" "call_ok x \<Longrightarrow> unique_ok i n"
    "call_ok x \<Longrightarrow> \<forall>f \<in> set fs. field_ok f \<Longrightarrow> reads (parse_set_value next_block h i (type_code t) c r n st) (fields_bytes fs) (h x st)"
  shows "parses h st x"
  unfolding parses_def
proof
  assume ok: "call_ok x"
  have "call_instr x = i" "tl (call_fields x) = tl (cell_fields i (F_type t) c r n) @ fs"
    unfolding assms(1) call_instr_def by (simp_all add: cell_fields_def)
  moreover have "reads (parse_instr next_block h i st) (fields_bytes (tl (cell_fields i (F_type t) c r n) @ fs)) (h x st)"
    by (rule reads_set_type) (use assms(2,3) call_ok_fields [OF ok] ok in \<open>auto simp: assms(1)\<close>)
  ultimately show "reads (parse_instr next_block h (call_instr x) st) (fields_bytes (tl (call_fields x))) (h x st)" by simp
qed

lemmas set_value_simps = parse_set_value_def [abs_def] type_roundtrip field_ok_def

lemma parses_set:
  "parses h st (Set_int c r v i n)" "parses h st (Set_bool c r b i)" "parses h st (Set_float c r f i)" "parses h st (Set_double c r f i)"
 "parses h st (Set_olddatetime c r v i)"
  by (rule parses_setI, rule call_fields.simps, simp add: call_ok_def variant_unique,
   simp add: set_value_simps del: fields_bytes_simps type_code.simps, intro reads_intros; simp)+


lemma parses_set_table: "parses h st (Set_table c r i)" 
proof (rule parses_setI [where fs = "[]" and n = 0])
  show "reads (parse_set_value next_block h i (type_code type_Table) c r 0 st) (fields_bytes []) (h (Set_table c r i) st)"
    unfolding parse_set_value_def [abs_def] type_roundtrip using reads_invoke by (simp del: type_code.simps)
qed (simp_all add: call_ok_def variant_unique)

lemma set_link_wrap: "in_range t_size v \<Longrightarrow> int_cast t_size (int_cast t_size (1 + v) - 1) = v"
  by (simp add: int_cast_def in_range_def int_min_def int_max_def t_size_def mod_diff_left_eq)

lemma parses_set_link: "parses h st (Set_link c r v g i)"
proof (rule parses_setI, rule call_fields.simps)
  assume c: "call_ok (Set_link c r v g i)" "\<forall>f \<in> set (path_fields [int_cast t_size (1 + v), g]). field_ok f"
  then show "reads (parse_set_value next_block h i (type_code type_Link) c r 0 st)
     (fields_bytes (path_fields [int_cast t_size (1 + v), g])) (h (Set_link c r v g i) st)"
    unfolding parse_set_value_def [abs_def] type_roundtrip Let_def
    by (simp del: fields_bytes_simps type_code.simps) (intro reads_intros;
      simp add: call_ok_def field_ok_def set_link_wrap reads_invoke [simplified])
qed (simp add: call_ok_def variant_unique)

lemma parses_set_binary: "parses h st (Set_binary c r s i)" 
proof (rule parses_setI, rule call_fields.simps)
  assume c: "call_ok (Set_binary c r s i)" "\<forall>f \<in> set [F_string (the s)]. field_ok f"
  then show "reads (parse_set_value next_block h i (type_code type_Binary) c r 0 st)
     (fields_bytes [F_string (the s)]) (h (Set_binary c r s i) st)"
    unfolding parse_set_value_def [abs_def] type_roundtrip
    by (simp del: fields_bytes_simps type_code.simps) (intro reads_intros;
      simp add: call_ok_def field_ok_def reads_invoke [simplified])
qed (simp add: call_ok_def variant_unique)

lemma parses_set_string: "parses h st (Set_string c r s i n)"
proof (cases s)
  case (Some v)
  then show ?thesis
    by (simp, intro parses_setI, simp, simp add: call_ok_def,
      simp add: set_value_simps call_ok_def del: fields_bytes_simps type_code.simps, intro reads_intros; simp)
qed (simp add: parses_def call_ok_def)

lemma parses_set_timestamp: "parses h st (Set_timestamp c r ts i)"
proof (cases ts)
  case (Some sn)
  then show ?thesis
    by (cases sn) (simp, rule parses_setI, rule call_fields.simps, simp add: call_ok_def variant_unique,
      simp add: set_value_simps call_ok_def del: fields_bytes_simps type_code.simps, intro reads_intros; simp)
qed (simp add: parses_def call_ok_def)

lemma parses_set_mixed: 
   "parses h st (Set_mixed c r v i)"
proof (rule parses_setI, rule call_fields.simps)
  assume c: "call_ok (Set_mixed c r v i)" "\<forall>f \<in> set (F_type (mixed_type v) # mixed_fields v). field_ok f"
  have "reads (read_mixed next_block) (fields_bytes (F_type (mixed_type v) # mixed_fields v)) (Some v)"
    using c by (intro reads_mixed) (simp_all add: call_ok_def)
  from reads_bind_fields [OF this, of "\<lambda>v. invoke h (Set_mixed c r v i) st" "[]", OF reads_invoke]
  show "reads (parse_set_value next_block h i (type_code type_Mixed) c r 0 st)
     (fields_bytes (F_type (mixed_type v) # mixed_fields v)) (h (Set_mixed c r v i) st)"
    by (simp add: set_value_simps del: fields_bytes_simps type_code.simps)
qed (simp add: call_ok_def variant_unique)

lemma parses_set_null: "parses h st (Set_null c r i n)"
  unfolding parses_def
proof
  assume c: "call_ok (Set_null c r i n)"
  then have r: "in_range t_size c" "in_range t_size r" "i = instr_SetUnique \<longrightarrow> in_range t_size n" "unique_ok i n"
    "in_range t_int set_null_sentinel"
    by (auto simp: call_ok_def cell_fields_def field_ok_def)
  have "reads (parse_instr next_block h i st) (fields_bytes (tl (cell_fields i (F_num t_int set_null_sentinel) c r n) @ [])) (h (Set_null c r i n) st)"
    using r unique_range [OF r(4,3)]
    by (intro reads_set [where tc = set_null_sentinel]) (simp_all add: parse_set_value_def [abs_def] reads_invoke [simplified])
  then show "reads (parse_instr next_block h (call_instr (Set_null c r i n)) st)
     (fields_bytes (tl (call_fields (Set_null c r i n)))) (h (Set_null c r i n) st)"
    by (simp add: call_instr_def cell_fields_def)
qed

lemma reads_path:
  "\<forall>v \<in> set vs. in_range t_size v \<Longrightarrow> reads (read_path next_block (length vs)) (fields_bytes (path_fields vs)) (Some vs)"
proof (induction vs)
  case (Cons v vs)
  then have "reads (read_path next_block (length vs)) (fields_bytes (path_fields vs)) (Some vs)" by simp
  from reads_bind_fields [OF this reads_return, of "\<lambda>vs. v # vs"] Cons.prems
  show ?case by (simp del: fields_bytes_simps) (intro reads_intros; simp)
qed (simp add: reads_def)

lemma reads_table_path:
  "\<forall>(c, r) \<in> set path. in_range t_size c \<and> in_range t_size r \<Longrightarrow>
     reads (read_table_path next_block (length path)) (fields_bytes (table_path_fields path)) (Some path)"
proof (induction path rule: table_path_fields.induct)
  case (2 c r path)
  then have "reads (read_table_path next_block (length path)) (fields_bytes (table_path_fields path)) (Some path)" by simp
  from reads_bind_fields [OF this reads_return, of "\<lambda>path. (c, r) # path"] "2.prems"
  show ?case by (simp del: fields_bytes_simps) (intro reads_intros; simp)
qed (simp add: reads_def)

lemma table_path_fields_ok:
  "\<forall>f \<in> set (table_path_fields path). field_ok f \<Longrightarrow> \<forall>(c, r) \<in> set path. in_range t_size c \<and> in_range t_size r"
  by (induction path rule: table_path_fields.induct) (auto simp: field_ok_def)

lemma parses_select_descriptor: "parses h st (Select_descriptor path)"
  unfolding parses_def
proof
  assume c: "call_ok (Select_descriptor path)"
  then have "reads (read_path next_block (length path)) (fields_bytes (path_fields path)) (Some path)"
    by (intro reads_path) (auto simp: call_ok_def field_ok_def)
  from reads_bind_fields [OF this, of "\<lambda>path. invoke h (Select_descriptor path) st" "[]", OF reads_invoke] c
  show "reads (parse_instr next_block h (call_instr (Select_descriptor path)) st)
     (fields_bytes (tl (call_fields (Select_descriptor path)))) (h (Select_descriptor path) st)"
    by (simp add: parses_simps parse_columns_def [abs_def] del: fields_bytes_simps path_fields.simps)
      (intro reads_intros reads_else; simp)
qed

lemma parses_select_table: "parses h st (Select_table g path)"
  unfolding parses_def
proof
  assume c: "call_ok (Select_table g path)"
  then have "reads (read_table_path next_block (length path)) (fields_bytes (table_path_fields path)) (Some path)"
    by (intro reads_table_path table_path_fields_ok) (simp add: call_ok_def)
  from reads_bind_fields [OF this, of "\<lambda>path. invoke h (Select_table g path) st" "[]", OF reads_invoke] c
  show "reads (parse_instr next_block h (call_instr (Select_table g path)) st)
     (fields_bytes (tl (call_fields (Select_table g path)))) (h (Select_table g path) st)"
    by (simp add: parses_simps parse_rows_def [abs_def] del: fields_bytes_simps)
      (intro reads_intros reads_else; simp)
qed

lemma parses_call: "parses h st c"
  by (cases c) (simp_all only: parses_rows parses_cells parses_link_list parses_tables parses_columns parses_insert_column
    parses_set parses_set_table parses_set_link parses_set_binary parses_set_string parses_set_timestamp parses_set_mixed
    parses_set_null parses_select_descriptor parses_select_table)

lemma reads_instr:
  assumes "reads (parse_instr next_block h i st) bs r"
  shows "reads (parse_one next_block h st) (field_bytes (F_instr i) @ bs) r"
proof -
  have "reads (read_char next_block) [word_of_int (instr_code i)] (Some (word_of_int (instr_code i)))"
    unfolding reads_def using read_char_adv by simp
  from reads_bind [OF this, of "\<lambda>ch p. instr_of_code (sint ch) \<bind> (\<lambda>instr. parse_instr next_block h instr st p)"] assms
  show ?thesis by (simp add: parse_one_def [abs_def] sint_instr instr_roundtrip)
qed

lemma parse_one_call: "call_ok c \<Longrightarrow> reads (parse_one next_block h st) (call_bytes c) (h c st)"
  using reads_instr [of h "call_instr c" st "fields_bytes (tl (call_fields c))" "h c st"] parses_call [of h st c]
  by (metis call_bytes_def call_fields_Cons fields_bytes_simps(2) parses_def)



subsection \<open>A whole log\<close>

lemma reads_set_all:
  "\<forall>v \<in> set vs. in_range t_size v \<Longrightarrow> reads (parse_set_all next_block h (length vs) i n st) (concat (map log_int vs))
     (foldM h (set_all_calls i n vs) st)"
proof (induction vs arbitrary: i st)
  case (Cons v vs)
  have "reads (\<lambda>p. invoke h (Link_list_set i v n) st p \<bind> (\<lambda>(st, p). parse_set_all next_block h (length vs) (i + 1) n st p))
      ([] @ concat (map log_int vs)) (foldM h (set_all_calls i n (v # vs)) st)"
    by (rule reads_bind_result [OF reads_invoke [simplified]]) (use Cons in auto)
  then show ?case using Cons.prems reads_bind [OF reads_int [of t_size v]] by simp
qed (simp add: reads_def)

lemma parse_one_entry:
  assumes "entry_ok x"
  shows "reads (parse_one next_block h st) (entry_bytes x) (foldM h (entry_calls x) st)"
proof (cases x)
  case (Call c)
  then show ?thesis using parse_one_call [of c h st] assms by (cases "h c st") simp_all
next
  case (Set_all vs)
  then have r: "in_range t_size (int (length vs))" "\<forall>v \<in> set vs. in_range t_size v" using assms by (auto simp: size_in_range)
  have "reads (\<lambda>p. parse_set_all next_block h (nat (int (length vs))) 0 (int (length vs)) st p) (concat (map log_int vs))
     (foldM h (set_all_calls 0 (int (length vs)) vs) st)" using reads_set_all [OF r(2)] by simp
  from reads_bind [OF reads_int [OF _ r(1)], of "\<lambda>sz p. parse_set_all next_block h (nat sz) 0 sz st p", OF _ this]
  have "reads (parse_link_list next_block h instr_LinkListSetAll st) (log_int (int (length vs)) @ concat (map log_int vs))
     (foldM h (set_all_calls 0 (int (length vs)) vs) st)" by (simp add: parse_link_list_def [abs_def])
  then show ?thesis using Set_all reads_instr [of h instr_LinkListSetAll st] by (simp add: parse_instr_def [abs_def])
qed

lemma parse_loop_log:
  assumes "list_all entry_ok es"
  shows "good p \<Longrightarrow> bytes p = log_bytes es \<Longrightarrow> parse_loop next_block h st p = foldM h (log_calls es) st"
  using assms
proof (induction es arbitrary: p st)
  case Nil
  then obtain q where "has_next next_block p = (False, q)" using has_next_spec [of p] by auto
  then show ?case by (subst parse_loop.simps) simp
next
  case (Cons x es)
  obtain q where q: "has_next next_block p = (True, q)" "good q" "bytes q = entry_bytes x @ log_bytes es"
    using has_next_spec [OF Cons.prems(1)] Cons.prems(2) entry_bytes_nonempty [of x] by auto
  let ?q = "adv next_block (length (entry_bytes x)) q"
  have "parse_one next_block h st q = map_option (\<lambda>st. (st, ?q)) (foldM h (entry_calls x) st)"
    using readsD [OF parse_one_entry q(2,3)] Cons.prems(3) by simp
  moreover have "parse_loop next_block h st' ?q = foldM h (log_calls es) st'" for st'
    using adv_good [OF q(2), of "length (entry_bytes x)"] q(3) Cons.prems(3) by (intro Cons.IH) simp_all
  ultimately show ?case using q(1)
    by (subst parse_loop.simps) (cases "foldM h (entry_calls x) st"; simp add: foldM_append)
qed

lemma parse_log:
  assumes "list_all entry_ok es" "ok s" "content s = log_bytes es"
  shows "parse next_block h st s = foldM h (log_calls es) st"
  unfolding parse_def using assms by (intro parse_loop_log) (simp_all add: good_def bytes_def)

end

end
