(* ===== verification/Log_Write.thy ===== *)
theory Log_Write
  imports Log_Roundtrip
begin

text \<open>
  The encoder against the format: each method appends exactly the bytes of its call, inside the space it has
  reserved, and a log written this way is parsed back into the same calls.

  The three methods that write a selection are a parameter \<open>sel\<close>: they are declared in the header and defined
  outside the sources.
\<close>

fun is_select :: "call \<Rightarrow> bool" where
  "is_select (Select_table _ _) = True"
| "is_select (Select_descriptor _) = True"
| "is_select (Select_link_list _ _ _) = True"
| "is_select _ = False"

fun enc_call :: "byte \<Rightarrow> (call \<Rightarrow> enc) \<Rightarrow> call \<Rightarrow> enc" where
  "enc_call junk sel (Insert_group_level_table t n s) = enc_insert_group_level_table junk t n s"
| "enc_call junk sel (Erase_group_level_table t n) = enc_erase_group_level_table junk t n"
| "enc_call junk sel (Rename_group_level_table t s) = enc_rename_group_level_table junk t s"
| "enc_call junk sel (Insert_empty_rows r n k u) = enc_insert_empty_rows junk r n k u"
| "enc_call junk sel (Add_row_with_key r n c k) = enc_add_row_with_key junk r n c k"
| "enc_call junk sel (Erase_rows r n k u) = enc_erase_rows junk r n k u"
| "enc_call junk sel (Swap_rows a b) = enc_swap_rows junk a b"
| "enc_call junk sel (Move_row a b) = enc_move_row junk a b"
| "enc_call junk sel (Merge_rows a b) = enc_merge_rows junk a b"
| "enc_call junk sel (Clear_table n) = enc_clear_table junk n"
| "enc_call junk sel (Set_int c r v i n) = enc_set_int junk c r v i n"
| "enc_call junk sel (Add_int c r v) = enc_add_int junk c r v"
| "enc_call junk sel (Set_bool c r v i) = enc_set_bool junk c r v i"
| "enc_call junk sel (Set_float c r v i) = enc_set_float junk c r v i"
| "enc_call junk sel (Set_double c r v i) = enc_set_double junk c r v i"
| "enc_call junk sel (Set_string c r v i n) = enc_set_string junk c r v i n"
| "enc_call junk sel (Set_binary c r v i) = enc_set_binary junk c r v i"
| "enc_call junk sel (Set_olddatetime c r v i) = enc_set_olddatetime junk c r v i"
| "enc_call junk sel (Set_timestamp c r v i) = enc_set_timestamp junk c r v i"
| "enc_call junk sel (Set_table c r i) = enc_set_table junk c r i"
| "enc_call junk sel (Set_mixed c r v i) = enc_set_mixed junk c r v i"
| "enc_call junk sel (Set_link c r v g i) = enc_set_link junk c r v g i"
| "enc_call junk sel (Set_null c r i n) = enc_set_null junk c r i n"
| "enc_call junk sel (Nullify_link c r g) = enc_nullify_link junk c r g"
| "enc_call junk sel (Insert_substring c r p s) = enc_insert_substring junk c r p s"
| "enc_call junk sel (Erase_substring c r p n) = enc_erase_substring junk c r p n"
| "enc_call junk sel Optimize_table = enc_optimize_table junk"
| "enc_call junk sel (Insert_link_column c t s g b) = enc_insert_link_column junk c t s g b"
| "enc_call junk sel (Insert_column c t s n) = enc_insert_column junk c t s n"
| "enc_call junk sel (Erase_link_column c g b) = enc_erase_link_column junk c g b"
| "enc_call junk sel (Erase_column c) = enc_erase_column junk c"
| "enc_call junk sel (Rename_column c s) = enc_rename_column junk c s"
| "enc_call junk sel (Add_search_index c) = enc_add_search_index junk c"
| "enc_call junk sel (Remove_search_index c) = enc_remove_search_index junk c"
| "enc_call junk sel (Set_link_type c l) = enc_set_link_type junk c l"
| "enc_call junk sel (Link_list_set a b n) = enc_link_list_set junk a b n"
| "enc_call junk sel (Link_list_insert a b n) = enc_link_list_insert junk a b n"
| "enc_call junk sel (Link_list_move a b) = enc_link_list_move junk a b"
| "enc_call junk sel (Link_list_swap a b) = enc_link_list_swap junk a b"
| "enc_call junk sel (Link_list_erase a n) = enc_link_list_erase junk a n"
| "enc_call junk sel (Link_list_nullify a n) = enc_link_list_nullify junk a n"
| "enc_call junk sel (Link_list_clear n) = enc_link_list_clear junk n"
| "enc_call junk sel (Select_table g path) = sel (Select_table g path)"
| "enc_call junk sel (Select_descriptor path) = sel (Select_descriptor path)"
| "enc_call junk sel (Select_link_list c r g) = sel (Select_link_list c r g)"

fun enc_entry :: "byte \<Rightarrow> (call \<Rightarrow> enc) \<Rightarrow> log_entry \<Rightarrow> enc" where
  "enc_entry junk sel (Call c) = enc_call junk sel c"
| "enc_entry junk sel (Set_all vs) = enc_link_list_set_all junk vs"

text \<open>
  The calls the encoder writes faithfully: \<open>set_double\<close> keeps the variant only when it is \<open>Set\<close>, and
  \<open>link_list_move\<close> asserts that the positions differ.
\<close>

fun writable :: "call \<Rightarrow> bool" where
  "writable (Set_double c r v i) = (i = instr_Set)"
| "writable (Link_list_move a b) = (a \<noteq> b)"
| "writable _ = True"

fun entry_writable :: "log_entry \<Rightarrow> bool" where
  "entry_writable (Call c) = (call_ok c \<and> writable c)"
| "entry_writable (Set_all vs) = entry_ok (Set_all vs)"

lemmas enc_simple_defs = enc_insert_group_level_table_def enc_erase_group_level_table_def
  enc_rename_group_level_table_def enc_insert_empty_rows_def enc_add_row_with_key_def enc_erase_rows_def
  enc_swap_rows_def enc_move_row_def enc_merge_rows_def enc_clear_table_def enc_add_int_def enc_nullify_link_def
  enc_insert_substring_def enc_erase_substring_def enc_optimize_table_def enc_insert_link_column_def
  enc_insert_column_def enc_erase_link_column_def enc_erase_column_def enc_rename_column_def
  enc_add_search_index_def enc_remove_search_index_def enc_set_link_type_def enc_link_list_set_def
  enc_link_list_insert_def enc_link_list_move_def enc_link_list_swap_def enc_link_list_erase_def
  enc_link_list_nullify_def enc_link_list_clear_def enc_link_list_set_all_def

lemmas enc_set_defs = enc_set_int_def enc_set_bool_def enc_set_float_def enc_set_double_def enc_set_string_def
  enc_set_binary_def enc_set_olddatetime_def enc_set_timestamp_def enc_set_table_def enc_set_mixed_def
  append_mixed_instr_def enc_set_link_def enc_set_null_def

lemma enc_call_fields:
  assumes "call_ok c" "writable c" "\<not> is_select c"
  shows "enc_call junk sel c e = append_simple_instr junk (call_fields c) e"
proof -
  have "call_shape c" using assms(1) by (simp add: call_ok_def)
  then show ?thesis using assms(2,3)
    by (cases c) (auto simp: enc_simple_defs enc_set_defs cell_fields_def unique_ok_def variant_ok_def
        split: option.splits if_splits)
qed

lemma enc_entry_fields:
  "entry_writable x \<Longrightarrow> (\<forall>c. x = Call c \<longrightarrow> \<not> is_select c) \<Longrightarrow>
     enc_entry junk sel x e = append_simple_instr junk (entry_fields x) e"
  by (cases x) (simp_all add: enc_call_fields enc_simple_defs)

lemma entry_fields_ok:
  assumes "entry_writable x"
  shows "fields_ok (entry_fields x)"
proof (cases x)
  case (Call c)
  have "\<forall>f \<in> set (table_path_fields path). \<not> is_ints f" for path
    by (induction path rule: table_path_fields.induct) (simp_all add: is_ints_def)
  moreover have "\<forall>f \<in> set (mixed_fields m). \<not> is_ints f" for m by (cases m) (simp_all add: is_ints_def)
  ultimately have "\<forall>f \<in> set (call_fields c). \<not> is_ints f" by (cases c) (auto simp: is_ints_def cell_fields_def)
  then have "\<forall>f \<in> set (butlast (call_fields c)). \<not> is_ints f" by (blast dest: in_set_butlastD)
  then show ?thesis using assms Call by (simp add: fields_ok_def call_ok_def)
qed (use assms in \<open>auto simp: fields_ok_def field_ok_def is_ints_def size_in_range\<close>)

definition entry_room :: "log_entry \<Rightarrow> nat" where
  "entry_room x = fields_room (entry_fields x)"


lemma field_bytes_bound:
  assumes "field_ok f" "\<not> is_ints f"
  shows "length (field_bytes f) \<le> max_size f"
proof (cases f)
  case (F_num T v)
  have "in_range t_int64 v \<or> in_range t_size v" using assms(1) F_num
    by (auto simp: field_ok_def t_int_def t_int64_def in_range_def int_min_def int_max_def)
  then show ?thesis using F_num log_int_length [of v] by (simp add: max_enc_defs)
next
  case (F_string s)
  then show ?thesis using assms(1) log_int_length [of "int (length s)"] by (simp add: field_ok_def max_enc_defs size_in_range)
qed (use assms in \<open>auto simp: field_ok_def is_ints_def max_enc_defs\<close>)

lemma fields_bytes_bound: "\<forall>f \<in> set fs. field_ok f \<and> \<not> is_ints f \<Longrightarrow> length (fields_bytes fs) \<le> max_size_list fs"
proof (induction fs)
  case (Cons f fs)
  then show ?case using field_bytes_bound [of f] by (simp add: max_size_list_def)
qed (simp add: max_size_list_def)

lemma ints_bound: "\<forall>v \<in> set vs. in_range t_int64 v \<Longrightarrow> length (concat (map log_int vs)) \<le> 10 * length vs"
proof (induction vs)
  case (Cons v vs)
  then show ?case using log_int_length [of v] by simp
qed simp

lemma fields_room_bound:
  assumes "fields_ok fs"
  shows "length (fields_bytes fs) \<le> fields_room fs"
proof (cases fs rule: rev_cases)
  case (snoc gs f)
  then have gs: "length (fields_bytes gs) \<le> max_size_list gs" "field_ok f"
    using assms by (auto intro: fields_bytes_bound simp: fields_ok_def)
  show ?thesis
  proof (cases "is_ints f")
    case True
    then obtain vs where "f = F_ints vs" by (cases f) (auto simp: is_ints_def)
    then show ?thesis using gs snoc ints_bound [of vs] by (simp add: fields_room_def max_size_list_def field_ok_def)
  next
    case False
    then show ?thesis using gs snoc field_bytes_bound [of f] by (simp add: fields_room_def max_size_list_def)
  qed
qed simp

text \<open>
  What the encoder relies on of the methods that write a selection: they append the bytes of their call.
\<close>

definition writes_selections :: "(call \<Rightarrow> enc) \<Rightarrow> bool" where
  "writes_selections sel \<longleftrightarrow> (\<forall>c e. is_select c \<and> call_ok c \<and> encoder_ok e \<and>
     length (written e) + fields_room (call_fields c) \<le> size_max \<longrightarrow>
     (\<exists>e'. sel c e = Some e' \<and> encoder_ok e' \<and> written e' = written e @ call_bytes c))"

lemma enc_entry_correct:
  assumes "writes_selections sel" "encoder_ok e" "entry_writable x" "length (written e) + entry_room x \<le> size_max"
  shows "\<exists>e'. enc_entry junk sel x e = Some e' \<and> encoder_ok e' \<and> written e' = written e @ entry_bytes x"
proof (cases "\<exists>c. x = Call c \<and> is_select c")
  case True
  then obtain c where c: "x = Call c" "is_select c" by blast
  then have "enc_call junk sel c = sel c" by (cases c) simp_all
  then show ?thesis using assms c by (simp add: writes_selections_def entry_room_def)
next
  case False
  then have "enc_entry junk sel x e = append_simple_instr junk (entry_fields x) e"
    using enc_entry_fields [OF assms(3)] by blast
  then show ?thesis using append_simple_instr_correct [OF assms(2) entry_fields_ok [OF assms(3)], of junk] assms(4)
    by (simp add: entry_room_def entry_bytes_def)
qed

lemma enc_log_correct:
  "writes_selections sel \<Longrightarrow> encoder_ok e \<Longrightarrow> list_all entry_writable es \<Longrightarrow>
   length (written e) + sum_list (map entry_room es) \<le> size_max \<Longrightarrow>
   \<exists>e'. foldM (enc_entry junk sel) es e = Some e' \<and> encoder_ok e' \<and> written e' = written e @ log_bytes es"
proof (induction es arbitrary: e)
  case (Cons x es)
  obtain e1 where e1: "enc_entry junk sel x e = Some e1" "encoder_ok e1" "written e1 = written e @ entry_bytes x"
    using enc_entry_correct [OF Cons.prems(1,2), of x junk] Cons.prems(3,4) by auto
  have "length (entry_bytes x) \<le> entry_room x"
    using fields_room_bound [OF entry_fields_ok] Cons.prems(3) by (simp add: entry_bytes_def entry_room_def)
  then have "length (written e1) + sum_list (map entry_room es) \<le> size_max" using Cons.prems(4) e1(3) by simp
  from Cons.IH [OF Cons.prems(1) e1(2) _ this] show ?case using Cons.prems(3) e1 by auto
qed simp

lemma encoder_init_ok [simp]: "encoder_ok encoder_init" "written encoder_init = []"
  by (simp_all add: encoder_ok_def encoder_init_def written_def size_max_def)

lemma writable_ok: "list_all entry_writable es \<Longrightarrow> list_all entry_ok es"
proof (induction es)
  case (Cons x es)
  then show ?case by (cases x) simp_all
qed simp

lemma write_parse_log:
  assumes "writes_selections sel" "list_all entry_writable es" "sum_list (map entry_room es) \<le> size_max"
  shows "\<exists>e. foldM (enc_entry junk sel) es encoder_init = Some e \<and> written e = log_bytes es \<and>
    parse whole_next_block h st (written e) = foldM h (log_calls es) st"
  using enc_log_correct [OF assms(1) encoder_init_ok(1) assms(2), of junk] assms(3)
    whole.parse_log [OF writable_ok [OF assms(2)], of "log_bytes es" h st] by auto

lemma set_double_variant_lost:
  assumes "encoder_ok e" "call_ok (Set_double c r v instr_SetDefault)"
    "length (written e) + fields_room (call_fields (Set_double c r v instr_SetDefault)) \<le> size_max"
  shows "\<exists>e'. enc_set_double junk c r v instr_SetDefault e = Some e' \<and>
    written e' = written e @ call_bytes (Set_double c r v instr_Set)"
proof -
  have "enc_set_double junk c r v instr_SetDefault e = append_simple_instr junk (call_fields (Set_double c r v instr_Set)) e"
    by (simp add: enc_set_double_def variant_ok_def cell_fields_def)
  moreover have "entry_writable (Call (Set_double c r v instr_Set))"
    using assms(2) by (auto simp: call_ok_def cell_fields_def field_ok_def variant_ok_def)
  moreover have "fields_room (call_fields (Set_double c r v instr_Set)) = fields_room (call_fields (Set_double c r v instr_SetDefault))"
    by (simp add: fields_room_def max_size_list_def cell_fields_def)
  ultimately show ?thesis using append_simple_instr_correct [OF assms(1) entry_fields_ok, of "Call (Set_double c r v instr_Set)" junk] assms(3)
    by (auto simp: call_bytes_def)
qed

end
