(* ===== verification/Log_Blocks.thy ===== *)
theory Log_Blocks
  imports Log_Write
begin

text \<open>
  The parser does not depend on how a log is cut into blocks: on two streams with the same bytes it makes the
  same calls and fails in the same cases, whatever the bytes are.  It also ends: each instruction takes at
  least one byte.
\<close>

text \<open>The loop of \<open>parse\<close> with a bound on its steps: the outer \<open>None\<close> is an exhausted bound.\<close>

fun parse_fuel :: "nat \<Rightarrow> 's blocks \<Rightarrow> 'st handler \<Rightarrow> 'st \<Rightarrow> 's input \<Rightarrow> 'st option option" where
  "parse_fuel 0 nb h st p = None"
| "parse_fuel (Suc n) nb h st p =
     (case has_next nb p of (available, p) \<Rightarrow>
        if available
        then (case parse_one nb h st p of None \<Rightarrow> Some None | Some (st, p) \<Rightarrow> parse_fuel n nb h st p)
        else Some (Some st))"

locale two_streams =
  a: no_copy_input_stream ok nb content + b: no_copy_input_stream ok' nb' content'
  for ok :: "'s \<Rightarrow> bool" and nb content and ok' :: "'t \<Rightarrow> bool" and nb' content'
begin

definition same :: "nat \<Rightarrow> 's input \<Rightarrow> 't input \<Rightarrow> bool" where
  "same k p q \<longleftrightarrow> a.good p \<and> b.good q \<and> a.bytes p = b.bytes q \<and> length (a.bytes p) \<le> k"

abbreviation res :: "nat \<Rightarrow> ('a \<times> 's input) option \<Rightarrow> ('a \<times> 't input) option \<Rightarrow> bool" where
  "res k \<equiv> rel_option (rel_prod (=) (same k))"

subsection \<open>Rules\<close>

lemma res_bind:
  "res k m m' \<Longrightarrow> (\<And>x p q. same k p q \<Longrightarrow> res k (g x p) (g' x q)) \<Longrightarrow>
     res k (m \<bind> (\<lambda>(x, p). g x p)) (m' \<bind> (\<lambda>(x, q). g' x q))"
  by (cases m; cases m') auto

lemma res_bind_pure: "(\<And>x. res k (g x) (g' x)) \<Longrightarrow> res k (v \<bind> g) (v \<bind> g')"
  by (cases v) auto

lemma res_if: "res k x x' \<Longrightarrow> res k y y' \<Longrightarrow> res k (if b then x else y) (if b then x' else y')"
  by simp

lemma res_simple: "res k None None" "same k p q \<Longrightarrow> res k (Some (v, p)) (Some (v, q))"
  by simp_all

lemma res_invoke: "same k p q \<Longrightarrow> res k (invoke h c st p) (invoke h c st q)"
  by (cases "h c st") (simp_all add: invoke_def)

lemmas res_rules = res_bind res_bind_pure res_if res_simple res_invoke

subsection \<open>Reading values\<close>

lemma read_char_same:
  assumes "same k p q"
  shows "res (k - 1) (read_char nb p) (read_char nb' q)"
proof (cases "a.bytes p")
  case Nil
  then show ?thesis using assms a.read_char_Nil [of p] b.read_char_Nil [of q] by (simp add: same_def)
next
  case (Cons c cs)
  then show ?thesis using assms a.read_char_Cons [of p c cs] b.read_char_Cons [of q c cs] by (auto simp: same_def)
qed

lemma same_mono: "same j p q \<Longrightarrow> j \<le> k \<Longrightarrow> same k p q"
  by (auto simp: same_def)

lemma res_mono: "res j m m' \<Longrightarrow> j \<le> k \<Longrightarrow> res k m m'"
  by (cases m; cases m') (auto dest: same_mono)

lemma read_bytes_same: "same k p q \<Longrightarrow> res k (read_bytes nb n p) (read_bytes nb' n q)"
  using a.adv_good [of p n] b.adv_good [of q n] by (auto simp: a.read_bytes_adv b.read_bytes_adv same_def)

lemma read_buffer_same: "same k p q \<Longrightarrow> res k (read_buffer nb n p) (read_buffer nb' n q)"
  using a.adv_good [of p n] b.adv_good [of q n] by (auto simp: a.read_buffer_adv b.read_buffer_adv same_def)

lemma read_loop_same:
  "same k p q \<Longrightarrow> rel_option (rel_prod (=) (rel_prod (=) (same k))) (read_loop nb T n i v p) (read_loop nb' T n i v q)"
proof (induction n arbitrary: i v p q)
  case (Suc n)
  have r: "res k (read_char nb p) (read_char nb' q)" using read_char_same [OF Suc.prems] by (rule res_mono) simp
  show ?case
  proof (cases "read_char nb p")
    case None
    then show ?thesis using r by simp
  next
    case (Some y)
    then obtain c p' q' where "read_char nb p = Some (c, p')" "read_char nb' q = Some (c, q')" "same k p' q'"
      using r by (cases y) (auto simp: option_rel_Some1)
    then show ?thesis using Suc.IH [of p' q']
      by (cases "int_shift_left_with_overflow_detect T (take_bit 6 (uint c)) (i * 7)")
        (auto simp: Let_def split: Option.bind_splits)
  qed
qed simp

lemma read_int_same: "same k p q \<Longrightarrow> res k (read_int nb T p) (read_int nb' T q)"
  using read_loop_same [of k p q T "(digits T + 1 + 6) div 7" 0 0] unfolding read_int_def
  by (cases "read_loop nb T ((digits T + 1 + 6) div 7) 0 0 p"; cases "read_loop nb' T ((digits T + 1 + 6) div 7) 0 0 q")
    (auto split: Option.bind_splits)

lemmas read_same = read_int_same read_bytes_same read_buffer_same

lemma read_bool_same: "same k p q \<Longrightarrow> res k (read_bool nb p) (read_bool nb' q)"
  unfolding read_bool_def by (intro res_rules read_same)

lemma read_float_same: "same k p q \<Longrightarrow> res k (read_float nb p) (read_float nb' q)"
  unfolding read_float_def by (intro res_rules read_same)

lemma read_double_same: "same k p q \<Longrightarrow> res k (read_double nb p) (read_double nb' q)"
  unfolding read_double_def by (intro res_rules read_same)

lemma read_string_same: "same k p q \<Longrightarrow> res k (read_string nb p) (read_string nb' q)"
  unfolding read_string_def by (intro res_rules read_same)

lemma read_binary_same: "same k p q \<Longrightarrow> res k (read_binary nb p) (read_binary nb' q)"
  unfolding read_binary_def by (intro res_rules read_same)

lemma read_timestamp_same: "same k p q \<Longrightarrow> res k (read_timestamp nb p) (read_timestamp nb' q)"
  unfolding read_timestamp_def by (intro res_rules read_same)

lemmas value_same = read_same read_bool_same read_float_same read_double_same read_string_same read_binary_same
  read_timestamp_same

lemma read_mixed_same: "same k p q \<Longrightarrow> res k (read_mixed nb p) (read_mixed nb' q)"
  unfolding read_mixed_def
  by (intro res_bind value_same) (auto split: option.split data_type.split intro!: res_rules value_same)

lemma read_path_same: "same k p q \<Longrightarrow> res k (read_path nb n p) (read_path nb' n q)"
  by (induction n arbitrary: p q) (auto intro!: res_rules value_same)

lemma read_table_path_same: "same k p q \<Longrightarrow> res k (read_table_path nb n p) (read_table_path nb' n q)"
  by (induction n arbitrary: p q) (auto intro!: res_rules value_same)

subsection \<open>Parsing\<close>

lemma parse_set_value_same:
  "same k p q \<Longrightarrow> res k (parse_set_value nb h i t c r n st p) (parse_set_value nb' h i t c r n st q)"
  unfolding parse_set_value_def Let_def
  by (auto split: option.split data_type.split intro!: res_rules value_same read_mixed_same)

lemma parse_set_same: "same k p q \<Longrightarrow> res k (parse_set nb h i st p) (parse_set nb' h i st q)"
  unfolding parse_set_def by (intro res_rules value_same parse_set_value_same)

lemma parse_cell_same: "same k p q \<Longrightarrow> res k (parse_cell nb h i st p) (parse_cell nb' h i st q)"
  unfolding parse_cell_def by (cases i; simp; intro res_rules value_same; assumption?)

lemma parse_rows_same: "same k p q \<Longrightarrow> res k (parse_rows nb h i st p) (parse_rows nb' h i st q)"
  unfolding parse_rows_def by (cases i; simp; intro res_rules value_same read_table_path_same; assumption?)

lemma parse_set_all_same:
  "same k p q \<Longrightarrow> res k (parse_set_all nb h n i sz st p) (parse_set_all nb' h n i sz st q)"
  by (induction n arbitrary: i st p q) (auto intro!: res_rules value_same)

lemma parse_link_list_same: "same k p q \<Longrightarrow> res k (parse_link_list nb h i st p) (parse_link_list nb' h i st q)"
  unfolding parse_link_list_def by (cases i; simp; intro res_rules value_same parse_set_all_same; assumption?)

lemma parse_columns_same: "same k p q \<Longrightarrow> res k (parse_columns nb h i st p) (parse_columns nb' h i st q)"
  unfolding parse_columns_def by (cases i; simp; intro impI conjI res_rules value_same read_path_same; assumption?)

lemma parse_insert_column_same:
  "same k p q \<Longrightarrow> res k (parse_insert_column nb h i st p) (parse_insert_column nb' h i st q)"
  unfolding parse_insert_column_def Let_def by (intro res_rules value_same)

lemma parse_tables_same: "same k p q \<Longrightarrow> res k (parse_tables nb h i st p) (parse_tables nb' h i st q)"
  unfolding parse_tables_def by (cases i; simp; intro res_rules value_same; assumption?)

lemma parse_instr_same: "same k p q \<Longrightarrow> res k (parse_instr nb h i st p) (parse_instr nb' h i st q)"
  unfolding parse_instr_def
  by (intro res_if parse_set_same parse_cell_same parse_rows_same parse_link_list_same parse_columns_same
    parse_insert_column_same parse_tables_same)

lemma parse_one_same:
  assumes "same k p q"
  shows "res (k - 1) (parse_one nb h st p) (parse_one nb' h st q)"
  unfolding parse_one_def using read_char_same [OF assms] by (rule res_bind) (intro res_bind_pure parse_instr_same)

lemma has_next_same:
  assumes "same k p q"
  shows "\<exists>p' q'. has_next nb p = (a.bytes p \<noteq> [], p') \<and> has_next nb' q = (a.bytes p \<noteq> [], q') \<and> same k p' q'"
  using a.has_next_spec [of p] b.has_next_spec [of q] assms by (auto simp: same_def)

lemma parse_loop_same: "same k p q \<Longrightarrow> parse_loop nb h st p = parse_loop nb' h st q"
proof (induction k arbitrary: p q st rule: less_induct)
  case (less k)
  obtain p' q' where n: "has_next nb p = (a.bytes p \<noteq> [], p')" "has_next nb' q = (a.bytes p \<noteq> [], q')" "same k p' q'"
    using has_next_same [OF less.prems] by blast
  show ?case
  proof (cases "a.bytes p = []")
    case True
    then show ?thesis using n by (simp add: parse_loop.simps)
  next
    case False
    then have k: "k - 1 < k" using less.prems by (cases "a.bytes p") (auto simp: same_def)
    have "res (k - 1) (parse_one nb h st p') (parse_one nb' h st q')" by (rule parse_one_same [OF n(3)])
    then show ?thesis using n(1,2) False less.IH [OF k]
      by (cases "parse_one nb h st p'"; cases "parse_one nb' h st q'") (auto simp: parse_loop.simps)
  qed
qed

lemma parse_same: "ok s \<Longrightarrow> ok' t \<Longrightarrow> content s = content' t \<Longrightarrow> parse nb h st s = parse nb' h st t"
  unfolding parse_def
  by (rule parse_loop_same [of "length (content s)"]) (simp add: same_def a.good_def b.good_def a.bytes_def b.bytes_def)

lemma parse_fuel_ends:
  "same k p q \<Longrightarrow> k < n \<Longrightarrow> parse_fuel n nb h st p = Some (parse_loop nb h st p)"
proof (induction n arbitrary: k p q st)
  case (Suc n)
  obtain p' q' where n: "has_next nb p = (a.bytes p \<noteq> [], p')" "same k p' q'"
    using has_next_same [OF Suc.prems(1)] by blast
  show ?case
  proof (cases "a.bytes p = []")
    case True
    then show ?thesis using n by (simp add: parse_loop.simps)
  next
    case False
    then have k: "k - 1 < n" using Suc.prems by (cases "a.bytes p") (auto simp: same_def)
    have "res (k - 1) (parse_one nb h st p') (parse_one nb' h st q')" by (rule parse_one_same [OF n(2)])
    then show ?thesis using n(1) False Suc.IH [OF _ k]
      by (cases "parse_one nb h st p'"; cases "parse_one nb' h st q'") (auto simp: parse_loop.simps)
  qed
qed simp

end

text \<open>The streams of the sources, against the whole log in one block.\<close>

interpretation whole_whole: two_streams "\<lambda>_. True" whole_next_block id "\<lambda>_. True" whole_next_block id
  by unfold_locales

interpretation multi_whole: two_streams "\<lambda>_. True" multi_log_next_block "\<lambda>s. concat (ml_logs s)"
  "\<lambda>_. True" whole_next_block id
  by unfold_locales

interpretation changesets_whole: two_streams "cs_ok hist" "changeset_next_block hist" "cs_content hist"
  "\<lambda>_. True" whole_next_block id for hist
  by unfold_locales

lemma adaptor_whole:
  assumes "byte_source ok read remaining" "0 < n"
  shows "two_streams ok (adaptor_next_block read n) remaining (\<lambda>_. True) whole_next_block id"
  using byte_source.adaptor [OF assms] whole.no_copy_input_stream_axioms by (simp add: two_streams_def)

text \<open>
  A parse is a walk over the blocks; with more steps than there are bytes it never runs out of them.
\<close>

lemma parse_steps:
  "\<exists>n. \<forall>m \<ge> n. parse_fuel m whole_next_block h st ([], bs) = Some (parse whole_next_block h st bs)"
proof (intro exI allI impI)
  fix m
  assume "Suc (length bs) \<le> m"
  then show "parse_fuel m whole_next_block h st ([], bs) = Some (parse whole_next_block h st bs)"
    using whole_whole.parse_fuel_ends [of "length bs" "([], bs)" "([], bs)" m]
    by (simp add: parse_def whole_whole.same_def whole.good_def whole.bytes_def)
qed

end
