(* ===== verification/Log_Reverser.thy ===== *)
theory Log_Reverser
  imports Log_Blocks
begin

text \<open>
  \<open>TransactReverser\<close> and \<open>ReversedNoCopyInputStream\<close> (\<open>core/realm/impl/transact_log.hpp\<close>): a handler that
  encodes the inverse of every instruction it is given and remembers where each of them lies in its buffer,
  and the stream that hands these pieces out in reverse order.  A selection is held back until the
  instructions it selects for have been written, so that it precedes them in the reversed log.
\<close>

subsection \<open>TransactReverser\<close>

type_synonym instr_range = "nat \<times> nat"

record reverser =
  r_encoder :: encoder
  r_instructions :: "instr_range list"
  r_current_instr_start :: nat
  r_pending_ts :: instr_range
  r_pending_ds :: instr_range
  r_pending_lv :: instr_range

definition reverser_init :: reverser where
  "reverser_init = \<lparr>r_encoder = encoder_init, r_instructions = [], r_current_instr_start = 0,
     r_pending_ts = (0, 0), r_pending_ds = (0, 0), r_pending_lv = (0, 0)\<rparr>"

definition transact_log_size :: "reverser \<Rightarrow> nat" where
  "transact_log_size r = e_begin (r_encoder r)"

definition get_inst :: "reverser \<Rightarrow> instr_range \<times> reverser" where
  "get_inst r = (let e = transact_log_size r in ((r_current_instr_start r, e), r\<lparr>r_current_instr_start := e\<rparr>))"

definition append_range :: "instr_range \<Rightarrow> reverser \<Rightarrow> reverser" where
  "append_range i r = r\<lparr>r_instructions := r_instructions r @ [i]\<rparr>"

definition append_instruction :: "reverser \<Rightarrow> reverser" where
  "append_instruction r = (let (i, r) = get_inst r in append_range i r)"

text \<open>\<open>sync_select\<close> on each of the three pending selections.\<close>

definition sync_linkview :: "reverser \<Rightarrow> reverser" where
  "sync_linkview r =
     (if fst (r_pending_lv r) \<noteq> snd (r_pending_lv r)
      then append_range (r_pending_lv r) r\<lparr>r_pending_lv := (0, 0)\<rparr> else r)"

definition sync_descriptor :: "reverser \<Rightarrow> reverser" where
  "sync_descriptor r =
     (let r = sync_linkview r
      in if fst (r_pending_ds r) \<noteq> snd (r_pending_ds r)
         then append_range (r_pending_ds r) r\<lparr>r_pending_ds := (0, 0)\<rparr> else r)"

definition sync_table :: "reverser \<Rightarrow> reverser" where
  "sync_table r =
     (let r = sync_descriptor r
      in if fst (r_pending_ts r) \<noteq> snd (r_pending_ts r)
         then append_range (r_pending_ts r) r\<lparr>r_pending_ts := (0, 0)\<rparr> else r)"

text \<open>An instruction of the encoder followed by \<open>append_instruction()\<close>.\<close>

definition emit :: "byte \<Rightarrow> (call \<Rightarrow> enc) \<Rightarrow> call \<Rightarrow> reverser \<Rightarrow> reverser option" where
  "emit junk sel c r = do {
     e \<leftarrow> enc_call junk sel c (r_encoder r);
     Some (append_instruction (r\<lparr>r_encoder := e\<rparr>))
   }"

fun clear_inserts :: "nat \<Rightarrow> int \<Rightarrow> call list" where
  "clear_inserts 0 old_list_size = []"
| "clear_inserts (Suc i) old_list_size =
     Link_list_insert (int i) 0 (int_cast t_size (old_list_size - int (Suc i))) # clear_inserts i old_list_size"

text \<open>
  What each method writes to the encoder.  Sizes are computed in \<open>size_t\<close> and wrap around.
\<close>

fun inverse_tables :: "call \<Rightarrow> call list" where
  "inverse_tables (Insert_group_level_table t n s) = [Erase_group_level_table t (int_cast t_size (n + 1))]"
| "inverse_tables (Erase_group_level_table t n) = [Insert_group_level_table t (int_cast t_size (n - 1)) []]"
| "inverse_tables _ = []"

fun inverse_rows :: "call \<Rightarrow> call list" where
  "inverse_rows (Insert_empty_rows r n k u) = [Erase_rows r n (int_cast t_size (k + n)) u]"
| "inverse_rows (Add_row_with_key r n c k) = [Erase_rows r 1 (int_cast t_size (n + 1)) True]"
| "inverse_rows (Erase_rows r n k u) = [Insert_empty_rows r n (int_cast t_size (k - n)) u]"
| "inverse_rows (Swap_rows a b) = [Swap_rows a b]"
| "inverse_rows (Move_row a b) = [Move_row b a]"
| "inverse_rows (Merge_rows a b) = [Merge_rows a a, Merge_rows b b]"
| "inverse_rows _ = []"

fun inverse_cells :: "call \<Rightarrow> call list" where
  "inverse_cells (Set_int c r v i n) = [Set_int c r v i n]"
| "inverse_cells (Add_int c r v) = [Add_int c r (int_cast t_int64 (- v))]"
| "inverse_cells (Set_bool c r v i) = [Set_bool c r v i]"
| "inverse_cells (Set_float c r v i) = [Set_float c r v i]"
| "inverse_cells (Set_double c r v i) = [Set_double c r v i]"
| "inverse_cells (Set_string c r v i n) = [Set_string c r v i n]"
| "inverse_cells (Set_binary c r v i) = [Set_binary c r v i]"
| "inverse_cells (Set_olddatetime c r v i) = [Set_olddatetime c r v i]"
| "inverse_cells (Set_timestamp c r v i) = [Set_timestamp c r v i]"
| "inverse_cells (Set_table c r i) = [Set_table c r i]"
| "inverse_cells (Set_mixed c r v i) = [Set_mixed c r v i]"
| "inverse_cells (Set_null c r i n) = [Set_null c r i n]"
| "inverse_cells (Set_link c r v g i) = [Set_link c r v g i]"
| "inverse_cells _ = []"

fun inverse_columns :: "call \<Rightarrow> call list" where
  "inverse_columns (Clear_table n) = [Insert_empty_rows 0 n 0 False]"
| "inverse_columns (Insert_link_column c t s g b) = [Erase_link_column c g b]"
| "inverse_columns (Erase_link_column c g b) = [Insert_link_column c type_Link [] g b]"
| "inverse_columns (Insert_column c t s n) = [Erase_column c]"
| "inverse_columns (Erase_column c) = [Insert_column c type_Int [] False]"
| "inverse_columns _ = []"

fun inverse_links :: "call \<Rightarrow> call list" where
  "inverse_links (Link_list_set a b n) = [Link_list_set a b n]"
| "inverse_links (Link_list_insert a b n) = [Link_list_erase a (int_cast t_size (n + 1))]"
| "inverse_links (Link_list_move a b) = [Link_list_move a b]"
| "inverse_links (Link_list_swap a b) = [Link_list_swap a b]"
| "inverse_links (Link_list_erase a n) = [Link_list_insert a 0 (int_cast t_size (n - 1))]"
| "inverse_links (Link_list_clear n) = clear_inserts (nat n) n"
| "inverse_links (Nullify_link c r g) = [Set_link c r 0 g instr_Set]"
| "inverse_links (Link_list_nullify a n) = [Link_list_insert a 0 (int_cast t_size (n - 1))]"
| "inverse_links _ = []"

definition inverse_calls :: "call \<Rightarrow> call list" where
  "inverse_calls c = inverse_tables c @ inverse_rows c @ inverse_cells c @ inverse_columns c @ inverse_links c"

fun is_group_level :: "call \<Rightarrow> bool" where
  "is_group_level (Insert_group_level_table _ _ _) = True"
| "is_group_level (Erase_group_level_table _ _) = True"
| "is_group_level (Rename_group_level_table _ _) = True"
| "is_group_level _ = False"

definition select_with ::
  "(reverser \<Rightarrow> reverser) \<Rightarrow> (instr_range \<Rightarrow> reverser \<Rightarrow> reverser) \<Rightarrow> (call \<Rightarrow> enc) \<Rightarrow> call \<Rightarrow> reverser \<Rightarrow> reverser option" where
  "select_with sync set_pending sel c r = do {
     let r = sync r;
     e \<leftarrow> sel c (r_encoder r);
     let (i, r) = get_inst (r\<lparr>r_encoder := e\<rparr>);
     Some (set_pending i r)
   }"

fun reverse_call :: "byte \<Rightarrow> (call \<Rightarrow> enc) \<Rightarrow> reverser handler" where
  "reverse_call junk sel (Select_table g path) r =
     select_with sync_table (\<lambda>i r. r\<lparr>r_pending_ts := i\<rparr>) sel (Select_table g path) r"
| "reverse_call junk sel (Select_descriptor path) r =
     select_with sync_descriptor (\<lambda>i r. r\<lparr>r_pending_ds := i\<rparr>) sel (Select_descriptor path) r"
| "reverse_call junk sel (Select_link_list c row g) r =
     select_with sync_linkview (\<lambda>i r. r\<lparr>r_pending_lv := i\<rparr>) sel (Select_link_list c row g) r"
| "reverse_call junk sel c r = foldM (emit junk sel) (inverse_calls c) (if is_group_level c then sync_table r else r)"

subsection \<open>ReversedNoCopyInputStream\<close>

record reversed_stream =
  rs_buffer :: "byte list"
  rs_order :: "instr_range list"
  rs_current :: nat

definition reversed_stream_init :: "reverser \<Rightarrow> reversed_stream" where
  "reversed_stream_init r =
     (let r = sync_table r
      in \<lparr>rs_buffer = e_data (r_encoder r), rs_order = r_instructions r, rs_current = length (r_instructions r)\<rparr>)"

definition range_bytes :: "byte list \<Rightarrow> instr_range \<Rightarrow> byte list" where
  "range_bytes buf i = take (snd i - fst i) (drop (fst i) buf)"

definition reversed_next_block :: "reversed_stream \<Rightarrow> (byte list \<times> reversed_stream) option" where
  "reversed_next_block s =
     (if rs_current s \<noteq> 0
      then let current = rs_current s - 1; i = rs_order s ! current
           in if fst i < snd i then Some (range_bytes (rs_buffer s) i, s\<lparr>rs_current := current\<rparr>) else None
      else None)"

definition rs_ok :: "reversed_stream \<Rightarrow> bool" where
  "rs_ok s \<longleftrightarrow> rs_current s \<le> length (rs_order s) \<and>
     (\<forall>i \<in> set (rs_order s). fst i < snd i \<and> snd i \<le> length (rs_buffer s))"

definition rs_content :: "reversed_stream \<Rightarrow> byte list" where
  "rs_content s = concat (map (range_bytes (rs_buffer s)) (rev (take (rs_current s) (rs_order s))))"

interpretation reversed: no_copy_input_stream rs_ok reversed_next_block rs_content
proof
  show "rs_content s = []" if "rs_ok s" "reversed_next_block s = None" for s
    using that by (auto simp: rs_ok_def reversed_next_block_def rs_content_def Let_def split: if_splits)
  show "rs_ok s' \<and> b \<noteq> [] \<and> rs_content s = b @ rs_content s'"
    if "rs_ok s" "reversed_next_block s = Some (b, s')" for s b s'
  proof -
    let ?c = "rs_current s - 1"
    have c: "rs_current s = Suc ?c" "?c < length (rs_order s)" "b = range_bytes (rs_buffer s) (rs_order s ! ?c)"
      "s' = s\<lparr>rs_current := ?c\<rparr>" "fst (rs_order s ! ?c) < snd (rs_order s ! ?c)"
      using that by (auto simp: rs_ok_def reversed_next_block_def Let_def split: if_splits)
    have "take (rs_current s) (rs_order s) = take ?c (rs_order s) @ [rs_order s ! ?c]"
      using c(1,2) by (metis take_Suc_conv_app_nth)
    moreover have "snd (rs_order s ! ?c) \<le> length (rs_buffer s)" using that(1) c(2) by (auto simp: rs_ok_def)
    ultimately have "b \<noteq> []" "rs_content s = b @ rs_content s'" using c by (simp_all add: rs_content_def range_bytes_def)
    then show ?thesis using that(1) c(2,4) by (simp add: rs_ok_def)
  qed
qed

end
