(* ===== verification/Log_Reversal.thy ===== *)
theory Log_Reversal
  imports Log_Reverser
begin

text \<open>
  What the reverser produces, as a list of calls: the specification keeps the calls and the held-back
  selections themselves instead of their places in a buffer.  The reverser refines it, so the reversed
  stream is parsed into the calls of the specification; and these calls are the inverses of the given ones,
  in reverse order and under the same selections.
\<close>

subsection \<open>Specification\<close>

record reversal =
  rv_out :: "call list"
  rv_ts :: "call option"
  rv_ds :: "call option"
  rv_lv :: "call option"

definition pending :: "call option \<Rightarrow> call list" where
  "pending x = (case x of None \<Rightarrow> [] | Some c \<Rightarrow> [c])"

lemma pending_simps [simp]: "pending None = []" "pending (Some c) = [c]"
  by (simp_all add: pending_def)

definition rv_init :: reversal where
  "rv_init = \<lparr>rv_out = [], rv_ts = None, rv_ds = None, rv_lv = None\<rparr>"

definition rv_sync_linkview :: "reversal \<Rightarrow> reversal" where
  "rv_sync_linkview v = v\<lparr>rv_out := rv_out v @ pending (rv_lv v), rv_lv := None\<rparr>"

definition rv_sync_descriptor :: "reversal \<Rightarrow> reversal" where
  "rv_sync_descriptor v = v\<lparr>rv_out := rv_out v @ pending (rv_lv v) @ pending (rv_ds v), rv_lv := None, rv_ds := None\<rparr>"

definition rv_sync_table :: "reversal \<Rightarrow> reversal" where
  "rv_sync_table v = v\<lparr>rv_out := rv_out v @ pending (rv_lv v) @ pending (rv_ds v) @ pending (rv_ts v),
     rv_lv := None, rv_ds := None, rv_ts := None\<rparr>"

fun rv_call :: "call \<Rightarrow> reversal \<Rightarrow> reversal" where
  "rv_call (Select_table g path) v = (rv_sync_table v)\<lparr>rv_ts := Some (Select_table g path)\<rparr>"
| "rv_call (Select_descriptor path) v = (rv_sync_descriptor v)\<lparr>rv_ds := Some (Select_descriptor path)\<rparr>"
| "rv_call (Select_link_list c r g) v = (rv_sync_linkview v)\<lparr>rv_lv := Some (Select_link_list c r g)\<rparr>"
| "rv_call c v =
     (let v = (if is_group_level c then rv_sync_table v else v) in v\<lparr>rv_out := rv_out v @ inverse_calls c\<rparr>)"

definition reversed_log :: "call list \<Rightarrow> call list" where
  "reversed_log cs = rev (rv_out (rv_sync_table (fold rv_call cs rv_init)))"

text \<open>The calls the reverser writes for a call, and the room their instructions need.\<close>

definition rev_written :: "call \<Rightarrow> call list" where
  "rev_written c = (if is_select c then [c] else inverse_calls c)"

definition calls_room :: "call list \<Rightarrow> nat" where
  "calls_room cs = sum_list (map (\<lambda>c. entry_room (Call c)) cs)"

subsection \<open>Refinement\<close>

definition shows_call :: "encoder \<Rightarrow> instr_range \<Rightarrow> call \<Rightarrow> bool" where
  "shows_call e i c \<longleftrightarrow> fst i < snd i \<and> snd i \<le> length (written e) \<and> range_bytes (written e) i = call_bytes c"

definition shows_pending :: "encoder \<Rightarrow> instr_range \<Rightarrow> call option \<Rightarrow> bool" where
  "shows_pending e i x = (case x of None \<Rightarrow> i = (0, 0) | Some c \<Rightarrow> shows_call e i c)"

definition reverser_rel :: "reverser \<Rightarrow> reversal \<Rightarrow> bool" where
  "reverser_rel r v \<longleftrightarrow> encoder_ok (r_encoder r) \<and> r_current_instr_start r = length (written (r_encoder r)) \<and>
     list_all2 (shows_call (r_encoder r)) (r_instructions r) (rv_out v) \<and>
     shows_pending (r_encoder r) (r_pending_ts r) (rv_ts v) \<and>
     shows_pending (r_encoder r) (r_pending_ds r) (rv_ds v) \<and>
     shows_pending (r_encoder r) (r_pending_lv r) (rv_lv v)"

lemma written_length: "encoder_ok e \<Longrightarrow> length (written e) = e_begin e"
  by (simp add: written_def encoder_ok_def)

lemma shows_call_mono: "shows_call e i c \<Longrightarrow> written e' = written e @ bs \<Longrightarrow> shows_call e' i c"
  by (auto simp: shows_call_def range_bytes_def)

lemma shows_pending_mono: "shows_pending e i x \<Longrightarrow> written e' = written e @ bs \<Longrightarrow> shows_pending e' i x"
  by (auto simp: shows_pending_def intro: shows_call_mono split: option.splits)

lemma shows_list_mono:
  "list_all2 (shows_call e) is cs \<Longrightarrow> written e' = written e @ bs \<Longrightarrow> list_all2 (shows_call e') is cs"
  by (auto elim!: list_all2_mono intro: shows_call_mono)

lemma shows_pending_flush:
  "shows_pending e i x \<Longrightarrow> (fst i \<noteq> snd i) = (x \<noteq> None)"
  "shows_pending e i (Some c) \<Longrightarrow> shows_call e i c"
  by (auto simp: shows_pending_def shows_call_def split: option.splits)

lemma shows_pending_None [simp]: "shows_pending e (0, 0) None"
  by (simp add: shows_pending_def)

lemma shows_last:
  assumes "encoder_ok e'" "written e' = written e @ call_bytes c"
  shows "shows_call e' (length (written e), e_begin e') c"
proof -
  have "call_bytes c \<noteq> []" using entry_bytes_nonempty [of "Call c"] by simp
  then have "0 < length (call_bytes c)" by simp
  moreover have "e_begin e' = length (written e) + length (call_bytes c)" using written_length [OF assms(1)] assms(2) by simp
  ultimately show ?thesis using assms by (simp add: shows_call_def range_bytes_def)
qed

lemma sync_linkview_rel:
  assumes "reverser_rel r v"
  shows "reverser_rel (sync_linkview r) (rv_sync_linkview v)"
  using assms shows_pending_flush [of "r_encoder r" "r_pending_lv r"]
  by (cases "rv_lv v")
    (auto simp: reverser_rel_def sync_linkview_def rv_sync_linkview_def append_range_def intro: list_all2_appendI)

lemma sync_descriptor_rel:
  assumes "reverser_rel r v"
  shows "reverser_rel (sync_descriptor r) (rv_sync_descriptor v)"
proof -
  have v: "rv_sync_descriptor v = (let v = rv_sync_linkview v in v\<lparr>rv_out := rv_out v @ pending (rv_ds v), rv_ds := None\<rparr>)"
    by (simp add: rv_sync_descriptor_def rv_sync_linkview_def Let_def)
  have r: "reverser_rel (sync_linkview r) (rv_sync_linkview v)" by (rule sync_linkview_rel [OF assms])
  show ?thesis unfolding v sync_descriptor_def Let_def
    using r shows_pending_flush [of "r_encoder (sync_linkview r)" "r_pending_ds (sync_linkview r)"]
    by (cases "rv_ds (rv_sync_linkview v)") (auto simp: reverser_rel_def append_range_def intro: list_all2_appendI)
qed

lemma sync_table_rel:
  assumes "reverser_rel r v"
  shows "reverser_rel (sync_table r) (rv_sync_table v)"
proof -
  have v: "rv_sync_table v = (let v = rv_sync_descriptor v in v\<lparr>rv_out := rv_out v @ pending (rv_ts v), rv_ts := None\<rparr>)"
    by (simp add: rv_sync_table_def rv_sync_descriptor_def Let_def)
  have r: "reverser_rel (sync_descriptor r) (rv_sync_descriptor v)" by (rule sync_descriptor_rel [OF assms])
  show ?thesis unfolding v sync_table_def Let_def
    using r shows_pending_flush [of "r_encoder (sync_descriptor r)" "r_pending_ts (sync_descriptor r)"]
    by (cases "rv_ts (rv_sync_descriptor v)") (auto simp: reverser_rel_def append_range_def intro: list_all2_appendI)
qed

lemma sync_encoder [simp]: "r_encoder (sync_linkview r) = r_encoder r" "r_encoder (sync_descriptor r) = r_encoder r"
  "r_encoder (sync_table r) = r_encoder r"
  by (simp_all add: sync_linkview_def sync_descriptor_def sync_table_def append_range_def Let_def)

text \<open>Writing one instruction: what was shown before still is, and the new range shows the new call.\<close>

lemma rel_written:
  assumes "reverser_rel r v" "encoder_ok e" "written e = written (r_encoder r) @ call_bytes c"
  shows "reverser_rel (r\<lparr>r_encoder := e, r_current_instr_start := e_begin e\<rparr>) v"
    "shows_call e (r_current_instr_start r, e_begin e) c"
  using assms shows_last [OF assms(2,3)] written_length [OF assms(2)] shows_list_mono [OF _ assms(3)]
    shows_pending_mono [OF _ assms(3)]
  by (simp_all add: reverser_rel_def)

lemma emit_rel:
  assumes "writes_selections sel" "reverser_rel r v" "call_ok c" "writable c"
    "length (written (r_encoder r)) + entry_room (Call c) \<le> size_max"
  shows "\<exists>r'. emit junk sel c r = Some r' \<and> reverser_rel r' (v\<lparr>rv_out := rv_out v @ [c]\<rparr>) \<and>
    written (r_encoder r') = written (r_encoder r) @ call_bytes c"
proof -
  have ok: "encoder_ok (r_encoder r)" using assms(2) by (simp add: reverser_rel_def)
  obtain e where e: "enc_call junk sel c (r_encoder r) = Some e" "encoder_ok e"
    "written e = written (r_encoder r) @ call_bytes c"
    using enc_entry_correct [OF assms(1) ok, of "Call c" junk] assms(3,4,5) by auto
  from rel_written [OF assms(2) e(2,3)] show ?thesis using e(1,3)
    by (auto simp: emit_def append_instruction_def get_inst_def append_range_def transact_log_size_def Let_def
      reverser_rel_def intro: list_all2_appendI)
qed

lemma call_room_bound: "call_ok c \<Longrightarrow> writable c \<Longrightarrow> length (call_bytes c) \<le> entry_room (Call c)"
  using fields_room_bound [OF entry_fields_ok [of "Call c"]] by (simp add: entry_room_def call_bytes_def)

lemma emits_rel:
  assumes "writes_selections sel"
  shows "reverser_rel r v \<Longrightarrow> list_all (\<lambda>c. call_ok c \<and> writable c) cs \<Longrightarrow>
    length (written (r_encoder r)) + calls_room cs \<le> size_max \<Longrightarrow>
    \<exists>r'. foldM (emit junk sel) cs r = Some r' \<and> reverser_rel r' (v\<lparr>rv_out := rv_out v @ cs\<rparr>) \<and>
      length (written (r_encoder r')) \<le> length (written (r_encoder r)) + calls_room cs"
proof (induction cs arbitrary: r v)
  case (Cons c cs)
  obtain r1 where r1: "emit junk sel c r = Some r1" "reverser_rel r1 (v\<lparr>rv_out := rv_out v @ [c]\<rparr>)"
    "written (r_encoder r1) = written (r_encoder r) @ call_bytes c"
    using emit_rel [OF assms Cons.prems(1), of c junk] Cons.prems(2,3) by (auto simp: calls_room_def)
  have b: "length (written (r_encoder r1)) \<le> length (written (r_encoder r)) + entry_room (Call c)"
    using call_room_bound [of c] Cons.prems(2) r1(3) by simp
  then have "length (written (r_encoder r1)) + calls_room cs \<le> size_max" using Cons.prems(3) by (simp add: calls_room_def)
  from Cons.IH [OF r1(2) _ this] obtain r2 where "foldM (emit junk sel) cs r1 = Some r2"
    "reverser_rel r2 (v\<lparr>rv_out := rv_out v @ c # cs\<rparr>)"
    "length (written (r_encoder r2)) \<le> length (written (r_encoder r1)) + calls_room cs"
    using Cons.prems(2) by auto
  then show ?case using r1(1) b by (simp add: calls_room_def)
qed simp

lemma selection_written:
  assumes "writes_selections sel" "reverser_rel r v" "is_select c" "call_ok c"
    "length (written (r_encoder r)) + entry_room (Call c) \<le> size_max"
  shows "\<exists>e. sel c (r_encoder r) = Some e \<and> encoder_ok e \<and> written e = written (r_encoder r) @ call_bytes c"
  using assms by (auto simp: writes_selections_def reverser_rel_def entry_room_def)

lemma select_rel:
  assumes "writes_selections sel" "reverser_rel (sync r) v" "is_select c" "call_ok c"
    "length (written (r_encoder (sync r))) + entry_room (Call c) \<le> size_max"
    "\<And>r i. reverser_rel r v \<Longrightarrow> shows_call (r_encoder r) i c \<Longrightarrow> reverser_rel (set_pending i r) v' \<and> r_encoder (set_pending i r) = r_encoder r"
  shows "\<exists>r'. select_with sync set_pending sel c r = Some r' \<and> reverser_rel r' v' \<and>
    written (r_encoder r') = written (r_encoder (sync r)) @ call_bytes c"
proof -
  obtain e where e: "sel c (r_encoder (sync r)) = Some e" "encoder_ok e"
    "written e = written (r_encoder (sync r)) @ call_bytes c"
    using selection_written [OF assms(1-5)] by blast
  let ?r = "(sync r)\<lparr>r_encoder := e, r_current_instr_start := e_begin e\<rparr>"
  have "reverser_rel ?r v" "shows_call (r_encoder ?r) (r_current_instr_start (sync r), e_begin e) c"
    using rel_written [OF assms(2) e(2,3)] by simp_all
  from assms(6) [OF this] show ?thesis using e(1,3)
    by (simp add: select_with_def get_inst_def transact_log_size_def Let_def)
qed

lemma reverse_call_plain:
  "\<not> is_select c \<Longrightarrow> reverse_call junk sel c r =
     foldM (emit junk sel) (inverse_calls c) (if is_group_level c then sync_table r else r)"
  by (cases c) simp_all

lemma rv_call_plain:
  "\<not> is_select c \<Longrightarrow> rv_call c v =
     (let v = (if is_group_level c then rv_sync_table v else v) in v\<lparr>rv_out := rv_out v @ inverse_calls c\<rparr>)"
  by (cases c) simp_all

lemma reverse_call_rel:
  assumes "writes_selections sel" "reverser_rel r v" "list_all (\<lambda>c. call_ok c \<and> writable c) (rev_written c)"
    "length (written (r_encoder r)) + calls_room (rev_written c) \<le> size_max"
  shows "\<exists>r'. reverse_call junk sel c r = Some r' \<and> reverser_rel r' (rv_call c v) \<and>
    length (written (r_encoder r')) \<le> length (written (r_encoder r)) + calls_room (rev_written c)"
proof (cases "is_select c")
  case True
  then have c: "call_ok c" "writable c" "length (written (r_encoder r)) + entry_room (Call c) \<le> size_max"
    using assms(3,4) by (simp_all add: rev_written_def calls_room_def)
  have b: "length (call_bytes c) \<le> calls_room (rev_written c)"
    using call_room_bound [OF c(1,2)] True by (simp add: rev_written_def calls_room_def)
  have "\<exists>r'. reverse_call junk sel c r = Some r' \<and> reverser_rel r' (rv_call c v) \<and>
    written (r_encoder r') = written (r_encoder r) @ call_bytes c"
  proof (cases c)
    case (Select_table g path)
    show ?thesis unfolding Select_table reverse_call.simps rv_call.simps
      by (rule select_rel [where sync = sync_table, OF assms(1) sync_table_rel [OF assms(2)], simplified])
        (use True c Select_table in \<open>simp_all add: reverser_rel_def shows_pending_def\<close>)
  next
    case (Select_descriptor path)
    show ?thesis unfolding Select_descriptor reverse_call.simps rv_call.simps
      by (rule select_rel [where sync = sync_descriptor, OF assms(1) sync_descriptor_rel [OF assms(2)], simplified])
        (use True c Select_descriptor in \<open>simp_all add: reverser_rel_def shows_pending_def\<close>)
  next
    case (Select_link_list col row g)
    show ?thesis unfolding Select_link_list reverse_call.simps rv_call.simps
      by (rule select_rel [where sync = sync_linkview, OF assms(1) sync_linkview_rel [OF assms(2)], simplified])
        (use True c Select_link_list in \<open>simp_all add: reverser_rel_def shows_pending_def\<close>)
  qed (use True in simp_all)
  then show ?thesis using b by fastforce
next
  case False
  let ?r = "if is_group_level c then sync_table r else r"
  let ?v = "if is_group_level c then rv_sync_table v else v"
  have rel: "reverser_rel ?r ?v" and enc: "r_encoder ?r = r_encoder r" using assms(2) sync_table_rel by simp_all
  from emits_rel [OF assms(1) rel, of "inverse_calls c" junk, unfolded enc] False assms(3,4)
  have "\<exists>r'. foldM (emit junk sel) (inverse_calls c) ?r = Some r' \<and>
      reverser_rel r' (?v\<lparr>rv_out := rv_out ?v @ inverse_calls c\<rparr>) \<and>
      length (written (r_encoder r')) \<le> length (written (r_encoder r)) + calls_room (rev_written c)"
    by (simp add: rev_written_def split del: if_split)
  then show ?thesis unfolding reverse_call_plain [OF False] rv_call_plain [OF False] Let_def .
qed

lemma reverse_calls_rel:
  assumes "writes_selections sel"
  shows "reverser_rel r v \<Longrightarrow> list_all (\<lambda>c. call_ok c \<and> writable c) (concat (map rev_written cs)) \<Longrightarrow>
    length (written (r_encoder r)) + calls_room (concat (map rev_written cs)) \<le> size_max \<Longrightarrow>
    \<exists>r'. foldM (reverse_call junk sel) cs r = Some r' \<and> reverser_rel r' (fold rv_call cs v)"
proof (induction cs arbitrary: r v)
  case (Cons c cs)
  have split: "calls_room (concat (map rev_written (c # cs))) =
      calls_room (rev_written c) + calls_room (concat (map rev_written cs))" by (simp add: calls_room_def)
  obtain r1 where r1: "reverse_call junk sel c r = Some r1" "reverser_rel r1 (rv_call c v)"
    "length (written (r_encoder r1)) \<le> length (written (r_encoder r)) + calls_room (rev_written c)"
    using reverse_call_rel [OF assms Cons.prems(1), of c junk] Cons.prems(2,3) unfolding split by auto
  have "length (written (r_encoder r1)) + calls_room (concat (map rev_written cs)) \<le> size_max"
    using r1(3) Cons.prems(3) unfolding split by simp
  from Cons.IH [OF r1(2) _ this] show ?case using Cons.prems(2) r1(1) by simp
qed simp

subsection \<open>The reversed stream\<close>

lemma range_bytes_take: "snd i \<le> n \<Longrightarrow> range_bytes (take n xs) i = range_bytes xs i"
  by (simp add: range_bytes_def drop_take min_absorb1)

lemma reversed_stream_shows:
  assumes "reverser_rel r v"
  shows "rs_ok (reversed_stream_init r)"
    "rs_content (reversed_stream_init r) = concat (map call_bytes (rev (rv_out (rv_sync_table v))))"
proof -
  let ?s = "sync_table r" let ?e = "r_encoder r"
  have rel: "list_all2 (shows_call ?e) (r_instructions ?s) (rv_out (rv_sync_table v))" "encoder_ok ?e"
    using sync_table_rel [OF assms] by (auto simp: reverser_rel_def)
  have buf: "range_bytes (e_data ?e) i = call_bytes c \<and> fst i < snd i \<and> snd i \<le> length (e_data ?e)"
    if "shows_call ?e i c" for i c
  proof -
    have i: "fst i < snd i" "snd i \<le> e_begin ?e" "e_begin ?e \<le> length (e_data ?e)"
      "range_bytes (take (e_begin ?e) (e_data ?e)) i = call_bytes c"
      using that rel(2) by (auto simp: shows_call_def encoder_ok_def written_def)
    then show ?thesis using range_bytes_take [OF i(2), of "e_data ?e"] by simp
  qed
  have "\<forall>i \<in> set (r_instructions ?s). \<exists>c. shows_call ?e i c"
    using rel(1) by (metis list_all2_conv_all_nth in_set_conv_nth)
  then have "\<forall>i \<in> set (r_instructions ?s). fst i < snd i \<and> snd i \<le> length (e_data ?e)" using buf by blast
  then show "rs_ok (reversed_stream_init r)" by (simp add: rs_ok_def reversed_stream_init_def Let_def)
  have "list_all2 (\<lambda>i c. range_bytes (e_data ?e) i = call_bytes c) (r_instructions ?s) (rv_out (rv_sync_table v))"
    using rel(1) by (rule list_all2_mono) (use buf in blast)
  then have "map (range_bytes (e_data ?e)) (r_instructions ?s) = map call_bytes (rv_out (rv_sync_table v))"
    by (induction rule: list_all2_induct) simp_all
  then show "rs_content (reversed_stream_init r) = concat (map call_bytes (rev (rv_out (rv_sync_table v))))"
    by (simp add: rs_content_def reversed_stream_init_def Let_def flip: rev_map)
qed

lemma rv_call_calls:
  "set (rv_out (rv_sync_table (rv_call c v))) \<subseteq> set (rv_out (rv_sync_table v)) \<union> set (rev_written c)"
  by (cases c) (auto simp: rv_sync_table_def rv_sync_descriptor_def rv_sync_linkview_def rev_written_def Let_def)

lemma rv_calls:
  "set (rv_out (rv_sync_table (fold rv_call cs v))) \<subseteq> set (rv_out (rv_sync_table v)) \<union> set (concat (map rev_written cs))"
proof (induction cs arbitrary: v)
  case (Cons c cs)
  then show ?case using rv_call_calls [of c v] by fastforce
qed simp

lemma reversed_log_calls: "set (reversed_log cs) \<subseteq> set (concat (map rev_written cs))"
  using rv_calls [of cs rv_init] by (simp add: reversed_log_def rv_init_def rv_sync_table_def)

lemma reverser_init_rel: "reverser_rel reverser_init rv_init"
  by (simp add: reverser_rel_def reverser_init_def rv_init_def)

lemma reverse_parse:
  assumes "writes_selections sel" "list_all (\<lambda>c. call_ok c \<and> writable c) (concat (map rev_written cs))"
    "calls_room (concat (map rev_written cs)) \<le> size_max"
  shows "\<exists>r. foldM (reverse_call junk sel) cs reverser_init = Some r \<and>
    parse reversed_next_block h st (reversed_stream_init r) = foldM h (reversed_log cs) st"
proof -
  obtain r where r: "foldM (reverse_call junk sel) cs reverser_init = Some r" "reverser_rel r (fold rv_call cs rv_init)"
    using reverse_calls_rel [OF assms(1) reverser_init_rel assms(2), of junk] assms(3)
    by (auto simp: reverser_init_def)
  let ?es = "map Call (reversed_log cs)"
  have "list_all entry_ok ?es" using assms(2) reversed_log_calls [of cs] by (auto simp: list_all_iff)
  moreover have "log_bytes ?es = concat (map call_bytes (reversed_log cs))" "log_calls ?es = reversed_log cs"
    by (simp_all add: log_bytes_def log_calls_def comp_def)
  ultimately show ?thesis using r reversed.parse_log [of ?es "reversed_stream_init r" h st] reversed_stream_shows [OF r(2)]
    by (simp add: reversed_log_def)
qed

end
