(* ===== verification/Log_Selections.thy ===== *)
theory Log_Selections
  imports Log_Reversal
begin

text \<open>
  The meaning of the selections in a reversed log.  Every instruction acts on what is selected when it is
  reached: a table, a descriptor of it, or a link list.  A log in which each instruction has what it needs
  selected is reversed into the inverse instructions, in reverse order, each with the same selection.
\<close>

subsection \<open>Selections\<close>

record selection =
  cx_ts :: "call option"
  cx_ds :: "call option"
  cx_lv :: "call option"

definition no_selection :: selection where
  "no_selection = \<lparr>cx_ts = None, cx_ds = None, cx_lv = None\<rparr>"

text \<open>
  Selecting a table deselects the descriptor and the list, selecting a descriptor deselects the list
  (as \<open>TransactLogConvenientEncoder\<close> does), and group-level instructions deselect everything.
\<close>

fun select_step :: "call \<Rightarrow> selection \<Rightarrow> selection" where
  "select_step (Select_table g path) x = \<lparr>cx_ts = Some (Select_table g path), cx_ds = None, cx_lv = None\<rparr>"
| "select_step (Select_descriptor path) x = x\<lparr>cx_ds := Some (Select_descriptor path), cx_lv := None\<rparr>"
| "select_step (Select_link_list c r g) x = x\<lparr>cx_lv := Some (Select_link_list c r g)\<rparr>"
| "select_step c x = (if is_group_level c then no_selection else x)"

datatype level = Group_level | Row_level | Column_level | List_level

fun call_level :: "call \<Rightarrow> level" where
  "call_level (Insert_group_level_table _ _ _) = Group_level"
| "call_level (Erase_group_level_table _ _) = Group_level"
| "call_level (Rename_group_level_table _ _) = Group_level"
| "call_level (Insert_link_column _ _ _ _ _) = Column_level"
| "call_level (Insert_column _ _ _ _) = Column_level"
| "call_level (Erase_link_column _ _ _) = Column_level"
| "call_level (Erase_column _) = Column_level"
| "call_level (Rename_column _ _) = Column_level"
| "call_level (Add_search_index _) = Column_level"
| "call_level (Remove_search_index _) = Column_level"
| "call_level (Set_link_type _ _) = Column_level"
| "call_level (Link_list_set _ _ _) = List_level"
| "call_level (Link_list_insert _ _ _) = List_level"
| "call_level (Link_list_move _ _) = List_level"
| "call_level (Link_list_swap _ _) = List_level"
| "call_level (Link_list_erase _ _) = List_level"
| "call_level (Link_list_nullify _ _) = List_level"
| "call_level (Link_list_clear _) = List_level"
| "call_level _ = Row_level"

definition scope :: "call \<Rightarrow> selection \<Rightarrow> call option list" where
  "scope c x = (case call_level c of
     Group_level \<Rightarrow> [] | Row_level \<Rightarrow> [cx_ts x] | Column_level \<Rightarrow> [cx_ts x, cx_ds x] | List_level \<Rightarrow> [cx_ts x, cx_lv x])"

fun scoped :: "selection \<Rightarrow> call list \<Rightarrow> (call option list \<times> call) list" where
  "scoped x [] = []"
| "scoped x (c # cs) = (if is_select c then [] else [(scope c x, c)]) @ scoped (select_step c x) cs"

fun well_selected :: "selection \<Rightarrow> call list \<Rightarrow> bool" where
  "well_selected x [] = True"
| "well_selected x (c # cs) = ((is_select c \<or> None \<notin> set (scope c x)) \<and> well_selected (select_step c x) cs)"

definition inverse_scoped :: "(call option list \<times> call) list \<Rightarrow> (call option list \<times> call) list" where
  "inverse_scoped xs = rev (concat (map (\<lambda>(s, c). map (Pair s) (inverse_calls c)) xs))"

subsection \<open>Levels of the inverse instructions\<close>

lemma clear_inserts_level: "d \<in> set (clear_inserts i n) \<Longrightarrow> call_level d = List_level \<and> \<not> is_select d \<and> \<not> is_group_level d"
  by (induction i) auto

lemma inverse_level:
  assumes "d \<in> set (inverse_calls c)" "\<not> is_select c"
  shows "call_level d = call_level c \<and> \<not> is_select d \<and> is_group_level d = is_group_level c"
  using assms clear_inserts_level by (cases c) (fastforce simp: inverse_calls_def)+

lemma plain_selection: "\<not> is_select c \<Longrightarrow> select_step c x = (if is_group_level c then no_selection else x)"
  by (cases c) simp_all

lemma group_level: "is_group_level c \<Longrightarrow> call_level c = Group_level \<and> \<not> is_select c"
  by (cases c) simp_all

lemma scoped_append: "scoped x (cs @ ds) = scoped x cs @ scoped (fold select_step cs x) ds"
  by (induction cs arbitrary: x) simp_all

lemma well_selected_append:
  "well_selected x (cs @ ds) \<longleftrightarrow> well_selected x cs \<and> well_selected (fold select_step cs x) ds"
  by (induction cs arbitrary: x) simp_all

lemma plain_calls:
  assumes "\<forall>d \<in> set ds. call_level d = l \<and> \<not> is_select d \<and> \<not> is_group_level d"
  shows "fold select_step ds x = x" "scoped x ds = map (\<lambda>d. (scope d x, d)) ds"
  using assms by (induction ds) (simp_all add: plain_selection)

lemma group_calls:
  assumes "\<forall>d \<in> set ds. is_group_level d"
  shows "scoped x ds = map (Pair []) ds"
  using assms by (induction ds arbitrary: x) (simp_all add: group_level scope_def)

subsection \<open>The invariant of the reversal\<close>

definition covers :: "selection \<Rightarrow> selection \<Rightarrow> bool" where
  "covers y x \<longleftrightarrow> (cx_ts x = None \<or> cx_ts y = cx_ts x) \<and> (cx_ds x = None \<or> cx_ds y = cx_ds x) \<and>
     (cx_lv x = None \<or> cx_lv y = cx_lv x)"

definition proper :: "selection \<Rightarrow> bool" where
  "proper x \<longleftrightarrow> (\<forall>c. cx_ts x = Some c \<longrightarrow> (\<exists>g p. c = Select_table g p)) \<and>
     (\<forall>c. cx_ds x = Some c \<longrightarrow> (\<exists>p. c = Select_descriptor p)) \<and>
     (\<forall>c. cx_lv x = Some c \<longrightarrow> (\<exists>a r g. c = Select_link_list a r g))"

definition selection_of :: "reversal \<Rightarrow> selection" where
  "selection_of v = \<lparr>cx_ts = rv_ts v, cx_ds = rv_ds v, cx_lv = rv_lv v\<rparr>"

lemma selection_of_call: "selection_of (rv_call c v) = select_step c (selection_of v)"
  by (cases c) (simp_all add: selection_of_def no_selection_def rv_sync_table_def rv_sync_descriptor_def rv_sync_linkview_def)

lemma proper_step: "proper x \<Longrightarrow> proper (select_step c x)"
  by (cases c) (auto simp: proper_def no_selection_def)

lemma covers_scope: "covers y x \<Longrightarrow> None \<notin> set (scope c x) \<Longrightarrow> scope c y = scope c x"
  by (auto simp: scope_def covers_def split: level.splits)

lemma reselect:
  assumes "proper x"
  shows "covers (fold select_step (pending (cx_ts x) @ pending (cx_ds x) @ pending (cx_lv x)) y) x"
    "scoped y (pending (cx_ts x) @ pending (cx_ds x) @ pending (cx_lv x)) = []"
    "cx_ts x = None \<or> cx_ts y = cx_ts x \<Longrightarrow> covers (fold select_step (pending (cx_ds x) @ pending (cx_lv x)) y) x"
    "scoped y (pending (cx_ds x) @ pending (cx_lv x)) = []"
    "covers y (x\<lparr>cx_lv := None\<rparr>) \<Longrightarrow> covers (fold select_step (pending (cx_lv x)) y) x"
    "scoped y (pending (cx_lv x)) = []"
  using assms by (auto simp: proper_def covers_def pending_def split: option.splits)

definition reversal_ok :: "reversal \<Rightarrow> (call option list \<times> call) list \<Rightarrow> bool" where
  "reversal_ok v xs \<longleftrightarrow> proper (selection_of v) \<and>
     (\<forall>y. covers y (selection_of v) \<longrightarrow> scoped y (rev (rv_out v)) = inverse_scoped xs)"

lemma reversal_ok_select:
  assumes "reversal_ok v xs" "is_select c"
  shows "reversal_ok (rv_call c v) xs"
proof -
  let ?x = "selection_of v"
  have p: "proper ?x" and out: "\<And>y. covers y ?x \<Longrightarrow> scoped y (rev (rv_out v)) = inverse_scoped xs"
    using assms(1) by (auto simp: reversal_ok_def)
  have "scoped y (rev (rv_out (rv_call c v))) = inverse_scoped xs" if y: "covers y (selection_of (rv_call c v))" for y
  proof (cases c)
    case (Select_table g path)
    then have "rev (rv_out (rv_call c v)) = (pending (cx_ts ?x) @ pending (cx_ds ?x) @ pending (cx_lv ?x)) @ rev (rv_out v)"
      by (simp add: rv_sync_table_def selection_of_def pending_def split: option.splits)
    then show ?thesis using reselect(1,2) [OF p, of y] out by (simp add: scoped_append)
  next
    case (Select_descriptor path)
    then have "rev (rv_out (rv_call c v)) = (pending (cx_ds ?x) @ pending (cx_lv ?x)) @ rev (rv_out v)"
      by (simp add: rv_sync_descriptor_def selection_of_def pending_def split: option.splits)
    moreover have "cx_ts ?x = None \<or> cx_ts y = cx_ts ?x"
      using y [unfolded selection_of_call] Select_descriptor by (simp add: covers_def)
    ultimately show ?thesis using reselect(3,4) [OF p, of y] out by (simp add: scoped_append)
  next
    case (Select_link_list a r g)
    then have "rev (rv_out (rv_call c v)) = pending (cx_lv ?x) @ rev (rv_out v)"
      by (simp add: rv_sync_linkview_def selection_of_def pending_def split: option.splits)
    moreover have "covers y (?x\<lparr>cx_lv := None\<rparr>)"
      using y [unfolded selection_of_call] Select_link_list by (simp add: covers_def)
    ultimately show ?thesis using reselect(5,6) [OF p, of y] out by (simp add: scoped_append)
  qed (use assms(2) in simp_all)
  then show ?thesis using proper_step [OF p, of c] by (simp add: reversal_ok_def selection_of_call)
qed

lemma inverse_scoped_snoc: "inverse_scoped (xs @ [(s, c)]) = rev (map (Pair s) (inverse_calls c)) @ inverse_scoped xs"
  by (simp add: inverse_scoped_def)

lemma reversal_ok_plain:
  assumes "reversal_ok v xs" "\<not> is_select c" "None \<notin> set (scope c (selection_of v))"
  shows "reversal_ok (rv_call c v) (xs @ [(scope c (selection_of v), c)])"
proof -
  let ?x = "selection_of v"
  have p: "proper ?x" and out: "\<And>y. covers y ?x \<Longrightarrow> scoped y (rev (rv_out v)) = inverse_scoped xs"
    using assms(1) by (auto simp: reversal_ok_def)
  have lev: "\<forall>d \<in> set (rev (inverse_calls c)). call_level d = call_level c \<and> \<not> is_select d \<and> is_group_level d = is_group_level c"
    using inverse_level assms(2) by auto
  have "scoped y (rev (rv_out (rv_call c v))) = inverse_scoped (xs @ [(scope c ?x, c)])"
    if y: "covers y (selection_of (rv_call c v))" for y
  proof (cases "is_group_level c")
    case True
    then have "rev (rv_out (rv_call c v)) = rev (inverse_calls c) @
        (pending (cx_ts ?x) @ pending (cx_ds ?x) @ pending (cx_lv ?x)) @ rev (rv_out v)"
      using assms(2) by (simp add: rv_call_plain rv_sync_table_def selection_of_def pending_def split: option.splits)
    moreover have "scoped y (rev (inverse_calls c)) = map (Pair []) (rev (inverse_calls c))"
      using lev True by (intro group_calls) simp
    moreover have "scope c ?x = []" using True group_level by (simp add: scope_def)
    ultimately show ?thesis using reselect(1,2) [OF p] out by (simp add: scoped_append inverse_scoped_snoc rev_map)
  next
    case False
    then have "rev (rv_out (rv_call c v)) = rev (inverse_calls c) @ rev (rv_out v)" "covers y ?x"
      using assms(2) y [unfolded selection_of_call] by (simp_all add: rv_call_plain plain_selection)
    moreover have d: "\<forall>d \<in> set (rev (inverse_calls c)). call_level d = call_level c \<and> \<not> is_select d \<and> \<not> is_group_level d"
      using lev False by simp
    moreover have "scope d y = scope c ?x" if "d \<in> set (inverse_calls c)" for d
      using covers_scope [OF calculation(2) assms(3)] lev that by (simp add: scope_def)
    ultimately show ?thesis using plain_calls [OF d, of y] out by (simp add: scoped_append inverse_scoped_snoc rev_map)
  qed
  then show ?thesis using proper_step [OF p, of c] by (simp add: reversal_ok_def selection_of_call)
qed

lemma reversal_ok_fold:
  "reversal_ok v xs \<Longrightarrow> well_selected (selection_of v) cs \<Longrightarrow> reversal_ok (fold rv_call cs v) (xs @ scoped (selection_of v) cs)"
proof (induction cs arbitrary: v xs)
  case (Cons c cs)
  show ?case
  proof (cases "is_select c")
    case True
    then show ?thesis using Cons.IH [OF reversal_ok_select [OF Cons.prems(1) True]] Cons.prems(2)
      by (simp add: selection_of_call)
  next
    case False
    then have s: "None \<notin> set (scope c (selection_of v))" using Cons.prems(2) by simp
    show ?thesis using Cons.IH [OF reversal_ok_plain [OF Cons.prems(1) False s]] Cons.prems(2) False
      by (simp add: selection_of_call)
  qed
qed simp

lemma reversed_selections:
  assumes "well_selected no_selection cs"
  shows "scoped no_selection (reversed_log cs) = inverse_scoped (scoped no_selection cs)"
proof -
  let ?v = "fold rv_call cs rv_init"
  have init: "selection_of rv_init = no_selection" by (simp add: selection_of_def rv_init_def no_selection_def)
  have "reversal_ok rv_init []"
    unfolding reversal_ok_def init by (simp add: rv_init_def inverse_scoped_def proper_def no_selection_def)
  from reversal_ok_fold [OF this, of cs] assms have ok: "reversal_ok ?v (scoped no_selection cs)" by (simp add: init)
  have "reversed_log cs = (pending (cx_ts (selection_of ?v)) @ pending (cx_ds (selection_of ?v)) @
      pending (cx_lv (selection_of ?v))) @ rev (rv_out ?v)"
    by (simp add: reversed_log_def rv_sync_table_def selection_of_def pending_def split: option.splits)
  then show ?thesis using ok reselect(1,2) [of "selection_of ?v" no_selection]
    by (simp add: reversal_ok_def scoped_append)
qed

subsection \<open>Sizes\<close>

text \<open>
  The number of rows of a table, or of links in a list, across an instruction; \<open>None\<close> when the prior size
  the instruction carries is not the actual one or a position is out of range.
\<close>

fun size_after :: "call \<Rightarrow> int \<Rightarrow> int option" where
  "size_after (Insert_empty_rows r n k u) s = (if k = s \<and> 0 \<le> n \<and> r \<le> s then Some (s + n) else None)"
| "size_after (Erase_rows r n k u) s = (if k = s \<and> 0 \<le> n \<and> r + n \<le> s then Some (s - n) else None)"
| "size_after (Add_row_with_key r n c k) s = (if n = s \<and> r \<le> s then Some (s + 1) else None)"
| "size_after (Clear_table n) s = (if n = s then Some 0 else None)"
| "size_after (Swap_rows a b) s = (if a < s \<and> b < s then Some s else None)"
| "size_after (Move_row a b) s = (if a < s \<and> b < s then Some s else None)"
| "size_after (Merge_rows a b) s = (if a < s \<and> b < s then Some s else None)"
| "size_after (Link_list_set a v n) s = (if n = s \<and> a < s then Some s else None)"
| "size_after (Link_list_insert a v n) s = (if n = s \<and> a \<le> s then Some (s + 1) else None)"
| "size_after (Link_list_erase a n) s = (if n = s \<and> a < s then Some (s - 1) else None)"
| "size_after (Link_list_nullify a n) s = (if n = s \<and> a < s then Some (s - 1) else None)"
| "size_after (Link_list_clear n) s = (if n = s then Some 0 else None)"
| "size_after (Link_list_move a b) s = (if a < s \<and> b < s then Some s else None)"
| "size_after (Link_list_swap a b) s = (if a < s \<and> b < s then Some s else None)"
| "size_after _ s = Some s"

lemma inverse_sizes:
  assumes "size_after c s = Some s'" "in_range t_size s" "in_range t_size s'" "\<forall>n. c \<noteq> Link_list_clear n"
  shows "foldM size_after (rev (inverse_calls c)) s' = Some s"
proof -
  have cast: "int_cast t_size s = s" "int_cast t_size s' = s'" "0 \<le> s" "0 \<le> s'"
    using assms(2,3) by (simp_all add: int_cast_id in_range_unsigned t_size_def)
  show ?thesis using assms(1,4) cast by (cases c) (auto simp: inverse_calls_def split: if_splits)
qed

lemma clear_inserts_first:
  "\<exists>ds. rev (clear_inserts (Suc i) n) = Link_list_insert 0 0 (int_cast t_size (n - 1)) # ds"
proof (induction i)
  case (Suc i)
  then obtain ds where "rev (clear_inserts (Suc i) n) = Link_list_insert 0 0 (int_cast t_size (n - 1)) # ds" by blast
  then show ?case unfolding clear_inserts.simps(2) [of "Suc i"] by simp
qed simp

text \<open>Clearing a list of two or more links is undone by insertions whose prior sizes run backwards.\<close>

lemma reversed_clear_sizes:
  assumes "2 \<le> n" "in_range t_size n"
  shows "size_after (Link_list_clear n) n = Some 0 \<and> foldM size_after (rev (inverse_calls (Link_list_clear n))) 0 = None"
proof -
  obtain i where i: "nat n = Suc i" using assms(1) by (cases "nat n") auto
  obtain ds where "rev (clear_inserts (Suc i) n) = Link_list_insert 0 0 (int_cast t_size (n - 1)) # ds"
    using clear_inserts_first by blast
  moreover have "int_cast t_size (n - 1) = n - 1"
    using assms by (intro int_cast_id) (simp add: in_range_unsigned t_size_def)
  ultimately show ?thesis using assms(1) i by (simp add: inverse_calls_def)
qed

subsection \<open>Orders\<close>

definition move_elem :: "nat \<Rightarrow> nat \<Rightarrow> 'a list \<Rightarrow> 'a list" where
  "move_elem i j xs = (let ys = take i xs @ drop (Suc i) xs in take j ys @ xs ! i # drop j ys)"

definition swap_elems :: "nat \<Rightarrow> nat \<Rightarrow> 'a list \<Rightarrow> 'a list" where
  "swap_elems i j xs = xs[i := xs ! j, j := xs ! i]"

fun order_after :: "call \<Rightarrow> 'a list \<Rightarrow> 'a list" where
  "order_after (Move_row a b) xs = move_elem (nat a) (nat b) xs"
| "order_after (Swap_rows a b) xs = swap_elems (nat a) (nat b) xs"
| "order_after (Link_list_move a b) xs = move_elem (nat a) (nat b) xs"
| "order_after (Link_list_swap a b) xs = swap_elems (nat a) (nat b) xs"
| "order_after _ xs = xs"

lemma move_elem_inverse:
  assumes "i < length xs" "j < length xs"
  shows "move_elem j i (move_elem i j xs) = xs"
proof -
  define ys where "ys = take i xs @ drop (Suc i) xs"
  define zs where "zs = take j ys @ xs ! i # drop j ys"
  have "j \<le> length ys" using assms by (simp add: ys_def)
  then have "zs ! j = xs ! i" "take j zs @ drop (Suc j) zs = ys" by (simp_all add: zs_def nth_append)
  then have "move_elem j i zs = take i ys @ xs ! i # drop i ys" by (simp add: move_elem_def Let_def)
  also have "\<dots> = xs" using assms(1) by (simp add: ys_def id_take_nth_drop [symmetric])
  finally show ?thesis by (simp add: move_elem_def [of i j] Let_def zs_def ys_def)
qed

lemma swap_elems_inverse: "i < length xs \<Longrightarrow> j < length xs \<Longrightarrow> swap_elems i j (swap_elems i j xs) = xs"
  by (cases "i = j") (auto simp: swap_elems_def list_update_swap nth_list_update intro!: nth_equalityI)

text \<open>Moves and swaps of rows and swaps of links are undone; a move of a link is repeated instead.\<close>

lemma reversed_orders:
  assumes "a < length xs" "b < length xs"
  shows "fold order_after (rev (inverse_calls (Move_row (int a) (int b)))) (order_after (Move_row (int a) (int b)) xs) = xs"
    "fold order_after (rev (inverse_calls (Swap_rows (int a) (int b)))) (order_after (Swap_rows (int a) (int b)) xs) = xs"
    "fold order_after (rev (inverse_calls (Link_list_swap (int a) (int b)))) (order_after (Link_list_swap (int a) (int b)) xs) = xs"
  using move_elem_inverse [OF assms] swap_elems_inverse [OF assms] by (simp_all add: inverse_calls_def)

lemma reversed_link_move:
  "fold order_after (rev (inverse_calls (Link_list_move 0 2))) (order_after (Link_list_move 0 2) [x, y, z]) = [z, x, y]"
  by (simp add: inverse_calls_def move_elem_def eval_nat_numeral)

end
