(* ===== verification/Log_Undo.thy ===== *)
theory Log_Undo
  imports Log_Selections
begin

text \<open>
  What it means to undo an instruction, stated without the table of inverses: what the instruction and its inverse
  do to the tables of the group, the columns of a descriptor, the rows of a table or the links of a list, which cells
  they write and which tables they name.  The reverser writes, for every instruction that it reverses at all,
  instructions that undo it.
\<close>

subsection \<open>Things and their places\<close>

text \<open>
  The tables, columns, rows or links that the instruction finds, in order; \<open>None\<close> is a new one or one whose content
  is not known.  The result is \<open>None\<close> if a prior size is not the real one or a position is out of range.
\<close>

definition new_at :: "nat \<Rightarrow> nat \<Rightarrow> 'a option list \<Rightarrow> 'a option list" where
  "new_at i n xs = take i xs @ replicate n None @ drop i xs"

definition gone_at :: "nat \<Rightarrow> nat \<Rightarrow> 'a list \<Rightarrow> 'a list" where
  "gone_at i n xs = take i xs @ drop (i + n) xs"

text \<open>In an unordered table a new row sends the one it replaces to the end, and an erased row is replaced by the last.\<close>

definition new_over :: "nat \<Rightarrow> 'a option list \<Rightarrow> 'a option list" where
  "new_over i xs = (if i < length xs then xs[i := None] @ [xs ! i] else xs @ [None])"

definition last_over :: "nat \<Rightarrow> 'a list \<Rightarrow> 'a list" where
  "last_over i xs = butlast (xs[i := last xs])"

definition guarded :: "bool \<Rightarrow> 'a \<Rightarrow> 'a option" where
  "guarded b x = (if b then Some x else None)"

fun content_after :: "call \<Rightarrow> 'a option list \<Rightarrow> 'a option list option" where
  "content_after (Insert_group_level_table t n _) xs =
     guarded (n = int (length xs) \<and> 0 \<le> t \<and> t \<le> n) (new_at (nat t) 1 xs)"
| "content_after (Erase_group_level_table t n) xs = guarded (n = int (length xs) \<and> 0 \<le> t \<and> t < n) (gone_at (nat t) 1 xs)"
| "content_after (Insert_column c _ _ _) xs = guarded (0 \<le> c \<and> c \<le> int (length xs)) (new_at (nat c) 1 xs)"
| "content_after (Insert_link_column c _ _ _ _) xs = guarded (0 \<le> c \<and> c \<le> int (length xs)) (new_at (nat c) 1 xs)"
| "content_after (Erase_column c) xs = guarded (0 \<le> c \<and> c < int (length xs)) (gone_at (nat c) 1 xs)"
| "content_after (Erase_link_column c _ _) xs = guarded (0 \<le> c \<and> c < int (length xs)) (gone_at (nat c) 1 xs)"
| "content_after (Insert_empty_rows r n k unordered) xs =
     guarded (k = int (length xs) \<and> 0 \<le> r \<and> 0 \<le> n \<and> r \<le> k \<and> (unordered \<longrightarrow> n = 1))
       (if unordered then new_over (nat r) xs else new_at (nat r) (nat n) xs)"
| "content_after (Add_row_with_key r k _ _) xs = guarded (k = int (length xs) \<and> 0 \<le> r \<and> r \<le> k) (new_over (nat r) xs)"
| "content_after (Erase_rows r n k unordered) xs =
     guarded (k = int (length xs) \<and> 0 \<le> r \<and> 0 \<le> n \<and> r + n \<le> k \<and> (unordered \<longrightarrow> n = 1))
       (if unordered then last_over (nat r) xs else gone_at (nat r) (nat n) xs)"
| "content_after (Clear_table n) xs = guarded (n = int (length xs)) []"
| "content_after (Swap_rows a b) xs =
     guarded (0 \<le> a \<and> 0 \<le> b \<and> a < int (length xs) \<and> b < int (length xs)) (swap_elems (nat a) (nat b) xs)"
| "content_after (Move_row a b) xs =
     guarded (0 \<le> a \<and> 0 \<le> b \<and> a < int (length xs) \<and> b < int (length xs)) (move_elem (nat a) (nat b) xs)"
| "content_after (Link_list_set a _ n) xs = guarded (n = int (length xs) \<and> 0 \<le> a \<and> a < n) (xs[nat a := None])"
| "content_after (Link_list_insert a _ n) xs = guarded (n = int (length xs) \<and> 0 \<le> a \<and> a \<le> n) (new_at (nat a) 1 xs)"
| "content_after (Link_list_erase a n) xs = guarded (n = int (length xs) \<and> 0 \<le> a \<and> a < n) (gone_at (nat a) 1 xs)"
| "content_after (Link_list_nullify a n) xs = guarded (n = int (length xs) \<and> 0 \<le> a \<and> a < n) (gone_at (nat a) 1 xs)"
| "content_after (Link_list_clear n) xs = guarded (n = int (length xs)) []"
| "content_after (Link_list_move a b) xs =
     guarded (0 \<le> a \<and> 0 \<le> b \<and> a < int (length xs) \<and> b < int (length xs)) (move_elem (nat a) (nat b) xs)"
| "content_after (Link_list_swap a b) xs =
     guarded (0 \<le> a \<and> 0 \<le> b \<and> a < int (length xs) \<and> b < int (length xs)) (swap_elems (nat a) (nat b) xs)"
| "content_after _ xs = Some xs"

text \<open>Everything is back in its place, except what the instruction itself has lost.\<close>

definition restored :: "'a option list \<Rightarrow> 'a option list \<Rightarrow> bool" where
  "restored = list_all2 (\<lambda>x z. z = None \<or> z = x)"

subsection \<open>Cells and tables\<close>

text \<open>The cell (column and row) that an instruction writes, and the rows and links it names without moving any.\<close>

fun touched :: "call \<Rightarrow> (int option \<times> int) set" where
  "touched (Set_int c r _ _ _) = {(Some c, r)}"
| "touched (Add_int c r _) = {(Some c, r)}"
| "touched (Set_bool c r _ _) = {(Some c, r)}"
| "touched (Set_float c r _ _) = {(Some c, r)}"
| "touched (Set_double c r _ _) = {(Some c, r)}"
| "touched (Set_string c r _ _ _) = {(Some c, r)}"
| "touched (Set_binary c r _ _) = {(Some c, r)}"
| "touched (Set_olddatetime c r _ _) = {(Some c, r)}"
| "touched (Set_timestamp c r _ _) = {(Some c, r)}"
| "touched (Set_table c r _) = {(Some c, r)}"
| "touched (Set_mixed c r _ _) = {(Some c, r)}"
| "touched (Set_link c r _ _ _) = {(Some c, r)}"
| "touched (Set_null c r _ _) = {(Some c, r)}"
| "touched (Nullify_link c r _) = {(Some c, r)}"
| "touched (Insert_substring c r _ _) = {(Some c, r)}"
| "touched (Erase_substring c r _ _) = {(Some c, r)}"
| "touched (Merge_rows a b) = {(None, a), (None, b)}"
| "touched (Link_list_set a _ _) = {(None, a)}"
| "touched (Link_list_move a b) = {(None, a), (None, b)}"
| "touched _ = {}"

text \<open>The table a link or a link column points to, with the backlink column.\<close>

fun link_target :: "call \<Rightarrow> (int \<times> int option) set" where
  "link_target (Set_link _ _ _ g _) = {(g, None)}"
| "link_target (Nullify_link _ _ g) = {(g, None)}"
| "link_target (Insert_link_column _ _ _ g b) = {(g, Some b)}"
| "link_target (Erase_link_column _ g b) = {(g, Some b)}"
| "link_target _ = {}"

fun added :: "call \<Rightarrow> int" where
  "added (Add_int _ _ v) = v"
| "added _ = 0"

subsection \<open>Undoing\<close>

text \<open>Instructions the reverser leaves out: nothing undoes them.\<close>

fun left_out :: "call \<Rightarrow> bool" where
  "left_out (Rename_group_level_table _ _) = True"
| "left_out (Rename_column _ _) = True"
| "left_out (Insert_substring _ _ _ _) = True"
| "left_out (Erase_substring _ _ _ _) = True"
| "left_out Optimize_table = True"
| "left_out (Add_search_index _) = True"
| "left_out (Remove_search_index _) = True"
| "left_out (Set_link_type _ _) = True"
| "left_out _ = False"

text \<open>Link list moves and clears are the instructions whose inverse does not restore what they found.\<close>

fun unfaithful :: "call \<Rightarrow> bool" where
  "unfaithful (Link_list_move _ _) = True"
| "unfaithful (Link_list_clear _) = True"
| "unfaithful _ = False"

definition undoes :: "call \<Rightarrow> call list \<Rightarrow> bool" where
  "undoes c ds \<longleftrightarrow> (\<forall>d \<in> set ds. call_level d = call_level c) \<and> (left_out c \<longrightarrow> ds = []) \<and>
     \<Union> (touched ` set ds) = (if left_out c then {} else touched c) \<and> \<Union> (link_target ` set ds) = link_target c \<and>
     int_cast t_int64 (added c + sum_list (map added ds)) = 0 \<and>
     (\<not> unfaithful c \<longrightarrow> (\<forall>xs ys :: nat option list. length xs \<le> size_max \<longrightarrow> length ys \<le> size_max \<longrightarrow>
        content_after c xs = Some ys \<longrightarrow> (\<exists>zs. foldM content_after ds ys = Some zs \<and> restored xs zs))) \<and>
     (\<forall>n. c = Link_list_clear n \<longrightarrow> (\<exists>prior. ds = map (\<lambda>i. Link_list_insert (int i) 0 (prior i)) [0..<nat n]))"

lemma restored_refl [simp]: "restored xs xs"
  by (simp add: restored_def list_all2_refl)

lemma restored_nth:
  "restored xs zs \<longleftrightarrow> length xs = length zs \<and> (\<forall>i < length xs. zs ! i = None \<or> zs ! i = xs ! i)"
  by (simp add: restored_def list_all2_conv_all_nth)

lemma guarded_Some [simp]: "guarded b x = Some y \<longleftrightarrow> b \<and> x = y"
  by (simp add: guarded_def)

lemma length_new_at [simp]: "length (new_at i n xs) = length xs + n"
  by (simp add: new_at_def)

lemma length_gone_at [simp]: "i + n \<le> length xs \<Longrightarrow> length (gone_at i n xs) = length xs - n"
  by (simp add: gone_at_def)

lemma length_over [simp]: "length (new_over i xs) = length xs + 1" "length (last_over i xs) = length xs - 1"
  by (simp_all add: new_over_def last_over_def)

lemma gone_new: "i \<le> length xs \<Longrightarrow> gone_at i n (new_at i n xs) = xs"
  by (simp add: gone_at_def new_at_def)

lemma new_gone:
  assumes "i + n \<le> length xs"
  shows "restored xs (new_at i n (gone_at i n xs))"
  unfolding restored_nth
proof (intro conjI allI impI)
  show "length xs = length (new_at i n (gone_at i n xs))" using assms by simp
  fix j assume "j < length xs"
  then show "new_at i n (gone_at i n xs) ! j = None \<or> new_at i n (gone_at i n xs) ! j = xs ! j"
    using assms by (auto simp: new_at_def gone_at_def nth_append)
qed

lemma last_over_new_over: "i \<le> length xs \<Longrightarrow> last_over i (new_over i xs) = xs"
  by (auto simp: last_over_def new_over_def nth_append list_update_append butlast_append intro!: nth_equalityI)

lemma new_over_last_over:
  assumes "i < length xs"
  shows "restored xs (new_over i (last_over i xs))"
proof -
  obtain ys y where xs: "xs = ys @ [y]" using assms by (cases xs rule: rev_cases) auto
  show ?thesis
  proof (cases "i < length ys")
    case True
    then have "new_over i (last_over i xs) = (ys[i := None]) @ [y]"
      by (simp add: xs last_over_def new_over_def list_update_append)
    then show ?thesis by (simp add: xs restored_nth nth_append) (metis nth_list_update_eq nth_list_update_neq)
  next
    case False
    then have "i = length ys" using assms xs by simp
    then have "new_over i (last_over i xs) = ys @ [None]" by (simp add: xs last_over_def new_over_def)
    then show ?thesis by (simp add: xs restored_nth nth_append)
  qed
qed

lemma restored_set: "restored xs (xs[i := None])"
  unfolding restored_nth using nth_list_update [of i xs] by (cases "i < length xs") auto

lemma size_cast: "n \<le> size_max \<Longrightarrow> int_cast t_size (int n) = int n"
  by (rule int_cast_id) (simp add: size_in_range)

lemma clear_inserts_map: "rev (clear_inserts n k) = map (\<lambda>i. Link_list_insert (int i) 0 (int_cast t_size (k - int (Suc i)))) [0..<n]"
  by (induction n) simp_all

lemma move_swap_lengths [simp]: "i < length xs \<Longrightarrow> j < length xs \<Longrightarrow> length (move_elem i j xs) = length xs"
  "length (swap_elems i j xs) = length xs"
  by (simp_all add: move_elem_def swap_elems_def Let_def)

text \<open>One inverse instruction is enough if it fits what the instruction has left.\<close>

lemma undo_one:
  "inverse_calls c = [d] \<Longrightarrow> content_after d ys = Some zs \<Longrightarrow> restored xs zs \<Longrightarrow>
   \<exists>zs. foldM content_after (rev (inverse_calls c)) ys = Some zs \<and> restored xs zs"
  by simp

lemma undo_content:
  assumes "length xs \<le> size_max" "length ys \<le> size_max" "content_after c xs = Some ys" "\<not> unfaithful c"
  shows "\<exists>zs. foldM content_after (rev (inverse_calls c)) ys = Some zs \<and> restored xs zs"
proof -
  have cast: "int_cast t_size k = k" if "k = int (length ys)" for k
    using that size_cast [OF assms(2)] by simp
  show ?thesis
  proof (cases c)
    case (Insert_group_level_table t n s)
    have h: "n = int (length xs)" "0 \<le> t" "t \<le> n" "ys = new_at (nat t) 1 xs"
      using assms(3) by (simp_all add: Insert_group_level_table)
    show ?thesis by (rule undo_one [of c "Erase_group_level_table t (n + 1)" ys xs])
      (use h in \<open>simp_all add: Insert_group_level_table inverse_calls_def cast gone_new [of _ _ 1, simplified]\<close>)
  next
    case (Erase_group_level_table t n)
    have h: "n = int (length xs)" "0 \<le> t" "t < n" "ys = gone_at (nat t) 1 xs"
      using assms(3) by (simp_all add: Erase_group_level_table)
    show ?thesis by (rule undo_one [of c "Insert_group_level_table t (n - 1) []" ys "new_at (nat t) 1 ys"])
      (use h in \<open>simp_all add: Erase_group_level_table inverse_calls_def cast new_gone [of _ 1, simplified]\<close>)
  next
    case (Insert_column k t s n)
    have h: "0 \<le> k" "k \<le> int (length xs)" "ys = new_at (nat k) 1 xs" using assms(3) by (simp_all add: Insert_column)
    show ?thesis by (rule undo_one [of c "Erase_column k" ys xs])
      (use h in \<open>simp_all add: Insert_column inverse_calls_def gone_new [of _ _ 1, simplified]\<close>)
  next
    case (Insert_link_column k t s g b)
    have h: "0 \<le> k" "k \<le> int (length xs)" "ys = new_at (nat k) 1 xs" using assms(3) by (simp_all add: Insert_link_column)
    show ?thesis by (rule undo_one [of c "Erase_link_column k g b" ys xs])
      (use h in \<open>simp_all add: Insert_link_column inverse_calls_def gone_new [of _ _ 1, simplified]\<close>)
  next
    case (Erase_column k)
    have h: "0 \<le> k" "k < int (length xs)" "ys = gone_at (nat k) 1 xs" using assms(3) by (simp_all add: Erase_column)
    show ?thesis by (rule undo_one [of c "Insert_column k type_Int [] False" ys "new_at (nat k) 1 ys"])
      (use h in \<open>simp_all add: Erase_column inverse_calls_def new_gone [of _ 1, simplified]\<close>)
  next
    case (Erase_link_column k g b)
    have h: "0 \<le> k" "k < int (length xs)" "ys = gone_at (nat k) 1 xs" using assms(3) by (simp_all add: Erase_link_column)
    show ?thesis by (rule undo_one [of c "Insert_link_column k type_Link [] g b" ys "new_at (nat k) 1 ys"])
      (use h in \<open>simp_all add: Erase_link_column inverse_calls_def new_gone [of _ 1, simplified]\<close>)
  next
    case (Insert_empty_rows r n k u)
    have h: "k = int (length xs)" "0 \<le> r" "0 \<le> n" "r \<le> k" "u \<longrightarrow> n = 1"
      "ys = (if u then new_over (nat r) xs else new_at (nat r) (nat n) xs)"
      using assms(3) by (simp_all add: Insert_empty_rows)
    then have "k + n = int (length ys)" by auto
    then show ?thesis by (intro undo_one [of c "Erase_rows r n (k + n) u" ys xs])
      (use h in \<open>auto simp: Insert_empty_rows inverse_calls_def cast gone_new last_over_new_over\<close>)
  next
    case (Add_row_with_key r k col key)
    have h: "k = int (length xs)" "0 \<le> r" "r \<le> k" "ys = new_over (nat r) xs"
      using assms(3) by (simp_all add: Add_row_with_key)
    show ?thesis by (rule undo_one [of c "Erase_rows r 1 (k + 1) True" ys xs])
      (use h in \<open>simp_all add: Add_row_with_key inverse_calls_def cast last_over_new_over\<close>)
  next
    case (Erase_rows r n k u)
    have h: "k = int (length xs)" "0 \<le> r" "0 \<le> n" "r + n \<le> k" "u \<longrightarrow> n = 1"
      "ys = (if u then last_over (nat r) xs else gone_at (nat r) (nat n) xs)"
      using assms(3) by (simp_all add: Erase_rows)
    then have "k - n = int (length ys)" by auto
    then show ?thesis
      by (intro undo_one [of c "Insert_empty_rows r n (k - n) u" ys "if u then new_over (nat r) ys else new_at (nat r) (nat n) ys"])
        (use h in \<open>auto simp: Erase_rows inverse_calls_def cast new_gone new_over_last_over\<close>)
  next
    case (Clear_table n)
    have h: "n = int (length xs)" "ys = []" using assms(3) by (simp_all add: Clear_table)
    show ?thesis by (rule undo_one [of c "Insert_empty_rows 0 n 0 False" ys "replicate (length xs) None"])
      (use h in \<open>simp_all add: Clear_table inverse_calls_def new_at_def restored_nth\<close>)
  next
    case (Swap_rows a b)
    have h: "0 \<le> a" "0 \<le> b" "nat a < length xs" "nat b < length xs" "ys = swap_elems (nat a) (nat b) xs"
      using assms(3) by (auto simp: Swap_rows)
    show ?thesis by (rule undo_one [of c "Swap_rows a b" ys xs])
      (use h in \<open>auto simp: Swap_rows inverse_calls_def swap_elems_inverse\<close>)
  next
    case (Move_row a b)
    have h: "0 \<le> a" "0 \<le> b" "nat a < length xs" "nat b < length xs" "ys = move_elem (nat a) (nat b) xs"
      using assms(3) by (auto simp: Move_row)
    show ?thesis by (rule undo_one [of c "Move_row b a" ys xs])
      (use h in \<open>auto simp: Move_row inverse_calls_def move_elem_inverse\<close>)
  next
    case (Link_list_set a v n)
    have h: "n = int (length xs)" "0 \<le> a" "a < n" "ys = xs[nat a := None]" using assms(3) by (simp_all add: Link_list_set)
    show ?thesis by (rule undo_one [of c "Link_list_set a v n" ys ys])
      (use h restored_set in \<open>simp_all add: Link_list_set inverse_calls_def\<close>)
  next
    case (Link_list_insert a v n)
    have h: "n = int (length xs)" "0 \<le> a" "a \<le> n" "ys = new_at (nat a) 1 xs" using assms(3) by (simp_all add: Link_list_insert)
    show ?thesis by (rule undo_one [of c "Link_list_erase a (n + 1)" ys xs])
      (use h in \<open>simp_all add: Link_list_insert inverse_calls_def cast gone_new [of _ _ 1, simplified]\<close>)
  next
    case (Link_list_erase a n)
    have h: "n = int (length xs)" "0 \<le> a" "a < n" "ys = gone_at (nat a) 1 xs" using assms(3) by (simp_all add: Link_list_erase)
    show ?thesis by (rule undo_one [of c "Link_list_insert a 0 (n - 1)" ys "new_at (nat a) 1 ys"])
      (use h in \<open>simp_all add: Link_list_erase inverse_calls_def cast new_gone [of _ 1, simplified]\<close>)
  next
    case (Link_list_nullify a n)
    have h: "n = int (length xs)" "0 \<le> a" "a < n" "ys = gone_at (nat a) 1 xs" using assms(3) by (simp_all add: Link_list_nullify)
    show ?thesis by (rule undo_one [of c "Link_list_insert a 0 (n - 1)" ys "new_at (nat a) 1 ys"])
      (use h in \<open>simp_all add: Link_list_nullify inverse_calls_def cast new_gone [of _ 1, simplified]\<close>)
  next
    case (Link_list_swap a b)
    have h: "0 \<le> a" "0 \<le> b" "nat a < length xs" "nat b < length xs" "ys = swap_elems (nat a) (nat b) xs"
      using assms(3) by (auto simp: Link_list_swap)
    show ?thesis by (rule undo_one [of c "Link_list_swap a b" ys xs])
      (use h in \<open>auto simp: Link_list_swap inverse_calls_def swap_elems_inverse\<close>)
  qed (use assms(3,4) in \<open>simp_all add: inverse_calls_def\<close>)
qed

lemma undoes_clear:
  "Link_list_clear n = c \<Longrightarrow> \<exists>prior. rev (inverse_calls c) = map (\<lambda>i. Link_list_insert (int i) 0 (prior i)) [0..<nat n]"
  by (auto simp: inverse_calls_def clear_inserts_map)

lemma inverse_footprint:
  "\<Union> (touched ` set (inverse_calls c)) = (if left_out c then {} else touched c)"
  "\<Union> (link_target ` set (inverse_calls c)) = link_target c" "left_out c \<Longrightarrow> inverse_calls c = []"
proof -
  have clear: "touched d = {} \<and> link_target d = {}" if "d \<in> set (clear_inserts n k)" for d n k
    using that by (induction n) auto
  show "\<Union> (touched ` set (inverse_calls c)) = (if left_out c then {} else touched c)"
    by (cases c) (auto simp: inverse_calls_def clear)
  show "\<Union> (link_target ` set (inverse_calls c)) = link_target c"
    by (cases c) (auto simp: inverse_calls_def clear)
  show "left_out c \<Longrightarrow> inverse_calls c = []" by (cases c) (simp_all add: inverse_calls_def)
qed

lemma inverse_added: "int_cast t_int64 (added c + sum_list (map added (rev (inverse_calls c)))) = 0"
proof -
  have zero: "int_cast t_int64 0 = 0" by (simp add: int_cast_def t_int64_def)
  have clear: "sum_list (map added (rev (clear_inserts n k))) = 0" for n k by (induction n) simp_all
  have "int_cast t_int64 (v + int_cast t_int64 (- v)) = 0" for v
    by (simp add: int_cast_def t_int64_def mod_simps)
  then show ?thesis by (cases c) (simp_all add: inverse_calls_def zero clear)
qed

lemma inverse_undoes: "\<not> is_select c \<Longrightarrow> undoes c (rev (inverse_calls c))"
  unfolding undoes_def set_rev
  using inverse_level [of _ c] undo_content [of _ _ c] inverse_footprint [of c] inverse_added [of c] undoes_clear [of _ c]
  by (intro conjI ballI impI allI) (simp_all del: foldM.simps)

subsection \<open>The reversed log\<close>

text \<open>Each instruction of a log, with what is selected for it, next to the group of instructions that undo it.\<close>

definition undo_group :: "call option list \<times> call \<Rightarrow> (call option list \<times> call) list \<Rightarrow> bool" where
  "undo_group sc g \<longleftrightarrow> (\<forall>(s, d) \<in> set g. s = fst sc) \<and> undoes (snd sc) (map snd g)"

lemma scoped_plain: "(s, c) \<in> set (scoped x cs) \<Longrightarrow> \<not> is_select c"
  by (induction cs arbitrary: x) (auto split: if_splits)

lemma inverse_scoped_groups:
  assumes "\<forall>(s, c) \<in> set xs. \<not> is_select c"
  shows "\<exists>groups. inverse_scoped xs = concat (rev groups) \<and> list_all2 undo_group xs groups"
proof -
  let ?group = "\<lambda>(s, c). map (Pair s) (rev (inverse_calls c))"
  have "inverse_scoped xs = concat (rev (map ?group xs))"
    by (simp add: inverse_scoped_def rev_concat rev_map comp_def case_prod_unfold)
  moreover have "list_all2 undo_group xs (map ?group xs)"
    using assms inverse_undoes by (auto simp: list_all2_map2 undo_group_def comp_def list.rel_refl_strong split: prod.splits intro!: list.rel_refl_strong)
  ultimately show ?thesis by blast
qed

lemma collect_calls: "foldM (\<lambda>c out. Some (out @ [c])) cs out = Some (out @ cs)"
  by (induction cs arbitrary: out) simp_all

lemma reverser_undoes:
  assumes "writes_selections sel" "list_all (\<lambda>c. call_ok c \<and> writable c) (concat (map rev_written cs))"
    "calls_room (concat (map rev_written cs)) \<le> size_max" "well_selected no_selection cs"
  shows "\<exists>r out groups. foldM (reverse_call junk sel) cs reverser_init = Some r \<and>
    parse reversed_next_block (\<lambda>c out. Some (out @ [c])) [] (reversed_stream_init r) = Some out \<and>
    scoped no_selection out = concat (rev groups) \<and> list_all2 undo_group (scoped no_selection cs) groups"
proof -
  obtain r where r: "foldM (reverse_call junk sel) cs reverser_init = Some r"
    "parse reversed_next_block (\<lambda>c out. Some (out @ [c])) [] (reversed_stream_init r) = Some (reversed_log cs)"
    using reverse_parse [OF assms(1-3), of junk "\<lambda>c out. Some (out @ [c])" "[]"] collect_calls [of "reversed_log cs" "[]"] by auto
  obtain groups where "inverse_scoped (scoped no_selection cs) = concat (rev groups)"
    "list_all2 undo_group (scoped no_selection cs) groups"
    using inverse_scoped_groups [of "scoped no_selection cs"] scoped_plain by blast
  then show ?thesis using r reversed_selections [OF assms(4)] by (intro exI conjI) auto
qed

end
