(* ===== verification/Change_Info.thy ===== *)
theory Change_Info
  imports Change_Runs
begin

text \<open>
  What a transaction log observer accumulates (\<open>TransactionChangeInfo\<close>, \<open>impl/collection_notifier.hpp\<close>)
  and the helpers that keep its vectors of indices up to date (\<open>impl/transact_log_handler.cpp\<close>).

  The builders of the observed lists live outside the structure, which points at them: they are the store
  \<open>builders\<close>, and \<open>li_changes\<close> is an address in it.

  \<open>column_indices\<close> holds, for every table, the initial index of each of its present columns, \<open>npos\<close> for a new
  one, and is extended on demand; the lemmas show that it denotes a map on all columns, which the extension
  does not change and which the schema changes edit like a list of columns.
\<close>

record list_change_info =
  li_table_ndx :: nat
  li_row_ndx :: nat
  li_col_ndx :: nat
  li_changes :: nat

record change_info =
  table_modifications_needed :: "bool list"
  table_moves_needed :: "bool list"
  lists :: "list_change_info list"
  tables :: "change_builder list"
  column_indices :: "nat list list"
  table_indices :: "nat list"
  track_all :: bool
  schema_changed :: bool
  builders :: "change_builder list"

subsection \<open>Helpers on vectors\<close>

text \<open>\<open>rotate\<close> of the source; \<open>d\<close> is the default value of the elements that \<open>resize\<close> adds.\<close>

definition rotate_to :: "'a \<Rightarrow> nat \<Rightarrow> nat \<Rightarrow> 'a list \<Rightarrow> 'a list option" where
  "rotate_to d from to container = do {
     realm_assert (from \<noteq> to);
     if length container \<le> from \<and> length container \<le> to then Some container
     else do {
       let container = (if length container \<le> from \<or> length container \<le> to
                        then resize d (max from to + 1) container else container);
       if from < to then Some (rotate_range from (from + 1) (to + 1) container)
       else Some (rotate_range to from (from + 1) container)
     }
   }"

definition insert_empty_at :: "'a \<Rightarrow> nat \<Rightarrow> 'a list \<Rightarrow> 'a list" where
  "insert_empty_at d pos container =
     (if pos < length container then take pos container @ d # drop pos container else container)"

definition adjust_for_move :: "nat \<Rightarrow> nat \<Rightarrow> nat \<Rightarrow> nat" where
  "adjust_for_move value from to =
     (if value = from then to
      else if from < value \<and> value \<le> to then value - 1
      else if value < from \<and> to \<le> value then value + 1
      else value)"

definition adjust_all_for_move :: "nat list \<Rightarrow> nat \<Rightarrow> nat \<Rightarrow> nat list" where
  "adjust_all_for_move values from to = map (\<lambda>value. adjust_for_move value from to) values"

text \<open>The first value \<open>iota\<close> writes is computed in \<open>size_t\<close>.\<close>

definition expand_to :: "nat list \<Rightarrow> nat \<Rightarrow> nat list" where
  "expand_to cols i =
     (let old_size = length cols in
      if i < old_size then cols
      else let new_size = max (old_size * 2) (i + 1);
               first = (if old_size = 0 then 0 else (cols ! (old_size - 1) + 1) mod 2 ^ 64)
           in cols @ map (\<lambda>k. (first + k) mod 2 ^ 64) [0..<new_size - old_size])"

definition adjust_ge :: "nat list \<Rightarrow> nat \<Rightarrow> nat list" where
  "adjust_ge values i = map (\<lambda>value. if i \<le> value then value + 1 else value) values"

lemma adjust_for_move_new_pos: "adjust_for_move value from to = new_pos from to value"
  by (auto simp: adjust_for_move_def new_pos_def)

subsection \<open>Rotation and insertion as edits of a list\<close>

lemma nth_rotate_range:
  assumes "first \<le> n_first" "n_first \<le> stop" "stop \<le> length xs" "k < length xs"
  shows "rotate_range first n_first stop xs ! k =
    (if k < first \<or> stop \<le> k then xs ! k
     else if k < first + (stop - n_first) then xs ! (k + (n_first - first)) else xs ! (k - (stop - n_first)))"
  using assms by (auto simp: rotate_range_def nth_append min_def algebra_simps)

lemma rotate_to_moves:
  assumes "from \<noteq> to" "from < length xs" "to < length xs"
  shows "\<exists>ys. rotate_to d from to xs = Some ys \<and> length ys = length xs \<and>
    (\<forall>k < length xs. ys ! k = row_move from to (\<lambda>j. xs ! j) k)"
proof (cases "from < to")
  case True
  have "rotate_range from (from + 1) (to + 1) xs ! k = row_move from to (\<lambda>j. xs ! j) k" if "k < length xs" for k
    using True that assms by (cases k to rule: linorder_cases)
      (auto simp: nth_rotate_range row_move_def row_insert_def row_erase_def)
  then show ?thesis using True assms by (simp add: rotate_to_def) (auto simp: rotate_range_def)
next
  case False
  have "rotate_range to from (from + 1) xs ! k = row_move from to (\<lambda>j. xs ! j) k" if "k < length xs" for k
    using False that assms by (cases k to rule: linorder_cases)
      (auto simp: nth_rotate_range row_move_def row_insert_def row_erase_def)
  then show ?thesis using False assms by (simp add: rotate_to_def) (auto simp: rotate_range_def)
qed

lemma insert_empty_at_list_insert: "pos < length xs \<Longrightarrow> insert_empty_at d pos xs = list_insert pos [d] xs"
  by (simp add: insert_empty_at_def list_insert_def)

lemma nth_insert_empty_at:
  assumes "k < length xs" "k \<noteq> npos"
  shows "(if pos \<le> k then k + 1 else k) < length (insert_empty_at d pos xs)"
    "insert_empty_at d pos xs ! (if pos \<le> k then k + 1 else k) = xs ! k"
  using assms by (auto simp: insert_empty_at_def nth_append min_def nth_Cons')

subsection \<open>The columns a vector of column indices stands for\<close>

text \<open>The initial index of column \<open>i\<close>, as \<open>KVOAdapter::before\<close> computes it.\<close>

definition initial_column_index :: "nat list \<Rightarrow> nat \<Rightarrow> nat" where
  "initial_column_index indices i =
     (if indices = [] then i
      else if length indices \<le> i then i - length indices + last indices + 1
      else indices ! i)"

definition column_origin :: "nat list \<Rightarrow> nat \<Rightarrow> nat option" where
  "column_origin indices i =
     (let c = initial_column_index indices i in if c = npos then None else Some c)"

definition columns_ok :: "nat list \<Rightarrow> bool" where
  "columns_ok indices \<longleftrightarrow> (indices \<noteq> [] \<longrightarrow> last indices < length indices)"

definition max_columns :: nat where
  "max_columns = 2 ^ 60"

lemma columns_ok_Nil [simp]: "columns_ok []"
  by (simp add: columns_ok_def)

lemma expand_to_ok:
  assumes "columns_ok xs" "length xs < max_columns" "i < max_columns"
  shows "columns_ok (expand_to xs i)" "i < length (expand_to xs i)"
    "initial_column_index (expand_to xs i) = initial_column_index xs"
proof -
  let ?m = "max (length xs * 2) (i + 1)"
  let ?f = "if xs = [] then 0 else last xs + 1"
  have l: "xs \<noteq> [] \<Longrightarrow> last xs < length xs" using assms(1) by (simp add: columns_ok_def)
  have e: "expand_to xs i = xs @ map (\<lambda>k. ?f + k) [0..<?m - length xs]" if "\<not> i < length xs"
  proof -
    have "?f + k < 2 ^ 64" if "k < ?m" for k using that l assms(2,3) by (auto simp: max_columns_def)
    then have "(?f + k) mod 2 ^ 64 = ?f + k" "?f mod 2 ^ 64 = ?f" if "k < ?m - length xs" for k
      using that by (force intro!: mod_less)+
    then have "map (\<lambda>k. (?f mod 2 ^ 64 + k) mod 2 ^ 64) [0..<?m - length xs] = map (\<lambda>k. ?f + k) [0..<?m - length xs]"
      by (intro map_cong) (auto simp: mod_add_left_eq)
    moreover have "xs ! (length xs - 1) = last xs" if "xs \<noteq> []" using that by (simp add: last_conv_nth)
    ultimately show ?thesis using that by (cases "xs = []") (simp_all add: expand_to_def Let_def)
  qed
  show "i < length (expand_to xs i)" by (auto simp: expand_to_def Let_def)
  show "columns_ok (expand_to xs i)"
  proof (cases "i < length xs")
    case False
    then have "?m - length xs = Suc (?m - length xs - 1)" by auto
    then have "last (expand_to xs i) = ?f + (?m - length xs - 1)" "length (expand_to xs i) = ?m"
      unfolding e [OF False] using False by (auto simp: last_map)
    then show ?thesis using l False by (auto simp: columns_ok_def)
  qed (use assms(1) in \<open>simp add: expand_to_def\<close>)
  show "initial_column_index (expand_to xs i) = initial_column_index xs"
  proof (cases "i < length xs")
    case False
    then have m: "?m - length xs = Suc (?m - length xs - 1)" by auto
    have "last (expand_to xs i) = ?f + (?m - length xs - 1)" unfolding e [OF False]
      using m by (metis (no_types, lifting) last_append last_map last_upt map_is_Nil_conv upt_eq_Nil_conv
        diff_Suc_1 zero_less_Suc leD less_numeral_extra(3))
    then show ?thesis using False unfolding e [OF False]
      by (auto simp: initial_column_index_def fun_eq_iff nth_append)
  qed (simp add: expand_to_def)
qed

lemma insert_column_index:
  assumes "columns_ok xs" "ndx < length xs"
  shows "columns_ok ((insert_empty_at d ndx xs)[ndx := npos])"
    "column_origin ((insert_empty_at d ndx xs)[ndx := npos]) = row_insert ndx 1 None (column_origin xs)"
proof -
  let ?ys = "list_insert ndx [npos] xs"
  have e: "(insert_empty_at d ndx xs)[ndx := npos] = ?ys"
    using assms by (simp add: insert_empty_at_def list_insert_def list_update_append)
  have l: "last ?ys = last xs" "length ?ys = length xs + 1" "last xs < length xs"
    using assms by (auto simp: list_insert_def columns_ok_def)
  then show "columns_ok ((insert_empty_at d ndx xs)[ndx := npos])" by (simp add: e columns_ok_def)
  have "xs \<noteq> []" "?ys \<noteq> []" using assms by (auto simp: list_insert_def)
  then show "column_origin ((insert_empty_at d ndx xs)[ndx := npos]) = row_insert ndx 1 None (column_origin xs)"
    using assms l unfolding e
    by (auto simp: fun_eq_iff column_origin_def initial_column_index_def row_insert_def nth_list_insert Let_def)
qed

lemma move_column_index:
  assumes "columns_ok xs" "from \<noteq> to" "from < length xs - 1" "to < length xs - 1"
  shows "\<exists>ys. rotate_to d from to xs = Some ys \<and> columns_ok ys \<and> column_origin ys = row_move from to (column_origin xs)"
proof -
  obtain ys where ys: "rotate_to d from to xs = Some ys" "length ys = length xs"
    "\<forall>k < length xs. ys ! k = row_move from to (\<lambda>j. xs ! j) k"
    using rotate_to_moves [of "from" to xs d, OF assms(2)] assms(3,4) by (meson diff_le_self less_le_trans)
  have ne: "xs \<noteq> []" "ys \<noteq> []" using assms ys(2) by auto
  have "row_move from to (\<lambda>j. xs ! j) (length xs - 1) = xs ! (length xs - 1)"
    using assms by (cases "length xs - 1") (auto simp: row_move_def row_insert_def row_erase_def)
  then have l: "last ys = last xs" using ys(2,3) ne by (simp add: last_conv_nth)
  have "initial_column_index ys = row_move from to (initial_column_index xs)"
    using ys(2,3) ne l assms
    by (auto simp: fun_eq_iff initial_column_index_def row_move_def row_insert_def row_erase_def)
  then have "column_origin ys = row_move from to (column_origin xs)"
    by (auto simp: fun_eq_iff column_origin_def row_move_old_pos)
  then show ?thesis using ys l assms(1) ne by (intro exI [of _ ys]) (simp add: columns_ok_def)
qed

end
