(* ===== verification/Log_Observer.thy ===== *)
theory Log_Observer
  imports Change_Info Log_Selections
begin

text \<open>
  The handlers the object store gives to the log parser (\<open>impl/transact_log_handler.cpp\<close>): the validator, which
  rejects destructive schema changes, and \<open>TransactLogObserver\<close>, which feeds the change builders of the
  observed tables and lists.

  A pointer to a builder is null, an address of \<open>tables\<close> or one of the store of list builders.  Growing
  \<open>tables\<close> may move its elements, which leaves pointers into it dangling; to use one of them is undefined,
  \<open>None\<close> as for a failing assertion or an exception.
\<close>

subsection \<open>The validator\<close>

record validation =
  m_current_table :: nat

text \<open>\<open>TransactLogValidationMixin\<close>: what removes or renames something throws \<open>UnsupportedSchemaChange\<close>.\<close>

fun is_destructive :: "call \<Rightarrow> bool" where
  "is_destructive (Erase_group_level_table _ _) = True"
| "is_destructive (Rename_group_level_table _ _) = True"
| "is_destructive (Erase_column _) = True"
| "is_destructive (Erase_link_column _ _ _) = True"
| "is_destructive (Rename_column _ _) = True"
| "is_destructive _ = False"

definition validate_select_table :: "int \<Rightarrow> 'a validation_scheme \<Rightarrow> 'a validation_scheme" where
  "validate_select_table group_level_ndx v = v\<lparr>m_current_table := nat group_level_ndx\<rparr>"

definition validator :: "'a validation_scheme handler" where
  "validator c v =
     (if is_destructive c then None
      else case c of Select_table group_level_ndx _ \<Rightarrow> Some (validate_select_table group_level_ndx v) | _ \<Rightarrow> Some v)"

subsection \<open>State of the observer\<close>

datatype builder_ref = Nullptr | Table_ref nat | List_ref nat | Dangling

record observer = validation +
  m_info :: change_info
  m_active_list :: builder_ref
  m_active_table :: builder_ref
  m_active_descriptor :: builder_ref
  m_need_move_info :: bool
  m_is_top_level_table :: bool

definition observer_init :: "change_info \<Rightarrow> observer" where
  "observer_init info = \<lparr>m_current_table = 0, m_info = info, m_active_list = Nullptr, m_active_table = Nullptr,
     m_active_descriptor = Nullptr, m_need_move_info = False, m_is_top_level_table = True\<rparr>"

text \<open>Apply a method of the builder behind a pointer, if the pointer is not null.\<close>

definition with_builder ::
    "builder_ref \<Rightarrow> (change_builder \<Rightarrow> change_builder option) \<Rightarrow> observer \<Rightarrow> observer option" where
  "with_builder ref f ob = (case ref of
     Nullptr \<Rightarrow> Some ob
   | Table_ref t \<Rightarrow> do {
       realm_assert (t < length (tables (m_info ob)));
       b \<leftarrow> f (tables (m_info ob) ! t);
       Some (ob\<lparr>m_info := (m_info ob)\<lparr>tables := (tables (m_info ob))[t := b]\<rparr>\<rparr>) }
   | List_ref a \<Rightarrow> do {
       realm_assert (a < length (builders (m_info ob)));
       b \<leftarrow> f (builders (m_info ob) ! a);
       Some (ob\<lparr>m_info := (m_info ob)\<lparr>builders := (builders (m_info ob))[a := b]\<rparr>\<rparr>) }
   | Dangling \<Rightarrow> None)"

text \<open>The elements of \<open>tables\<close> may have been moved.\<close>

fun dangle :: "builder_ref \<Rightarrow> builder_ref" where
  "dangle (Table_ref t) = Dangling"
| "dangle r = r"

definition set_tables :: "change_builder list \<Rightarrow> observer \<Rightarrow> observer" where
  "set_tables ts ob =
     (let ob' = ob\<lparr>m_info := (m_info ob)\<lparr>tables := ts\<rparr>\<rparr> in
      if length (tables (m_info ob)) < length ts
      then ob'\<lparr>m_active_list := dangle (m_active_list ob), m_active_table := dangle (m_active_table ob),
             m_active_descriptor := dangle (m_active_descriptor ob)\<rparr>
      else ob')"

definition map_lists :: "(list_change_info \<Rightarrow> list_change_info) \<Rightarrow> observer \<Rightarrow> observer" where
  "map_lists f ob = ob\<lparr>m_info := (m_info ob)\<lparr>lists := map f (lists (m_info ob))\<rparr>\<rparr>"

definition on_current :: "observer \<Rightarrow> (list_change_info \<Rightarrow> list_change_info) \<Rightarrow> list_change_info \<Rightarrow> list_change_info" where
  "on_current ob f li = (if li_table_ndx li = m_current_table ob then f li else li)"

subsection \<open>Selections\<close>

definition find_list :: "nat \<Rightarrow> nat \<Rightarrow> nat \<Rightarrow> list_change_info list \<Rightarrow> builder_ref" where
  "find_list tbl col row ls =
     (case find (\<lambda>li. li_table_ndx li = tbl \<and> li_row_ndx li = row \<and> li_col_ndx li = col) (rev ls) of
        Some li \<Rightarrow> List_ref (li_changes li) | None \<Rightarrow> Nullptr)"

definition ob_mark_dirty :: "nat \<Rightarrow> nat \<Rightarrow> nat \<Rightarrow> observer \<Rightarrow> observer option" where
  "ob_mark_dirty mx row col ob = with_builder (m_active_table ob) (cb_modify mx row col) ob"

text \<open>\<open>MarkDirtyMixin\<close>: default and unique values are no changes of existing rows.\<close>

definition mark_dirty_instr :: "nat \<Rightarrow> int \<Rightarrow> int \<Rightarrow> instruction \<Rightarrow> observer \<Rightarrow> observer option" where
  "mark_dirty_instr mx row col instr ob = (if instr = instr_Set then ob_mark_dirty mx (nat row) (nat col) ob else Some ob)"

definition ob_select_descriptor :: "int list \<Rightarrow> observer \<Rightarrow> observer" where
  "ob_select_descriptor path ob = ob\<lparr>m_active_descriptor := (if length path = 0 then m_active_table ob else Nullptr)\<rparr>"

definition is_set_flag :: "bool list \<Rightarrow> nat \<Rightarrow> bool" where
  "is_set_flag flags i \<longleftrightarrow> i < length flags \<and> flags ! i"

definition ob_select_table :: "nat \<Rightarrow> int \<Rightarrow> (int \<times> int) list \<Rightarrow> observer \<Rightarrow> observer option" where
  "ob_select_table mx group_level_ndx path ob0 = do {
     let ob1 = (validate_select_table group_level_ndx ob0)\<lparr>m_active_table := Nullptr, m_is_top_level_table := True\<rparr>;
     let tbl_ndx = m_current_table ob1;
     let info = m_info ob1;
     if 1 < length path then Some (ob1\<lparr>m_is_top_level_table := False\<rparr>)
     else if \<not> track_all info \<and> \<not> is_set_flag (table_modifications_needed info) tbl_ndx then Some ob1
     else do {
       let ob2 = ob1\<lparr>m_need_move_info := (track_all info \<or> is_set_flag (table_moves_needed info) tbl_ndx)\<rparr>;
       let ob3 = (if length (tables info) \<le> tbl_ndx
                  then set_tables (resize cb_default (max (length (tables info) * 2) (tbl_ndx + 1)) (tables info)) ob2
                  else ob2);
       let ob4 = ob3\<lparr>m_active_table := Table_ref tbl_ndx\<rparr>;
       case path of
         [(col, row)] \<Rightarrow> do {
           ob5 \<leftarrow> ob_mark_dirty mx (nat row) (nat col) ob4;
           let ob6 = ob5\<lparr>m_active_table := Nullptr, m_is_top_level_table := False\<rparr>;
           let table = find_list (m_current_table ob6) (nat col) (nat row) (lists (m_info ob6));
           Some (if table \<noteq> Nullptr then ob6\<lparr>m_active_table := table, m_need_move_info := True\<rparr> else ob6) }
       | _ \<Rightarrow> Some ob4
     }
   }"

definition ob_select_link_list :: "nat \<Rightarrow> int \<Rightarrow> int \<Rightarrow> observer \<Rightarrow> observer option" where
  "ob_select_link_list mx col row ob = do {
     ob' \<leftarrow> ob_mark_dirty mx (nat row) (nat col) ob;
     Some (ob'\<lparr>m_active_list := find_list (m_current_table ob') (nat col) (nat row) (lists (m_info ob'))\<rparr>)
   }"

subsection \<open>Link lists\<close>

definition ob_link_list_set :: "nat \<Rightarrow> int \<Rightarrow> observer \<Rightarrow> observer option" where
  "ob_link_list_set mx index ob = with_builder (m_active_list ob) (cb_modify mx (nat index) npos) ob"

definition ob_link_list_insert :: "nat \<Rightarrow> int \<Rightarrow> observer \<Rightarrow> observer option" where
  "ob_link_list_insert mx index ob = with_builder (m_active_list ob) (cb_insert mx (nat index) 1 True) ob"

definition ob_link_list_erase :: "nat \<Rightarrow> int \<Rightarrow> observer \<Rightarrow> observer option" where
  "ob_link_list_erase mx index ob = with_builder (m_active_list ob) (cb_erase mx (nat index)) ob"

definition ob_link_list_nullify :: "nat \<Rightarrow> int \<Rightarrow> observer \<Rightarrow> observer option" where
  "ob_link_list_nullify mx index ob = ob_link_list_erase mx index ob"

definition ob_link_list_swap :: "nat \<Rightarrow> int \<Rightarrow> int \<Rightarrow> observer \<Rightarrow> observer option" where
  "ob_link_list_swap mx index1 index2 ob = do { ob' \<leftarrow> ob_link_list_set mx index1 ob; ob_link_list_set mx index2 ob' }"

definition ob_link_list_clear :: "nat \<Rightarrow> int \<Rightarrow> observer \<Rightarrow> observer option" where
  "ob_link_list_clear mx old_size ob = with_builder (m_active_list ob) (cb_clear mx (nat old_size)) ob"

definition ob_link_list_move :: "nat \<Rightarrow> int \<Rightarrow> int \<Rightarrow> observer \<Rightarrow> observer option" where
  "ob_link_list_move mx from to ob = with_builder (m_active_list ob) (cb_move mx (nat from) (nat to)) ob"

subsection \<open>Rows\<close>

definition ob_insert_empty_rows :: "nat \<Rightarrow> int \<Rightarrow> int \<Rightarrow> observer \<Rightarrow> observer option" where
  "ob_insert_empty_rows mx row_ndx num_rows_to_insert ob = do {
     ob' \<leftarrow> with_builder (m_active_table ob) (cb_insert mx (nat row_ndx) (nat num_rows_to_insert) (m_need_move_info ob)) ob;
     if \<not> m_is_top_level_table ob' then Some ob'
     else Some (map_lists (on_current ob' (\<lambda>li.
       if nat row_ndx \<le> li_row_ndx li then li\<lparr>li_row_ndx := li_row_ndx li + nat num_rows_to_insert\<rparr> else li)) ob')
   }"

definition ob_add_row_with_key :: "nat \<Rightarrow> int \<Rightarrow> observer \<Rightarrow> observer option" where
  "ob_add_row_with_key mx row_ndx ob = ob_insert_empty_rows mx row_ndx 1 ob"

text \<open>
  The loop of \<open>erase_rows\<close> over the observed lists.  A list of the erased row is overwritten by the last one,
  and the loop goes on with the next index.
\<close>

function erase_row_lists :: "nat \<Rightarrow> nat \<Rightarrow> nat \<Rightarrow> nat \<Rightarrow> list_change_info list \<Rightarrow> list_change_info list" where
  "erase_row_lists tbl row_ndx last_row i ls =
     (if i < length ls then
        (let li = ls ! i in
         if li_table_ndx li \<noteq> tbl then erase_row_lists tbl row_ndx last_row (i + 1) ls
         else if li_row_ndx li = row_ndx then
           erase_row_lists tbl row_ndx last_row (i + 1)
             (butlast (if i + 1 < length ls then ls[i := last ls] else ls))
         else if li_row_ndx li = last_row then
           erase_row_lists tbl row_ndx last_row (i + 1) (ls[i := li\<lparr>li_row_ndx := row_ndx\<rparr>])
         else erase_row_lists tbl row_ndx last_row (i + 1) ls)
      else ls)"
  by pat_completeness auto

termination
  by (relation "measure (\<lambda>(tbl, row_ndx, last_row, i, ls). length ls - i)") auto

declare erase_row_lists.simps [simp del]

definition ob_erase_rows :: "nat \<Rightarrow> int \<Rightarrow> int \<Rightarrow> bool \<Rightarrow> observer \<Rightarrow> observer option" where
  "ob_erase_rows mx row_ndx prior_num_rows unordered ob =
     (if \<not> unordered then with_builder (m_active_table ob) (cb_erase mx (nat row_ndx)) ob
      else do {
        let last_row = (if nat prior_num_rows = 0 then npos else nat prior_num_rows - 1);
        ob' \<leftarrow> with_builder (m_active_table ob) (cb_move_over mx (nat row_ndx) last_row (m_need_move_info ob)) ob;
        if \<not> m_is_top_level_table ob' then Some ob'
        else Some (ob'\<lparr>m_info := (m_info ob')\<lparr>lists :=
          erase_row_lists (m_current_table ob') (nat row_ndx) last_row 0 (lists (m_info ob'))\<rparr>\<rparr>)
      })"

definition ob_swap_rows :: "nat \<Rightarrow> int \<Rightarrow> int \<Rightarrow> observer \<Rightarrow> observer option" where
  "ob_swap_rows mx row_ndx_1 row_ndx_2 ob = do {
     realm_assert (row_ndx_1 < row_ndx_2);
     if \<not> m_is_top_level_table ob then do {
       ob' \<leftarrow> with_builder (m_active_table ob) (cb_move mx (nat row_ndx_1) (nat row_ndx_2)) ob;
       if row_ndx_1 + 1 \<noteq> row_ndx_2
       then with_builder (m_active_table ob') (cb_move mx (nat row_ndx_2 - 1) (nat row_ndx_1)) ob'
       else Some ob'
     }
     else do {
       ob' \<leftarrow> with_builder (m_active_table ob) (cb_swap mx (nat row_ndx_1) (nat row_ndx_2) (m_need_move_info ob)) ob;
       Some (map_lists (on_current ob' (\<lambda>li.
         if li_row_ndx li = nat row_ndx_1 then li\<lparr>li_row_ndx := nat row_ndx_2\<rparr>
         else if li_row_ndx li = nat row_ndx_2 then li\<lparr>li_row_ndx := nat row_ndx_1\<rparr> else li)) ob')
     }
   }"

definition ob_move_row :: "nat \<Rightarrow> int \<Rightarrow> int \<Rightarrow> observer \<Rightarrow> observer option" where
  "ob_move_row mx from_ndx to_ndx ob = do {
     realm_assert (m_active_table ob = Nullptr \<or> \<not> m_is_top_level_table ob);
     with_builder (m_active_table ob) (cb_move mx (nat from_ndx) (nat to_ndx)) ob
   }"

definition ob_merge_rows :: "nat \<Rightarrow> int \<Rightarrow> int \<Rightarrow> observer \<Rightarrow> observer option" where
  "ob_merge_rows mx from to ob = do {
     ob' \<leftarrow> with_builder (m_active_table ob) (cb_subsume mx (nat from) (nat to) (m_need_move_info ob)) ob;
     if \<not> m_is_top_level_table ob' then Some ob'
     else Some (map_lists (on_current ob' (\<lambda>li.
       if li_row_ndx li = nat from then li\<lparr>li_row_ndx := nat to\<rparr> else li)) ob')
   }"

definition ob_clear_table :: "nat \<Rightarrow> observer \<Rightarrow> observer option" where
  "ob_clear_table mx ob = do {
     ob' \<leftarrow> with_builder (m_active_table ob) (cb_clear mx npos) ob;
     if \<not> m_is_top_level_table ob' then Some ob'
     else Some (ob'\<lparr>m_info := (m_info ob')\<lparr>lists :=
       filter (\<lambda>li. li_table_ndx li \<noteq> m_current_table ob') (lists (m_info ob'))\<rparr>\<rparr>)
   }"

subsection \<open>Schema changes\<close>

text \<open>Comparing a dangling pointer is as undefined as using it.\<close>

definition same_ref :: "builder_ref \<Rightarrow> builder_ref \<Rightarrow> bool option" where
  "same_ref p q = (if p = Dangling \<or> q = Dangling then None else Some (p = q))"

definition current_columns :: "(nat list \<Rightarrow> nat list option) \<Rightarrow> observer \<Rightarrow> observer option" where
  "current_columns f ob = do {
     let t = m_current_table ob;
     let all = column_indices (m_info ob);
     let all = (if length all \<le> t then resize [] (t + 1) all else all);
     indices \<leftarrow> f (all ! t);
     Some (ob\<lparr>m_info := (m_info ob)\<lparr>column_indices := all[t := indices]\<rparr>\<rparr>)
   }"

definition set_schema_changed :: "observer \<Rightarrow> observer" where
  "set_schema_changed ob = ob\<lparr>m_info := (m_info ob)\<lparr>schema_changed := True\<rparr>\<rparr>"

definition ob_insert_column :: "int \<Rightarrow> observer \<Rightarrow> observer option" where
  "ob_insert_column ndx ob0 = do {
     let ob1 = set_schema_changed ob0;
     ob2 \<leftarrow> with_builder (m_active_descriptor ob1) (\<lambda>b. Some (cb_insert_column (nat ndx) b)) ob1;
     same \<leftarrow> same_ref (m_active_descriptor ob2) (m_active_table ob2);
     if \<not> same \<or> \<not> m_is_top_level_table ob2 then Some ob2
     else do {
       let ob3 = map_lists (on_current ob2 (\<lambda>li.
         if nat ndx \<le> li_col_ndx li then li\<lparr>li_col_ndx := li_col_ndx li + 1\<rparr> else li)) ob2;
       current_columns (\<lambda>indices. Some ((insert_empty_at 0 (nat ndx) (expand_to indices (nat ndx)))[nat ndx := npos])) ob3
     }
   }"

definition prepare_table_indices :: "change_info \<Rightarrow> change_info" where
  "prepare_table_indices info =
     (if table_indices info = [] \<and> table_modifications_needed info \<noteq> []
      then info\<lparr>table_indices := [0..<length (table_modifications_needed info)]\<rparr> else info)"

definition ob_insert_group_level_table :: "int \<Rightarrow> observer \<Rightarrow> observer" where
  "ob_insert_group_level_table ndx ob0 =
     (let ob1 = map_lists (\<lambda>li. if nat ndx \<le> li_table_ndx li then li\<lparr>li_table_ndx := li_table_ndx li + 1\<rparr> else li)
                  (set_schema_changed ob0);
          info = prepare_table_indices (m_info ob1);
          ob2 = ob1\<lparr>m_info := info\<lparr>table_indices := adjust_ge (table_indices info) (nat ndx)\<rparr>\<rparr>;
          ob3 = set_tables (insert_empty_at cb_default (nat ndx) (tables (m_info ob2))) ob2;
          info = m_info ob3
      in ob3\<lparr>m_info := info\<lparr>
           table_moves_needed := insert_empty_at False (nat ndx) (table_moves_needed info),
           table_modifications_needed := insert_empty_at False (nat ndx) (table_modifications_needed info)\<rparr>\<rparr>)"

text \<open>
  The parser no longer makes the calls \<open>move_column\<close> and \<open>move_group_level_table\<close>; the observer still has them.
\<close>

definition ob_move_column :: "nat \<Rightarrow> nat \<Rightarrow> observer \<Rightarrow> observer option" where
  "ob_move_column from to ob0 = do {
     let ob1 = set_schema_changed ob0;
     ob2 \<leftarrow> with_builder (m_active_descriptor ob1) (\<lambda>b. Some (cb_move_column from to b)) ob1;
     same \<leftarrow> same_ref (m_active_descriptor ob2) (m_active_table ob2);
     if \<not> same \<or> \<not> m_is_top_level_table ob2 then Some ob2
     else do {
       let ob3 = map_lists (on_current ob2 (\<lambda>li. li\<lparr>li_col_ndx := adjust_for_move (li_col_ndx li) from to\<rparr>)) ob2;
       current_columns (\<lambda>indices. rotate_to 0 from to (expand_to indices (max from to + 1))) ob3
     }
   }"

definition ob_move_group_level_table :: "nat \<Rightarrow> nat \<Rightarrow> observer \<Rightarrow> observer option" where
  "ob_move_group_level_table from to ob0 = do {
     let ob1 = map_lists (\<lambda>li. li\<lparr>li_table_ndx := adjust_for_move (li_table_ndx li) from to\<rparr>) (set_schema_changed ob0);
     let info = prepare_table_indices (m_info ob1);
     let ob2 = ob1\<lparr>m_info := info\<lparr>table_indices := adjust_all_for_move (table_indices info) from to\<rparr>\<rparr>;
     ts \<leftarrow> rotate_to cb_default from to (tables (m_info ob2));
     let ob3 = set_tables ts ob2;
     let info = m_info ob3;
     mods \<leftarrow> rotate_to False from to (table_modifications_needed info);
     mvs \<leftarrow> rotate_to False from to (table_moves_needed info);
     Some (ob3\<lparr>m_info := info\<lparr>table_modifications_needed := mods, table_moves_needed := mvs\<rparr>\<rparr>)
   }"

subsection \<open>The observer as a handler\<close>

definition observe_set :: "nat \<Rightarrow> call \<Rightarrow> observer \<Rightarrow> observer option" where
  "observe_set mx c ob = (case c of
     Set_int c r _ i _ \<Rightarrow> mark_dirty_instr mx r c i ob
   | Set_bool c r _ i \<Rightarrow> mark_dirty_instr mx r c i ob
   | Set_float c r _ i \<Rightarrow> mark_dirty_instr mx r c i ob
   | Set_double c r _ i \<Rightarrow> mark_dirty_instr mx r c i ob
   | Set_string c r _ i _ \<Rightarrow> mark_dirty_instr mx r c i ob
   | Set_binary c r _ i \<Rightarrow> mark_dirty_instr mx r c i ob
   | Set_olddatetime c r _ i \<Rightarrow> mark_dirty_instr mx r c i ob
   | Set_timestamp c r _ i \<Rightarrow> mark_dirty_instr mx r c i ob
   | Set_table c r i \<Rightarrow> mark_dirty_instr mx r c i ob
   | Set_mixed c r _ i \<Rightarrow> mark_dirty_instr mx r c i ob
   | Set_link c r _ _ i \<Rightarrow> mark_dirty_instr mx r c i ob
   | Set_null c r i _ \<Rightarrow> mark_dirty_instr mx r c i ob
   | Add_int col row _ \<Rightarrow> mark_dirty_instr mx row col instr_Set ob
   | Nullify_link col row _ \<Rightarrow> mark_dirty_instr mx row col instr_Set ob
   | Insert_substring col row _ _ \<Rightarrow> mark_dirty_instr mx row col instr_Set ob
   | Erase_substring col row _ _ \<Rightarrow> mark_dirty_instr mx row col instr_Set ob
   | _ \<Rightarrow> Some ob)"

definition observe :: "nat \<Rightarrow> observer handler" where
  "observe mx c ob =
     (if is_destructive c then None
      else case c of
        Select_table g path \<Rightarrow> ob_select_table mx g path ob
      | Select_descriptor path \<Rightarrow> Some (ob_select_descriptor path ob)
      | Select_link_list col row _ \<Rightarrow> ob_select_link_list mx col row ob
      | Insert_group_level_table ndx _ _ \<Rightarrow> Some (ob_insert_group_level_table ndx ob)
      | Insert_empty_rows row_ndx n _ _ \<Rightarrow> ob_insert_empty_rows mx row_ndx n ob
      | Add_row_with_key row_ndx _ _ _ \<Rightarrow> ob_add_row_with_key mx row_ndx ob
      | Erase_rows row_ndx _ prior_num_rows unordered \<Rightarrow> ob_erase_rows mx row_ndx prior_num_rows unordered ob
      | Swap_rows r1 r2 \<Rightarrow> ob_swap_rows mx r1 r2 ob
      | Move_row from to \<Rightarrow> ob_move_row mx from to ob
      | Merge_rows from to \<Rightarrow> ob_merge_rows mx from to ob
      | Clear_table _ \<Rightarrow> ob_clear_table mx ob
      | Insert_link_column ndx _ _ _ _ \<Rightarrow> ob_insert_column ndx ob
      | Insert_column ndx _ _ _ \<Rightarrow> ob_insert_column ndx ob
      | Link_list_set index _ _ \<Rightarrow> ob_link_list_set mx index ob
      | Link_list_insert index _ _ \<Rightarrow> ob_link_list_insert mx index ob
      | Link_list_move from to \<Rightarrow> ob_link_list_move mx from to ob
      | Link_list_swap index1 index2 \<Rightarrow> ob_link_list_swap mx index1 index2 ob
      | Link_list_erase index _ \<Rightarrow> ob_link_list_erase mx index ob
      | Link_list_nullify index _ \<Rightarrow> ob_link_list_nullify mx index ob
      | Link_list_clear old_size \<Rightarrow> ob_link_list_clear mx old_size ob
      | _ \<Rightarrow> observe_set mx c ob)"

fun clean_up_lists :: "nat \<Rightarrow> list_change_info list \<Rightarrow> change_builder list \<Rightarrow> change_builder list option" where
  "clean_up_lists mx [] bs = Some bs"
| "clean_up_lists mx (li # ls) bs = do {
     realm_assert (li_changes li < length bs);
     b \<leftarrow> clean_up_stale_moves mx (bs ! li_changes li);
     clean_up_lists mx ls (bs[li_changes li := b])
   }"

definition ob_parse_complete :: "nat \<Rightarrow> observer \<Rightarrow> observer option" where
  "ob_parse_complete mx ob = do {
     ts \<leftarrow> mapM (cb_parse_complete mx) (tables (m_info ob));
     bs \<leftarrow> clean_up_lists mx (lists (m_info ob)) (builders (m_info ob));
     Some (ob\<lparr>m_info := (m_info ob)\<lparr>tables := ts, builders := bs\<rparr>\<rparr>)
   }"

subsection \<open>Transactions\<close>

text \<open>
  The part of \<open>SharedGroup\<close> that feeds an observer (\<open>core/realm/group_shared.hpp\<close>): the changesets between two
  versions when a read transaction advances, the reversed uncommitted changes when a write transaction is rolled
  back.  The scratch buffer of the stream over the uncommitted changes holds \<open>n\<close> bytes.
\<close>

definition do_advance_read ::
    "nat \<Rightarrow> (nat \<Rightarrow> byte list list) \<Rightarrow> nat \<Rightarrow> nat \<Rightarrow> observer \<Rightarrow> observer option" where
  "do_advance_read mx hist old_version new_version ob = do {
     realm_assert (old_version \<le> new_version);
     if new_version = old_version then Some ob
     else do {
       ob' \<leftarrow> parse (changeset_next_block hist) (observe mx) ob (changeset_stream_init hist old_version new_version);
       ob_parse_complete mx ob'
     }
   }"

definition rollback_and_continue_as_read ::
    "byte \<Rightarrow> (call \<Rightarrow> enc) \<Rightarrow> nat \<Rightarrow> nat \<Rightarrow> byte list \<Rightarrow> observer \<Rightarrow> observer option" where
  "rollback_and_continue_as_read junk sel n mx uncommitted_changes ob = do {
     r \<leftarrow> parse_in simple_read n (reverse_call junk sel) reverser_init uncommitted_changes;
     if uncommitted_changes \<noteq> [] then do {
       ob' \<leftarrow> parse reversed_next_block (observe mx) ob (reversed_stream_init r);
       ob_parse_complete mx ob'
     }
     else Some ob
   }"

text \<open>\<open>transaction::advance\<close> with a change info: nothing is observed when nothing is asked for.\<close>

definition transaction_advance ::
    "nat \<Rightarrow> (nat \<Rightarrow> byte list list) \<Rightarrow> nat \<Rightarrow> nat \<Rightarrow> change_info \<Rightarrow> change_info option" where
  "transaction_advance mx hist old_version new_version info =
     (if \<not> track_all info \<and> table_modifications_needed info = [] \<and> lists info = [] then Some info
      else map_option m_info (do_advance_read mx hist old_version new_version (observer_init info)))"

end
