(* ===== verification/Observer_Tracker.thy ===== *)
theory Observer_Tracker
  imports Log_Observer "HOL-Library.Multiset"
begin

text \<open>
  The reference for observed lists.  A tracker knows of every observed list where it is in the database, if it still
  exists, which table, descriptor and list are selected, which tables are observed and how many rows they have.  It
  says which edits a log makes to which list.  The observer's vector of lists holds exactly the tracker's locations,
  in whatever order.
\<close>

subsection \<open>Locations of lists\<close>

type_synonym location = "nat \<times> nat \<times> nat"

text \<open>
  \<open>tk_ready\<close>: a table is selected; \<open>tk_top\<close>: it is one of the group, not a subtable; \<open>tk_desc\<close>: a descriptor is
  selected, that of the table itself or another one; \<open>tk_sel\<close>, \<open>tk_sub\<close>: the observed list that is selected as a link
  list, or as a subtable.
\<close>

record tracker =
  tk_table :: nat
  tk_top :: bool
  tk_ready :: bool
  tk_desc :: "bool option"
  tk_locs :: "location option list"
  tk_sel :: "nat option"
  tk_sub :: "nat option"
  tk_all :: bool
  tk_flags :: "nat \<Rightarrow> bool"
  tk_moves :: "nat \<Rightarrow> bool"
  tk_rows :: "nat \<Rightarrow> nat"

definition watched :: "tracker \<Rightarrow> nat \<Rightarrow> bool" where
  "watched tk t \<longleftrightarrow> tk_all tk \<or> tk_flags tk t"

definition follows_moves :: "tracker \<Rightarrow> nat \<Rightarrow> bool" where
  "follows_moves tk t \<longleftrightarrow> tk_all tk \<or> tk_moves tk t"

text \<open>Where the cell in the given row and column of the selected table is after an instruction.\<close>

fun cell_after :: "call \<Rightarrow> nat \<Rightarrow> nat \<Rightarrow> (nat \<times> nat) option" where
  "cell_after (Insert_empty_rows i n _ _) r k = Some (if nat i \<le> r then r + nat n else r, k)"
| "cell_after (Add_row_with_key i _ _ _) r k = Some (if nat i \<le> r then r + 1 else r, k)"
| "cell_after (Erase_rows i n prior unordered) r k =
     (if unordered then (if r = nat i then None else if r = nat prior - 1 then Some (nat i, k) else Some (r, k))
      else if r < nat i then Some (r, k) else if r < nat i + nat n then None else Some (r - nat n, k))"
| "cell_after (Swap_rows i j) r k = Some (if r = nat i then nat j else if r = nat j then nat i else r, k)"
| "cell_after (Move_row i j) r k = Some (new_pos (nat i) (nat j) r, k)"
| "cell_after (Merge_rows i j) r k = Some (if r = nat i then nat j else r, k)"
| "cell_after (Clear_table _) r k = None"
| "cell_after (Insert_column c _ _ _) r k = Some (r, if nat c \<le> k then k + 1 else k)"
| "cell_after (Insert_link_column c _ _ _ _) r k = Some (r, if nat c \<le> k then k + 1 else k)"
| "cell_after _ r k = Some (r, k)"

fun table_after :: "call \<Rightarrow> nat \<Rightarrow> nat" where
  "table_after (Insert_group_level_table ndx _ _) t = (if nat ndx \<le> t then t + 1 else t)"
| "table_after _ t = t"

definition location_after :: "tracker \<Rightarrow> call \<Rightarrow> location \<Rightarrow> location option" where
  "location_after tk c = (\<lambda>(t, r, k).
     if tk_top tk \<and> t = tk_table tk \<and> (call_level c = Column_level \<longrightarrow> tk_desc tk = Some True)
     then map_option (\<lambda>(r, k). (table_after c t, r, k)) (cell_after c r k)
     else Some (table_after c t, r, k))"

definition find_loc :: "location \<Rightarrow> location option list \<Rightarrow> nat option" where
  "find_loc l locs = find (\<lambda>a. locs ! a = Some l) [0..<length locs]"

text \<open>The cell an instruction assigns to; default and unique values are no changes.\<close>

fun marked_cell :: "call \<Rightarrow> (nat \<times> nat) option" where
  "marked_cell (Set_int c r _ i _) = (if i = instr_Set then Some (nat r, nat c) else None)"
| "marked_cell (Set_bool c r _ i) = (if i = instr_Set then Some (nat r, nat c) else None)"
| "marked_cell (Set_float c r _ i) = (if i = instr_Set then Some (nat r, nat c) else None)"
| "marked_cell (Set_double c r _ i) = (if i = instr_Set then Some (nat r, nat c) else None)"
| "marked_cell (Set_string c r _ i _) = (if i = instr_Set then Some (nat r, nat c) else None)"
| "marked_cell (Set_binary c r _ i) = (if i = instr_Set then Some (nat r, nat c) else None)"
| "marked_cell (Set_olddatetime c r _ i) = (if i = instr_Set then Some (nat r, nat c) else None)"
| "marked_cell (Set_timestamp c r _ i) = (if i = instr_Set then Some (nat r, nat c) else None)"
| "marked_cell (Set_table c r i) = (if i = instr_Set then Some (nat r, nat c) else None)"
| "marked_cell (Set_mixed c r _ i) = (if i = instr_Set then Some (nat r, nat c) else None)"
| "marked_cell (Set_link c r _ _ i) = (if i = instr_Set then Some (nat r, nat c) else None)"
| "marked_cell (Set_null c r i _) = (if i = instr_Set then Some (nat r, nat c) else None)"
| "marked_cell (Add_int c r _) = Some (nat r, nat c)"
| "marked_cell (Nullify_link c r _) = Some (nat r, nat c)"
| "marked_cell (Insert_substring c r _ _) = Some (nat r, nat c)"
| "marked_cell (Erase_substring c r _ _) = Some (nat r, nat c)"
| "marked_cell _ = None"

text \<open>The number of rows of the selected table after an instruction that fits it.\<close>

fun rows_after :: "call \<Rightarrow> nat \<Rightarrow> nat option" where
  "rows_after (Insert_empty_rows i n prior _) m = (if nat prior = m \<and> nat i \<le> m \<and> 0 < nat n then Some (m + nat n) else None)"
| "rows_after (Add_row_with_key i prior _ _) m = (if nat prior = m \<and> nat i \<le> m then Some (m + 1) else None)"
| "rows_after (Erase_rows i n prior _) m = (if nat prior = m \<and> nat i < m \<and> nat n = 1 then Some (m - 1) else None)"
| "rows_after (Swap_rows i j) m = (if 0 \<le> i \<and> i < j \<and> nat j < m then Some m else None)"
| "rows_after (Move_row i j) m = (if nat i < m \<and> nat j < m then Some m else None)"
| "rows_after (Merge_rows i j) m = (if nat i < m \<and> nat j < m then Some m else None)"
| "rows_after (Clear_table _) m = Some 0"
| "rows_after c m = (case marked_cell c of Some (r, k) \<Rightarrow> if r < m then Some m else None | None \<Rightarrow> Some m)"

definition track :: "call \<Rightarrow> tracker \<Rightarrow> tracker" where
  "track c tk = (case c of
     Select_table g path \<Rightarrow> tk\<lparr>tk_table := nat g, tk_top := (path = []), tk_ready := True, tk_desc := None,
       tk_sub := (case path of [(col, row)] \<Rightarrow> find_loc (nat g, nat row, nat col) (tk_locs tk) | _ \<Rightarrow> None)\<rparr>
   | Select_descriptor path \<Rightarrow> tk\<lparr>tk_desc := Some (path = [])\<rparr>
   | Select_link_list col row _ \<Rightarrow> tk\<lparr>tk_sel := find_loc (tk_table tk, nat row, nat col) (tk_locs tk)\<rparr>
   | Insert_group_level_table ndx _ _ \<Rightarrow> tk\<lparr>tk_ready := False,
       tk_locs := map (\<lambda>l. Option.bind l (location_after tk c)) (tk_locs tk),
       tk_flags := row_insert (nat ndx) 1 False (tk_flags tk), tk_moves := row_insert (nat ndx) 1 False (tk_moves tk),
       tk_rows := row_insert (nat ndx) 1 0 (tk_rows tk)\<rparr>
   | _ \<Rightarrow> tk\<lparr>tk_locs := map (\<lambda>l. Option.bind l (location_after tk c)) (tk_locs tk),
       tk_rows := (if tk_top tk then (tk_rows tk)(tk_table tk := the (rows_after c (tk_rows tk (tk_table tk)))) else tk_rows tk)\<rparr>)"

subsection \<open>Edits of the selected list\<close>

datatype link_op = Edit list_op | Clear_list nat

fun link_apply :: "nat \<Rightarrow> link_op \<Rightarrow> change_builder \<Rightarrow> change_builder option" where
  "link_apply mx (Edit op) b = list_apply mx op b"
| "link_apply mx (Clear_list n) b = cb_clear mx n b"

fun link_edit :: "link_op \<Rightarrow> 'a option list \<Rightarrow> 'a option list" where
  "link_edit (Edit op) xs = list_edit op xs"
| "link_edit (Clear_list n) xs = []"

fun link_flags :: "link_op \<Rightarrow> (nat \<Rightarrow> bool) \<Rightarrow> nat \<Rightarrow> bool" where
  "link_flags (Edit op) f = list_flags op f"
| "link_flags (Clear_list n) f = (\<lambda>_. False)"

fun link_op_ok :: "link_op \<Rightarrow> nat \<Rightarrow> bool" where
  "link_op_ok (Edit op) n \<longleftrightarrow> list_op_ok op n"
| "link_op_ok (Clear_list m) n \<longleftrightarrow> m = n \<or> m = npos"

fun link_ops_ok :: "link_op list \<Rightarrow> nat \<Rightarrow> bool" where
  "link_ops_ok [] n \<longleftrightarrow> n \<le> npos"
| "link_ops_ok (op # ops) n \<longleftrightarrow> n \<le> npos \<and> link_op_ok op n \<and>
     link_ops_ok ops (length (link_edit op (replicate n (None :: nat option))))"

text \<open>Instructions on a link list, and instructions on the rows of a subtable, which is a list of primitives.\<close>

fun link_ops :: "call \<Rightarrow> link_op list" where
  "link_ops (Link_list_set i _ _) = [Edit (Modify (nat i) npos)]"
| "link_ops (Link_list_insert i _ _) = [Edit (Insert (nat i) 1)]"
| "link_ops (Link_list_erase i _) = [Edit (Erase (nat i))]"
| "link_ops (Link_list_nullify i _) = [Edit (Erase (nat i))]"
| "link_ops (Link_list_swap i j) = [Edit (Modify (nat i) npos), Edit (Modify (nat j) npos)]"
| "link_ops (Link_list_move i j) = [Edit (Move (nat i) (nat j))]"
| "link_ops (Link_list_clear n) = [Clear_list (nat n)]"
| "link_ops _ = []"

fun sub_ops :: "call \<Rightarrow> link_op list" where
  "sub_ops (Insert_empty_rows i n _ _) = [Edit (Insert (nat i) (nat n))]"
| "sub_ops (Add_row_with_key i _ _ _) = [Edit (Insert (nat i) 1)]"
| "sub_ops (Erase_rows i _ _ _) = [Edit (Erase (nat i))]"
| "sub_ops (Swap_rows i j) = Edit (Move (nat i) (nat j)) # (if i + 1 \<noteq> j then [Edit (Move (nat j - 1) (nat i))] else [])"
| "sub_ops (Move_row i j) = [Edit (Move (nat i) (nat j))]"
| "sub_ops (Clear_table _) = [Clear_list npos]"
| "sub_ops c = (case marked_cell c of Some (r, k) \<Rightarrow> [Edit (Modify r k)] | None \<Rightarrow> [])"

definition edits_of :: "tracker \<Rightarrow> call \<Rightarrow> nat \<Rightarrow> link_op list" where
  "edits_of tk c a = (if tk_sel tk = Some a then link_ops c else []) @
     (if tk_ready tk \<and> \<not> tk_top tk \<and> tk_sub tk = Some a then sub_ops c else [])"

text \<open>The edits that a log makes to list \<open>a\<close>.\<close>

fun ops_of :: "nat \<Rightarrow> tracker \<Rightarrow> call list \<Rightarrow> link_op list" where
  "ops_of a tk [] = []"
| "ops_of a tk (c # cs) = edits_of tk c a @ ops_of a (track c tk) cs"

subsection \<open>Logs the observer follows\<close>

definition in_rows :: "tracker \<Rightarrow> nat list \<Rightarrow> location option \<Rightarrow> bool" where
  "in_rows tk rows l = (case l of Some (t, r, k) \<Rightarrow> t = tk_table tk \<and> r \<in> set rows | None \<Rightarrow> False)"

definition in_current :: "tracker \<Rightarrow> location option \<Rightarrow> bool" where
  "in_current tk l = (case l of Some (t, r, k) \<Rightarrow> t = tk_table tk | None \<Rightarrow> False)"

fun needs_table :: "call \<Rightarrow> bool" where
  "needs_table (Select_table _ _) = False"
| "needs_table c = (call_level c = Row_level \<or> call_level c = Column_level)"

definition fits :: "tracker \<Rightarrow> call \<Rightarrow> bool" where
  "fits tk c \<longleftrightarrow> (let m = tk_rows tk (tk_table tk) in m \<le> npos \<and> rows_after c m \<noteq> None)"

text \<open>
  What every log of the database satisfies: no destructive schema change; rows and columns of a selected table; in a
  table of the group, rows that exist and the right prior sizes.  A subtable with an observed list has no columns
  inserted and its rows erased and moved in order only, one at a time.

  What the observer needs besides: an erased row of a table with observed lists is replaced by the last one and holds
  an observed list only if neither row holds another one; merged rows do not both hold observed lists, and are two rows
  where the table is observed; rows are not moved in a table with observed lists or observed itself; the owner of a
  subtable, and a table in a subtable of which a column is inserted, is observed.
\<close>

definition call_safe :: "tracker \<Rightarrow> call \<Rightarrow> bool" where
  "call_safe tk c = (\<not> is_destructive c \<and> (needs_table c \<longrightarrow> tk_ready tk) \<and>
     (needs_table c \<and> tk_top tk \<and> \<not> is_select c \<longrightarrow> fits tk c) \<and> (case c of
     Select_table g path \<Rightarrow> (case path of [(col, row)] \<Rightarrow> watched tk (nat g) \<and> nat row < tk_rows tk (nat g) | _ \<Rightarrow> True)
   | Select_link_list col row _ \<Rightarrow> tk_top tk \<and> nat row < tk_rows tk (tk_table tk)
   | Swap_rows i j \<Rightarrow> 0 \<le> i \<and> i < j
   | Erase_rows i n prior unordered \<Rightarrow>
       (if tk_top tk then \<not> list_ex (in_current tk) (tk_locs tk) \<or>
         unordered \<and> (list_ex (in_rows tk [nat i]) (tk_locs tk) \<longrightarrow>
            length (filter (in_rows tk [nat i, nat prior - 1]) (tk_locs tk)) \<le> 1)
        else tk_sub tk = None \<or> \<not> unordered \<and> n = 1)
   | Move_row i j \<Rightarrow> \<not> tk_top tk \<or> \<not> list_ex (in_current tk) (tk_locs tk) \<and> \<not> watched tk (tk_table tk)
   | Merge_rows i j \<Rightarrow>
       (if tk_top tk then (watched tk (tk_table tk) \<longrightarrow> nat i \<noteq> nat j) \<and>
         (nat i = nat j \<or> \<not> (list_ex (in_rows tk [nat i]) (tk_locs tk) \<and> list_ex (in_rows tk [nat j]) (tk_locs tk)))
        else tk_sub tk = None)
   | Insert_column _ _ _ _ \<Rightarrow> (if tk_top tk then tk_desc tk = Some True \<or> tk_desc tk = Some False \<and> watched tk (tk_table tk)
       else tk_desc tk \<noteq> None \<and> tk_sub tk = None)
   | Insert_link_column _ _ _ _ _ \<Rightarrow> (if tk_top tk then tk_desc tk = Some True \<or> tk_desc tk = Some False \<and> watched tk (tk_table tk)
       else tk_desc tk \<noteq> None \<and> tk_sub tk = None)
   | _ \<Rightarrow> True))"

fun log_safe :: "tracker \<Rightarrow> call list \<Rightarrow> bool" where
  "log_safe tk [] = True"
| "log_safe tk (c # cs) = (call_safe tk c \<and> log_safe (track c tk) cs)"

subsection \<open>Entries and locations\<close>

definition entry :: "list_change_info \<Rightarrow> nat \<times> location" where
  "entry li = (li_changes li, li_table_ndx li, li_row_ndx li, li_col_ndx li)"

definition located :: "location option list \<Rightarrow> list_change_info list \<Rightarrow> bool" where
  "located locs ls \<longleftrightarrow> distinct (map li_changes ls) \<and>
     entry ` set ls = {(a, l). a < length locs \<and> locs ! a = Some l} \<and>
     (\<forall>a < length locs. \<forall>b < length locs. \<forall>l. locs ! a = Some l \<longrightarrow> locs ! b = Some l \<longrightarrow> a = b)"

definition sel_ref :: "nat option \<Rightarrow> builder_ref" where
  "sel_ref s = (case s of Some a \<Rightarrow> List_ref a | None \<Rightarrow> Nullptr)"

lemma located_unique:
  "located locs ls \<Longrightarrow> a < length locs \<Longrightarrow> b < length locs \<Longrightarrow> locs ! a = Some l \<Longrightarrow> locs ! b = Some l \<Longrightarrow> a = b"
  unfolding located_def by blast

lemma pair_set_eqI: "(\<And>a l. (a, l) \<in> A \<longleftrightarrow> P a l) \<Longrightarrow> A = {(a, l). P a l}"
  by auto

lemma located_step:
  assumes "located locs ls" "distinct (map li_changes ls')"
    "entry ` set ls' = {(a, l'). \<exists>l. (a, l) \<in> entry ` set ls \<and> G l = Some l'}"
    "\<And>l m l'. Some l \<in> set locs \<Longrightarrow> Some m \<in> set locs \<Longrightarrow> G l = Some l' \<Longrightarrow> G m = Some l' \<Longrightarrow> l = m"
  shows "located (map (\<lambda>l. Option.bind l G) locs) ls'"
proof -
  let ?locs = "map (\<lambda>l. Option.bind l G) locs"
  have l: "entry ` set ls = {(a, l). a < length locs \<and> locs ! a = Some l}"
    "\<And>a b l. a < length locs \<Longrightarrow> b < length locs \<Longrightarrow> locs ! a = Some l \<Longrightarrow> locs ! b = Some l \<Longrightarrow> a = b"
    using assms(1) by (auto simp: located_def)
  have n: "?locs ! a = Some l' \<longleftrightarrow> (\<exists>l. locs ! a = Some l \<and> G l = Some l')" if "a < length locs" for a l'
    using that by (simp add: bind_eq_Some_conv)
  have "a = b" if ab: "a < length locs" "b < length locs" "?locs ! a = Some l'" "?locs ! b = Some l'" for a b l'
  proof -
    obtain x y where xy: "locs ! a = Some x" "G x = Some l'" "locs ! b = Some y" "G y = Some l'"
      using ab n by blast
    then have "x = y" using assms(4) [of x y l'] ab(1,2) nth_mem [of a locs] nth_mem [of b locs] by simp
    then show ?thesis using l(2) [OF ab(1,2)] xy by simp
  qed
  moreover have "entry ` set ls' = {(a, l'). a < length ?locs \<and> ?locs ! a = Some l'}"
    unfolding assms(3) l(1) using n by auto
  ultimately show ?thesis using assms(2) by (auto simp: located_def)
qed

lemma located_map:
  assumes "located locs ls" "\<And>li. entry (f li) = (li_changes li, g (snd (entry li)))"
    "\<And>l m. Some l \<in> set locs \<Longrightarrow> Some m \<in> set locs \<Longrightarrow> g l = g m \<Longrightarrow> l = m"
  shows "located (map (\<lambda>l. Option.bind l (\<lambda>l. Some (g l))) locs) (map f ls)"
proof (rule located_step [OF assms(1)])
  have c: "li_changes (f li) = li_changes li" for li using assms(2) [of li] by (simp add: entry_def)
  show "distinct (map li_changes (map f ls))" using assms(1) by (simp add: located_def comp_def c)
  have "entry ` set (map f ls) = (\<lambda>(a, l). (a, g l)) ` entry ` set ls"
    unfolding set_map image_image by (rule image_cong [OF refl]) (simp add: assms(2), simp add: entry_def)
  moreover have "(\<lambda>(a, l). (a, g l)) ` E = {(a, l'). \<exists>l. (a, l) \<in> E \<and> Some (g l) = Some l'}" for E :: "(nat \<times> location) set"
    by force
  ultimately show "entry ` set (map f ls) = {(a, l'). \<exists>l. (a, l) \<in> entry ` set ls \<and> Some (g l) = Some l'}"
    by (simp only:)
qed (use assms(3) in simp)

subsection \<open>The loop over the lists of an erased row\<close>

lemma erase_row_lists_step:
  "i < length ls \<Longrightarrow> erase_row_lists t r l i ls =
     (let li = ls ! i in
      if li_table_ndx li = t \<and> li_row_ndx li = r
      then erase_row_lists t r l (i + 1) (butlast (if i + 1 < length ls then ls[i := last ls] else ls))
      else erase_row_lists t r l (i + 1)
        (ls[i := if li_table_ndx li = t \<and> li_row_ndx li = l then li\<lparr>li_row_ndx := r\<rparr> else li]))"
  by (subst erase_row_lists.simps) (simp add: Let_def)

definition renumber :: "nat \<Rightarrow> nat \<Rightarrow> nat \<Rightarrow> list_change_info \<Rightarrow> list_change_info" where
  "renumber t r l li = (if li_table_ndx li = t \<and> li_row_ndx li = l then li\<lparr>li_row_ndx := r\<rparr> else li)"

lemma erase_row_lists_renumber:
  "\<forall>li \<in> set bs. \<not> (li_table_ndx li = t \<and> li_row_ndx li = r) \<Longrightarrow>
   erase_row_lists t r l (length as) (as @ bs) = as @ map (renumber t r l) bs"
proof (induction bs arbitrary: as)
  case Nil
  then show ?case by (subst erase_row_lists.simps) simp
next
  case (Cons b bs)
  have "erase_row_lists t r l (length as) (as @ b # bs) =
    erase_row_lists t r l (length (as @ [renumber t r l b])) ((as @ [renumber t r l b]) @ bs)"
    using Cons.prems by (subst erase_row_lists_step) (auto simp: Let_def renumber_def)
  then show ?case using Cons.IH [of "as @ [renumber t r l b]"] Cons.prems by simp
qed

lemma erase_row_lists_single:
  "\<forall>li \<in> set as \<union> set bs. \<not> (li_table_ndx li = t \<and> (li_row_ndx li = r \<or> li_row_ndx li = l)) \<Longrightarrow>
   li_table_ndx x = t \<Longrightarrow> li_row_ndx x = r \<Longrightarrow>
   erase_row_lists t r l (length ps) (ps @ as @ x # bs) =
     ps @ as @ (if bs = [] then [] else last bs # butlast bs)"
proof (induction as arbitrary: ps)
  case Nil
  let ?ls = "ps @ (if bs = [] then [] else last bs # butlast bs)"
  have "erase_row_lists t r l (length ps) (ps @ x # bs) = erase_row_lists t r l (length ps + 1) ?ls"
    using Nil.prems by (subst erase_row_lists_step) (auto simp: Let_def butlast_append list_update_append)
  also have "\<dots> = ?ls"
  proof (cases "bs = []")
    case True
    then show ?thesis by (subst erase_row_lists.simps) simp
  next
    case False
    have "\<forall>li \<in> set (butlast bs). \<not> (li_table_ndx li = t \<and> (li_row_ndx li = r \<or> li_row_ndx li = l))"
      using Nil.prems(1) in_set_butlastD by fastforce
    then have "map (renumber t r l) (butlast bs) = butlast bs"
      "\<forall>li \<in> set (butlast bs). \<not> (li_table_ndx li = t \<and> li_row_ndx li = r)"
      by (auto simp: renumber_def intro!: map_idI)
    then show ?thesis using erase_row_lists_renumber [of "butlast bs" t r l "ps @ [last bs]"] False by simp
  qed
  finally show ?case by simp
next
  case (Cons a as)
  have "erase_row_lists t r l (length ps) (ps @ (a # as) @ x # bs) =
    erase_row_lists t r l (length (ps @ [a])) ((ps @ [a]) @ as @ x # bs)"
    using Cons.prems by (subst erase_row_lists_step) (auto simp: Let_def)
  then show ?case using Cons.IH [of "ps @ [a]"] Cons.prems by simp
qed

lemma filter_at_most_one:
  assumes "length (filter P xs) \<le> 1" "a < length xs" "b < length xs" "P (xs ! a)" "P (xs ! b)"
  shows "a = b"
proof -
  have "card {i. i < length xs \<and> P (xs ! i)} \<le> Suc 0" using assms(1) by (simp add: length_filter_conv_card)
  then show ?thesis using assms(2-5) by (subst (asm) card_le_Suc0_iff_eq) auto
qed

lemma entry_in_locs: "located locs ls \<Longrightarrow> li \<in> set ls \<Longrightarrow> li_changes li < length locs \<and>
  locs ! li_changes li = Some (li_table_ndx li, li_row_ndx li, li_col_ndx li)"
  using imageI [of li "set ls" entry] by (simp add: located_def) (simp add: entry_def)

lemma locs_in_entry: "located locs ls \<Longrightarrow> Some l \<in> set locs \<Longrightarrow> \<exists>li \<in> set ls. snd (entry li) = l"
proof -
  assume "located locs ls" "Some l \<in> set locs"
  then obtain a where "a < length locs" "locs ! a = Some l" by (auto simp: in_set_conv_nth)
  then have "(a, l) \<in> entry ` set ls" using \<open>located locs ls\<close> by (simp add: located_def)
  then obtain li where "li \<in> set ls" "(a, l) = entry li" by (rule imageE) blast
  then show ?thesis by (metis snd_conv)
qed

definition erase_after :: "nat \<Rightarrow> nat \<Rightarrow> nat \<Rightarrow> location \<Rightarrow> location option" where
  "erase_after t i l = (\<lambda>(t', r, k). if t' \<noteq> t then Some (t', r, k)
     else if r = i then None else if r = l then Some (t', i, k) else Some (t', r, k))"

lemma located_erase_free:
  assumes l: "located locs ls" and free: "\<forall>li \<in> set ls. \<not> (li_table_ndx li = t \<and> li_row_ndx li = i)"
  shows "located (map (\<lambda>o'. Option.bind o' (erase_after t i last_row)) locs) (erase_row_lists t i last_row 0 ls)"
proof -
  let ?g = "\<lambda>(t', r, k). (t', if t' = t \<and> r = last_row then i else r, k) :: location"
  have e: "erase_row_lists t i last_row 0 ls = map (renumber t i last_row) ls"
    using erase_row_lists_renumber [of ls t i last_row "[]"] free by simp
  have u: "\<not> (fst p = t \<and> fst (snd p) = i)" if "Some p \<in> set locs" for p
    using locs_in_entry [OF l that] free by (auto simp: entry_def)
  have "located (map (\<lambda>o'. Option.bind o' (\<lambda>p. Some (?g p))) locs) (map (renumber t i last_row) ls)"
  proof (rule located_map [OF l])
    show "entry (renumber t i last_row li) = (li_changes li, ?g (snd (entry li)))" for li
      by (simp add: entry_def renumber_def)
    show "p = q" if "Some p \<in> set locs" "Some q \<in> set locs" "?g p = ?g q" for p q
      using u [OF that(1)] u [OF that(2)] that(3) by (cases p; cases q) (auto split: if_splits)
  qed
  moreover have "map (\<lambda>o'. Option.bind o' (\<lambda>p. Some (?g p))) locs = map (\<lambda>o'. Option.bind o' (erase_after t i last_row)) locs"
    by (rule map_cong [OF refl]) (use u in \<open>fastforce simp: erase_after_def split: Option.bind_splits\<close>)
  ultimately show ?thesis unfolding e by simp
qed

lemma located_erase_hit:
  assumes l: "located locs ls" and x: "ls = as @ x # bs" "li_table_ndx x = t" "li_row_ndx x = i"
    and others: "\<forall>li \<in> set as \<union> set bs. \<not> (li_table_ndx li = t \<and> (li_row_ndx li = i \<or> li_row_ndx li = last_row))"
  shows "located (map (\<lambda>o'. Option.bind o' (erase_after t i last_row)) locs) (erase_row_lists t i last_row 0 ls)"
proof (rule located_step [OF l])
  let ?cs = "if bs = [] then [] else last bs # butlast bs"
  have e: "erase_row_lists t i last_row 0 ls = as @ ?cs"
    using erase_row_lists_single [OF others x(2,3), of "[]"] x(1) by simp
  have cs: "set ?cs = set bs" "mset ?cs = mset bs" by (cases bs rule: rev_cases; simp)+
  have "mset (map li_changes (as @ ?cs)) = mset (map li_changes (as @ bs))" using cs(2) by simp
  then have "distinct (map li_changes (as @ ?cs)) \<longleftrightarrow> distinct (map li_changes (as @ bs))" by (metis mset_eq_imp_distinct_iff)
  then show "distinct (map li_changes (erase_row_lists t i last_row 0 ls))"
    unfolding e using l x(1) by (simp add: located_def)
  have gx: "erase_after t i last_row (snd (entry x)) = None" using x by (simp add: erase_after_def entry_def)
  have go: "erase_after t i last_row (snd (entry li)) = Some (snd (entry li))" if "li \<in> set as \<union> set bs" for li
    using others that by (auto simp: erase_after_def entry_def)
  have "(a, l') \<in> entry ` set (as @ ?cs) \<longleftrightarrow> (\<exists>l. (a, l) \<in> entry ` set ls \<and> erase_after t i last_row l = Some l')" for a l'
  proof
    assume "(a, l') \<in> entry ` set (as @ ?cs)"
    then obtain li where li: "li \<in> set as \<union> set bs" "entry li = (a, l')"
      unfolding set_append cs(1) by (metis imageE)
    then show "\<exists>l. (a, l) \<in> entry ` set ls \<and> erase_after t i last_row l = Some l'"
      using go [OF li(1)] x(1) by (intro exI [of _ l']) (force simp: image_iff)
  next
    assume "\<exists>l. (a, l) \<in> entry ` set ls \<and> erase_after t i last_row l = Some l'"
    then obtain li where li: "li \<in> set ls" "fst (entry li) = a" "erase_after t i last_row (snd (entry li)) = Some l'"
      by (metis imageE fst_conv snd_conv)
    then have m: "li \<in> set as \<union> set bs" using x(1) gx by auto
    then have "entry li = (a, l')" using go [OF m] li(2,3) by (simp add: prod_eq_iff)
    then show "(a, l') \<in> entry ` set (as @ ?cs)" using m cs(1) by (auto simp: image_iff intro: bexI [of _ li])
  qed
  then show "entry ` set (erase_row_lists t i last_row 0 ls) =
    {(a, l'). \<exists>l. (a, l) \<in> entry ` set ls \<and> erase_after t i last_row l = Some l'}" unfolding e by (rule pair_set_eqI)
  show "p = q" if pq: "Some p \<in> set locs" "Some q \<in> set locs" "erase_after t i last_row p = Some l'"
    "erase_after t i last_row q = Some l'" for p q l'
  proof -
    obtain u v where "u \<in> set ls" "snd (entry u) = p" "v \<in> set ls" "snd (entry v) = q"
      using locs_in_entry [OF l] pq(1,2) by metis
    then show ?thesis using go gx pq(3,4) x(1) by (metis Un_iff option.distinct(1) option.inject set_append set_ConsD Un_commute insert_iff list.simps(15))
  qed
qed

lemma located_erase:
  assumes l: "located locs ls"
    and one: "(\<exists>k. Some (t, i, k) \<in> set locs) \<Longrightarrow>
      length (filter (\<lambda>o'. case o' of Some (t', r, k) \<Rightarrow> t' = t \<and> r \<in> {i, last_row} | None \<Rightarrow> False) locs) \<le> 1"
  shows "located (map (\<lambda>o'. Option.bind o' (erase_after t i last_row)) locs) (erase_row_lists t i last_row 0 ls)"
proof (cases "\<exists>li \<in> set ls. li_table_ndx li = t \<and> li_row_ndx li = i")
  case False
  then show ?thesis by (intro located_erase_free [OF l]) blast
next
  case True
  then obtain x where x: "x \<in> set ls" "li_table_ndx x = t" "li_row_ndx x = i" by blast
  then obtain as bs where ls: "ls = as @ x # bs" by (meson split_list)
  let ?P = "\<lambda>o'. case o' of Some (t', r, k) \<Rightarrow> t' = t \<and> r \<in> {i, last_row} | None \<Rightarrow> False"
  have X: "li_changes x < length locs" "locs ! li_changes x = Some (t, i, li_col_ndx x)"
    using entry_in_locs [OF l x(1)] x(2,3) by auto
  then have "\<exists>k. Some (t, i, k) \<in> set locs" by (metis nth_mem)
  then have o: "length (filter ?P locs) \<le> 1" by (rule one)
  have "\<not> (li_table_ndx li = t \<and> (li_row_ndx li = i \<or> li_row_ndx li = last_row))" if li: "li \<in> set as \<union> set bs" for li
  proof
    assume h: "li_table_ndx li = t \<and> (li_row_ndx li = i \<or> li_row_ndx li = last_row)"
    have "li \<in> set ls" using li ls by auto
    then have "li_changes li < length locs" "?P (locs ! li_changes li)" using entry_in_locs [OF l] h by auto
    then have "li_changes li = li_changes x" using filter_at_most_one [OF o] X by auto
    moreover have "distinct (map li_changes (as @ x # bs))" using l ls by (simp add: located_def)
    ultimately show False using li by (auto simp: image_iff)
  qed
  then show ?thesis by (intro located_erase_hit [OF l ls x(2,3)]) blast
qed

lemma located_filter:
  assumes "located locs ls"
  shows "located (map (\<lambda>o'. Option.bind o' (\<lambda>p. if fst p = t then None else Some p)) locs)
    (filter (\<lambda>li. li_table_ndx li \<noteq> t) ls)"
proof (rule located_step [OF assms])
  show "distinct (map li_changes (filter (\<lambda>li. li_table_ndx li \<noteq> t) ls))"
    using assms by (simp add: located_def distinct_map_filter)
  show "entry ` set (filter (\<lambda>li. li_table_ndx li \<noteq> t) ls) =
    {(a, l'). \<exists>l. (a, l) \<in> entry ` set ls \<and> (if fst l = t then None else Some l) = Some l'}"
    by (auto simp: image_iff entry_def split: if_splits)
qed (auto split: if_splits)

lemma located_same: "located (map (\<lambda>o'. Option.bind o' Some) locs) ls \<longleftrightarrow> located locs ls"
proof -
  have "map (\<lambda>o'. Option.bind o' Some) locs = locs" by (rule map_idI) (simp split: Option.bind_splits)
  then show ?thesis by simp
qed

lemma find_SomeD: "find P xs = Some x \<Longrightarrow> x \<in> set xs \<and> P x"
  by (induction xs) (auto split: if_splits)

lemma find_list_located:
  assumes "located locs ls"
  shows "find_list t k r ls = sel_ref (find_loc (t, r, k) locs)"
proof (cases "\<exists>a < length locs. locs ! a = Some (t, r, k)")
  case True
  then obtain a where a: "a < length locs" "locs ! a = Some (t, r, k)" by blast
  let ?P = "\<lambda>li. li_table_ndx li = t \<and> li_row_ndx li = r \<and> li_col_ndx li = k"
  have only: "li_changes li = a" if "li \<in> set ls" "?P li" for li
    using entry_in_locs [OF assms that(1)] that(2) a assms by (auto simp: located_def)
  have "(a, t, r, k) \<in> entry ` set ls" using assms a by (simp add: located_def)
  then obtain x where x: "x \<in> set (rev ls)" "?P x" by (auto simp: entry_def)
  have "find ?P (rev ls) \<noteq> None" unfolding find_None_iff using x by blast
  then obtain li where li: "find ?P (rev ls) = Some li" by blast
  then have "li \<in> set ls" "?P li" using find_SomeD [OF li] by simp_all
  then have "find_list t k r ls = List_ref a" using only li by (simp add: find_list_def)
  moreover have "find (\<lambda>b. locs ! b = Some (t, r, k)) [0..<length locs] = Some a"
  proof -
    have "find (\<lambda>b. locs ! b = Some (t, r, k)) [0..<length locs] \<noteq> None" unfolding find_None_iff using a by auto
    then obtain b where b: "find (\<lambda>b. locs ! b = Some (t, r, k)) [0..<length locs] = Some b" by blast
    from find_SomeD [OF b] have "b < length locs" "locs ! b = Some (t, r, k)" by simp_all
    then have "b = a" using located_unique [OF assms _ a(1) _ a(2)] by blast
    then show ?thesis using b by simp
  qed
  ultimately show ?thesis by (simp add: sel_ref_def find_loc_def)
next
  case False
  then have "find (\<lambda>b. locs ! b = Some (t, r, k)) [0..<length locs] = None" by (auto simp: find_None_iff)
  moreover have "find (\<lambda>li. li_table_ndx li = t \<and> li_row_ndx li = r \<and> li_col_ndx li = k) (rev ls) = None"
    using False entry_in_locs [OF assms] by (fastforce simp: find_None_iff)
  ultimately show ?thesis by (simp add: sel_ref_def find_loc_def find_list_def)
qed

lemma erase_without_lists:
  assumes "\<forall>li \<in> set ls. li_table_ndx li \<noteq> t"
  shows "erase_row_lists t i l 0 ls = ls"
proof -
  have "map (renumber t i l) ls = ls" using assms by (intro map_idI) (auto simp: renumber_def)
  then show ?thesis using erase_row_lists_renumber [of ls t i l "[]"] assms by auto
qed

lemma in_rows_iff: "list_ex (in_rows tk [r]) (tk_locs tk) \<longleftrightarrow> (\<exists>k. Some (tk_table tk, r, k) \<in> set (tk_locs tk))"
  by (force simp: list_ex_iff in_rows_def split: option.splits)

end
