(* ===== verification/Observer_Schema.thy ===== *)
theory Observer_Schema
  imports Log_Observer
begin

text \<open>
  Schema changes while a transaction is observed.  The validator stops a log at the first destructive change.
  The observer keeps, for every table that was there at the start, its present index, and for every column its
  initial one; the flags that say what is observed and the builders move along with the tables.
\<close>

subsection \<open>Validation\<close>

definition last_table :: "call list \<Rightarrow> nat \<Rightarrow> nat" where
  "last_table cs t = fold (\<lambda>c t. case c of Select_table g _ \<Rightarrow> nat g | _ \<Rightarrow> t) cs t"

lemma validator_step:
  "\<not> is_destructive c \<Longrightarrow> validator c v = Some (v\<lparr>m_current_table := (case c of Select_table g _ \<Rightarrow> nat g | _ \<Rightarrow> m_current_table v)\<rparr>)"
  by (cases c) (simp_all add: validator_def validate_select_table_def)

lemma validator_run:
  "foldM validator cs v =
     (if list_ex is_destructive cs then None else Some (v\<lparr>m_current_table := last_table cs (m_current_table v)\<rparr>))"
proof (induction cs arbitrary: v)
  case (Cons c cs)
  show ?case
  proof (cases "is_destructive c")
    case False
    then show ?thesis using Cons.IH by (simp add: validator_step [OF False] last_table_def)
  qed (simp add: validator_def)
qed (simp add: last_table_def)

text \<open>
  What is destructive, said by the effect on the names of the tables of a group and of the columns of the selected
  descriptor: a name that was there is there no more.
\<close>

fun tables_after :: "call \<Rightarrow> byte list list \<Rightarrow> byte list list" where
  "tables_after (Insert_group_level_table t _ name) names = take (nat t) names @ name # drop (nat t) names"
| "tables_after (Erase_group_level_table t _) names = take (nat t) names @ drop (Suc (nat t)) names"
| "tables_after (Rename_group_level_table t name) names = names[nat t := name]"
| "tables_after _ names = names"

fun columns_after :: "call \<Rightarrow> byte list list \<Rightarrow> byte list list" where
  "columns_after (Insert_column c _ name _) names = take (nat c) names @ name # drop (nat c) names"
| "columns_after (Insert_link_column c _ name _ _) names = take (nat c) names @ name # drop (nat c) names"
| "columns_after (Erase_column c) names = take (nat c) names @ drop (Suc (nat c)) names"
| "columns_after (Erase_link_column c _ _) names = take (nat c) names @ drop (Suc (nat c)) names"
| "columns_after (Rename_column c name) names = names[nat c := name]"
| "columns_after _ names = names"

definition removes_or_renames :: "call \<Rightarrow> bool" where
  "removes_or_renames c \<longleftrightarrow>
     (\<exists>names. \<not> set names \<subseteq> set (tables_after c names)) \<or> (\<exists>names. \<not> set names \<subseteq> set (columns_after c names))"

lemma drop_name: "\<exists>names :: byte list list. \<not> set names \<subseteq> set (take n names @ drop (Suc n) names)"
  by (rule exI [of _ "replicate n [] @ [[0]]"]) auto

lemma change_name: "\<exists>names :: byte list list. \<not> set names \<subseteq> set (names[n := name])"
  by (rule exI [of _ "replicate n name @ [0 # name]"]) (auto simp: list_update_append)

lemma insert_name: "set names \<subseteq> set (take n names @ name # drop n names)"
  by (metis Un_upper1 append_take_drop_id list.simps(15) set_append subset_insertI2 sup.mono order_refl)

lemma is_destructive_iff: "is_destructive c \<longleftrightarrow> removes_or_renames c"
  unfolding removes_or_renames_def by (cases c) (simp_all add: drop_name change_name insert_name del: set_append)

lemma is_destructive_eq: "is_destructive = removes_or_renames"
  using is_destructive_iff by blast

text \<open>A log without such an instruction keeps all the tables.\<close>

lemma tables_kept: "\<not> list_ex removes_or_renames cs \<Longrightarrow> set names \<subseteq> set (fold tables_after cs names)"
proof (induction cs arbitrary: names)
  case (Cons c cs)
  then have "set names \<subseteq> set (tables_after c names)" by (auto simp: removes_or_renames_def)
  then show ?case using Cons.IH [of "tables_after c names"] Cons.prems by auto
qed simp

lemma observe_destructive: "is_destructive c \<Longrightarrow> observe mx c ob = None"
  by (simp add: observe_def)

subsection \<open>Inserted tables\<close>

definition new_table_ndx :: "change_info \<Rightarrow> nat \<Rightarrow> nat" where
  "new_table_ndx info ndx = (if ndx < length (table_indices info) then table_indices info ! ndx else ndx)"

definition push_up :: "nat \<Rightarrow> nat \<Rightarrow> nat" where
  "push_up i t = (if i \<le> t then t + 1 else t)"

lemma nth_insert_empty_at_push:
  "k < length xs \<Longrightarrow> push_up i k < length (insert_empty_at d i xs) \<and> insert_empty_at d i xs ! push_up i k = xs ! k"
  by (auto simp: insert_empty_at_def push_up_def nth_append min_def nth_Cons')

lemma insert_empty_at_outside: "\<not> k < length xs \<Longrightarrow> \<not> push_up i k < length (insert_empty_at d i xs)"
  by (auto simp: insert_empty_at_def push_up_def)

lemma is_set_flag_push: "is_set_flag (insert_empty_at False i fs) (push_up i k) = is_set_flag fs k"
  using nth_insert_empty_at_push [of k fs i False] insert_empty_at_outside [of k fs i False]
  by (cases "k < length fs") (auto simp: is_set_flag_def)

text \<open>The flags, the builder and the lists of a table are at the table's present index.\<close>

definition follows :: "change_info \<Rightarrow> (nat \<Rightarrow> nat) \<Rightarrow> change_info \<Rightarrow> bool" where
  "follows info p info' \<longleftrightarrow>
     (\<forall>k. is_set_flag (table_modifications_needed info') (p k) = is_set_flag (table_modifications_needed info) k \<and>
        is_set_flag (table_moves_needed info') (p k) = is_set_flag (table_moves_needed info) k \<and>
        (k < length (tables info) \<longrightarrow> p k < length (tables info') \<and> tables info' ! p k = tables info ! k)) \<and>
     (\<forall>k < length (table_modifications_needed info). new_table_ndx info' k = p k) \<and>
     map li_table_ndx (lists info') = map (p \<circ> li_table_ndx) (lists info)"

lemma info_after_insert:
  "m_info (ob_insert_group_level_table ndx ob) =
     (let i = prepare_table_indices (m_info ob) in i\<lparr>schema_changed := True,
        lists := map (\<lambda>li. li\<lparr>li_table_ndx := push_up (nat ndx) (li_table_ndx li)\<rparr>) (lists i),
        table_indices := map (push_up (nat ndx)) (table_indices i),
        tables := insert_empty_at cb_default (nat ndx) (tables i),
        table_moves_needed := insert_empty_at False (nat ndx) (table_moves_needed i),
        table_modifications_needed := insert_empty_at False (nat ndx) (table_modifications_needed i)\<rparr>)"
proof -
  have "(\<lambda>li. if nat ndx \<le> li_table_ndx li then li\<lparr>li_table_ndx := li_table_ndx li + 1\<rparr> else li) =
    (\<lambda>li. li\<lparr>li_table_ndx := push_up (nat ndx) (li_table_ndx li)\<rparr>)" by (simp add: fun_eq_iff push_up_def)
  then show ?thesis
    by (simp add: ob_insert_group_level_table_def Let_def map_lists_def set_schema_changed_def prepare_table_indices_def
      set_tables_def adjust_ge_def push_up_def [abs_def])
qed

lemma insert_table_cong:
  "m_info a = m_info b \<Longrightarrow> m_info (ob_insert_group_level_table i a) = m_info (ob_insert_group_level_table i b)"
  by (simp only: info_after_insert)

lemma insert_tables_cong:
  "m_info a = m_info b \<Longrightarrow> m_info (fold ob_insert_group_level_table js a) = m_info (fold ob_insert_group_level_table js b)"
  by (induction js arbitrary: a b) (simp, metis insert_table_cong fold_simps(2))

lemma follows_start:
  assumes "table_indices info = []"
  shows "follows info (\<lambda>k. k) (prepare_table_indices info)"
  using assms by (auto simp: follows_def prepare_table_indices_def new_table_ndx_def comp_def)

lemma prepare_same:
  "length (table_indices info') = length (table_modifications_needed info) \<Longrightarrow> 0 < length (table_modifications_needed info) \<Longrightarrow>
   prepare_table_indices info' = info'"
  by (auto simp: prepare_table_indices_def)

lemma follows_insert:
  assumes "follows info p info'" "length (table_indices info') = length (table_modifications_needed info)"
    "info'' = info'\<lparr>schema_changed := True,
        lists := map (\<lambda>li. li\<lparr>li_table_ndx := push_up i (li_table_ndx li)\<rparr>) (lists info'),
        table_indices := map (push_up i) (table_indices info'),
        tables := insert_empty_at cb_default i (tables info'),
        table_moves_needed := insert_empty_at False i (table_moves_needed info'),
        table_modifications_needed := insert_empty_at False i (table_modifications_needed info')\<rparr>"
  shows "follows info (push_up i \<circ> p) info''"
proof -
  have "map li_table_ndx (lists info'') = map (push_up i) (map li_table_ndx (lists info'))" by (simp add: assms(3))
  also have "\<dots> = map ((push_up i \<circ> p) \<circ> li_table_ndx) (lists info)" using assms(1) by (simp add: follows_def)
  finally have l: "map li_table_ndx (lists info'') = map ((push_up i \<circ> p) \<circ> li_table_ndx) (lists info)" .
  show ?thesis unfolding follows_def l using assms(1,2)
    by (simp add: assms(3) follows_def is_set_flag_push new_table_ndx_def nth_insert_empty_at_push)
qed

lemma insert_tables_run:
  "follows info p (m_info ob) \<Longrightarrow> length (table_indices (m_info ob)) = length (table_modifications_needed info) \<Longrightarrow>
   0 < length (table_modifications_needed info) \<Longrightarrow>
   follows info (fold push_up (map nat ndxs) \<circ> p) (m_info (fold ob_insert_group_level_table ndxs ob))"
proof (induction ndxs arbitrary: ob p)
  case Nil
  then show ?case by (simp add: comp_def)
next
  case (Cons i ndxs)
  note e = info_after_insert [of i ob, unfolded prepare_same [OF Cons.prems(2,3)] Let_def]
  have f: "follows info (push_up (nat i) \<circ> p) (m_info (ob_insert_group_level_table i ob))"
    by (rule follows_insert [OF Cons.prems(1,2) e])
  have l: "length (table_indices (m_info (ob_insert_group_level_table i ob))) = length (table_modifications_needed info)"
    using Cons.prems(2) by (simp add: e)
  from Cons.IH [OF f l Cons.prems(3)] show ?case by (simp add: comp_def)
qed

lemma inserted_tables:
  assumes "table_indices (m_info ob) = []" "table_modifications_needed (m_info ob) \<noteq> []" "ndxs \<noteq> []"
  shows "follows (m_info ob) (fold push_up (map nat ndxs)) (m_info (fold ob_insert_group_level_table ndxs ob))"
proof -
  obtain i js where n: "ndxs = i # js" using assms(3) by (cases ndxs) auto
  let ?ob = "ob\<lparr>m_info := prepare_table_indices (m_info ob)\<rparr>"
  have l: "length (table_indices (m_info ?ob)) = length (table_modifications_needed (m_info ob))"
    "0 < length (table_modifications_needed (m_info ob))"
    using assms(1,2) by (auto simp: prepare_table_indices_def)
  have "prepare_table_indices (prepare_table_indices (m_info ob)) = prepare_table_indices (m_info ob)"
    by (simp add: prepare_table_indices_def)
  then have "m_info (ob_insert_group_level_table i ?ob) = m_info (ob_insert_group_level_table i ob)"
    unfolding info_after_insert by simp
  moreover have "follows (m_info ob) (fold push_up (map nat ndxs) \<circ> (\<lambda>k. k)) (m_info (fold ob_insert_group_level_table ndxs ?ob))"
    using follows_start [OF assms(1)] by (intro insert_tables_run l) simp
  ultimately show ?thesis using insert_tables_cong [of "ob_insert_group_level_table i ?ob" "ob_insert_group_level_table i ob" js]
    by (simp add: n comp_def)
qed

text \<open>The column indices, which are also kept per table, stay where they are.\<close>

lemma inserted_tables_columns:
  "column_indices (m_info (fold ob_insert_group_level_table ndxs ob)) = column_indices (m_info ob)"
proof (induction ndxs arbitrary: ob)
  case (Cons i ndxs)
  have "column_indices (m_info (ob_insert_group_level_table i ob)) = column_indices (m_info ob)"
    by (simp add: info_after_insert Let_def prepare_table_indices_def)
  then show ?case using Cons.IH by simp
qed simp

subsection \<open>Inserted columns\<close>

definition columns_of :: "change_info \<Rightarrow> nat \<Rightarrow> nat list" where
  "columns_of info t = (if t < length (column_indices info) then column_indices info ! t else [])"

text \<open>The selected descriptor is that of the selected top-level table, observed or not.\<close>

definition table_selected :: "observer \<Rightarrow> bool" where
  "table_selected ob \<longleftrightarrow> m_is_top_level_table ob \<and> m_active_descriptor ob = m_active_table ob \<and>
     (m_active_table ob = Nullptr \<or> m_active_table ob = Table_ref (m_current_table ob)) \<and>
     (m_active_table ob \<noteq> Nullptr \<longrightarrow> m_current_table ob < length (tables (m_info ob)))"

definition edit_columns :: "nat list \<Rightarrow> nat \<Rightarrow> nat list" where
  "edit_columns xs ndx = (insert_empty_at 0 ndx (expand_to xs ndx))[ndx := npos]"

lemma edit_columns_correct:
  assumes "columns_ok xs" "length xs < max_columns" "ndx < max_columns"
  shows "columns_ok (edit_columns xs ndx)" "column_origin (edit_columns xs ndx) = row_insert ndx 1 None (column_origin xs)"
proof -
  note e = expand_to_ok [OF assms]
  have "column_origin (expand_to xs ndx) = column_origin xs" by (simp add: fun_eq_iff column_origin_def e(3))
  then show "columns_ok (edit_columns xs ndx)" "column_origin (edit_columns xs ndx) = row_insert ndx 1 None (column_origin xs)"
    unfolding edit_columns_def using insert_column_index [OF e(1,2), of 0] by simp_all
qed

lemma length_edit_columns: "ndx < n \<Longrightarrow> length xs \<le> 2 * n + k \<Longrightarrow> length (edit_columns xs ndx) \<le> 2 * n + Suc k"
  by (auto simp: edit_columns_def expand_to_def insert_empty_at_def Let_def)

lemma insert_column_selected:
  assumes "table_selected ob"
  shows "\<exists>ob'. ob_insert_column ndx ob = Some ob' \<and> table_selected ob' \<and> m_current_table ob' = m_current_table ob \<and>
    columns_of (m_info ob') = (columns_of (m_info ob))(m_current_table ob := edit_columns (columns_of (m_info ob) (m_current_table ob)) (nat ndx)) \<and>
    lists (m_info ob') = map (on_current ob (\<lambda>li. if nat ndx \<le> li_col_ndx li then li\<lparr>li_col_ndx := li_col_ndx li + 1\<rparr> else li)) (lists (m_info ob))"
proof -
  let ?t = "m_current_table ob"
  obtain ob1 where ob1: "with_builder (m_active_descriptor ob) (\<lambda>b. Some (cb_insert_column (nat ndx) b)) (set_schema_changed ob) = Some ob1"
    "table_selected ob1" "m_current_table ob1 = ?t" "column_indices (m_info ob1) = column_indices (m_info ob)" "lists (m_info ob1) = lists (m_info ob)"
    using assms by (auto simp: with_builder_def table_selected_def set_schema_changed_def)
  have same: "same_ref (m_active_descriptor ob1) (m_active_table ob1) = Some True" "m_is_top_level_table ob1"
    using ob1(2) by (auto simp: table_selected_def same_ref_def)
  let ?f = "\<lambda>li. if nat ndx \<le> li_col_ndx li then li\<lparr>li_col_ndx := li_col_ndx li + 1\<rparr> else li"
  have cur: "on_current ob1 ?f = on_current ob ?f" using ob1(3) by (simp add: fun_eq_iff on_current_def)
  have d: "m_active_descriptor (set_schema_changed ob) = m_active_descriptor ob" by (simp add: set_schema_changed_def)
  obtain ob2 where ob2: "current_columns (\<lambda>indices. Some (edit_columns indices (nat ndx))) (map_lists (on_current ob1 ?f) ob1) = Some ob2"
    "table_selected ob2" "m_current_table ob2 = ?t" "lists (m_info ob2) = map (on_current ob ?f) (lists (m_info ob))"
    "columns_of (m_info ob2) = (columns_of (m_info ob))(?t := edit_columns (columns_of (m_info ob) ?t) (nat ndx))"
    using ob1(2-5) unfolding cur
    by (auto simp: current_columns_def map_lists_def Let_def columns_of_def table_selected_def fun_eq_iff resize_def nth_append)
  have "ob_insert_column ndx ob = Some ob2"
    using ob1(1) ob2(1) same unfolding edit_columns_def ob_insert_column_def by (simp add: d)
  then show ?thesis using ob2(2-5) by blast
qed

lemma insert_columns_run:
  "table_selected ob \<Longrightarrow> columns_ok (columns_of (m_info ob) (m_current_table ob)) \<Longrightarrow>
   length (columns_of (m_info ob) (m_current_table ob)) \<le> 2 * n + k \<Longrightarrow> \<forall>ndx \<in> set ndxs. nat ndx < n \<Longrightarrow>
   2 * n + k + length ndxs < max_columns \<Longrightarrow>
   \<exists>ob'. foldM ob_insert_column ndxs ob = Some ob' \<and>
     column_origin (columns_of (m_info ob') (m_current_table ob)) =
       fold (\<lambda>ndx. row_insert (nat ndx) 1 None) ndxs (column_origin (columns_of (m_info ob) (m_current_table ob))) \<and>
     (\<forall>t. t \<noteq> m_current_table ob \<longrightarrow> columns_of (m_info ob') t = columns_of (m_info ob) t)"
proof (induction ndxs arbitrary: ob k)
  case Nil
  then show ?case by simp
next
  case (Cons ndx ndxs)
  let ?t = "m_current_table ob"
  obtain ob1 where ob1: "ob_insert_column ndx ob = Some ob1" "table_selected ob1" "m_current_table ob1 = ?t"
    "columns_of (m_info ob1) = (columns_of (m_info ob))(?t := edit_columns (columns_of (m_info ob) ?t) (nat ndx))"
    using insert_column_selected [OF Cons.prems(1)] by blast
  have ndx: "nat ndx < n" using Cons.prems(4) by simp
  have "length (columns_of (m_info ob) ?t) < max_columns" "nat ndx < max_columns" using Cons.prems(3,5) ndx by auto
  note e = edit_columns_correct [OF Cons.prems(2) this]
  have l: "length (edit_columns (columns_of (m_info ob) ?t) (nat ndx)) \<le> 2 * n + Suc k"
    by (rule length_edit_columns [OF ndx Cons.prems(3)])
  have "\<exists>ob'. foldM ob_insert_column ndxs ob1 = Some ob' \<and>
     column_origin (columns_of (m_info ob') ?t) =
       fold (\<lambda>ndx. row_insert (nat ndx) 1 None) ndxs (column_origin (columns_of (m_info ob1) ?t)) \<and>
     (\<forall>t. t \<noteq> ?t \<longrightarrow> columns_of (m_info ob') t = columns_of (m_info ob1) t)"
    using Cons.IH [of ob1 "Suc k"] ob1(2-4) e(1) l Cons.prems(4,5) by simp
  then show ?case using ob1(1,4) e(2) by auto
qed

end
