(* ===== verification/Table_Builders.thy ===== *)
theory Table_Builders
  imports Change_Rows
begin

text \<open>
  The builder of a table never fails.  An observer feeds it whatever the log says of the table, with moves tracked or
  not, and in any order; all the assertions need is that the rows the builder knows of are rows of the table.
\<close>

definition tb_ok :: "nat \<Rightarrow> bool \<Rightarrow> nat \<Rightarrow> change_builder \<Rightarrow> bool" where
  "tb_ok mx track n b \<longleftrightarrow> cb_ok mx b \<and> indexes (insertions b) \<subseteq> (if track then {..<n} else {}) \<and>
     indexes (modifications b) \<subseteq> {..<n}"

lemma tb_ok_default: "max_size_ok mx \<Longrightarrow> tb_ok mx track n cb_default"
  by (simp add: tb_ok_def cb_ok_def cb_default_def iset_ok_def)

text \<open>The flags of modified rows under an operation that sends them to rows of the changed table.\<close>

lemma tb_cols:
  assumes t: "tb_ok mx track n b"
    and f: "\<forall>v. iset_ok mx v \<longrightarrow> (\<exists>v'. f v = Some v' \<and> iset_ok mx v' \<and> (\<lambda>k. k \<in> indexes v') = g (\<lambda>k. k \<in> indexes v))"
    and g: "\<And>S k. (\<And>k. S k \<Longrightarrow> k < n) \<Longrightarrow> g S k \<Longrightarrow> k < n'"
  shows "\<exists>m cs. for_each_col f b = Some (b\<lparr>modifications := m, columns := cs\<rparr>) \<and>
    cb_ok mx (b\<lparr>modifications := m, columns := cs\<rparr>) \<and> indexes m \<subseteq> {..<n'}"
proof -
  have ok: "cb_ok mx b" using t by (simp add: tb_ok_def)
  obtain m cs where c: "for_each_col f b = Some (b\<lparr>modifications := m, columns := cs\<rparr>)"
    "cb_ok mx (b\<lparr>modifications := m, columns := cs\<rparr>)" "cols_by g b (b\<lparr>modifications := m, columns := cs\<rparr>)"
    using for_each_col_spec [OF ok f] by blast
  have e: "(\<lambda>k. k \<in> indexes m) = g (\<lambda>k. k \<in> indexes (modifications b))"
    using c(3) modified_iff [OF ok] modified_iff [OF c(2)] by (simp add: cols_by_def)
  have "k < n'" if "k \<in> indexes m" for k
    using g [of "\<lambda>k. k \<in> indexes (modifications b)" k] fun_cong [OF e, of k] that t by (auto simp: tb_ok_def)
  then show ?thesis using c(1,2) by auto
qed

lemma tb_insert:
  assumes t: "tb_ok mx track n b" and c: "0 < c" "i \<le> n"
  shows "\<exists>b'. cb_insert mx i c track b = Some b' \<and> tb_ok mx track (n + c) b'"
proof -
  obtain m cs where f: "for_each_col (is_shift_for_insert_at mx i c) b = Some (b\<lparr>modifications := m, columns := cs\<rparr>)"
    "cb_ok mx (b\<lparr>modifications := m, columns := cs\<rparr>)" "indexes m \<subseteq> {..<n + c}"
  proof -
    have "\<exists>m cs. for_each_col (is_shift_for_insert_at mx i c) b = Some (b\<lparr>modifications := m, columns := cs\<rparr>) \<and>
      cb_ok mx (b\<lparr>modifications := m, columns := cs\<rparr>) \<and> indexes m \<subseteq> {..<n + c}"
    proof (rule tb_cols [OF t, where g = "row_insert i c False"])
      show "k < n + c" if "\<And>k. S k \<Longrightarrow> k < n" "row_insert i c False S k" for S k
      proof (cases "k < i + c")
        case False
        then have "S (k - c)" using that(2) by (auto simp: row_insert_def split: if_splits)
        then show ?thesis using that(1) [of "k - c"] by simp
      qed (use c(2) in simp)
    qed (use is_shift_for_insert_at_rows [OF _ c(1)] in blast)
    then show ?thesis using that by blast
  qed
  show ?thesis
  proof (cases track)
    case False
    then show ?thesis using f c t by (auto simp: cb_insert_def tb_ok_def)
  next
    case True
    have iok: "iset_ok mx (insertions b)" "indexes (insertions b) \<subseteq> {..<n}" using t True by (simp_all add: tb_ok_def cb_ok_def)
    obtain ins where ins: "is_insert_at mx i c (insertions b) = Some ins" "iset_ok mx ins"
      "indexes ins = ins_shift i c (indexes (insertions b)) \<union> {i..<i + c}"
      using is_insert_at_rows [OF iok(1) c(1)] by blast
    have "indexes ins \<subseteq> {..<n + c}" unfolding ins(3) using iok(2) c(2) by (auto simp: ins_shift_def)
    then show ?thesis using f ins(1,2) c True by (auto simp: cb_insert_def tb_ok_def cb_ok_def Let_def)
  qed
qed

lemma tb_erase:
  assumes t: "tb_ok mx track n b" and i: "i < n" "n \<le> npos"
  shows "\<exists>b'. cb_erase mx i b = Some b' \<and> tb_ok mx track (n - 1) b'"
proof -
  have g: "k < n - 1" if "\<And>k. S k \<Longrightarrow> k < n" "row_erase i S k" for S k
    using that(1) [of k] that(1) [of "k + 1"] that(2) i(1) by (auto simp: row_erase_def split: if_splits)
  obtain m cs where f: "for_each_col (\<lambda>c. Some (is_erase_at i c)) b = Some (b\<lparr>modifications := m, columns := cs\<rparr>)"
    "cb_ok mx (b\<lparr>modifications := m, columns := cs\<rparr>)" "indexes m \<subseteq> {..<n - 1}"
    using tb_cols [OF t, of "\<lambda>c. Some (is_erase_at i c)" "row_erase i" "n - 1"] is_erase_at_rows g by blast
  have iok: "iset_ok mx (insertions b)" "iset_ok mx (deletions b)" "indexes (insertions b) \<subseteq> (if track then {..<n} else {})"
    using t by (auto simp: tb_ok_def cb_ok_def)
  obtain ins u where u: "is_erase_or_unshift i (insertions b) = (ins, u)" "iset_ok mx ins"
    "indexes ins = del_shift i (indexes (insertions b))" using is_erase_or_unshift_rows [OF iok(1), of i] i by auto
  obtain d j where d: "is_add_shifted mx u (deletions b) = Some (d, j)" "iset_ok mx d"
    using is_add_shifted_free [OF iok(2)] by blast
  have "indexes ins \<subseteq> (if track then {..<n - 1} else {})"
  proof
    fix k assume "k \<in> indexes ins"
    then have k: "row_erase i (\<lambda>k. k \<in> indexes (insertions b)) k" by (simp add: u(3) del_shift_iff)
    show "k \<in> (if track then {..<n - 1} else {})"
    proof (cases track)
      case True
      then show ?thesis using g [OF _ k] iok(3) by auto
    qed (use iok(3) k in \<open>auto simp: row_erase_def split: if_splits\<close>)
  qed
  then show ?thesis using f u d t unfolding cb_erase_def
    by (cases "u \<noteq> npos"; cases track) (simp_all add: tb_ok_def cb_ok_def Let_def)
qed

lemma tb_add_move:
  assumes t: "tb_ok mx True n b" and k: "k < n"
  shows "\<exists>b'. add_move mx k x b = Some b' \<and> tb_ok mx True n b'"
proof -
  have ok: "cb_ok mx b" and iok: "iset_ok mx (insertions b)" "iset_ok mx (deletions b)" using t by (simp_all add: tb_ok_def cb_ok_def)
  obtain d j where d: "is_add_shifted mx (is_unshift k (insertions b)) (deletions b) = Some (d, j)" "iset_ok mx d"
    using is_add_shifted_free [OF iok(2)] by blast
  obtain i where i: "is_add mx k (insertions b) = Some i" "iset_ok mx i" "indexes i = insert k (indexes (insertions b))"
    using ixs.add [OF iok(1)] by blast
  show ?thesis using d i ok k t by (auto simp: add_move_def cb_ok_def tb_ok_def)
qed

lemma tb_mapping: "tb_ok mx track n (b\<lparr>m_move_mapping := mm\<rparr>) = tb_ok mx track n b"
  by (simp add: tb_ok_def cb_ok_def)

lemma tb_swap:
  assumes t: "tb_ok mx track n b" and ij: "i < n" "j < n" "i \<noteq> j"
  shows "\<exists>b'. cb_swap mx i j track b = Some b' \<and> tb_ok mx track n b'"
proof -
  obtain a c where ac: "(if j < i then (j, i) else (i, j)) = (a, c)" "a < n" "c < n" "a \<noteq> c" using ij by (cases "j < i") auto
  have "\<exists>m cs. for_each_col (swap_col mx a c) b = Some (b\<lparr>modifications := m, columns := cs\<rparr>) \<and>
    cb_ok mx (b\<lparr>modifications := m, columns := cs\<rparr>) \<and> indexes m \<subseteq> {..<n}"
    by (rule tb_cols [OF t swap_col_rows [OF ac(4)]]) (use ac(2,3) in \<open>auto split: if_splits\<close>)
  then obtain m cs where f: "for_each_col (swap_col mx a c) b = Some (b\<lparr>modifications := m, columns := cs\<rparr>)"
    "cb_ok mx (b\<lparr>modifications := m, columns := cs\<rparr>)" "indexes m \<subseteq> {..<n}" by blast
  define b1 where "b1 = b\<lparr>modifications := m, columns := cs\<rparr>"
  have t1: "tb_ok mx track n b1" using f t by (auto simp: b1_def tb_ok_def)
  show ?thesis
  proof (cases track)
    case False
    then show ?thesis using ij(3) ac(1) f(1) [folded b1_def] t1 by (auto simp: cb_swap_def)
  next
    case True
    then have t1: "tb_ok mx True n b1" using t1 by simp
    have m: "\<exists>b'. add_move mx k x (b1\<lparr>m_move_mapping := mm\<rparr>) = Some b' \<and> tb_ok mx True n b'" if "k < n" for k x mm
      using tb_add_move [OF _ that] t1 tb_mapping by blast
    obtain b2 where b2: "add_move mx c a b1 = Some b2" "tb_ok mx True n b2" using tb_add_move [OF t1 ac(3)] by blast
    obtain b3 where "add_move mx a c b2 = Some b3" "tb_ok mx True n b3" using tb_add_move [OF b2(2) ac(2)] by blast
    then show ?thesis using ij(3) ac f(1) [folded b1_def] b2(1) m t1 True
      by (auto simp: cb_swap_def update_move_def tb_mapping split: option.split)
  qed
qed

lemma tb_subsume:
  assumes t: "tb_ok mx track n b" and ij: "i < n" "j < n" "i \<noteq> j"
  shows "\<exists>b'. cb_subsume mx i j track b = Some b' \<and> tb_ok mx track n b'"
proof -
  have "\<exists>m cs. for_each_col (subsume_col mx i j) b = Some (b\<lparr>modifications := m, columns := cs\<rparr>) \<and>
    cb_ok mx (b\<lparr>modifications := m, columns := cs\<rparr>) \<and> indexes m \<subseteq> {..<n}"
    by (rule tb_cols [OF t subsume_col_rows]) (use ij in \<open>auto split: if_splits\<close>)
  then show ?thesis using ij t by (auto simp: cb_subsume_def tb_ok_def cb_ok_def split: option.split)
qed

lemma tb_modify:
  assumes "tb_ok mx track n b" "r < n"
  shows "\<exists>b'. cb_modify mx r col b = Some b' \<and> tb_ok mx track n b'"
proof -
  have ok: "cb_ok mx b" using assms by (simp add: tb_ok_def)
  obtain b' where b': "cb_modify mx r col b = Some b'" "cb_ok mx b'" "modified b' = (modified b)(r := True)"
    using cb_modify_correct [OF ok] by blast
  then have "insertions b' = insertions b" by (auto simp: cb_modify_def bind_eq_Some_conv Let_def split: if_splits)
  moreover have "k \<in> indexes (modifications b') \<longleftrightarrow> k = r \<or> k \<in> indexes (modifications b)" for k
    using fun_cong [OF b'(3), of k] modified_iff [OF ok] modified_iff [OF b'(2)] by auto
  ultimately show ?thesis using b' assms by (auto simp: tb_ok_def)
qed

lemma tb_clear:
  assumes "tb_ok mx track n b"
  shows "\<exists>b'. cb_clear mx old_size b = Some b' \<and> tb_ok mx track 0 b'"
proof -
  have mx: "max_size_ok mx" using assms by (simp add: tb_ok_def cb_ok_def iset_ok_def)
  let ?n = "if old_size \<noteq> npos then old_size + rcount (flat (deletions b)) - rcount (flat (insertions b)) else old_size"
  obtain d where "is_set mx ?n (deletions b) = Some d" "index_set_ok mx d" using is_set_correct [OF mx] by blast
  then show ?thesis using mx by (simp add: cb_clear_def is_clear_def tb_ok_def cb_ok_def iset_ok_def)
qed

lemma tb_insert_column: "tb_ok mx track n b \<Longrightarrow> tb_ok mx track n (cb_insert_column ndx b)"
  by (auto simp: tb_ok_def cb_ok_def cb_insert_column_def iset_ok_def dest: in_set_takeD in_set_dropD)

lemma tb_parse_complete:
  assumes "tb_ok mx track n b"
  shows "\<exists>b'. cb_parse_complete mx b = Some b'"
  using parse_moves_fold [of mx b "m_move_mapping b"] assms by (auto simp: cb_parse_complete_def tb_ok_def)

subsection \<open>\<open>move_over\<close>\<close>

lemma tb_source:
  assumes t: "tb_ok mx True (Suc l) b"
  shows "\<exists>b'. move_over_source mx row l b = Some b' \<and> cb_ok mx b' \<and> indexes (insertions b') \<subseteq> {..<l} \<and> modifications b' = modifications b"
proof -
  have ok: "cb_ok mx b" and I: "indexes (insertions b) \<subseteq> {..<Suc l}" and iok: "iset_ok mx (insertions b)" "iset_ok mx (deletions b)"
    using t by (simp_all add: tb_ok_def cb_ok_def)
  have li: "insertions b \<noteq> [] \<and> last_second (insertions b) = l + 1 \<longleftrightarrow> l \<in> indexes (insertions b)"
    by (rule last_is_member(1) [OF iok(1) I])
  obtain ins where ins: "is_remove mx l 1 (insertions b) = Some ins" "iset_ok mx ins" "indexes ins = indexes (insertions b) - {l}"
    using ixs.remove [OF iok(1)] by blast
  obtain d j where d: "is_add_shifted mx (is_unshift l (insertions b)) (deletions b) = Some (d, j)" "iset_ok mx d"
    using is_add_shifted_free [OF iok(2)] by blast
  have k: "k < l" if "k \<in> indexes (insertions b)" "k \<noteq> l" for k using that I by (auto simp: less_Suc_eq)
  show ?thesis
  proof (cases "l \<in> indexes (insertions b)")
    case True
    then show ?thesis unfolding move_over_source_def li using ins ok k
      by (auto simp: cb_ok_def Let_def split: option.split prod.splits)
  next
    case False
    then show ?thesis unfolding move_over_source_def li using d ok k by (auto simp: cb_ok_def Let_def)
  qed
qed

lemma tb_track:
  assumes t: "tb_ok mx True (Suc l) b" and row: "row < l"
  shows "\<exists>b'. move_over_track mx row l b = Some b' \<and> cb_ok mx b' \<and> indexes (insertions b') \<subseteq> {..<l} \<and> modifications b' = modifications b"
proof -
  obtain b1 where b1: "move_over_source mx row l b = Some b1" "cb_ok mx b1" "indexes (insertions b1) \<subseteq> {..<l}"
    "modifications b1 = modifications b" using tb_source [OF t] by blast
  have iok: "iset_ok mx (insertions b1)" "iset_ok mx (deletions b1)" using b1(2) by (simp_all add: cb_ok_def)
  obtain d j where d: "is_add_shifted mx (is_unshift row (insertions b1)) (deletions b1) = Some (d, j)" "iset_ok mx d"
    using is_add_shifted_free [OF iok(2)] by blast
  obtain i where i: "is_add mx row (insertions b1) = Some i" "iset_ok mx i" "indexes i = insert row (indexes (insertions b1))"
    using ixs.add [OF iok(1)] by blast
  show ?thesis using b1 d i row by (auto simp: move_over_track_def cb_ok_def)
qed

lemma tb_move_over_last:
  assumes t: "tb_ok mx track (Suc l) b" and l: "l < npos"
  shows "\<exists>b'. cb_move_over mx l l track b = Some b' \<and> tb_ok mx track l b'"
proof -
  have ok: "cb_ok mx b" and I: "indexes (insertions b) \<subseteq> {..<Suc l}" and M: "indexes (modifications b) \<subseteq> {..<Suc l}"
    and iok: "iset_ok mx (insertions b)" "iset_ok mx (modifications b)" "iset_ok mx (deletions b)"
    using t by (auto simp: tb_ok_def cb_ok_def split: if_splits)
  obtain ins u where u: "is_erase_or_unshift l (insertions b) = (ins, u)" "iset_ok mx ins"
    "indexes ins = indexes (insertions b) - {l}"
    using is_erase_or_unshift_rows [OF iok(1) l] del_shift_last [OF I] by auto
  obtain d j where d: "is_add_shifted mx u (deletions b) = Some (d, j)" "iset_ok mx d"
    using is_add_shifted_free [OF iok(3)] by blast
  define b1 where "b1 = (if track then b\<lparr>insertions := ins, deletions := (if u \<noteq> npos then d else deletions b),
    m_move_mapping := AList.delete l (m_move_mapping b)\<rparr> else b)"
  have t1: "tb_ok mx track (Suc l) b1" "indexes (insertions b1) \<subseteq> (if track then {..<l} else {})"
    using t u d iok(3) by (auto simp: tb_ok_def cb_ok_def b1_def less_Suc_eq)
  have "\<exists>m cs. for_each_col (is_remove mx l 1) b1 = Some (b1\<lparr>modifications := m, columns := cs\<rparr>) \<and>
    cb_ok mx (b1\<lparr>modifications := m, columns := cs\<rparr>) \<and> indexes m \<subseteq> {..<l}"
    by (rule tb_cols [OF t1(1) remove_rows]) (auto simp: less_Suc_eq split: if_splits)
  then obtain m cs where f: "for_each_col (is_remove mx l 1) b1 = Some (b1\<lparr>modifications := m, columns := cs\<rparr>)"
    "cb_ok mx (b1\<lparr>modifications := m, columns := cs\<rparr>)" "indexes m \<subseteq> {..<l}" by blast
  have "cb_move_over mx l l track b = for_each_col (is_remove mx l 1) b1"
    using last_is_member(2) [OF iok(1) I] last_is_member(2) [OF iok(2) M] u d
    by (auto simp: cb_move_over_def b1_def realm_assert_bind)
  then show ?thesis using f t1(2) by (simp add: tb_ok_def)
qed

lemma tb_move_over:
  assumes t: "tb_ok mx track n b" and i: "i < n" "n \<le> npos"
  shows "\<exists>b'. cb_move_over mx i (n - 1) track b = Some b' \<and> tb_ok mx track (n - 1) b'"
proof -
  obtain l where n: "n = Suc l" "i \<le> l" "l < npos" using i by (cases n) auto
  have I: "indexes (insertions b) \<subseteq> {..<Suc l}" and M: "indexes (modifications b) \<subseteq> {..<Suc l}"
    and iok: "iset_ok mx (insertions b)" "iset_ok mx (modifications b)"
    using t n by (auto simp: tb_ok_def cb_ok_def split: if_splits)
  show ?thesis
  proof (cases "i = l")
    case True
    then show ?thesis using tb_move_over_last [of mx track l b] t n by simp
  next
    case False
    then have il: "i < l" using n(2) by simp
    have "\<exists>m cs. for_each_col (move_over_col mx i l) b = Some (b\<lparr>modifications := m, columns := cs\<rparr>) \<and>
      cb_ok mx (b\<lparr>modifications := m, columns := cs\<rparr>) \<and> indexes m \<subseteq> {..<l}"
      by (rule tb_cols [OF t move_over_col_rows [OF False]]) (use n il in \<open>auto simp: less_Suc_eq split: if_splits\<close>)
    then obtain m cs where f: "for_each_col (move_over_col mx i l) b = Some (b\<lparr>modifications := m, columns := cs\<rparr>)"
      "cb_ok mx (b\<lparr>modifications := m, columns := cs\<rparr>)" "indexes m \<subseteq> {..<l}" by blast
    define b1 where "b1 = b\<lparr>modifications := m, columns := cs\<rparr>"
    have t1: "tb_ok mx track (Suc l) b1" using f t n by (auto simp: b1_def tb_ok_def)
    have run: "cb_move_over mx i l track b = (if track then move_over_track mx i l b1 else Some b1)"
      using f(1) [folded b1_def] il last_is_member(2) [OF iok(1) I] last_is_member(2) [OF iok(2) M]
      by (simp add: cb_move_over_def realm_assert_bind)
    show ?thesis
    proof (cases track)
      case True
      then show ?thesis using tb_track [of mx l b1 i] t1 il run f(3) n by (auto simp: tb_ok_def b1_def)
    next
      case False
      then show ?thesis using run t1 f(3) n by (auto simp: tb_ok_def b1_def)
    qed
  qed
qed

end
