(* ===== verification/Observer_Lists.thy ===== *)
theory Observer_Lists
  imports Observer_Tracker Observer_Schema Table_Builders Change_Compose
begin

text \<open>
  The observer follows the tracker: an instruction that edits an observed list reaches the builder of that list, and
  the builders of the observed tables, which any instruction may reach as well, never stop it.
\<close>

subsection \<open>The relation\<close>

definition active_of :: "tracker \<Rightarrow> builder_ref" where
  "active_of tk = (if tk_top tk then (if watched tk (tk_table tk) then Table_ref (tk_table tk) else Nullptr) else sel_ref (tk_sub tk))"

definition table_builders_ok :: "nat \<Rightarrow> tracker \<Rightarrow> (nat \<Rightarrow> nat) \<Rightarrow> change_builder list \<Rightarrow> bool" where
  "table_builders_ok mx tk rows ts \<longleftrightarrow> (\<forall>t < length ts. tb_ok mx (follows_moves tk t) (rows t) (ts ! t) \<and>
     (\<not> watched tk t \<longrightarrow> ts ! t = cb_default))"

definition selected_ok :: "observer \<Rightarrow> tracker \<Rightarrow> bool" where
  "selected_ok ob tk \<longleftrightarrow> m_active_table ob = active_of tk \<and>
     (tk_top tk \<and> watched tk (tk_table tk) \<longrightarrow>
        tk_table tk < length (tables (m_info ob)) \<and> m_need_move_info ob = follows_moves tk (tk_table tk)) \<and>
     (\<not> tk_top tk \<and> tk_sub tk \<noteq> None \<longrightarrow> m_need_move_info ob) \<and>
     (tk_desc tk = Some True \<longrightarrow> m_active_descriptor ob = active_of tk) \<and>
     (tk_desc tk = Some False \<longrightarrow> m_active_descriptor ob = Nullptr)"

definition tracks :: "nat \<Rightarrow> observer \<Rightarrow> tracker \<Rightarrow> bool" where
  "tracks mx ob tk \<longleftrightarrow> max_size_ok mx \<and> m_current_table ob = tk_table tk \<and> m_is_top_level_table ob = tk_top tk \<and>
     (tk_ready tk \<longrightarrow> selected_ok ob tk) \<and> track_all (m_info ob) = tk_all tk \<and>
     is_set_flag (table_modifications_needed (m_info ob)) = tk_flags tk \<and>
     is_set_flag (table_moves_needed (m_info ob)) = tk_moves tk \<and>
     table_builders_ok mx tk (tk_rows tk) (tables (m_info ob)) \<and>
     located (tk_locs tk) (lists (m_info ob)) \<and> length (builders (m_info ob)) = length (tk_locs tk) \<and>
     m_active_list ob = sel_ref (tk_sel tk) \<and>
     (\<forall>a. tk_sel tk = Some a \<or> tk_sub tk = Some a \<longrightarrow> a < length (tk_locs tk))"

subsection \<open>Runs of edits\<close>

lemma link_edit_length_cong: "length xs = length ys \<Longrightarrow> length (link_edit op xs) = length (link_edit op ys)"
  by (cases op) (auto intro: list_edit_length_cong)

lemma clear_step:
  assumes "list_ok mx b"
  shows "\<exists>b'. cb_clear mx m b = Some b' \<and> list_ok mx b' \<and> modified b' = (\<lambda>_. False)"
proof -
  have mx: "max_size_ok mx" using assms by (simp add: list_ok_def cb_ok_def iset_ok_def)
  let ?n = "if m \<noteq> npos then m + rcount (flat (deletions b)) - rcount (flat (insertions b)) else m"
  obtain d where "is_set mx ?n (deletions b) = Some d" "index_set_ok mx d" using is_set_correct [OF mx] by blast
  moreover have "is_contains [] k = False" for k using is_contains_iff [of mx "[]" k] mx by (simp add: iset_ok_Nil [unfolded iset_ok_def])
  ultimately show ?thesis using mx
    by (simp add: cb_clear_def is_clear_def list_ok_def cb_ok_def moves_ok_def iset_ok_def modified_def [abs_def] fun_eq_iff)
qed

lemma link_step:
  assumes "list_ok mx b" "link_op_ok op n" "n \<le> npos"
  shows "\<exists>b'. link_apply mx op b = Some b' \<and> list_ok mx b' \<and>
    contents (length (link_edit op (contents n b))) b' = link_edit op (contents n b) \<and>
    modified b' = link_flags op (modified b)"
proof (cases op)
  case (Edit e)
  then show ?thesis using list_step [OF assms(1), of e n] assms(2,3) by simp
next
  case (Clear_list m)
  then show ?thesis using clear_step [OF assms(1), of m] by (auto simp: contents_def)
qed

lemma link_run:
  "list_ok mx b \<Longrightarrow> link_ops_ok ops n \<Longrightarrow>
   \<exists>b'. foldM (link_apply mx) ops b = Some b' \<and> list_ok mx b' \<and>
     contents (length (fold link_edit ops (contents n b))) b' = fold link_edit ops (contents n b) \<and>
     modified b' = fold link_flags ops (modified b)"
proof (induction ops arbitrary: b n)
  case Nil
  then show ?case by (simp add: contents_def)
next
  case (Cons op ops)
  let ?n = "length (link_edit op (contents n b))"
  have op: "link_op_ok op n" "n \<le> npos" using Cons.prems(2) by auto
  obtain b1 where b1: "link_apply mx op b = Some b1" "list_ok mx b1"
    "contents ?n b1 = link_edit op (contents n b)" "modified b1 = link_flags op (modified b)"
    using link_step [OF Cons.prems(1) op] by blast
  have "link_ops_ok ops ?n"
    using Cons.prems(2) link_edit_length_cong [of "contents n b" "replicate n (None :: nat option)" op]
    by (simp add: contents_def)
  from Cons.IH [OF b1(2) this] show ?case using b1 by simp
qed

subsection \<open>Updates of the observer\<close>

lemma with_null [simp]: "with_builder Nullptr f ob = Some ob"
  by (simp add: with_builder_def)

definition set_lists :: "list_change_info list \<Rightarrow> observer \<Rightarrow> observer" where
  "set_lists ls ob = ob\<lparr>m_info := (m_info ob)\<lparr>lists := ls\<rparr>\<rparr>"

definition set_tbls :: "change_builder list \<Rightarrow> observer \<Rightarrow> observer" where
  "set_tbls ts ob = ob\<lparr>m_info := (m_info ob)\<lparr>tables := ts\<rparr>\<rparr>"

definition set_builder :: "nat \<Rightarrow> change_builder \<Rightarrow> observer \<Rightarrow> observer" where
  "set_builder a b ob = ob\<lparr>m_info := (m_info ob)\<lparr>builders := (builders (m_info ob))[a := b]\<rparr>\<rparr>"

lemma set_same [simp]:
  "set_lists (lists (m_info ob)) ob = ob" "set_tbls (tables (m_info ob)) ob = ob"
  "set_builder a (builders (m_info ob) ! a) ob = ob"
  by (simp_all add: set_lists_def set_tbls_def set_builder_def)

lemma active_of_cong [simp]:
  "active_of (tk\<lparr>tk_locs := locs\<rparr>) = active_of tk" "active_of (tk\<lparr>tk_rows := rows\<rparr>) = active_of tk"
  "watched (tk\<lparr>tk_locs := locs\<rparr>) = watched tk" "watched (tk\<lparr>tk_rows := rows\<rparr>) = watched tk"
  "follows_moves (tk\<lparr>tk_locs := locs\<rparr>) = follows_moves tk" "follows_moves (tk\<lparr>tk_rows := rows\<rparr>) = follows_moves tk"
  by (simp_all add: active_of_def watched_def follows_moves_def fun_eq_iff)

lemma tracks_update:
  assumes "tracks mx ob tk" "located locs ls" "length locs = length (tk_locs tk)"
    "table_builders_ok mx tk rows ts" "length ts = length (tables (m_info ob))"
  shows "tracks mx (set_lists ls (set_tbls ts ob)) (tk\<lparr>tk_locs := locs, tk_rows := rows\<rparr>)"
    "builders (m_info (set_lists ls (set_tbls ts ob))) = builders (m_info ob)"
  using assms by (auto simp: tracks_def selected_ok_def set_lists_def set_tbls_def table_builders_ok_def)

lemma tracks_set_builder: "tracks mx ob tk \<Longrightarrow> tracks mx (set_builder a b ob) tk"
  by (simp add: tracks_def selected_ok_def set_builder_def)

text \<open>Changes of the observer that matter to nothing the tracker knows of.\<close>

definition aside :: "(observer \<Rightarrow> observer) \<Rightarrow> bool" where
  "aside h \<longleftrightarrow> (\<forall>mx ob tk. tracks mx ob tk \<longrightarrow> tracks mx (h ob) tk \<and> builders (m_info (h ob)) = builders (m_info ob))"

lemma aside_id [simp]: "aside (\<lambda>ob. ob)"
  by (simp add: aside_def)

lemma aside_schema: "aside set_schema_changed"
  by (simp add: aside_def set_schema_changed_def tracks_def selected_ok_def)

lemma aside_columns: "aside (\<lambda>ob. the (current_columns (\<lambda>xs. Some (F xs)) ob))"
  by (simp add: aside_def current_columns_def Let_def tracks_def selected_ok_def)

lemma aside_comp: "aside g \<Longrightarrow> aside h \<Longrightarrow> aside (\<lambda>ob. g (h ob))"
  unfolding aside_def by metis

subsection \<open>Feeding the selected list\<close>

lemma link_apply_fun [simp]:
  "link_apply mx (Edit (Insert i n)) = cb_insert mx i n True"
  "link_apply mx (Edit (Erase i)) = cb_erase mx i"
  "link_apply mx (Edit (Move i j)) = cb_move mx i j"
  "link_apply mx (Edit (Modify i col)) = cb_modify mx i col"
  "link_apply mx (Clear_list n) = cb_clear mx n"
  by (simp_all add: fun_eq_iff)

lemma foldM_Nil: "foldM f [] = Some"
  by (rule ext) simp

lemma foldM_single: "foldM f [x] = f x"
  by (rule ext) (simp add: foldM_Nil)

definition feed :: "nat \<Rightarrow> builder_ref \<Rightarrow> link_op list \<Rightarrow> observer \<Rightarrow> observer option" where
  "feed mx ref ops ob = foldM (\<lambda>op. with_builder ref (link_apply mx op)) ops ob"

lemma feed_list:
  "a < length (builders (m_info ob)) \<Longrightarrow> foldM (link_apply mx) ops (builders (m_info ob) ! a) = Some b \<Longrightarrow>
   feed mx (List_ref a) ops ob = Some (set_builder a b ob)"
proof (induction ops arbitrary: ob)
  case Nil
  then have "b = builders (m_info ob) ! a" by simp
  then show ?case by (simp add: feed_def)
next
  case (Cons op ops)
  obtain b1 where b1: "link_apply mx op (builders (m_info ob) ! a) = Some b1" "foldM (link_apply mx) ops b1 = Some b"
    using Cons.prems(2) by (auto simp: bind_eq_Some_conv)
  have "with_builder (List_ref a) (link_apply mx op) ob = Some (set_builder a b1 ob)"
    using Cons.prems(1) b1(1) by (simp add: with_builder_def set_builder_def)
  moreover have "feed mx (List_ref a) ops (set_builder a b1 ob) = Some (set_builder a b (set_builder a b1 ob))"
    using Cons.prems(1) b1(2) by (intro Cons.IH) (simp_all add: set_builder_def)
  ultimately show ?case by (simp add: feed_def set_builder_def)
qed

lemma feed_none: "feed mx Nullptr ops ob = Some ob"
  by (induction ops) (simp_all add: feed_def)

text \<open>What one instruction promises.\<close>

definition step_ok :: "nat \<Rightarrow> call \<Rightarrow> observer \<Rightarrow> tracker \<Rightarrow> observer \<Rightarrow> bool" where
  "step_ok mx c ob tk ob' \<longleftrightarrow> observe mx c ob = Some ob' \<and> tracks mx ob' (track c tk) \<and>
     (\<forall>a < length (tk_locs tk). foldM (link_apply mx) (edits_of tk c a) (builders (m_info ob) ! a) =
        Some (builders (m_info ob') ! a))"

lemma step_feed:
  assumes t: "tracks mx ob tk" and s: "track c tk = tk" "\<And>a. s = Some a \<Longrightarrow> a < length (tk_locs tk)"
    and e: "\<And>a. edits_of tk c a = (if s = Some a then ops else [])"
    and ob: "observe mx c ob = feed mx (sel_ref s) ops ob"
    and ops: "\<forall>a < length (tk_locs tk). \<exists>b. foldM (link_apply mx) (edits_of tk c a) (builders (m_info ob) ! a) = Some b"
  shows "\<exists>ob'. step_ok mx c ob tk ob'"
proof (cases s)
  case None
  then show ?thesis using t s(1) e ob by (intro exI [of _ ob]) (simp add: step_ok_def feed_none sel_ref_def)
next
  case (Some a)
  have a: "a < length (tk_locs tk)" "length (builders (m_info ob)) = length (tk_locs tk)" using s(2) Some t by (auto simp: tracks_def)
  then obtain b where b: "foldM (link_apply mx) ops (builders (m_info ob) ! a) = Some b" using ops e Some by auto
  then have "observe mx c ob = Some (set_builder a b ob)" using ob a Some feed_list [of a ob] by (simp add: sel_ref_def)
  then show ?thesis using Some a b tracks_set_builder [OF t] s(1) e
    by (intro exI [of _ "set_builder a b ob"]) (auto simp: step_ok_def set_builder_def nth_list_update)
qed

subsection \<open>Instructions on a list\<close>

lemma observe_link:
  assumes "call_level c = List_level"
  shows "observe mx c ob = feed mx (m_active_list ob) (link_ops c) ob"
proof -
  have b: "with_builder r f ob = Some ob' \<Longrightarrow> m_active_list ob' = m_active_list ob" for r f ob ob'
    by (cases r) (auto simp: with_builder_def bind_eq_Some_conv)
  show ?thesis using assms
    by (cases c) (auto simp: feed_def observe_def ob_link_list_set_def ob_link_list_insert_def ob_link_list_erase_def
      ob_link_list_nullify_def ob_link_list_swap_def ob_link_list_move_def ob_link_list_clear_def foldM_Nil foldM_single
      dest: b intro!: Option.bind_cong [OF refl])
qed

lemma same_locs:
  assumes "\<And>l. Some l \<in> set locs \<Longrightarrow> f l = Some l"
  shows "map (\<lambda>l. Option.bind l f) locs = locs"
proof (rule map_idI)
  show "Option.bind l f = l" if "l \<in> set locs" for l using assms that by (cases l) auto
qed

lemma rows_same: "(f :: nat \<Rightarrow> nat)(t := f t) = f"
  by simp

lemma plain_track:
  assumes "\<not> is_select c" "call_level c \<noteq> Group_level"
  shows "track c tk = tk\<lparr>tk_locs := map (\<lambda>l. Option.bind l (location_after tk c)) (tk_locs tk),
    tk_rows := (if tk_top tk then (tk_rows tk)(tk_table tk := the (rows_after c (tk_rows tk (tk_table tk)))) else tk_rows tk)\<rparr>"
  using assms by (cases c) (simp_all add: track_def)

lemma list_level_track:
  assumes "call_level c = List_level"
  shows "track c tk = tk"
proof -
  have "location_after tk c = Some" using assms by (cases c) (auto simp: location_after_def fun_eq_iff)
  then have l: "map (\<lambda>l. Option.bind l (location_after tk c)) (tk_locs tk) = tk_locs tk" by (intro same_locs) simp
  have "rows_after c m = Some m" for m using assms by (cases c) simp_all
  moreover have "\<not> is_select c" "call_level c \<noteq> Group_level" using assms by (cases c; simp)+
  ultimately show ?thesis using plain_track [of c tk] l by simp
qed

lemma list_level_edits: "call_level c = List_level \<Longrightarrow> edits_of tk c a = (if tk_sel tk = Some a then link_ops c else [])"
  by (cases c) (simp_all add: edits_of_def)

lemma step_link:
  assumes t: "tracks mx ob tk" and c: "call_level c = List_level"
    and ops: "\<forall>a < length (tk_locs tk). \<exists>b. foldM (link_apply mx) (edits_of tk c a) (builders (m_info ob) ! a) = Some b"
  shows "\<exists>ob'. step_ok mx c ob tk ob'"
proof (rule step_feed [OF t list_level_track [OF c] _ list_level_edits [OF c] _ ops])
  show "observe mx c ob = feed mx (sel_ref (tk_sel tk)) (link_ops c) ob"
    using observe_link [OF c] t by (simp add: tracks_def)
qed (use t in \<open>simp add: tracks_def\<close>)

subsection \<open>Instructions in a subtable\<close>

lemma observe_cell: "observe_set mx c ob =
    (case marked_cell c of Some (r, k) \<Rightarrow> ob_mark_dirty mx r k ob | None \<Rightarrow> Some ob)"
  by (cases c) (simp_all add: observe_set_def mark_dirty_instr_def)

lemma not_top: "\<not> tk_top tk \<Longrightarrow> call_level c \<noteq> Group_level \<Longrightarrow> location_after tk c = Some"
  by (cases c) (auto simp: location_after_def fun_eq_iff)

lemma sub_track:
  assumes "\<not> tk_top tk" "\<not> is_select c" "call_level c \<noteq> Group_level"
  shows "track c tk = tk"
  using plain_track [OF assms(2,3), of tk] not_top [OF assms(1,3)] assms(1) same_locs [of "tk_locs tk" Some] by simp

lemma sub_edits:
  "call_level c \<noteq> List_level \<Longrightarrow> tk_ready tk \<Longrightarrow> \<not> tk_top tk \<Longrightarrow>
   edits_of tk c a = (if tk_sub tk = Some a then sub_ops c else [])"
  by (cases c) (simp_all add: edits_of_def)

fun moves_rows :: "call \<Rightarrow> bool" where
  "moves_rows (Insert_empty_rows _ _ _ _) = True"
| "moves_rows (Add_row_with_key _ _ _ _) = True"
| "moves_rows (Erase_rows _ _ _ _) = True"
| "moves_rows (Swap_rows _ _) = True"
| "moves_rows (Move_row _ _) = True"
| "moves_rows (Merge_rows _ _) = True"
| "moves_rows (Clear_table _) = True"
| "moves_rows _ = False"

lemma plain_row:
  assumes "call_level c = Row_level" "\<not> is_select c" "\<not> is_destructive c" "\<not> moves_rows c"
  shows "observe mx c ob = observe_set mx c ob" "cell_after c r k = Some (r, k)"
    "sub_ops c = (case marked_cell c of Some (r, k) \<Rightarrow> [Edit (Modify r k)] | None \<Rightarrow> [])"
    "rows_after c m = (case marked_cell c of Some (r, k) \<Rightarrow> if r < m then Some m else None | None \<Rightarrow> Some m)"
  using assms by (cases c; simp add: observe_def)+

lemma sub_state:
  assumes "tracks mx ob tk" "tk_ready tk" "\<not> tk_top tk"
  shows "m_is_top_level_table ob = False" "m_active_table ob = sel_ref (tk_sub tk)"
    "tk_sub tk \<noteq> None \<Longrightarrow> m_need_move_info ob"
  using assms by (auto simp: tracks_def selected_ok_def active_of_def)

lemma with_builder_keeps:
  "with_builder ref f ob = Some ob' \<Longrightarrow> m_active_table ob' = m_active_table ob \<and> m_is_top_level_table ob' = m_is_top_level_table ob \<and>
     m_active_list ob' = m_active_list ob"
  by (cases ref) (auto simp: with_builder_def bind_eq_Some_conv)

lemma bind_same: "(\<And>x. m = Some x \<Longrightarrow> f x = Some x) \<Longrightarrow> Option.bind m f = m"
  by (cases m) simp_all

lemma observe_sub_rows:
  assumes t: "tracks mx ob tk" "tk_ready tk" "\<not> tk_top tk" and c: "call_safe tk c" "moves_rows c"
  shows "observe mx c ob = feed mx (sel_ref (tk_sub tk)) (sub_ops c) ob"
proof -
  note s = sub_state [OF t]
  have top: "with_builder r f ob = Some ob' \<Longrightarrow> \<not> m_is_top_level_table ob'" for r f ob'
    using with_builder_keeps [of r f ob ob'] s(1) by simp
  have keep: "with_builder r f ob = Some ob' \<Longrightarrow> m_active_table ob' = sel_ref (tk_sub tk)" for r f ob'
    using with_builder_keeps [of r f ob ob'] s(2) by simp
  show ?thesis
  proof (cases "tk_sub tk")
    case None
    then have "m_active_table ob = Nullptr" using s(2) by (simp add: sel_ref_def)
    then have "observe mx c ob = Some ob" using c s(1)
      by (cases c) (auto simp: observe_def ob_insert_empty_rows_def ob_add_row_with_key_def ob_erase_rows_def ob_swap_rows_def
        ob_move_row_def ob_merge_rows_def ob_clear_table_def call_safe_def Let_def)
    then show ?thesis by (simp add: None sel_ref_def feed_none)
  next
    case (Some a)
    then have need: "m_need_move_info ob" "m_active_table ob = List_ref a" using s(2,3) by (auto simp: sel_ref_def)
    show ?thesis using c s(1) need top keep Some t(3)
      by (cases c) (auto simp: observe_def ob_insert_empty_rows_def ob_add_row_with_key_def ob_erase_rows_def ob_swap_rows_def
        ob_move_row_def ob_merge_rows_def ob_clear_table_def call_safe_def Let_def feed_def foldM_single foldM_Nil sel_ref_def
        intro!: bind_same Option.bind_cong [OF refl])
  qed
qed

lemma step_sub:
  assumes t: "tracks mx ob tk" "tk_ready tk" "\<not> tk_top tk" and c: "call_safe tk c" "call_level c = Row_level" "\<not> is_select c"
    and ops: "\<forall>a < length (tk_locs tk). \<exists>b. foldM (link_apply mx) (edits_of tk c a) (builders (m_info ob) ! a) = Some b"
  shows "\<exists>ob'. step_ok mx c ob tk ob'"
proof (rule step_feed [OF t(1) sub_track [OF t(3) c(3)] _ sub_edits [OF _ t(2,3)] _ ops])
  show "observe mx c ob = feed mx (sel_ref (tk_sub tk)) (sub_ops c) ob"
  proof (cases "moves_rows c")
    case False
    have "observe mx c ob = observe_set mx c ob"
      "sub_ops c = (case marked_cell c of Some (r, k) \<Rightarrow> [Edit (Modify r k)] | None \<Rightarrow> [])"
      using plain_row [OF c(2,3) _ False] c(1) by (auto simp: call_safe_def)
    then show ?thesis using sub_state(2) [OF t]
      by (auto simp: observe_cell ob_mark_dirty_def feed_def foldM_single split: option.split)
  qed (rule observe_sub_rows [OF t c(1)])
  show "a < length (tk_locs tk)" if "tk_sub tk = Some a" for a using t(1) that by (simp add: tracks_def)
qed (use c in auto)

subsection \<open>Instructions on a table of the group\<close>

lemma feed_table:
  assumes t: "tracks mx ob tk" "tk_ready tk" "tk_top tk"
    and f: "\<And>b. watched tk (tk_table tk) \<Longrightarrow> tb_ok mx (follows_moves tk (tk_table tk)) (tk_rows tk (tk_table tk)) b \<Longrightarrow>
      \<exists>b'. f b = Some b' \<and> tb_ok mx (follows_moves tk (tk_table tk)) n b'"
  shows "\<exists>ts. with_builder (m_active_table ob) f ob = Some (set_tbls ts ob) \<and> length ts = length (tables (m_info ob)) \<and>
    table_builders_ok mx tk ((tk_rows tk)(tk_table tk := n)) ts"
proof (cases "watched tk (tk_table tk)")
  case True
  let ?t = "tk_table tk" and ?ts = "tables (m_info ob)"
  have a: "m_active_table ob = Table_ref ?t" "?t < length ?ts" and ok: "table_builders_ok mx tk (tk_rows tk) ?ts"
    using t True by (auto simp: tracks_def selected_ok_def active_of_def)
  then have "tb_ok mx (follows_moves tk ?t) (tk_rows tk ?t) (?ts ! ?t)" by (simp add: table_builders_ok_def)
  then obtain b where b: "f (?ts ! ?t) = Some b" "tb_ok mx (follows_moves tk ?t) n b" using f [OF True] by blast
  have "with_builder (m_active_table ob) f ob = Some (set_tbls (?ts[?t := b]) ob)"
    using a b(1) by (simp add: with_builder_def set_tbls_def)
  moreover have "table_builders_ok mx tk ((tk_rows tk)(?t := n)) (?ts[?t := b])"
    using ok b(2) a(2) True by (auto simp: table_builders_ok_def nth_list_update)
  ultimately show ?thesis by (intro exI [of _ "?ts[?t := b]"]) simp
next
  case False
  let ?ts = "tables (m_info ob)"
  have a: "m_active_table ob = Nullptr" and ok: "table_builders_ok mx tk (tk_rows tk) ?ts" and mx: "max_size_ok mx"
    using t False by (auto simp: tracks_def selected_ok_def active_of_def)
  have "table_builders_ok mx tk ((tk_rows tk)(tk_table tk := n)) ?ts"
    using ok False tb_ok_default [OF mx] by (auto simp: table_builders_ok_def)
  then show ?thesis using a by (intro exI [of _ ?ts]) simp
qed

lemma step_top:
  assumes t: "tracks mx ob tk" "tk_ready tk" "tk_top tk"
    and c: "call_level c \<noteq> List_level" "call_level c \<noteq> Group_level" "\<not> is_select c" "rows_after c (tk_rows tk (tk_table tk)) = Some n"
    and f: "\<And>b. watched tk (tk_table tk) \<Longrightarrow> tb_ok mx (follows_moves tk (tk_table tk)) (tk_rows tk (tk_table tk)) b \<Longrightarrow>
      \<exists>b'. f b = Some b' \<and> tb_ok mx (follows_moves tk (tk_table tk)) n b'"
    and ob: "\<And>ts. with_builder (m_active_table ob) f ob = Some (set_tbls ts ob) \<Longrightarrow>
      observe mx c ob = Some (h (set_lists ls (set_tbls ts ob)))" "aside h"
    and ls: "located (map (\<lambda>l. Option.bind l (location_after tk c)) (tk_locs tk)) ls"
  shows "\<exists>ob'. step_ok mx c ob tk ob'"
proof -
  have "\<exists>ts. with_builder (m_active_table ob) f ob = Some (set_tbls ts ob) \<and> length ts = length (tables (m_info ob)) \<and>
    table_builders_ok mx tk ((tk_rows tk)(tk_table tk := n)) ts" by (rule feed_table [OF t f])
  then obtain ts where ts: "with_builder (m_active_table ob) f ob = Some (set_tbls ts ob)" "length ts = length (tables (m_info ob))"
    "table_builders_ok mx tk ((tk_rows tk)(tk_table tk := n)) ts" by blast
  have "edits_of tk c a = []" for a using c(1) t(3) by (cases c) (simp_all add: edits_of_def)
  then show ?thesis using tracks_update [OF t(1) ls _ ts(3,2)] ob(1) [OF ts(1)] ob(2) plain_track [OF c(3,2), of tk] c(4) t(3)
    by (intro exI [of _ "h (set_lists ls (set_tbls ts ob))"]) (simp add: step_ok_def aside_def)
qed

lemma top_state:
  assumes "tracks mx ob tk" "tk_ready tk" "tk_top tk"
  shows "m_is_top_level_table ob" "m_current_table ob = tk_table tk" "m_active_table ob = active_of tk"
    "watched tk (tk_table tk) \<Longrightarrow> m_need_move_info ob = follows_moves tk (tk_table tk)"
    "located (tk_locs tk) (lists (m_info ob))"
  using assms by (auto simp: tracks_def selected_ok_def)

lemma set_tbls_state [simp]:
  "m_is_top_level_table (set_tbls ts ob) = m_is_top_level_table ob" "m_current_table (set_tbls ts ob) = m_current_table ob"
  "lists (m_info (set_tbls ts ob)) = lists (m_info ob)"
  by (simp_all add: set_tbls_def)

lemma map_lists_set: "map_lists (on_current (set_tbls ts ob) f) (set_tbls ts ob) = set_lists (map (on_current ob f) (lists (m_info ob))) (set_tbls ts ob)"
  by (simp add: map_lists_def set_lists_def set_tbls_def on_current_def)

text \<open>Lists renumbered where they are in the selected table.\<close>

lemma located_current:
  assumes t: "tracks mx ob tk" "tk_top tk" and c: "call_level c \<noteq> Group_level" "call_level c = Column_level \<Longrightarrow> tk_desc tk = Some True"
    and f: "\<And>r k. cell_after c r k = Some (g (r, k))"
      "\<And>li. li_table_ndx (f li) = li_table_ndx li \<and> li_changes (f li) = li_changes li \<and>
         (li_row_ndx (f li), li_col_ndx (f li)) = g (li_row_ndx li, li_col_ndx li)"
    and inj: "\<And>r k r' k'. Some (tk_table tk, r, k) \<in> set (tk_locs tk) \<Longrightarrow>
      Some (tk_table tk, r', k') \<in> set (tk_locs tk) \<Longrightarrow> g (r, k) = g (r', k') \<Longrightarrow> (r, k) = (r', k')"
  shows "located (map (\<lambda>l. Option.bind l (location_after tk c)) (tk_locs tk)) (map (on_current ob f) (lists (m_info ob)))"
proof -
  let ?g = "\<lambda>(t, r, k). if t = tk_table tk then (t, g (r, k)) else (t, r, k)"
  have ta: "table_after c t = t" for t using c(1) by (cases c) simp_all
  have a: "location_after tk c = (\<lambda>l. Some (?g l))"
    using t(2) c(2) by (auto simp: location_after_def fun_eq_iff f(1) ta split: prod.splits)
  have cur: "m_current_table ob = tk_table tk" using t by (simp add: tracks_def)
  show ?thesis unfolding a
  proof (rule located_map)
    show "located (tk_locs tk) (lists (m_info ob))" using t by (simp add: tracks_def)
    show "entry (on_current ob f li) = (li_changes li, ?g (snd (entry li)))" for li
      using f(2) [of li] by (auto simp: entry_def on_current_def cur)
    show "l = m" if "Some l \<in> set (tk_locs tk)" "Some m \<in> set (tk_locs tk)" "?g l = ?g m" for l m
      using that inj by (cases l; cases m) (auto split: if_splits)
  qed
qed

text \<open>Instructions that move no observed list.\<close>

lemma located_elsewhere:
  assumes "located (tk_locs tk) ls" "call_level c \<noteq> Group_level"
    "\<not> list_ex (in_current tk) (tk_locs tk) \<or> (\<forall>r k. cell_after c r k = Some (r, k))"
  shows "located (map (\<lambda>l. Option.bind l (location_after tk c)) (tk_locs tk)) ls"
proof -
  have ta: "table_after c t = t" for t using assms(2) by (cases c) simp_all
  have "location_after tk c l = Some l" if "Some l \<in> set (tk_locs tk)" for l
    using assms(3) that by (cases l) (force simp: location_after_def ta list_ex_iff in_current_def)
  then have "map (\<lambda>l. Option.bind l (location_after tk c)) (tk_locs tk) = tk_locs tk" by (rule same_locs)
  then show ?thesis using assms(1) by simp
qed

lemma with_some: "with_builder ref Some ob = Some ob' \<Longrightarrow> ob' = ob"
  by (cases ref) (auto simp: with_builder_def bind_eq_Some_conv)

lemma step_plain:
  assumes t: "tracks mx ob tk" "tk_ready tk" "tk_top tk" and c: "call_level c = Row_level" "\<not> is_select c" "call_safe tk c" "\<not> moves_rows c"
  shows "\<exists>ob'. step_ok mx c ob tk ob'"
proof -
  let ?n = "tk_rows tk (tk_table tk)" and ?f = "\<lambda>b. case marked_cell c of Some (r, k) \<Rightarrow> cb_modify mx r k b | None \<Rightarrow> Some b"
  have "needs_table c" using c(1,2) by (cases c) simp_all
  then have fit: "rows_after c ?n \<noteq> None" and d: "\<not> is_destructive c" using c(2,3) t(3) by (auto simp: call_safe_def fits_def Let_def)
  note p = plain_row [OF c(1,2) d c(4)]
  have r: "rows_after c ?n = Some ?n" "\<And>r k. marked_cell c = Some (r, k) \<Longrightarrow> r < ?n"
    using fit p(4) by (auto split: option.splits if_splits)
  have loc: "located (map (\<lambda>l. Option.bind l (location_after tk c)) (tk_locs tk)) (lists (m_info ob))"
    using located_elsewhere [OF top_state(5) [OF t]] c(1) p(2) by simp
  have f: "\<exists>b'. ?f b = Some b' \<and> tb_ok mx (follows_moves tk (tk_table tk)) ?n b'"
    if "tb_ok mx (follows_moves tk (tk_table tk)) ?n b" for b
    using tb_modify [OF that] that r(2) by (auto split: option.split)
  have o: "observe mx c ob = Some (set_lists (lists (m_info ob)) (set_tbls ts ob))"
    if w: "with_builder (m_active_table ob) ?f ob = Some (set_tbls ts ob)" for ts
  proof -
    have k: "set_lists (lists (m_info ob)) (set_tbls ts ob) = set_tbls ts ob" by (simp add: set_lists_def set_tbls_def)
    show ?thesis
    proof (cases "marked_cell c")
      case None
      then have "set_tbls ts ob = ob" using with_some [of _ ob] w by simp
      then show ?thesis using None k by (simp add: p(1) observe_cell)
    next
      case (Some rk)
      then show ?thesis using w k by (cases rk) (simp add: p(1) observe_cell ob_mark_dirty_def)
    qed
  qed
  show ?thesis by (rule step_top [OF t _ _ c(2) r(1) f o aside_id loc]) (use c(1) in simp_all)
qed

subsection \<open>Instructions on the rows of a table\<close>

lemma safe_rows:
  assumes "call_safe tk c" "moves_rows c" "tk_top tk"
  shows "\<exists>n. rows_after c (tk_rows tk (tk_table tk)) = Some n \<and> tk_rows tk (tk_table tk) \<le> npos \<and>
    call_level c = Row_level \<and> \<not> is_select c"
proof -
  have "needs_table c" "\<not> is_select c" "call_level c = Row_level" using assms(2) by (cases c; simp)+
  then show ?thesis using assms(1,3) by (auto simp: call_safe_def fits_def Let_def)
qed

lemma step_insert_rows:
  assumes t: "tracks mx ob tk" "tk_ready tk" "tk_top tk" and c: "c = Insert_empty_rows i n p u \<or> (\<exists>v w. c = Add_row_with_key i p v w) \<and> n = 1"
    and safe: "call_safe tk c"
  shows "\<exists>ob'. step_ok mx c ob tk ob'"
proof -
  let ?f = "\<lambda>li. if nat i \<le> li_row_ndx li then li\<lparr>li_row_ndx := li_row_ndx li + nat n\<rparr> else li"
  let ?g = "\<lambda>(r, k). (if nat i \<le> r then r + nat n else r, k :: nat)"
  let ?m = "tk_rows tk (tk_table tk)"
  have m: "rows_after c ?m = Some (?m + nat n)" "nat i \<le> ?m" "0 < nat n"
    using safe_rows [OF safe _ t(3)] c by (auto split: if_splits)
  have "located (map (\<lambda>l. Option.bind l (location_after tk c)) (tk_locs tk)) (map (on_current ob ?f) (lists (m_info ob)))"
  proof (rule located_current [OF t(1,3), where g = ?g])
    show "(r, k) = (r', k')" if "?g (r, k) = ?g (r', k')" for r k r' k' using that by (auto split: if_splits)
  qed (use c in auto)
  moreover have "observe mx c ob = Some (set_lists (map (on_current ob ?f) (lists (m_info ob))) (set_tbls ts ob))"
    if "with_builder (m_active_table ob) (cb_insert mx (nat i) (nat n) (m_need_move_info ob)) ob = Some (set_tbls ts ob)" for ts
    using that c top_state(1) [OF t] by (auto simp: observe_def ob_insert_empty_rows_def ob_add_row_with_key_def map_lists_set)
  moreover have "\<exists>b'. cb_insert mx (nat i) (nat n) (m_need_move_info ob) b = Some b' \<and> tb_ok mx (follows_moves tk (tk_table tk)) (?m + nat n) b'"
    if "watched tk (tk_table tk)" "tb_ok mx (follows_moves tk (tk_table tk)) ?m b" for b
    using tb_insert [OF that(2) m(3,2)] top_state(4) [OF t that(1)] by simp
  moreover have "call_level c \<noteq> List_level" "call_level c \<noteq> Group_level" "\<not> is_select c" using c by auto
  ultimately show ?thesis by (intro step_top [OF t _ _ _ m(1) _ _ aside_id])
qed

lemma step_swap:
  assumes t: "tracks mx ob tk" "tk_ready tk" "tk_top tk" and safe: "call_safe tk (Swap_rows i j)"
  shows "\<exists>ob'. step_ok mx (Swap_rows i j) ob tk ob'"
proof -
  let ?f = "\<lambda>li. if li_row_ndx li = nat i then li\<lparr>li_row_ndx := nat j\<rparr>
         else if li_row_ndx li = nat j then li\<lparr>li_row_ndx := nat i\<rparr> else li"
  let ?g = "\<lambda>(r, k). (if r = nat i then nat j else if r = nat j then nat i else r, k :: nat)"
  let ?m = "tk_rows tk (tk_table tk)"
  have m: "rows_after (Swap_rows i j) ?m = Some ?m" "nat i < ?m" "nat j < ?m" "nat i \<noteq> nat j" "i < j"
    using safe_rows [OF safe _ t(3)] by (auto split: if_splits)
  have l: "located (map (\<lambda>l. Option.bind l (location_after tk (Swap_rows i j))) (tk_locs tk)) (map (on_current ob ?f) (lists (m_info ob)))"
  proof (rule located_current [OF t(1,3), where g = ?g])
    show "(r, k) = (r', k')" if "?g (r, k) = ?g (r', k')" for r k r' k' using that by (auto split: if_splits)
  qed auto
  have o: "observe mx (Swap_rows i j) ob = Some (set_lists (map (on_current ob ?f) (lists (m_info ob))) (set_tbls ts ob))"
    if "with_builder (m_active_table ob) (cb_swap mx (nat i) (nat j) (m_need_move_info ob)) ob = Some (set_tbls ts ob)" for ts
    using that top_state(1) [OF t] m(5) by (simp add: observe_def ob_swap_rows_def map_lists_set)
  have f: "\<exists>b'. cb_swap mx (nat i) (nat j) (m_need_move_info ob) b = Some b' \<and> tb_ok mx (follows_moves tk (tk_table tk)) ?m b'"
    if "watched tk (tk_table tk)" "tb_ok mx (follows_moves tk (tk_table tk)) ?m b" for b
    using tb_swap [OF that(2) m(2-4)] top_state(4) [OF t that(1)] by simp
  show ?thesis by (rule step_top [OF t _ _ _ m(1) f o aside_id l]) simp_all
qed

lemma step_merge:
  assumes t: "tracks mx ob tk" "tk_ready tk" "tk_top tk" and safe: "call_safe tk (Merge_rows i j)"
  shows "\<exists>ob'. step_ok mx (Merge_rows i j) ob tk ob'"
proof -
  let ?f = "\<lambda>li. if li_row_ndx li = nat i then li\<lparr>li_row_ndx := nat j\<rparr> else li"
  let ?g = "\<lambda>(r, k). (if r = nat i then nat j else r, k :: nat)"
  let ?m = "tk_rows tk (tk_table tk)"
  have m: "rows_after (Merge_rows i j) ?m = Some ?m" "nat i < ?m" "nat j < ?m"
    using safe_rows [OF safe _ t(3)] by (auto split: if_splits)
  have l: "located (map (\<lambda>l. Option.bind l (location_after tk (Merge_rows i j))) (tk_locs tk)) (map (on_current ob ?f) (lists (m_info ob)))"
  proof (rule located_current [OF t(1,3), where g = ?g])
    show "(r, k) = (r', k')" if "Some (tk_table tk, r, k) \<in> set (tk_locs tk)"
      "Some (tk_table tk, r', k') \<in> set (tk_locs tk)" "?g (r, k) = ?g (r', k')" for r k r' k'
      using that safe t(3) by (auto simp: call_safe_def in_rows_iff split: if_splits)
  qed auto
  have o: "observe mx (Merge_rows i j) ob = Some (set_lists (map (on_current ob ?f) (lists (m_info ob))) (set_tbls ts ob))"
    if "with_builder (m_active_table ob) (cb_subsume mx (nat i) (nat j) (m_need_move_info ob)) ob = Some (set_tbls ts ob)" for ts
    using that top_state(1) [OF t] by (simp add: observe_def ob_merge_rows_def map_lists_set)
  have f: "\<exists>b'. cb_subsume mx (nat i) (nat j) (m_need_move_info ob) b = Some b' \<and> tb_ok mx (follows_moves tk (tk_table tk)) ?m b'"
    if "watched tk (tk_table tk)" "tb_ok mx (follows_moves tk (tk_table tk)) ?m b" for b
    using tb_subsume [OF that(2) m(2,3)] top_state(4) [OF t that(1)] safe t(3) that(1) by (auto simp: call_safe_def)
  show ?thesis by (rule step_top [OF t _ _ _ m(1) f o aside_id l]) simp_all
qed

lemma step_clear:
  assumes t: "tracks mx ob tk" "tk_ready tk" "tk_top tk"
  shows "\<exists>ob'. step_ok mx (Clear_table n) ob tk ob'"
proof -
  let ?ls = "filter (\<lambda>li. li_table_ndx li \<noteq> tk_table tk) (lists (m_info ob))"
  have "location_after tk (Clear_table n) = (\<lambda>p. if fst p = tk_table tk then None else Some p)"
    using t(3) by (auto simp: location_after_def fun_eq_iff)
  then have l: "located (map (\<lambda>l. Option.bind l (location_after tk (Clear_table n))) (tk_locs tk)) ?ls"
    using located_filter [OF top_state(5) [OF t], of "tk_table tk"] by simp
  have o: "observe mx (Clear_table n) ob = Some (set_lists ?ls (set_tbls ts ob))"
    if "with_builder (m_active_table ob) (cb_clear mx npos) ob = Some (set_tbls ts ob)" for ts
    using that top_state(1,2) [OF t] by (simp add: observe_def ob_clear_table_def) (simp add: set_lists_def set_tbls_def)
  show ?thesis by (rule step_top [OF t _ _ _ _ tb_clear o aside_id l]) simp_all
qed

lemma no_lists_here:
  assumes t: "tracks mx ob tk" and "\<not> list_ex (in_current tk) (tk_locs tk)"
  shows "\<forall>li \<in> set (lists (m_info ob)). li_table_ndx li \<noteq> tk_table tk"
proof
  have loc: "located (tk_locs tk) (lists (m_info ob))" using t by (simp add: tracks_def)
  fix li assume li: "li \<in> set (lists (m_info ob))"
  from entry_in_locs [OF loc li] have "Some (li_table_ndx li, li_row_ndx li, li_col_ndx li) \<in> set (tk_locs tk)"
    by (metis nth_mem)
  then show "li_table_ndx li \<noteq> tk_table tk" using assms(2) by (force simp: list_ex_iff in_current_def)
qed

lemma step_erase_ordered:
  assumes t: "tracks mx ob tk" "tk_ready tk" "tk_top tk" and safe: "call_safe tk (Erase_rows i n p False)"
  shows "\<exists>ob'. step_ok mx (Erase_rows i n p False) ob tk ob'"
proof -
  let ?c = "Erase_rows i n p False" and ?m = "tk_rows tk (tk_table tk)"
  have m: "rows_after ?c ?m = Some (?m - 1)" "nat i < ?m" "?m \<le> npos"
    using safe_rows [OF safe _ t(3)] by (auto split: if_splits)
  have l: "located (map (\<lambda>l. Option.bind l (location_after tk ?c)) (tk_locs tk)) (lists (m_info ob))"
    using safe t(3) by (intro located_elsewhere [OF top_state(5) [OF t]]) (auto simp: call_safe_def)
  have o: "observe mx ?c ob = Some (set_lists (lists (m_info ob)) (set_tbls ts ob))"
    if "with_builder (m_active_table ob) (cb_erase mx (nat i)) ob = Some (set_tbls ts ob)" for ts
    using that by (simp add: observe_def ob_erase_rows_def) (simp add: set_lists_def set_tbls_def)
  show ?thesis by (rule step_top [OF t _ _ _ m(1) tb_erase [OF _ m(2,3)] o aside_id l]) simp_all
qed

lemma step_erase_over:
  assumes t: "tracks mx ob tk" "tk_ready tk" "tk_top tk" and safe: "call_safe tk (Erase_rows i n p True)"
  shows "\<exists>ob'. step_ok mx (Erase_rows i n p True) ob tk ob'"
proof -
  let ?c = "Erase_rows i n p True" and ?m = "tk_rows tk (tk_table tk)" and ?l = "nat p - 1"
  let ?ls = "erase_row_lists (tk_table tk) (nat i) ?l 0 (lists (m_info ob))"
  have m: "rows_after ?c ?m = Some (?m - 1)" "nat i < ?m" "?m \<le> npos" "nat p = ?m"
    using safe_rows [OF safe _ t(3)] by (auto split: if_splits)
  have l: "located (map (\<lambda>l. Option.bind l (location_after tk ?c)) (tk_locs tk)) ?ls"
  proof (cases "list_ex (in_current tk) (tk_locs tk)")
    case False
    then show ?thesis using erase_without_lists [OF no_lists_here [OF t(1) False]] located_elsewhere [OF top_state(5) [OF t]] by simp
  next
    case True
    have "(\<lambda>o'. case o' of Some (t', r, k) \<Rightarrow> t' = tk_table tk \<and> r \<in> {nat i, ?l} | None \<Rightarrow> False) = in_rows tk [nat i, ?l]"
      by (auto simp: fun_eq_iff in_rows_def split: option.splits)
    then have "located (map (\<lambda>o'. Option.bind o' (erase_after (tk_table tk) (nat i) ?l)) (tk_locs tk)) ?ls"
      using safe True t(3) by (intro located_erase [OF top_state(5) [OF t]]) (auto simp: call_safe_def in_rows_iff)
    moreover have "location_after tk ?c = erase_after (tk_table tk) (nat i) ?l"
      using t(3) by (auto simp: location_after_def erase_after_def fun_eq_iff)
    ultimately show ?thesis by simp
  qed
  have o: "observe mx ?c ob = Some (set_lists ?ls (set_tbls ts ob))"
    if "with_builder (m_active_table ob) (cb_move_over mx (nat i) (?m - 1) (m_need_move_info ob)) ob = Some (set_tbls ts ob)" for ts
    using that m(2,4) top_state(1,2) [OF t] by (simp add: observe_def ob_erase_rows_def Let_def) (simp add: set_lists_def set_tbls_def)
  have f: "\<exists>b'. cb_move_over mx (nat i) (?m - 1) (m_need_move_info ob) b = Some b' \<and> tb_ok mx (follows_moves tk (tk_table tk)) (?m - 1) b'"
    if "watched tk (tk_table tk)" "tb_ok mx (follows_moves tk (tk_table tk)) ?m b" for b
    using tb_move_over [OF that(2) m(2,3)] top_state(4) [OF t that(1)] by simp
  show ?thesis by (rule step_top [OF t _ _ _ m(1) f o aside_id l]) simp_all
qed

lemma step_move_row:
  assumes t: "tracks mx ob tk" "tk_ready tk" "tk_top tk" and safe: "call_safe tk (Move_row i j)"
  shows "\<exists>ob'. step_ok mx (Move_row i j) ob tk ob'"
proof -
  let ?m = "tk_rows tk (tk_table tk)"
  have m: "rows_after (Move_row i j) ?m = Some ?m" using safe_rows [OF safe _ t(3)] by (auto split: if_splits)
  have w: "\<not> watched tk (tk_table tk)" "\<not> list_ex (in_current tk) (tk_locs tk)" using safe t(3) by (auto simp: call_safe_def)
  have l: "located (map (\<lambda>l. Option.bind l (location_after tk (Move_row i j))) (tk_locs tk)) (lists (m_info ob))"
    using w by (intro located_elsewhere [OF top_state(5) [OF t]]) auto
  have n: "m_active_table ob = Nullptr" using top_state(3) [OF t] w t(3) by (simp add: active_of_def)
  have o: "observe mx (Move_row i j) ob = Some (set_lists (lists (m_info ob)) (set_tbls ts ob))"
    if "with_builder (m_active_table ob) Some ob = Some (set_tbls ts ob)" for ts
  proof -
    have "set_tbls ts ob = ob" using that n by simp
    then show ?thesis using n by (simp add: observe_def ob_move_row_def)
  qed
  show ?thesis by (rule step_top [OF t _ _ _ m _ o aside_id l]) (use w in simp_all)
qed

lemma step_rows:
  assumes t: "tracks mx ob tk" "tk_ready tk" "tk_top tk" and c: "moves_rows c" "call_safe tk c"
  shows "\<exists>ob'. step_ok mx c ob tk ob'"
proof (cases c)
  case (Insert_empty_rows i n p u)
  then show ?thesis using step_insert_rows [OF t _ c(2)] by blast
next
  case (Add_row_with_key i p v w)
  then show ?thesis using step_insert_rows [OF t, of c i 1] c(2) by blast
next
  case (Erase_rows i n p u)
  then show ?thesis using step_erase_ordered [OF t] step_erase_over [OF t] c(2) by (cases u) simp_all
qed (use c t step_swap step_merge step_clear step_move_row in \<open>(simp; fail) | blast\<close>)+

subsection \<open>Columns\<close>

lemma with_builder_schema: "with_builder ref f (set_schema_changed ob) = map_option set_schema_changed (with_builder ref f ob)"
  by (cases ref) (auto simp: with_builder_def set_schema_changed_def split: bind_splits)

lemma observe_column:
  assumes "(\<exists>x y z. c = Insert_column i x y z) \<or> (\<exists>x y z w. c = Insert_link_column i x y z w)"
  shows "observe mx c ob = ob_insert_column i ob" "call_level c = Column_level" "\<not> is_select c" "needs_table c"
    "rows_after c m = Some m" "cell_after c r k = Some (r, if nat i \<le> k then k + 1 else k)" "\<not> moves_rows c" "sub_ops c = []"
  using assms by (auto simp: observe_def)

lemma column_noop:
  assumes "m_active_descriptor ob = Nullptr" "m_active_table ob \<noteq> Dangling" "m_active_table ob \<noteq> Nullptr \<or> \<not> m_is_top_level_table ob"
  shows "ob_insert_column i ob = Some (set_schema_changed ob)"
  using assms by (auto simp: ob_insert_column_def Let_def same_ref_def set_schema_changed_def)

lemma sel_ref_simps [simp]: "sel_ref s \<noteq> Dangling" "sel_ref s \<noteq> Table_ref t" "dangle (sel_ref s) = sel_ref s"
  by (simp_all add: sel_ref_def split: option.split)

lemma active_not_dangling [simp]: "active_of tk \<noteq> Dangling"
  by (simp add: active_of_def)

lemma step_insert_column:
  assumes t: "tracks mx ob tk" "tk_ready tk" "tk_top tk" and c: "(\<exists>x y z. c = Insert_column i x y z) \<or> (\<exists>x y z w. c = Insert_link_column i x y z w)"
    and safe: "call_safe tk c"
  shows "\<exists>ob'. step_ok mx c ob tk ob'"
proof (cases "tk_desc tk = Some True")
  case False
  note o = observe_column [OF c]
  have w: "tk_desc tk = Some False" "watched tk (tk_table tk)" using safe c t(3) False by (auto simp: call_safe_def)
  then have "m_active_descriptor ob = Nullptr" "m_active_table ob = Table_ref (tk_table tk)"
    using t by (auto simp: tracks_def selected_ok_def active_of_def)
  then have n: "observe mx c ob = Some (set_schema_changed ob)" unfolding o(1) by (intro column_noop) simp_all
  have "location_after tk c = Some" using o(2) False c by (auto simp: location_after_def fun_eq_iff)
  then have l: "located (map (\<lambda>l. Option.bind l (location_after tk c)) (tk_locs tk)) (lists (m_info ob))"
    using located_same top_state(5) [OF t] by simp
  have "observe mx c ob = Some (set_schema_changed (set_lists (lists (m_info ob)) (set_tbls ts ob)))"
    if "with_builder (m_active_table ob) Some ob = Some (set_tbls ts ob)" for ts
    using n with_some [OF that] by simp
  note s = this
  show ?thesis by (rule step_top [OF t _ _ o(3,5) _ s aside_schema l]) (use o(2) in simp_all)
next
  case True
  note o = observe_column [OF c]
  let ?f = "\<lambda>li. if nat i \<le> li_col_ndx li then li\<lparr>li_col_ndx := li_col_ndx li + 1\<rparr> else li"
  let ?g = "\<lambda>(r :: nat, k). (r, if nat i \<le> k then k + 1 else k)"
  let ?F = "\<lambda>indices. (insert_empty_at 0 (nat i) (expand_to indices (nat i)))[nat i := npos]"
  let ?h = "\<lambda>ob. the (current_columns (\<lambda>xs. Some (?F xs)) (set_schema_changed ob))"
  have l: "located (map (\<lambda>l. Option.bind l (location_after tk c)) (tk_locs tk)) (map (on_current ob ?f) (lists (m_info ob)))"
  proof (rule located_current [OF t(1,3), where g = ?g])
    show "(r, k) = (r', k')" if "?g (r, k) = ?g (r', k')" for r k r' k' using that by (auto split: if_splits)
  qed (use o(2,6) True in auto)
  have d: "m_active_descriptor ob = m_active_table ob" "m_active_table ob \<noteq> Dangling"
    using t True by (auto simp: tracks_def selected_ok_def)
  have w: "observe mx c ob = Some (?h (set_lists (map (on_current ob ?f) (lists (m_info ob))) (set_tbls ts ob)))"
    if "with_builder (m_active_table ob) (\<lambda>b. Some (cb_insert_column (nat i) b)) ob = Some (set_tbls ts ob)" for ts
  proof -
    have "with_builder (m_active_descriptor (set_schema_changed ob)) (\<lambda>b. Some (cb_insert_column (nat i) b)) (set_schema_changed ob) =
      Some (set_schema_changed (set_tbls ts ob))"
      using that d(1) by (simp add: with_builder_schema) (simp add: set_schema_changed_def)
    moreover have "same_ref (m_active_descriptor (set_schema_changed (set_tbls ts ob))) (m_active_table (set_schema_changed (set_tbls ts ob))) = Some True"
      using d by (simp add: same_ref_def set_schema_changed_def set_tbls_def)
    moreover have "m_is_top_level_table (set_schema_changed (set_tbls ts ob))"
      using top_state(1) [OF t] by (simp add: set_schema_changed_def set_tbls_def)
    moreover have "map_lists (on_current (set_schema_changed (set_tbls ts ob)) ?f) (set_schema_changed (set_tbls ts ob)) =
      set_schema_changed (set_lists (map (on_current ob ?f) (lists (m_info ob))) (set_tbls ts ob))"
      by (simp add: map_lists_def set_lists_def set_tbls_def on_current_def set_schema_changed_def)
    ultimately have "ob_insert_column i ob = current_columns (\<lambda>xs. Some (?F xs))
        (set_schema_changed (set_lists (map (on_current ob ?f) (lists (m_info ob))) (set_tbls ts ob)))"
      by (simp add: ob_insert_column_def Let_def)
    then show ?thesis unfolding o(1) by (simp add: current_columns_def Let_def)
  qed
  have b: "\<exists>b'. Some (cb_insert_column (nat i) b) = Some b' \<and> tb_ok mx (follows_moves tk (tk_table tk)) (tk_rows tk (tk_table tk)) b'"
    if "tb_ok mx (follows_moves tk (tk_table tk)) (tk_rows tk (tk_table tk)) b" for b
    using tb_insert_column [OF that] by simp
  have h: "aside ?h" by (rule aside_comp [OF aside_columns aside_schema])
  show ?thesis by (rule step_top [OF t _ _ o(3,5) b w h l]) (use o(2) in simp_all)
qed

lemma step_sub_column:
  assumes t: "tracks mx ob tk" "tk_ready tk" "\<not> tk_top tk" and c: "(\<exists>x y z. c = Insert_column i x y z) \<or> (\<exists>x y z w. c = Insert_link_column i x y z w)"
    and safe: "call_safe tk c"
  shows "\<exists>ob'. step_ok mx c ob tk ob'"
proof -
  note o = observe_column [OF c]
  have s: "tk_sub tk = None" "tk_desc tk \<noteq> None" using safe c t(3) by (auto simp: call_safe_def)
  then have "m_active_descriptor ob = Nullptr" "m_active_table ob = Nullptr" "\<not> m_is_top_level_table ob"
    using t by (auto simp: tracks_def selected_ok_def active_of_def sel_ref_def)
  then have n: "observe mx c ob = Some (set_schema_changed ob)" unfolding o(1) by (intro column_noop) simp_all
  have "edits_of tk c a = []" for a using sub_edits [of c tk a] o(2) t s by simp
  moreover have "track c tk = tk" using sub_track [OF t(3) o(3)] o(2) by simp
  moreover have "tracks mx (set_schema_changed ob) tk" "builders (m_info (set_schema_changed ob)) = builders (m_info ob)"
    using aside_schema t(1) by (auto simp: aside_def)
  ultimately show ?thesis using n by (intro exI [of _ "set_schema_changed ob"]) (simp add: step_ok_def)
qed

subsection \<open>Inserted tables\<close>

lemma nth_insert_empty:
  assumes "t < length (insert_empty_at d i xs)"
  shows "insert_empty_at d i xs ! t = row_insert i 1 d (\<lambda>t. xs ! t) t"
    "t < i \<Longrightarrow> t < length xs" "i < t \<Longrightarrow> t - 1 < length xs" "t = i \<Longrightarrow> i < length xs"
  using assms by (auto simp: insert_empty_at_def row_insert_def nth_append min_def nth_Cons' split: if_splits)

lemma flag_insert_empty: "is_set_flag (insert_empty_at False i fs) = row_insert i 1 False (is_set_flag fs)"
  by (auto simp: fun_eq_iff is_set_flag_def insert_empty_at_def row_insert_def nth_append min_def nth_Cons')

lemma step_insert_table:
  assumes t: "tracks mx ob tk"
  shows "\<exists>ob'. step_ok mx (Insert_group_level_table ndx n name) ob tk ob'"
proof -
  let ?c = "Insert_group_level_table ndx n name" and ?i = "nat ndx"
  let ?ob = "ob_insert_group_level_table ndx ob"
  let ?g = "\<lambda>(t, r, k). (push_up ?i t, r, k) :: location" and ?f = "\<lambda>li. li\<lparr>li_table_ndx := push_up ?i (li_table_ndx li)\<rparr>"
  have e: "lists (m_info ?ob) = map ?f (lists (m_info ob))" "builders (m_info ?ob) = builders (m_info ob)"
    "track_all (m_info ?ob) = track_all (m_info ob)" "tables (m_info ?ob) = insert_empty_at cb_default ?i (tables (m_info ob))"
    "table_modifications_needed (m_info ?ob) = insert_empty_at False ?i (table_modifications_needed (m_info ob))"
    "table_moves_needed (m_info ?ob) = insert_empty_at False ?i (table_moves_needed (m_info ob))"
    by (simp_all add: info_after_insert Let_def prepare_table_indices_def)
  have s: "m_current_table ?ob = m_current_table ob" "m_is_top_level_table ?ob = m_is_top_level_table ob"
    "m_active_list ?ob = m_active_list ob \<or> m_active_list ?ob = dangle (m_active_list ob)"
    by (simp_all add: ob_insert_group_level_table_def Let_def set_tables_def map_lists_def set_schema_changed_def)
  have l: "located (map (\<lambda>l. Option.bind l (\<lambda>l. Some (?g l))) (tk_locs tk)) (map ?f (lists (m_info ob)))"
    by (rule located_map) (use t in \<open>auto simp: tracks_def entry_def push_up_def split: if_splits\<close>)
  have a: "location_after tk ?c = (\<lambda>l. Some (?g l))" by (auto simp: location_after_def fun_eq_iff push_up_def)
  have b: "table_builders_ok mx (track ?c tk) (tk_rows (track ?c tk)) (insert_empty_at cb_default ?i (tables (m_info ob)))"
    unfolding table_builders_ok_def
  proof (intro allI impI)
    fix x assume x: "x < length (insert_empty_at cb_default ?i (tables (m_info ob)))"
    have ok: "\<forall>t < length (tables (m_info ob)). tb_ok mx (follows_moves tk t) (tk_rows tk t) (tables (m_info ob) ! t) \<and>
        (\<not> watched tk t \<longrightarrow> tables (m_info ob) ! t = cb_default)" and mx: "max_size_ok mx"
      using t by (auto simp: tracks_def table_builders_ok_def)
    show "tb_ok mx (follows_moves (track ?c tk) x) (tk_rows (track ?c tk) x) (insert_empty_at cb_default ?i (tables (m_info ob)) ! x) \<and>
      (\<not> watched (track ?c tk) x \<longrightarrow> insert_empty_at cb_default ?i (tables (m_info ob)) ! x = cb_default)"
      unfolding nth_insert_empty(1) [OF x] using ok nth_insert_empty(2,3) [OF x] tb_ok_default [OF mx]
      by (cases x ?i rule: linorder_cases) (auto simp: track_def row_insert_def follows_moves_def watched_def)
  qed
  have "edits_of tk ?c x = []" for x by (simp add: edits_of_def)
  moreover have "tracks mx ?ob (track ?c tk)"
    using t b l e s flag_insert_empty unfolding tracks_def by (auto simp: track_def a)
  ultimately show ?thesis using e(2) by (intro exI [of _ ?ob]) (simp add: step_ok_def observe_def)
qed

subsection \<open>Selections\<close>

lemma find_loc_bound: "find_loc l locs = Some a \<Longrightarrow> a < length locs"
  using find_SomeD [of "\<lambda>a. locs ! a = Some l" "[0..<length locs]" a] by (simp add: find_loc_def)

definition room_for :: "nat \<Rightarrow> change_builder list \<Rightarrow> change_builder list" where
  "room_for t ts = (if length ts \<le> t then resize cb_default (max (length ts * 2) (t + 1)) ts else ts)"

lemma room_for_ok:
  assumes "table_builders_ok mx tk rows ts" "max_size_ok mx"
  shows "table_builders_ok mx tk rows (room_for t ts)" "t < length (room_for t ts)"
  using assms tb_ok_default [OF assms(2)] by (auto simp: table_builders_ok_def room_for_def resize_def nth_append)

lemma set_tables_room: "(if length (tables (m_info ob)) \<le> t
    then set_tables (resize cb_default (max (length (tables (m_info ob)) * 2) (t + 1)) (tables (m_info ob))) ob else ob) =
  (if length (tables (m_info ob)) \<le> t
    then (set_tbls (room_for t (tables (m_info ob))) ob)\<lparr>m_active_list := dangle (m_active_list ob),
      m_active_table := dangle (m_active_table ob), m_active_descriptor := dangle (m_active_descriptor ob)\<rparr> else ob)"
  by (simp add: set_tables_def Let_def room_for_def set_tbls_def resize_def)

text \<open>\<open>select_table\<close> up to the point where it looks at the path.\<close>

definition table_chosen :: "nat \<Rightarrow> observer \<Rightarrow> observer \<Rightarrow> bool" where
  "table_chosen t ob ob' \<longleftrightarrow> m_current_table ob' = t \<and> m_is_top_level_table ob' \<and> m_active_table ob' = Table_ref t \<and>
     m_active_list ob' = m_active_list ob \<and>
     m_need_move_info ob' = (track_all (m_info ob) \<or> is_set_flag (table_moves_needed (m_info ob)) t) \<and>
     m_info ob' = (m_info ob)\<lparr>tables := room_for t (tables (m_info ob))\<rparr>"

lemma select_watched:
  assumes w: "track_all (m_info ob) \<or> is_set_flag (table_modifications_needed (m_info ob)) (nat g)" and l: "m_active_list ob = sel_ref s"
    and p: "length path \<le> 1"
  shows "\<exists>ob4. table_chosen (nat g) ob ob4 \<and> ob_select_table mx g path ob =
    (case path of
       [(col, row)] \<Rightarrow> do {
           ob5 \<leftarrow> ob_mark_dirty mx (nat row) (nat col) ob4;
           let ob6 = ob5\<lparr>m_active_table := Nullptr, m_is_top_level_table := False\<rparr>;
           let table = find_list (m_current_table ob6) (nat col) (nat row) (lists (m_info ob6));
           Some (if table \<noteq> Nullptr then ob6\<lparr>m_active_table := table, m_need_move_info := True\<rparr> else ob6) }
     | _ \<Rightarrow> Some ob4)"
proof -
  let ?ob1 = "(validate_select_table g ob)\<lparr>m_active_table := Nullptr, m_is_top_level_table := True\<rparr>"
  let ?ob2 = "?ob1\<lparr>m_need_move_info := (track_all (m_info ob) \<or> is_set_flag (table_moves_needed (m_info ob)) (nat g))\<rparr>"
  let ?ob3 = "if length (tables (m_info ?ob2)) \<le> nat g
    then set_tables (resize cb_default (max (length (tables (m_info ?ob2)) * 2) (nat g + 1)) (tables (m_info ?ob2))) ?ob2 else ?ob2"
  let ?ob4 = "?ob3\<lparr>m_active_table := Table_ref (nat g)\<rparr>"
  have "table_chosen (nat g) ob ?ob4"
    unfolding set_tables_room using l by (simp add: table_chosen_def validate_select_table_def set_tbls_def room_for_def)
  moreover have "ob_select_table mx g path ob = (case path of
       [(col, row)] \<Rightarrow> do {
           ob5 \<leftarrow> ob_mark_dirty mx (nat row) (nat col) ?ob4;
           let ob6 = ob5\<lparr>m_active_table := Nullptr, m_is_top_level_table := False\<rparr>;
           let table = find_list (m_current_table ob6) (nat col) (nat row) (lists (m_info ob6));
           Some (if table \<noteq> Nullptr then ob6\<lparr>m_active_table := table, m_need_move_info := True\<rparr> else ob6) }
     | _ \<Rightarrow> Some ?ob4)"
  proof -
    have "path = [] \<or> (\<exists>c r. path = [(c, r)])" using p by (cases path; cases "tl path") auto
    then show ?thesis using w
      by (elim disjE exE; cases "length (tables (m_info ob)) \<le> nat g")
        (simp_all add: ob_select_table_def Let_def validate_select_table_def)
  qed
  ultimately show ?thesis by (intro exI [of _ ?ob4]) (simp only: simp_thms)
qed

lemma chosen_tracks:
  assumes t: "tracks mx ob tk" and o: "table_chosen (nat g) ob ob4" and w: "watched tk (nat g)"
  shows "tracks mx ob4 (track (Select_table g []) tk)"
proof -
  have ok: "table_builders_ok mx tk (tk_rows tk) (room_for (nat g) (tables (m_info ob)))"
    "nat g < length (room_for (nat g) (tables (m_info ob)))" using t room_for_ok by (auto simp: tracks_def)
  then show ?thesis using t o w unfolding tracks_def table_chosen_def
    by (auto simp: track_def selected_ok_def active_of_def watched_def follows_moves_def table_builders_ok_def)
qed

lemma step_select_top:
  assumes t: "tracks mx ob tk"
  shows "\<exists>ob'. step_ok mx (Select_table g []) ob tk ob'"
proof (cases "watched tk (nat g)")
  case True
  then obtain ob4 where ob4: "table_chosen (nat g) ob ob4" "ob_select_table mx g [] ob = Some ob4"
    using select_watched [of ob g "tk_sel tk" "[]" mx] t by (auto simp: tracks_def watched_def)
  then show ?thesis using chosen_tracks [OF t ob4(1) True]
    by (intro exI [of _ ob4]) (simp add: step_ok_def observe_def table_chosen_def edits_of_def)
next
  case False
  let ?ob = "ob\<lparr>m_current_table := nat g, m_active_table := Nullptr, m_is_top_level_table := True\<rparr>"
  have "observe mx (Select_table g []) ob = Some ?ob"
    using False t by (simp add: observe_def ob_select_table_def Let_def validate_select_table_def tracks_def watched_def)
  moreover have "tracks mx ?ob (track (Select_table g []) tk)"
    using t False unfolding tracks_def
    by (auto simp: track_def selected_ok_def active_of_def watched_def follows_moves_def table_builders_ok_def)
  ultimately show ?thesis by (intro exI [of _ ?ob]) (simp add: step_ok_def edits_of_def)
qed

lemma step_select_deep:
  assumes t: "tracks mx ob tk" and p: "1 < length path"
  shows "\<exists>ob'. step_ok mx (Select_table g path) ob tk ob'"
proof -
  let ?ob = "ob\<lparr>m_current_table := nat g, m_active_table := Nullptr, m_is_top_level_table := False\<rparr>"
  obtain x y ps where ps: "path = x # y # ps" using p by (cases path; cases "tl path") auto
  have "observe mx (Select_table g path) ob = Some ?ob"
    using p by (simp add: observe_def ob_select_table_def Let_def validate_select_table_def)
  moreover have "tracks mx ?ob (track (Select_table g path) tk)"
    using t unfolding tracks_def ps
    by (auto simp: track_def selected_ok_def active_of_def watched_def follows_moves_def table_builders_ok_def sel_ref_def)
  ultimately show ?thesis by (intro exI [of _ ?ob]) (simp add: step_ok_def edits_of_def)
qed

lemma step_select_sub:
  assumes t: "tracks mx ob tk" and s: "call_safe tk (Select_table g [(col, row)])"
  shows "\<exists>ob'. step_ok mx (Select_table g [(col, row)]) ob tk ob'"
proof -
  let ?c = "Select_table g [(col, row)]" and ?s = "find_loc (nat g, nat row, nat col) (tk_locs tk)"
  let ?tk = "track (Select_table g []) tk"
  have w: "watched tk (nat g)" "nat row < tk_rows tk (nat g)" using s by (simp_all add: call_safe_def)
  have ex: "\<exists>ob4. table_chosen (nat g) ob ob4 \<and> ob_select_table mx g [(col, row)] ob = do {
           ob5 \<leftarrow> ob_mark_dirty mx (nat row) (nat col) ob4;
           let ob6 = ob5\<lparr>m_active_table := Nullptr, m_is_top_level_table := False\<rparr>;
           let table = find_list (m_current_table ob6) (nat col) (nat row) (lists (m_info ob6));
           Some (if table \<noteq> Nullptr then ob6\<lparr>m_active_table := table, m_need_move_info := True\<rparr> else ob6) }"
    using select_watched [of ob g "tk_sel tk" "[(col, row)]" mx] t w(1) by (simp add: tracks_def watched_def)
  then obtain ob4 where ob4: "table_chosen (nat g) ob ob4" "ob_select_table mx g [(col, row)] ob = do {
           ob5 \<leftarrow> ob_mark_dirty mx (nat row) (nat col) ob4;
           let ob6 = ob5\<lparr>m_active_table := Nullptr, m_is_top_level_table := False\<rparr>;
           let table = find_list (m_current_table ob6) (nat col) (nat row) (lists (m_info ob6));
           Some (if table \<noteq> Nullptr then ob6\<lparr>m_active_table := table, m_need_move_info := True\<rparr> else ob6) }" by blast
  have t4: "tracks mx ob4 ?tk" "tk_ready ?tk" "tk_top ?tk" using chosen_tracks [OF t ob4(1) w(1)] by (simp_all add: track_def)
  have k: "tk_table ?tk = nat g" "tk_rows ?tk = tk_rows tk" "tk_locs ?tk = tk_locs tk" by (simp_all add: track_def)
  have "\<exists>ts. with_builder (m_active_table ob4) (cb_modify mx (nat row) (nat col)) ob4 = Some (set_tbls ts ob4) \<and>
      length ts = length (tables (m_info ob4)) \<and> table_builders_ok mx ?tk ((tk_rows ?tk)(tk_table ?tk := tk_rows ?tk (tk_table ?tk))) ts"
    by (rule feed_table [OF t4]) (use w(2) k in \<open>auto intro: tb_modify\<close>)
  then obtain ts where ts: "ob_mark_dirty mx (nat row) (nat col) ob4 = Some (set_tbls ts ob4)"
    "length ts = length (tables (m_info ob4))" "table_builders_ok mx ?tk (tk_rows tk) ts"
    by (auto simp: ob_mark_dirty_def k)
  let ?ob6 = "(set_tbls ts ob4)\<lparr>m_active_table := Nullptr, m_is_top_level_table := False\<rparr>"
  have i: "m_current_table ob4 = nat g" "lists (m_info ob4) = lists (m_info ob)" "builders (m_info ob4) = builders (m_info ob)"
    using ob4(1) by (simp_all add: table_chosen_def)
  have "located (tk_locs tk) (lists (m_info ob))" using t by (simp add: tracks_def)
  then have "find_list (nat g) (nat col) (nat row) (lists (m_info ob)) = sel_ref ?s" by (rule find_list_located)
  then have run: "observe mx ?c ob = Some (if sel_ref ?s \<noteq> Nullptr then ?ob6\<lparr>m_active_table := sel_ref ?s, m_need_move_info := True\<rparr> else ?ob6)"
    using ob4(2) ts(1) i by (simp add: observe_def set_tbls_def)
  have tk': "track ?c tk = ?tk\<lparr>tk_top := False, tk_sub := ?s\<rparr>" by (simp add: track_def)
  have ok: "table_builders_ok mx (track ?c tk) (tk_rows tk) ts"
    using ts(3) by (simp add: table_builders_ok_def tk' follows_moves_def watched_def)
  have "tracks mx (if sel_ref ?s \<noteq> Nullptr then ?ob6\<lparr>m_active_table := sel_ref ?s, m_need_move_info := True\<rparr> else ?ob6) (track ?c tk)"
    using t4(1) ok find_loc_bound [of "(nat g, nat row, nat col)" "tk_locs tk"] unfolding tracks_def
    by (cases ?s) (auto simp: tk' track_def selected_ok_def active_of_def sel_ref_def set_tbls_def)
  then show ?thesis using run i(3) by (simp add: step_ok_def edits_of_def) (auto simp: set_tbls_def)
qed

lemma step_select_list:
  assumes t: "tracks mx ob tk" and s: "call_safe tk (Select_link_list col row g)"
  shows "\<exists>ob'. step_ok mx (Select_link_list col row g) ob tk ob'"
proof -
  let ?c = "Select_link_list col row g" and ?s = "find_loc (tk_table tk, nat row, nat col) (tk_locs tk)"
  have r: "tk_ready tk" "tk_top tk" "nat row < tk_rows tk (tk_table tk)" using s by (simp_all add: call_safe_def)
  have "\<exists>ts. with_builder (m_active_table ob) (cb_modify mx (nat row) (nat col)) ob = Some (set_tbls ts ob) \<and>
      length ts = length (tables (m_info ob)) \<and> table_builders_ok mx tk ((tk_rows tk)(tk_table tk := tk_rows tk (tk_table tk))) ts"
    by (rule feed_table [OF t r(1,2)]) (use r(3) in \<open>auto intro: tb_modify\<close>)
  then obtain ts where ts: "ob_mark_dirty mx (nat row) (nat col) ob = Some (set_tbls ts ob)"
    "length ts = length (tables (m_info ob))" "table_builders_ok mx tk (tk_rows tk) ts" by (auto simp: ob_mark_dirty_def)
  have f: "find_list (tk_table tk) (nat col) (nat row) (lists (m_info ob)) = sel_ref ?s"
    using t by (intro find_list_located) (simp add: tracks_def)
  let ?ob = "(set_tbls ts ob)\<lparr>m_active_list := sel_ref ?s\<rparr>"
  have "observe mx ?c ob = Some ?ob"
    using ts(1) f top_state(2) [OF t r(1,2)] by (simp add: observe_def ob_select_link_list_def)
  moreover have "tracks mx ?ob (track ?c tk)"
    using t ts find_loc_bound [of "(tk_table tk, nat row, nat col)" "tk_locs tk"] unfolding tracks_def
    by (auto simp: track_def selected_ok_def active_of_def set_tbls_def watched_def follows_moves_def table_builders_ok_def)
  ultimately show ?thesis by (intro exI [of _ ?ob]) (simp add: step_ok_def edits_of_def set_tbls_def)
qed

lemma step_select_descriptor:
  assumes t: "tracks mx ob tk" and s: "call_safe tk (Select_descriptor path)"
  shows "\<exists>ob'. step_ok mx (Select_descriptor path) ob tk ob'"
proof -
  let ?ob = "ob_select_descriptor path ob"
  have "tracks mx ?ob (track (Select_descriptor path) tk)"
    using t s unfolding tracks_def
    by (auto simp: track_def ob_select_descriptor_def call_safe_def selected_ok_def active_of_def watched_def follows_moves_def table_builders_ok_def)
  then show ?thesis by (intro exI [of _ ?ob]) (simp add: step_ok_def observe_def edits_of_def, simp add: ob_select_descriptor_def)
qed

lemma step_select:
  assumes t: "tracks mx ob tk" and c: "is_select c" "call_safe tk c"
  shows "\<exists>ob'. step_ok mx c ob tk ob'"
proof (cases c)
  case (Select_table g path)
  consider "path = []" | col row where "path = [(col, row)]" | "1 < length path" by (cases path; cases "tl path") force+
  then show ?thesis using t c(2) Select_table step_select_top step_select_sub step_select_deep by cases simp_all
qed (use c t step_select_list step_select_descriptor in \<open>(simp; fail)+\<close>)

subsection \<open>Whole logs\<close>

lemma step:
  assumes t: "tracks mx ob tk" and c: "call_safe tk c"
    and ops: "\<forall>a < length (tk_locs tk). \<exists>b. foldM (link_apply mx) (edits_of tk c a) (builders (m_info ob) ! a) = Some b"
  shows "\<exists>ob'. step_ok mx c ob tk ob'"
proof (cases "is_select c")
  case True
  then show ?thesis by (rule step_select [OF t _ c])
next
  case ns: False
  show ?thesis
  proof (cases "call_level c")
    case List_level
    then show ?thesis by (rule step_link [OF t _ ops])
  next
    case Row_level
    then have "needs_table c" using ns by (cases c) simp_all
    then have r: "tk_ready tk" using c by (simp add: call_safe_def)
    show ?thesis
    proof (cases "tk_top tk")
      case True
      then show ?thesis using step_plain [OF t r True Row_level ns c] step_rows [OF t r True _ c] by blast
    next
      case False
      then show ?thesis by (rule step_sub [OF t r _ c Row_level ns ops])
    qed
  next
    case Column_level
    then have r: "tk_ready tk" using c by (cases c) (simp_all add: call_safe_def)
    show ?thesis
    proof (cases "(\<exists>i x y z. c = Insert_column i x y z) \<or> (\<exists>i x y z w. c = Insert_link_column i x y z w)")
      case True
      then show ?thesis using step_insert_column [OF t r _ _ c] step_sub_column [OF t r _ _ c] by blast
    next
      case False
      then have o: "observe mx c ob = Some ob" "location_after tk c = Some" "rows_after c m = Some m" "edits_of tk c a = []" for m a
        using Column_level ns c
        by (cases c; simp add: observe_def observe_set_def location_after_def fun_eq_iff call_safe_def edits_of_def)+
      have "track c tk = tk" using plain_track [OF ns, of tk] Column_level o(2,3) same_locs [of "tk_locs tk" Some] by simp
      then show ?thesis using t o(1,4) by (intro exI [of _ ob]) (simp add: step_ok_def)
    qed
  next
    case Group_level
    then show ?thesis using step_insert_table [OF t] c by (cases c) (simp_all add: call_safe_def)
  qed
qed

lemma length_track [simp]: "length (tk_locs (track c tk)) = length (tk_locs tk)"
  by (cases c) (simp_all add: track_def)

lemma length_tracks [simp]: "length (tk_locs (fold track cs tk)) = length (tk_locs tk)"
  by (induction cs arbitrary: tk) simp_all

lemma run:
  "tracks mx ob tk \<Longrightarrow> log_safe tk cs \<Longrightarrow>
   \<forall>a < length (tk_locs tk). \<exists>b. foldM (link_apply mx) (ops_of a tk cs) (builders (m_info ob) ! a) = Some b \<Longrightarrow>
   \<exists>ob'. foldM (observe mx) cs ob = Some ob' \<and> tracks mx ob' (fold track cs tk) \<and>
     (\<forall>a < length (tk_locs tk). foldM (link_apply mx) (ops_of a tk cs) (builders (m_info ob) ! a) = Some (builders (m_info ob') ! a))"
proof (induction cs arbitrary: ob tk)
  case Nil
  then show ?case by simp
next
  case (Cons c cs)
  have ops: "\<exists>b. foldM (link_apply mx) (edits_of tk c a) (builders (m_info ob) ! a) = Some b" if "a < length (tk_locs tk)" for a
    using Cons.prems(3) that by (fastforce simp: foldM_append bind_eq_Some_conv)
  have safe: "call_safe tk c" "log_safe (track c tk) cs" using Cons.prems(2) by simp_all
  obtain ob1 where s: "step_ok mx c ob tk ob1" using step [OF Cons.prems(1) safe(1)] ops by blast
  then have o1: "observe mx c ob = Some ob1" "tracks mx ob1 (track c tk)"
    "\<And>a. a < length (tk_locs tk) \<Longrightarrow> foldM (link_apply mx) (edits_of tk c a) (builders (m_info ob) ! a) = Some (builders (m_info ob1) ! a)"
    unfolding step_ok_def by simp_all
  have split: "foldM (link_apply mx) (ops_of a tk (c # cs)) (builders (m_info ob) ! a) =
    foldM (link_apply mx) (ops_of a (track c tk) cs) (builders (m_info ob1) ! a)" if "a < length (tk_locs tk)" for a
    using o1(3) [OF that] by (simp add: foldM_append)
  obtain ob2 where "foldM (observe mx) cs ob1 = Some ob2" "tracks mx ob2 (fold track cs (track c tk))"
    "\<forall>a < length (tk_locs tk). foldM (link_apply mx) (ops_of a (track c tk) cs) (builders (m_info ob1) ! a) = Some (builders (m_info ob2) ! a)"
    using Cons.IH [OF o1(2) safe(2), unfolded length_track] Cons.prems(3) split by (metis (no_types, lifting))
  then show ?case using o1(1) split by (intro exI [of _ ob2]) simp
qed

subsection \<open>An advancing transaction\<close>

text \<open>The tracker of what a change info asks for: lists at the given places, and any tables, with so many rows.\<close>

definition tracker_init :: "change_info \<Rightarrow> location option list \<Rightarrow> (nat \<Rightarrow> nat) \<Rightarrow> tracker" where
  "tracker_init info locs rows = \<lparr>tk_table = 0, tk_top = True, tk_ready = False, tk_desc = None, tk_locs = locs, tk_sel = None,
     tk_sub = None, tk_all = track_all info, tk_flags = is_set_flag (table_modifications_needed info),
     tk_moves = is_set_flag (table_moves_needed info), tk_rows = rows\<rparr>"

definition asks_for :: "location option list \<Rightarrow> change_info \<Rightarrow> bool" where
  "asks_for locs info \<longleftrightarrow> tables info = [] \<and> located locs (lists info) \<and> lists info \<noteq> [] \<and>
     builders info = replicate (length locs) cb_default"

lemma tracks_init: "max_size_ok mx \<Longrightarrow> asks_for locs info \<Longrightarrow> tracks mx (observer_init info) (tracker_init info locs rows)"
  by (simp add: asks_for_def tracks_def observer_init_def tracker_init_def sel_ref_def table_builders_ok_def)

lemma clean_up_list:
  assumes "list_ok mx b"
  shows "\<exists>b'. clean_up_stale_moves mx b = Some b' \<and> list_ok mx b' \<and> origin b' = origin b \<and> modified b' = modified b"
proof -
  note p = list_ok_parts [OF assms]
  have ok: "cb_ok mx b" "m_move_mapping b = []" using assms by (simp_all add: list_ok_def)
  obtain b' where b': "clean_up_stale_moves mx b = Some b'" "list_ok mx b'"
    "origin b' = orig (indexes (deletions b)) (indexes (insertions b)) (map_of (move_pairs (moves b)))"
    "modifications b' = modifications b" using clean_up_correct [OF ok(1) _ ok(2)] p(2) by blast
  then show ?thesis using p(3) by (intro exI [of _ b']) (simp add: modified_def [abs_def])
qed

lemma clean_up_lists_correct:
  "\<forall>li \<in> set ls. li_changes li < length bs \<Longrightarrow> \<forall>b \<in> set bs. list_ok mx b \<Longrightarrow>
   \<exists>bs'. clean_up_lists mx ls bs = Some bs' \<and> length bs' = length bs \<and> (\<forall>a < length bs.
     list_ok mx (bs' ! a) \<and> origin (bs' ! a) = origin (bs ! a) \<and> modified (bs' ! a) = modified (bs ! a))"
proof (induction ls arbitrary: bs)
  case Nil
  then show ?case by simp
next
  case (Cons li ls)
  let ?a = "li_changes li"
  have a: "?a < length bs" using Cons.prems(1) by simp
  then have "list_ok mx (bs ! ?a)" using Cons.prems(2) by simp
  then obtain b where b: "clean_up_stale_moves mx (bs ! ?a) = Some b" "list_ok mx b" "origin b = origin (bs ! ?a)"
    "modified b = modified (bs ! ?a)" using clean_up_list by blast
  have "\<forall>c \<in> set (bs[?a := b]). list_ok mx c" using Cons.prems(2) b(2) set_update_subset_insert [of bs ?a b] by blast
  then obtain bs' where "clean_up_lists mx ls (bs[?a := b]) = Some bs'" "length bs' = length bs" "\<forall>c < length bs.
     list_ok mx (bs' ! c) \<and> origin (bs' ! c) = origin (bs[?a := b] ! c) \<and> modified (bs' ! c) = modified (bs[?a := b] ! c)"
    using Cons.IH [of "bs[?a := b]"] Cons.prems(1) by auto
  then show ?case using a b by (intro exI [of _ bs']) (auto simp: nth_list_update)
qed

lemma observed_lists:
  assumes mx: "max_size_ok mx" and asks: "asks_for locs info" and safe: "log_safe (tracker_init info locs rows) cs"
    and ops: "\<forall>a < length locs. link_ops_ok (ops_of a (tracker_init info locs rows) cs) (sz a)"
  shows "\<exists>ob ob'. foldM (observe mx) cs (observer_init info) = Some ob \<and> ob_parse_complete mx ob = Some ob' \<and>
    (\<forall>a < length locs. let edits = ops_of a (tracker_init info locs rows) cs; xs = fold link_edit edits (map Some [0..<sz a]) in
       list_ok mx (builders (m_info ob') ! a) \<and> map (origin (builders (m_info ob') ! a)) [0..<length xs] = xs \<and>
       modified (builders (m_info ob') ! a) = fold link_flags edits (\<lambda>_. False))"
proof -
  let ?ob = "observer_init info" and ?tk = "tracker_init info locs rows"
  let ?ops = "\<lambda>a. ops_of a ?tk cs"
  have bs: "builders (m_info ?ob) = replicate (length locs) cb_default" "length (tk_locs ?tk) = length locs"
    using asks by (simp_all add: asks_for_def observer_init_def tracker_init_def)
  have one: "\<exists>b. foldM (link_apply mx) (?ops a) cb_default = Some b \<and> list_ok mx b \<and>
    contents (length (fold link_edit (?ops a) (contents (sz a) cb_default))) b = fold link_edit (?ops a) (contents (sz a) cb_default) \<and>
    modified b = fold link_flags (?ops a) (modified cb_default)" if "a < length locs" for a
    using link_run [OF cb_default_ok(1) [OF mx], of "?ops a" "sz a"] ops that by simp
  then obtain ob where ob: "foldM (observe mx) cs ?ob = Some ob" "tracks mx ob (fold track cs ?tk)"
    "\<forall>a < length locs. foldM (link_apply mx) (?ops a) cb_default = Some (builders (m_info ob) ! a)"
    using run [OF tracks_init [OF mx asks] safe] bs by auto
  have L: "length (builders (m_info ob)) = length locs" "located (tk_locs (fold track cs ?tk)) (lists (m_info ob))"
    "table_builders_ok mx (fold track cs ?tk) (tk_rows (fold track cs ?tk)) (tables (m_info ob))"
    using ob(2) bs(2) by (simp_all add: tracks_def)
  have "\<exists>b'. cb_parse_complete mx b = Some b'" if b: "b \<in> set (tables (m_info ob))" for b
  proof -
    obtain t where t: "t < length (tables (m_info ob))" "b = tables (m_info ob) ! t" using b by (auto simp: in_set_conv_nth)
    have "\<exists>tk n. tb_ok mx tk n b" using L(3) t unfolding table_builders_ok_def by blast
    then show ?thesis using tb_parse_complete by blast
  qed
  then have "\<exists>ts. mapM (cb_parse_complete mx) (tables (m_info ob)) = Some ts \<and> list_all2 (\<lambda>_ _. True) (tables (m_info ob)) ts"
    by (intro mapM_spec) simp
  then obtain ts where ts: "mapM (cb_parse_complete mx) (tables (m_info ob)) = Some ts" by blast
  have ok: "list_ok mx (builders (m_info ob) ! a) \<and>
    map (origin (builders (m_info ob) ! a)) [0..<length (fold link_edit (?ops a) (map Some [0..<sz a]))] =
         fold link_edit (?ops a) (map Some [0..<sz a]) \<and>
       modified (builders (m_info ob) ! a) = fold link_flags (?ops a) (\<lambda>_. False)" if "a < length locs" for a
    using one [OF that, unfolded cb_default_ok(3,4) [OF mx]] ob(3) that by (auto simp: contents_def)
  then have "\<forall>b \<in> set (builders (m_info ob)). list_ok mx b" using L(1) by (metis in_set_conv_nth)
  moreover have "\<forall>li \<in> set (lists (m_info ob)). li_changes li < length (builders (m_info ob))"
    using entry_in_locs [OF L(2)] L(1) bs(2) by simp
  ultimately obtain bs' where bs': "clean_up_lists mx (lists (m_info ob)) (builders (m_info ob)) = Some bs'"
    "\<forall>a < length locs. list_ok mx (bs' ! a) \<and> origin (bs' ! a) = origin (builders (m_info ob) ! a) \<and>
       modified (bs' ! a) = modified (builders (m_info ob) ! a)"
    using clean_up_lists_correct [of "lists (m_info ob)" "builders (m_info ob)" mx] L(1) by auto
  then have "ob_parse_complete mx ob = Some (ob\<lparr>m_info := (m_info ob)\<lparr>tables := ts, builders := bs'\<rparr>\<rparr>)"
    using ts by (simp add: ob_parse_complete_def)
  then show ?thesis using ob(1) bs'(2) ok unfolding Let_def by (intro exI [of _ ob] exI conjI) auto
qed

lemma advance_lists:
  assumes "max_size_ok mx" "asks_for locs info" "log_safe (tracker_init info locs rows) (log_calls es)"
    "\<forall>a < length locs. link_ops_ok (ops_of a (tracker_init info locs rows) (log_calls es)) (sz a)"
    "\<forall>v. [] \<notin> set (hist v)" "concat (concat (map hist [v..<w])) = log_bytes es" "list_all entry_ok es" "v < w"
  shows "\<exists>info'. transaction_advance mx hist v w info = Some info' \<and>
    (\<forall>a < length locs. let edits = ops_of a (tracker_init info locs rows) (log_calls es); xs = fold link_edit edits (map Some [0..<sz a]) in
       list_ok mx (builders info' ! a) \<and> map (origin (builders info' ! a)) [0..<length xs] = xs \<and>
       modified (builders info' ! a) = fold link_flags edits (\<lambda>_. False))"
proof -
  have "parse (changeset_next_block hist) (observe mx) (observer_init info) (changeset_stream_init hist v w) =
    foldM (observe mx) (log_calls es) (observer_init info)"
    using changesets.parse_log [OF assms(7)] changeset_stream_init_content [OF assms(5), of v w] assms(6) by simp
  moreover obtain ob ob' where ob: "foldM (observe mx) (log_calls es) (observer_init info) = Some ob"
    "ob_parse_complete mx ob = Some ob'"
    "\<forall>a < length locs. let edits = ops_of a (tracker_init info locs rows) (log_calls es); xs = fold link_edit edits (map Some [0..<sz a]) in
       list_ok mx (builders (m_info ob') ! a) \<and> map (origin (builders (m_info ob') ! a)) [0..<length xs] = xs \<and>
       modified (builders (m_info ob') ! a) = fold link_flags edits (\<lambda>_. False)"
    using observed_lists [OF assms(1-4)] by blast
  ultimately have "transaction_advance mx hist v w info = Some (m_info ob')"
    using assms(2,8) by (simp add: transaction_advance_def do_advance_read_def asks_for_def)
  then show ?thesis using ob(3) by blast
qed

end
