(* ===== verification/Observer_Gaps.thy ===== *)
theory Observer_Gaps
  imports Observer_Lists Log_Reverser
begin

text \<open>
  Where the observer loses a list.  Three short logs whose instructions are all properly selected: by the
  tracker each ends with an insertion into an observed list, and the observer hands it to no builder.
\<close>

definition ask_at :: "location list \<Rightarrow> change_info" where
  "ask_at ls = \<lparr>table_modifications_needed = [], table_moves_needed = [],
     lists = map (\<lambda>a. case ls ! a of (t, r, k) \<Rightarrow> \<lparr>li_table_ndx = t, li_row_ndx = r, li_col_ndx = k, li_changes = a\<rparr>) [0..<length ls],
     tables = [], column_indices = [], table_indices = [], track_all = False, schema_changed = False,
     builders = replicate (length ls) cb_default\<rparr>"

lemma ask_at_asks:
  assumes "distinct ls" "ls \<noteq> []"
  shows "asks_for (map Some ls) (ask_at ls)"
proof -
  let ?e = "\<lambda>a. case ls ! a of (t, r, k) \<Rightarrow> \<lparr>li_table_ndx = t, li_row_ndx = r, li_col_ndx = k, li_changes = a\<rparr>"
  have e: "entry (?e a) = (a, ls ! a)" "li_changes (?e a) = a" for a by (simp_all add: entry_def split: prod.splits)
  have "entry ` set (map ?e [0..<length ls]) = (\<lambda>a. (a, ls ! a)) ` {0..<length ls}" by (simp add: image_image e)
  also have "\<dots> = {(a, l). a < length (map Some ls) \<and> map Some ls ! a = Some l}" by auto
  finally have "located (map Some ls) (map ?e [0..<length ls])"
    using assms(1) by (simp add: located_def comp_def e nth_eq_iff_index_eq)
  then show ?thesis using assms(2) by (simp add: asks_for_def ask_at_def)
qed

definition loses_list :: "location list \<Rightarrow> nat \<Rightarrow> call list \<Rightarrow> bool" where
  "loses_list ls a cs \<longleftrightarrow> well_selected no_selection cs \<and> \<not> list_ex is_destructive cs \<and>
     ops_of a (tracker_init (ask_at ls) (map Some ls) (\<lambda>_. 2)) cs = [Edit (Insert 0 1)] \<and>
     map_option (\<lambda>ob. builders (m_info ob)) (foldM (observe 4) cs (observer_init (ask_at ls))) =
       Some (replicate (length ls) cb_default)"

lemmas observer_run =
  observe_def observer_init_def ask_at_def ob_select_table_def validate_select_table_def is_set_flag_def
  ob_select_descriptor_def ob_select_link_list_def ob_mark_dirty_def find_list_def ob_link_list_insert_def
  ob_clear_table_def ob_erase_rows_def ob_insert_column_def same_ref_def set_schema_changed_def current_columns_def
  map_lists_def on_current_def with_builder_def erase_row_lists.simps

lemmas tracker_run =
  loses_list_def scope_def no_selection_def tracker_init_def track_def location_after_def find_loc_def edits_of_def

text \<open>
  Row 0 is erased and replaced by row 1; both hold an observed list.  The entry of row 1 takes the place of the
  erased one, where the loop does not look again, and keeps its old row.
\<close>

lemma erased_row_loses:
  "loses_list [(0, 0, 0), (0, 1, 0)] 1
     [Select_table 0 [], Erase_rows 0 1 2 True, Select_link_list 0 0 1, Link_list_insert 0 0 0]"
  by (simp add: tracker_run observer_run numeral_2_eq_2)

text \<open>
  A subtable of a table that is not observed itself is cleared: the observer takes it for the table, since
  \<open>select_table\<close> returns before it has noticed the path.
\<close>

lemma subtable_loses:
  "loses_list [(0, 0, 1)] 0
     [Select_table 0 [(2, 0)], Clear_table 3, Select_table 0 [], Select_link_list 1 0 1, Link_list_insert 0 0 0]"
  by (simp add: tracker_run observer_run Let_def)

text \<open>
  A column is inserted into a subtable descriptor of a table that is not observed itself: both pointers that the
  observer compares are null, and it moves the columns of the table.
\<close>

lemma subdescriptor_loses:
  "loses_list [(0, 0, 1)] 0
     [Select_table 0 [], Select_descriptor [2], Insert_column 0 type_Int [] False, Select_link_list 1 0 1, Link_list_insert 0 0 0]"
  by (simp add: tracker_run observer_run Let_def)

text \<open>
  The reverser replaces a merge of two rows by merges of each of them with itself; on an observed table these fail
  the assertion of \<open>subsume\<close> that the rows differ.
\<close>

lemma reversed_merge_fails:
  assumes "m_active_table ob = Table_ref t" "d \<in> set (inverse_calls (Merge_rows a b))"
  shows "observe mx d ob = None"
  using assms by (auto simp: inverse_calls_def observe_def ob_merge_rows_def with_builder_def cb_subsume_def realm_assert_def)

text \<open>The columns inserted into a table are looked up at the wrong table when another one was inserted before it.\<close>

lemma inserted_table_loses_columns:
  "map_option (\<lambda>ob. column_indices (m_info ob))
     (foldM (observe 4) [Select_table 0 [], Select_descriptor [], Insert_column 0 type_Int [] False, Insert_group_level_table 0 1 []]
       (observer_init (ask_at [(0, 0, 1)]))) = Some [[npos, 0]]"
  by (simp add: observer_run resize_def expand_to_def insert_empty_at_def ob_insert_group_level_table_def
    prepare_table_indices_def set_tables_def Let_def)

end
