(* ===== verification/Deep_Change.thy ===== *)
theory Deep_Change
  imports Change_Info
begin

text \<open>
  \<open>DeepChangeChecker\<close> (\<open>impl/collection_notifier.cpp\<close>): whether a row or something it links to was modified.
  The search goes down four levels, keeps the path it is on to stop at cycles, and remembers the rows it found
  unmodified when the search from them was complete.

  The tables and their links are data of the database: \<open>group_view\<close> has the functions of \<open>Table\<close> that the
  search calls, by table index.  The reference is \<open>reaches\<close>, which knows neither a path nor a memory.
\<close>

subsection \<open>The model\<close>

record outgoing_link =
  ol_col_ndx :: nat
  ol_is_list :: bool

record related_table =
  rt_table_ndx :: nat
  rt_links :: "outgoing_link list"

record group_view =
  is_null_link :: "nat \<Rightarrow> nat \<Rightarrow> nat \<Rightarrow> bool"
  get_link :: "nat \<Rightarrow> nat \<Rightarrow> nat \<Rightarrow> nat"
  get_linklist :: "nat \<Rightarrow> nat \<Rightarrow> nat \<Rightarrow> nat list"
  get_link_target :: "nat \<Rightarrow> nat \<Rightarrow> nat"

record path =
  pt_table :: nat
  pt_row :: nat
  pt_col :: nat
  depth_exceeded :: bool

record checker =
  m_not_modified :: "crv list"
  m_current_path :: "path list"

text \<open>The size of the array \<open>m_current_path\<close>.\<close>

definition max_depth :: nat where
  "max_depth = 4"

definition checker_init :: checker where
  "checker_init = \<lparr>m_not_modified = [],
     m_current_path = replicate max_depth \<lparr>pt_table = 0, pt_row = 0, pt_col = 0, depth_exceeded = False\<rparr>\<rparr>"

definition row_modified :: "change_info \<Rightarrow> nat \<Rightarrow> nat \<Rightarrow> bool" where
  "row_modified info table_ndx idx \<longleftrightarrow>
     table_ndx < length (tables info) \<and> is_contains (modifications (tables info ! table_ndx)) idx"

definition exceed_from :: "nat \<Rightarrow> nat \<Rightarrow> path list \<Rightarrow> path list" where
  "exceed_from i stop ps = map (\<lambda>k. if i \<le> k \<and> k < stop then (ps ! k)\<lparr>depth_exceeded := True\<rparr> else ps ! k) [0..<length ps]"

definition already_checking :: "nat \<Rightarrow> nat \<Rightarrow> nat \<Rightarrow> nat \<Rightarrow> checker \<Rightarrow> bool \<times> checker" where
  "already_checking table_ndx row_ndx depth col st =
     (let ps = m_current_path st;
          i = length (takeWhile (\<lambda>p. \<not> (pt_table p = table_ndx \<and> pt_row p = row_ndx \<and> pt_col p = col)) (take depth ps))
      in if i < depth then (True, st\<lparr>m_current_path := exceed_from i depth ps\<rparr>)
         else (False, st\<lparr>m_current_path := ps[depth := \<lparr>pt_table = table_ndx, pt_row = row_ndx, pt_col = col, depth_exceeded = False\<rparr>]\<rparr>))"

definition links_of :: "related_table list \<Rightarrow> nat \<Rightarrow> outgoing_link list option" where
  "links_of rel table_ndx = map_option rt_links (find (\<lambda>tbl. rt_table_ndx tbl = table_ndx) rel)"

definition reserve_not_modified :: "nat \<Rightarrow> checker \<Rightarrow> checker" where
  "reserve_not_modified table_ndx st =
     (if length (m_not_modified st) \<le> table_ndx then st\<lparr>m_not_modified := resize [] (table_ndx + 1) (m_not_modified st)\<rparr> else st)"

text \<open>
  \<open>check_row\<close>, the loop over the links of \<open>check_outgoing_links\<close> and the loop over the rows of a list; the
  recursion ends at the depth of the array.
\<close>

function (sequential)
  check_row :: "nat \<Rightarrow> group_view \<Rightarrow> related_table list \<Rightarrow> change_info \<Rightarrow> nat \<Rightarrow> nat \<Rightarrow> nat \<Rightarrow> checker \<Rightarrow> (bool \<times> checker) option" and
  check_links :: "nat \<Rightarrow> group_view \<Rightarrow> related_table list \<Rightarrow> change_info \<Rightarrow> nat \<Rightarrow> nat \<Rightarrow> nat \<Rightarrow> outgoing_link list \<Rightarrow> checker \<Rightarrow> (bool \<times> checker) option" and
  check_rows :: "nat \<Rightarrow> group_view \<Rightarrow> related_table list \<Rightarrow> change_info \<Rightarrow> nat \<Rightarrow> nat \<Rightarrow> nat list \<Rightarrow> checker \<Rightarrow> (bool \<times> checker) option"
where
  "check_row mx g rel info table_ndx idx depth st =
     (if max_depth \<le> depth then Some (False, st\<lparr>m_current_path := exceed_from 0 max_depth (m_current_path st)\<rparr>)
      else if 0 < depth \<and> row_modified info table_ndx idx then Some (True, st)
      else let st = reserve_not_modified table_ndx st in
        if is_contains (m_not_modified st ! table_ndx) idx then Some (False, st)
        else do {
          (ret, st) \<leftarrow> (case links_of rel table_ndx of None \<Rightarrow> Some (False, st)
             | Some links \<Rightarrow> check_links mx g rel info table_ndx idx depth links st);
          if \<not> ret \<and> (depth = 0 \<or> \<not> depth_exceeded (m_current_path st ! (depth - 1))) then do {
            c \<leftarrow> is_add mx idx (m_not_modified st ! table_ndx);
            Some (ret, st\<lparr>m_not_modified := (m_not_modified st)[table_ndx := c]\<rparr>)
          }
          else Some (ret, st)
        })"
| "check_links mx g rel info table_ndx row_ndx depth [] st = Some (False, st)"
| "check_links mx g rel info table_ndx row_ndx depth (link # links) st =
     (let (already, st) = already_checking table_ndx row_ndx depth (ol_col_ndx link) st in
      if already then check_links mx g rel info table_ndx row_ndx depth links st
      else do {
        let target = get_link_target g table_ndx (ol_col_ndx link);
        (changed, st) \<leftarrow>
          (if \<not> ol_is_list link then
             (if is_null_link g table_ndx (ol_col_ndx link) row_ndx then Some (False, st)
              else check_row mx g rel info target (get_link g table_ndx (ol_col_ndx link) row_ndx) (depth + 1) st)
           else check_rows mx g rel info target (depth + 1) (get_linklist g table_ndx (ol_col_ndx link) row_ndx) st);
        if changed then Some (True, st) else check_links mx g rel info table_ndx row_ndx depth links st
      })"
| "check_rows mx g rel info target depth [] st = Some (False, st)"
| "check_rows mx g rel info target depth (dst # dsts) st = do {
     (changed, st) \<leftarrow> check_row mx g rel info target dst depth st;
     if changed then Some (True, st) else check_rows mx g rel info target depth dsts st
   }"
  by pat_completeness auto

termination
  by (relation "measures [
      \<lambda>x. case x of Inl (mx, g, rel, info, t, i, d, st) \<Rightarrow> 2 * (max_depth - d)
        | Inr (Inl (mx, g, rel, info, t, r, d, ls, st)) \<Rightarrow> max 1 (2 * (max_depth - d) - 1)
        | Inr (Inr (mx, g, rel, info, t, d, rs, st)) \<Rightarrow> 2 * (max_depth - d),
      \<lambda>x. case x of Inl _ \<Rightarrow> 0 | Inr (Inl (mx, g, rel, info, t, r, d, ls, st)) \<Rightarrow> length ls
        | Inr (Inr (mx, g, rel, info, t, d, rs, st)) \<Rightarrow> Suc (length rs)]")
    (auto simp: max_depth_def)

definition deep_check :: "nat \<Rightarrow> group_view \<Rightarrow> related_table list \<Rightarrow> change_info \<Rightarrow> nat \<Rightarrow> nat \<Rightarrow> checker \<Rightarrow> (bool \<times> checker) option" where
  "deep_check mx g rel info root ndx st =
     (if row_modified info root ndx then Some (True, st) else check_row mx g rel info root ndx 0 st)"

subsection \<open>The reference\<close>

type_synonym node = "nat \<times> nat"

definition link_targets :: "group_view \<Rightarrow> node \<Rightarrow> outgoing_link \<Rightarrow> node list" where
  "link_targets g z link =
     (let col = ol_col_ndx link; target = get_link_target g (fst z) col in
      if ol_is_list link then map (Pair target) (get_linklist g (fst z) col (snd z))
      else if is_null_link g (fst z) col (snd z) then [] else [(target, get_link g (fst z) col (snd z))])"

definition targets :: "group_view \<Rightarrow> related_table list \<Rightarrow> node \<Rightarrow> node list" where
  "targets g rel z = (case links_of rel (fst z) of None \<Rightarrow> [] | Some links \<Rightarrow> concat (map (link_targets g z) links))"

definition changed :: "change_info \<Rightarrow> node \<Rightarrow> bool" where
  "changed info z = row_modified info (fst z) (snd z)"

text \<open>A modified row is between one and \<open>k\<close> links away.\<close>

fun reaches :: "group_view \<Rightarrow> related_table list \<Rightarrow> change_info \<Rightarrow> nat \<Rightarrow> node \<Rightarrow> bool" where
  "reaches g rel info 0 z = False"
| "reaches g rel info (Suc k) z = list_ex (\<lambda>y. changed info y \<or> reaches g rel info k y) (targets g rel z)"

text \<open>The rows a path to a modified one passes through.\<close>

fun hits :: "group_view \<Rightarrow> related_table list \<Rightarrow> change_info \<Rightarrow> node list \<Rightarrow> bool" where
  "hits g rel info [] = False"
| "hits g rel info [z] = list_ex (changed info) (targets g rel z)"
| "hits g rel info (z # y # zs) = (y \<in> set (targets g rel z) \<and> hits g rel info (y # zs))"

lemma reaches_mono: "reaches g rel info k z \<Longrightarrow> k \<le> n \<Longrightarrow> reaches g rel info n z"
proof (induction k arbitrary: z n)
  case (Suc k)
  then obtain m where "n = Suc m" "k \<le> m" by (cases n) auto
  then show ?case using Suc by (auto simp: list_ex_iff)
qed simp

text \<open>A modified row that can be reached is reached by a path without repetitions.\<close>

lemma shortest_hits:
  "reaches g rel info (Suc k) z \<Longrightarrow> \<not> reaches g rel info k z \<Longrightarrow>
   \<exists>zs. hits g rel info (z # zs) \<and> length zs = k \<and> distinct (z # zs) \<and> (\<forall>y \<in> set (z # zs). reaches g rel info (Suc k) y)"
proof (induction k arbitrary: z)
  case 0
  then show ?case by (intro exI [of _ "[]"]) (auto simp: list_ex_iff)
next
  case (Suc k)
  have "\<not> changed info y" if "y \<in> set (targets g rel z)" for y
    using Suc.prems(2) that by (auto simp: list_ex_iff)
  then obtain y where y: "y \<in> set (targets g rel z)" "reaches g rel info (Suc k) y"
    using Suc.prems(1) by (auto simp: list_ex_iff)
  moreover have "\<not> reaches g rel info k y" using Suc.prems(2) y(1) by (auto simp: list_ex_iff)
  ultimately obtain zs where zs: "hits g rel info (y # zs)" "length zs = k" "distinct (y # zs)"
    "\<forall>x \<in> set (y # zs). reaches g rel info (Suc k) x" using Suc.IH by blast
  have "z \<notin> set (y # zs)" using zs(4) Suc.prems(2) by blast
  moreover have "reaches g rel info (Suc (Suc k)) x" if "x \<in> set (z # y # zs)" for x
    using that zs(4) Suc.prems(1) reaches_mono [of g rel info "Suc k" x "Suc (Suc k)"] by fastforce
  ultimately show ?case using y(1) zs by (intro exI [of _ "y # zs"]) simp
qed

lemma reaches_hits:
  assumes "reaches g rel info k z"
  shows "\<exists>zs. hits g rel info (z # zs) \<and> distinct (z # zs) \<and> length (z # zs) \<le> k"
proof -
  define j where "j = (LEAST j. reaches g rel info j z)"
  have j: "reaches g rel info j z" "j \<le> k" using assms by (auto simp: j_def intro: LeastI Least_le)
  then obtain i where i: "j = Suc i" by (cases j) auto
  then have "\<not> reaches g rel info i z" using not_less_Least [of i "\<lambda>j. reaches g rel info j z"] by (simp add: j_def)
  then show ?thesis using shortest_hits [of g rel info i z] i j by auto
qed

subsection \<open>What the search keeps\<close>

definition node_at :: "checker \<Rightarrow> nat \<Rightarrow> node" where
  "node_at st i = (pt_table (m_current_path st ! i), pt_row (m_current_path st ! i))"

definition exceeded :: "checker \<Rightarrow> nat \<Rightarrow> bool" where
  "exceeded st i = depth_exceeded (m_current_path st ! i)"

definition cache_ok :: "nat \<Rightarrow> group_view \<Rightarrow> related_table list \<Rightarrow> change_info \<Rightarrow> checker \<Rightarrow> bool" where
  "cache_ok mx g rel info st \<longleftrightarrow> max_size_ok mx \<and> length (m_current_path st) = max_depth \<and>
     (\<forall>c \<in> set (m_not_modified st). iset_ok mx c) \<and>
     (\<forall>t < length (m_not_modified st). \<forall>r \<in> indexes (m_not_modified st ! t). \<not> reaches g rel info (max_depth - 1) (t, r))"

definition keeps :: "nat \<Rightarrow> checker \<Rightarrow> checker \<Rightarrow> bool" where
  "keeps d st st' \<longleftrightarrow> length (m_not_modified st) \<le> length (m_not_modified st') \<and> (\<forall>i < d. node_at st' i = node_at st i \<and> (exceeded st i \<longrightarrow> exceeded st' i))"

text \<open>
  Why a search at depth \<open>d\<close> may miss a path: it is too long, or it passes through a row the search is already at.
  In both cases the marks on the path of the search say so.
\<close>

definition blocked :: "checker \<Rightarrow> nat \<Rightarrow> node list \<Rightarrow> bool" where
  "blocked st d zs \<longleftrightarrow> (max_depth \<le> length zs + d \<and> (\<forall>m < d. exceeded st m)) \<or>
     (\<exists>i < d. node_at st i \<in> set zs \<and> (\<forall>m. i \<le> m \<longrightarrow> m < d \<longrightarrow> exceeded st m))"

definition cleared :: "group_view \<Rightarrow> related_table list \<Rightarrow> change_info \<Rightarrow> checker \<Rightarrow> nat \<Rightarrow> node \<Rightarrow> bool" where
  "cleared g rel info st d y \<longleftrightarrow> (0 < d \<and> changed info y \<longrightarrow> max_depth \<le> d \<and> (\<forall>m < d. exceeded st m)) \<and>
     (\<forall>zs. hits g rel info (y # zs) \<longrightarrow> distinct (y # zs) \<longrightarrow> length (y # zs) < max_depth \<longrightarrow> blocked st d (y # zs))"

definition passed :: "group_view \<Rightarrow> related_table list \<Rightarrow> change_info \<Rightarrow> checker \<Rightarrow> nat \<Rightarrow> node \<Rightarrow> node \<Rightarrow> bool" where
  "passed g rel info st d z y \<longleftrightarrow> (changed info y \<longrightarrow> blocked st d [z]) \<and>
     (\<forall>zs. hits g rel info (y # zs) \<longrightarrow> distinct (z # y # zs) \<longrightarrow> length (z # y # zs) < max_depth \<longrightarrow> blocked st d (z # y # zs))"

lemma keeps_refl [simp]: "keeps d st st"
  by (simp add: keeps_def)

lemma keeps_trans: "keeps d a b \<Longrightarrow> keeps d b c \<Longrightarrow> keeps d a c"
  by (auto simp: keeps_def)

lemma keeps_less: "keeps d a b \<Longrightarrow> e \<le> d \<Longrightarrow> keeps e a b"
  by (simp add: keeps_def)

lemma blocked_keeps: "blocked st d zs \<Longrightarrow> keeps d st st' \<Longrightarrow> blocked st' d zs"
  unfolding blocked_def keeps_def by (metis (no_types, lifting))

lemma cleared_keeps: "cleared g rel info st d y \<Longrightarrow> keeps d st st' \<Longrightarrow> cleared g rel info st' d y"
  using blocked_keeps unfolding cleared_def keeps_def by (metis (no_types, lifting) keeps_def)

lemma passed_keeps: "passed g rel info st d z y \<Longrightarrow> keeps d st st' \<Longrightarrow> passed g rel info st' d z y"
  using blocked_keeps unfolding passed_def by blast

lemma cleared_passed:
  assumes "cleared g rel info st (Suc d) y" "node_at st d = z" "d < max_depth"
  shows "passed g rel info st d z y"
proof -
  have "blocked st d (z # y # zs)" if "blocked st (Suc d) (y # zs)" "distinct (z # y # zs)" for zs
    using that(1) unfolding blocked_def
  proof
    assume "\<exists>i < Suc d. node_at st i \<in> set (y # zs) \<and> (\<forall>m. i \<le> m \<longrightarrow> m < Suc d \<longrightarrow> exceeded st m)"
    then obtain i where i: "i < Suc d" "node_at st i \<in> set (y # zs)" "\<forall>m. i \<le> m \<longrightarrow> m < Suc d \<longrightarrow> exceeded st m" by blast
    then have "i \<noteq> d" using that(2) assms(2) by auto
    then show "max_depth \<le> length (z # y # zs) + d \<and> (\<forall>m < d. exceeded st m) \<or>
        (\<exists>i < d. node_at st i \<in> set (z # y # zs) \<and> (\<forall>m. i \<le> m \<longrightarrow> m < d \<longrightarrow> exceeded st m))"
      using i by (intro disjI2 exI [of _ i]) auto
  qed auto
  then show ?thesis using assms(1,3) by (auto simp: passed_def cleared_def blocked_def)
qed

lemma not_blocked:
  assumes "d = 0 \<or> \<not> exceeded st (d - 1)" "length zs < max_depth"
  shows "\<not> blocked st d zs"
proof (cases d)
  case 0
  then show ?thesis using assms(2) by (simp add: blocked_def)
next
  case (Suc n)
  then show ?thesis using assms(1) by (auto simp: blocked_def less_Suc_eq_le)
qed

subsection \<open>The search is exact\<close>

definition found :: "group_view \<Rightarrow> related_table list \<Rightarrow> change_info \<Rightarrow> nat \<Rightarrow> node \<Rightarrow> bool" where
  "found g rel info d y \<longleftrightarrow> d < max_depth \<and> (0 < d \<and> changed info y \<or> reaches g rel info (max_depth - 1 - d) y)"

definition searched ::
    "nat \<Rightarrow> group_view \<Rightarrow> related_table list \<Rightarrow> change_info \<Rightarrow> nat \<Rightarrow> node list \<Rightarrow> checker \<Rightarrow> (bool \<times> checker) option \<Rightarrow> bool" where
  "searched mx g rel info d ys st res \<longleftrightarrow> (case res of None \<Rightarrow> False | Some (b, st') \<Rightarrow> cache_ok mx g rel info st' \<and> keeps d st st' \<and>
     (if b then list_ex (found g rel info d) ys else list_all (cleared g rel info st' d) ys))"

definition followed ::
    "nat \<Rightarrow> group_view \<Rightarrow> related_table list \<Rightarrow> change_info \<Rightarrow> nat \<Rightarrow> node \<Rightarrow> node list \<Rightarrow> checker \<Rightarrow> (bool \<times> checker) option \<Rightarrow> bool" where
  "followed mx g rel info d z ys st res \<longleftrightarrow> (case res of None \<Rightarrow> False | Some (b, st') \<Rightarrow> cache_ok mx g rel info st' \<and> keeps d st st' \<and>
     (if b then list_ex (found g rel info (Suc d)) ys else list_all (passed g rel info st' d z) ys))"

lemma searched_Nil: "cache_ok mx g rel info st \<Longrightarrow> searched mx g rel info d [] st (Some (False, st))"
  by (simp add: searched_def)

lemma searched_Cons:
  assumes "searched mx g rel info d [y] st res"
    and "\<And>st'. res = Some (False, st') \<Longrightarrow> cache_ok mx g rel info st' \<Longrightarrow> searched mx g rel info d ys st' (rest st')"
  shows "searched mx g rel info d (y # ys) st
    (res \<bind> (\<lambda>(changed, st). if changed then Some (True, st) else rest st))"
proof -
  obtain b st1 where r: "res = Some (b, st1)" "cache_ok mx g rel info st1" "keeps d st st1"
    "if b then found g rel info d y else cleared g rel info st1 d y"
    using assms(1) by (cases res) (auto simp: searched_def split: if_splits)
  show ?thesis
  proof (cases b)
    case True
    then show ?thesis using r by (simp add: searched_def)
  next
    case False
    then obtain c st2 where "rest st1 = Some (c, st2)" "cache_ok mx g rel info st2" "keeps d st1 st2"
      "if c then list_ex (found g rel info d) ys else list_all (cleared g rel info st2 d) ys"
      using assms(2) [of st1] r by (cases "rest st1") (auto simp: searched_def split: if_splits)
    then show ?thesis using r False keeps_trans [OF r(3)] cleared_keeps [of g rel info st1 d y st2]
      by (auto simp: searched_def split: if_splits)
  qed
qed

lemma followed_append:
  assumes "followed mx g rel info d z xs st res"
    and "\<And>st'. res = Some (False, st') \<Longrightarrow> cache_ok mx g rel info st' \<Longrightarrow> followed mx g rel info d z ys st' (rest st')"
  shows "followed mx g rel info d z (xs @ ys) st
    (res \<bind> (\<lambda>(changed, st). if changed then Some (True, st) else rest st))"
proof -
  obtain b st1 where r: "res = Some (b, st1)" "cache_ok mx g rel info st1" "keeps d st st1"
    "if b then list_ex (found g rel info (Suc d)) xs else list_all (passed g rel info st1 d z) xs"
    using assms(1) by (cases res) (auto simp: followed_def split: if_splits)
  show ?thesis
  proof (cases b)
    case True
    then show ?thesis using r by (simp add: followed_def)
  next
    case False
    then obtain c st2 where "rest st1 = Some (c, st2)" "cache_ok mx g rel info st2" "keeps d st1 st2"
      "if c then list_ex (found g rel info (Suc d)) ys else list_all (passed g rel info st2 d z) ys"
      using assms(2) [of st1] r by (cases "rest st1") (auto simp: followed_def split: if_splits)
    moreover have "list_all (passed g rel info st2 d z) xs" if "keeps d st1 st2"
      using r(4) False that passed_keeps [of g rel info st1 d z _ st2] by (simp add: list_all_iff)
    ultimately show ?thesis using r(1) False keeps_trans [OF r(3)] by (auto simp: followed_def)
  qed
qed

lemma searched_followed:
  assumes "searched mx g rel info (Suc d) ys st res" "node_at st d = z" "d < max_depth" "keeps d st0 st"
  shows "followed mx g rel info d z ys st0 res"
proof -
  obtain b st1 where r: "res = Some (b, st1)" "cache_ok mx g rel info st1" "keeps (Suc d) st st1"
    "if b then list_ex (found g rel info (Suc d)) ys else list_all (cleared g rel info st1 (Suc d)) ys"
    using assms(1) by (cases res) (auto simp: searched_def split: if_splits)
  have "node_at st1 d = z" using r(3) assms(2) by (simp add: keeps_def)
  then have "passed g rel info st1 d z y" if "cleared g rel info st1 (Suc d) y" for y
    using cleared_passed that assms(3) by blast
  moreover have "keeps d st0 st1" using keeps_trans [OF assms(4) keeps_less [OF r(3)]] by simp
  ultimately show ?thesis using r by (auto simp: followed_def list_all_iff)
qed

lemma nth_exceed_from:
  "k < length ps \<Longrightarrow> exceed_from i stop ps ! k = (if i \<le> k \<and> k < stop then (ps ! k)\<lparr>depth_exceeded := True\<rparr> else ps ! k)"
  by (simp add: exceed_from_def)

lemma exceed_path:
  assumes "cache_ok mx g rel info st" "stop \<le> max_depth" "st' = st\<lparr>m_current_path := exceed_from i stop (m_current_path st)\<rparr>"
  shows "cache_ok mx g rel info st'" "d \<le> max_depth \<Longrightarrow> keeps d st st'"
    "\<And>m. i \<le> m \<Longrightarrow> m < stop \<Longrightarrow> exceeded st' m"
proof -
  have l: "length (m_current_path st) = max_depth" using assms(1) by (simp add: cache_ok_def)
  show "cache_ok mx g rel info st'" using assms(1,3) by (simp add: cache_ok_def exceed_from_def)
  show "keeps d st st'" if "d \<le> max_depth"
    using that l assms(3) by (auto simp: keeps_def node_at_def exceeded_def nth_exceed_from)
  show "exceeded st' m" if "i \<le> m" "m < stop" for m
    using that l assms(2,3) by (simp add: exceeded_def nth_exceed_from)
qed

lemma already_checking_spec:
  assumes ok: "cache_ok mx g rel info st" and d: "d < max_depth" and r: "already_checking t r d col st = (already, st')"
  shows "cache_ok mx g rel info st' \<and> keeps d st st' \<and>
    (if already then \<forall>zs. blocked st' d ((t, r) # zs) else node_at st' d = (t, r))"
proof -
  have l: "length (m_current_path st) = max_depth" using ok by (simp add: cache_ok_def)
  let ?P = "\<lambda>p. \<not> (pt_table p = t \<and> pt_row p = r \<and> pt_col p = col)"
  let ?i = "length (takeWhile ?P (take d (m_current_path st)))"
  show ?thesis
  proof (cases "?i < d")
    case True
    then have e: "already" "st' = st\<lparr>m_current_path := exceed_from ?i d (m_current_path st)\<rparr>"
      using r by (simp_all add: already_checking_def Let_def)
    have "\<not> ?P (take d (m_current_path st) ! ?i)" using True l d by (intro nth_length_takeWhile) simp
    then have "node_at st ?i = (t, r)" using True by (simp add: node_at_def)
    then have "node_at st' ?i = (t, r)" using exceed_path(2) [OF ok _ e(2), of d] True d by (simp add: keeps_def)
    then have "blocked st' d ((t, r) # zs)" for zs
      unfolding blocked_def using exceed_path(3) [OF ok _ e(2)] True d by (intro disjI2 exI [of _ ?i]) simp
    then show ?thesis using exceed_path(1,2) [OF ok _ e(2)] e(1) d by simp
  next
    case False
    then have e: "\<not> already" "st' = st\<lparr>m_current_path := (m_current_path st)[d :=
        \<lparr>pt_table = t, pt_row = r, pt_col = col, depth_exceeded = False\<rparr>]\<rparr>"
      using r by (simp_all add: already_checking_def Let_def)
    then show ?thesis using ok l d by (simp add: cache_ok_def keeps_def node_at_def exceeded_def)
  qed
qed

lemma followed_blocked:
  assumes "cache_ok mx g rel info st'" "keeps d st st'" "\<forall>zs. blocked st' d (z # zs)"
    and "followed mx g rel info d z ys st' res"
  shows "followed mx g rel info d z (xs @ ys) st res"
proof -
  obtain b st2 where r: "res = Some (b, st2)" "cache_ok mx g rel info st2" "keeps d st' st2"
    "if b then list_ex (found g rel info (Suc d)) ys else list_all (passed g rel info st2 d z) ys"
    using assms(4) by (cases res) (auto simp: followed_def split: if_splits)
  have "\<forall>zs. blocked st2 d (z # zs)" using assms(3) r(3) blocked_keeps by blast
  then have "list_all (passed g rel info st2 d z) xs" by (simp add: list_all_iff passed_def)
  then show ?thesis using r keeps_trans [OF assms(2) r(3)] by (auto simp: followed_def)
qed

lemma reserve_facts:
  assumes "cache_ok mx g rel info st"
  shows "cache_ok mx g rel info (reserve_not_modified t st)" "keeps d st (reserve_not_modified t st)"
    "t < length (m_not_modified (reserve_not_modified t st))"
proof -
  have "iset_ok mx []" using assms by (simp add: cache_ok_def iset_ok_Nil)
  then show "cache_ok mx g rel info (reserve_not_modified t st)"
    using assms by (auto simp: cache_ok_def reserve_not_modified_def resize_def nth_append dest: in_set_takeD)
  show "keeps d st (reserve_not_modified t st)"
    by (auto simp: keeps_def reserve_not_modified_def node_at_def exceeded_def resize_def)
  show "t < length (m_not_modified (reserve_not_modified t st))" by (simp add: reserve_not_modified_def resize_def)
qed

lemma cleared_cached:
  assumes "\<not> reaches g rel info (max_depth - 1) z" "d = 0 \<or> \<not> changed info z"
  shows "cleared g rel info st d z"
proof -
  have "\<not> (hits g rel info (z # zs) \<and> length (z # zs) < max_depth)" for zs
  proof -
    have "hits g rel info ys \<Longrightarrow> reaches g rel info (length ys) (hd ys)" for ys
    proof (induction ys rule: hits.induct [case_names nil one more])
      case (more g rel info x y ys)
      then show ?case by (auto simp: list_ex_iff)
    qed (auto simp: list_ex_iff)
    then show ?thesis using assms(1) reaches_mono [of g rel info "length (z # zs)" z "max_depth - 1"]
      by (fastforce simp: max_depth_def)
  qed
  then show ?thesis using assms(2) by (auto simp: cleared_def)
qed

lemma targets_cleared:
  assumes "list_all (passed g rel info st d z) (targets g rel z)" "d = 0 \<or> \<not> changed info z"
  shows "cleared g rel info st d z"
proof -
  have "blocked st d (z # zs)" if h: "hits g rel info (z # zs)" "distinct (z # zs)" "length (z # zs) < max_depth" for zs
  proof (cases zs)
    case Nil
    then show ?thesis using h(1) assms(1) by (auto simp: list_ex_iff list_all_iff passed_def)
  next
    case (Cons y ys)
    then have "passed g rel info st d z y" using h(1) assms(1) by (simp add: list_all_iff)
    then show ?thesis using h Cons by (simp add: passed_def)
  qed
  then show ?thesis using assms(2) by (auto simp: cleared_def)
qed

lemma remember:
  assumes ok: "cache_ok mx g rel info st" "t < length (m_not_modified st)"
    and clear: "cleared g rel info st d (t, idx)" "d = 0 \<or> \<not> exceeded st (d - 1)"
  shows "\<exists>c. is_add mx idx (m_not_modified st ! t) = Some c \<and>
    cache_ok mx g rel info (st\<lparr>m_not_modified := (m_not_modified st)[t := c]\<rparr>)"
proof -
  have "iset_ok mx (m_not_modified st ! t)" using ok by (simp add: cache_ok_def)
  then obtain c where c: "is_add mx idx (m_not_modified st ! t) = Some c" "iset_ok mx c"
    "indexes c = insert idx (indexes (m_not_modified st ! t))" using ixs.add by blast
  have "\<not> reaches g rel info (max_depth - 1) (t, idx)"
  proof
    assume "reaches g rel info (max_depth - 1) (t, idx)"
    then obtain zs where zs: "hits g rel info ((t, idx) # zs)" "distinct ((t, idx) # zs)" "length ((t, idx) # zs) \<le> max_depth - 1"
      using reaches_hits by blast
    moreover from zs(3) have "length ((t, idx) # zs) < max_depth" by (simp add: max_depth_def)
    ultimately show False using clear(1) not_blocked [OF clear(2)] unfolding cleared_def by blast
  qed
  then have "cache_ok mx g rel info (st\<lparr>m_not_modified := (m_not_modified st)[t := c]\<rparr>)"
    using ok c set_update_subset_insert [of "m_not_modified st" t c] by (auto simp: cache_ok_def nth_list_update)
  then show ?thesis using c(1) by blast
qed

lemma row_searched:
  assumes ok: "cache_ok mx g rel info st" and depth: "depth \<le> max_depth"
    and rec: "\<And>links. depth < max_depth \<Longrightarrow> links_of rel t = Some links \<Longrightarrow>
      followed mx g rel info depth (t, idx) (concat (map (link_targets g (t, idx)) links)) (reserve_not_modified t st)
        (check_links mx g rel info t idx depth links (reserve_not_modified t st))"
  shows "searched mx g rel info depth [(t, idx)] st (check_row mx g rel info t idx depth st)"
proof -
  let ?z = "(t, idx)" and ?st = "reserve_not_modified t st"
  note r = reserve_facts(1) [OF ok, of t] reserve_facts(2) [OF ok, where t = t and d = depth] reserve_facts(3) [OF ok, of t]
  have m: "row_modified info t idx \<longleftrightarrow> changed info ?z" by (simp add: changed_def)
  consider "depth = max_depth" | "depth < max_depth" "0 < depth" "changed info ?z"
    | "depth < max_depth" "depth = 0 \<or> \<not> changed info ?z" "is_contains (m_not_modified ?st ! t) idx"
    | "depth < max_depth" "depth = 0 \<or> \<not> changed info ?z" "\<not> is_contains (m_not_modified ?st ! t) idx" using depth by linarith
  then show ?thesis
  proof cases
    case 1
    let ?st' = "st\<lparr>m_current_path := exceed_from 0 max_depth (m_current_path st)\<rparr>"
    note e = exceed_path [OF ok, of max_depth ?st' 0]
    have "cleared g rel info ?st' depth ?z" using 1 e(3) by (simp add: cleared_def blocked_def)
    then show ?thesis using 1 e(1,2) by (simp add: searched_def)
  next
    case 2
    then show ?thesis using ok m by (simp add: searched_def found_def)
  next
    case 3
    have "iset_ok mx (m_not_modified ?st ! t)" using r(1,3) by (simp add: cache_ok_def)
    then have "idx \<in> indexes (m_not_modified ?st ! t)" using ixs.contains 3(3) by blast
    then have "\<not> reaches g rel info (max_depth - 1) ?z" using r(1,3) by (simp add: cache_ok_def)
    from cleared_cached [OF this 3(2)] show ?thesis using 3 r(1,2) m by (auto simp: searched_def Let_def)
  next
    case 4
    let ?body = "case links_of rel t of None \<Rightarrow> Some (False, ?st) | Some links \<Rightarrow> check_links mx g rel info t idx depth links ?st"
    have "followed mx g rel info depth ?z (targets g rel ?z) ?st ?body"
      using rec 4(1) r(1) by (cases "links_of rel t") (simp_all add: targets_def followed_def)
    then obtain b st1 where b: "?body = Some (b, st1)" "cache_ok mx g rel info st1" "keeps depth ?st st1"
      "if b then list_ex (found g rel info (Suc depth)) (targets g rel ?z) else list_all (passed g rel info st1 depth ?z) (targets g rel ?z)"
      unfolding followed_def by (cases ?body) (auto split: if_splits)
    have row: "check_row mx g rel info t idx depth st = (if \<not> b \<and> (depth = 0 \<or> \<not> exceeded st1 (depth - 1))
      then map_option (\<lambda>c. (b, st1\<lparr>m_not_modified := (m_not_modified st1)[t := c]\<rparr>)) (is_add mx idx (m_not_modified st1 ! t))
      else Some (b, st1))"
      using 4 m b(1) by (auto simp: Let_def exceeded_def map_option_case split: option.split)
    show ?thesis
    proof (cases b)
      case True
      have "Suc (max_depth - 1 - Suc depth) = max_depth - 1 - depth" if "Suc depth < max_depth" using that by (simp add: max_depth_def)
      moreover obtain y where "y \<in> set (targets g rel ?z)" "found g rel info (Suc depth) y" using b(4) True by (auto simp: list_ex_iff)
      ultimately have "reaches g rel info (max_depth - 1 - depth) ?z"
        using reaches.simps(2) [of g rel info "max_depth - 1 - Suc depth" ?z] by (auto simp: found_def list_ex_iff)
      then show ?thesis using row True b(2) keeps_trans [OF r(2) b(3)] 4(1) by (simp add: searched_def found_def)
    next
      case False
      have c: "cleared g rel info st1 depth ?z" using targets_cleared [OF _ 4(2)] b(4) False by simp
      have t: "t < length (m_not_modified st1)" using r(3) b(3) by (simp add: keeps_def)
      have k: "keeps depth st1 (st1\<lparr>m_not_modified := (m_not_modified st1)[t := x]\<rparr>)" for x
        by (simp add: keeps_def node_at_def exceeded_def)
      show ?thesis
      proof (cases "depth = 0 \<or> \<not> exceeded st1 (depth - 1)")
        case True
        then obtain x where "is_add mx idx (m_not_modified st1 ! t) = Some x"
          "cache_ok mx g rel info (st1\<lparr>m_not_modified := (m_not_modified st1)[t := x]\<rparr>)" using remember [OF b(2) t c] by blast
        then show ?thesis using row False True keeps_trans [OF keeps_trans [OF r(2) b(3)] k [of x]] cleared_keeps [OF c k [of x]]
          by (simp add: searched_def)
      next
        case no: False
        then show ?thesis using row False b(2) keeps_trans [OF r(2) b(3)] c by (auto simp: searched_def)
      qed
    qed
  qed
qed

lemma link_searched:
  assumes ok: "cache_ok mx g rel info st" and d: "depth < max_depth"
    and rest: "\<And>st'. cache_ok mx g rel info st' \<Longrightarrow>
      followed mx g rel info depth (t, r) (concat (map (link_targets g (t, r)) links)) st' (check_links mx g rel info t r depth links st')"
    and row: "\<And>st'. cache_ok mx g rel info st' \<Longrightarrow> \<not> ol_is_list link \<Longrightarrow> \<not> is_null_link g t (ol_col_ndx link) r \<Longrightarrow>
      searched mx g rel info (Suc depth) [(get_link_target g t (ol_col_ndx link), get_link g t (ol_col_ndx link) r)] st'
        (check_row mx g rel info (get_link_target g t (ol_col_ndx link)) (get_link g t (ol_col_ndx link) r) (depth + 1) st')"
    and rows: "\<And>st'. cache_ok mx g rel info st' \<Longrightarrow> ol_is_list link \<Longrightarrow>
      searched mx g rel info (Suc depth) (map (Pair (get_link_target g t (ol_col_ndx link))) (get_linklist g t (ol_col_ndx link) r)) st'
        (check_rows mx g rel info (get_link_target g t (ol_col_ndx link)) (depth + 1) (get_linklist g t (ol_col_ndx link) r) st')"
  shows "followed mx g rel info depth (t, r) (concat (map (link_targets g (t, r)) (link # links))) st
    (check_links mx g rel info t r depth (link # links) st)"
proof -
  obtain already st1 where a: "already_checking t r depth (ol_col_ndx link) st = (already, st1)" by fastforce
  note s = already_checking_spec [OF ok d a]
  show ?thesis
  proof (cases already)
    case True
    then have "followed mx g rel info depth (t, r) (link_targets g (t, r) link @ concat (map (link_targets g (t, r)) links)) st
      (check_links mx g rel info t r depth links st1)" using s rest by (intro followed_blocked) auto
    then show ?thesis using True a by simp
  next
    case False
    let ?target = "get_link_target g t (ol_col_ndx link)"
    let ?res = "if \<not> ol_is_list link then (if is_null_link g t (ol_col_ndx link) r then Some (False, st1)
        else check_row mx g rel info ?target (get_link g t (ol_col_ndx link) r) (depth + 1) st1)
      else check_rows mx g rel info ?target (depth + 1) (get_linklist g t (ol_col_ndx link) r) st1"
    have "searched mx g rel info (Suc depth) (link_targets g (t, r) link) st1 ?res"
      using s row [of st1] rows [of st1] searched_Nil [of mx g rel info st1] by (simp add: link_targets_def Let_def)
    from searched_followed [OF this _ d] have "followed mx g rel info depth (t, r) (link_targets g (t, r) link) st ?res"
      using s False by simp
    then have "followed mx g rel info depth (t, r) (link_targets g (t, r) link @ concat (map (link_targets g (t, r)) links)) st
      (?res \<bind> (\<lambda>(changed, st). if changed then Some (True, st) else check_links mx g rel info t r depth links st))"
      by (rule followed_append) (rule rest)
    then show ?thesis using False by (simp add: a Let_def)
  qed
qed

lemma rows_searched:
  assumes row: "\<And>dst st. cache_ok mx g rel info st \<Longrightarrow>
      searched mx g rel info depth [(target, dst)] st (check_row mx g rel info target dst depth st)"
    and ok: "cache_ok mx g rel info st"
  shows "searched mx g rel info depth (map (Pair target) dsts) st (check_rows mx g rel info target depth dsts st)"
  using ok
proof (induction dsts arbitrary: st)
  case Nil
  then show ?case using searched_Nil by simp
next
  case (Cons dst dsts)
  have "searched mx g rel info depth ((target, dst) # map (Pair target) dsts) st
    (check_row mx g rel info target dst depth st \<bind>
      (\<lambda>(changed, st). if changed then Some (True, st) else check_rows mx g rel info target depth dsts st))"
    by (rule searched_Cons [OF row [OF Cons.prems]]) (rule Cons.IH)
  then show ?case by simp
qed

lemma check_row_correct:
  "n = max_depth - depth \<Longrightarrow> depth \<le> max_depth \<Longrightarrow> cache_ok mx g rel info st \<Longrightarrow>
   searched mx g rel info depth [(t, idx)] st (check_row mx g rel info t idx depth st)"
proof (induction n arbitrary: depth t idx st)
  case 0
  then show ?case by (intro row_searched) simp_all
next
  case (Suc n)
  have d: "depth < max_depth" "n = max_depth - Suc depth" "Suc depth \<le> max_depth" using Suc.prems(1) by auto
  note row = Suc.IH [OF d(2,3)]
  have links: "followed mx g rel info depth (t, idx) (concat (map (link_targets g (t, idx)) links)) st1
    (check_links mx g rel info t idx depth links st1)" if "cache_ok mx g rel info st1" for links st1
    using that
  proof (induction links arbitrary: st1)
    case Nil
    then show ?case by (simp add: followed_def)
  next
    case (Cons link links)
    show ?case
      by (rule link_searched [OF Cons.prems d(1) Cons.IH]) (use row rows_searched [OF row] in simp_all)
  qed
  show ?case by (rule row_searched [OF Suc.prems(3,2)]) (rule links, rule reserve_facts(1) [OF Suc.prems(3)])
qed

text \<open>
  The checker agrees with the reference on every row, whatever rows it was asked about before.
\<close>

lemma deep_check_exact:
  assumes "cache_ok mx g rel info st"
  shows "\<exists>st'. deep_check mx g rel info root ndx st =
      Some (changed info (root, ndx) \<or> reaches g rel info (max_depth - 1) (root, ndx), st') \<and> cache_ok mx g rel info st'"
proof (cases "changed info (root, ndx)")
  case True
  then show ?thesis using assms by (simp add: deep_check_def changed_def)
next
  case False
  have "searched mx g rel info 0 [(root, ndx)] st (check_row mx g rel info root ndx 0 st)"
    by (rule check_row_correct [OF refl _ assms]) simp
  then obtain b st' where b: "check_row mx g rel info root ndx 0 st = Some (b, st')" "cache_ok mx g rel info st'"
    "if b then found g rel info 0 (root, ndx) else cleared g rel info st' 0 (root, ndx)"
    by (cases "check_row mx g rel info root ndx 0 st") (auto simp: searched_def simp del: check_row.simps split: if_splits)
  have "b = reaches g rel info (max_depth - 1) (root, ndx)"
  proof (cases b)
    case True
    then show ?thesis using b(3) by (simp add: found_def)
  next
    case no: False
    have "\<not> reaches g rel info (max_depth - 1) (root, ndx)"
    proof
      assume "reaches g rel info (max_depth - 1) (root, ndx)"
      then obtain zs where zs: "hits g rel info ((root, ndx) # zs)" "distinct ((root, ndx) # zs)"
        "length ((root, ndx) # zs) \<le> max_depth - 1" using reaches_hits by blast
      then have "length ((root, ndx) # zs) < max_depth" by (simp add: max_depth_def)
      then show False using b(3) no zs(1,2) not_blocked [of 0 st' "(root, ndx) # zs"] by (simp add: cleared_def)
    qed
    then show ?thesis using no by simp
  qed
  then show ?thesis using False b(1,2) by (simp add: deep_check_def changed_def del: check_row.simps)
qed

fun deep_checks :: "nat \<Rightarrow> group_view \<Rightarrow> related_table list \<Rightarrow> change_info \<Rightarrow> nat \<Rightarrow> nat list \<Rightarrow> checker \<Rightarrow> bool list option" where
  "deep_checks mx g rel info root [] st = Some []"
| "deep_checks mx g rel info root (ndx # ndxs) st = do {
     (b, st) \<leftarrow> deep_check mx g rel info root ndx st;
     bs \<leftarrow> deep_checks mx g rel info root ndxs st;
     Some (b # bs)
   }"

lemma deep_checks_exact:
  "cache_ok mx g rel info st \<Longrightarrow> deep_checks mx g rel info root ndxs st =
     Some (map (\<lambda>ndx. changed info (root, ndx) \<or> reaches g rel info (max_depth - 1) (root, ndx)) ndxs)"
proof (induction ndxs arbitrary: st)
  case (Cons ndx ndxs)
  obtain st' where "deep_check mx g rel info root ndx st =
      Some (changed info (root, ndx) \<or> reaches g rel info (max_depth - 1) (root, ndx), st')" "cache_ok mx g rel info st'"
    using deep_check_exact [OF Cons.prems] by blast
  then show ?case using Cons.IH by simp
qed simp

lemma checker_init_ok: "max_size_ok mx \<Longrightarrow> cache_ok mx g rel info checker_init"
  by (simp add: cache_ok_def checker_init_def)

end
