(* ===== verification/Related_Tables.thy ===== *)
theory Related_Tables
  imports Deep_Change Log_Methods
begin

text \<open>
  Which tables a notifier has to watch and how it asks whether a row changed:
  \<open>DeepChangeChecker::find_related_tables\<close> and \<open>CollectionNotifier::get_modification_checker\<close>
  (\<open>impl/collection_notifier.cpp\<close>).  The columns of a table, each with its type and, for links, the index of the
  target table, are data of the database.
\<close>

type_synonym table_columns = "nat \<Rightarrow> (data_type \<times> nat) list"

definition is_link_column :: "data_type \<Rightarrow> bool" where
  "is_link_column type \<longleftrightarrow> type = type_Link \<or> type = type_LinkList"

definition add_link :: "nat \<Rightarrow> outgoing_link \<Rightarrow> related_table list \<Rightarrow> related_table list" where
  "add_link out_index link out = out[out_index := (out ! out_index)\<lparr>rt_links := rt_links (out ! out_index) @ [link]\<rparr>]"

definition has_table :: "related_table list \<Rightarrow> nat \<Rightarrow> bool" where
  "has_table out table_ndx \<longleftrightarrow> list_ex (\<lambda>tbl. rt_table_ndx tbl = table_ndx) out"

text \<open>
  The recursion goes no deeper than there are tables; \<open>fuel\<close> bounds it and \<open>None\<close> means that it was too small.
\<close>

fun find_related_tables :: "table_columns \<Rightarrow> nat \<Rightarrow> related_table list \<Rightarrow> nat \<Rightarrow> related_table list option" where
  "find_related_tables cols 0 out table_ndx = None"
| "find_related_tables cols (Suc fuel) out table_ndx =
     (if table_ndx = npos \<or> has_table out table_ndx then Some out
      else foldM (\<lambda>(i, type, target) out'.
          if is_link_column type
          then find_related_tables cols fuel
            (add_link (length out) \<lparr>ol_col_ndx = i, ol_is_list = (type = type_LinkList)\<rparr> out') target
          else Some out')
        (zip [0..<length (cols table_ndx)] (cols table_ndx))
        (out @ [\<lparr>rt_table_ndx = table_ndx, rt_links = []\<rparr>]))"

subsection \<open>The tables found\<close>

definition table_links :: "table_columns \<Rightarrow> nat \<Rightarrow> nat \<Rightarrow> outgoing_link list" where
  "table_links cols table_ndx n =
     map (\<lambda>(i, type, target). \<lparr>ol_col_ndx = i, ol_is_list = (type = type_LinkList)\<rparr>)
       (filter (\<lambda>(i, type, target). is_link_column type) (take n (zip [0..<length (cols table_ndx)] (cols table_ndx))))"

definition link_tables :: "table_columns \<Rightarrow> nat \<Rightarrow> nat \<Rightarrow> nat set" where
  "link_tables cols table_ndx n = snd ` {c \<in> set (take n (cols table_ndx)). is_link_column (fst c)}"

text \<open>Every entry from \<open>k\<close> on is complete, and its targets are there too.\<close>

definition complete :: "table_columns \<Rightarrow> nat \<Rightarrow> related_table list \<Rightarrow> bool" where
  "complete cols k out \<longleftrightarrow> (\<forall>i < length out. k \<le> i \<longrightarrow>
     (let t = rt_table_ndx (out ! i) in rt_links (out ! i) = table_links cols t (length (cols t)) \<and>
        (\<forall>u \<in> link_tables cols t (length (cols t)). u = npos \<or> has_table out u)))"

definition tables_in :: "related_table list \<Rightarrow> nat list" where
  "tables_in out = map rt_table_ndx out"

lemma has_table_iff: "has_table out t \<longleftrightarrow> t \<in> set (tables_in out)"
  by (auto simp: has_table_def tables_in_def list_ex_iff)

lemma tables_in_add_link [simp]: "tables_in (add_link k l out) = tables_in out"
  by (cases "k < length out") (auto simp: tables_in_def add_link_def intro!: nth_equalityI, auto simp: nth_list_update)

lemma nth_add_link: "i \<noteq> k \<Longrightarrow> add_link k l out ! i = out ! i"
  by (simp add: add_link_def)

lemma length_add_link [simp]: "length (add_link k l out) = length out"
  by (simp add: add_link_def)

lemma has_table_prefix: "take (length out) out' = out \<Longrightarrow> has_table out u \<Longrightarrow> has_table out' u"
  unfolding has_table_iff tables_in_def by (metis in_set_takeD set_map imageE imageI)

lemma complete_prefix:
  assumes "complete cols k out" "take (length out) out' = out" "complete cols (length out) out'"
  shows "complete cols k out'"
proof -
  have "out' ! i = out ! i" if "i < length out" for i using assms(2) that by (metis nth_take)
  then show ?thesis using assms(1,3) has_table_prefix [OF assms(2)]
    unfolding complete_def Let_def by (metis (no_types, lifting) leI)
qed

lemma complete_add_link: "complete cols (Suc k) (add_link k l out) \<longleftrightarrow> complete cols (Suc k) out"
proof -
  have "add_link k l out ! i = out ! i" if "Suc k \<le> i" for i using that by (simp add: nth_add_link)
  then show ?thesis by (auto simp: complete_def Let_def has_table_iff)
qed

definition universe_ok :: "table_columns \<Rightarrow> nat set \<Rightarrow> bool" where
  "universe_ok cols U \<longleftrightarrow> finite U \<and> (\<forall>t \<in> U. link_tables cols t (length (cols t)) \<subseteq> insert npos U)"

text \<open>The state of the loop over the columns of \<open>t\<close> after \<open>n\<close> of them.\<close>

definition scanned :: "table_columns \<Rightarrow> nat set \<Rightarrow> related_table list \<Rightarrow> nat \<Rightarrow> nat \<Rightarrow> related_table list \<Rightarrow> bool" where
  "scanned cols U out t n out' \<longleftrightarrow> length out < length out' \<and> take (length out) out' = out \<and>
     out' ! length out = \<lparr>rt_table_ndx = t, rt_links = table_links cols t n\<rparr> \<and> complete cols (Suc (length out)) out' \<and>
     (\<forall>u \<in> link_tables cols t n. u = npos \<or> has_table out' u) \<and> distinct (tables_in out') \<and>
     set (tables_in out') \<subseteq> set (tables_in out) \<union> U"

lemma scanned_table:
  assumes "scanned cols U out t n out'"
  shows "has_table out' t"
proof -
  have "length out < length out'" using assms by (simp add: scanned_def)
  then have "out' ! length out \<in> set out'" by (rule nth_mem)
  moreover have "rt_table_ndx (out' ! length out) = t" using assms by (simp add: scanned_def)
  ultimately show ?thesis by (auto simp: has_table_def list_ex_iff)
qed

lemma take_columns:
  assumes "zip [0..<length xs] xs = as @ c # bs"
  shows "length as < length xs" "c = (length as, xs ! length as)" "take (length as) xs = map snd as"
proof -
  have l: "length xs = length as + Suc (length bs)" using arg_cong [OF assms, of length] by simp
  then show "length as < length xs" by simp
  have "(zip [0..<length xs] xs) ! length as = c" by (simp add: assms)
  then show "c = (length as, xs ! length as)" using l by (simp del: upt_Suc)
  have "map snd (zip [0..<length xs] xs) = map snd as @ snd c # map snd bs" by (simp add: assms)
  then show "take (length as) xs = map snd as" by simp
qed

lemma links_Suc:
  assumes "n < length (cols t)"
  shows "table_links cols t (Suc n) = table_links cols t n @
      (if is_link_column (fst (cols t ! n)) then [\<lparr>ol_col_ndx = n, ol_is_list = (fst (cols t ! n) = type_LinkList)\<rparr>] else [])"
    "link_tables cols t (Suc n) = (if is_link_column (fst (cols t ! n)) then {snd (cols t ! n)} else {}) \<union> link_tables cols t n"
  using assms by (auto simp: table_links_def link_tables_def take_Suc_conv_app_nth split: prod.splits)

lemma scan_plain:
  assumes "scanned cols U out t n out'" "n < length (cols t)" "\<not> is_link_column (fst (cols t ! n))"
  shows "scanned cols U out t (Suc n) out'"
  using assms links_Suc [of n cols t, OF assms(2)] by (simp add: scanned_def)

lemma scan_link:
  assumes s: "scanned cols U out t n out'" and n: "n < length (cols t)" "is_link_column (fst (cols t ! n))"
    and out1: "out1 = add_link (length out) \<lparr>ol_col_ndx = n, ol_is_list = (fst (cols t ! n) = type_LinkList)\<rparr> out'"
    and r: "take (length out1) out2 = out1" "distinct (tables_in out2)" "set (tables_in out2) \<subseteq> set (tables_in out1) \<union> U"
      "snd (cols t ! n) = npos \<or> has_table out2 (snd (cols t ! n))" "complete cols (length out1) out2"
  shows "scanned cols U out t (Suc n) out2"
proof -
  have l: "length out < length out'" "length out1 = length out'" using s out1 by (simp_all add: scanned_def)
  have "length out1 \<le> length out2" using arg_cong [OF r(1), of length] by simp
  then have l2: "length out < length out2" using l by simp
  have nth: "out2 ! i = out1 ! i" if "i < length out1" for i using r(1) that by (metis nth_take)
  have "take (length out) out1 = take (length out) out'" by (simp add: out1 add_link_def)
  then have t2: "take (length out) out2 = out" using s r(1) l by (metis less_imp_le_nat min.absorb1 scanned_def take_take)
  have "out2 ! length out = \<lparr>rt_table_ndx = t, rt_links = table_links cols t (Suc n)\<rparr>"
    using s l n nth [of "length out"] links_Suc(1) [of n cols t] by (simp add: out1 add_link_def scanned_def)
  moreover have "complete cols (Suc (length out)) out2"
    using complete_prefix [OF _ r(1,5)] s complete_add_link by (simp add: out1 scanned_def)
  moreover have "has_table out2 u" if "has_table out' u" for u
    using has_table_prefix [OF r(1)] that by (simp add: has_table_iff out1)
  ultimately show ?thesis using s l2 t2 r(2-4) n links_Suc(2) [of n cols t] by (auto simp: scanned_def out1)
qed

lemma find_related_tables_correct:
  assumes U: "universe_ok cols U"
  shows "card (U - set (tables_in out)) < fuel \<Longrightarrow> t \<in> insert npos U \<Longrightarrow> distinct (tables_in out) \<Longrightarrow>
    \<exists>out'. find_related_tables cols fuel out t = Some out' \<and> take (length out) out' = out \<and> distinct (tables_in out') \<and>
      set (tables_in out') \<subseteq> set (tables_in out) \<union> U \<and> (t = npos \<or> has_table out' t) \<and> complete cols (length out) out'"
proof (induction fuel arbitrary: out t)
  case (Suc fuel)
  show ?case
  proof (cases "t = npos \<or> has_table out t")
    case True
    then show ?thesis using Suc.prems(3) by (auto simp: complete_def)
  next
    case False
    let ?cs = "zip [0..<length (cols t)] (cols t)" and ?out = "out @ [\<lparr>rt_table_ndx = t, rt_links = []\<rparr>]"
    let ?f = "\<lambda>(i, type, target) out'. if is_link_column type then find_related_tables cols fuel
      (add_link (length out) \<lparr>ol_col_ndx = i, ol_is_list = (type = type_LinkList)\<rparr> out') target else Some out'"
    have tU: "t \<in> U" using Suc.prems(2) False by auto
    have "\<exists>out'. foldM ?f ?cs ?out = Some out' \<and> scanned cols U out t (length ?cs) out'"
    proof (rule foldM_invariant)
      show "scanned cols U out t (length []) ?out" using Suc.prems(3) False tU
        by (auto simp: scanned_def complete_def table_links_def link_tables_def tables_in_def has_table_iff)
    next
      fix as c bs out' assume cs: "?cs = as @ c # bs" and s: "scanned cols U out t (length as) out'"
      note n = take_columns [OF cs]
      let ?n = "length as"
      show "\<exists>t'. ?f c out' = Some t' \<and> scanned cols U out t (length (as @ [c])) t'"
      proof (cases "is_link_column (fst (cols t ! ?n))")
        case False
        then show ?thesis using n scan_plain [OF s n(1)] by (auto split: prod.splits)
      next
        case True
        let ?out1 = "add_link (length out) \<lparr>ol_col_ndx = ?n, ol_is_list = (fst (cols t ! ?n) = type_LinkList)\<rparr> out'"
        have "take (length out) out' = out" "distinct (tables_in out')" using s by (simp_all add: scanned_def)
        then have sub: "set (tables_in out) \<subseteq> set (tables_in out')" "t \<in> set (tables_in out')" "distinct (tables_in out')"
          using has_table_prefix scanned_table [OF s] by (auto simp: has_table_iff)
        have "U - set (tables_in ?out1) \<subset> U - set (tables_in out)" using sub tU False \<open>\<not> (t = npos \<or> has_table out t)\<close>
          by (auto simp: has_table_iff)
        then have "card (U - set (tables_in ?out1)) < card (U - set (tables_in out))" using U by (intro psubset_card_mono) (auto simp: universe_ok_def)
        then have fuel: "card (U - set (tables_in ?out1)) < fuel" using Suc.prems(1) by simp
        have "cols t ! ?n \<in> set (cols t)" using n(1) by simp
        then have "snd (cols t ! ?n) \<in> link_tables cols t (length (cols t))" using True by (auto simp: link_tables_def)
        then have "snd (cols t ! ?n) \<in> insert npos U" using U tU by (auto simp: universe_ok_def)
        from Suc.IH [OF fuel this] obtain out2 where out2: "find_related_tables cols fuel ?out1 (snd (cols t ! ?n)) = Some out2"
          "take (length ?out1) out2 = ?out1" "distinct (tables_in out2)" "set (tables_in out2) \<subseteq> set (tables_in ?out1) \<union> U"
          "snd (cols t ! ?n) = npos \<or> has_table out2 (snd (cols t ! ?n))" "complete cols (length ?out1) out2" using sub(3) by auto
        have "?f c out' = Some out2" using out2(1) n(2) True by (cases "cols t ! ?n") simp
        then show ?thesis using scan_link [OF s n(1) True refl out2(2-6)] by auto
      qed
    qed
    then obtain out' where o: "foldM ?f ?cs ?out = Some out'" "scanned cols U out t (length (cols t)) out'" by auto
    have "has_table out' t" by (rule scanned_table [OF o(2)])
    moreover have "complete cols (length out) out'"
      using o(2) by (auto simp: scanned_def complete_def Let_def le_less_Suc_eq dest!: le_neq_implies_less)
    ultimately show ?thesis using o False by (auto simp: scanned_def)
  qed
qed simp


text \<open>What the search finds from nothing: the table and all it links to, each with all its links.\<close>

definition links_known :: "table_columns \<Rightarrow> related_table list \<Rightarrow> bool" where
  "links_known cols rel \<longleftrightarrow> distinct (tables_in rel) \<and> (\<forall>tbl \<in> set rel.
     rt_links tbl = table_links cols (rt_table_ndx tbl) (length (cols (rt_table_ndx tbl))) \<and>
     (\<forall>u \<in> link_tables cols (rt_table_ndx tbl) (length (cols (rt_table_ndx tbl))). u = npos \<or> has_table rel u))"

lemma find_all_related:
  assumes "universe_ok cols U" "card U < fuel" "t \<in> U" "t \<noteq> npos"
  shows "\<exists>rel. find_related_tables cols fuel [] t = Some rel \<and> has_table rel t \<and> links_known cols rel \<and> set (tables_in rel) \<subseteq> U"
proof -
  obtain rel where r: "find_related_tables cols fuel [] t = Some rel" "distinct (tables_in rel)" "set (tables_in rel) \<subseteq> U"
    "has_table rel t" "complete cols 0 rel"
    using find_related_tables_correct [OF assms(1), of "[]" fuel t] assms(2-4) by (auto simp: tables_in_def)
  have "rt_links tbl = table_links cols (rt_table_ndx tbl) (length (cols (rt_table_ndx tbl))) \<and>
     (\<forall>u \<in> link_tables cols (rt_table_ndx tbl) (length (cols (rt_table_ndx tbl))). u = npos \<or> has_table rel u)"
    if "tbl \<in> set rel" for tbl
  proof -
    have "\<exists>i < length rel. rel ! i = tbl" using that by (simp only: in_set_conv_nth)
    then obtain i where "i < length rel" "tbl = rel ! i" by blast
    then show ?thesis using r(5) by (simp add: complete_def Let_def)
  qed
  then have "links_known cols rel" using r(2) unfolding links_known_def by blast
  then show ?thesis using r by blast
qed

subsection \<open>Choosing a checker\<close>

text \<open>
  \<open>get_modification_checker\<close>: no row changed if no related table did; the rows of the table itself if it is the
  only one; the deep search otherwise.
\<close>

datatype modification_checker = No_row | Rows_of nat | Deep

definition table_modified :: "change_info \<Rightarrow> related_table \<Rightarrow> bool" where
  "table_modified info tbl \<longleftrightarrow> rt_table_ndx tbl < length (tables info) \<and> modifications (tables info ! rt_table_ndx tbl) \<noteq> []"

definition get_modification_checker :: "change_info \<Rightarrow> related_table list \<Rightarrow> modification_checker" where
  "get_modification_checker info rel =
     (if \<not> list_ex (table_modified info) rel then No_row
      else if length rel = 1 then Rows_of (rt_table_ndx (hd rel)) else Deep)"

text \<open>The answers for a sequence of rows; a deep checker keeps its memory from one to the next.\<close>

definition row_did_change ::
    "nat \<Rightarrow> group_view \<Rightarrow> related_table list \<Rightarrow> change_info \<Rightarrow> nat \<Rightarrow> modification_checker \<Rightarrow> nat list \<Rightarrow> bool list option" where
  "row_did_change mx g rel info root checker rows = (case checker of
     No_row \<Rightarrow> Some (map (\<lambda>_. False) rows)
   | Rows_of t \<Rightarrow> Some (map (is_contains (modifications (tables info ! t))) rows)
   | Deep \<Rightarrow> deep_checks mx g rel info root rows checker_init)"

text \<open>The links of the view are those of the columns, and they lead to group-level tables.\<close>

definition view_ok :: "table_columns \<Rightarrow> group_view \<Rightarrow> bool" where
  "view_ok cols g \<longleftrightarrow> (\<forall>t. \<forall>i < length (cols t). is_link_column (fst (cols t ! i)) \<longrightarrow>
     get_link_target g t i = snd (cols t ! i) \<and> snd (cols t ! i) \<noteq> npos)"

lemma table_links_column:
  assumes "link \<in> set (table_links cols t (length (cols t)))"
  shows "ol_col_ndx link < length (cols t) \<and> is_link_column (fst (cols t ! ol_col_ndx link))"
proof -
  obtain i type target where i: "(i, type, target) \<in> set (zip [0..<length (cols t)] (cols t))" "is_link_column type"
    "ol_col_ndx link = i" using assms by (auto simp: table_links_def)
  then have "i < length (cols t)" "cols t ! i = (type, target)" by (auto simp: set_zip)
  then show ?thesis using i by simp
qed

lemma related_targets:
  assumes k: "links_known cols rel" "view_ok cols g" and y: "y \<in> set (targets g rel z)"
  shows "has_table rel (fst y) \<and> fst y \<in> link_tables cols (fst z) (length (cols (fst z)))"
proof -
  obtain links where ls: "links_of rel (fst z) = Some links" using y by (cases "links_of rel (fst z)") (auto simp: targets_def)
  then obtain link where l: "links_of rel (fst z) = Some links" "link \<in> set links" "y \<in> set (link_targets g z link)"
    using y by (auto simp: targets_def)
  obtain tbl where tbl: "find (\<lambda>tbl. rt_table_ndx tbl = fst z) rel = Some tbl" "links = rt_links tbl"
    using l(1) by (auto simp: links_of_def)
  then have t: "tbl \<in> set rel" "rt_table_ndx tbl = fst z" by (auto simp: find_Some_iff)
  then have c: "ol_col_ndx link < length (cols (fst z)) \<and> is_link_column (fst (cols (fst z) ! ol_col_ndx link))"
    using k(1) l(2) tbl(2) table_links_column [of link cols "fst z"] by (auto simp: links_known_def)
  then have g: "get_link_target g (fst z) (ol_col_ndx link) = snd (cols (fst z) ! ol_col_ndx link)"
    "snd (cols (fst z) ! ol_col_ndx link) \<noteq> npos" using k(2) by (auto simp: view_ok_def)
  have "fst y = get_link_target g (fst z) (ol_col_ndx link)"
    using l(3) by (auto simp: link_targets_def Let_def split: if_splits)
  moreover have "snd (cols (fst z) ! ol_col_ndx link) \<in> link_tables cols (fst z) (length (cols (fst z)))"
    using c nth_mem by (force simp: link_tables_def)
  moreover have "u = npos \<or> has_table rel u" if "u \<in> link_tables cols (fst z) (length (cols (fst z)))" for u
    using k(1) t that unfolding links_known_def by metis
  ultimately show ?thesis using g by metis
qed

lemma unrelated_unreached:
  assumes "links_known cols rel" "view_ok cols g" "\<not> list_ex (table_modified info) rel"
  shows "has_table rel (fst z) \<Longrightarrow> \<not> changed info z \<and> \<not> reaches g rel info k z"
proof -
  have c: "\<not> changed info z" if "has_table rel (fst z)" for z
  proof -
    obtain tbl where "tbl \<in> set rel" "rt_table_ndx tbl = fst z" using \<open>has_table rel (fst z)\<close> by (auto simp: has_table_def list_ex_iff)
    then have "\<not> fst z < length (tables info) \<or> modifications (tables info ! fst z) = []"
      using assms(3) by (auto simp: list_ex_iff table_modified_def)
    then show ?thesis by (auto simp: changed_def row_modified_def is_contains_iff [of 4] index_set_ok_def)
  qed
  have "has_table rel (fst z) \<Longrightarrow> \<not> reaches g rel info k z" for z k
  proof (induction k arbitrary: z)
    case (Suc k)
    then show ?case using related_targets [OF assms(1,2)] c by (auto simp: list_ex_iff)
  qed simp
  then show "has_table rel (fst z) \<Longrightarrow> \<not> changed info z \<and> \<not> reaches g rel info k z" using c by blast
qed

lemma checker_exact:
  assumes mx: "max_size_ok mx" and k: "links_known cols rel" "view_ok cols g" "has_table rel root"
    and alone: "length rel = 1 \<longrightarrow> root \<notin> link_tables cols root (length (cols root))"
  shows "row_did_change mx g rel info root (get_modification_checker info rel) rows =
    Some (map (\<lambda>ndx. changed info (root, ndx) \<or> reaches g rel info (max_depth - 1) (root, ndx)) rows)"
proof (cases "list_ex (table_modified info) rel")
  case False
  then show ?thesis using unrelated_unreached [OF k(1,2) False, of "(root, _)"] k(3)
    by (simp add: get_modification_checker_def row_did_change_def)
next
  case True
  show ?thesis
  proof (cases "length rel = 1")
    case False
    then show ?thesis using True deep_checks_exact [OF checker_init_ok [OF mx]]
      by (simp add: get_modification_checker_def row_did_change_def)
  next
    case one: True
    then obtain tbl where rel: "rel = [tbl]" by (cases rel) auto
    then have r: "rt_table_ndx tbl = root" "root < length (tables info)"
      using k(3) True by (auto simp: has_table_def table_modified_def)
    have "\<not> (y \<in> set (targets g rel (root, ndx)))" for y ndx
      using related_targets [OF k(1,2), of y "(root, ndx)"] alone one rel r by (auto simp: has_table_def)
    then have "\<not> reaches g rel info j (root, ndx)" for j ndx by (cases j) (auto simp: list_ex_iff)
    then show ?thesis using True one rel r
      by (simp add: get_modification_checker_def row_did_change_def changed_def row_modified_def)
  qed
qed

text \<open>
  A table that links to itself and to no other is the only related table too; its links are then ignored.
\<close>

definition self_view :: group_view where
  "self_view = \<lparr>is_null_link = (\<lambda>t c r. r = 0), get_link = (\<lambda>t c r. r - 1), get_linklist = (\<lambda>t c r. []),
     get_link_target = (\<lambda>t c. 0)\<rparr>"

definition self_related :: "related_table list" where
  "self_related = [\<lparr>rt_table_ndx = 0, rt_links = [\<lparr>ol_col_ndx = 0, ol_is_list = False\<rparr>]\<rparr>]"

definition first_row_modified :: change_info where
  "first_row_modified = \<lparr>table_modifications_needed = [True], table_moves_needed = [], lists = [],
     tables = [cb_default\<lparr>modifications := [\<lparr>c_data = [(0, 1)], c_begin = 0, c_end = 1, c_count = 1\<rparr>]\<rparr>],
     column_indices = [], table_indices = [], track_all = False, schema_changed = False, builders = []\<rparr>"

lemma self_links_ignored:
  "find_related_tables (\<lambda>t. if t = 0 then [(type_Link, 0)] else []) 2 [] 0 = Some self_related"
  "row_did_change 4 self_view self_related first_row_modified 0 (get_modification_checker first_row_modified self_related) [0, 1] =
     Some [True, False]"
  "deep_checks 4 self_view self_related first_row_modified 0 [0, 1] checker_init = Some [True, True]"
proof -
  have "(0 :: nat) \<noteq> npos" by (simp add: npos_def)
  then have "find_related_tables (\<lambda>t. if t = 0 then [(type_Link, 0)] else []) (Suc (Suc 0)) [] 0 = Some self_related"
    by (simp add: has_table_def is_link_column_def add_link_def self_related_def)
  then show "find_related_tables (\<lambda>t. if t = 0 then [(type_Link, 0)] else []) 2 [] 0 = Some self_related"
    by (simp add: numeral_2_eq_2)
qed (code_simp, code_simp)

end
