(* ===== verification/Callbacks.thy ===== *)
theory Callbacks
  imports Change_Compose
begin

text \<open>
  The callbacks of a \<open>CollectionNotifier\<close> (\<open>impl/collection_notifier.cpp\<close>): registering and removing them,
  accumulating and packaging their changes, and delivering these while the callbacks themselves add and remove
  callbacks.

  A callback is known by its token; what it does when it is called is a parameter, the operations on the
  notifier that happen during the call.  Tokens are unbounded: the counter has 64 bits.  \<open>m_callback_index\<close>
  and \<open>m_callback_count\<close> wrap as in the source.  Access outside the vector is \<open>None\<close>, like a failing assertion.
  Waking up the worker thread and the locks have no effect on this state and are left out; \<open>add_changes\<close> is
  called on the worker thread and touches only what a delivery does not read.
\<close>

subsection \<open>The model\<close>

record callback =
  accumulated_changes :: change_builder
  changes_to_deliver :: change_set
  cb_token :: nat
  initial_delivered :: bool
  skip_next :: bool

record notifier =
  m_callbacks :: "callback list"
  m_have_callbacks :: bool
  m_callback_index :: nat
  m_callback_count :: nat
  m_next_token :: nat
  m_error :: bool

definition cs_default :: change_set where
  "cs_default = \<lparr>deletions = [], insertions = [], modifications = [], modifications_new = [], moves = [], columns = []\<rparr>"

definition notifier_init :: notifier where
  "notifier_init = \<lparr>m_callbacks = [], m_have_callbacks = False, m_callback_index = npos, m_callback_count = npos,
     m_next_token = 0, m_error = False\<rparr>"

text \<open>\<open>size_t\<close> increment and decrement.\<close>

definition incr :: "nat \<Rightarrow> nat" where
  "incr i = (if i = npos then 0 else i + 1)"

definition decr :: "nat \<Rightarrow> nat" where
  "decr i = (if i = 0 then npos else i - 1)"

definition add_callback :: "notifier \<Rightarrow> nat \<times> notifier" where
  "add_callback n =
     (let token = m_next_token n;
          n1 = n\<lparr>m_next_token := token + 1,
                 m_callbacks := m_callbacks n @ [\<lparr>accumulated_changes = cb_default, changes_to_deliver = cs_default,
                   cb_token = token, initial_delivered = False, skip_next = False\<rparr>]\<rparr>;
          n2 = (if m_callback_index n1 = npos then n1\<lparr>m_have_callbacks := True\<rparr> else n1)
      in (token, n2))"

text \<open>The position of the callback, or the length of the vector if it is not there.\<close>

definition find_callback :: "nat \<Rightarrow> notifier \<Rightarrow> nat option" where
  "find_callback token n = do {
     realm_assert (m_error n \<or> 0 < length (m_callbacks n));
     let it = length (takeWhile (\<lambda>c. cb_token c \<noteq> token) (m_callbacks n));
     realm_assert (m_error n \<or> it \<noteq> length (m_callbacks n));
     Some it
   }"

definition remove_callback :: "nat \<Rightarrow> notifier \<Rightarrow> notifier option" where
  "remove_callback token n = do {
     idx \<leftarrow> find_callback token n;
     if idx = length (m_callbacks n) then Some n
     else do {
       let index = (if m_callback_index n \<noteq> npos \<and> idx \<le> m_callback_index n then decr (m_callback_index n)
                    else m_callback_index n);
       let callbacks = take idx (m_callbacks n) @ drop (idx + 1) (m_callbacks n);
       Some (n\<lparr>m_callback_index := index, m_callback_count := decr (m_callback_count n), m_callbacks := callbacks,
         m_have_callbacks := (callbacks \<noteq> [])\<rparr>)
     }
   }"

definition suppress_next_notification :: "nat \<Rightarrow> notifier \<Rightarrow> notifier option" where
  "suppress_next_notification token n = do {
     it \<leftarrow> find_callback token n;
     Some (if it \<noteq> length (m_callbacks n)
           then n\<lparr>m_callbacks := (m_callbacks n)[it := (m_callbacks n ! it)\<lparr>skip_next := True\<rparr>]\<rparr> else n)
   }"

definition accumulate :: "nat \<Rightarrow> change_builder \<Rightarrow> callback \<Rightarrow> callback option" where
  "accumulate mx change c =
     (if skip_next c then Some (c\<lparr>skip_next := False\<rparr>)
      else map_option (\<lambda>b. c\<lparr>accumulated_changes := b\<rparr>) (cb_merge mx change (accumulated_changes c)))"

definition add_changes :: "nat \<Rightarrow> change_builder \<Rightarrow> notifier \<Rightarrow> notifier option" where
  "add_changes mx change n = map_option (\<lambda>cs. n\<lparr>m_callbacks := cs\<rparr>) (mapM (accumulate mx change) (m_callbacks n))"

text \<open>
  \<open>finalize\<close> moves the vectors out of the builder and leaves them empty; \<open>prepare_to_deliver\<close> is virtual, and its
  result a parameter.
\<close>

definition package_callback :: "nat \<Rightarrow> callback \<Rightarrow> callback option" where
  "package_callback mx c =
     map_option (\<lambda>changes. c\<lparr>changes_to_deliver := changes, accumulated_changes := (accumulated_changes c)\<lparr>
         deletions := [], insertions := [], modifications := [], moves := [], columns := []\<rparr>\<rparr>)
       (cb_finalize mx (accumulated_changes c))"

definition package_for_delivery :: "nat \<Rightarrow> bool \<Rightarrow> notifier \<Rightarrow> (bool \<times> notifier) option" where
  "package_for_delivery mx prepared n =
     (if \<not> prepared then Some (False, n)
      else map_option (\<lambda>cs. (True, n\<lparr>m_callbacks := cs, m_callback_count := length cs\<rparr>)) (mapM (package_callback mx) (m_callbacks n)))"

subsection \<open>Delivery\<close>

text \<open>What happens while a callback runs, and the calls made: the token and the changes handed over.\<close>

datatype user_op = Op_add | Op_remove nat

type_synonym user = "nat \<Rightarrow> user_op list"

type_synonym delivery = "nat \<times> change_set"

fun user_step :: "user_op \<Rightarrow> notifier \<Rightarrow> notifier option" where
  "user_step Op_add n = Some (snd (add_callback n))"
| "user_step (Op_remove token) n = remove_callback token n"

text \<open>The loop of \<open>for_each_callback\<close> from its increment on.\<close>

partial_function (option) for_each_loop ::
    "(callback \<Rightarrow> notifier \<Rightarrow> (delivery list \<times> notifier) option) \<Rightarrow> notifier \<Rightarrow> (delivery list \<times> notifier) option" where
  "for_each_loop fn n =
     (let n1 = n\<lparr>m_callback_index := incr (m_callback_index n)\<rparr> in
      if m_callback_index n1 < m_callback_count n1 then do {
        realm_assert (m_callback_index n1 < length (m_callbacks n1));
        (made, n2) \<leftarrow> fn (m_callbacks n1 ! m_callback_index n1) n1;
        (rest, n3) \<leftarrow> for_each_loop fn n2;
        Some (made @ rest, n3)
      }
      else Some ([], n1\<lparr>m_callback_index := npos\<rparr>))"

definition before_one :: "user \<Rightarrow> callback \<Rightarrow> notifier \<Rightarrow> (delivery list \<times> notifier) option" where
  "before_one user c n =
     (if cs_empty (changes_to_deliver c) then Some ([], n)
      else map_option (Pair [(cb_token c, changes_to_deliver c)]) (foldM user_step (user (cb_token c)) n))"

definition before_advance :: "user \<Rightarrow> notifier \<Rightarrow> (delivery list \<times> notifier) option" where
  "before_advance user n = for_each_loop (before_one user) n"

definition after_one :: "user \<Rightarrow> callback \<Rightarrow> notifier \<Rightarrow> (delivery list \<times> notifier) option" where
  "after_one user c n =
     (if initial_delivered c \<and> cs_empty (changes_to_deliver c) then Some ([], n)
      else let n1 = n\<lparr>m_callbacks := (m_callbacks n)[m_callback_index n :=
                 c\<lparr>initial_delivered := True, changes_to_deliver := cs_default\<rparr>]\<rparr>
           in map_option (Pair [(cb_token c, changes_to_deliver c)]) (foldM user_step (user (cb_token c)) n1))"

definition after_advance :: "user \<Rightarrow> notifier \<Rightarrow> (delivery list \<times> notifier) option" where
  "after_advance user n = for_each_loop (after_one user) n"

definition error_one :: "user \<Rightarrow> callback \<Rightarrow> notifier \<Rightarrow> (delivery list \<times> notifier) option" where
  "error_one user c n = do {
     n1 \<leftarrow> foldM user_step (user (cb_token c)) n;
     n2 \<leftarrow> remove_callback (cb_token c) n1;
     Some ([(cb_token c, cs_default)], n2)
   }"

definition deliver_error :: "user \<Rightarrow> notifier \<Rightarrow> (delivery list \<times> notifier) option" where
  "deliver_error user n =
     for_each_loop (error_one user) (n\<lparr>m_error := True, m_callback_count := length (m_callbacks n)\<rparr>)"

subsection \<open>The reference\<close>

text \<open>What a delivery reads of a callback.\<close>

type_synonym core = "nat \<times> change_set \<times> bool"

definition core :: "callback \<Rightarrow> core" where
  "core c = (cb_token c, changes_to_deliver c, initial_delivered c)"

definition due_before :: "core \<Rightarrow> bool" where
  "due_before = (\<lambda>(t, changes, initial). \<not> cs_empty changes)"

definition due_after :: "core \<Rightarrow> bool" where
  "due_after = (\<lambda>(t, changes, initial). \<not> (initial \<and> cs_empty changes))"

definition removed_by :: "user_op list \<Rightarrow> nat list" where
  "removed_by ops = concat (map (\<lambda>op. case op of Op_add \<Rightarrow> [] | Op_remove t \<Rightarrow> [t]) ops)"

text \<open>Every callback that is due is called once and in order, unless it was removed before its turn.\<close>

fun deliveries :: "(core \<Rightarrow> bool) \<Rightarrow> user \<Rightarrow> nat set \<Rightarrow> core list \<Rightarrow> core list" where
  "deliveries due user gone [] = []"
| "deliveries due user gone (d # ds) =
     (if fst d \<in> gone \<or> \<not> due d then deliveries due user gone ds
      else d # deliveries due user (gone \<union> set (removed_by (user (fst d)))) ds)"

definition handed :: "core \<Rightarrow> delivery" where
  "handed d = (fst d, fst (snd d))"

fun gone_after :: "(core \<Rightarrow> bool) \<Rightarrow> user \<Rightarrow> nat set \<Rightarrow> core list \<Rightarrow> nat set" where
  "gone_after due user gone [] = gone"
| "gone_after due user gone (d # ds) =
     (if fst d \<in> gone \<or> \<not> due d then gone_after due user gone ds
      else gone_after due user (gone \<union> set (removed_by (user (fst d)))) ds)"

text \<open>A call removes only callbacks that were packaged and are still there.\<close>

fun removes_packaged :: "(core \<Rightarrow> bool) \<Rightarrow> user \<Rightarrow> nat set \<Rightarrow> nat set \<Rightarrow> core list \<Rightarrow> bool" where
  "removes_packaged due user P gone [] = True"
| "removes_packaged due user P gone (d # ds) =
     (if fst d \<in> gone \<or> \<not> due d then removes_packaged due user P gone ds
      else let rs = removed_by (user (fst d)) in
        distinct rs \<and> set rs \<subseteq> P - gone \<and> removes_packaged due user P (gone \<union> set rs) ds)"

subsection \<open>Callbacks added and removed during a delivery\<close>

definition packaged :: "notifier \<Rightarrow> core list" where
  "packaged n = map core (take (m_callback_count n) (m_callbacks n))"

definition todo :: "notifier \<Rightarrow> core list" where
  "todo n = drop (incr (m_callback_index n)) (packaged n)"

text \<open>Holds whatever the callbacks do.\<close>

definition sound :: "notifier \<Rightarrow> bool" where
  "sound n \<longleftrightarrow> distinct (map cb_token (m_callbacks n)) \<and> (\<forall>c \<in> set (m_callbacks n). cb_token c < m_next_token n) \<and>
     (m_callback_index n \<noteq> npos \<longrightarrow> m_callback_index n < length (m_callbacks n)) \<and>
     (m_have_callbacks n \<longleftrightarrow> m_callbacks n \<noteq> [])"

text \<open>The count is that of the packaged callbacks still there.\<close>

definition ready :: "notifier \<Rightarrow> bool" where
  "ready n \<longleftrightarrow> sound n \<and> m_callback_count n \<le> length (m_callbacks n) \<and> m_callback_count n \<le> npos \<and>
     (m_callback_index n \<noteq> npos \<longrightarrow> m_callback_index n < m_callback_count n)"

lemma find_callback_Some:
  assumes "distinct (map cb_token (m_callbacks n))" "m_callbacks n = as @ c # bs"
  shows "find_callback (cb_token c) n = Some (length as)"
proof -
  have "cb_token c \<notin> cb_token ` set as" using assms by simp
  then have "\<forall>x \<in> set as. cb_token x \<noteq> cb_token c" by (metis imageI)
  then have "length (takeWhile (\<lambda>x. cb_token x \<noteq> cb_token c) (as @ [c] @ bs)) = length as"
    by (intro length_takeWhile_split) auto
  then show ?thesis using assms(2) by (simp add: find_callback_def)
qed

lemma find_callback_found:
  assumes "find_callback t n = Some i" "i \<noteq> length (m_callbacks n)"
  shows "i < length (m_callbacks n) \<and> cb_token (m_callbacks n ! i) = t"
proof -
  have i: "i = length (takeWhile (\<lambda>c. cb_token c \<noteq> t) (m_callbacks n))"
    using assms(1) by (auto simp: find_callback_def bind_eq_Some_conv realm_assert_def Let_def split: if_splits)
  then have "i < length (m_callbacks n)" using assms(2) length_takeWhile_le [of "\<lambda>c. cb_token c \<noteq> t" "m_callbacks n"] by linarith
  then show ?thesis using nth_length_takeWhile [of "\<lambda>c. cb_token c \<noteq> t" "m_callbacks n"] i by simp
qed

lemma add_callback_facts:
  "map cb_token (m_callbacks (snd (add_callback n))) = map cb_token (m_callbacks n) @ [m_next_token n]"
  "m_next_token (snd (add_callback n)) = Suc (m_next_token n)"
  by (simp_all add: add_callback_def Let_def)

lemma sound_add: "sound n \<Longrightarrow> sound (snd (add_callback n))"
  by (auto simp: sound_def add_callback_def Let_def less_Suc_eq)

lemma sound_remove:
  assumes "sound n" "remove_callback t n = Some n'"
  shows "sound n'"
proof -
  obtain i where i: "find_callback t n = Some i" using assms(2) by (auto simp: remove_callback_def bind_eq_Some_conv)
  show ?thesis
  proof (cases "i = length (m_callbacks n)")
    case True
    then show ?thesis using assms i by (simp add: remove_callback_def)
  next
    case False
    then obtain as c bs where split: "m_callbacks n = as @ c # bs" "length as = i"
      using find_callback_found [OF i] split_at_nth by metis
    show ?thesis using assms False split i
      by (auto simp: remove_callback_def sound_def decr_def split: if_splits)
  qed
qed

lemma user_step_sound: "sound n \<Longrightarrow> user_step op n = Some n' \<Longrightarrow> sound n'"
  using sound_add sound_remove by (cases op) auto

lemma user_run_sound: "sound n \<Longrightarrow> foldM user_step ops n = Some n' \<Longrightarrow> sound n'"
proof (induction ops arbitrary: n)
  case (Cons op ops)
  then obtain m where "user_step op n = Some m" "foldM user_step ops m = Some n'" by (auto simp: bind_eq_Some_conv)
  then show ?case using Cons.IH Cons.prems(1) user_step_sound by blast
qed simp

lemma ready_add:
  assumes "ready n"
  shows "ready (snd (add_callback n))" "packaged (snd (add_callback n)) = packaged n"
    "todo (snd (add_callback n)) = todo n" "m_error (snd (add_callback n)) = m_error n"
proof -
  show "packaged (snd (add_callback n)) = packaged n" using assms by (simp add: packaged_def add_callback_def ready_def Let_def)
  then show "todo (snd (add_callback n)) = todo n" by (simp add: todo_def add_callback_def Let_def)
  show "ready (snd (add_callback n))" using assms sound_add by (simp add: ready_def) (simp add: add_callback_def Let_def)
qed (simp add: add_callback_def Let_def)

lemma filter_drop_gone:
  assumes "distinct (map fst (as @ d # bs))" "k \<le> length as + 1 + length bs"
  shows "drop (if length as < k then k - 1 else k) (as @ bs) = filter (\<lambda>e. fst e \<noteq> fst d) (drop k (as @ d # bs))"
proof -
  have "fst d \<notin> fst ` (set as \<union> set bs)" using assms(1) by auto
  then have "\<forall>e \<in> set as \<union> set bs. fst e \<noteq> fst d" by (metis imageI)
  then have f: "filter (\<lambda>e. fst e \<noteq> fst d) xs = xs" if "set xs \<subseteq> set as \<union> set bs" for xs
    using that by (intro filter_True) blast
  show ?thesis
  proof (cases "length as < k")
    case True
    then obtain j where "k = length as + 1 + j" using less_iff_Suc_add by auto
    then show ?thesis using f [OF le_supI2 [OF set_drop_subset [of j bs]]] by simp
  next
    case False
    then show ?thesis using f [OF le_supI1 [OF set_drop_subset [of k as]]] f [OF Un_upper2] by simp
  qed
qed

lemma distinct_packaged: "sound n \<Longrightarrow> distinct (map fst (packaged n))"
proof -
  have "map fst (packaged n) = take (m_callback_count n) (map cb_token (m_callbacks n))"
    by (simp add: packaged_def core_def comp_def take_map)
  then show "sound n \<Longrightarrow> distinct (map fst (packaged n))" by (simp add: sound_def)
qed

lemma fst_filter_gone: "fst ` {d \<in> S. fst d \<notin> gone} = fst ` S - gone" "fst ` {d \<in> S. fst d \<noteq> t} = fst ` S - {t}"
  by force+

lemma ready_remove:
  assumes "ready n" "t \<in> fst ` set (packaged n)"
  shows "\<exists>n'. remove_callback t n = Some n' \<and> ready n' \<and> packaged n' = filter (\<lambda>d. fst d \<noteq> t) (packaged n) \<and>
    todo n' = filter (\<lambda>d. fst d \<noteq> t) (todo n) \<and> m_error n' = m_error n"
proof -
  let ?k = "m_callback_count n" and ?i = "m_callback_index n"
  have r: "sound n" "?k \<le> length (m_callbacks n)" "?k \<le> npos" "?i \<noteq> npos \<longrightarrow> ?i < ?k" using assms(1) by (simp_all add: ready_def)
  obtain as c bs where split: "m_callbacks n = as @ c # bs" "length as < ?k" "cb_token c = t"
  proof -
    obtain c where c: "c \<in> set (take ?k (m_callbacks n))" "cb_token c = t"
      using assms(2) by (auto simp: packaged_def core_def)
    then obtain j where "j < length (take ?k (m_callbacks n))" "take ?k (m_callbacks n) ! j = c" by (meson in_set_conv_nth)
    then have "j < ?k" "j < length (m_callbacks n)" "m_callbacks n ! j = c" by simp_all
    then show thesis using that c(2) split_at_nth by (metis nth_append_length)
  qed
  have d: "distinct (map cb_token (m_callbacks n))" using r(1) by (simp add: sound_def)
  note f = find_callback_Some [OF d split(1), unfolded split(3)]
  define n' where "n' = n\<lparr>m_callback_index := (if ?i \<noteq> npos \<and> length as \<le> ?i then decr ?i else ?i),
    m_callback_count := decr ?k, m_callbacks := as @ bs, m_have_callbacks := (as @ bs \<noteq> [])\<rparr>"
  have n': "remove_callback t n = Some n'" using f split(1) by (simp add: remove_callback_def n'_def)
  have k: "decr ?k = ?k - 1" "length as \<le> ?k - 1" "?k - 1 \<le> length (as @ bs)" using split r(2) by (auto simp: decr_def)
  have take: "packaged n = map core as @ core c # take (?k - 1 - length as) (map core bs)"
    using split(1,2) by (simp add: packaged_def take_map take_Cons')
  have pk: "packaged n' = map core as @ take (?k - 1 - length as) (map core bs)"
    using k by (simp add: packaged_def n'_def take_map)
  have dt: "distinct (map fst (map core as @ core c # take (?k - 1 - length as) (map core bs)))"
    unfolding take [symmetric] by (rule distinct_packaged [OF r(1)])
  note g = filter_drop_gone [OF dt]
  have t: "fst (core c) = t" using split(3) by (simp add: core_def)
  have p: "packaged n' = filter (\<lambda>d. fst d \<noteq> t) (packaged n)"
    using g [of 0] unfolding take pk t by simp
  have i: "incr (m_callback_index n') = (if length as < incr ?i then incr ?i - 1 else incr ?i)"
    using r(3,4) split(2) by (auto simp: n'_def incr_def decr_def)
  have "incr ?i \<le> ?k" using r(3,4) by (auto simp: incr_def)
  then have len: "incr ?i \<le> length (map core as) + 1 + length (take (?k - 1 - length as) (map core bs))"
    using split r(2) by (simp add: min_def)
  have "todo n' = filter (\<lambda>d. fst d \<noteq> t) (todo n)"
    unfolding todo_def i pk take using g [OF len] by (simp add: t)
  moreover have "ready n'"
    using sound_remove [OF r(1) n'] r k split(2) unfolding ready_def by (auto simp: n'_def decr_def)
  ultimately show ?thesis using n' p by (auto simp: n'_def)
qed

lemma removed_by_simps [simp]:
  "removed_by [] = []" "removed_by (Op_add # ops) = removed_by ops" "removed_by (Op_remove t # ops) = t # removed_by ops"
  by (simp_all add: removed_by_def)

lemma ready_user_run:
  "ready n \<Longrightarrow> distinct (removed_by ops) \<Longrightarrow> set (removed_by ops) \<subseteq> fst ` set (packaged n) \<Longrightarrow>
   \<exists>n'. foldM user_step ops n = Some n' \<and> ready n' \<and> m_error n' = m_error n \<and>
     packaged n' = filter (\<lambda>d. fst d \<notin> set (removed_by ops)) (packaged n) \<and>
     todo n' = filter (\<lambda>d. fst d \<notin> set (removed_by ops)) (todo n)"
proof (induction ops arbitrary: n)
  case Nil
  then show ?case by simp
next
  case (Cons op ops)
  show ?case
  proof (cases op)
    case Op_add
    then show ?thesis using Cons.IH [OF ready_add(1) [OF Cons.prems(1)]] Cons.prems by (simp add: ready_add)
  next
    case (Op_remove t)
    then obtain n1 where n1: "remove_callback t n = Some n1" "ready n1" "packaged n1 = filter (\<lambda>d. fst d \<noteq> t) (packaged n)"
      "todo n1 = filter (\<lambda>d. fst d \<noteq> t) (todo n)" "m_error n1 = m_error n"
      using ready_remove [OF Cons.prems(1), of t] Cons.prems(3) by auto
    have "set (removed_by ops) \<subseteq> fst ` set (packaged n1)" using Cons.prems(2,3) Op_remove unfolding n1(3) set_filter fst_filter_gone by auto
    then obtain n' where "foldM user_step ops n1 = Some n'" "ready n'" "m_error n' = m_error n1"
      "packaged n' = filter (\<lambda>d. fst d \<notin> set (removed_by ops)) (packaged n1)"
      "todo n' = filter (\<lambda>d. fst d \<notin> set (removed_by ops)) (todo n1)"
      using Cons.IH [OF n1(2)] Cons.prems(2) Op_remove by auto
    then show ?thesis using n1 Op_remove by (intro exI [of _ n']) (auto intro: filter_cong)
  qed
qed

subsection \<open>The loop\<close>

text \<open>
  A visit of the loop: it calls the callback if that is due and lets it do what it does.  \<open>extra\<close> is whatever
  else the visits keep.
\<close>

definition visited ::
    "(core \<Rightarrow> bool) \<Rightarrow> (core \<Rightarrow> delivery) \<Rightarrow> user \<Rightarrow> (notifier \<Rightarrow> bool) \<Rightarrow> core \<Rightarrow> notifier \<Rightarrow> (delivery list \<times> notifier) option \<Rightarrow> bool" where
  "visited due hand user extra d n res \<longleftrightarrow>
     (let gone = (if due d then set (removed_by (user (fst d))) else {}) in
      \<exists>n'. res = Some (if due d then [hand d] else [], n') \<and> ready n' \<and> extra n' \<and>
        fst ` set (packaged n') = fst ` set (packaged n) - gone \<and>
        todo n' = filter (\<lambda>e. fst e \<notin> gone) (todo n))"

locale visitor =
  fixes fn :: "callback \<Rightarrow> notifier \<Rightarrow> (delivery list \<times> notifier) option"
    and due :: "core \<Rightarrow> bool" and hand :: "core \<Rightarrow> delivery" and user :: user and extra :: "notifier \<Rightarrow> bool"
  assumes visit: "ready n \<Longrightarrow> extra n \<Longrightarrow> m_callback_index n < m_callback_count n \<Longrightarrow> m_callbacks n ! m_callback_index n = c \<Longrightarrow>
      (due (core c) \<Longrightarrow> distinct (removed_by (user (cb_token c))) \<and> set (removed_by (user (cb_token c))) \<subseteq> fst ` set (packaged n)) \<Longrightarrow>
      visited due hand user extra (core c) n (fn c n)"
    and extra_index: "extra n \<Longrightarrow> extra (n\<lparr>m_callback_index := i\<rparr>)"
begin

lemma next_callback:
  assumes "ready n" "todo n = d # ds"
  defines "n1 \<equiv> n\<lparr>m_callback_index := incr (m_callback_index n)\<rparr>"
  shows "m_callback_index n1 < m_callback_count n1" "m_callback_index n1 < length (m_callbacks n1)"
    "core (m_callbacks n1 ! m_callback_index n1) = d" "ready n1" "packaged n1 = packaged n" "todo n1 = ds"
proof -
  let ?i = "incr (m_callback_index n)"
  have len: "length (packaged n) = m_callback_count n" using assms(1) by (simp add: packaged_def ready_def min_def)
  have i: "?i < m_callback_count n" using assms(2) len unfolding todo_def by (metis drop_eq_Nil linorder_not_less list.distinct(1))
  then have l: "?i < length (m_callbacks n)" "?i < npos" using assms(1) by (auto simp: ready_def)
  show "m_callback_index n1 < m_callback_count n1" "m_callback_index n1 < length (m_callbacks n1)" using i l by (simp_all add: n1_def)
  show pk: "packaged n1 = packaged n" by (simp add: packaged_def n1_def)
  have d: "d # ds = packaged n ! ?i # drop (Suc ?i) (packaged n)"
    using assms(2) Cons_nth_drop_Suc [of ?i "packaged n"] i len by (simp add: todo_def)
  then show "core (m_callbacks n1 ! m_callback_index n1) = d" using i l by (simp add: packaged_def n1_def)
  show "todo n1 = ds" using d l by (simp add: todo_def pk) (simp add: n1_def incr_def)
  show "ready n1" using assms(1) i l by (simp add: ready_def sound_def n1_def)
qed

lemma loop_run:
  "ready n \<Longrightarrow> extra n \<Longrightarrow> todo n = filter (\<lambda>d. fst d \<notin> gone) ds \<Longrightarrow> fst ` set (packaged n) = P - gone \<Longrightarrow>
   removes_packaged due user P gone ds \<Longrightarrow>
   \<exists>n'. for_each_loop fn n = Some (map hand (deliveries due user gone ds), n') \<and> ready n' \<and> extra n' \<and> m_callback_index n' = npos \<and>
     fst ` set (packaged n') = P - gone_after due user gone ds"
proof (induction ds arbitrary: n gone)
  case Nil
  let ?n = "n\<lparr>m_callback_index := npos\<rparr>"
  have "m_callback_count n \<le> incr (m_callback_index n)"
    using Nil.prems(1,3) by (auto simp: todo_def packaged_def ready_def)
  then have "for_each_loop fn n = Some ([], ?n)" by (subst for_each_loop.simps) simp
  moreover have "ready ?n" "packaged ?n = packaged n" using Nil.prems(1) by (simp_all add: ready_def sound_def packaged_def)
  ultimately show ?case using Nil.prems(4) extra_index [OF Nil.prems(2)] by simp
next
  case (Cons d ds)
  show ?case
  proof (cases "fst d \<in> gone")
    case True
    then show ?thesis using Cons.IH [OF Cons.prems(1,2) _ Cons.prems(4)] Cons.prems(3,5) by simp
  next
    case False
    let ?n1 = "n\<lparr>m_callback_index := incr (m_callback_index n)\<rparr>"
    let ?c = "m_callbacks ?n1 ! m_callback_index ?n1"
    let ?rs = "if due d then set (removed_by (user (fst d))) else {}"
    have t: "todo n = d # filter (\<lambda>d. fst d \<notin> gone) ds" using Cons.prems(3) False by simp
    note n1 = next_callback [OF Cons.prems(1) t]
    have tok: "cb_token ?c = fst d" using arg_cong [OF n1(3), of fst] by (simp add: core_def)
    have "due d \<Longrightarrow> distinct (removed_by (user (fst d))) \<and> set (removed_by (user (fst d))) \<subseteq> fst ` set (packaged ?n1)"
      using Cons.prems(4,5) False n1(5) by (simp add: Let_def)
    then have "visited due hand user extra d ?n1 (fn ?c ?n1)"
      using visit [OF n1(4) extra_index [OF Cons.prems(2)] n1(1), of ?c] n1(3) tok by simp
    then obtain n2 where n2: "fn ?c ?n1 = Some (if due d then [hand d] else [], n2)" "ready n2" "extra n2"
      "fst ` set (packaged n2) = fst ` set (packaged ?n1) - ?rs" "todo n2 = filter (\<lambda>e. fst e \<notin> ?rs) (todo ?n1)"
      unfolding visited_def Let_def by blast
    let ?gone = "gone \<union> ?rs"
    have "todo n2 = filter (\<lambda>d. fst d \<notin> ?gone) ds" unfolding n2(5) n1(6) by (auto intro: filter_cong)
    moreover have "fst ` set (packaged n2) = P - ?gone" using n2(4) n1(5) Cons.prems(4) by auto
    moreover have "removes_packaged due user P ?gone ds" using Cons.prems(5) False by (auto simp: Let_def split: if_splits)
    ultimately obtain n' where n': "for_each_loop fn n2 = Some (map hand (deliveries due user ?gone ds), n')" "ready n'" "extra n'"
      "m_callback_index n' = npos" "fst ` set (packaged n') = P - gone_after due user ?gone ds"
      using Cons.IH [OF n2(2,3)] by blast
    have "for_each_loop fn n = Some ((if due d then [hand d] else []) @ map hand (deliveries due user ?gone ds), n')"
      using n1(1,2) n2(1) n'(1) by (subst for_each_loop.simps) (simp add: Let_def)
    then show ?thesis using n'(2-5) False by (auto split: if_splits)
  qed
qed

end

subsection \<open>Before and after an advance\<close>

lemma due_simps:
  "due_before (core c) \<longleftrightarrow> \<not> cs_empty (changes_to_deliver c)"
  "due_after (core c) \<longleftrightarrow> \<not> (initial_delivered c \<and> cs_empty (changes_to_deliver c))"
  "fst (core c) = cb_token c" "fst (snd (core c)) = changes_to_deliver c"
  by (simp_all add: due_before_def due_after_def core_def)

lemma packaged_index: "packaged (n\<lparr>m_callback_index := i\<rparr>) = packaged n"
  by (simp add: packaged_def)

lemma visited_skip: "\<not> due d \<Longrightarrow> ready n \<Longrightarrow> extra n \<Longrightarrow> visited due hand user extra d n (Some ([], n))"
  by (simp add: visited_def)

text \<open>Before an advance the packaged callbacks that are not removed stay as they are: some of \<open>A\<close>.\<close>

definition subset_of :: "core list \<Rightarrow> notifier \<Rightarrow> bool" where
  "subset_of A n \<longleftrightarrow> packaged n = filter (\<lambda>d. fst d \<in> fst ` set (packaged n)) A"

lemma subset_of_filter:
  assumes "subset_of A n" "packaged n' = filter (\<lambda>d. fst d \<notin> gone) (packaged n)"
  shows "subset_of A n'"
proof -
  have "fst ` set (packaged n') = fst ` set (packaged n) - gone" by (simp add: assms(2) fst_filter_gone)
  moreover have "packaged n' = filter (\<lambda>d. fst d \<in> fst ` set (packaged n) - gone) A"
    using assms(2) by (subst (asm) assms(1) [unfolded subset_of_def]) (simp add: conj_commute)
  ultimately show ?thesis unfolding subset_of_def by simp
qed

interpretation before: visitor "before_one user" due_before handed user "subset_of A" for user A
proof
  fix n c
  assume n: "ready n" "subset_of A n" and rs: "due_before (core c) \<Longrightarrow>
    distinct (removed_by (user (cb_token c))) \<and> set (removed_by (user (cb_token c))) \<subseteq> fst ` set (packaged n)"
  show "visited due_before handed user (subset_of A) (core c) n (before_one user c n)"
  proof (cases "due_before (core c)")
    case True
    then obtain n' where "foldM user_step (user (cb_token c)) n = Some n'" "ready n'"
      and p: "packaged n' = filter (\<lambda>d. fst d \<notin> set (removed_by (user (cb_token c)))) (packaged n)"
      "todo n' = filter (\<lambda>d. fst d \<notin> set (removed_by (user (cb_token c)))) (todo n)"
      using ready_user_run [OF n(1)] rs by blast
    then show ?thesis using True subset_of_filter [OF n(2) p(1)]
      by (auto simp: before_one_def visited_def due_simps handed_def fst_filter_gone)
  next
    case False
    then show ?thesis using visited_skip [of due_before "core c" n "subset_of A" handed user] n by (simp add: before_one_def due_simps)
  qed
next
  fix n i assume "subset_of A n"
  then show "subset_of A (n\<lparr>m_callback_index := i\<rparr>)" unfolding subset_of_def packaged_index .
qed

lemma ready_update:
  assumes "ready n" "m_callback_index n < m_callback_count n" "cb_token c' = cb_token (m_callbacks n ! m_callback_index n)"
  defines "n1 \<equiv> n\<lparr>m_callbacks := (m_callbacks n)[m_callback_index n := c']\<rparr>"
  shows "ready n1" "map fst (packaged n1) = map fst (packaged n)" "todo n1 = todo n"
proof -
  let ?i = "m_callback_index n"
  have tok: "map cb_token (m_callbacks n1) = map cb_token (m_callbacks n)"
    using assms(3) by (simp add: n1_def map_update list_update_same_conv) (metis list_update_id map_update)
  have "\<forall>c \<in> set (m_callbacks n1). cb_token c < m_next_token n1"
  proof -
    have "\<forall>t \<in> set (map cb_token (m_callbacks n1)). t < m_next_token n" using assms(1) unfolding tok by (simp add: ready_def sound_def)
    then show ?thesis by (simp add: n1_def)
  qed
  then show "ready n1" using assms(1,2) tok by (auto simp: ready_def sound_def n1_def)
  show "map fst (packaged n1) = map fst (packaged n)"
    using arg_cong [OF tok, of "take (m_callback_count n)"] by (simp add: packaged_def core_def comp_def take_map n1_def)
  have "?i < incr ?i" using assms(1,2) by (auto simp: incr_def ready_def)
  then show "todo n1 = todo n" by (simp add: todo_def packaged_def n1_def take_update_swap drop_map drop_update_cancel)
qed

interpretation after: visitor "after_one user" due_after handed user "\<lambda>_. True" for user
proof
  fix n c
  assume n: "ready n" "m_callback_index n < m_callback_count n" "m_callbacks n ! m_callback_index n = c"
    and rs: "due_after (core c) \<Longrightarrow>
      distinct (removed_by (user (cb_token c))) \<and> set (removed_by (user (cb_token c))) \<subseteq> fst ` set (packaged n)"
  let ?n = "n\<lparr>m_callbacks := (m_callbacks n)[m_callback_index n := c\<lparr>initial_delivered := True, changes_to_deliver := cs_default\<rparr>]\<rparr>"
  show "visited due_after handed user (\<lambda>_. True) (core c) n (after_one user c n)"
  proof (cases "due_after (core c)")
    case True
    note u = ready_update [OF n(1,2), of "c\<lparr>initial_delivered := True, changes_to_deliver := cs_default\<rparr>"]
    have t: "cb_token (c\<lparr>initial_delivered := True, changes_to_deliver := cs_default\<rparr>) = cb_token (m_callbacks n ! m_callback_index n)"
      using n(3) by simp
    have pk: "fst ` set (packaged ?n) = fst ` set (packaged n)" using u(2) [OF t] by (metis list.set_map)
    then obtain n' where "foldM user_step (user (cb_token c)) ?n = Some n'" "ready n'"
      "packaged n' = filter (\<lambda>d. fst d \<notin> set (removed_by (user (cb_token c)))) (packaged ?n)"
      "todo n' = filter (\<lambda>d. fst d \<notin> set (removed_by (user (cb_token c)))) (todo ?n)"
      using ready_user_run [OF u(1) [OF t], of "user (cb_token c)"] rs [OF True] by auto
    then show ?thesis using True pk u(3) [OF t]
      by (auto simp: after_one_def visited_def due_simps handed_def fst_filter_gone)
  next
    case False
    then show ?thesis using visited_skip [of due_after "core c" n "\<lambda>_. True" handed user] n by (simp add: after_one_def due_simps)
  qed
qed simp

subsection \<open>Errors\<close>

text \<open>A removed callback does not come back.\<close>

definition absent :: "nat \<Rightarrow> notifier \<Rightarrow> bool" where
  "absent t n \<longleftrightarrow> t < m_next_token n \<and> t \<notin> cb_token ` set (m_callbacks n)"

lemma remove_absent: "m_error n \<Longrightarrow> absent t n \<Longrightarrow> remove_callback t n = Some n"
proof -
  assume "m_error n" "absent t n"
  then have "takeWhile (\<lambda>c. cb_token c \<noteq> t) (m_callbacks n) = m_callbacks n" by (auto simp: takeWhile_eq_all_conv absent_def)
  then have "find_callback t n = Some (length (m_callbacks n))" using \<open>m_error n\<close>
    by (simp add: find_callback_def Let_def del: takeWhile_eq_all_conv)
  then show ?thesis by (simp add: remove_callback_def)
qed

lemma remove_absent_stays:
  assumes "absent t n" "remove_callback u n = Some n'"
  shows "absent t n'"
proof -
  obtain i where i: "find_callback u n = Some i" using assms(2) by (auto simp: remove_callback_def bind_eq_Some_conv)
  have "set (take i (m_callbacks n) @ drop (i + 1) (m_callbacks n)) \<subseteq> set (m_callbacks n)"
    using set_take_subset [of i "m_callbacks n"] set_drop_subset [of "i + 1" "m_callbacks n"] by auto
  then have "set (m_callbacks n') \<subseteq> set (m_callbacks n)" "m_next_token n' = m_next_token n"
    using assms(2) i by (auto simp: remove_callback_def split: if_splits dest: in_set_takeD in_set_dropD)
  then show ?thesis using assms(1) by (auto simp: absent_def)
qed

lemma absent_step: "absent t n \<Longrightarrow> user_step op n = Some n' \<Longrightarrow> absent t n'"
proof (cases op)
  case Op_add
  then show "absent t n \<Longrightarrow> user_step op n = Some n' \<Longrightarrow> absent t n'"
    using arg_cong [OF add_callback_facts(1) [of n], of set] by (auto simp: absent_def add_callback_facts(2))
next
  case (Op_remove u)
  then show "absent t n \<Longrightarrow> user_step op n = Some n' \<Longrightarrow> absent t n'" using remove_absent_stays [of t n u n'] by simp
qed

lemma absent_run: "absent t n \<Longrightarrow> foldM user_step ops n = Some n' \<Longrightarrow> absent t n'"
proof (induction ops arbitrary: n)
  case (Cons op ops)
  then obtain m where "user_step op n = Some m" "foldM user_step ops m = Some n'" by (auto simp: bind_eq_Some_conv)
  then show ?case using Cons.IH Cons.prems(1) absent_step by blast
qed simp

lemma remove_makes_absent:
  assumes "ready n" "t \<in> fst ` set (packaged n)" "remove_callback t n = Some n'"
  shows "absent t n'"
proof -
  have d: "distinct (map cb_token (m_callbacks n))" "\<forall>c \<in> set (m_callbacks n). cb_token c < m_next_token n"
    using assms(1) by (simp_all add: ready_def sound_def)
  obtain c where c: "c \<in> set (m_callbacks n)" "cb_token c = t"
    using assms(2) by (auto simp: packaged_def core_def dest: in_set_takeD)
  then obtain as bs where split: "m_callbacks n = as @ c # bs" by (meson split_list)
  have "m_callbacks n' = as @ bs" "m_next_token n' = m_next_token n"
    using assms(3) find_callback_Some [OF d(1) split] c(2) split by (auto simp: remove_callback_def)
  moreover have "t \<notin> cb_token ` set (as @ bs)" using d(1) c(2) unfolding split by auto
  moreover have "t < m_next_token n" using d(2) c by auto
  ultimately show ?thesis by (simp add: absent_def)
qed

lemma removed_absent:
  assumes "ready n" "distinct (removed_by ops)" "set (removed_by ops) \<subseteq> fst ` set (packaged n)"
    "t \<in> set (removed_by ops)" "foldM user_step ops n = Some n'"
  shows "absent t n'"
proof -
  have "Op_remove t \<in> set ops" using assms(4) by (auto simp: removed_by_def split: user_op.splits)
  then obtain xs ys where ops: "ops = xs @ Op_remove t # ys" by (meson split_list)
  have rb: "removed_by ops = removed_by xs @ t # removed_by ys" by (simp add: ops removed_by_def)
  obtain m where m: "foldM user_step xs n = Some m" "ready m"
    "packaged m = filter (\<lambda>d. fst d \<notin> set (removed_by xs)) (packaged n)"
    using ready_user_run [OF assms(1), of xs] assms(2,3) rb by auto
  then obtain m' where m': "remove_callback t m = Some m'" "foldM user_step ys m' = Some n'"
    using assms(5) by (auto simp: ops foldM_append bind_eq_Some_conv)
  have "t \<in> fst ` set (packaged m)" using assms(2,3) rb unfolding m(3) set_filter fst_filter_gone by auto
  then show ?thesis using absent_run [OF remove_makes_absent [OF m(2) _ m'(1)] m'(2)] by blast
qed

text \<open>After an error a callback is removed, if it has not removed itself.\<close>

definition with_own :: "user \<Rightarrow> user" where
  "with_own user t = user t @ (if t \<in> set (removed_by (user t)) then [] else [Op_remove t])"

definition hand_error :: "core \<Rightarrow> delivery" where
  "hand_error d = (fst d, cs_default)"

lemma removed_by_own: "set (removed_by (with_own user t)) = insert t (set (removed_by (user t)))"
  by (auto simp: with_own_def removed_by_def)

lemma error_one_own:
  assumes "ready n" "m_error n" "distinct (removed_by (with_own user (cb_token c)))"
    "set (removed_by (with_own user (cb_token c))) \<subseteq> fst ` set (packaged n)"
  shows "error_one user c n = map_option (Pair [(cb_token c, cs_default)]) (foldM user_step (with_own user (cb_token c)) n)"
proof (cases "cb_token c \<in> set (removed_by (user (cb_token c)))")
  case False
  then show ?thesis by (auto simp: error_one_def with_own_def foldM_append split: Option.bind_splits)
next
  case True
  let ?ops = "user (cb_token c)"
  have own: "with_own user (cb_token c) = ?ops" using True by (simp add: with_own_def)
  note p = assms(3,4) [unfolded own]
  obtain n' where n': "foldM user_step ?ops n = Some n'" "m_error n'" using ready_user_run [OF assms(1) p] assms(2) by auto
  show ?thesis using n' remove_absent [OF n'(2) removed_absent [OF assms(1) p True n'(1)]]
    by (simp add: error_one_def own)
qed

interpretation errors: visitor "error_one user" "\<lambda>_. True" hand_error "with_own user" m_error for user
proof
  fix n and c :: callback
  let ?ops = "with_own user (cb_token c)"
  assume n: "ready n" "m_error n" "m_callbacks n ! m_callback_index n = c" and rs: "True \<Longrightarrow> distinct (removed_by ?ops) \<and> set (removed_by ?ops) \<subseteq> fst ` set (packaged n)"
  obtain n' where "foldM user_step ?ops n = Some n'" "ready n'" "m_error n' = m_error n"
    "packaged n' = filter (\<lambda>d. fst d \<notin> set (removed_by ?ops)) (packaged n)"
    "todo n' = filter (\<lambda>d. fst d \<notin> set (removed_by ?ops)) (todo n)"
    using ready_user_run [OF n(1)] rs by blast
  then show "visited (\<lambda>_. True) hand_error (with_own user) m_error (core c) n (error_one user c n)"
    using n error_one_own [OF n(1,2), of user c] rs by (auto simp: visited_def due_simps hand_error_def fst_filter_gone)
qed simp

subsection \<open>Reachable states\<close>

inductive reachable :: "nat \<Rightarrow> notifier \<Rightarrow> bool" for mx where
  start: "reachable mx notifier_init"
| add: "reachable mx n \<Longrightarrow> reachable mx (snd (add_callback n))"
| remove: "reachable mx n \<Longrightarrow> remove_callback t n = Some n' \<Longrightarrow> reachable mx n'"
| suppress: "reachable mx n \<Longrightarrow> suppress_next_notification t n = Some n' \<Longrightarrow> reachable mx n'"
| changes: "reachable mx n \<Longrightarrow> add_changes mx change n = Some n' \<Longrightarrow> reachable mx n'"
| package: "reachable mx n \<Longrightarrow> package_for_delivery mx prepared n = Some (b, n') \<Longrightarrow> reachable mx n'"
| before: "reachable mx n \<Longrightarrow> before_advance user n = Some (made, n') \<Longrightarrow> reachable mx n'"
| after: "reachable mx n \<Longrightarrow> after_advance user n = Some (made, n') \<Longrightarrow> reachable mx n'"
| error: "reachable mx n \<Longrightarrow> deliver_error user n = Some (made, n') \<Longrightarrow> reachable mx n'"

lemma sound_same_tokens:
  assumes "sound n" "map cb_token cs = map cb_token (m_callbacks n)"
  shows "sound (n\<lparr>m_callbacks := cs\<rparr>)"
proof -
  have "length cs = length (m_callbacks n)" using assms(2) by (metis length_map)
  moreover have "\<forall>c \<in> set cs. cb_token c < m_next_token n"
  proof -
    have "\<forall>t \<in> set (map cb_token cs). t < m_next_token n" using assms(1) unfolding assms(2) by (simp add: sound_def)
    then show ?thesis by simp
  qed
  ultimately show ?thesis using assms by (auto simp: sound_def)
qed

lemma mapM_tokens: "mapM f cs = Some cs' \<Longrightarrow> (\<And>c c'. f c = Some c' \<Longrightarrow> cb_token c' = cb_token c) \<Longrightarrow> map cb_token cs' = map cb_token cs"
  by (induction cs arbitrary: cs') (auto simp: bind_eq_Some_conv)

definition keeps_sound :: "(callback \<Rightarrow> notifier \<Rightarrow> (delivery list \<times> notifier) option) \<Rightarrow> bool" where
  "keeps_sound fn \<longleftrightarrow> (\<forall>n made n'. sound n \<longrightarrow> m_callback_index n < length (m_callbacks n) \<longrightarrow>
     fn (m_callbacks n ! m_callback_index n) n = Some (made, n') \<longrightarrow> sound n')"

lemma loop_sound:
  "for_each_loop fn n = Some r \<Longrightarrow> keeps_sound fn \<Longrightarrow> sound n \<Longrightarrow> sound (snd r) \<and> m_callback_index (snd r) = npos"
proof (induction fn n r rule: for_each_loop.raw_induct [rotated 1, consumes 1, case_names visit])
  case (visit loop fn n r)
  let ?n1 = "n\<lparr>m_callback_index := incr (m_callback_index n)\<rparr>"
  show ?case
  proof (cases "m_callback_index ?n1 < m_callback_count ?n1")
    case False
    then have "r = ([], ?n1\<lparr>m_callback_index := npos\<rparr>)" using visit by (simp add: Let_def)
    then show ?thesis using visit by (simp add: sound_def)
  next
    case True
    then obtain made n2 rest n3 where i: "m_callback_index ?n1 < length (m_callbacks ?n1)"
      and n2: "fn (m_callbacks ?n1 ! m_callback_index ?n1) ?n1 = Some (made, n2)" "loop fn n2 = Some (rest, n3)" "r = (made @ rest, n3)"
      using visit(2) by (auto simp: Let_def bind_eq_Some_conv realm_assert_def split: if_splits)
    have p: "keeps_sound fn" "sound n" using visit by auto
    have "sound ?n1" using p(2) i by (simp add: sound_def)
    then have "sound n2" using p(1) i n2(1) unfolding keeps_sound_def by blast
    then show ?thesis using visit(1) [OF n2(2) p(1)] n2(3) by simp
  qed
qed

lemma sound_update:
  assumes "sound n" "cb_token c' = cb_token (m_callbacks n ! i)"
  shows "sound (n\<lparr>m_callbacks := (m_callbacks n)[i := c']\<rparr>)"
proof -
  have "map cb_token ((m_callbacks n)[i := c']) = map cb_token (m_callbacks n)"
    using assms(2) by (metis list_update_id map_update)
  then show ?thesis by (rule sound_same_tokens [OF assms(1)])
qed

lemma visits_keep_sound: "keeps_sound (before_one user)" "keeps_sound (after_one user)" "keeps_sound (error_one user)"
proof -
  show "keeps_sound (before_one user)"
    by (auto simp: keeps_sound_def before_one_def user_run_sound split: if_splits)
  show "keeps_sound (error_one user)"
    by (auto simp: keeps_sound_def error_one_def bind_eq_Some_conv intro: user_run_sound sound_remove)
  show "keeps_sound (after_one user)"
    unfolding keeps_sound_def
  proof (intro allI impI)
    fix n n' :: notifier and made
    let ?c = "m_callbacks n ! m_callback_index n"
    let ?n = "n\<lparr>m_callbacks := (m_callbacks n)[m_callback_index n := ?c\<lparr>initial_delivered := True, changes_to_deliver := cs_default\<rparr>]\<rparr>"
    assume n: "sound n" "after_one user ?c n = Some (made, n')"
    have "sound ?n" by (rule sound_update [OF n(1)]) simp
    then show "sound n'" using n by (auto simp: after_one_def Let_def intro: user_run_sound split: if_splits)
  qed
qed

lemma reachable_sound: "reachable mx n \<Longrightarrow> sound n \<and> m_callback_index n = npos"
proof (induction rule: reachable.induct)
  case start
  then show ?case by (simp add: notifier_init_def sound_def)
next
  case (add n)
  then show ?case using sound_add [of n] by (simp add: add_callback_def Let_def)
next
  case (remove n t n')
  then have "m_callback_index n' = npos" by (auto simp: remove_callback_def bind_eq_Some_conv Let_def split: if_splits)
  then show ?case using sound_remove [OF _ remove.hyps(2)] remove.IH by blast
next
  case (suppress n t n')
  then obtain i where i: "n' = (if i \<noteq> length (m_callbacks n)
      then n\<lparr>m_callbacks := (m_callbacks n)[i := (m_callbacks n ! i)\<lparr>skip_next := True\<rparr>]\<rparr> else n)"
    by (auto simp: suppress_next_notification_def bind_eq_Some_conv)
  show ?case unfolding i using suppress.IH sound_update [of n "(m_callbacks n ! i)\<lparr>skip_next := True\<rparr>" i] by simp
next
  case (changes n change n')
  then obtain cs where cs: "mapM (accumulate mx change) (m_callbacks n) = Some cs" "n' = n\<lparr>m_callbacks := cs\<rparr>"
    by (auto simp: add_changes_def)
  have "map cb_token cs = map cb_token (m_callbacks n)"
    by (rule mapM_tokens [OF cs(1)]) (auto simp: accumulate_def split: if_splits)
  then show ?case using changes.IH sound_same_tokens cs(2) by simp
next
  case (package n prepared b n')
  show ?case
  proof (cases prepared)
    case True
    then obtain cs where cs: "mapM (package_callback mx) (m_callbacks n) = Some cs" "n' = n\<lparr>m_callbacks := cs, m_callback_count := length cs\<rparr>"
      using package.hyps(2) by (auto simp: package_for_delivery_def)
    have "map cb_token cs = map cb_token (m_callbacks n)"
      by (rule mapM_tokens [OF cs(1)]) (auto simp: package_callback_def)
    then show ?thesis using package.IH sound_same_tokens [of n cs] cs(2) by (simp add: sound_def)
  qed (use package in \<open>simp add: package_for_delivery_def\<close>)
next
  case (before n user made n')
  then show ?case using loop_sound [OF _ visits_keep_sound(1)] by (fastforce simp: before_advance_def)
next
  case (after n user made n')
  then show ?case using loop_sound [OF _ visits_keep_sound(2)] by (fastforce simp: after_advance_def)
next
  case (error n user made n')
  have "sound (n\<lparr>m_error := True, m_callback_count := length (m_callbacks n)\<rparr>)" using error.IH by (simp add: sound_def)
  then show ?case using loop_sound [OF _ visits_keep_sound(3)] error.hyps(2) by (fastforce simp: deliver_error_def)
qed

subsection \<open>What a delivery does\<close>

text \<open>Packaged for delivery: the loop is not running and the count is that of packaged callbacks.\<close>

lemma packaged_ready:
  assumes "reachable mx n" "package_for_delivery mx True n = Some (True, n1)" "length (m_callbacks n) \<le> npos"
  shows "ready n1" "m_callback_index n1 = npos" "packaged n1 = map core (m_callbacks n1)"
proof -
  obtain cs where cs: "mapM (package_callback mx) (m_callbacks n) = Some cs" "n1 = n\<lparr>m_callbacks := cs, m_callback_count := length cs\<rparr>"
    using assms(2) by (auto simp: package_for_delivery_def)
  have "map cb_token cs = map cb_token (m_callbacks n)"
    by (rule mapM_tokens [OF cs(1)]) (auto simp: package_callback_def)
  then have "length cs = length (m_callbacks n)" by (metis length_map)
  moreover have "sound n1" "m_callback_index n1 = npos"
    using reachable_sound [OF reachable.package [OF assms(1,2)]] by simp_all
  ultimately show "ready n1" "m_callback_index n1 = npos" "packaged n1 = map core (m_callbacks n1)"
    using assms(3) cs(2) by (simp_all add: ready_def packaged_def)
qed

lemma todo_start: "m_callback_index n = npos \<Longrightarrow> todo n = packaged n"
  by (simp add: todo_def incr_def)

lemma before_advance_delivers:
  assumes "ready n" "m_callback_index n = npos"
    "removes_packaged due_before user (fst ` set (packaged n)) {} (packaged n)"
  shows "\<exists>n'. before_advance user n = Some (map handed (deliveries due_before user {} (packaged n)), n') \<and>
    ready n' \<and> m_callback_index n' = npos \<and>
    packaged n' = filter (\<lambda>d. fst d \<notin> gone_after due_before user {} (packaged n)) (packaged n)"
proof -
  have "subset_of (packaged n) n" by (simp add: subset_of_def)
  then obtain n' where n': "before_advance user n = Some (map handed (deliveries due_before user {} (packaged n)), n')"
    "ready n'" "subset_of (packaged n) n'" "m_callback_index n' = npos"
    "fst ` set (packaged n') = fst ` set (packaged n) - gone_after due_before user {} (packaged n)"
    using before.loop_run [of n "packaged n" "{}" "packaged n" "fst ` set (packaged n)" user] assms todo_start [OF assms(2)]
    by (auto simp: before_advance_def)
  have "packaged n' = filter (\<lambda>d. fst d \<in> fst ` set (packaged n) - gone_after due_before user {} (packaged n)) (packaged n)"
    using n'(3,5) by (simp add: subset_of_def)
  also have "\<dots> = filter (\<lambda>d. fst d \<notin> gone_after due_before user {} (packaged n)) (packaged n)"
    by (rule filter_cong) auto
  finally show ?thesis using n'(1,2,4) by blast
qed

lemma after_advance_delivers:
  assumes "ready n" "m_callback_index n = npos"
    "removes_packaged due_after user (fst ` set (packaged n)) {} (packaged n)"
  shows "\<exists>n'. after_advance user n = Some (map handed (deliveries due_after user {} (packaged n)), n') \<and>
    ready n' \<and> m_callback_index n' = npos \<and>
    fst ` set (packaged n') = fst ` set (packaged n) - gone_after due_after user {} (packaged n)"
  using after.loop_run [of n "{}" "packaged n" "fst ` set (packaged n)" user] assms todo_start [OF assms(2)]
  by (auto simp: after_advance_def)

lemma package_delivers:
  assumes "reachable mx n" "package_for_delivery mx True n = Some (True, n1)" "length (m_callbacks n) \<le> npos"
    and cs: "cs = map core (m_callbacks n1)" and rest: "rest = filter (\<lambda>d. fst d \<notin> gone_after due_before user1 {} cs) cs"
    and "removes_packaged due_before user1 (fst ` set cs) {} cs" "removes_packaged due_after user2 (fst ` set rest) {} rest"
  shows "\<exists>n2 n3. before_advance user1 n1 = Some (map handed (deliveries due_before user1 {} cs), n2) \<and>
    after_advance user2 n2 = Some (map handed (deliveries due_after user2 {} rest), n3) \<and>
    m_callback_index n3 = npos \<and> (m_have_callbacks n3 \<longleftrightarrow> m_callbacks n3 \<noteq> [])"
proof -
  note p = packaged_ready [OF assms(1-3)]
  obtain n2 where n2: "before_advance user1 n1 = Some (map handed (deliveries due_before user1 {} cs), n2)"
    "ready n2" "m_callback_index n2 = npos" "packaged n2 = rest"
    using before_advance_delivers [OF p(1,2), of user1] assms(6) unfolding p(3) cs [symmetric] rest by blast
  obtain n3 where "after_advance user2 n2 = Some (map handed (deliveries due_after user2 {} rest), n3)"
    "ready n3" "m_callback_index n3 = npos"
    using after_advance_delivers [OF n2(2,3), of user2] assms(7) unfolding n2(4) by blast
  then show ?thesis using n2(1) by (auto simp: ready_def sound_def)
qed

lemma gone_after_own:
  "gone \<subseteq> gone_after (\<lambda>_. True) (with_own user) gone ds \<and> fst ` set ds \<subseteq> gone_after (\<lambda>_. True) (with_own user) gone ds"
proof (induction ds arbitrary: gone)
  case (Cons d ds)
  show ?case using Cons.IH [of gone] Cons.IH [of "gone \<union> set (removed_by (with_own user (fst d)))"]
    by (auto simp: removed_by_own)
qed simp

text \<open>After an error every callback has been told and none of them is left.\<close>

lemma error_delivers:
  assumes "reachable mx n" "length (m_callbacks n) \<le> npos"
  defines "cs \<equiv> map core (m_callbacks n)"
  assumes "removes_packaged (\<lambda>_. True) (with_own user) (fst ` set cs) {} cs"
  shows "\<exists>n'. deliver_error user n = Some (map hand_error (deliveries (\<lambda>_. True) (with_own user) {} cs), n') \<and>
    packaged n' = [] \<and> m_callback_index n' = npos \<and> (m_have_callbacks n' \<longleftrightarrow> m_callbacks n' \<noteq> [])"
proof -
  let ?n = "n\<lparr>m_error := True, m_callback_count := length (m_callbacks n)\<rparr>"
  have n: "ready ?n" "m_callback_index ?n = npos" "packaged ?n = cs" "m_error ?n"
    using reachable_sound [OF assms(1)] assms(2) by (simp_all add: ready_def sound_def packaged_def cs_def)
  obtain n' where n': "deliver_error user n = Some (map hand_error (deliveries (\<lambda>_. True) (with_own user) {} cs), n')"
    "ready n'" "m_callback_index n' = npos"
    "fst ` set (packaged n') = fst ` set cs - gone_after (\<lambda>_. True) (with_own user) {} cs"
    using errors.loop_run [of ?n "{}" cs "fst ` set cs" user] n todo_start [OF n(2)] assms(4)
    by (auto simp: deliver_error_def)
  have "fst ` set (packaged n') = {}" using gone_after_own [of "{}" user cs] unfolding n'(4) by (simp add: Diff_eq_empty_iff)
  then have "packaged n' = []" by simp
  then show ?thesis using n' by (auto simp: ready_def sound_def)
qed

subsection \<open>Callbacks added and removed in the same call\<close>

text \<open>
  The count goes down for any removed callback, also for one that was registered after the packaging and was never
  part of it.  With two callbacks the second one is not called and its changes are lost; with one the count wraps
  and the loop reads beyond the vector.
\<close>

definition two_callbacks :: notifier where
  "two_callbacks = snd (add_callback (snd (add_callback notifier_init)))"

definition add_and_remove :: "nat \<Rightarrow> user" where
  "add_and_remove t = (\<lambda>u. if u = 0 then [Op_add, Op_remove t] else [])"

lemma loop_end: "\<not> incr (m_callback_index n) < m_callback_count n \<Longrightarrow> for_each_loop fn n = Some ([], n\<lparr>m_callback_index := npos\<rparr>)"
  by (subst for_each_loop.simps) simp

lemma loop_visit:
  "incr (m_callback_index n) < m_callback_count n \<Longrightarrow>
   for_each_loop fn n = do {
     let n1 = n\<lparr>m_callback_index := incr (m_callback_index n)\<rparr>;
     realm_assert (m_callback_index n1 < length (m_callbacks n1));
     (made, n2) \<leftarrow> fn (m_callbacks n1 ! m_callback_index n1) n1;
     (rest, n3) \<leftarrow> for_each_loop fn n2;
     Some (made @ rest, n3)
   }"
  by (subst for_each_loop.simps) (simp add: Let_def)

lemmas callback_run =
  loop_visit loop_end after_advance_def after_one_def before_advance_def before_one_def
  incr_def decr_def add_callback_def find_callback_def remove_callback_def notifier_init_def npos_def

lemma finalize_default: "cb_finalize mx cb_default = Some cs_default"
  by (simp add: cb_finalize_def cb_default_def cs_default_def is_remove_set_def is_shift_for_insert_at_set_def is_erase_at_set_def)

lemma two_packaged: "package_for_delivery mx True two_callbacks = Some (True, two_callbacks\<lparr>m_callback_count := 2\<rparr>)"
  by (simp add: two_callbacks_def callback_run package_for_delivery_def package_callback_def finalize_default)
    (simp add: cb_default_def)

lemma removal_skips_callback:
  "\<exists>n. after_advance (\<lambda>_. []) (two_callbacks\<lparr>m_callback_count := 2\<rparr>) = Some ([(0, cs_default), (1, cs_default)], n)"
  "\<exists>n. after_advance (add_and_remove 2) (two_callbacks\<lparr>m_callback_count := 2\<rparr>) = Some ([(0, cs_default)], n)"
  by (simp_all add: two_callbacks_def callback_run add_and_remove_def)

lemma removal_reads_beyond:
  "after_advance (\<lambda>u. [Op_add, Op_remove 1, Op_add, Op_remove 2]) ((snd (add_callback notifier_init))\<lparr>m_callback_count := 1\<rparr>) = None"
  by (simp add: callback_run)

end
