(* ===== verification/Notifiers.thy ===== *)
theory Notifiers
  imports Related_Tables Log_Observer
begin

text \<open>
  The notifiers of link lists, lists of primitives and single objects (\<open>impl/list_notifier.cpp\<close>,
  \<open>impl/primitive_list_notifier.cpp\<close>, \<open>impl/object_notifier.cpp\<close>): what they ask of the next transaction and
  what they add to the change that it left for them.

  The accessor a notifier holds is data of the database: the rows a list links to, or nothing when its owner was
  deleted; the place of an object.
\<close>

subsection \<open>What a notifier asks for\<close>

text \<open>\<open>find_container_column\<close>: the cell is found in one of the columns, anything else is unreachable.\<close>

definition find_container_column :: "(nat \<Rightarrow> bool) \<Rightarrow> nat \<Rightarrow> nat option" where
  "find_container_column holds count = find holds [0..<count]"

definition set_flag :: "nat \<Rightarrow> bool list \<Rightarrow> bool list" where
  "set_flag i flags = (if length flags \<le> i then resize False (i + 1) flags else flags)[i := True]"

text \<open>\<open>CollectionNotifier::add_required_change_info\<close>, with the result of \<open>do_add_required_change_info\<close>.\<close>

definition add_required_change_info :: "related_table list \<Rightarrow> bool \<times> change_info \<Rightarrow> change_info" where
  "add_required_change_info rel r =
     (let (needed, info) = r in
      if \<not> needed \<or> rel = [] then info
      else let ndx = Max (set (map rt_table_ndx rel));
               flags = (if length (table_modifications_needed info) \<le> ndx
                        then resize False (ndx + 1) (table_modifications_needed info) else table_modifications_needed info)
           in info\<lparr>table_modifications_needed := fold (\<lambda>tbl flags. flags[rt_table_ndx tbl := True]) rel flags\<rparr>)"

text \<open>A list at the given table and row, found by \<open>holds\<close> among \<open>count\<close> columns, with its builder at an address.\<close>

definition list_required :: "(nat \<times> nat \<times> nat \<times> (nat \<Rightarrow> bool)) option \<Rightarrow> nat \<Rightarrow> change_info \<Rightarrow> (bool \<times> change_info) option" where
  "list_required place change info = (case place of
     None \<Rightarrow> Some (False, info)
   | Some (table_ndx, row_ndx, count, holds) \<Rightarrow> do {
       col_ndx \<leftarrow> find_container_column holds count;
       Some (True, info\<lparr>lists := lists info @
         [\<lparr>li_table_ndx = table_ndx, li_row_ndx = row_ndx, li_col_ndx = col_ndx, li_changes = change\<rparr>]\<rparr>) })"

datatype object_row = No_object | Detached | Attached nat nat

definition object_required :: "object_row \<Rightarrow> change_info \<Rightarrow> bool \<times> change_info" where
  "object_required row info = (case row of
     Attached table_ndx _ \<Rightarrow> (False, info\<lparr>table_modifications_needed := set_flag table_ndx (table_modifications_needed info)\<rparr>)
   | _ \<Rightarrow> (False, info))"

subsection \<open>Lists\<close>

record list_notifier =
  m_prev_size :: nat
  m_change :: change_builder

text \<open>The list is gone: all its rows are reported as deleted, once.\<close>

definition list_gone :: "nat \<Rightarrow> list_notifier \<Rightarrow> list_notifier option" where
  "list_gone mx n =
     (if m_prev_size n \<noteq> 0 then do {
        d \<leftarrow> is_set mx (m_prev_size n) (deletions (m_change n));
        Some (n\<lparr>m_change := (m_change n)\<lparr>deletions := d\<rparr>, m_prev_size := 0\<rparr>)
      }
      else Some (n\<lparr>m_change := cb_default\<rparr>))"

text \<open>One question to the checker that \<open>get_modification_checker\<close> returned.\<close>

definition ask :: "nat \<Rightarrow> group_view \<Rightarrow> related_table list \<Rightarrow> change_info \<Rightarrow> nat \<Rightarrow> modification_checker \<Rightarrow>
    nat \<Rightarrow> checker \<Rightarrow> (bool \<times> checker) option" where
  "ask mx g rel info root checker ndx st = (case checker of
     No_row \<Rightarrow> Some (False, st)
   | Rows_of t \<Rightarrow> Some (is_contains (modifications (tables info ! t)) ndx, st)
   | Deep \<Rightarrow> deep_check mx g rel info root ndx st)"

definition mark_row :: "nat \<Rightarrow> (nat \<Rightarrow> checker \<Rightarrow> (bool \<times> checker) option) \<Rightarrow> nat list \<Rightarrow> nat \<Rightarrow> crv \<times> checker \<Rightarrow> (crv \<times> checker) option" where
  "mark_row mx did_change lv i = (\<lambda>(mods, st).
     if is_contains mods i then Some (mods, st)
     else do {
       realm_assert (i < length lv);
       (b, st) \<leftarrow> did_change (lv ! i) st;
       if b then do { mods \<leftarrow> is_add mx i mods; Some (mods, st) } else Some (mods, st)
     })"

text \<open>The related tables are looked up again when the schema has changed.\<close>

definition current_related :: "table_columns \<Rightarrow> nat \<Rightarrow> change_info \<Rightarrow> nat \<Rightarrow> related_table list \<Rightarrow> related_table list option" where
  "current_related cols fuel info root rel =
     (if schema_changed info then find_related_tables cols fuel [] root else Some rel)"

definition list_run :: "nat \<Rightarrow> table_columns \<Rightarrow> nat \<Rightarrow> group_view \<Rightarrow> change_info \<Rightarrow> nat \<Rightarrow> related_table list \<Rightarrow>
    nat list option \<Rightarrow> list_notifier \<Rightarrow> list_notifier option" where
  "list_run mx cols fuel g info root rel0 list n = (case list of
     None \<Rightarrow> list_gone mx n
   | Some lv \<Rightarrow> do {
       rel \<leftarrow> current_related cols fuel info root rel0;
       let did_change = ask mx g rel info root (get_modification_checker info rel);
       (mods, st) \<leftarrow> foldM (mark_row mx did_change lv) [0..<length lv] (modifications (m_change n), checker_init);
       (mods, st) \<leftarrow> foldM (\<lambda>m. mark_row mx did_change lv (mv_to m)) (moves (m_change n)) (mods, st);
       Some (n\<lparr>m_change := (m_change n)\<lparr>modifications := mods\<rparr>, m_prev_size := length lv\<rparr>)
     })"

text \<open>A cleared table claims to have had the largest number of rows; its real size is filled in.\<close>

definition primitive_list_run :: "nat \<Rightarrow> nat option \<Rightarrow> list_notifier \<Rightarrow> list_notifier option" where
  "primitive_list_run mx table n = (case table of
     None \<Rightarrow> list_gone mx n
   | Some n_rows \<Rightarrow> do {
       d \<leftarrow> (let d = deletions (m_change n) in
            if d \<noteq> [] \<and> snd (hd (c_data (hd d))) = npos then is_set mx (m_prev_size n) d else Some d);
       Some (n\<lparr>m_change := (m_change n)\<lparr>deletions := d\<rparr>, m_prev_size := n_rows\<rparr>)
     })"

subsection \<open>Objects\<close>

record object_notifier =
  m_row :: object_row
  m_object_change :: change_builder

definition object_col :: "nat \<Rightarrow> nat \<Rightarrow> crv \<Rightarrow> crv list \<Rightarrow> crv list option" where
  "object_col mx ndx col cols =
     (if is_contains col ndx then do { c \<leftarrow> is_add mx 0 []; Some (cols @ [c]) } else Some (cols @ [[]]))"

definition object_run :: "nat \<Rightarrow> change_info \<Rightarrow> object_notifier \<Rightarrow> object_notifier option" where
  "object_run mx info n = (case m_row n of
     No_object \<Rightarrow> Some n
   | Detached \<Rightarrow> do {
       d \<leftarrow> is_add mx 0 (deletions (m_object_change n));
       Some (n\<lparr>m_object_change := (m_object_change n)\<lparr>deletions := d\<rparr>, m_row := No_object\<rparr>) }
   | Attached table_ndx ndx \<Rightarrow>
       (if length (tables info) \<le> table_ndx then Some n
        else let change = tables info ! table_ndx in
          if \<not> is_contains (modifications change) ndx then Some n
          else do {
            m \<leftarrow> is_add mx 0 (modifications (m_object_change n));
            cols \<leftarrow> foldM (object_col mx ndx) (columns change) (columns (m_object_change n));
            Some (n\<lparr>m_object_change := (m_object_change n)\<lparr>modifications := m, columns := cols\<rparr>\<rparr>)
          }))"

subsection \<open>The rows a list notifier marks\<close>

definition row_changed :: "group_view \<Rightarrow> related_table list \<Rightarrow> change_info \<Rightarrow> nat \<Rightarrow> nat \<Rightarrow> bool" where
  "row_changed g rel info root ndx \<longleftrightarrow> changed info (root, ndx) \<or> reaches g rel info (max_depth - 1) (root, ndx)"

lemma ask_answers:
  assumes mx: "max_size_ok mx" and k: "links_known cols rel" "view_ok cols g" "has_table rel root"
    and alone: "length rel = 1 \<longrightarrow> root \<notin> link_tables cols root (length (cols root))"
  shows "answers (row_changed g rel info root) (cache_ok mx g rel info) (ask mx g rel info root (get_modification_checker info rel))"
proof (cases "get_modification_checker info rel")
  case Deep
  then show ?thesis using deep_check_exact by (simp add: answers_def ask_def row_changed_def)
next
  case No_row
  have "row_did_change mx g rel info root No_row [ndx] = Some [row_changed g rel info root ndx]" for ndx
    using checker_exact [OF mx k alone, of info "[ndx]"] by (simp add: No_row row_changed_def)
  then show ?thesis by (simp add: No_row answers_def ask_def row_did_change_def)
next
  case (Rows_of t)
  have "row_did_change mx g rel info root (Rows_of t) [ndx] = Some [row_changed g rel info root ndx]" for ndx
    using checker_exact [OF mx k alone, of info "[ndx]"] by (simp add: Rows_of row_changed_def)
  then show ?thesis by (simp add: Rows_of answers_def ask_def row_did_change_def)
qed

lemma mark_rows:
  assumes mx: "max_size_ok mx" and ans: "answers R S f" and rows: "\<forall>x \<in> set xs. row x < length lv"
    and st: "index_set_ok mx mods" "S st"
  shows "\<exists>mods' st'. foldM (\<lambda>x. mark_row mx f lv (row x)) xs (mods, st) = Some (mods', st') \<and> index_set_ok mx mods' \<and> S st' \<and>
    indexes mods' = indexes mods \<union> {i \<in> row ` set xs. R (lv ! i)}"
proof -
  let ?I = "\<lambda>done (mods', st'). index_set_ok mx mods' \<and> S st' \<and> indexes mods' = indexes mods \<union> {i \<in> row ` set done. R (lv ! i)}"
  have "\<exists>t. foldM (\<lambda>x. mark_row mx f lv (row x)) xs (mods, st) = Some t \<and> ?I xs t"
  proof (rule foldM_invariant [where I = ?I])
    show "?I [] (mods, st)" using st by simp
  next
    fix as x bs t
    assume split: "xs = as @ x # bs" and I: "?I as t"
    obtain m u where t: "t = (m, u)" by (cases t)
    have m: "index_set_ok mx m" "S u" "indexes m = indexes mods \<union> {i \<in> row ` set as. R (lv ! i)}" using I t by auto
    have x: "row x < length lv" using rows split by simp
    show "\<exists>t'. mark_row mx f lv (row x) t = Some t' \<and> ?I (as @ [x]) t'"
    proof (cases "row x \<in> indexes m")
      case True
      then have "indexes m = indexes mods \<union> {i \<in> row ` set (as @ [x]). R (lv ! i)}" using m(3) by auto
      then show ?thesis using True m t by (simp add: mark_row_def is_contains_iff)
    next
      case False
      obtain u' where u': "f (lv ! row x) u = Some (R (lv ! row x), u')" "S u'" using ans m(2) by (auto simp: answers_def)
      obtain m' where "is_add mx (row x) m = Some m'" "index_set_ok mx m'" "indexes m' = insert (row x) (indexes m)"
        using is_add_correct [OF m(1) mx] by blast
      then show ?thesis using False m t u' x by (auto simp: mark_row_def is_contains_iff)
    qed
  qed
  then show ?thesis by auto
qed

lemma list_run_marks:
  assumes mx: "max_size_ok mx" and k: "links_known cols rel" "view_ok cols g" "has_table rel root"
    and alone: "length rel = 1 \<longrightarrow> root \<notin> link_tables cols root (length (cols root))"
    and rel: "current_related cols fuel info root rel0 = Some rel"
    and n: "index_set_ok mx (modifications (m_change n))" "\<forall>m \<in> set (moves (m_change n)). mv_to m < length lv"
  shows "\<exists>mods. list_run mx cols fuel g info root rel0 (Some lv) n =
      Some (n\<lparr>m_change := (m_change n)\<lparr>modifications := mods\<rparr>, m_prev_size := length lv\<rparr>) \<and> index_set_ok mx mods \<and>
    indexes mods = indexes (modifications (m_change n)) \<union> {i. i < length lv \<and> row_changed g rel info root (lv ! i)}"
proof -
  let ?f = "ask mx g rel info root (get_modification_checker info rel)"
  note ans = ask_answers [OF mx k alone, of info]
  obtain m1 st1 where m1: "foldM (mark_row mx ?f lv) [0..<length lv] (modifications (m_change n), checker_init) = Some (m1, st1)"
    "index_set_ok mx m1" "cache_ok mx g rel info st1"
    "indexes m1 = indexes (modifications (m_change n)) \<union> {i \<in> {..<length lv}. row_changed g rel info root (lv ! i)}"
    using mark_rows [OF mx ans, of "[0..<length lv]" "\<lambda>i. i" lv, OF _ n(1) checker_init_ok [OF mx]]
    by (auto simp: atLeast0LessThan)
  obtain m2 st2 where m2: "foldM (\<lambda>m. mark_row mx ?f lv (mv_to m)) (moves (m_change n)) (m1, st1) = Some (m2, st2)"
    "index_set_ok mx m2" "indexes m2 = indexes m1 \<union> {i \<in> mv_to ` set (moves (m_change n)). row_changed g rel info root (lv ! i)}"
    using mark_rows [OF mx ans n(2) m1(2,3)] by blast
  have "indexes m2 = indexes m1" using m2(3) m1(4) n(2) by auto
  then show ?thesis using m1 m2 rel by (intro exI [of _ m2]) (auto simp: list_run_def)
qed

lemma list_run_gone:
  assumes "max_size_ok mx" "list_run mx cols fuel g info root rel None n = Some n1"
  shows "m_prev_size n1 = 0" "m_prev_size n \<noteq> 0 \<Longrightarrow> indexes (deletions (m_change n1)) = {..<m_prev_size n}"
    "list_run mx cols fuel g info root rel None n1 = Some (n1\<lparr>m_change := cb_default\<rparr>)"
proof -
  obtain d where d: "is_set mx (m_prev_size n) (deletions (m_change n)) = Some d" "indexes d = {..<m_prev_size n}"
    using is_set_correct [OF assms(1)] by blast
  have n1: "n1 = (if m_prev_size n \<noteq> 0 then n\<lparr>m_change := (m_change n)\<lparr>deletions := d\<rparr>, m_prev_size := 0\<rparr> else n\<lparr>m_change := cb_default\<rparr>)"
    using assms(2) d(1) by (simp add: list_run_def list_gone_def split: if_splits)
  show z: "m_prev_size n1 = 0" by (simp add: n1)
  show "m_prev_size n \<noteq> 0 \<Longrightarrow> indexes (deletions (m_change n1)) = {..<m_prev_size n}" using d(2) by (simp add: n1)
  show "list_run mx cols fuel g info root rel None n1 = Some (n1\<lparr>m_change := cb_default\<rparr>)"
    using z by (simp add: list_run_def list_gone_def)
qed

subsection \<open>Flags asked for\<close>

lemma is_set_flag_update: "is_set_flag (flags[i := True]) j \<longleftrightarrow> j < length flags \<and> j = i \<or> is_set_flag flags j"
  by (cases "i = j") (auto simp: is_set_flag_def)

lemma fold_flags:
  "length (fold (\<lambda>tbl flags. flags[rt_table_ndx tbl := True]) rel flags) = length flags \<and>
   (is_set_flag (fold (\<lambda>tbl flags. flags[rt_table_ndx tbl := True]) rel flags) j \<longleftrightarrow>
      j < length flags \<and> has_table rel j \<or> is_set_flag flags j)"
  by (induction rel arbitrary: flags) (auto simp: is_set_flag_update has_table_def)

lemma is_set_flag_resize: "length flags \<le> n \<Longrightarrow> is_set_flag (resize False n flags) j = is_set_flag flags j"
  by (auto simp: is_set_flag_def resize_def nth_append)

lemma required_flags:
  assumes "rel \<noteq> []"
  shows "is_set_flag (table_modifications_needed (add_required_change_info rel (True, info))) j \<longleftrightarrow>
    has_table rel j \<or> is_set_flag (table_modifications_needed info) j"
proof -
  let ?M = "Max (set (map rt_table_ndx rel))" and ?fs = "table_modifications_needed info"
  let ?flags = "if length ?fs \<le> ?M then resize False (?M + 1) ?fs else ?fs"
  have "has_table rel j \<Longrightarrow> j \<le> ?M" by (rule Max_ge) (auto simp: has_table_iff tables_in_def)
  moreover have "?M < length ?flags" by (simp add: resize_def)
  ultimately have "has_table rel j \<Longrightarrow> j < length ?flags" by linarith
  moreover have "is_set_flag ?flags j = is_set_flag ?fs j" by (simp add: is_set_flag_resize)
  ultimately show ?thesis using fold_flags [of rel ?flags j] assms
    by (auto simp: add_required_change_info_def Let_def simp del: list.set_map)
qed

subsection \<open>What is reported of an object\<close>

lemma object_cols:
  assumes mx: "max_size_ok mx"
  shows "\<exists>cs. foldM (object_col mx ndx) cols acc = Some (acc @ cs) \<and> length cs = length cols \<and>
    (\<forall>c < length cols. index_set_ok mx (cs ! c) \<and> indexes (cs ! c) = (if is_contains (cols ! c) ndx then {0} else {}))"
proof (induction cols arbitrary: acc)
  case Nil
  then show ?case by simp
next
  case (Cons col cols)
  have e: "index_set_ok mx []" "indexes [] = {}" by (simp_all add: index_set_ok_def crv_ok_def indexes_def flat_def)
  obtain z where z: "object_col mx ndx col acc = Some (acc @ [z])" "index_set_ok mx z"
    "indexes z = (if is_contains col ndx then {0} else {})"
    using is_add_correct [OF e(1) mx, of 0] e by (cases "is_contains col ndx") (auto simp: object_col_def)
  obtain cs where "foldM (object_col mx ndx) cols (acc @ [z]) = Some ((acc @ [z]) @ cs)" "length cs = length cols"
    "\<forall>c < length cols. index_set_ok mx (cs ! c) \<and> indexes (cs ! c) = (if is_contains (cols ! c) ndx then {0} else {})"
    using Cons.IH by blast
  then show ?case using z by (intro exI [of _ "z # cs"]) (auto simp: nth_Cons split: nat.split)
qed

text \<open>From an empty change: the object is modified if its row is, in the columns in which its row is.\<close>

lemma object_run_reports:
  assumes "max_size_ok mx" "m_row n = Attached t r" "m_object_change n = cb_default"
  shows "\<exists>n'. object_run mx info n = Some n' \<and> m_row n' = m_row n \<and>
    (if t < length (tables info) \<and> modified (tables info ! t) r
     then indexes (modifications (m_object_change n')) = {0} \<and> length (columns (m_object_change n')) = length (columns (tables info ! t)) \<and>
       (\<forall>c < length (columns (tables info ! t)).
          indexes (columns (m_object_change n') ! c) = (if col_modified (tables info ! t) c r then {0} else {}))
     else m_object_change n' = cb_default)"
proof (cases "t < length (tables info) \<and> modified (tables info ! t) r")
  case False
  then show ?thesis using assms(2,3) by (auto simp: object_run_def modified_def)
next
  case True
  have e: "index_set_ok mx []" "indexes [] = {}" by (simp_all add: index_set_ok_def crv_ok_def indexes_def flat_def)
  obtain m where m: "is_add mx 0 (modifications (m_object_change n)) = Some m" "indexes m = {0}"
    using is_add_correct [OF e(1) assms(1), of 0] e(2) assms(3) by (auto simp: cb_default_def)
  have c: "columns (m_object_change n) = []" using assms(3) by (simp add: cb_default_def)
  show ?thesis using True m assms(2) object_cols [OF assms(1), of r "columns (tables info ! t)" "[]"]
    by (auto simp: object_run_def modified_def col_modified_def c)
qed

end
