(* ===== verification/Longest_Match.thy ===== *)
theory Longest_Match
  imports Index_Set_Shift "HOL-Library.Product_Lexorder"
begin

text \<open>
  \<open>LongestCommonSubsequenceCalculator\<close> (\<open>impl/collection_change_builder.cpp\<close>): blocks of rows that two sequences
  have in common, found by taking the longest one and going on to the left and to the right of it.

  \<open>a\<close> is the first sequence; \<open>b\<close> has the rows of the second one with their positions, sorted by row.  Indices are
  small enough not to wrap, except where the code counts the modified rows of a block: there it takes the first
  position of the best block so far for its last.
\<close>

record lcs_row =
  lr_row_index :: nat
  lr_tv_index :: nat

record lcs_match =
  mt_i :: nat
  mt_j :: nat
  mt_size :: nat
  mt_modified :: nat

text \<open>The size of the block that ends at \<open>j\<close>, from the blocks that end in the row before.\<close>

definition block_length :: "(nat \<times> nat) list \<Rightarrow> nat \<Rightarrow> nat" where
  "block_length prev j = (case find (\<lambda>pair. fst pair + 1 = j) prev of Some pair \<Rightarrow> snd pair + 1 | None \<Rightarrow> 1)"

definition b_matches :: "lcs_row list \<Rightarrow> nat \<Rightarrow> nat \<Rightarrow> nat \<Rightarrow> nat list option" where
  "b_matches b begin2 end2 ai = do {
     let it = dropWhile (\<lambda>r. lr_row_index r < ai) b;
     realm_assert (it \<noteq> [] \<and> lr_row_index (hd it) = ai);
     Some (filter (\<lambda>j. begin2 \<le> j) (takeWhile (\<lambda>j. j < begin2 \<or> j < end2)
       (map lr_tv_index (takeWhile (\<lambda>r. lr_row_index r = ai) it))))
   }"

text \<open>\<open>j - size + 1\<close> in \<open>size_t\<close>.\<close>

definition block_start :: "nat \<Rightarrow> nat \<Rightarrow> nat" where
  "block_start j n = (j + 1 + 2 ^ 64 - n) mod 2 ^ 64"

definition better :: "crv \<Rightarrow> nat \<Rightarrow> nat \<Rightarrow> nat \<Rightarrow> lcs_match \<Rightarrow> lcs_match" where
  "better modified i j n best =
     (if mt_size best < n then \<lparr>mt_i = i + 1 - n, mt_j = j + 1 - n, mt_size = n, mt_modified = npos\<rparr>
      else if n = mt_size best then
        let best = (if mt_modified best = npos
                    then best\<lparr>mt_modified := is_count modified (block_start (mt_j best) n) (mt_j best + 1)\<rparr> else best);
            count = is_count modified (block_start j n) (j + 1)
        in if count < mt_modified best then \<lparr>mt_i = i + 1 - n, mt_j = j + 1 - n, mt_size = n, mt_modified = count\<rparr> else best
      else best)"

definition consider_match ::
    "crv \<Rightarrow> nat \<Rightarrow> nat \<Rightarrow> nat \<Rightarrow> nat \<Rightarrow> (nat \<times> nat) list \<Rightarrow> nat \<Rightarrow> nat \<Rightarrow> lcs_match \<times> (nat \<times> nat) list \<Rightarrow> (lcs_match \<times> (nat \<times> nat) list) option" where
  "consider_match modified begin1 end1 begin2 end2 prev i j = (\<lambda>(best, cur). do {
     let n = block_length prev j;
     let best = better modified i j n best;
     realm_assert (begin1 \<le> mt_i best \<and> mt_i best + mt_size best \<le> end1);
     realm_assert (begin2 \<le> mt_j best \<and> mt_j best + mt_size best \<le> end2);
     Some (best, cur @ [(j, n)])
   })"

definition find_longest_match :: "crv \<Rightarrow> lcs_row list \<Rightarrow> lcs_row list \<Rightarrow> nat \<Rightarrow> nat \<Rightarrow> nat \<Rightarrow> nat \<Rightarrow> lcs_match option" where
  "find_longest_match modified a b begin1 end1 begin2 end2 = do {
     (best, cur) \<leftarrow> foldM (\<lambda>i (best, prev). do {
         js \<leftarrow> b_matches b begin2 end2 (lr_row_index (a ! i));
         foldM (consider_match modified begin1 end1 begin2 end2 prev i) js (best, [])
       }) [begin1..<end1] (\<lparr>mt_i = begin1, mt_j = begin2, mt_size = 0, mt_modified = 0\<rparr>, []);
     Some best
   }"

subsection \<open>The blocks found match\<close>

text \<open>Rows \<open>i, ..., i + n - 1\<close> of the first sequence and \<open>j, ..., j + n - 1\<close> of the second are the same.\<close>

definition same_block :: "lcs_row list \<Rightarrow> nat list \<Rightarrow> nat \<Rightarrow> nat \<Rightarrow> nat \<Rightarrow> bool" where
  "same_block a ys i j n \<longleftrightarrow> (\<forall>k < n. lr_row_index (a ! (i + k)) = ys ! (j + k))"

definition match_ok :: "lcs_row list \<Rightarrow> nat list \<Rightarrow> nat \<Rightarrow> nat \<Rightarrow> nat \<Rightarrow> nat \<Rightarrow> lcs_match \<Rightarrow> bool" where
  "match_ok a ys begin1 end1 begin2 end2 m \<longleftrightarrow>
     begin1 \<le> mt_i m \<and> mt_i m + mt_size m \<le> end1 \<and> begin2 \<le> mt_j m \<and> mt_j m + mt_size m \<le> end2 \<and>
     same_block a ys (mt_i m) (mt_j m) (mt_size m)"

text \<open>Blocks that end before row \<open>i\<close> of the first sequence.\<close>

definition ends_ok :: "lcs_row list \<Rightarrow> nat list \<Rightarrow> nat \<Rightarrow> nat \<Rightarrow> nat \<Rightarrow> nat \<Rightarrow> (nat \<times> nat) list \<Rightarrow> bool" where
  "ends_ok a ys begin1 begin2 end2 i ends \<longleftrightarrow> (\<forall>(j, n) \<in> set ends.
     begin1 + n \<le> i \<and> begin2 + n \<le> j + 1 \<and> j < end2 \<and> same_block a ys (i - n) (j + 1 - n) n)"

text \<open>\<open>b\<close> lists the rows of \<open>ys\<close> and has all rows of \<open>a\<close>.\<close>

definition b_ok :: "lcs_row list \<Rightarrow> lcs_row list \<Rightarrow> nat list \<Rightarrow> bool" where
  "b_ok a b ys \<longleftrightarrow> sorted (map lr_row_index b) \<and> lr_row_index ` set a \<subseteq> lr_row_index ` set b \<and>
     (\<forall>r \<in> set b. lr_tv_index r < length ys \<and> ys ! lr_tv_index r = lr_row_index r)"

lemma b_matches_correct:
  assumes "b_ok a b ys" "i < length a"
  shows "\<exists>js. b_matches b begin2 end2 (lr_row_index (a ! i)) = Some js \<and>
    (\<forall>j \<in> set js. begin2 \<le> j \<and> j < end2 \<and> ys ! j = lr_row_index (a ! i))"
proof -
  let ?x = "lr_row_index (a ! i)"
  let ?it = "dropWhile (\<lambda>r. lr_row_index r < ?x) b"
  have "?x \<in> lr_row_index ` set b" using assms(1) nth_mem [OF assms(2)] unfolding b_ok_def by blast
  then obtain r where r: "r \<in> set b" "lr_row_index r = ?x" by (metis imageE)
  have ne: "?it \<noteq> []" using r by (metis dropWhile_eq_Nil_conv less_irrefl)
  then have h: "\<not> lr_row_index (hd ?it) < ?x" using hd_dropWhile by blast
  have s: "sorted (map lr_row_index ?it)" 
    using assms(1) sorted_dropWhile [of "map lr_row_index b" "\<lambda>x. x < ?x"] by (simp add: b_ok_def dropWhile_map comp_def)
  have "r \<in> set ?it"
  proof (rule ccontr)
    assume "r \<notin> set ?it"
    then have "r \<in> set (takeWhile (\<lambda>r. lr_row_index r < ?x) b)" using r(1) by (metis takeWhile_dropWhile_id Un_iff set_append)
    then show False using r(2) by (auto dest: set_takeWhileD)
  qed
  then have "lr_row_index (hd ?it) \<le> ?x" using s ne r(2) by (cases ?it) auto
  then have "lr_row_index (hd ?it) = ?x" using h by simp
  moreover have "begin2 \<le> j \<and> j < end2 \<and> ys ! j = ?x"
    if "j \<in> set (filter (\<lambda>j. begin2 \<le> j) (takeWhile (\<lambda>j. j < begin2 \<or> j < end2) (map lr_tv_index (takeWhile (\<lambda>r. lr_row_index r = ?x) ?it))))" for j
  proof -
    have j: "begin2 \<le> j" "j \<in> set (map lr_tv_index (takeWhile (\<lambda>r. lr_row_index r = ?x) ?it))" "j < begin2 \<or> j < end2"
      using that set_takeWhileD by fastforce+
    then obtain q where "q \<in> set ?it" "lr_row_index q = ?x" "j = lr_tv_index q" by (auto dest: set_takeWhileD)
    then have "q \<in> set b" by (meson set_dropWhileD)
    then show ?thesis using j assms(1) \<open>lr_row_index q = ?x\<close> \<open>j = lr_tv_index q\<close> by (auto simp: b_ok_def)
  qed
  ultimately show ?thesis using ne by (simp add: b_matches_def)
qed

lemma same_block_Suc: "same_block a ys i j (Suc n) \<longleftrightarrow> same_block a ys i j n \<and> lr_row_index (a ! (i + n)) = ys ! (j + n)"
  by (auto simp: same_block_def less_Suc_eq)

lemma block_length_ok:
  assumes prev: "ends_ok a ys begin1 begin2 end2 i prev" and j: "begin1 \<le> i" "begin2 \<le> j" "ys ! j = lr_row_index (a ! i)"
  defines "n \<equiv> block_length prev j"
  shows "0 < n" "begin1 + n \<le> i + 1" "begin2 + n \<le> j + 1" "same_block a ys (i + 1 - n) (j + 1 - n) n"
proof -
  have "0 < n \<and> begin1 + n \<le> i + 1 \<and> begin2 + n \<le> j + 1 \<and> same_block a ys (i + 1 - n) (j + 1 - n) n"
  proof (cases "find (\<lambda>pair. fst pair + 1 = j) prev")
    case None
    then have "n = 1" by (simp add: n_def block_length_def)
    then show ?thesis using j by (simp add: same_block_def)
  next
    case (Some pair)
    obtain k l where pair: "pair = (k, l)" by (cases pair)
    have "pair \<in> set prev \<and> fst pair + 1 = j" using Some by (auto simp: find_Some_iff)
    then have m: "(k, l) \<in> set prev" "k + 1 = j" by (simp_all add: pair)
    then have p: "begin1 + l \<le> i" "begin2 + l \<le> j" "same_block a ys (i - l) (j - l) l"
      using prev by (auto simp: ends_ok_def)
    have n: "n = Suc l" using Some pair by (simp add: n_def block_length_def)
    have "same_block a ys (i - l) (j - l) (Suc l)" unfolding same_block_Suc using p j(3) by simp
    then show ?thesis using p j n by simp
  qed
  then show "0 < n" "begin1 + n \<le> i + 1" "begin2 + n \<le> j + 1" "same_block a ys (i + 1 - n) (j + 1 - n) n" by blast+
qed

lemma better_ok:
  assumes "match_ok a ys begin1 end1 begin2 end2 best" "i < end1" "j < end2"
    "begin1 + n \<le> i + 1" "begin2 + n \<le> j + 1" "same_block a ys (i + 1 - n) (j + 1 - n) n"
  shows "match_ok a ys begin1 end1 begin2 end2 (better modified i j n best)"
  using assms by (auto simp: match_ok_def better_def Let_def)

lemma consider_row:
  assumes prev: "ends_ok a ys begin1 begin2 end2 i prev" and i: "begin1 \<le> i" "i < end1"
    and js: "\<forall>j \<in> set js. begin2 \<le> j \<and> j < end2 \<and> ys ! j = lr_row_index (a ! i)"
    and best: "match_ok a ys begin1 end1 begin2 end2 best"
  shows "\<exists>best' cur. foldM (consider_match modified begin1 end1 begin2 end2 prev i) js (best, []) = Some (best', cur) \<and>
    match_ok a ys begin1 end1 begin2 end2 best' \<and> ends_ok a ys begin1 begin2 end2 (Suc i) cur"
proof -
  let ?I = "\<lambda>_ (best', cur). match_ok a ys begin1 end1 begin2 end2 best' \<and> ends_ok a ys begin1 begin2 end2 (Suc i) cur"
  have "\<exists>t. foldM (consider_match modified begin1 end1 begin2 end2 prev i) js (best, []) = Some t \<and> ?I js t"
  proof (rule foldM_invariant [where I = ?I])
    show "?I [] (best, [])" using best by (simp add: ends_ok_def)
  next
    fix as j bs t
    assume split: "js = as @ j # bs" and I: "?I as t"
    obtain m cur where t: "t = (m, cur)" by (cases t)
    have j: "begin2 \<le> j" "j < end2" "ys ! j = lr_row_index (a ! i)" using js split by auto
    note n = block_length_ok [OF prev i(1) j(1,3)]
    have m: "match_ok a ys begin1 end1 begin2 end2 m" "ends_ok a ys begin1 begin2 end2 (Suc i) cur" using I t by auto
    have b: "match_ok a ys begin1 end1 begin2 end2 (better modified i j (block_length prev j) m)"
      using better_ok [OF m(1) i(2) j(2) n(2-4)] .
    moreover have "ends_ok a ys begin1 begin2 end2 (Suc i) (cur @ [(j, block_length prev j)])"
      using m(2) n j(2) by (auto simp: ends_ok_def)
    ultimately show "\<exists>t'. consider_match modified begin1 end1 begin2 end2 prev i j t = Some t' \<and> ?I (as @ [j]) t'"
      unfolding t by (simp add: consider_match_def Let_def match_ok_def)
  qed
  then show ?thesis by auto
qed

lemma find_longest_match_correct:
  assumes b: "b_ok a b ys" and bounds: "begin1 \<le> end1" "end1 \<le> length a" "begin2 \<le> end2"
  shows "\<exists>m. find_longest_match modified a b begin1 end1 begin2 end2 = Some m \<and> match_ok a ys begin1 end1 begin2 end2 m"
proof -
  let ?f = "\<lambda>i (best, prev). do {
         js \<leftarrow> b_matches b begin2 end2 (lr_row_index (a ! i));
         foldM (consider_match modified begin1 end1 begin2 end2 prev i) js (best, [])
       }"
  let ?s = "(\<lparr>mt_i = begin1, mt_j = begin2, mt_size = 0, mt_modified = 0\<rparr>, [])"
  let ?I = "\<lambda>done (best', prev). match_ok a ys begin1 end1 begin2 end2 best' \<and> ends_ok a ys begin1 begin2 end2 (begin1 + length done) prev"
  have "\<exists>t. foldM ?f [begin1..<end1] ?s = Some t \<and> ?I [begin1..<end1] t"
  proof (rule foldM_invariant [where I = ?I])
    show "?I [] ?s" using bounds by (simp add: match_ok_def ends_ok_def same_block_def)
  next
    fix as i bs t
    assume split: "[begin1..<end1] = as @ i # bs" and I: "?I as t"
    obtain m prev where t: "t = (m, prev)" by (cases t)
    have "length [begin1..<end1] = length (as @ i # bs)" by (simp only: split)
    then have "length as < end1 - begin1" by simp
    moreover have "i = [begin1..<end1] ! length as" using split by simp
    ultimately have i: "i = begin1 + length as" "i < end1" by simp_all
    have "i < length a" using i bounds by simp
    then obtain js where js: "b_matches b begin2 end2 (lr_row_index (a ! i)) = Some js"
      "\<forall>j \<in> set js. begin2 \<le> j \<and> j < end2 \<and> ys ! j = lr_row_index (a ! i)" using b_matches_correct [OF b] by blast
    have m: "ends_ok a ys begin1 begin2 end2 i prev" "match_ok a ys begin1 end1 begin2 end2 m" using I t i by auto
    show "\<exists>t'. ?f i t = Some t' \<and> ?I (as @ [i]) t'"
      using consider_row [OF m(1) _ i(2) js(2) m(2), of modified] js(1) i(1) t by auto
  qed
  then show ?thesis by (auto simp: find_longest_match_def)
qed

subsection \<open>All blocks\<close>

lemma foldM_keeps: "foldM f xs s = Some t \<Longrightarrow> I s \<Longrightarrow> (\<And>x s t. f x s = Some t \<Longrightarrow> I s \<Longrightarrow> I t) \<Longrightarrow> I t"
  by (induction xs arbitrary: s) (auto simp: bind_eq_Some_conv)

text \<open>The assertions bound a block that was found, whatever the sequences are.\<close>

lemma find_longest_match_bounds:
  assumes "find_longest_match modified a b begin1 end1 begin2 end2 = Some m" "mt_size m \<noteq> 0"
  shows "begin1 \<le> mt_i m" "mt_i m + mt_size m \<le> end1" "begin2 \<le> mt_j m" "mt_j m + mt_size m \<le> end2"
proof -
  let ?P = "\<lambda>m. mt_size m = 0 \<or> begin1 \<le> mt_i m \<and> mt_i m + mt_size m \<le> end1 \<and> begin2 \<le> mt_j m \<and> mt_j m + mt_size m \<le> end2"
  let ?f = "\<lambda>i (best, prev). do {
         js \<leftarrow> b_matches b begin2 end2 (lr_row_index (a ! i));
         foldM (consider_match modified begin1 end1 begin2 end2 prev i) js (best, [])
       }"
  obtain cur where m: "foldM ?f [begin1..<end1] (\<lparr>mt_i = begin1, mt_j = begin2, mt_size = 0, mt_modified = 0\<rparr>, []) = Some (m, cur)"
    using assms(1) by (auto simp: find_longest_match_def bind_eq_Some_conv)
  have "?P (fst (m, cur))"
  proof (rule foldM_keeps [OF m, where I = "\<lambda>s. ?P (fst s)"])
    fix i s t
    assume t: "?f i s = Some t" and P: "?P (fst s)"
    obtain best prev where s: "s = (best, prev)" by (cases s)
    obtain js where "foldM (consider_match modified begin1 end1 begin2 end2 prev i) js (best, []) = Some t"
      using t s by (auto simp: bind_eq_Some_conv)
    then show "?P (fst t)"
      by (rule foldM_keeps [where I = "\<lambda>s. ?P (fst s)"])
        (use P s in \<open>auto simp: consider_match_def Let_def bind_eq_Some_conv realm_assert_def split: if_splits\<close>)
  qed simp
  then show "begin1 \<le> mt_i m" "mt_i m + mt_size m \<le> end1" "begin2 \<le> mt_j m" "mt_j m + mt_size m \<le> end2"
    using assms(2) by simp_all
qed

text \<open>
  The blocks to the left of the longest one, the block itself, and the blocks to the right of it.  The bound of
  \<open>m.i + m.size\<close> is \<open>end2\<close> in the source.
\<close>

function find_longest_matches :: "crv \<Rightarrow> lcs_row list \<Rightarrow> lcs_row list \<Rightarrow> nat \<Rightarrow> nat \<Rightarrow> nat \<Rightarrow> nat \<Rightarrow> lcs_match list option" where
  "find_longest_matches modified a b begin1 end1 begin2 end2 = do {
     m \<leftarrow> find_longest_match modified a b begin1 end1 begin2 end2;
     if mt_size m = 0 then Some []
     else do {
       left \<leftarrow> (if begin1 < mt_i m \<and> begin2 < mt_j m
                then find_longest_matches modified a b begin1 (mt_i m) begin2 (mt_j m) else Some []);
       right \<leftarrow> (if mt_i m + mt_size m < end2 \<and> mt_j m + mt_size m < end2
                 then find_longest_matches modified a b (mt_i m + mt_size m) end1 (mt_j m + mt_size m) end2 else Some []);
       Some (left @ m # right)
     }
   }"
  by pat_completeness auto

termination
proof (relation "measure (\<lambda>(modified, a, b, begin1, end1, begin2, end2). end1 - begin1)")
  fix modified :: crv and a b :: "lcs_row list" and begin1 end1 begin2 end2 m
  assume m: "find_longest_match modified a b begin1 end1 begin2 end2 = Some m" "mt_size m \<noteq> 0"
  note k = find_longest_match_bounds [OF m]
  show "begin1 < mt_i m \<and> begin2 < mt_j m \<Longrightarrow>
    ((modified, a, b, begin1, mt_i m, begin2, mt_j m), modified, a, b, begin1, end1, begin2, end2)
      \<in> measure (\<lambda>(modified, a, b, begin1, end1, begin2, end2). end1 - begin1)"
    using k m(2) by auto
  show "((modified, a, b, mt_i m + mt_size m, end1, mt_j m + mt_size m, end2), modified, a, b, begin1, end1, begin2, end2)
      \<in> measure (\<lambda>(modified, a, b, begin1, end1, begin2, end2). end1 - begin1)"
    using k m(2) by auto
qed auto

declare find_longest_matches.simps [simp del]

text \<open>Blocks in order, from \<open>(i, j)\<close> to \<open>(e1, e2)\<close>, none of them overlapping another.\<close>

fun chain :: "lcs_row list \<Rightarrow> nat list \<Rightarrow> nat \<Rightarrow> nat \<Rightarrow> lcs_match list \<Rightarrow> nat \<Rightarrow> nat \<Rightarrow> bool" where
  "chain a ys i j [] e1 e2 \<longleftrightarrow> i \<le> e1 \<and> j \<le> e2"
| "chain a ys i j (m # ms) e1 e2 \<longleftrightarrow> i \<le> mt_i m \<and> j \<le> mt_j m \<and> same_block a ys (mt_i m) (mt_j m) (mt_size m) \<and>
     chain a ys (mt_i m + mt_size m) (mt_j m + mt_size m) ms e1 e2"

lemma chain_append: "chain a ys i j ms k l \<Longrightarrow> chain a ys k l ms' e1 e2 \<Longrightarrow> chain a ys i j (ms @ ms') e1 e2"
proof (induction ms arbitrary: i j)
  case Nil
  then show ?case by (cases ms') auto
qed simp

lemma find_longest_matches_correct:
  "b_ok a b ys \<Longrightarrow> begin1 \<le> end1 \<Longrightarrow> end1 \<le> length a \<Longrightarrow> begin2 \<le> end2 \<Longrightarrow>
   \<exists>ms. find_longest_matches modified a b begin1 end1 begin2 end2 = Some ms \<and> chain a ys begin1 begin2 ms end1 end2"
proof (induction modified a b begin1 end1 begin2 end2 rule: find_longest_matches.induct)
  case (1 modified a b begin1 end1 begin2 end2)
  obtain m where m: "find_longest_match modified a b begin1 end1 begin2 end2 = Some m" "match_ok a ys begin1 end1 begin2 end2 m"
    using find_longest_match_correct [OF "1.prems"] by blast
  show ?case
  proof (cases "mt_size m = 0")
    case True
    then show ?thesis using m(1) "1.prems" by (simp add: find_longest_matches.simps)
  next
    case False
    note k = m(2) [unfolded match_ok_def]
    let ?left = "if begin1 < mt_i m \<and> begin2 < mt_j m
      then find_longest_matches modified a b begin1 (mt_i m) begin2 (mt_j m) else Some []"
    let ?right = "if mt_i m + mt_size m < end2 \<and> mt_j m + mt_size m < end2
      then find_longest_matches modified a b (mt_i m + mt_size m) end1 (mt_j m + mt_size m) end2 else Some []"
    obtain l where l: "?left = Some l" "chain a ys begin1 begin2 l (mt_i m) (mt_j m)"
    proof (cases "begin1 < mt_i m \<and> begin2 < mt_j m")
      case True
      then show thesis using that "1.IH"(1) [OF m(1) False True "1.prems"(1)] k "1.prems"(3) by auto
    qed (use that k in auto)
    obtain r where r: "?right = Some r" "chain a ys (mt_i m + mt_size m) (mt_j m + mt_size m) r end1 end2"
    proof (cases "mt_i m + mt_size m < end2 \<and> mt_j m + mt_size m < end2")
      case True
      then show thesis using that "1.IH"(2) [OF m(1) False l(1) True "1.prems"(1)] k "1.prems"(3) by auto
    qed (use that k in auto)
    have "find_longest_matches modified a b begin1 end1 begin2 end2 = Some (l @ m # r)"
      using m(1) False l(1) r(1) by (subst find_longest_matches.simps) simp
    moreover have "chain a ys begin1 begin2 (l @ m # r) end1 end2"
      using chain_append [OF l(2), of "m # r" end1 end2] r(2) k by simp
    ultimately show ?thesis by blast
  qed
qed

subsection \<open>Blocks that are skipped\<close>

text \<open>
  The rows 0, ..., 8, and the same rows in another order: \<open>2, 4, 6, 7, 8, 0, 1, 3, 5\<close>.  After the block
  \<open>6, 7, 8\<close> and the block \<open>2\<close> to the left of it, the block \<open>4\<close> between them is not looked for.
\<close>

lemma is_count_Nil: "is_count [] s e = 0"
  by (simp add: is_count_def is_find_def is_find_from_def it_begin_def it_end_def)

definition skipped_a :: "lcs_row list" where
  "skipped_a = map (\<lambda>i. \<lparr>lr_row_index = i, lr_tv_index = i\<rparr>) [0..<9]"

definition skipped_b :: "lcs_row list" where
  "skipped_b = map (\<lambda>(r, t). \<lparr>lr_row_index = r, lr_tv_index = t\<rparr>)
     [(0, 5), (1, 6), (2, 0), (3, 7), (4, 1), (5, 8), (6, 2), (7, 3), (8, 4)]"

lemma first_block:
  "find_longest_match [] skipped_a skipped_b 0 9 0 9 = Some \<lparr>mt_i = 6, mt_j = 2, mt_size = 3, mt_modified = npos\<rparr>"
  by (simp add: find_longest_match_def b_matches_def consider_match_def block_length_def better_def Let_def is_count_Nil
    skipped_a_def skipped_b_def npos_def upt_rec)

lemma left_block:
  "find_longest_match [] skipped_a skipped_b 0 6 0 2 = Some \<lparr>mt_i = 2, mt_j = 0, mt_size = 1, mt_modified = 0\<rparr>"
  by (simp add: find_longest_match_def b_matches_def consider_match_def block_length_def better_def Let_def is_count_Nil
    skipped_a_def skipped_b_def npos_def upt_rec)

end
