(* ===== verification/Change_Calculation.thy ===== *)
theory Change_Calculation
  imports Longest_Match Change_Lists "HOL-Library.Multiset"
begin

text \<open>
  \<open>CollectionChangeBuilder::calculate\<close> (\<open>impl/collection_change_builder.cpp\<close>): the change that turns one sequence of
  rows into another, for results that are queried anew.  A row of the old sequence that was deleted from its table
  is \<open>npos\<close>.

  \<open>std::sort\<close> leaves the order of equal elements open.  Where the key determines the element it is \<open>sort_key\<close>, and
  a parameter \<open>srt\<close> where sequences with repeated rows are sorted by row only.  \<open>did_change\<close> is the checker of the
  notifier, which has a state.
\<close>

subsection \<open>The model\<close>

record row_info =
  ri_row_index :: nat
  ri_prev_tv_index :: nat
  ri_tv_index :: nat
  ri_shifted_tv_index :: nat

definition move_unsorted :: "nat \<Rightarrow> crv \<Rightarrow> row_info \<Rightarrow> nat \<times> crv \<times> change_builder \<Rightarrow> (nat \<times> crv \<times> change_builder) option" where
  "move_unsorted mx move_candidates row = (\<lambda>(expected, removed, changeset).
     if ri_shifted_tv_index row = expected then Some (expected + 1, removed, changeset)
     else if \<not> is_contains move_candidates (ri_row_index row) then Some (ri_shifted_tv_index row + 1, removed, changeset)
     else let calc_expected = ri_tv_index row - is_count (insertions changeset) 0 (ri_tv_index row) +
                is_count removed 0 (ri_prev_tv_index row) in
       if ri_shifted_tv_index row = calc_expected then Some (calc_expected + 1, removed, changeset)
       else do {
         inss \<leftarrow> is_add mx (ri_tv_index row) (insertions changeset);
         removed \<leftarrow> is_add mx (ri_prev_tv_index row) removed;
         Some (expected, removed, changeset\<lparr>insertions := inss,
           moves := moves changeset @ [\<lparr>mv_from = ri_prev_tv_index row, mv_to = ri_tv_index row\<rparr>]\<rparr>)
       })"

definition calculate_moves_unsorted :: "nat \<Rightarrow> row_info list \<Rightarrow> crv \<Rightarrow> crv \<Rightarrow> change_builder \<Rightarrow> (crv \<times> change_builder) option" where
  "calculate_moves_unsorted mx new_rows removed move_candidates changeset =
     map_option snd (foldM (move_unsorted mx move_candidates) new_rows (0, removed, changeset))"

definition align_match :: "nat \<Rightarrow> lcs_row list \<Rightarrow> row_info list \<Rightarrow> lcs_match \<Rightarrow> nat \<times> nat \<times> change_builder \<Rightarrow> (nat \<times> nat \<times> change_builder) option" where
  "align_match mx a rows m = (\<lambda>(i, j, changeset). do {
     dels \<leftarrow> foldM (\<lambda>k. is_add mx (lr_tv_index (a ! k))) [i..<mt_i m] (deletions changeset);
     inss \<leftarrow> foldM (\<lambda>k. is_add mx (ri_tv_index (rows ! k))) [j..<mt_j m] (insertions changeset);
     Some (max i (mt_i m) + mt_size m, max j (mt_j m) + mt_size m, changeset\<lparr>deletions := dels, insertions := inss\<rparr>)
   })"

definition longest_matches :: "crv \<Rightarrow> lcs_row list \<Rightarrow> lcs_row list \<Rightarrow> nat \<Rightarrow> lcs_match list option" where
  "longest_matches mods a b start_index = do {
     ms \<leftarrow> find_longest_matches mods a b start_index (length a) start_index (length b);
     Some (ms @ [\<lparr>mt_i = length a, mt_j = length b, mt_size = 0, mt_modified = 0\<rparr>])
   }"

definition old_sequence :: "row_info list \<Rightarrow> lcs_row list" where
  "old_sequence rows = sort_key (\<lambda>r. (lr_tv_index r, lr_row_index r))
     (map (\<lambda>row. \<lparr>lr_row_index = ri_row_index row, lr_tv_index = ri_prev_tv_index row\<rparr>) rows)"

definition new_sequence :: "row_info list \<Rightarrow> lcs_row list" where
  "new_sequence rows = sort_key (\<lambda>r. (lr_row_index r, lr_tv_index r))
     (map (\<lambda>i. \<lparr>lr_row_index = ri_row_index (rows ! i), lr_tv_index = i\<rparr>) [0..<length rows])"

definition calculate_moves_sorted :: "nat \<Rightarrow> row_info list \<Rightarrow> change_builder \<Rightarrow> change_builder option" where
  "calculate_moves_sorted mx rows changeset =
     (let a = old_sequence rows in
      case find (\<lambda>i. lr_row_index (a ! i) \<noteq> ri_row_index (rows ! i)) [0..<length a] of
        None \<Rightarrow> Some changeset
      | Some first_difference \<Rightarrow> do {
          matches \<leftarrow> longest_matches (modifications changeset) a (new_sequence rows) first_difference;
          (i, j, changeset) \<leftarrow> foldM (align_match mx a rows) matches (first_difference, first_difference, changeset);
          Some changeset
        })"

definition old_row :: "nat \<Rightarrow> nat list \<Rightarrow> nat \<Rightarrow> nat \<times> crv \<times> row_info list \<Rightarrow> (nat \<times> crv \<times> row_info list) option" where
  "old_row mx prev_rows i = (\<lambda>(deleted, dels, old_rows).
     if prev_rows ! i = npos then do { dels \<leftarrow> is_add mx i dels; Some (deleted + 1, dels, old_rows) }
     else Some (deleted, dels, old_rows @ [\<lparr>ri_row_index = prev_rows ! i, ri_prev_tv_index = npos, ri_tv_index = i,
       ri_shifted_tv_index = i - deleted\<rparr>]))"

definition new_row :: "nat list \<Rightarrow> nat \<Rightarrow> row_info" where
  "new_row next_rows i = \<lparr>ri_row_index = next_rows ! i, ri_prev_tv_index = npos, ri_tv_index = i, ri_shifted_tv_index = 0\<rparr>"

text \<open>The loop over both sequences sorted by row: the new rows with the positions of their old ones.\<close>

fun pair_rows :: "nat \<Rightarrow> row_info list \<Rightarrow> row_info list \<Rightarrow> crv \<Rightarrow> crv \<Rightarrow> (row_info list \<times> crv \<times> crv) option" where
  "pair_rows mx (old # olds) (new # news) removed inss =
     (if ri_row_index old = ri_row_index new then do {
        (rows, removed, inss) \<leftarrow> pair_rows mx olds news removed inss;
        Some (new\<lparr>ri_prev_tv_index := ri_tv_index old, ri_shifted_tv_index := ri_shifted_tv_index old\<rparr> # rows, removed, inss)
      }
      else if ri_row_index old < ri_row_index new then do {
        removed \<leftarrow> is_add mx (ri_tv_index old) removed;
        pair_rows mx olds (new # news) removed inss
      }
      else do {
        inss \<leftarrow> is_add mx (ri_tv_index new) inss;
        (rows, removed, inss) \<leftarrow> pair_rows mx (old # olds) news removed inss;
        Some (new # rows, removed, inss)
      })"
| "pair_rows mx olds [] removed inss = do {
     removed \<leftarrow> foldM (\<lambda>old. is_add mx (ri_tv_index old)) olds removed;
     Some ([], removed, inss)
   }"
| "pair_rows mx [] news removed inss = do {
     inss \<leftarrow> foldM (\<lambda>new. is_add mx (ri_tv_index new)) news inss;
     Some (news, removed, inss)
   }"

definition mark_changed :: "nat \<Rightarrow> (nat \<Rightarrow> 's \<Rightarrow> (bool \<times> 's) option) \<Rightarrow> row_info \<Rightarrow> crv \<times> 's \<Rightarrow> (crv \<times> 's) option" where
  "mark_changed mx did_change row = (\<lambda>(mods, st). do {
     (b, st) \<leftarrow> did_change (ri_row_index row) st;
     if b then do { mods \<leftarrow> is_add mx (ri_tv_index row) mods; Some (mods, st) } else Some (mods, st)
   })"

definition calculate ::
    "nat \<Rightarrow> ((row_info \<Rightarrow> nat) \<Rightarrow> row_info list \<Rightarrow> row_info list) \<Rightarrow> nat list \<Rightarrow> nat list \<Rightarrow>
     (nat \<Rightarrow> 's \<Rightarrow> (bool \<times> 's) option) \<Rightarrow> 's \<Rightarrow> crv option \<Rightarrow> change_builder option" where
  "calculate mx srt prev_rows next_rows did_change st move_candidates = do {
     (deleted, dels, old_rows) \<leftarrow> foldM (old_row mx prev_rows) [0..<length prev_rows] (0, [], []);
     let old_rows = srt ri_row_index old_rows;
     let new_rows = srt ri_row_index (map (new_row next_rows) [0..<length next_rows]);
     (new_rows, removed, inss) \<leftarrow> pair_rows mx old_rows new_rows [] [];
     let new_rows = sort_key ri_tv_index (filter (\<lambda>row. ri_prev_tv_index row \<noteq> npos) new_rows);
     (mods, st) \<leftarrow> foldM (mark_changed mx did_change) new_rows ([], st);
     let ret = cb_default\<lparr>deletions := dels, insertions := inss, modifications := mods\<rparr>;
     (removed, ret) \<leftarrow> (case move_candidates of
         Some candidates \<Rightarrow> calculate_moves_unsorted mx new_rows removed candidates ret
       | None \<Rightarrow> map_option (Pair removed) (calculate_moves_sorted mx new_rows ret));
     d \<leftarrow> is_add_set mx removed (deletions ret);
     Some (ret\<lparr>deletions := d\<rparr>)
   }"

subsection \<open>What is left of a sequence\<close>

text \<open>The elements whose positions are not in a set: the change is right if both sequences leave the same.\<close>

definition keep :: "'a list \<Rightarrow> nat set \<Rightarrow> 'a list" where
  "keep xs D = map (\<lambda>i. xs ! i) (filter (\<lambda>i. i \<notin> D) [0..<length xs])"

text \<open>By increasing positions of what is left.\<close>

lemma keep_positions:
  assumes "sorted_wrt (<) ps" "set ps = {..<length xs} - D"
  shows "keep xs D = map (\<lambda>i. xs ! i) ps"
proof -
  have "sorted_wrt (<) (filter (\<lambda>i. i \<notin> D) [0..<length xs])" by (intro sorted_wrt_filter) simp
  moreover have "set (filter (\<lambda>i. i \<notin> D) [0..<length xs]) = set ps" using assms(2) by auto
  ultimately have "filter (\<lambda>i. i \<notin> D) [0..<length xs] = ps" using assms(1) strict_sorted_equal by blast
  then show ?thesis by (simp add: keep_def)
qed

lemma add_all:
  assumes "index_set_ok mx v" "max_size_ok mx"
  shows "\<exists>v'. foldM (\<lambda>x. is_add mx (f x)) xs v = Some v' \<and> index_set_ok mx v' \<and> indexes v' = indexes v \<union> f ` set xs"
  using assms(1)
proof (induction xs arbitrary: v)
  case (Cons x xs)
  obtain w where w: "is_add mx (f x) v = Some w" "index_set_ok mx w" "indexes w = insert (f x) (indexes v)"
    using is_add_correct [OF Cons.prems assms(2)] by blast
  then show ?case using Cons.IH [OF w(2)] by auto
qed simp

subsection \<open>Pairing the rows of both sequences\<close>

abbreviation unmatched :: "row_info \<Rightarrow> bool" where
  "unmatched r \<equiv> ri_prev_tv_index r = npos"

text \<open>The old positions given to rows: each that of an old row of the same index, none twice; the others are in \<open>D\<close>.\<close>

definition pairs_ok :: "row_info list \<Rightarrow> row_info list \<Rightarrow> row_info list \<Rightarrow> nat set \<Rightarrow> nat set \<Rightarrow> bool" where
  "pairs_ok olds news rows D I \<longleftrightarrow>
     map ri_tv_index rows = map ri_tv_index news \<and> map ri_row_index rows = map ri_row_index news \<and>
     (\<forall>r \<in> set rows. \<not> unmatched r \<longrightarrow> (\<exists>old \<in> set olds. ri_tv_index old = ri_prev_tv_index r \<and>
        ri_row_index old = ri_row_index r \<and> ri_shifted_tv_index old = ri_shifted_tv_index r)) \<and>
     distinct (map ri_prev_tv_index (filter (Not \<circ> unmatched) rows)) \<and>
     D = ri_tv_index ` set olds - ri_prev_tv_index ` set rows \<and>
     I = ri_tv_index ` {r \<in> set rows. unmatched r}"

lemma pairs_ok_None:
  assumes "\<forall>new \<in> set news. unmatched new" "\<forall>old \<in> set olds. ri_tv_index old \<noteq> npos"
  shows "pairs_ok olds news news (ri_tv_index ` set olds) (ri_tv_index ` set news)"
proof -
  have "filter (Not \<circ> unmatched) news = []" using assms(1) by (simp add: filter_empty_conv)
  then show ?thesis using assms by (auto simp: pairs_ok_def)
qed

lemma pairs_ok_match:
  assumes p: "pairs_ok olds news rows D I" and row: "ri_row_index old = ri_row_index new"
    and old: "ri_tv_index old \<noteq> npos" "ri_tv_index old \<notin> ri_tv_index ` set olds"
  shows "pairs_ok (old # olds) (new # news) (new\<lparr>ri_prev_tv_index := ri_tv_index old, ri_shifted_tv_index := ri_shifted_tv_index old\<rparr> # rows) D I"
proof -
  have new: "ri_tv_index old \<notin> ri_prev_tv_index ` set rows"
    using p old unfolding pairs_ok_def by (metis (no_types, lifting) imageE imageI)
  then have "ri_tv_index old \<notin> set (map ri_prev_tv_index (filter (Not \<circ> unmatched) rows))" by auto
  then show ?thesis using p row old by (auto simp: pairs_ok_def)
qed

lemma pairs_ok_old:
  assumes "pairs_ok olds news rows D I" "ri_tv_index old \<noteq> npos" "ri_tv_index old \<notin> ri_tv_index ` set olds"
  shows "pairs_ok (old # olds) news rows (insert (ri_tv_index old) D) I"
proof -
  have "ri_tv_index old \<notin> ri_prev_tv_index ` set rows"
    using assms unfolding pairs_ok_def by (metis (no_types, lifting) imageE imageI)
  then show ?thesis using assms(1) by (auto simp: pairs_ok_def)
qed

lemma pairs_ok_new:
  assumes "pairs_ok olds news rows D I" "unmatched new" "\<forall>old \<in> set olds. ri_tv_index old \<noteq> npos"
  shows "pairs_ok olds (new # news) (new # rows) D (insert (ri_tv_index new) I)"
  using assms by (auto simp: pairs_ok_def)

lemma pair_rows_correct:
  "max_size_ok mx \<Longrightarrow> index_set_ok mx removed \<Longrightarrow> index_set_ok mx inss \<Longrightarrow> distinct (map ri_tv_index olds) \<Longrightarrow>
    \<forall>old \<in> set olds. ri_tv_index old \<noteq> npos \<Longrightarrow> \<forall>new \<in> set news. unmatched new \<Longrightarrow>
    \<exists>rows removed' inss' D I. pair_rows mx olds news removed inss = Some (rows, removed', inss') \<and>
      index_set_ok mx removed' \<and> index_set_ok mx inss' \<and> pairs_ok olds news rows D I \<and>
      indexes removed' = indexes removed \<union> D \<and> indexes inss' = indexes inss \<union> I"
proof (induction mx olds news removed inss rule: pair_rows.induct)
  case (1 mx old olds new news removed inss)
  note mx = "1.prems"(1)
  have old: "ri_tv_index old \<noteq> npos" "ri_tv_index old \<notin> ri_tv_index ` set olds" "distinct (map ri_tv_index olds)"
    and olds: "\<forall>old \<in> set olds. ri_tv_index old \<noteq> npos" "\<forall>old \<in> set (old # olds). ri_tv_index old \<noteq> npos"
    and news: "unmatched new" "\<forall>new \<in> set news. unmatched new" using "1.prems" by auto
  consider (eq) "ri_row_index old = ri_row_index new" | (less) "ri_row_index old < ri_row_index new"
    | (greater) "ri_row_index new < ri_row_index old" by linarith
  then show ?case
  proof cases
    case eq
    obtain rows removed' inss' D I where r: "pair_rows mx olds news removed inss = Some (rows, removed', inss')"
      "index_set_ok mx removed'" "index_set_ok mx inss'" "pairs_ok olds news rows D I"
      "indexes removed' = indexes removed \<union> D" "indexes inss' = indexes inss \<union> I"
      using "1.IH"(1) [OF eq mx "1.prems"(2,3) old(3) olds(1) news(2)] by blast
    note pairs_ok_match [OF r(4) eq old(1,2)]
    then show ?thesis using r eq by (intro exI conjI) (simp, assumption+)
  next
    case less
    then have ne: "ri_row_index old \<noteq> ri_row_index new" by simp
    obtain w where w: "is_add mx (ri_tv_index old) removed = Some w" "index_set_ok mx w"
      "indexes w = insert (ri_tv_index old) (indexes removed)" using is_add_correct [OF "1.prems"(2) mx] by blast
    obtain rows removed' inss' D I where r: "pair_rows mx olds (new # news) w inss = Some (rows, removed', inss')"
      "index_set_ok mx removed'" "index_set_ok mx inss'" "pairs_ok olds (new # news) rows D I"
      "indexes removed' = indexes w \<union> D" "indexes inss' = indexes inss \<union> I"
      using "1.IH"(2) [OF ne less w(1) mx w(2) "1.prems"(3) old(3) olds(1) "1.prems"(6)] by blast
    have "indexes removed' = indexes removed \<union> insert (ri_tv_index old) D" using r(5) w(3) by auto
    with pairs_ok_old [OF r(4) old(1,2)] show ?thesis using r ne less w(1) by (intro exI conjI) (simp, assumption+)
  next
    case greater
    then have ne: "ri_row_index old \<noteq> ri_row_index new" "\<not> ri_row_index old < ri_row_index new" by simp_all
    obtain w where w: "is_add mx (ri_tv_index new) inss = Some w" "index_set_ok mx w"
      "indexes w = insert (ri_tv_index new) (indexes inss)" using is_add_correct [OF "1.prems"(3) mx] by blast
    obtain rows removed' inss' D I where r: "pair_rows mx (old # olds) news removed w = Some (rows, removed', inss')"
      "index_set_ok mx removed'" "index_set_ok mx inss'" "pairs_ok (old # olds) news rows D I"
      "indexes removed' = indexes removed \<union> D" "indexes inss' = indexes w \<union> I"
      using "1.IH"(3) [OF ne w(1) mx "1.prems"(2) w(2) "1.prems"(4) olds(2) news(2)] by blast
    have "indexes inss' = indexes inss \<union> insert (ri_tv_index new) I" using r(6) w(3) by auto
    with pairs_ok_new [OF r(4) news(1) olds(2)] show ?thesis using r ne w(1) by (intro exI conjI) (simp, assumption+)
  qed
next
  case (2 mx olds removed inss)
  obtain w where "foldM (\<lambda>old. is_add mx (ri_tv_index old)) olds removed = Some w" "index_set_ok mx w"
    "indexes w = indexes removed \<union> ri_tv_index ` set olds" using add_all [OF "2.prems"(2,1)] by blast
  moreover have "pairs_ok olds [] [] (ri_tv_index ` set olds) {}" using pairs_ok_None [of "[]" olds] "2.prems"(5) by simp
  ultimately show ?case using "2.prems"(3) by (intro exI conjI) (simp, assumption+, simp)
next
  case (3 mx new news removed inss)
  obtain w where "foldM (\<lambda>new. is_add mx (ri_tv_index new)) (new # news) inss = Some w" "index_set_ok mx w"
    "indexes w = indexes inss \<union> ri_tv_index ` set (new # news)" using add_all [OF "3.prems"(3,1)] by blast
  moreover have "pairs_ok [] (new # news) (new # news) {} (ri_tv_index ` set (new # news))"
    using pairs_ok_None [OF "3.prems"(6), of "[]"] by simp
  ultimately show ?case using "3.prems"(2) by (intro exI conjI) (simp del: foldM.simps, assumption+, simp)
qed

subsection \<open>Aligning the sequences\<close>

definition kept_i :: "lcs_match list \<Rightarrow> nat list" where
  "kept_i ms = concat (map (\<lambda>m. [mt_i m..<mt_i m + mt_size m]) ms)"

definition kept_j :: "lcs_match list \<Rightarrow> nat list" where
  "kept_j ms = concat (map (\<lambda>m. [mt_j m..<mt_j m + mt_size m]) ms)"

lemma kept_Cons:
  "kept_i (m # ms) = [mt_i m..<mt_i m + mt_size m] @ kept_i ms"
  "kept_j (m # ms) = [mt_j m..<mt_j m + mt_size m] @ kept_j ms"
  by (simp_all add: kept_i_def kept_j_def)

lemma chain_le: "chain a ys i j ms e1 e2 \<Longrightarrow> i \<le> e1 \<and> j \<le> e2"
  by (induction ms arbitrary: i j) fastforce+

lemma kept_range:
  "chain a ys i j ms e1 e2 \<Longrightarrow> set (kept_i ms) \<subseteq> {i..<e1} \<and> set (kept_j ms) \<subseteq> {j..<e2}"
proof (induction ms arbitrary: i j)
  case (Cons m ms)
  then have m: "i \<le> mt_i m" "j \<le> mt_j m" "chain a ys (mt_i m + mt_size m) (mt_j m + mt_size m) ms e1 e2" by simp_all
  have "set (kept_i ms) \<subseteq> {mt_i m + mt_size m..<e1}" "set (kept_j ms) \<subseteq> {mt_j m + mt_size m..<e2}" using Cons.IH [OF m(3)] by blast+
  then show ?case using m(1,2) chain_le [OF m(3)] by (auto simp: kept_Cons)
qed (simp add: kept_i_def kept_j_def)

lemma kept_sorted: "chain a ys i j ms e1 e2 \<Longrightarrow> sorted_wrt (<) (kept_i ms) \<and> sorted_wrt (<) (kept_j ms)"
proof (induction ms arbitrary: i j)
  case (Cons m ms)
  then have m: "chain a ys (mt_i m + mt_size m) (mt_j m + mt_size m) ms e1 e2" by simp
  show ?case using Cons.IH [OF m] kept_range [OF m] by (auto simp: kept_Cons sorted_wrt_append)
qed (simp add: kept_i_def kept_j_def)

lemma same_block_map:
  assumes "same_block a ys i j n"
  shows "map (\<lambda>k. lr_row_index (a ! k)) [i..<i + n] = map (\<lambda>k. ys ! k) [j..<j + n]"
  using assms by (intro nth_equalityI) (simp_all add: same_block_def)

lemma kept_same:
  "chain a ys i j ms e1 e2 \<Longrightarrow> map (\<lambda>k. lr_row_index (a ! k)) (kept_i ms) = map (\<lambda>k. ys ! k) (kept_j ms)"
proof (induction ms arbitrary: i j)
  case (Cons m ms)
  then have "same_block a ys (mt_i m) (mt_j m) (mt_size m)" "chain a ys (mt_i m + mt_size m) (mt_j m + mt_size m) ms e1 e2" by simp_all
  then show ?case using Cons.IH same_block_map by (simp add: kept_Cons)
qed (simp add: kept_i_def kept_j_def)

lemma align_correct:
  assumes mx: "max_size_ok mx"
  shows "chain a ys i j ms e1 e2 \<Longrightarrow> index_set_ok mx (deletions c) \<Longrightarrow> index_set_ok mx (insertions c) \<Longrightarrow>
    \<exists>i' j' dels inss. foldM (align_match mx a rows) ms (i, j, c) = Some (i', j', c\<lparr>deletions := dels, insertions := inss\<rparr>) \<and>
      i \<le> i' \<and> j \<le> j' \<and> i' \<le> e1 \<and> j' \<le> e2 \<and> set (kept_i ms) \<subseteq> {i..<i'} \<and> set (kept_j ms) \<subseteq> {j..<j'} \<and>
      index_set_ok mx dels \<and> index_set_ok mx inss \<and>
      indexes dels = indexes (deletions c) \<union> (\<lambda>k. lr_tv_index (a ! k)) ` ({i..<i'} - set (kept_i ms)) \<and>
      indexes inss = indexes (insertions c) \<union> (\<lambda>k. ri_tv_index (rows ! k)) ` ({j..<j'} - set (kept_j ms))"
proof (induction ms arbitrary: i j c)
  case Nil
  show ?case
    by (rule exI [of _ i], rule exI [of _ j], rule exI [of _ "deletions c"], rule exI [of _ "insertions c"])
      (use Nil in \<open>simp add: kept_i_def kept_j_def\<close>)
next
  case (Cons m ms)
  let ?d = "\<lambda>k. lr_tv_index (a ! k)" and ?t = "\<lambda>k. ri_tv_index (rows ! k)"
  have m: "i \<le> mt_i m" "j \<le> mt_j m" "chain a ys (mt_i m + mt_size m) (mt_j m + mt_size m) ms e1 e2" using Cons.prems(1) by simp_all
  obtain d where d: "foldM (\<lambda>k. is_add mx (?d k)) [i..<mt_i m] (deletions c) = Some d" "index_set_ok mx d"
    "indexes d = indexes (deletions c) \<union> ?d ` {i..<mt_i m}" using add_all [OF Cons.prems(2) mx, of ?d "[i..<mt_i m]"] by auto
  obtain t where t: "foldM (\<lambda>k. is_add mx (?t k)) [j..<mt_j m] (insertions c) = Some t" "index_set_ok mx t"
    "indexes t = indexes (insertions c) \<union> ?t ` {j..<mt_j m}" using add_all [OF Cons.prems(3) mx, of ?t "[j..<mt_j m]"] by auto
  let ?c = "c\<lparr>deletions := d, insertions := t\<rparr>"
  obtain i' j' dels inss where r: "foldM (align_match mx a rows) ms (mt_i m + mt_size m, mt_j m + mt_size m, ?c) =
      Some (i', j', ?c\<lparr>deletions := dels, insertions := inss\<rparr>)"
    "mt_i m + mt_size m \<le> i'" "mt_j m + mt_size m \<le> j'" "i' \<le> e1" "j' \<le> e2"
    "set (kept_i ms) \<subseteq> {mt_i m + mt_size m..<i'}" "set (kept_j ms) \<subseteq> {mt_j m + mt_size m..<j'}"
    "index_set_ok mx dels" "index_set_ok mx inss"
    "indexes dels = indexes d \<union> ?d ` ({mt_i m + mt_size m..<i'} - set (kept_i ms))"
    "indexes inss = indexes t \<union> ?t ` ({mt_j m + mt_size m..<j'} - set (kept_j ms))"
    using Cons.IH [OF m(3), of ?c] d(2) t(2) by auto
  have gaps: "{i..<i'} - set (kept_i (m # ms)) = {i..<mt_i m} \<union> ({mt_i m + mt_size m..<i'} - set (kept_i ms))"
    "{j..<j'} - set (kept_j (m # ms)) = {j..<mt_j m} \<union> ({mt_j m + mt_size m..<j'} - set (kept_j ms))"
    using m(1,2) r(2,3,6,7) by (auto simp: kept_Cons)
  have "foldM (align_match mx a rows) (m # ms) (i, j, c) = Some (i', j', c\<lparr>deletions := dels, insertions := inss\<rparr>)"
    using d(1) t(1) r(1) m(1,2) by (simp add: align_match_def max_absorb2)
  moreover have "set (kept_i (m # ms)) \<subseteq> {i..<i'}" "set (kept_j (m # ms)) \<subseteq> {j..<j'}"
    using m(1,2) r(2,3,6,7) by (auto simp: kept_Cons)
  moreover have "indexes dels = indexes (deletions c) \<union> ?d ` ({i..<i'} - set (kept_i (m # ms)))"
    "indexes inss = indexes (insertions c) \<union> ?t ` ({j..<j'} - set (kept_j (m # ms)))"
    unfolding gaps image_Un r(10,11) d(3) t(3) by (rule Un_assoc)+
  moreover have "i \<le> i'" "j \<le> j'" using m(1,2) r(2,3) by linarith+
  ultimately show ?case using r(4,5,8,9) by (intro exI conjI)
qed

subsection \<open>Rows that both sequences have\<close>

lemma sorted_first: "sorted (map (\<lambda>r. (f r, g r)) xs) \<Longrightarrow> sorted (map f xs)" for f g :: "'a \<Rightarrow> nat"
  unfolding sorted_map by (erule sorted_wrt_mono_rel [rotated]) (auto simp: less_eq_prod_def)

lemma old_sequence_facts:
  "length (old_sequence rows) = length rows"
  "set (old_sequence rows) = (\<lambda>row. \<lparr>lr_row_index = ri_row_index row, lr_tv_index = ri_prev_tv_index row\<rparr>) ` set rows"
  by (simp_all add: old_sequence_def)

lemma old_sequence_sorted:
  assumes "distinct (map ri_prev_tv_index rows)"
  shows "sorted_wrt (<) (map lr_tv_index (old_sequence rows))"
proof -
  let ?a = "old_sequence rows"
  have "sorted (map (\<lambda>r. (lr_tv_index r, lr_row_index r)) ?a)" by (simp add: old_sequence_def)
  then have "sorted (map lr_tv_index ?a)" by (rule sorted_first)
  moreover have "distinct (map lr_tv_index ?a)"
    using assms by (auto simp: old_sequence_def distinct_map inj_on_def)
  ultimately show ?thesis by (simp add: strict_sorted_iff)
qed

lemma new_sequence_ok:
  "b_ok (old_sequence rows) (new_sequence rows) (map ri_row_index rows)"
  "length (new_sequence rows) = length rows"
proof -
  let ?b = "new_sequence rows"
  have s: "set ?b = (\<lambda>i. \<lparr>lr_row_index = ri_row_index (rows ! i), lr_tv_index = i\<rparr>) ` {0..<length rows}"
    by (simp add: new_sequence_def)
  have "sorted (map (\<lambda>r. (lr_row_index r, lr_tv_index r)) ?b)" by (simp add: new_sequence_def)
  then have "sorted (map lr_row_index ?b)" by (rule sorted_first)
  moreover have "lr_row_index ` set ?b = ri_row_index ` set rows" unfolding s by (force simp: image_iff in_set_conv_nth)
  ultimately show "b_ok (old_sequence rows) ?b (map ri_row_index rows)"
    using s by (auto simp: b_ok_def old_sequence_facts image_image)
  show "length ?b = length rows" by (simp add: new_sequence_def)
qed

lemma calculate_moves_sorted_correct:
  assumes mx: "max_size_ok mx" and c: "index_set_ok mx (deletions c)" "index_set_ok mx (insertions c)"
  shows "\<exists>dels inss ks ls. calculate_moves_sorted mx rows c = Some (c\<lparr>deletions := dels, insertions := inss\<rparr>) \<and>
    sorted_wrt (<) ks \<and> sorted_wrt (<) ls \<and> set ks \<subseteq> {..<length rows} \<and> set ls \<subseteq> {..<length rows} \<and>
    map (\<lambda>k. lr_row_index (old_sequence rows ! k)) ks = map (\<lambda>k. ri_row_index (rows ! k)) ls \<and>
    index_set_ok mx dels \<and> index_set_ok mx inss \<and>
    indexes dels = indexes (deletions c) \<union> (\<lambda>k. lr_tv_index (old_sequence rows ! k)) ` ({..<length rows} - set ks) \<and>
    indexes inss = indexes (insertions c) \<union> (\<lambda>k. ri_tv_index (rows ! k)) ` ({..<length rows} - set ls)"
proof (cases "find (\<lambda>i. lr_row_index (old_sequence rows ! i) \<noteq> ri_row_index (rows ! i)) [0..<length rows]")
  case None
  let ?ns = "[0..<length rows]"
  have "\<forall>i < length rows. lr_row_index (old_sequence rows ! i) = ri_row_index (rows ! i)" using None by (simp add: find_None_iff)
  then have "map (\<lambda>k. lr_row_index (old_sequence rows ! k)) ?ns = map (\<lambda>k. ri_row_index (rows ! k)) ?ns" by simp
  moreover have "calculate_moves_sorted mx rows c = Some (c\<lparr>deletions := deletions c, insertions := insertions c\<rparr>)"
    using None by (simp add: calculate_moves_sorted_def old_sequence_facts)
  moreover have "{..<length rows} - set ?ns = {}" by auto
  ultimately show ?thesis using c
    by - (rule exI [of _ "deletions c"], rule exI [of _ "insertions c"], rule exI [of _ ?ns], rule exI [of _ ?ns], simp add: lessThan_atLeast0)
next
  case (Some d)
  let ?n = "length rows" and ?a = "old_sequence rows" and ?b = "new_sequence rows" and ?ys = "map ri_row_index rows"
  let ?P = "\<lambda>i. lr_row_index (?a ! i) \<noteq> ri_row_index (rows ! i)"
  have "\<exists>i < length [0..<?n]. ?P ([0..<?n] ! i) \<and> d = [0..<?n] ! i \<and> (\<forall>j < i. \<not> ?P ([0..<?n] ! j))"
    using Some by (simp only: find_Some_iff)
  then have d: "d < ?n" "\<forall>j < d. lr_row_index (?a ! j) = ri_row_index (rows ! j)" by auto
  obtain ms where ms: "find_longest_matches (modifications c) ?a ?b d ?n d ?n = Some ms" "chain ?a ?ys d d ms ?n ?n"
    using find_longest_matches_correct [OF new_sequence_ok(1), of d ?n rows d ?n "modifications c"] d(1) by (auto simp: old_sequence_facts)
  let ?last = "\<lparr>mt_i = ?n, mt_j = ?n, mt_size = 0, mt_modified = 0\<rparr>"
  let ?ms = "ms @ [?last]"
  have chain: "chain ?a ?ys d d ?ms ?n ?n" using chain_append [OF ms(2), of "[?last]" ?n ?n] by (simp add: same_block_def)
  have last: "i' = ?n \<and> j' = ?n" if "foldM (align_match mx ?a rows) ?ms (d, d, c) = Some (i', j', c')" "i' \<le> ?n" "j' \<le> ?n" for i' j' c'
    using that by (auto simp: foldM_append bind_eq_Some_conv align_match_def)
  obtain i' j' dels inss where r: "foldM (align_match mx ?a rows) ?ms (d, d, c) = Some (i', j', c\<lparr>deletions := dels, insertions := inss\<rparr>)"
    "i' \<le> ?n" "j' \<le> ?n" "index_set_ok mx dels" "index_set_ok mx inss"
    "indexes dels = indexes (deletions c) \<union> (\<lambda>k. lr_tv_index (?a ! k)) ` ({d..<i'} - set (kept_i ?ms))"
    "indexes inss = indexes (insertions c) \<union> (\<lambda>k. ri_tv_index (rows ! k)) ` ({d..<j'} - set (kept_j ?ms))"
    using align_correct [OF mx chain c, of rows] by - (elim exE conjE, rule that, assumption+)
  note l = last [OF r(1-3)]
  let ?ks = "[0..<d] @ kept_i ?ms" and ?ls = "[0..<d] @ kept_j ?ms"
  note k = kept_range [OF chain] kept_sorted [OF chain] kept_same [OF chain]
  have "calculate_moves_sorted mx rows c = Some (c\<lparr>deletions := dels, insertions := inss\<rparr>)"
    using Some ms(1) r(1) by (simp add: calculate_moves_sorted_def old_sequence_facts longest_matches_def new_sequence_ok(2))
  moreover have "sorted_wrt (<) ?ks" "sorted_wrt (<) ?ls" using k(1,2) by (auto simp: sorted_wrt_append)
  moreover have s: "set ?ks \<subseteq> {..<?n}" "set ?ls \<subseteq> {..<?n}" using k(1) d(1) by auto
  moreover have "map (\<lambda>k. lr_row_index (?a ! k)) ?ks = map (\<lambda>k. ri_row_index (rows ! k)) ?ls"
  proof -
    have "map (\<lambda>k. ?ys ! k) (kept_j ?ms) = map (\<lambda>k. ri_row_index (rows ! k)) (kept_j ?ms)" using k(1) by (intro map_cong) auto
    then show ?thesis using k(3) d(2) by simp
  qed
  moreover have "indexes dels = indexes (deletions c) \<union> (\<lambda>k. lr_tv_index (?a ! k)) ` ({..<?n} - set ?ks)"
  proof -
    have "{d..<i'} - set (kept_i ?ms) = {..<?n} - set ?ks" using l by auto
    then show ?thesis using r(6) by (simp only:)
  qed
  moreover have "indexes inss = indexes (insertions c) \<union> (\<lambda>k. ri_tv_index (rows ! k)) ` ({..<?n} - set ?ls)"
  proof -
    have "{d..<j'} - set (kept_j ?ms) = {..<?n} - set ?ls" using l by auto
    then show ?thesis using r(7) by (simp only:)
  qed
  ultimately show ?thesis using r(4,5) by (intro exI conjI)
qed

subsection \<open>The change turns one sequence into the other\<close>

definition sort_ok :: "((row_info \<Rightarrow> nat) \<Rightarrow> row_info list \<Rightarrow> row_info list) \<Rightarrow> bool" where
  "sort_ok srt \<longleftrightarrow> (\<forall>f xs. mset (srt f xs) = mset xs \<and> sorted (map f (srt f xs)))"

lemma sort_ok_facts:
  assumes "sort_ok srt"
  shows "set (srt f xs) = set xs" "distinct (map g (srt f xs)) \<longleftrightarrow> distinct (map g xs)"
proof -
  have m: "mset (srt f xs) = mset xs" using assms by (simp add: sort_ok_def)
  then show "set (srt f xs) = set xs" by (rule mset_eq_setD)
  have "mset (map g (srt f xs)) = mset (map g xs)" using m by simp
  then show "distinct (map g (srt f xs)) \<longleftrightarrow> distinct (map g xs)" by (rule mset_eq_imp_distinct_iff)
qed

lemma old_rows_correct:
  assumes mx: "max_size_ok mx"
  shows "\<exists>deleted dels olds. foldM (old_row mx prev) [0..<length prev] (0, [], []) = Some (deleted, dels, olds) \<and>
    index_set_ok mx dels \<and> indexes dels = {i. i < length prev \<and> prev ! i = npos} \<and>
    map ri_tv_index olds = filter (\<lambda>i. prev ! i \<noteq> npos) [0..<length prev] \<and>
    (\<forall>old \<in> set olds. ri_row_index old = prev ! ri_tv_index old \<and>
       ri_shifted_tv_index old = card {i. i < ri_tv_index old \<and> prev ! i \<noteq> npos})"
proof -
  let ?I = "\<lambda>done (deleted :: nat, dels, olds :: row_info list). index_set_ok mx dels \<and> indexes dels = {i \<in> set done. prev ! i = npos} \<and>
    deleted = card {i. i < length done \<and> prev ! i = npos} \<and> map ri_tv_index olds = filter (\<lambda>i. prev ! i \<noteq> npos) done \<and>
    (\<forall>old \<in> set olds. ri_row_index old = prev ! ri_tv_index old \<and>
       ri_shifted_tv_index old = card {i. i < ri_tv_index old \<and> prev ! i \<noteq> npos})"
  have "\<exists>t. foldM (old_row mx prev) [0..<length prev] (0, [], []) = Some t \<and> ?I [0..<length prev] t"
  proof (rule foldM_invariant [where I = ?I])
    show "?I [] (0, [], [])" by simp
  next
    fix as i bs t
    assume split: "[0..<length prev] = as @ i # bs" and I: "?I as t"
    have "[0..<length prev] ! length as = i" "length as < length [0..<length prev]" unfolding split by simp_all
    then have i: "i = length as" by simp
    have n: "card {k. k < length as \<and> prev ! k = npos} + card {k. k < length as \<and> prev ! k \<noteq> npos} = length as"
    proof -
      have "{..<length as} = {k. k < length as \<and> prev ! k = npos} \<union> {k. k < length as \<and> prev ! k \<noteq> npos}" by auto
      then have "length as = card ({k. k < length as \<and> prev ! k = npos} \<union> {k. k < length as \<and> prev ! k \<noteq> npos})"
        using card_lessThan by metis
      then show ?thesis by (subst (asm) card_Un_disjoint) auto
    qed
    have m: "card {k. k < Suc (length as) \<and> prev ! k = npos} =
      (if prev ! length as = npos then Suc (card {k. k < length as \<and> prev ! k = npos}) else card {k. k < length as \<and> prev ! k = npos})"
    proof -
      have "{k. k < Suc (length as) \<and> prev ! k = npos} = (if prev ! length as = npos then insert (length as) {k. k < length as \<and> prev ! k = npos}
        else {k. k < length as \<and> prev ! k = npos})" by (auto simp: less_Suc_eq)
      then show ?thesis by simp
    qed
    obtain deleted dels olds where t: "t = (deleted, dels, olds)" by (cases t)
    have d: "index_set_ok mx dels" using I t by simp
    obtain w where "is_add mx i dels = Some w" "index_set_ok mx w" "indexes w = insert i (indexes dels)"
      using is_add_correct [OF d mx] by blast
    then show "\<exists>t'. old_row mx prev i t = Some t' \<and> ?I (as @ [i]) t'" using I t n m i by (auto simp: old_row_def)
  qed
  then show ?thesis by auto
qed

lemma both_map_eq:
  assumes "map f xs = map f ys" "map g xs = map g ys" "x \<in> set xs"
  shows "\<exists>y \<in> set ys. f y = f x \<and> g y = g x"
proof -
  obtain i where i: "i < length xs" "x = xs ! i" using assms(3) by (auto simp: in_set_conv_nth)
  have "length xs = length ys" using assms(1) by (metis length_map)
  then have "ys ! i \<in> set ys" "f (ys ! i) = f x" "g (ys ! i) = g x"
    using i assms(1,2) by (auto simp: list_eq_iff_nth_eq)
  then show ?thesis by blast
qed

definition matched_ok :: "nat list \<Rightarrow> nat list \<Rightarrow> row_info list \<Rightarrow> bool" where
  "matched_ok prev new rows \<longleftrightarrow> sorted_wrt (<) (map ri_tv_index rows) \<and> distinct (map ri_prev_tv_index rows) \<and>
     (\<forall>r \<in> set rows. ri_prev_tv_index r < length prev \<and> prev ! ri_prev_tv_index r = ri_row_index r \<and> ri_row_index r \<noteq> npos \<and>
        ri_shifted_tv_index r = card {i. i < ri_prev_tv_index r \<and> prev ! i \<noteq> npos} \<and>
        ri_tv_index r < length new \<and> new ! ri_tv_index r = ri_row_index r)"

lemma matched_rows:
  assumes olds: "map ri_tv_index olds = filter (\<lambda>i. prev ! i \<noteq> npos) [0..<length prev]"
    "\<forall>old \<in> set olds. ri_row_index old = prev ! ri_tv_index old \<and>
       ri_shifted_tv_index old = card {i. i < ri_tv_index old \<and> prev ! i \<noteq> npos}" and n: "length prev \<le> npos" and srt: "sort_ok srt"
    and p: "pairs_ok (srt ri_row_index olds) (srt ri_row_index (map (new_row new) [0..<length new])) rows D I"
  defines "rs \<equiv> sort_key ri_tv_index (filter (\<lambda>row. ri_prev_tv_index row \<noteq> npos) rows)"
  shows "matched_ok prev new rs"
    and "D = {i. i < length prev \<and> prev ! i \<noteq> npos} - ri_prev_tv_index ` set rs"
    and "I = {..<length new} - ri_tv_index ` set rs"
proof -
  let ?news = "srt ri_row_index (map (new_row new) [0..<length new])"
  have o: "ri_tv_index ` set olds = {i. i < length prev \<and> prev ! i \<noteq> npos}"
    using arg_cong [OF olds(1), of set] by auto
  have s: "set (srt ri_row_index olds) = set olds" "set ?news = new_row new ` {..<length new}"
    using sort_ok_facts(1) [OF srt] by (simp_all add: lessThan_atLeast0)
  note pd = p [unfolded pairs_ok_def]
  have tv: "ri_tv_index ` set rows = {..<length new}"
  proof -
    have "set (map ri_tv_index rows) = set (map ri_tv_index ?news)" using pd by simp
    then show ?thesis by (simp add: s(2) image_image new_row_def)
  qed
  have dt: "distinct (map ri_tv_index rows)"
  proof -
    have "distinct (map ri_tv_index ?news)" unfolding sort_ok_facts(2) [OF srt] by (simp add: new_row_def comp_def)
    then show ?thesis using pd by simp
  qed
  have rs: "set rs = {r \<in> set rows. ri_prev_tv_index r \<noteq> npos}" by (auto simp: rs_def)
  have row: "ri_tv_index r < length new \<and> new ! ri_tv_index r = ri_row_index r" if r: "r \<in> set rows" for r
  proof -
    obtain q where "q \<in> set ?news" "ri_tv_index q = ri_tv_index r" "ri_row_index q = ri_row_index r"
      using both_map_eq [OF conjunct1 [OF pd] conjunct1 [OF conjunct2 [OF pd]] r] by blast
    then show ?thesis unfolding s(2) by (auto simp: new_row_def)
  qed
  have old: "ri_prev_tv_index r < length prev \<and> prev ! ri_prev_tv_index r = ri_row_index r \<and> ri_row_index r \<noteq> npos \<and>
      ri_shifted_tv_index r = card {i. i < ri_prev_tv_index r \<and> prev ! i \<noteq> npos}" if r: "r \<in> set rs" for r
  proof -
    obtain q where q: "q \<in> set olds" "ri_tv_index q = ri_prev_tv_index r" "ri_row_index q = ri_row_index r"
      "ri_shifted_tv_index q = ri_shifted_tv_index r" using pd r s(1) unfolding rs by blast
    then have "ri_tv_index q \<in> {i. i < length prev \<and> prev ! i \<noteq> npos}" using o by blast
    then show ?thesis using q olds(2) by auto
  qed
  have inj: "inj_on ri_tv_index (set rows)" "distinct rows" using dt by (simp_all add: distinct_map)
  then have "distinct (map ri_tv_index rs)" by (auto simp: rs_def distinct_map inj_on_def)
  moreover have "distinct (map ri_prev_tv_index (filter (\<lambda>row. ri_prev_tv_index row \<noteq> npos) rows))"
    using pd by (simp add: comp_def)
  then have "distinct (map ri_prev_tv_index rs)" by (auto simp: rs_def distinct_map)
  moreover have "sorted (map ri_tv_index rs)" by (simp add: rs_def)
  ultimately have "sorted (map ri_tv_index rs)" "distinct (map ri_tv_index rs)" "distinct (map ri_prev_tv_index rs)" by blast+
  then show "matched_ok prev new rs" using row old rs by (simp add: matched_ok_def strict_sorted_iff)
  show "D = {i. i < length prev \<and> prev ! i \<noteq> npos} - ri_prev_tv_index ` set rs"
    using pd n unfolding s(1) o rs by auto
  show "I = {..<length new} - ri_tv_index ` set rs" using pd inj(1) unfolding tv [symmetric] rs by (auto simp: inj_on_def)
qed

lemma keep_part:
  assumes gs: "sorted_wrt (<) gs" "set gs \<subseteq> {..<length xs}" and ks: "sorted_wrt (<) ks" "set ks \<subseteq> {..<length gs}"
    and D: "D = ({..<length xs} - set gs) \<union> (\<lambda>k. gs ! k) ` ({..<length gs} - set ks)"
  shows "keep xs D = map (\<lambda>k. xs ! (gs ! k)) ks"
proof -
  have mono: "i < j \<Longrightarrow> j < length gs \<Longrightarrow> gs ! i < gs ! j" for i j using gs(1) by (simp add: sorted_wrt_iff_nth_less)
  have "sorted_wrt (<) (map (\<lambda>k. gs ! k) ks)"
    unfolding sorted_wrt_map using ks by (auto intro: mono elim!: sorted_wrt_mono_rel [rotated])
  moreover have "set (map (\<lambda>k. gs ! k) ks) = {..<length xs} - D"
  proof -
    have inj: "gs ! i = gs ! j \<longleftrightarrow> i = j" if "i < length gs" "j < length gs" for i j
      using that mono [of i j] mono [of j i] by (metis less_irrefl linorder_neqE_nat)
    have "set gs = (\<lambda>k. gs ! k) ` {..<length gs}" by (auto simp: set_conv_nth)
    then have g: "{..<length xs} - D = (\<lambda>k. gs ! k) ` {..<length gs} - (\<lambda>k. gs ! k) ` ({..<length gs} - set ks)"
      using gs(2) D by blast
    show ?thesis unfolding g using ks(2) by (auto simp: inj subset_iff)
  qed
  ultimately show ?thesis by (simp add: keep_positions comp_def)
qed

lemma mark_all:
  assumes "index_set_ok mx v" "S st" and mx: "max_size_ok mx" and ans: "answers R S did"
  shows "\<exists>v' st'. foldM (mark_changed mx did) rs (v, st) = Some (v', st') \<and> index_set_ok mx v' \<and>
    indexes v' = indexes v \<union> ri_tv_index ` {r \<in> set rs. R (ri_row_index r)}"
  using assms(1,2)
proof (induction rs arbitrary: v st)
  case (Cons r rs)
  obtain st1 where st1: "did (ri_row_index r) st = Some (R (ri_row_index r), st1)" "S st1"
    using ans Cons.prems(2) by (auto simp: answers_def)
  show ?case
  proof (cases "R (ri_row_index r)")
    case True
    obtain w where w: "is_add mx (ri_tv_index r) v = Some w" "index_set_ok mx w" "indexes w = insert (ri_tv_index r) (indexes v)"
      using is_add_correct [OF Cons.prems(1) mx] by blast
    then show ?thesis using Cons.IH [OF w(2) st1(2)] st1(1) True by (auto simp: mark_changed_def)
  next
    case False
    then show ?thesis using Cons.IH [OF Cons.prems(1) st1(2)] st1(1) by (auto simp: mark_changed_def)
  qed
qed simp

text \<open>From the rows that both sequences have on.\<close>

lemma sorted_changes:
  assumes mx: "max_size_ok mx" and rs: "matched_ok prev new rs"
    and c: "index_set_ok mx (deletions c)" "index_set_ok mx (insertions c)" and w: "index_set_ok mx removed"
    and d: "indexes (deletions c) \<union> indexes removed = {..<length prev} - ri_prev_tv_index ` set rs"
    and i: "indexes (insertions c) = {..<length new} - ri_tv_index ` set rs"
  shows "\<exists>dels inss dels'. calculate_moves_sorted mx rs c = Some (c\<lparr>deletions := dels, insertions := inss\<rparr>) \<and>
    is_add_set mx removed dels = Some dels' \<and> index_set_ok mx dels' \<and> index_set_ok mx inss \<and>
    indexes dels' \<subseteq> {..<length prev} \<and> indexes inss \<subseteq> {..<length new} \<and> indexes (insertions c) \<subseteq> indexes inss \<and>
    keep prev (indexes dels') = keep new (indexes inss)"
proof -
  let ?a = "old_sequence rs" and ?n = "length rs"
  note r = rs [unfolded matched_ok_def]
  obtain dels inss ks ls where k: "calculate_moves_sorted mx rs c = Some (c\<lparr>deletions := dels, insertions := inss\<rparr>)"
    "sorted_wrt (<) ks" "sorted_wrt (<) ls" "set ks \<subseteq> {..<?n}" "set ls \<subseteq> {..<?n}"
    "map (\<lambda>k. lr_row_index (?a ! k)) ks = map (\<lambda>k. ri_row_index (rs ! k)) ls"
    "index_set_ok mx dels" "index_set_ok mx inss"
    "indexes dels = indexes (deletions c) \<union> (\<lambda>k. lr_tv_index (?a ! k)) ` ({..<?n} - set ks)"
    "indexes inss = indexes (insertions c) \<union> (\<lambda>k. ri_tv_index (rs ! k)) ` ({..<?n} - set ls)"
    using calculate_moves_sorted_correct [OF mx c, of rs] by - (elim exE conjE, rule that, assumption+)
  obtain dels' where d': "is_add_set mx removed dels = Some dels'" "index_set_ok mx dels'"
    "indexes dels' = indexes dels \<union> indexes removed" using is_add_set_correct [OF k(7) w mx] by blast
  let ?gs = "map lr_tv_index ?a" and ?ts = "map ri_tv_index rs"
  have a: "prev ! lr_tv_index x = lr_row_index x \<and> lr_tv_index x < length prev" if "x \<in> set ?a" for x
    using that r by (auto simp: old_sequence_facts)
  have gs: "set ?gs = ri_prev_tv_index ` set rs" "length ?gs = ?n" by (simp_all add: old_sequence_facts image_image)
  have D: "indexes dels' = ({..<length prev} - set ?gs) \<union> (\<lambda>k. ?gs ! k) ` ({..<length ?gs} - set ks)"
  proof -
    have "(\<lambda>k. lr_tv_index (?a ! k)) ` ({..<?n} - set ks) = (\<lambda>k. ?gs ! k) ` ({..<length ?gs} - set ks)"
      by (intro image_cong) (simp_all add: old_sequence_facts)
    then show ?thesis unfolding d'(3) k(9) gs(1) d [symmetric] by blast
  qed
  have I: "indexes inss = ({..<length new} - set ?ts) \<union> (\<lambda>k. ?ts ! k) ` ({..<length ?ts} - set ls)"
  proof -
    have "(\<lambda>k. ri_tv_index (rs ! k)) ` ({..<?n} - set ls) = (\<lambda>k. ?ts ! k) ` ({..<length ?ts} - set ls)" by (intro image_cong) simp_all
    then show ?thesis unfolding k(10) i by simp
  qed
  have sub: "set ?gs \<subseteq> {..<length prev}" "set ?ts \<subseteq> {..<length new}" using a r by auto
  have "keep prev (indexes dels') = map (\<lambda>k. prev ! (?gs ! k)) ks"
    using r k(4) gs(2) by (intro keep_part [OF old_sequence_sorted sub(1) k(2) _ D]) auto
  also have "\<dots> = map (\<lambda>k. lr_row_index (?a ! k)) ks"
  proof (intro map_cong refl)
    fix x assume "x \<in> set ks"
    then have "x < length ?a" using k(4) by (auto simp: old_sequence_facts)
    then show "prev ! (?gs ! x) = lr_row_index (?a ! x)" using a [OF nth_mem] by simp
  qed
  also have "\<dots> = map (\<lambda>k. new ! (?ts ! k)) ls" unfolding k(6) using k(5) r by (intro map_cong) (auto simp: subset_iff)
  also have "\<dots> = keep new (indexes inss)"
    using r k(5) by (intro keep_part [OF _ sub(2) k(3) _ I, symmetric]) auto
  finally have "keep prev (indexes dels') = keep new (indexes inss)" .
  moreover have "indexes dels' \<subseteq> {..<length prev}" unfolding D using sub(1) by (auto simp: subset_iff)
  moreover have "indexes inss \<subseteq> {..<length new}" unfolding I using sub(2) by (auto simp: subset_iff)
  ultimately show ?thesis using k(1,8,10) d'(1,2) by blast
qed

lemma sort_key_ok: "sort_ok sort_key"
  by (simp add: sort_ok_def)

lemma changed_iff:
  assumes "matched_ok prev new rs" "t \<in> ri_tv_index ` set rs"
  shows "t \<in> ri_tv_index ` {r \<in> set rs. did (ri_row_index r)} \<longleftrightarrow> did (new ! t)"
proof -
  obtain r where r: "r \<in> set rs" "t = ri_tv_index r" using assms(2) by blast
  have "inj_on ri_tv_index (set rs)" using assms(1) by (simp add: matched_ok_def strict_sorted_iff distinct_map)
  then have unique: "r' = r" if "r' \<in> set rs" "ri_tv_index r' = t" for r' using that r by (meson inj_onD)
  have new: "new ! t = ri_row_index r" using assms(1) r unfolding matched_ok_def by blast
  show ?thesis
  proof
    assume "t \<in> ri_tv_index ` {r \<in> set rs. did (ri_row_index r)}"
    then obtain r' where "r' \<in> set rs" "ri_tv_index r' = t" "did (ri_row_index r')" by blast
    then show "did (new ! t)" using unique new by metis
  next
    assume "did (new ! t)"
    then show "t \<in> ri_tv_index ` {r \<in> set rs. did (ri_row_index r)}"
      unfolding r(2) using r new by (intro imageI) simp
  qed
qed

lemma calculate_start:
  assumes "max_size_ok mx" "sort_ok srt" "length prev \<le> npos" "answers R S did" "S st"
  shows "\<exists>c removed rs. calculate mx srt prev new did st move_candidates = do {
       (removed, ret) \<leftarrow> (case move_candidates of
           Some candidates \<Rightarrow> calculate_moves_unsorted mx rs removed candidates c
         | None \<Rightarrow> map_option (Pair removed) (calculate_moves_sorted mx rs c));
       d \<leftarrow> is_add_set mx removed (deletions ret);
       Some (ret\<lparr>deletions := d\<rparr>)
     } \<and> matched_ok prev new rs \<and> index_set_ok mx removed \<and> index_set_ok mx (deletions c) \<and> index_set_ok mx (insertions c) \<and>
     index_set_ok mx (modifications c) \<and> moves c = [] \<and> indexes (deletions c) = {i. i < length prev \<and> prev ! i = npos} \<and>
     indexes removed = {i. i < length prev \<and> prev ! i \<noteq> npos} - ri_prev_tv_index ` set rs \<and>
     indexes (insertions c) = {..<length new} - ri_tv_index ` set rs \<and>
     indexes (modifications c) = ri_tv_index ` {r \<in> set rs. R (ri_row_index r)}"
proof -
  note mx = assms(1) and srt = assms(2)
  obtain deleted dels olds where olds: "foldM (old_row mx prev) [0..<length prev] (0, [], []) = Some (deleted, dels, olds)"
    "index_set_ok mx dels" "indexes dels = {i. i < length prev \<and> prev ! i = npos}"
    "map ri_tv_index olds = filter (\<lambda>i. prev ! i \<noteq> npos) [0..<length prev]"
    "\<forall>old \<in> set olds. ri_row_index old = prev ! ri_tv_index old \<and>
       ri_shifted_tv_index old = card {i. i < ri_tv_index old \<and> prev ! i \<noteq> npos}" using old_rows_correct [OF mx, of prev] by blast
  let ?olds = "srt ri_row_index olds" and ?news = "srt ri_row_index (map (new_row new) [0..<length new])"
  have tvs: "distinct (map ri_tv_index olds)" "set (map ri_tv_index olds) \<subseteq> {..<length prev}" unfolding olds(4) by auto
  have "distinct (map ri_tv_index ?olds)" unfolding sort_ok_facts(2) [OF srt] by (rule tvs(1))
  moreover have "\<forall>old \<in> set ?olds. ri_tv_index old \<noteq> npos" "\<forall>r \<in> set ?news. unmatched r"
    unfolding sort_ok_facts(1) [OF srt] using assms(3) tvs(2) by (auto simp: new_row_def)
  ultimately obtain rows removed inss D I where p: "pair_rows mx ?olds ?news [] [] = Some (rows, removed, inss)"
    "index_set_ok mx removed" "index_set_ok mx inss" "pairs_ok ?olds ?news rows D I"
    "indexes removed = indexes [] \<union> D" "indexes inss = indexes [] \<union> I"
    using pair_rows_correct [OF mx, of "[]" "[]" ?olds ?news] by auto
  let ?rs = "sort_key ri_tv_index (filter (\<lambda>row. ri_prev_tv_index row \<noteq> npos) rows)"
  note rs = matched_rows [OF olds(4,5) assms(3) srt p(4)]
  obtain mods st' where mods: "foldM (mark_changed mx did) ?rs ([], st) = Some (mods, st')" "index_set_ok mx mods"
    "indexes mods = indexes [] \<union> ri_tv_index ` {r \<in> set ?rs. R (ri_row_index r)}"
    using mark_all [OF _ assms(5) mx assms(4), of "[]" ?rs] by auto
  let ?c = "cb_default\<lparr>deletions := dels, insertions := inss, modifications := mods\<rparr>"
  have "calculate mx srt prev new did st move_candidates = do {
       (removed, ret) \<leftarrow> (case move_candidates of
           Some candidates \<Rightarrow> calculate_moves_unsorted mx ?rs removed candidates ?c
         | None \<Rightarrow> map_option (Pair removed) (calculate_moves_sorted mx ?rs ?c));
       d \<leftarrow> is_add_set mx removed (deletions ret);
       Some (ret\<lparr>deletions := d\<rparr>)
     }" using olds(1) p(1) mods(1) by (simp add: calculate_def Let_def)
  then show ?thesis using olds(2,3) p(2,3,5,6) mods(2,3) rs
    by - (rule exI [of _ ?c], rule exI [of _ removed], rule exI [of _ ?rs], simp add: cb_default_def)
qed

lemma calculate_sorted:
  assumes "max_size_ok mx" "sort_ok srt" "length prev \<le> npos" "answers R S did" "S st"
  shows "\<exists>ret. calculate mx srt prev new did st None = Some ret \<and>
    index_set_ok mx (deletions ret) \<and> index_set_ok mx (insertions ret) \<and> index_set_ok mx (modifications ret) \<and> moves ret = [] \<and>
    indexes (deletions ret) \<subseteq> {..<length prev} \<and> indexes (insertions ret) \<subseteq> {..<length new} \<and>
    keep prev (indexes (deletions ret)) = keep new (indexes (insertions ret)) \<and>
    (\<forall>t < length new. t \<notin> indexes (insertions ret) \<longrightarrow> t \<in> indexes (modifications ret) \<longleftrightarrow> R (new ! t))"
proof -
  obtain c removed rs where calc: "calculate mx srt prev new did st None = do {
       (removed, ret) \<leftarrow> (case None of
           Some candidates \<Rightarrow> calculate_moves_unsorted mx rs removed candidates c
         | None \<Rightarrow> map_option (Pair removed) (calculate_moves_sorted mx rs c));
       d \<leftarrow> is_add_set mx removed (deletions ret);
       Some (ret\<lparr>deletions := d\<rparr>)
     }" and rs: "matched_ok prev new rs" and ok: "index_set_ok mx removed" "index_set_ok mx (deletions c)" "index_set_ok mx (insertions c)"
    "index_set_ok mx (modifications c)" "moves c = []" and D: "indexes (deletions c) = {i. i < length prev \<and> prev ! i = npos}"
    "indexes removed = {i. i < length prev \<and> prev ! i \<noteq> npos} - ri_prev_tv_index ` set rs"
    and I: "indexes (insertions c) = {..<length new} - ri_tv_index ` set rs"
    and M: "indexes (modifications c) = ri_tv_index ` {r \<in> set rs. R (ri_row_index r)}"
    using calculate_start [OF assms, of new None] by - (elim exE conjE, rule that, assumption+)
  have d: "indexes (deletions c) \<union> indexes removed = {..<length prev} - ri_prev_tv_index ` set rs"
    using rs D unfolding matched_ok_def by auto
  obtain d i d' where s: "calculate_moves_sorted mx rs c = Some (c\<lparr>deletions := d, insertions := i\<rparr>)"
    "is_add_set mx removed d = Some d'" "index_set_ok mx d'" "index_set_ok mx i"
    "indexes d' \<subseteq> {..<length prev}" "indexes i \<subseteq> {..<length new}" "indexes (insertions c) \<subseteq> indexes i"
    "keep prev (indexes d') = keep new (indexes i)"
    using sorted_changes [OF assms(1) rs ok(2,3,1) d I] by - (elim exE conjE, rule that, assumption+)
  have "t \<in> indexes (modifications c) \<longleftrightarrow> R (new ! t)" if "t < length new" "t \<notin> indexes i" for t
    unfolding M using that s(7) I by (intro changed_iff [OF rs]) blast
  moreover have "calculate mx srt prev new did st None = Some (c\<lparr>deletions := d', insertions := i\<rparr>)" using calc s(1,2) by simp
  ultimately show ?thesis using s(3-6,8) ok(4,5)
    by (intro exI [of _ "c\<lparr>deletions := d', insertions := i\<rparr>"]) simp
qed

subsection \<open>Rows in the order of the table\<close>

text \<open>
  The rows handled so far, those of them that stay, and the state of the loop: what comes is behind what stays in the
  old sequence, too.
\<close>

definition moving_ok :: "nat list \<Rightarrow> row_info list \<Rightarrow> row_info list \<Rightarrow> row_info list \<Rightarrow> row_info set \<Rightarrow> nat \<Rightarrow> bool" where
  "moving_ok prev rs ds ps stay expected \<longleftrightarrow> rs = ds @ ps \<and> stay \<subseteq> set ds \<and>
     (\<forall>s \<in> stay. \<forall>p \<in> set ps. ri_prev_tv_index s < ri_prev_tv_index p) \<and>
     (\<forall>s \<in> stay. \<forall>s' \<in> stay. ri_tv_index s < ri_tv_index s' \<longrightarrow> ri_prev_tv_index s < ri_prev_tv_index s') \<and>
     (stay = {} \<and> expected = 0 \<or> (\<exists>s \<in> stay. expected = ri_shifted_tv_index s + 1))"

lemma shifted_mono:
  assumes "matched_ok prev new rs" "r \<in> set rs" "s \<in> set rs" "ri_prev_tv_index r < ri_prev_tv_index s"
  shows "ri_shifted_tv_index r < ri_shifted_tv_index s"
proof -
  have k: "ri_shifted_tv_index r = card {i. i < ri_prev_tv_index r \<and> prev ! i \<noteq> npos}"
    "ri_shifted_tv_index s = card {i. i < ri_prev_tv_index s \<and> prev ! i \<noteq> npos}" "prev ! ri_prev_tv_index r \<noteq> npos"
    using assms(1-3) by (simp_all add: matched_ok_def)
  have "{i. i < ri_prev_tv_index r \<and> prev ! i \<noteq> npos} \<subset> {i. i < ri_prev_tv_index s \<and> prev ! i \<noteq> npos}"
    using assms(4) k(3) by auto
  then show ?thesis unfolding k(1,2) by (intro psubset_card_mono) simp_all
qed

text \<open>A row that stays: nothing that comes was before it.\<close>

lemma moving_ok_stay:
  assumes rs: "matched_ok prev new rs" and m: "moving_ok prev rs ds (r # ps) stay expected"
    and first: "\<forall>p \<in> set ps. ri_prev_tv_index r < ri_prev_tv_index p"
  shows "moving_ok prev rs (ds @ [r]) ps (insert r stay) (ri_shifted_tv_index r + 1)"
proof -
  have k: "rs = ds @ r # ps" "stay \<subseteq> set ds" using m by (simp_all add: moving_ok_def)
  then have tv: "\<forall>s \<in> stay. ri_tv_index s < ri_tv_index r" using rs by (auto simp: matched_ok_def sorted_wrt_append)
  have prev: "\<forall>s \<in> stay. ri_prev_tv_index s < ri_prev_tv_index r" using m by (simp add: moving_ok_def)
  have "\<forall>s \<in> stay. \<forall>s' \<in> stay. ri_tv_index s < ri_tv_index s' \<longrightarrow> ri_prev_tv_index s < ri_prev_tv_index s'"
    using m by (simp add: moving_ok_def)
  then have "\<forall>s \<in> insert r stay. \<forall>s' \<in> insert r stay. ri_tv_index s < ri_tv_index s' \<longrightarrow> ri_prev_tv_index s < ri_prev_tv_index s'"
    using tv prev by (metis insert_iff less_asym)
  moreover have "\<forall>s \<in> insert r stay. \<forall>p \<in> set ps. ri_prev_tv_index s < ri_prev_tv_index p"
    using m first by (simp add: moving_ok_def)
  ultimately show ?thesis using k by (simp add: moving_ok_def) blast
qed

lemma moving_ok_leave: "moving_ok prev rs ds (r # ps) stay expected \<Longrightarrow> moving_ok prev rs (ds @ [r]) ps stay expected"
  by (auto simp: moving_ok_def)

lemma expected_first:
  assumes rs: "matched_ok prev new rs" and m: "moving_ok prev rs ds (r # ps) stay (ri_shifted_tv_index r)" and p: "p \<in> set ps"
  shows "ri_prev_tv_index r < ri_prev_tv_index p"
proof (rule ccontr)
  assume "\<not> ri_prev_tv_index r < ri_prev_tv_index p"
  moreover have k: "rs = ds @ r # ps" "stay \<subseteq> set ds" using m by (simp_all add: moving_ok_def)
  then have "ri_prev_tv_index r \<noteq> ri_prev_tv_index p" using rs p by (auto simp: matched_ok_def)
  ultimately have "ri_shifted_tv_index p < ri_shifted_tv_index r" using shifted_mono [OF rs, of p r] p k by auto
  moreover have "ri_shifted_tv_index s < ri_shifted_tv_index p" if "s \<in> stay" for s
    using shifted_mono [OF rs, of s p] that m p k by (auto simp: moving_ok_def)
  moreover have "stay = {} \<and> ri_shifted_tv_index r = 0 \<or> (\<exists>s \<in> stay. ri_shifted_tv_index r = ri_shifted_tv_index s + 1)"
    using m by (simp add: moving_ok_def)
  ultimately show False by fastforce
qed

text \<open>What \<open>calc_expected\<close> counts: the rows that stay and the ones removed before a row; missing are those still to come.\<close>

lemma stay_count:
  assumes rs: "matched_ok prev new rs" and m: "moving_ok prev rs ds (r # ps) stay expected"
    and I: "I = {..<length new} - ri_tv_index ` set rs"
  shows "ri_tv_index r - card ((I \<union> ri_tv_index ` (set ds - stay)) \<inter> {..<ri_tv_index r}) = card stay"
proof -
  let ?X = "(I \<union> ri_tv_index ` (set ds - stay)) \<inter> {..<ri_tv_index r}" and ?t = "ri_tv_index r"
  have k: "rs = ds @ r # ps" "stay \<subseteq> set ds" using m by (simp_all add: moving_ok_def)
  have inj: "inj_on ri_tv_index (set rs)" using rs by (simp add: matched_ok_def strict_sorted_iff distinct_map)
  have lt: "\<forall>s \<in> set ds. ri_tv_index s < ?t" "\<forall>p \<in> set ps. ?t < ri_tv_index p" "?t < length new"
    using rs k(1) by (auto simp: matched_ok_def sorted_wrt_append)
  have "ri_tv_index ` set rs \<inter> {..<?t} = ri_tv_index ` set ds" using lt k(1) by auto
  then have u: "{..<?t} = (I \<inter> {..<?t}) \<union> ri_tv_index ` set ds" using lt(3) I by auto
  have e: "ri_tv_index ` set ds = ri_tv_index ` (set ds - stay) \<union> ri_tv_index ` stay" using k(2) by blast
  have l: "ri_tv_index ` (set ds - stay) \<subseteq> {..<?t}" using lt(1) by auto
  have "A = (I \<inter> A) \<union> C \<Longrightarrow> C = E \<union> F \<Longrightarrow> E \<subseteq> A \<Longrightarrow> A = ((I \<union> E) \<inter> A) \<union> F" for A C E F :: "nat set" by blast
  from this [OF u e l] have "{..<?t} = ?X \<union> ri_tv_index ` stay" .
  moreover have "?X \<inter> ri_tv_index ` stay = {}"
  proof -
    have "I \<inter> ri_tv_index ` stay = {}" using I k by auto
    moreover have "ri_tv_index ` (set ds - stay) \<inter> ri_tv_index ` stay = {}"
      using inj_on_image_set_diff [OF inj, of "set ds" stay] k by auto
    ultimately show ?thesis by blast
  qed
  ultimately have "?t = card ?X + card (ri_tv_index ` stay)"
    using card_Un_disjoint [of ?X "ri_tv_index ` stay"] finite_subset [OF k(2)] by (metis card_lessThan finite_Int finite_lessThan finite_imageI finite_set)
  moreover have "card (ri_tv_index ` stay) = card stay"
    using inj_on_subset [OF inj] k by (intro card_image) auto
  ultimately show ?thesis by simp
qed

lemma shifted_count:
  assumes rs: "matched_ok prev new rs" and m: "moving_ok prev rs ds (r # ps) stay expected"
    and D: "D = {i. i < length prev \<and> prev ! i \<noteq> npos} - ri_prev_tv_index ` set rs"
  shows "ri_shifted_tv_index r = card ((D \<union> ri_prev_tv_index ` (set ds - stay)) \<inter> {..<ri_prev_tv_index r}) + card stay +
    card {p \<in> set ps. ri_prev_tv_index p < ri_prev_tv_index r}"
proof -
  let ?u = "ri_prev_tv_index r"
  let ?X = "(D \<union> ri_prev_tv_index ` (set ds - stay)) \<inter> {..<?u}" and ?P = "{p \<in> set ps. ri_prev_tv_index p < ?u}"
  have k: "rs = ds @ r # ps" "stay \<subseteq> set ds" using m by (simp_all add: moving_ok_def)
  have inj: "inj_on ri_prev_tv_index (set rs)" using rs by (simp add: matched_ok_def distinct_map)
  have lt: "\<forall>s \<in> stay. ri_prev_tv_index s < ?u" using m by (simp add: moving_ok_def)
  have r: "ri_shifted_tv_index r = card {i. i < ?u \<and> prev ! i \<noteq> npos}" "?u < length prev" using rs k(1) by (auto simp: matched_ok_def)
  have N: "ri_prev_tv_index ` set rs \<subseteq> {i. i < length prev \<and> prev ! i \<noteq> npos}" using rs by (auto simp: matched_ok_def)
  have "{i. i < ?u \<and> prev ! i \<noteq> npos} = (D \<union> ri_prev_tv_index ` set rs) \<inter> {..<?u}" using N r(2) D by auto
  also have "\<dots> = ?X \<union> (ri_prev_tv_index ` stay \<union> ri_prev_tv_index ` ?P)" using lt k by auto
  finally have u: "{i. i < ?u \<and> prev ! i \<noteq> npos} = ?X \<union> (ri_prev_tv_index ` stay \<union> ri_prev_tv_index ` ?P)" .
  have d: "distinct rs" using rs by (simp add: matched_ok_def distinct_map)
  have sub: "stay \<union> ?P \<subseteq> set rs" "set ds - stay \<subseteq> set rs" "(set ds - stay) \<inter> (stay \<union> ?P) = {}" "stay \<inter> ?P = {}" using k d by auto
  have "ri_prev_tv_index ` (set ds - stay) \<inter> ri_prev_tv_index ` (stay \<union> ?P) = {}"
    using inj_on_image_Int [OF inj sub(2,1)] sub(3) by simp
  moreover have "D \<inter> ri_prev_tv_index ` (stay \<union> ?P) = {}" using D sub(1) by blast
  ultimately have dis: "?X \<inter> (ri_prev_tv_index ` stay \<union> ri_prev_tv_index ` ?P) = {}" unfolding image_Un by blast
  have fin: "finite stay" using k(2) finite_subset by blast
  have "card (ri_prev_tv_index ` stay \<union> ri_prev_tv_index ` ?P) = card stay + card ?P"
    unfolding image_Un [symmetric] using card_image [OF inj_on_subset [OF inj sub(1)]] card_Un_disjoint [OF fin _ sub(4)] by simp
  moreover have "card {i. i < ?u \<and> prev ! i \<noteq> npos} = card ?X + card (ri_prev_tv_index ` stay \<union> ri_prev_tv_index ` ?P)"
    unfolding u using fin dis by (intro card_Un_disjoint) simp_all
  ultimately show ?thesis using r(1) by simp
qed

definition move_of :: "row_info \<Rightarrow> move" where
  "move_of r = \<lparr>mv_from = ri_prev_tv_index r, mv_to = ri_tv_index r\<rparr>"

definition unsorted_ok :: "nat \<Rightarrow> nat list \<Rightarrow> row_info list \<Rightarrow> nat set \<Rightarrow> nat set \<Rightarrow> change_builder \<Rightarrow>
    row_info list \<Rightarrow> row_info list \<Rightarrow> row_info set \<Rightarrow> nat \<times> crv \<times> change_builder \<Rightarrow> bool" where
  "unsorted_ok mx prev rs D I c0 ds ps stay = (\<lambda>(expected, removed, c).
     moving_ok prev rs ds ps stay expected \<and> index_set_ok mx removed \<and> index_set_ok mx (insertions c) \<and>
     indexes removed = D \<union> ri_prev_tv_index ` (set ds - stay) \<and> indexes (insertions c) = I \<union> ri_tv_index ` (set ds - stay) \<and>
     c = c0\<lparr>insertions := insertions c, moves := moves c0 @ map move_of (filter (\<lambda>r. r \<notin> stay) ds)\<rparr>)"

definition stays_behind :: "row_info list \<Rightarrow> crv \<Rightarrow> bool" where
  "stays_behind rs candidates \<longleftrightarrow> (\<forall>r \<in> set rs. \<forall>s \<in> set rs.
     ri_row_index s \<notin> indexes candidates \<longrightarrow> ri_prev_tv_index r < ri_prev_tv_index s \<longrightarrow> ri_tv_index r < ri_tv_index s)"

lemma unsorted_stay:
  assumes rs: "matched_ok prev new rs" and s: "unsorted_ok mx prev rs D I c0 ds (r # ps) stay (expected, removed, c)"
    and first: "\<forall>p \<in> set ps. ri_prev_tv_index r < ri_prev_tv_index p"
  shows "unsorted_ok mx prev rs D I c0 (ds @ [r]) ps (insert r stay) (ri_shifted_tv_index r + 1, removed, c)"
proof -
  have m: "moving_ok prev rs ds (r # ps) stay expected" using s by (simp add: unsorted_ok_def)
  have "distinct rs" using rs by (simp add: matched_ok_def distinct_map)
  then have r: "r \<notin> set ds" using m by (auto simp: moving_ok_def)
  then have "set (ds @ [r]) - insert r stay = set ds - stay" by auto
  moreover have "filter (\<lambda>q. q \<notin> insert r stay) (ds @ [r]) = filter (\<lambda>q. q \<notin> stay) ds"
    using r by (auto intro: filter_cong)
  ultimately show ?thesis using s moving_ok_stay [OF rs m first] by (simp add: unsorted_ok_def)
qed

lemma unsorted_leave:
  assumes rs: "matched_ok prev new rs" and s: "unsorted_ok mx prev rs D I c0 ds (r # ps) stay (expected, removed, c)"
    and w: "index_set_ok mx inss" "indexes inss = insert (ri_tv_index r) (indexes (insertions c))"
      "index_set_ok mx removed'" "indexes removed' = insert (ri_prev_tv_index r) (indexes removed)"
  shows "unsorted_ok mx prev rs D I c0 (ds @ [r]) ps stay
    (expected, removed', c\<lparr>insertions := inss, moves := moves c @ [move_of r]\<rparr>)"
proof -
  have m: "moving_ok prev rs ds (r # ps) stay expected" using s by (simp add: unsorted_ok_def)
  have "distinct rs" using rs by (simp add: matched_ok_def distinct_map)
  then have r: "r \<notin> stay" using m by (auto simp: moving_ok_def)
  then have d: "set (ds @ [r]) - stay = insert r (set ds - stay)" by auto
  have c: "c = c0\<lparr>insertions := insertions c, moves := moves c0 @ map move_of (filter (\<lambda>r. r \<notin> stay) ds)\<rparr>"
    using s by (simp add: unsorted_ok_def)
  have "moves c = moves c0 @ map move_of (filter (\<lambda>r. r \<notin> stay) ds)" using arg_cong [OF c, of moves] by simp
  moreover have "c\<lparr>insertions := inss, moves := ms\<rparr> = c0\<lparr>insertions := inss, moves := ms\<rparr>" for ms by (subst c) simp
  ultimately show ?thesis using s w r moving_ok_leave [OF m] unfolding unsorted_ok_def d by simp
qed

lemma move_unsorted_step:
  assumes mx: "max_size_ok mx" and rs: "matched_ok prev new rs" and cand: "index_set_ok mx candidates" "stays_behind rs candidates"
    and D: "D = {i. i < length prev \<and> prev ! i \<noteq> npos} - ri_prev_tv_index ` set rs" and I: "I = {..<length new} - ri_tv_index ` set rs"
    and s: "unsorted_ok mx prev rs D I c0 ds (r # ps) stay s"
  shows "\<exists>s' stay'. move_unsorted mx candidates r s = Some s' \<and> unsorted_ok mx prev rs D I c0 (ds @ [r]) ps stay' s'"
proof -
  obtain expected removed c where t: "s = (expected, removed, c)" by (cases s)
  note st = s [unfolded t]
  have m: "moving_ok prev rs ds (r # ps) stay expected" and ok: "index_set_ok mx removed" "index_set_ok mx (insertions c)"
    and e: "indexes removed = D \<union> ri_prev_tv_index ` (set ds - stay)" "indexes (insertions c) = I \<union> ri_tv_index ` (set ds - stay)"
    using st by (simp_all add: unsorted_ok_def)
  have k: "rs = ds @ r # ps" using m by (simp add: moving_ok_def)
  have "ri_prev_tv_index r \<notin> ri_prev_tv_index ` set ps" "\<forall>p \<in> set ps. ri_tv_index r < ri_tv_index p"
    using rs k by (auto simp: matched_ok_def sorted_wrt_append)
  then have ne: "ri_prev_tv_index p \<noteq> ri_prev_tv_index r" "ri_tv_index r < ri_tv_index p" if "p \<in> set ps" for p
    using that by (metis imageI, blast)
  let ?calc = "ri_tv_index r - is_count (insertions c) 0 (ri_tv_index r) + is_count removed 0 (ri_prev_tv_index r)"
  let ?P = "{p \<in> set ps. ri_prev_tv_index p < ri_prev_tv_index r}"
  have calc: "ri_shifted_tv_index r = ?calc + card ?P"
    using shifted_count [OF rs m D] stay_count [OF rs m I] by (simp add: is_count_from_zero [OF ok(1)] is_count_from_zero [OF ok(2)] e)
  consider (expected) "ri_shifted_tv_index r = expected" | (fixed) "ri_shifted_tv_index r \<noteq> expected" "\<not> is_contains candidates (ri_row_index r)"
    | (here) "ri_shifted_tv_index r \<noteq> expected" "is_contains candidates (ri_row_index r)" "ri_shifted_tv_index r = ?calc"
    | (moved) "ri_shifted_tv_index r \<noteq> expected" "is_contains candidates (ri_row_index r)" "ri_shifted_tv_index r \<noteq> ?calc" by blast
  then show ?thesis
  proof cases
    case expected
    then have "\<forall>p \<in> set ps. ri_prev_tv_index r < ri_prev_tv_index p" using expected_first [OF rs] m by blast
    from unsorted_stay [OF rs st this] show ?thesis using expected by (auto simp: move_unsorted_def t)
  next
    case fixed
    then have "ri_row_index r \<notin> indexes candidates" using cand(1) by (simp add: is_contains_iff)
    then have "\<forall>p \<in> set ps. ri_prev_tv_index r < ri_prev_tv_index p"
      using cand(2) k ne unfolding stays_behind_def by (metis in_set_conv_decomp in_set_conv_decomp_first linorder_neqE_nat less_asym list.set_intros(2) Un_iff set_append)
    from unsorted_stay [OF rs st this] show ?thesis using fixed by (auto simp: move_unsorted_def t)
  next
    case here
    then have "?P = {}" using calc by (simp add: card_eq_0_iff)
    then have "\<forall>p \<in> set ps. ri_prev_tv_index r < ri_prev_tv_index p" using ne by (metis (mono_tags, lifting) empty_Collect_eq linorder_neqE_nat)
    from unsorted_stay [OF rs st this] show ?thesis using here by (auto simp: move_unsorted_def t Let_def)
  next
    case moved
    obtain w where w: "is_add mx (ri_tv_index r) (insertions c) = Some w" "index_set_ok mx w"
      "indexes w = insert (ri_tv_index r) (indexes (insertions c))" using is_add_correct [OF ok(2) mx] by blast
    obtain u where u: "is_add mx (ri_prev_tv_index r) removed = Some u" "index_set_ok mx u"
      "indexes u = insert (ri_prev_tv_index r) (indexes removed)" using is_add_correct [OF ok(1) mx] by blast
    from unsorted_leave [OF rs st w(2,3) u(2,3)] show ?thesis using moved w(1) u(1)
      by (auto simp: move_unsorted_def t Let_def move_of_def)
  qed
qed

lemma unsorted_loop:
  assumes mx: "max_size_ok mx" and rs: "matched_ok prev new rs" and cand: "index_set_ok mx candidates" "stays_behind rs candidates"
    and D: "D = {i. i < length prev \<and> prev ! i \<noteq> npos} - ri_prev_tv_index ` set rs" and I: "I = {..<length new} - ri_tv_index ` set rs"
    and c: "index_set_ok mx removed" "indexes removed = D" "index_set_ok mx (insertions c)" "indexes (insertions c) = I" "moves c = []"
  shows "\<exists>removed' inss stay. calculate_moves_unsorted mx rs removed candidates c =
      Some (removed', c\<lparr>insertions := inss, moves := map move_of (filter (\<lambda>r. r \<notin> stay) rs)\<rparr>) \<and>
    index_set_ok mx removed' \<and> index_set_ok mx inss \<and> stay \<subseteq> set rs \<and>
    indexes removed' = D \<union> ri_prev_tv_index ` (set rs - stay) \<and> indexes inss = I \<union> ri_tv_index ` (set rs - stay) \<and>
    (\<forall>s \<in> stay. \<forall>s' \<in> stay. ri_tv_index s < ri_tv_index s' \<longrightarrow> ri_prev_tv_index s < ri_prev_tv_index s')"
proof -
  let ?I = "\<lambda>ds s. \<exists>stay. unsorted_ok mx prev rs D I c ds (drop (length ds) rs) stay s"
  have "\<exists>s. foldM (move_unsorted mx candidates) rs (0, removed, c) = Some s \<and> ?I rs s"
  proof (rule foldM_invariant [where I = ?I])
    have "unsorted_ok mx prev rs D I c [] rs {} (0, removed, c)" using c by (simp add: unsorted_ok_def moving_ok_def)
    then show "?I [] (0, removed, c)" by auto
  next
    fix ds r ps s
    assume split: "rs = ds @ r # ps" and "?I ds s"
    then obtain stay where "unsorted_ok mx prev rs D I c ds (r # ps) stay s" by auto
    from move_unsorted_step [OF mx rs cand D I this] split
    show "\<exists>s'. move_unsorted mx candidates r s = Some s' \<and> ?I (ds @ [r]) s'" by auto
  qed
  then obtain expected removed' c' stay where l: "foldM (move_unsorted mx candidates) rs (0, removed, c) = Some (expected, removed', c')"
    "unsorted_ok mx prev rs D I c rs [] stay (expected, removed', c')" by auto
  have u: "moving_ok prev rs rs [] stay expected" "index_set_ok mx removed'" "index_set_ok mx (insertions c')"
    "indexes removed' = D \<union> ri_prev_tv_index ` (set rs - stay)" "indexes (insertions c') = I \<union> ri_tv_index ` (set rs - stay)"
    "c' = c\<lparr>insertions := insertions c', moves := map move_of (filter (\<lambda>r. r \<notin> stay) rs)\<rparr>"
    using l(2) c(5) by (simp_all add: unsorted_ok_def)
  have "calculate_moves_unsorted mx rs removed candidates c =
      Some (removed', c\<lparr>insertions := insertions c', moves := map move_of (filter (\<lambda>r. r \<notin> stay) rs)\<rparr>)"
    using l(1) u(6) by (simp add: calculate_moves_unsorted_def)
  moreover have "stay \<subseteq> set rs"
    "\<forall>s \<in> stay. \<forall>s' \<in> stay. ri_tv_index s < ri_tv_index s' \<longrightarrow> ri_prev_tv_index s < ri_prev_tv_index s'"
    using u(1) by (simp_all add: moving_ok_def)
  ultimately show ?thesis using u(2-5) by (intro exI conjI)
qed

text \<open>The positions that stay, on both sides.\<close>

lemma keep_stay:
  assumes rs: "matched_ok prev new rs" and stay: "stay \<subseteq> set rs"
    "\<forall>s \<in> stay. \<forall>s' \<in> stay. ri_tv_index s < ri_tv_index s' \<longrightarrow> ri_prev_tv_index s < ri_prev_tv_index s'"
  shows "keep prev (({..<length prev} - ri_prev_tv_index ` set rs) \<union> ri_prev_tv_index ` (set rs - stay)) =
    keep new (({..<length new} - ri_tv_index ` set rs) \<union> ri_tv_index ` (set rs - stay))"
proof -
  let ?q = "filter (\<lambda>r. r \<in> stay) rs"
  have q: "set ?q = stay" using stay(1) by auto
  have tv: "sorted_wrt (\<lambda>r s. ri_tv_index r < ri_tv_index s) ?q"
    using rs by (intro sorted_wrt_filter) (simp add: matched_ok_def sorted_wrt_map)
  then have "sorted_wrt (\<lambda>r s. ri_prev_tv_index r < ri_prev_tv_index s) ?q"
    by (rule sorted_wrt_mono_rel [rotated]) (use stay(2) in auto)
  then have s: "sorted_wrt (<) (map ri_tv_index ?q)" "sorted_wrt (<) (map ri_prev_tv_index ?q)" using tv by (simp_all add: sorted_wrt_map)
  have part: "set (map f ?q) = {..<n} - (({..<n} - f ` set rs) \<union> f ` (set rs - stay))"
    if "inj_on f (set rs)" "f ` set rs \<subseteq> {..<n}" for f :: "row_info \<Rightarrow> nat" and n
  proof -
    have "E = A - B \<Longrightarrow> B \<subseteq> A \<Longrightarrow> A \<subseteq> N \<Longrightarrow> B = N - ((N - A) \<union> E)" for A B E N :: "nat set" by blast
    moreover have "f ` (set rs - stay) = f ` set rs - f ` stay" using that(1) stay(1) by (intro inj_on_image_set_diff) auto
    moreover have "f ` stay \<subseteq> f ` set rs" using stay(1) by blast
    ultimately have "f ` stay = {..<n} - (({..<n} - f ` set rs) \<union> f ` (set rs - stay))" using that(2) by metis
    then show ?thesis using q by simp
  qed
  have inj: "inj_on ri_prev_tv_index (set rs)" "inj_on ri_tv_index (set rs)"
    "ri_prev_tv_index ` set rs \<subseteq> {..<length prev}" "ri_tv_index ` set rs \<subseteq> {..<length new}"
    using rs by (auto simp: matched_ok_def strict_sorted_iff distinct_map)
  have "map (\<lambda>i. prev ! i) (map ri_prev_tv_index ?q) = map (\<lambda>i. new ! i) (map ri_tv_index ?q)"
    using rs stay(1) by (auto simp: matched_ok_def)
  then show ?thesis
    unfolding keep_positions [OF s(2) part [OF inj(1,3)]] keep_positions [OF s(1) part [OF inj(2,4)]] .
qed

lemma stays_behind_order:
  assumes rs: "matched_ok prev new rs" and new: "sorted_wrt (<) new"
    and order: "\<forall>i j. i < j \<longrightarrow> j < length prev \<longrightarrow> prev ! i \<noteq> npos \<longrightarrow> prev ! j \<noteq> npos \<longrightarrow> prev ! j \<notin> indexes candidates \<longrightarrow> prev ! i < prev ! j"
  shows "stays_behind rs candidates"
  unfolding stays_behind_def
proof (intro ballI impI)
  fix r s
  assume r: "r \<in> set rs" "s \<in> set rs" "ri_row_index s \<notin> indexes candidates" "ri_prev_tv_index r < ri_prev_tv_index s"
  have k: "prev ! ri_prev_tv_index r = ri_row_index r" "prev ! ri_prev_tv_index s = ri_row_index s" "ri_row_index r \<noteq> npos" "ri_row_index s \<noteq> npos"
    "ri_prev_tv_index s < length prev" "ri_tv_index r < length new" "ri_tv_index s < length new"
    "new ! ri_tv_index r = ri_row_index r" "new ! ri_tv_index s = ri_row_index s"
    using rs r(1,2) by (auto simp: matched_ok_def)
  then have less: "new ! ri_tv_index r < new ! ri_tv_index s"
    using order [rule_format, OF r(4) k(5)] r(3) by simp
  show "ri_tv_index r < ri_tv_index s"
  proof (rule ccontr)
    assume "\<not> ri_tv_index r < ri_tv_index s"
    then have "new ! ri_tv_index s \<le> new ! ri_tv_index r"
      using new k(6) by (metis le_less linorder_not_less nat_less_le sorted_wrt_nth_less)
    then show False using less by simp
  qed
qed

lemma calculate_unsorted:
  assumes "max_size_ok mx" "sort_ok srt" "length prev \<le> npos" "answers R S did" "S st" "sorted_wrt (<) new" "index_set_ok mx candidates"
    "\<forall>i j. i < j \<longrightarrow> j < length prev \<longrightarrow> prev ! i \<noteq> npos \<longrightarrow> prev ! j \<noteq> npos \<longrightarrow> prev ! j \<notin> indexes candidates \<longrightarrow> prev ! i < prev ! j"
  shows "\<exists>ret. calculate mx srt prev new did st (Some candidates) = Some ret \<and>
    index_set_ok mx (deletions ret) \<and> index_set_ok mx (insertions ret) \<and> index_set_ok mx (modifications ret) \<and>
    keep prev (indexes (deletions ret)) = keep new (indexes (insertions ret)) \<and>
    (\<forall>m \<in> set (moves ret). mv_from m \<in> indexes (deletions ret) \<and> mv_to m \<in> indexes (insertions ret) \<and> prev ! mv_from m = new ! mv_to m) \<and>
    (\<forall>t < length new. t \<notin> indexes (insertions ret) \<longrightarrow> t \<in> indexes (modifications ret) \<longleftrightarrow> R (new ! t))"
proof -
  obtain c removed rs where calc: "calculate mx srt prev new did st (Some candidates) = do {
       (removed, ret) \<leftarrow> (case Some candidates of
           Some candidates \<Rightarrow> calculate_moves_unsorted mx rs removed candidates c
         | None \<Rightarrow> map_option (Pair removed) (calculate_moves_sorted mx rs c));
       d \<leftarrow> is_add_set mx removed (deletions ret);
       Some (ret\<lparr>deletions := d\<rparr>)
     }" and rs: "matched_ok prev new rs" and ok: "index_set_ok mx removed" "index_set_ok mx (deletions c)" "index_set_ok mx (insertions c)"
    "index_set_ok mx (modifications c)" "moves c = []" and N: "indexes (deletions c) = {i. i < length prev \<and> prev ! i = npos}"
    and D: "indexes removed = {i. i < length prev \<and> prev ! i \<noteq> npos} - ri_prev_tv_index ` set rs"
    and I: "indexes (insertions c) = {..<length new} - ri_tv_index ` set rs"
    and M: "indexes (modifications c) = ri_tv_index ` {r \<in> set rs. R (ri_row_index r)}"
    using calculate_start [OF assms(1-5), of new "Some candidates"] by - (elim exE conjE, rule that, assumption+)
  obtain removed' inss stay where l: "calculate_moves_unsorted mx rs removed candidates c =
      Some (removed', c\<lparr>insertions := inss, moves := map move_of (filter (\<lambda>r. r \<notin> stay) rs)\<rparr>)"
    "index_set_ok mx removed'" "index_set_ok mx inss" "stay \<subseteq> set rs"
    "indexes removed' = indexes removed \<union> ri_prev_tv_index ` (set rs - stay)"
    "indexes inss = indexes (insertions c) \<union> ri_tv_index ` (set rs - stay)"
    "\<forall>s \<in> stay. \<forall>s' \<in> stay. ri_tv_index s < ri_tv_index s' \<longrightarrow> ri_prev_tv_index s < ri_prev_tv_index s'"
    using unsorted_loop [OF assms(1) rs assms(7) stays_behind_order [OF rs assms(6,8)] D I ok(1) refl ok(3) refl ok(5)]
    by - (elim exE conjE, rule that, assumption+)
  obtain d where d: "is_add_set mx removed' (deletions c) = Some d" "index_set_ok mx d" "indexes d = indexes (deletions c) \<union> indexes removed'"
    using is_add_set_correct [OF ok(2) l(2) assms(1)] by blast
  have "indexes (deletions c) \<union> indexes removed = {..<length prev} - ri_prev_tv_index ` set rs"
    using rs N D unfolding matched_ok_def by auto
  then have del: "indexes d = ({..<length prev} - ri_prev_tv_index ` set rs) \<union> ri_prev_tv_index ` (set rs - stay)"
    unfolding d(3) l(5) by blast
  have ins: "indexes inss = ({..<length new} - ri_tv_index ` set rs) \<union> ri_tv_index ` (set rs - stay)" using l(6) I by simp
  have "keep prev (indexes d) = keep new (indexes inss)" unfolding del ins by (rule keep_stay [OF rs l(4,7)])
  moreover have "t \<in> indexes (modifications c) \<longleftrightarrow> R (new ! t)" if "t < length new" "t \<notin> indexes inss" for t
    unfolding M using that ins by (intro changed_iff [OF rs]) blast
  moreover have "mv_from m \<in> indexes d \<and> mv_to m \<in> indexes inss \<and> prev ! mv_from m = new ! mv_to m"
    if "m \<in> set (map move_of (filter (\<lambda>r. r \<notin> stay) rs))" for m
    using that rs unfolding del ins by (auto simp: move_of_def matched_ok_def)
  moreover have "calculate mx srt prev new did st (Some candidates) =
      Some (c\<lparr>insertions := inss, moves := map move_of (filter (\<lambda>r. r \<notin> stay) rs), deletions := d\<rparr>)" using calc l(1) d(1) by simp
  ultimately show ?thesis using d(2) l(3) ok(4)
    by (intro exI [of _ "c\<lparr>insertions := inss, moves := map move_of (filter (\<lambda>r. r \<notin> stay) rs), deletions := d\<rparr>"]) simp
qed

end
