(* ===== verification/Results_Notifier.thy ===== *)
theory Results_Notifier
  imports Notifiers Change_Calculation
begin

text \<open>
  The notifier of query results (\<open>impl/results_notifier.cpp\<close>): it follows the rows it found before through the
  changes of their table and calculates the change to the rows that the query finds now.

  The query engine is not in the sources: the rows the query finds, in the order of the results, and the version of
  the table they belong to are data.
\<close>

subsection \<open>The model\<close>

text \<open>The table of the query: gone, a subtable at a cell of its parent, or a table with an index.\<close>

datatype query_table = Gone | Sub_table nat nat nat "nat \<Rightarrow> bool" | Top_table nat

record results_notifier =
  m_has_run :: bool
  m_previous_rows :: "nat list"
  m_last_seen_version :: nat
  m_results_change :: change_builder

definition results_required :: "query_table \<Rightarrow> nat \<Rightarrow> bool \<Rightarrow> results_notifier \<Rightarrow> change_info \<Rightarrow> (bool \<times> change_info) option" where
  "results_required table change have_callbacks n info = (case table of
     Gone \<Rightarrow> Some (False, info)
   | Sub_table parent_ndx row_ndx column_count holds \<Rightarrow> do {
       col_ndx \<leftarrow> find_container_column holds column_count;
       Some (m_has_run n \<and> have_callbacks, info\<lparr>lists := lists info @
         [\<lparr>li_table_ndx = parent_ndx, li_row_ndx = row_ndx, li_col_ndx = col_ndx, li_changes = change\<rparr>]\<rparr>) }
   | Top_table table_ndx \<Rightarrow>
       Some (m_has_run n \<and> have_callbacks, info\<lparr>table_moves_needed := set_flag table_ndx (table_moves_needed info)\<rparr>))"

definition need_to_run :: "bool \<Rightarrow> bool \<Rightarrow> bool \<Rightarrow> nat \<Rightarrow> results_notifier \<Rightarrow> bool" where
  "need_to_run realm_open have_callbacks wants_background_updates query_version n \<longleftrightarrow>
     (if \<not> realm_open \<or> (\<not> have_callbacks \<and> \<not> wants_background_updates) then False
      else if m_has_run n \<and> query_version = m_last_seen_version n then False
      else True)"

text \<open>Where a row of the previous results is now.\<close>

definition renumber_row :: "change_builder \<Rightarrow> nat \<Rightarrow> nat" where
  "renumber_row changes idx =
     (if is_contains (deletions changes) idx then
        let it = dropWhile (\<lambda>a. mv_from a < idx) (moves changes)
        in if it \<noteq> [] \<and> mv_from (hd it) = idx then mv_to (hd it) else npos
      else is_shift (is_unshift idx (deletions changes)) (insertions changes))"

text \<open>The changes of the table of the query; a subtable's are collected in \<open>m_changes\<close> itself.\<close>

definition query_changes :: "query_table \<Rightarrow> change_info \<Rightarrow> results_notifier \<Rightarrow> change_builder option" where
  "query_changes table info n = (case table of
     Top_table table_ndx \<Rightarrow> if table_ndx < length (tables info) then Some (tables info ! table_ndx) else None
   | _ \<Rightarrow> Some (m_results_change n))"

definition calculate_changes ::
    "nat \<Rightarrow> ((row_info \<Rightarrow> nat) \<Rightarrow> row_info list \<Rightarrow> row_info list) \<Rightarrow> bool \<Rightarrow> bool \<Rightarrow> (nat \<Rightarrow> 's \<Rightarrow> (bool \<times> 's) option) \<Rightarrow> 's \<Rightarrow>
     change_builder option \<Rightarrow> nat list \<Rightarrow> results_notifier \<Rightarrow> results_notifier option" where
  "calculate_changes mx srt have_callbacks in_table_order did_change st changes next_rows n =
     (if m_has_run n \<and> have_callbacks then do {
        let previous_rows = (case changes of Some c \<Rightarrow> map (renumber_row c) (m_previous_rows n) | None \<Rightarrow> m_previous_rows n);
        let move_candidates = (case changes of Some c \<Rightarrow> if in_table_order then Some (insertions c) else None | None \<Rightarrow> None);
        ret \<leftarrow> calculate mx srt previous_rows next_rows did_change st move_candidates;
        Some (n\<lparr>m_results_change := ret, m_previous_rows := next_rows\<rparr>)
      }
      else Some (n\<lparr>m_previous_rows := next_rows\<rparr>))"

text \<open>
  \<open>run\<close>.  \<open>in_table_order\<close>: the target is in table order and no sort is applied; \<open>query_version\<close>: what
  \<open>sync_view_if_needed\<close> returns; \<open>next_rows\<close>, \<open>view_version\<close>: what the query finds, and the version of the view.
\<close>

definition results_run ::
    "nat \<Rightarrow> ((row_info \<Rightarrow> nat) \<Rightarrow> row_info list \<Rightarrow> row_info list) \<Rightarrow> table_columns \<Rightarrow> nat \<Rightarrow> group_view \<Rightarrow> change_info \<Rightarrow>
     related_table list \<Rightarrow> query_table \<Rightarrow> bool \<Rightarrow> bool \<Rightarrow> bool \<Rightarrow> bool \<Rightarrow> nat \<Rightarrow> nat list \<Rightarrow> nat \<Rightarrow>
     results_notifier \<Rightarrow> results_notifier option" where
  "results_run mx srt cols fuel g info rel0 table realm_open have_callbacks wants_background_updates in_table_order
       query_version next_rows view_version n = (case table of
     Gone \<Rightarrow> do {
       d \<leftarrow> is_set mx (length (m_previous_rows n)) [];
       Some (n\<lparr>m_results_change := cb_default\<lparr>deletions := d\<rparr>, m_previous_rows := []\<rparr>)
     }
   | _ \<Rightarrow>
       if \<not> need_to_run realm_open have_callbacks wants_background_updates query_version n then Some n
       else do {
         let n = n\<lparr>m_last_seen_version := view_version\<rparr>;
         let root = (case table of Top_table table_ndx \<Rightarrow> table_ndx | _ \<Rightarrow> npos);
         rel \<leftarrow> (if m_has_run n \<and> have_callbacks then current_related cols fuel info root rel0 else Some rel0);
         calculate_changes mx srt have_callbacks in_table_order (ask mx g rel info root (get_modification_checker info rel))
           checker_init (query_changes table info n) next_rows n
       })"

subsection \<open>Rows are followed\<close>

text \<open>What \<open>parse_complete\<close> leaves of deletions and insertions looks like that of a table, too.\<close>

lemma parse_complete_shape:
  assumes r: "row_ok mx N n {} b" and c: "cb_parse_complete mx b = Some c"
  shows "shape N n (indexes (deletions c)) (indexes (insertions c))"
proof -
  let ?mm = "m_move_mapping b"
  have ok: "cb_ok mx b" and s: "shape N n (indexes (deletions b)) (indexes (insertions b))" and dst: "distinct (map fst ?mm)"
    and dom: "dom (map_of ?mm) \<subseteq> indexes (insertions b)" and ran: "ran (map_of ?mm) \<subseteq> indexes (deletions b)"
    using r by (auto simp: row_ok_def)
  have some: "map_of ?mm k = Some v" if "(k, v) \<in> set ?mm" for k v using that dst by simp
  have S: "{x. (x, x) \<in> set ?mm} \<subseteq> indexes (insertions b)" using some dom by auto
  have D: "{x. (x, x) \<in> set ?mm} \<subseteq> indexes (deletions b)" using some ran by (fastforce intro: ranI)
  obtain b1 where b1: "foldM (parse_move mx) ?mm b = Some b1" "indexes (deletions b1) = indexes (deletions b) - {x. (x, x) \<in> set ?mm}"
    "indexes (insertions b1) = indexes (insertions b) - {x. (x, x) \<in> set ?mm}" using parse_moves_fold [OF ok, of ?mm] by blast
  have "indexes (deletions c) = indexes (deletions b1)" "indexes (insertions c) = indexes (insertions b1)"
    using b1(1) c by (auto simp: cb_parse_complete_def)
  then show ?thesis using s S D b1(2,3) by (auto simp: shape_def)
qed

lemma lower_bound_move:
  assumes "sorted (map mv_from ms)"
  shows "(let it = dropWhile (\<lambda>a. mv_from a < idx) ms in if it \<noteq> [] \<and> mv_from (hd it) = idx then Some (mv_to (hd it)) else None) =
    map_option mv_to (find (\<lambda>m. mv_from m = idx) ms)"
  using assms
proof (induction ms)
  case (Cons a ms)
  then show ?case
    by (cases "mv_from a < idx") (auto simp: Let_def find_None_iff simp del: dropWhile_eq_Nil_conv)
qed simp

lemma find_move:
  assumes "distinct (map mv_from ms)" "m \<in> set ms"
  shows "find (\<lambda>q. mv_from q = mv_from m) ms = Some m"
  using assms by (induction ms) auto

text \<open>After the changes of a table are complete: rows that were not deleted, rows that were moved, and the others.\<close>

lemma row_follow:
  assumes r: "row_ok mx N n {} b" and c: "cb_parse_complete mx b = Some c" and idx: "idx < N"
  shows "idx \<notin> indexes (deletions c) \<Longrightarrow>
      is_shift (is_unshift idx (deletions c)) (insertions c) = idx \<and> idx < n \<and> origin b idx = Some idx" (is "_ \<Longrightarrow> ?kept")
    and "m \<in> set (moves c) \<Longrightarrow> mv_from m = idx \<Longrightarrow>
      idx \<in> indexes (deletions c) \<and> mv_to m < n \<and> origin b (mv_to m) = Some idx" (is "_ \<Longrightarrow> _ \<Longrightarrow> ?moved")
    and "idx \<in> indexes (deletions c) \<Longrightarrow> \<forall>m \<in> set (moves c). mv_from m \<noteq> idx \<Longrightarrow> \<forall>k < n. origin b k \<noteq> Some idx" (is "_ \<Longrightarrow> _ \<Longrightarrow> ?gone")
proof -
  let ?D = "indexes (deletions c)" and ?I = "indexes (insertions c)"
  have p: "list_ok mx c" "\<forall>k < n. origin c k = origin b k"
    using cb_parse_complete_correct [OF r] c by auto
  have ok: "cb_ok mx c" "moves_ok c" "m_move_mapping c = []" using p(1) by (simp_all add: list_ok_def)
  have ix: "index_set_ok mx (deletions c)" "index_set_ok mx (insertions c)" using ok(1) by (simp_all add: cb_ok_def iset_ok_def)
  note s = parse_complete_shape [OF r c]
  have fin: "finite ?D" "finite ?I" using s finite_subset by (auto simp: shape_def)
  have o: "origin c k = (if k \<in> ?I then sources c k else Some k)" if "k < n" for k
    using origin_orig [OF ok(1)] shape_free(3) [OF s fin(1) that] by (simp add: orig_def)
  show ?kept if D: "idx \<notin> ?D"
  proof -
    have k: "idx < n" "idx \<notin> ?I" using s idx D by (auto simp: shape_def) (meson atLeastLessThan_iff linorder_not_less subsetD)
    have "?I \<inter> {..<idx} = ?D \<inter> {..<idx}" using s k idx by (auto simp: shape_def)
    then have "unrank ?D idx = unrank ?I idx" by (simp add: unrank_eq)
    then have "is_shift (is_unshift idx (deletions c)) (insertions c) = idx"
      using is_unshift_correct [OF ix(1)] is_shift_free [OF ix(2)] k(2) fin(2) by simp
    then show ?thesis using k o p(2) by auto
  qed
  show ?moved if m: "m \<in> set (moves c)" "mv_from m = idx"
  proof -
    have i: "idx \<in> ?D" "mv_to m \<in> ?I" using m ok(2) by (auto simp: moves_ok_def)
    then have "mv_to m < n" using s by (auto simp: shape_def)
    moreover have "sources c (mv_to m) = Some idx"
      using m ok(2,3) by (auto simp: sources_def moves_ok_def comp_def intro!: map_of_is_SomeI)
    ultimately show ?thesis using o p(2) i by auto
  qed
  show ?gone if g: "idx \<in> ?D" "\<forall>m \<in> set (moves c). mv_from m \<noteq> idx"
  proof (intro allI impI)
    fix k assume k: "k < n"
    show "origin b k \<noteq> Some idx"
    proof (cases "k \<in> ?I")
      case True
      then show ?thesis using o [OF k] p(2) k g(2) ok(3) by (auto simp: sources_def dest!: map_of_SomeD)
    next
      case False
      then have "k \<notin> ?D" using shape_free(1) [OF s fin(1) k] by simp
      then show ?thesis using o [OF k] p(2) k False g(1) by auto
    qed
  qed
qed

lemma complete_moves:
  assumes "row_ok mx N n {} b" "cb_parse_complete mx b = Some c"
  shows "sorted (map mv_from (moves c))" "distinct (map mv_from (moves c))" "index_set_ok mx (deletions c)"
    "index_set_ok mx (insertions c)"
  using cb_parse_complete_correct [OF assms(1)] assms(2) by (auto simp: list_ok_def moves_ok_def cb_ok_def iset_ok_def)

lemma renumber_row_correct:
  assumes r: "row_ok mx N n {} b" and c: "cb_parse_complete mx b = Some c" and idx: "idx < N"
  shows "renumber_row c idx = npos \<and> (\<forall>k < n. origin b k \<noteq> Some idx) \<or>
    renumber_row c idx < n \<and> origin b (renumber_row c idx) = Some idx"
proof -
  note f = row_follow [OF assms] and k = complete_moves [OF r c]
  have e: "renumber_row c idx = (case find (\<lambda>m. mv_from m = idx) (moves c) of Some m \<Rightarrow> mv_to m | None \<Rightarrow> npos)"
    if "idx \<in> indexes (deletions c)"
    using that lower_bound_move [OF k(1), of idx] k(3)
    by (auto simp: renumber_row_def is_contains_iff Let_def split: option.splits if_splits)
  consider "idx \<notin> indexes (deletions c)" | m where "m \<in> set (moves c)" "mv_from m = idx"
    | "idx \<in> indexes (deletions c)" "\<forall>m \<in> set (moves c). mv_from m \<noteq> idx" by blast
  then show ?thesis
  proof cases
    case 1
    then show ?thesis using f(1) k(3) by (simp add: renumber_row_def is_contains_iff)
  next
    case 2
    then have "renumber_row c idx = mv_to m" using e f(2) find_move [OF k(2) 2(1)] by auto
    then show ?thesis using f(2) [OF 2] by simp
  next
    case 3
    then have "find (\<lambda>m. mv_from m = idx) (moves c) = None" by (simp add: find_None_iff)
    then show ?thesis using e 3 f(3) by simp
  qed
qed

subsection \<open>The results are followed\<close>

lemma keep_map: "keep (map f xs) D = map f (keep xs D)"
  by (simp add: keep_def)

lemma keep_subset: "set (keep xs D) \<subseteq> set xs"
  by (auto simp: keep_def)

text \<open>If the renumbered rows that stay are the new rows that stay, then they are the same rows.\<close>

lemma kept_rows:
  assumes r: "row_ok mx N n {} b" and c: "cb_parse_complete mx b = Some c" and n: "n \<le> npos"
    and prev: "\<forall>x \<in> set prev. x < N" and new: "\<forall>x \<in> set new. x < n"
    and k: "keep (map (renumber_row c) prev) D = keep new I"
  shows "keep (map Some prev) D = keep (map (origin b) new) I"
proof -
  have "origin b (renumber_row c p) = Some p" if p: "p \<in> set (keep prev D)" for p
  proof -
    have "renumber_row c p \<in> set (keep new I)" using p unfolding k [symmetric] keep_map by simp
    then have "renumber_row c p \<in> set new" by (rule subsetD [OF keep_subset])
    then have "renumber_row c p < n" using new by blast
    moreover have "p < N" using prev subsetD [OF keep_subset p] by blast
    ultimately show ?thesis using renumber_row_correct [OF r c, of p] n by auto
  qed
  then have "map Some (keep prev D) = map (origin b) (map (renumber_row c) (keep prev D))" by simp
  then show ?thesis using k by (simp only: keep_map)
qed

text \<open>Without \<open>swap\<close> rows are only moved towards the front.\<close>

definition no_swap :: "row_op \<Rightarrow> bool" where
  "no_swap op \<longleftrightarrow> (case op of Swap _ _ \<Rightarrow> False | _ \<Rightarrow> True)"

definition towards_front :: "nat option list \<Rightarrow> bool" where
  "towards_front xs \<longleftrightarrow> (\<forall>k < length xs. \<forall>i. xs ! k = Some i \<longrightarrow> k \<le> i)"

lemma row_edit_front:
  assumes "towards_front xs" "no_swap op" "row_op_ok op (length xs)"
  shows "towards_front (row_edit op xs)"
proof (cases op)
  case (Add_Rows c)
  then show ?thesis using assms(1) by (auto simp: towards_front_def nth_append)
next
  case (Move_Last_Over i)
  then have i: "i < length xs" using assms(3) by simp
  then have l: "last xs = xs ! (length xs - 1)" by (intro last_conv_nth) auto
  have front: "k \<le> j" if "k < length xs" "xs ! k = Some j" for k j using assms(1) that by (simp add: towards_front_def)
  have "k \<le> j" if "k < length xs - 1" "(xs[i := last xs]) ! k = Some j" for k j
  proof (cases "k = i")
    case True
    have "xs ! (length xs - 1) = Some j" using that True l i by simp
    then have "length xs - 1 \<le> j" using front i by auto
    then show ?thesis using that(1) by simp
  next
    case False
    then show ?thesis using front [of k j] that by simp
  qed
  then show ?thesis using Move_Last_Over by (auto simp: towards_front_def nth_butlast)
next
  case (Swap i j)
  then show ?thesis using assms(2) by (simp add: no_swap_def)
qed

lemma row_edits_front:
  "towards_front xs \<Longrightarrow> list_all no_swap ops \<Longrightarrow> row_ops_ok ops (length xs) \<Longrightarrow> towards_front (fold row_edit ops xs)"
proof (induction ops arbitrary: xs)
  case (Cons op ops)
  have "length (row_edit op (replicate (length xs) (None :: nat option))) = length (row_edit op xs)"
    by (rule row_edit_length_cong) simp
  then show ?case using Cons row_edit_front [of xs op] by simp
qed simp

text \<open>Then rows that were not inserted stay behind those that were before them.\<close>

lemma renumbered_order:
  assumes r: "row_ok mx N n {} b" and c: "cb_parse_complete mx b = Some c"
    and front: "\<forall>k < n. \<forall>i. origin b k = Some i \<longrightarrow> k \<le> i"
    and prev: "sorted_wrt (<) prev" "\<forall>x \<in> set prev. x < N" and ij: "i < j" "j < length prev"
    and rows: "renumber_row c (prev ! i) \<noteq> npos" "renumber_row c (prev ! j) \<noteq> npos"
      "renumber_row c (prev ! j) \<notin> indexes (insertions c)"
  shows "renumber_row c (prev ! i) < renumber_row c (prev ! j)"
proof -
  have p: "prev ! i < prev ! j" "prev ! i < N" "prev ! j < N" using prev ij by (auto simp: sorted_wrt_iff_nth_less)
  have oi: "renumber_row c (prev ! i) < n" "origin b (renumber_row c (prev ! i)) = Some (prev ! i)"
    and oj: "renumber_row c (prev ! j) < n" "origin b (renumber_row c (prev ! j)) = Some (prev ! j)"
    using renumber_row_correct [OF r c p(2)] renumber_row_correct [OF r c p(3)] rows by auto
  have l: "list_ok mx c" "\<forall>k < n. origin c k = origin b k" using cb_parse_complete_correct [OF r] c by auto
  then have ok: "cb_ok mx c" by (simp add: list_ok_def)
  note s = parse_complete_shape [OF r c]
  have fin: "finite (indexes (deletions c))" using s finite_subset by (auto simp: shape_def)
  have "origin c (renumber_row c (prev ! j)) = Some (renumber_row c (prev ! j))"
    using origin_orig [OF ok] shape_free(3) [OF s fin oj(1) rows(3)] rows(3) by (simp add: orig_def)
  then have "renumber_row c (prev ! j) = prev ! j" using oj l(2) by simp
  moreover have "renumber_row c (prev ! i) \<le> prev ! i" using front oi by blast
  ultimately show ?thesis using p(1) by simp
qed

lemma row_ops_length: "row_ops_ok ops (length xs) \<Longrightarrow> length (fold row_edit ops xs) \<le> npos"
proof (induction ops arbitrary: xs)
  case (Cons op ops)
  have "length (row_edit op (replicate (length xs) (None :: nat option))) = length (row_edit op xs)"
    by (rule row_edit_length_cong) simp
  then show ?case using Cons by simp
qed simp

lemma results_followed:
  assumes mx: "max_size_ok mx" and srt: "sort_ok srt" and did: "answers R S did" "S st" and ops: "row_ops_ok ops N"
    and run: "m_has_run nt" and prev: "length (m_previous_rows nt) \<le> npos" "\<forall>x \<in> set (m_previous_rows nt). x < N"
    and new: "\<forall>x \<in> set next_rows. x < length (fold row_edit ops (map Some [0..<N]))"
    and order: "in_order \<Longrightarrow> list_all no_swap ops \<and> sorted_wrt (<) (m_previous_rows nt) \<and> sorted_wrt (<) next_rows"
  shows "\<exists>n b c nt'. foldM (row_apply mx) ops (N, cb_default) = Some (n, b) \<and> cb_parse_complete mx b = Some c \<and>
    calculate_changes mx srt True in_order did st (Some c) next_rows nt = Some nt' \<and> m_previous_rows nt' = next_rows \<and>
    keep (map Some (m_previous_rows nt)) (indexes (deletions (m_results_change nt'))) =
      keep (map (\<lambda>k. fold row_edit ops (map Some [0..<N]) ! k) next_rows) (indexes (insertions (m_results_change nt'))) \<and>
    (\<forall>t < length next_rows. t \<notin> indexes (insertions (m_results_change nt')) \<longrightarrow>
       t \<in> indexes (modifications (m_results_change nt')) \<longleftrightarrow> R (next_rows ! t))"
proof -
  let ?rows = "fold row_edit ops (map Some [0..<N])" and ?prev = "m_previous_rows nt"
  obtain n b where b: "foldM (row_apply mx) ops (N, cb_default) = Some (n, b)" "row_ok mx N n {} b" "map (origin b) [0..<n] = ?rows"
    using row_run [OF cb_default_ok(2) [OF mx] ops] by (auto simp: contents_def cb_default_ok(3) [OF mx, unfolded contents_def])
  have n: "length ?rows = n" using b(3) by (metis length_map length_upt diff_zero)
  have npos: "n \<le> npos" using row_ops_length [of ops "map Some [0..<N]"] ops n by simp
  have o: "?rows ! k = origin b k" if "k < n" for k using b(3) that by (metis add_0 nth_map_upt diff_zero)
  obtain c where c: "cb_parse_complete mx b = Some c" using cb_parse_complete_correct [OF b(2)] by blast
  have ins: "index_set_ok mx (insertions c)" using cb_parse_complete_correct [OF b(2)] c by (auto simp: list_ok_def cb_ok_def iset_ok_def)
  let ?renumbered = "map (renumber_row c) ?prev"
  have len: "length ?renumbered \<le> npos" using prev(1) by simp
  have "\<exists>ret. calculate mx srt ?renumbered next_rows did st (if in_order then Some (insertions c) else None) = Some ret \<and>
    keep ?renumbered (indexes (deletions ret)) = keep next_rows (indexes (insertions ret)) \<and>
    (\<forall>t < length next_rows. t \<notin> indexes (insertions ret) \<longrightarrow> t \<in> indexes (modifications ret) \<longleftrightarrow> R (next_rows ! t))"
  proof (cases in_order)
    case False
    then show ?thesis using calculate_sorted [OF mx srt len did, of next_rows] by auto
  next
    case True
    have ord: "list_all no_swap ops" "sorted_wrt (<) ?prev" "sorted_wrt (<) next_rows" using order [OF True] by auto
    have "towards_front ?rows" using ord(1) ops by (intro row_edits_front) (auto simp: towards_front_def)
    then have front: "\<forall>k < n. \<forall>i. origin b k = Some i \<longrightarrow> k \<le> i" using o n by (auto simp: towards_front_def)
    have "\<forall>i j. i < j \<longrightarrow> j < length ?renumbered \<longrightarrow> ?renumbered ! i \<noteq> npos \<longrightarrow> ?renumbered ! j \<noteq> npos \<longrightarrow>
        ?renumbered ! j \<notin> indexes (insertions c) \<longrightarrow> ?renumbered ! i < ?renumbered ! j"
      using renumbered_order [OF b(2) c front ord(2) prev(2)] by simp
    then show ?thesis using True calculate_unsorted [OF mx srt len did ord(3) ins] by auto
  qed
  then obtain ret where ret: "calculate mx srt ?renumbered next_rows did st (if in_order then Some (insertions c) else None) = Some ret"
    "keep ?renumbered (indexes (deletions ret)) = keep next_rows (indexes (insertions ret))"
    "\<forall>t < length next_rows. t \<notin> indexes (insertions ret) \<longrightarrow> t \<in> indexes (modifications ret) \<longleftrightarrow> R (next_rows ! t)" by blast
  have "keep (map Some ?prev) (indexes (deletions ret)) = keep (map (origin b) next_rows) (indexes (insertions ret))"
    using kept_rows [OF b(2) c npos prev(2) _ ret(2)] new n by simp
  moreover have "map (origin b) next_rows = map (\<lambda>k. ?rows ! k) next_rows" using new n o by simp
  moreover have "calculate_changes mx srt True in_order did st (Some c) next_rows nt =
      Some (nt\<lparr>m_results_change := ret, m_previous_rows := next_rows\<rparr>)" using run ret(1) by (simp add: calculate_changes_def)
  ultimately show ?thesis using b(1) c ret(3) by (intro exI conjI) (assumption | simp)+
qed

subsection \<open>After a swap\<close>

text \<open>
  In a table of five rows the rows 0 and 4 and the rows 1 and 3 are swapped.  Of the results 0, 1, 2, now the rows
  4, 3, 2, the loop takes 3 for a row that is in its place, and lets it stay together with 2, which was behind it.
\<close>

definition swapped :: crv where
  "swapped = [\<lparr>c_data = [(0, 2), (3, 5)], c_begin = 0, c_end = 5, c_count = 4\<rparr>]"

definition swapped_rows :: "row_info list" where
  "swapped_rows = [\<lparr>ri_row_index = 2, ri_prev_tv_index = 2, ri_tv_index = 0, ri_shifted_tv_index = 2\<rparr>,
     \<lparr>ri_row_index = 3, ri_prev_tv_index = 1, ri_tv_index = 1, ri_shifted_tv_index = 1\<rparr>,
     \<lparr>ri_row_index = 4, ri_prev_tv_index = 0, ri_tv_index = 2, ri_shifted_tv_index = 0\<rparr>]"

abbreviation one_index :: "nat \<Rightarrow> crv" where
  "one_index i \<equiv> [\<lparr>c_data = [(i, i + 1)], c_begin = i, c_end = i + 1, c_count = 1\<rparr>]"

lemma swapped_loop:
  "calculate_moves_unsorted 4 swapped_rows [] swapped cb_default =
     Some (one_index 0, cb_default\<lparr>insertions := one_index 2, moves := [\<lparr>mv_from = 0, mv_to = 2\<rparr>]\<rparr>)"
  by code_simp

lemma swapped_set: "is_add_set 4 (one_index 0) [] = Some (one_index 0)"
  by code_simp

lemma swapped_calculate:
  "calculate 4 sort_key [4, 3, 2] [2, 3, 4] (\<lambda>_ st. Some (False, st)) st (Some swapped) =
     Some (cb_default\<lparr>insertions := one_index 2, moves := [\<lparr>mv_from = 0, mv_to = 2\<rparr>], deletions := one_index 0\<rparr>)"
proof -
  have "foldM (mark_changed 4 (\<lambda>_ st. Some (False, st))) swapped_rows ([], st) = Some ([], st)" by (simp add: swapped_rows_def mark_changed_def)
  moreover have "foldM (old_row 4 [4, 3, 2]) [0..<length [4, 3, 2 :: nat]] (0, [], []) = Some (0, [],
      map (\<lambda>i. \<lparr>ri_row_index = 4 - i, ri_prev_tv_index = npos, ri_tv_index = i, ri_shifted_tv_index = i\<rparr>) [0, 1, 2])"
    by (simp add: old_row_def npos_def upt_rec)
  moreover have "pair_rows 4 (sort_key ri_row_index (map (\<lambda>i. \<lparr>ri_row_index = 4 - i, ri_prev_tv_index = npos, ri_tv_index = i, ri_shifted_tv_index = i\<rparr>) [0, 1, 2]))
      (sort_key ri_row_index (map (new_row [2, 3, 4]) [0..<length [2, 3, 4 :: nat]])) [] [] = Some (swapped_rows, [], [])"
    by (simp add: new_row_def upt_rec swapped_rows_def)
  moreover have "sort_key ri_tv_index (filter (\<lambda>row. ri_prev_tv_index row \<noteq> npos) swapped_rows) = swapped_rows"
    by (simp add: swapped_rows_def npos_def)
  moreover have "cb_default\<lparr>deletions := [], insertions := [], modifications := []\<rparr> = cb_default" by (simp add: cb_default_def)
  ultimately show ?thesis using swapped_loop swapped_set by (simp add: calculate_def cb_default_def)
qed


definition after_swap :: change_builder where
  "after_swap = cb_default\<lparr>deletions := [\<lparr>c_data = [(0, 1), (4, 5)], c_begin = 0, c_end = 5, c_count = 2\<rparr>],
     insertions := [\<lparr>c_data = [(0, 1), (4, 5)], c_begin = 0, c_end = 5, c_count = 2\<rparr>], m_move_mapping := [(0, 4), (4, 0)]\<rparr>"

definition after_swaps :: change_builder where
  "after_swaps = cb_default\<lparr>deletions := swapped, insertions := swapped, m_move_mapping := [(0, 4), (4, 0), (1, 3), (3, 1)]\<rparr>"

lemma swap_moves:
  "do { b2 \<leftarrow> add_move 4 4 0 cb_default; add_move 4 0 4 b2 } = Some after_swap"
  "do { b2 \<leftarrow> add_move 4 3 1 after_swap; add_move 4 1 3 b2 } = Some after_swaps"
  by code_simp+

lemma no_columns: "modifications b = [] \<Longrightarrow> columns b = [] \<Longrightarrow> for_each_col (swap_col 4 i j) b = Some b"
  by (simp add: for_each_col_def swap_col_def Let_def is_contains_iff [of 4])

lemma swaps_run: "foldM (row_apply 4) [Swap 0 4, Swap 1 3] (5, cb_default) = Some (5, after_swaps)"
proof -
  have "cb_swap 4 0 4 True cb_default = Some after_swap"
    using swap_moves(1) by (simp add: cb_swap_def no_columns cb_default_def)
  moreover have "cb_swap 4 1 3 True after_swap = Some after_swaps"
    using swap_moves(2) by (simp add: cb_swap_def no_columns after_swap_def cb_default_def)
  ultimately show ?thesis by simp
qed

lemma swaps_complete:
  "cb_parse_complete 4 after_swaps = Some (cb_default\<lparr>deletions := swapped, insertions := swapped, moves :=
     map (\<lambda>i. \<lparr>mv_from = i, mv_to = 4 - i\<rparr>) [0, 1, 3, 4]\<rparr>)"
  by (simp add: cb_parse_complete_def after_swaps_def parse_move_def cb_default_def)

lemma swapped_rows_found:
  "map (renumber_row (cb_default\<lparr>deletions := swapped, insertions := swapped, moves :=
     map (\<lambda>i. \<lparr>mv_from = i, mv_to = 4 - i\<rparr>) [0, 1, 3, 4]\<rparr>)) [0, 1, 2] = [4, 3, 2]"
proof -
  have "map (is_contains swapped) [0, 1, 2] = [True, True, False]" "is_shift (is_unshift 2 swapped) swapped = 2" by code_simp+
  then show ?thesis by (simp add: renumber_row_def)
qed

end
