(* ===== verification/Kvo_Adapter.thy ===== *)
theory Kvo_Adapter
  imports Results_Notifier Observer_Schema
begin

text \<open>
  \<open>KVOAdapter\<close> (\<open>impl/transact_log_handler.cpp\<close>): the changes of observed rows and of their lists, in the terms of
  Objective-C's key-value observing, which has insertions, removals and assignments but no moves.

  The types of the columns and the sizes of subtables are data of the database.  The adapter points at observers
  and at the builders of its lists: they are numbers of observers and addresses in \<open>builders\<close>.
\<close>

subsection \<open>The model\<close>

datatype kvo_kind = Kind_None | Kind_Set | Kind_Insert | Kind_Remove | Kind_SetAll

record column_info =
  ci_initial_column_index :: nat
  ci_kind :: kvo_kind
  ci_indices :: crv

definition column_info_default :: column_info where
  "column_info_default = \<lparr>ci_initial_column_index = npos, ci_kind = Kind_None, ci_indices = []\<rparr>"

record observer_state =
  os_table_ndx :: nat
  os_row_ndx :: nat
  os_info :: nat
  os_changes :: "column_info list"

datatype column_type = Type_LinkList | Type_Table | Type_Other

record kvo_list =
  kl_observer :: nat
  kl_builder :: nat
  kl_col :: nat
  kl_initial_size :: nat

text \<open>The lists of one observer, without the addresses of their builders.\<close>

definition lists_of :: "(nat \<Rightarrow> column_type list) \<Rightarrow> (nat \<Rightarrow> nat \<Rightarrow> nat \<Rightarrow> nat) \<Rightarrow> nat \<Rightarrow> observer_state \<Rightarrow> (nat \<times> nat \<times> nat) list" where
  "lists_of column_types subtable_size o_ndx ob =
     concat (map (\<lambda>i. case column_types (os_table_ndx ob) ! i of
         Type_LinkList \<Rightarrow> [(o_ndx, i, npos)]
       | Type_Table \<Rightarrow> [(o_ndx, i, subtable_size (os_table_ndx ob) i (os_row_ndx ob))]
       | Type_Other \<Rightarrow> []) [0..<length (column_types (os_table_ndx ob))])"

definition kvo_init :: "(nat \<Rightarrow> column_type list) \<Rightarrow> (nat \<Rightarrow> nat \<Rightarrow> nat \<Rightarrow> nat) \<Rightarrow> observer_state list \<Rightarrow> change_info \<Rightarrow> kvo_list list \<times> change_info" where
  "kvo_init column_types subtable_size observers info =
     (if observers = [] then ([], info)
      else let tables_needed = remdups (sort (map os_table_ndx observers));
               found = concat (map (\<lambda>o_ndx. lists_of column_types subtable_size o_ndx (observers ! o_ndx)) [0..<length observers]);
               m_lists = map (\<lambda>k. case found ! k of (o_ndx, col, n) \<Rightarrow>
                 \<lparr>kl_observer = o_ndx, kl_builder = length (builders info) + k, kl_col = col, kl_initial_size = n\<rparr>) [0..<length found];
               widen = (\<lambda>flags. if length flags \<le> Max (set tables_needed) then resize False (Max (set tables_needed) + 1) flags else flags);
               mark = (\<lambda>flags. fold (\<lambda>tbl flags. flags[tbl := True]) tables_needed (widen flags))
           in (m_lists, info\<lparr>
                table_modifications_needed := mark (table_modifications_needed info),
                table_moves_needed := mark (table_moves_needed info),
                lists := lists info @ map (\<lambda>l. \<lparr>li_table_ndx = os_table_ndx (observers ! kl_observer l),
                  li_row_ndx = os_row_ndx (observers ! kl_observer l), li_col_ndx = kl_col l, li_changes = kl_builder l\<rparr>) m_lists,
                builders := builders info @ replicate (length found) cb_default\<rparr>))"

text \<open>Where an observed row is now; \<open>None\<close> if it was deleted.\<close>

definition observed_row :: "change_builder \<Rightarrow> nat \<Rightarrow> nat option" where
  "observed_row table idx =
     (let it = dropWhile (\<lambda>a. mv_from a < idx) (moves table) in
      if it \<noteq> [] \<and> mv_from (hd it) = idx then Some (mv_to (hd it))
      else if is_contains (deletions table) idx then None
      else Some (is_shift (is_unshift idx (deletions table)) (insertions table)))"

definition column_change :: "nat list list \<Rightarrow> nat \<Rightarrow> nat \<Rightarrow> crv \<Rightarrow> nat \<Rightarrow> column_info \<Rightarrow> column_info" where
  "column_change indices table_ndx idx c i change =
     (let initial = (if length indices \<le> table_ndx then i else initial_column_index (indices ! table_ndx) i);
          change = change\<lparr>ci_initial_column_index := initial\<rparr>
      in if initial \<noteq> npos \<and> is_contains c idx then change\<lparr>ci_kind := Kind_Set\<rparr> else change)"

definition row_change :: "change_info \<Rightarrow> observer_state \<Rightarrow> nat list \<Rightarrow> observer_state \<times> nat list" where
  "row_change info ob invalidated =
     (let table_ndx = new_table_ndx info (os_table_ndx ob); table = tables info ! table_ndx in
      if length (tables info) \<le> table_ndx then (ob, invalidated)
      else case observed_row table (os_row_ndx ob) of
        None \<Rightarrow> (ob, invalidated @ [os_info ob])
      | Some idx \<Rightarrow>
          if is_contains (modifications table) idx then
            let changes = resize column_info_default (length (columns table)) (os_changes ob)
            in (ob\<lparr>os_changes := map (\<lambda>i. column_change (column_indices info) table_ndx idx (columns table ! i) i (changes ! i))
                  [0..<length (columns table)]\<rparr>, invalidated)
          else (ob, invalidated))"

fun row_changes :: "change_info \<Rightarrow> observer_state list \<Rightarrow> nat list \<Rightarrow> observer_state list \<times> nat list" where
  "row_changes info [] invalidated = ([], invalidated)"
| "row_changes info (ob # obs) invalidated =
     (let (ob, invalidated) = row_change info ob invalidated; (obs, invalidated) = row_changes info obs invalidated
      in (ob # obs, invalidated))"

definition at_row :: "crv \<Rightarrow> iter \<Rightarrow> nat \<Rightarrow> iter \<times> bool" where
  "at_row v it i =
     (let it = (if it \<noteq> it_end v \<and> snd (it_deref v it) \<le> i then it_next v it else it)
      in (it, it \<noteq> it_end v \<and> fst (it_deref v it) \<le> i \<and> i < snd (it_deref v it)))"

definition shifted_row :: "nat \<Rightarrow> crv \<Rightarrow> crv \<Rightarrow> nat \<Rightarrow> iter \<times> iter \<times> int \<times> crv \<Rightarrow> (iter \<times> iter \<times> int \<times> crv) option" where
  "shifted_row mx dels inss i = (\<lambda>(del_it, ins_it, shift, indices).
     let (del_it, deleted) = at_row dels del_it i;
         (ins_it, inserted) = (if deleted then (ins_it, False) else at_row inss ins_it (nat ((int i + shift) mod 2 ^ 64)));
         shift = (if deleted then shift - 1 else if inserted then shift + 1 else shift)
     in if shift \<noteq> 0 then do { indices \<leftarrow> is_add mx i indices; Some (del_it, ins_it, shift, indices) }
        else Some (del_it, ins_it, shift, indices))"

text \<open>Moves as assignments to every index whose row is another one now.\<close>

definition moved_indices :: "nat \<Rightarrow> crv \<Rightarrow> change_builder \<Rightarrow> crv option" where
  "moved_indices mx mods b = do {
     indices \<leftarrow> is_add_set mx (deletions b) mods;
     let dels = deletions b;
     let inss = insertions b;
     let start = min (fst (it_deref inss (it_begin inss))) (fst (it_deref dels (it_begin dels)));
     let end_row = max (last_second inss) (last_second dels);
     (del_it, ins_it, shift, indices) \<leftarrow> foldM (shifted_row mx dels inss) [start..<end_row] (it_begin dels, it_begin inss, 0, indices);
     Some indices
   }"

definition list_kind :: "nat \<Rightarrow> change_builder \<Rightarrow> nat \<Rightarrow> column_info \<Rightarrow> column_info option" where
  "list_kind mx b initial_size change = do {
     mods \<leftarrow> is_remove_set mx (insertions b) (modifications b);
     if moves b \<noteq> [] \<and> is_count (insertions b) 0 npos = length (moves b) \<and> is_count (deletions b) 0 npos = length (moves b) then do {
       indices \<leftarrow> moved_indices mx mods b;
       Some (change\<lparr>ci_kind := Kind_Set, ci_indices := indices\<rparr>)
     }
     else if of_bool (insertions b = []) + of_bool (mods = []) + of_bool (deletions b = []) < (2 :: nat)
     then Some (change\<lparr>ci_kind := Kind_SetAll\<rparr>)
     else if insertions b \<noteq> [] then Some (change\<lparr>ci_kind := Kind_Insert, ci_indices := insertions b\<rparr>)
     else if mods \<noteq> [] then Some (change\<lparr>ci_kind := Kind_Set, ci_indices := mods\<rparr>)
     else do {
       realm_assert (deletions b \<noteq> []);
       indices \<leftarrow> (if initial_size < last_second (deletions b) then is_set mx initial_size (ci_indices change) else Some (deletions b));
       Some (change\<lparr>ci_kind := Kind_Remove, ci_indices := indices\<rparr>)
     }
   }"

definition list_change :: "nat \<Rightarrow> change_info \<Rightarrow> kvo_list \<Rightarrow> observer_state list \<Rightarrow> observer_state list option" where
  "list_change mx info l obs =
     (let b = builders info ! kl_builder l; ob = obs ! kl_observer l; changes = os_changes ob in
      if cs_empty b then
        Some (if kl_col l < length changes
              then obs[kl_observer l := ob\<lparr>os_changes := changes[kl_col l := (changes ! kl_col l)\<lparr>ci_kind := Kind_None\<rparr>]\<rparr>] else obs)
      else if changes = [] then Some obs
      else do {
        realm_assert (kl_col l < length changes);
        change \<leftarrow> list_kind mx b (kl_initial_size l) (changes ! kl_col l);
        Some (obs[kl_observer l := ob\<lparr>os_changes := changes[kl_col l := change]\<rparr>])
      })"

text \<open>\<open>before\<close>: the observers and the invalidated rows handed to \<open>will_change\<close>, if it is called.\<close>

definition kvo_before :: "nat \<Rightarrow> bool \<Rightarrow> change_info \<Rightarrow> kvo_list list \<Rightarrow> observer_state list \<Rightarrow> (observer_state list \<times> nat list) option option" where
  "kvo_before mx has_context info m_lists observers =
     (if \<not> has_context \<or> tables info = [] then Some None
      else do {
        let (observers, invalidated) = row_changes info observers [];
        observers \<leftarrow> foldM (list_change mx info) m_lists observers;
        Some (Some (observers, invalidated))
      })"

subsection \<open>Observed rows\<close>

lemma observed_row_correct:
  assumes r: "row_ok mx N n {} b" and c: "cb_parse_complete mx b = Some c" and idx: "idx < N"
  shows "case observed_row c idx of None \<Rightarrow> \<forall>k < n. origin b k \<noteq> Some idx | Some k \<Rightarrow> k < n \<and> origin b k = Some idx"
proof -
  note f = row_follow [OF assms] and k = complete_moves [OF r c]
  have e: "observed_row c idx = (case find (\<lambda>m. mv_from m = idx) (moves c) of Some m \<Rightarrow> Some (mv_to m)
      | None \<Rightarrow> if idx \<in> indexes (deletions c) then None else Some (is_shift (is_unshift idx (deletions c)) (insertions c)))"
    using lower_bound_move [OF k(1), of idx] k(3)
    by (auto simp: observed_row_def is_contains_iff Let_def split: option.splits if_splits)
  show ?thesis
  proof (cases "\<exists>m \<in> set (moves c). mv_from m = idx")
    case True
    then obtain m where m: "m \<in> set (moves c)" "mv_from m = idx" by blast
    then show ?thesis using e f(2) [OF m] find_move [OF k(2) m(1)] by simp
  next
    case False
    then have "find (\<lambda>m. mv_from m = idx) (moves c) = None" by (simp add: find_None_iff)
    then show ?thesis using e False f(1,3) by auto
  qed
qed

subsection \<open>One moved row of a list\<close>

lemma one_range:
  assumes ok: "index_set_ok mx v" and x: "indexes v = {x}"
  shows "it_deref v (it_begin v) = (x, x + 1)" "it_begin v \<noteq> it_end v" "it_next v (it_begin v) = it_end v" "v \<noteq> []"
    "is_count v 0 e = (if x < e then 1 else 0)"
proof -
  have c: "crv_ok mx v" and r: "ranges_ok (flat v)" using ok by (simp_all add: index_set_ok_def)
  obtain a rs where f: "flat v = a # rs" using x by (cases "flat v") (auto simp: indexes_def)
  have mem: "k \<in> indexes v \<longleftrightarrow> k = x" for k using x by simp
  have a: "fst a < snd a" "\<forall>q \<in> set rs. snd a < fst q \<and> fst q < snd q" using r f by (auto dest: ranges_ok_nonempty)
  show v: "v \<noteq> []" using f by auto
  have "fst a = x" "snd a - 1 = x" using mem [of "fst a"] mem [of "snd a - 1"] a(1) f by (auto simp: indexes_def)
  then have ax: "a = (x, x + 1)" using a(1) by (cases a) auto
  have "rs = []"
  proof (rule ccontr)
    assume "rs \<noteq> []"
    then obtain q where q: "q \<in> set rs" by (cases rs) auto
    then have "fst q \<in> indexes v" using f a(2) unfolding indexes_def rset_def by (intro UN_I [of q]) auto
    then show False using mem a(2) q ax by auto
  qed
  then have fl: "flat v = [] @ (x, x + 1) # []" using f ax by simp
  note d = deref_at [OF c it_ok_begin [OF c] fl, unfolded fpos_begin]
  show "it_deref v (it_begin v) = (x, x + 1)" "it_begin v \<noteq> it_end v" using d by simp_all
  have "it_ok v (it_next v (it_begin v))" "fpos v (it_next v (it_begin v)) = length (flat v)"
    using it_next_ok [OF c it_ok_begin [OF c]] d(2) fl by (simp_all add: fpos_begin)
  then show "it_next v (it_begin v) = it_end v" using at_end_iff [OF c] by blast
  show "is_count v 0 e = (if x < e then 1 else 0)" using is_count_from_zero [OF ok, of e] x by simp
qed

lemma at_row_one:
  assumes "index_set_ok mx v" "indexes v = {x}"
  shows "at_row v (it_begin v) i = (if x < i then (it_end v, False) else (it_begin v, i = x))"
    "at_row v (it_end v) i = (it_end v, False)"
  using one_range [OF assms] by (auto simp: at_row_def Let_def)

lemma upt_split: "[a..<b] = as @ k # bs \<Longrightarrow> k = a + length as \<and> k < b"
proof -
  assume split: "[a..<b] = as @ k # bs"
  have "length [a..<b] = length (as @ k # bs)" by (simp only: split)
  then have l: "length as < b - a" by simp
  have "[a..<b] ! length as = k" by (simp only: split nth_append_length)
  then show ?thesis using l by simp
qed

lemma wrap_id: "int i + shift = int j \<Longrightarrow> j \<le> npos \<Longrightarrow> nat ((int i + shift) mod 2 ^ 64) = j"
  by (simp add: npos_def)

lemma move_before_after:
  assumes mx: "max_size_ok mx" and d: "index_set_ok mx dels" "indexes dels = {f}" and i: "index_set_ok mx inss" "indexes inss = {t}"
    and ne: "f \<noteq> t" "f < npos" "t < npos" and J: "index_set_ok mx J" "f \<in> indexes J"
  shows "\<exists>del_it ins_it shift J'. foldM (shifted_row mx dels inss) [min t f..<max (t + 1) (f + 1)] (it_begin dels, it_begin inss, 0, J) =
      Some (del_it, ins_it, shift, J') \<and> index_set_ok mx J' \<and> indexes J' = indexes J \<union> {min f t..max f t}"
proof -
  let ?start = "min t f" and ?stop = "max (t + 1) (f + 1)"
  let ?I = "\<lambda>done (del_it, ins_it, shift, J'). let m = ?start + length done in
    (del_it = it_begin dels \<or> del_it = it_end dels \<and> f < m) \<and> (ins_it = it_begin inss \<or> ins_it = it_end inss \<and> t < f \<and> t < m) \<and>
    shift = (if done = [] then 0 else if f < t then - 1 else if m \<le> f then 1 else (0 :: int)) \<and>
    index_set_ok mx J' \<and> indexes J' = indexes J \<union> {?start..<m}"
  have "\<exists>s. foldM (shifted_row mx dels inss) [?start..<?stop] (it_begin dels, it_begin inss, 0, J) = Some s \<and> ?I [?start..<?stop] s"
  proof (rule foldM_invariant [where I = ?I])
    show "?I [] (it_begin dels, it_begin inss, 0, J)" using J by simp
  next
    fix as k bs s
    assume split: "[?start..<?stop] = as @ k # bs" and I: "?I as s"
    obtain del_it ins_it shift J' where s: "s = (del_it, ins_it, shift, J')" by (cases s)
    have k: "k = ?start + length as" "k < ?stop" using upt_split [OF split] by blast+
    have I': "del_it = it_begin dels \<or> del_it = it_end dels \<and> f < k" "ins_it = it_begin inss \<or> ins_it = it_end inss \<and> t < f \<and> t < k"
      "shift = (if as = [] then 0 else if f < t then - 1 else if k \<le> f then 1 else 0)" "index_set_ok mx J'"
      "indexes J' = indexes J \<union> {?start..<k}" using I by (simp_all add: s k(1) Let_def)
    obtain w where w: "is_add mx k J' = Some w" "index_set_ok mx w" "indexes w = insert k (indexes J')"
      using is_add_correct [OF I'(4) mx] by blast
    have up: "{?start..<Suc k} = insert k {?start..<k}" using k(1) by auto
    have dr: "at_row dels del_it k = (if f < k then it_end dels else it_begin dels, k = f)"
      using I'(1) at_row_one [OF d, of k] by auto
    consider (del) "k = f" | (down) "k \<noteq> f" "f < t" | (first) "k \<noteq> f" "t < f" "as = []" | (up) "k \<noteq> f" "t < f" "as \<noteq> []"
      using ne(1) by linarith
    then show "\<exists>s'. shifted_row mx dels inss k s = Some s' \<and> ?I (as @ [k]) s'"
    proof cases
      case del
      show ?thesis
      proof (cases "f < t")
        case True
        then have e: "as = []" "shift = 0" "ins_it = it_begin inss" using del k I'(2,3) by auto
        have "shifted_row mx dels inss k s = Some (it_begin dels, it_begin inss, - 1, w)"
          using del e dr w(1) by (simp add: s shifted_row_def Let_def)
        moreover have "?I (as @ [k]) (it_begin dels, it_begin inss, - 1, w)" using True e w(2,3) I'(5) up k(1) by (simp add: Let_def)
        ultimately show ?thesis by blast
      next
        case False
        then have e: "as \<noteq> []" "t < f" using del k ne(1) by auto
        then have z: "shift = 1" using I'(3) del by simp
        have u: "indexes J' = indexes J \<union> {?start..<Suc k}" using I'(5) J(2) up del by auto
        have "shifted_row mx dels inss k s = Some (it_begin dels, ins_it, 0, J')"
          using del z dr by (simp add: s shifted_row_def Let_def)
        moreover have "?I (as @ [k]) (it_begin dels, ins_it, 0, J')" using e I'(2,4) u k(1) del by (auto simp: Let_def)
        ultimately show ?thesis by blast
      qed
    next
      case down
      then have e: "as \<noteq> []" "f < k" using k by auto
      then have "nat ((int k + shift) mod 2 ^ 64) = k - 1" using I'(3) down k(2) ne by (intro wrap_id) (auto simp: of_nat_diff)
      moreover have "ins_it = it_begin inss" using I'(2) down by auto
      moreover have "at_row inss (it_begin inss) (k - 1) = (it_begin inss, False)" using at_row_one [OF i, of "k - 1"] down e k(2) by auto
      moreover have "nat (int k - 1) = k - 1" by simp
      ultimately have "shifted_row mx dels inss k s = Some (it_end dels, it_begin inss, - 1, w)"
        using e down dr w(1) I'(3) by (simp add: s shifted_row_def Let_def)
      moreover have "?I (as @ [k]) (it_end dels, it_begin inss, - 1, w)" using e down w(2,3) I'(5) up k(1) by (simp add: Let_def)
      ultimately show ?thesis by blast
    next
      case first
      then have e: "k = t" "shift = 0" "\<not> f < k" using k I'(3) by auto
      then have "nat ((int k + shift) mod 2 ^ 64) = t" using ne by (intro wrap_id) auto
      moreover have "ins_it = it_begin inss" using I'(2) e by auto
      ultimately have "shifted_row mx dels inss k s = Some (it_begin dels, it_begin inss, 1, w)"
        using e first dr w(1) at_row_one [OF i, of t] by (simp add: s shifted_row_def Let_def)
      moreover have "?I (as @ [k]) (it_begin dels, it_begin inss, 1, w)" using e first w(2,3) I'(5) up k(1) by (simp add: Let_def)
      ultimately show ?thesis by blast
    next
      case up
      then have e: "t < k" "k < f" using k by auto
      then have z: "shift = 1" using I'(3) up by simp
      then have "nat ((int k + shift) mod 2 ^ 64) = k + 1" using e ne by (intro wrap_id) auto
      moreover have "at_row inss ins_it (k + 1) = (it_end inss, False)" using at_row_one [OF i, of "k + 1"] e I'(2) by auto
      moreover have "nat (int k + 1) = k + 1" by simp
      ultimately have "shifted_row mx dels inss k s = Some (it_begin dels, it_end inss, 1, w)"
        using e dr w(1) z by (simp add: s shifted_row_def Let_def)
      moreover have "?I (as @ [k]) (it_begin dels, it_end inss, 1, w)" using e up w(2,3) I'(5) \<open>{?start..<Suc k} = insert k {?start..<k}\<close> k(1) by (simp add: Let_def)
      ultimately show ?thesis by blast
    qed
  qed
  then obtain s where s: "foldM (shifted_row mx dels inss) [?start..<?stop] (it_begin dels, it_begin inss, 0, J) = Some s"
    "?I [?start..<?stop] s" by blast
  obtain del_it ins_it shift J' where q: "s = (del_it, ins_it, shift, J')" by (cases s)
  have "?start + length [?start..<?stop] = ?stop" by simp
  then have "index_set_ok mx J'" "indexes J' = indexes J \<union> {?start..<?stop}" using s(2) unfolding q Let_def by simp_all
  moreover have "{?start..<?stop} = {min f t..max f t}" by auto
  ultimately show ?thesis using s(1) unfolding q by (intro exI conjI) (assumption, assumption, simp only:)
qed

lemma last_second_one:
  assumes "iset_ok mx v" "indexes v = {x}"
  shows "last_second v = x + 1"
proof -
  have "v \<noteq> []" using assms(2) by (auto simp: indexes_def flat_def)
  then show ?thesis using last_second_bounds [OF assms(1)] assms(2) by auto
qed

text \<open>The rows in between are other ones than before.\<close>

lemma moved_origin:
  assumes ok: "cb_ok mx b" and d: "indexes (deletions b) = {f}" and i: "indexes (insertions b) = {t}"
    and s: "sources b t = Some f" and ne: "f \<noteq> t"
  shows "origin b k \<noteq> Some k \<longleftrightarrow> k \<in> {min f t..max f t}"
proof (cases "k = t")
  case True
  then show ?thesis using origin_orig [OF ok] i s ne by (auto simp: orig_def)
next
  case False
  have u: "unrank {x} j = (if x < j then j - 1 else j)" for x j :: nat
    by (cases "x < j") (simp_all add: unrank_eq)
  have o: "origin b k = Some (free {f} (unrank {t} k))" using origin_orig [OF ok] d i False by (simp add: orig_def)
  consider "k < min f t \<or> max f t < k" | "f < t" "f \<le> k" "k < t" | "t < f" "t < k" "k \<le> f" using False by fastforce
  then show ?thesis
  proof cases
    case 1
    then have "free {f} (unrank {t} k) = k" by (intro free_eqI) (auto simp: u)
    then show ?thesis using o 1 by auto
  next
    case 2
    then have "free {f} (unrank {t} k) = k + 1" by (intro free_eqI) (auto simp: u)
    then show ?thesis using o 2 by auto
  next
    case 3
    then have "free {f} (unrank {t} k) = k - 1" by (intro free_eqI) (auto simp: u)
    then show ?thesis using o 3 by auto
  qed
qed

lemma list_kind_move:
  assumes mx: "max_size_ok mx" and b: "list_ok mx b" and m: "moves b = [\<lparr>mv_from = f, mv_to = t\<rparr>]" "f \<noteq> t" "f < n" "t < n" "n \<le> npos"
    and d: "indexes (deletions b) = {f}" and i: "indexes (insertions b) = {t}" and mods: "indexes (modifications b) \<subseteq> {..<n}"
  shows "\<exists>ch. list_kind mx b initial_size change = Some ch \<and> ci_kind ch = Kind_Set \<and>
    indexes (ci_indices ch) = {k. k < n \<and> (origin b k \<noteq> Some k \<or> modified b k)}"
proof -
  have ok: "cb_ok mx b" "m_move_mapping b = []" using b by (simp_all add: list_ok_def)
  have ix: "index_set_ok mx (deletions b)" "index_set_ok mx (insertions b)" "index_set_ok mx (modifications b)"
    using ok(1) by (simp_all add: cb_ok_def iset_ok_def)
  obtain ms where ms: "is_remove_set mx (insertions b) (modifications b) = Some ms" "index_set_ok mx ms"
    "indexes ms = indexes (modifications b) - {t}" using is_remove_set_correct [OF ix(3,2) mx] i by auto
  obtain J where J: "is_add_set mx (deletions b) ms = Some J" "index_set_ok mx J" "indexes J = (indexes (modifications b) - {t}) \<union> {f}"
    using is_add_set_correct [OF ms(2) ix(1) mx] ms(3) d by auto
  have "f \<in> indexes J" "f < npos" "t < npos" using J(3) m by auto
  from move_before_after [OF mx ix(1) d ix(2) i m(2) this(2,3) J(2) this(1)]
  obtain del_it ins_it shift J' where l: "foldM (shifted_row mx (deletions b) (insertions b)) [min t f..<max (t + 1) (f + 1)]
      (it_begin (deletions b), it_begin (insertions b), 0, J) = Some (del_it, ins_it, shift, J')"
    "indexes J' = indexes J \<union> {min f t..max f t}" by blast
  have "last_second (insertions b) = t + 1" "last_second (deletions b) = f + 1"
    using last_second_one [of mx "insertions b" t] last_second_one [of mx "deletions b" f] ok(1) d i by (simp_all add: cb_ok_def)
  then have "moved_indices mx ms b = Some J'"
    using J(1) l(1) one_range [OF ix(1) d] one_range [OF ix(2) i] by (simp add: moved_indices_def Let_def)
  moreover have "is_count (insertions b) 0 npos = 1" "is_count (deletions b) 0 npos = 1"
    using one_range(5) [OF ix(1) d, of npos] one_range(5) [OF ix(2) i, of npos] m by auto
  ultimately have "list_kind mx b initial_size change = Some (change\<lparr>ci_kind := Kind_Set, ci_indices := J'\<rparr>)"
    using ms(1) m(1) by (simp add: list_kind_def)
  moreover have "indexes J' = {k. k < n \<and> (origin b k \<noteq> Some k \<or> modified b k)}"
  proof -
    have "sources b t = Some f" using m(1) by (simp add: sources_def)
    note o = moved_origin [OF ok(1) d i this m(2)]
    have "modified b k \<longleftrightarrow> k \<in> indexes (modifications b)" for k using ix(3) by (simp add: modified_def is_contains_iff)
    moreover have "k < n" if "k \<in> {min f t..max f t}" for k using that m(3,4) by auto
    ultimately show ?thesis unfolding l(2) J(3) using o mods by auto
  qed
  ultimately show ?thesis by (intro exI conjI) (assumption, simp_all)
qed

lemma row_origin_unique:
  assumes r: "row_ok mx N n {} b" and k: "j < n" "k < n" "origin b j = Some i" "origin b k = Some i"
  shows "j = k"
proof -
  let ?I = "indexes (insertions b)" and ?D = "indexes (deletions b)" and ?m = "map_of (m_move_mapping b)"
  have s: "shape N n ?D ?I" and ran: "ran ?m \<subseteq> ?D" and inj: "\<forall>x y v. ?m x = Some v \<longrightarrow> ?m y = Some v \<longrightarrow> x = y"
    using r by (auto simp: row_ok_def inj_on_map_iff)
  have fin: "finite ?D" using s finite_subset by (auto simp: shape_def)
  have o: "if x \<in> ?I then ?m x = Some i \<and> i \<in> ?D else x = i \<and> i \<notin> ?D" if "x < n" "origin b x = Some i" for x
  proof (cases "x \<in> ?I")
    case True
    then have "?m x = Some i" using row_origin [OF r that(1)] that(2) by simp
    then show ?thesis using True subsetD [OF ran ranI] by simp
  next
    case False
    then show ?thesis using row_origin [OF r that(1)] that(2) shape_free(1) [OF s fin that(1) False] by simp
  qed
  show ?thesis using o [OF k(1,3)] o [OF k(2,4)] inj by (auto split: if_splits)
qed

lemma column_change_default:
  "ci_kind (column_change indices t k col i column_info_default) =
     (if ci_initial_column_index (column_change indices t k col i column_info_default) \<noteq> npos \<and> is_contains col k then Kind_Set else Kind_None)"
  "t < length indices \<Longrightarrow> ci_initial_column_index (column_change indices t k col i column_info_default) = initial_column_index (indices ! t) i"
  by (simp_all add: column_change_def column_info_default_def Let_def)

lemma row_change_follows:
  assumes r: "row_ok mx N n {} b" and c: "cb_parse_complete mx b = Some c" and row: "os_row_ndx ob < N"
    and t: "t = new_table_ndx info (os_table_ndx ob)" "t < length (tables info)" "tables info ! t = c" and new: "os_changes ob = []"
    and res: "row_change info ob invalidated = (ob', invalidated')"
  shows "(\<forall>k < n. origin b k \<noteq> Some (os_row_ndx ob)) \<Longrightarrow> ob' = ob \<and> invalidated' = invalidated @ [os_info ob]"
    and "k < n \<Longrightarrow> origin b k = Some (os_row_ndx ob) \<Longrightarrow> invalidated' = invalidated \<and>
      (if modified c k then length (os_changes ob') = length (columns c) \<and>
         (\<forall>i < length (columns c). ci_kind (os_changes ob' ! i) =
            (if ci_initial_column_index (os_changes ob' ! i) \<noteq> npos \<and> col_modified c i k then Kind_Set else Kind_None) \<and>
            (t < length (column_indices info) \<longrightarrow> ci_initial_column_index (os_changes ob' ! i) = initial_column_index (column_indices info ! t) i))
       else ob' = ob)"
proof -
  note o = observed_row_correct [OF r c row]
  show "ob' = ob \<and> invalidated' = invalidated @ [os_info ob]" if "\<forall>k < n. origin b k \<noteq> Some (os_row_ndx ob)"
    using o that res t by (auto simp: row_change_def Let_def split: option.splits)
  assume k: "k < n" "origin b k = Some (os_row_ndx ob)"
  obtain k' where k': "observed_row c (os_row_ndx ob) = Some k'" "k' < n" "origin b k' = Some (os_row_ndx ob)"
    using o k by (cases "observed_row c (os_row_ndx ob)") auto
  have "k' = k" using row_origin_unique [OF r k'(2) k(1) k'(3) k(2)] .
  show "invalidated' = invalidated \<and>
      (if modified c k then length (os_changes ob') = length (columns c) \<and>
         (\<forall>i < length (columns c). ci_kind (os_changes ob' ! i) =
            (if ci_initial_column_index (os_changes ob' ! i) \<noteq> npos \<and> col_modified c i k then Kind_Set else Kind_None) \<and>
            (t < length (column_indices info) \<longrightarrow> ci_initial_column_index (os_changes ob' ! i) = initial_column_index (column_indices info ! t) i))
       else ob' = ob)"
  proof (cases "modified c k")
    case False
    then show ?thesis using res t k' \<open>k' = k\<close> by (simp add: row_change_def Let_def modified_def)
  next
    case True
    then have e: "invalidated' = invalidated" "os_changes ob' = map (\<lambda>i. column_change (column_indices info) t k (columns c ! i) i
        (resize column_info_default (length (columns c)) [] ! i)) [0..<length (columns c)]"
      using res t k' \<open>k' = k\<close> new by (auto simp: row_change_def Let_def modified_def)
    have "os_changes ob' ! i = column_change (column_indices info) t k (columns c ! i) i column_info_default" if "i < length (columns c)" for i
      unfolding e(2) using that by (simp add: resize_def)
    then show ?thesis using True e column_change_default by (simp add: col_modified_def)
  qed
qed

subsection \<open>Two moved rows\<close>

text \<open>Of a list the rows 3 and 10 are moved to the front.  Between them all rows are one further back than before.\<close>

definition two_moves :: change_builder where
  "two_moves = cb_default\<lparr>deletions := [\<lparr>c_data = [(3, 4), (10, 11)], c_begin = 3, c_end = 11, c_count = 2\<rparr>],
     insertions := [\<lparr>c_data = [(0, 2)], c_begin = 0, c_end = 2, c_count = 2\<rparr>],
     moves := [\<lparr>mv_from = 3, mv_to = 0\<rparr>, \<lparr>mv_from = 10, mv_to = 1\<rparr>]\<rparr>"

lemma two_moves_indices:
  "moved_indices 4 [] two_moves = Some [\<lparr>c_data = [(0, 4), (10, 11)], c_begin = 0, c_end = 11, c_count = 5\<rparr>]"
  by code_simp

lemma two_moves_origin:
  "map (origin two_moves) [0..<12] = map Some [3, 10, 0, 1, 2, 4, 5, 6, 7, 8, 9, 11]"
  by code_simp

lemma two_moves_steps:
  "is_erase_or_unshift 3 [] = ([], 3)" "is_insert_at 4 0 1 [] = Some (one_index 0)"
  "is_add_shifted 4 3 [] = Some (one_index 3, 3)"
  "is_erase_or_unshift 10 (one_index 0) = (one_index 0, 9)"
  "is_insert_at 4 1 1 (one_index 0) = Some (insertions two_moves)"
  "is_add_shifted 4 9 (one_index 3) = Some (deletions two_moves, 10)"
  "move_col 4 3 0 [] = Some []" "move_col 4 10 1 [] = Some []"
  by code_simp+

lemma two_moves_made: "foldM (list_apply 4) [Move 3 0, Move 10 1] cb_default = Some two_moves"
  using two_moves_steps by (simp add: cb_move_def move_row_def for_each_col_def cb_default_def npos_def two_moves_def)

lemma two_moves_kind:
  "list_kind 4 two_moves n change = Some (change\<lparr>ci_kind := Kind_Set,
     ci_indices := [\<lparr>c_data = [(0, 4), (10, 11)], c_begin = 0, c_end = 11, c_count = 5\<rparr>]\<rparr>)"
proof -
  have "index_set_ok 4 (insertions two_moves)" "index_set_ok 4 (deletions two_moves)"
    "indexes (insertions two_moves) = {0, 1}" "indexes (deletions two_moves) = {3, 10}"
    by (auto simp: two_moves_def index_set_ok_def crv_ok_def chunk_ok_def indexes_def flat_def)
  then have "is_count (insertions two_moves) 0 npos = 2" "is_count (deletions two_moves) 0 npos = 2"
    by (simp_all add: is_count_from_zero npos_def)
  moreover have "is_remove_set 4 (insertions two_moves) (modifications two_moves) = Some []"
    by (simp add: two_moves_def cb_default_def is_remove_set_def flat_def it_begin_def, subst do_remove.simps)
      (simp add: is_find_from_def it_begin_def it_end_def)
  ultimately show ?thesis using two_moves_indices by (simp add: list_kind_def two_moves_def)
qed

subsection \<open>A builder of swapped rows, one of them modified\<close>

definition followed_builder :: change_builder where
  "followed_builder = after_swaps\<lparr>modifications := one_index 4, columns := [[], one_index 4]\<rparr>"

lemma followed_builder_facts:
  "row_ok 4 5 5 {} followed_builder" "origin followed_builder 4 = Some 0"
  "\<exists>c. cb_parse_complete 4 followed_builder = Some c \<and> columns c = [[], one_index 4] \<and> modified c 4 \<and> col_modified c 1 4"
proof -
  have "row_ops_ok [Swap 0 4, Swap 1 3] 5" "max_size_ok 4" by (simp_all add: npos_def max_size_ok_def)
  then have r: "row_ok 4 5 5 {} after_swaps" using row_run [OF cb_default_ok(2) [of 4 5], of "[Swap 0 4, Swap 1 3]"] swaps_run by auto
  have i: "iset_ok 4 (one_index 4)" "indexes (one_index 4) = {4}" "iset_ok 4 []"
    by (auto simp: iset_ok_def index_set_ok_def crv_ok_def chunk_ok_def indexes_def flat_def max_size_ok_def)
  show f: "row_ok 4 5 5 {} followed_builder" using r i by (auto simp: followed_builder_def row_ok_def cb_ok_def)
  have con: "is_contains (one_index 4) 4" by code_simp
  have "4 \<in> indexes (insertions followed_builder)" "map_of (m_move_mapping followed_builder) 4 = Some 0"
    by (auto simp: followed_builder_def after_swaps_def swapped_def indexes_def flat_def)
  then show "origin followed_builder 4 = Some 0" using row_origin [OF f, of 4] by simp
  show "\<exists>c. cb_parse_complete 4 followed_builder = Some c \<and> columns c = [[], one_index 4] \<and> modified c 4 \<and> col_modified c 1 4"
    using con by (simp add: cb_parse_complete_def followed_builder_def after_swaps_def parse_move_def cb_default_def modified_def col_modified_def)
qed

end
