(* ===== verification/Spec2Isabelle.thy ===== *)
theory Spec2Isabelle
  imports Index_Set_Bulk Change_Runs Change_Compose Log_Undo Observer_Gaps Observer_Schema Related_Tables Callbacks Notifiers Change_Calculation Results_Notifier Kvo_Adapter
begin

text \<open>
  Verification of the change notification path of Realm Object Store and of the transaction log it reads, as
  vendored in this application (\<open>CheckExchangeRate/Pods/Realm\<close>; \<open>OS\<close> below is \<open>Realm/ObjectStore/src\<close>, \<open>core\<close> is
  \<open>include/core/realm\<close>).

  \<^bold>\<open>The program.\<close>  A write transaction is recorded as a log of instructions, a string of bytes that
  \<open>TransactLogEncoder\<close> writes (\<open>core/impl/transact_log.hpp\<close>).  When a reader advances to a newer version,
  \<open>SharedGroup\<close> hands the changesets in between to \<open>TransactLogParser\<close> as one stream
  (\<open>core/impl/input_stream.hpp\<close>), and the parser calls a handler for every instruction; when a writer rolls back,
  \<open>TransactReverser\<close> first turns the log around.  The handlers of the object store
  (\<open>OS/impl/transact_log_handler.cpp\<close>) reject destructive schema changes and feed one
  \<open>CollectionChangeBuilder\<close> (\<open>OS/impl/collection_change_builder.cpp\<close>) for every observed table and list.  A builder
  keeps deletions, insertions and modifications as index sets (\<open>OS/index_set.cpp\<close>) and the moves as pairs.  A
  \<open>CollectionNotifier\<close> (\<open>OS/impl/collection_notifier.cpp\<close>) adds the rows whose linked objects were modified, merges
  the change into what every callback has not yet seen, packages it and delivers it.

  \<^bold>\<open>Theories.\<close>
  \<^item> \<open>Prelude\<close>: \<open>REALM_ASSERT\<close> in the option monad, loops with a failing body, lemmas on lists.
  \<^item> Index sets.  \<open>Ranges\<close>: sorted lists of disjoint ranges.  \<open>Chunked_Range_Vector\<close>: the chunks of
    \<open>index_set.hpp\<close> with their cached bounds and counts, and iterators.  \<open>Index_Set\<close>, \<open>Index_Set_Shift\<close>,
    \<open>Index_Set_Bulk\<close>, \<open>Range_Builder\<close>: every operation of \<open>IndexSet\<close>, one definition \<open>is_...\<close> or \<open>do_...\<close> each.
    \<open>index_set_ok\<close> is the representation invariant, \<open>indexes\<close> the set denoted; each operation keeps the one and has
    its set-level meaning on the other.
  \<^item> Change builder.  \<open>Change_Builder\<close> has the operations (\<open>cb_...\<close>).  \<open>Row_Numbering\<close> and \<open>Change_Lists\<close>: the
    abstract content of a builder, the map from new to old positions and the flags of modified rows, and its
    change under list operations.  \<open>Change_Rows\<close>: the same for tables, whose rows are erased by moving the last
    one.  \<open>Change_Runs\<close>: whole runs refine the edits of a list of rows.  \<open>Change_Merge\<close>, \<open>Change_Compose\<close>: merging
    composes.
  \<^item> Integers and buffers.  \<open>Safe_Int\<close>: \<open>core/util/safe_int_ops.hpp\<close>; \<open>Buffer\<close>: \<open>core/util/buffer.hpp\<close>.
  \<^item> The log.  \<open>Log_Input\<close>: the streams, behind the locale \<open>no_copy_input_stream\<close>.  \<open>Log_Int\<close>: the integer encoding.
    \<open>Log_Encoder\<close>, \<open>Log_Methods\<close>: instructions and encoder; \<open>Log_Parser\<close>: the parser.  \<open>Log_Roundtrip\<close>, \<open>Log_Write\<close>:
    what is written is read.  \<open>Log_Blocks\<close>: independence of block boundaries, termination on any bytes.
    \<open>Log_Reverser\<close>, \<open>Log_Reversal\<close>, \<open>Log_Selections\<close>: the reverser and the selections of the reversed log.
    \<open>Log_Undo\<close>: what undoing an instruction means, for tables, columns, rows, links and cells, and that the reverser
    does it.
  \<^item> Observing.  \<open>Change_Info\<close>: \<open>TransactionChangeInfo\<close> and the helpers on its vectors.  \<open>Log_Observer\<close>:
    \<open>TransactLogValidator\<close>, \<open>TransactLogObserver\<close> (\<open>ob_...\<close>) and the parts of \<open>SharedGroup\<close> that run them.
    \<open>Observer_Tracker\<close>: a tracker of the places of the observed lists, the edits a log makes to each, and the logs the
    observer can follow (\<open>call_safe\<close>).  \<open>Table_Builders\<close>: the builder of an observed table keeps an invariant under which
    no operation fails.  \<open>Observer_Lists\<close>: the observer follows the tracker, over instructions on lists, rows, columns,
    tables and subtables.  \<open>Observer_Schema\<close>: the validator against the effect of an instruction on names; inserted
    tables and columns.  \<open>Observer_Gaps\<close>: logs on which a list is lost or the observer fails.
  \<^item> Notifying.  \<open>Deep_Change\<close>: \<open>DeepChangeChecker\<close> against plain reachability; \<open>Related_Tables\<close>: which tables matter
    and which checker is chosen.  \<open>Notifiers\<close>: what the notifiers of lists and objects add to a change.
    \<open>Callbacks\<close>: registration, packaging and delivery while callbacks come and go.
  \<^item> Results.  \<open>Longest_Match\<close>: the search for common blocks of two sequences.  \<open>Change_Calculation\<close>:
    \<open>CollectionChangeBuilder::calculate\<close>, for sorted results and for results in the order of the table; \<open>keep\<close> is what
    is left of a sequence.  \<open>Results_Notifier\<close>: \<open>OS/impl/results_notifier.cpp\<close>, which follows rows through the
    changes of \<open>Change_Runs\<close> and calculates the change of its results.
  \<^item> Bindings.  \<open>Kvo_Adapter\<close>: \<open>KVOAdapter\<close>, which finds observed rows in the changes of a transaction and turns the
    changes of their lists into key-value observing's terms.

  \<^bold>\<open>Conventions.\<close>  \<open>size_t\<close> is \<^typ>\<open>nat\<close>; wrap-around is written out where the code relies on it or where a
  decrement may meet zero, and \<open>npos\<close> is its largest value.  The values of a log are \<^typ>\<open>int\<close>, with the range of
  their type as a side condition, and bytes are 8-bit words.  An operation that may fail an assertion or throw
  returns an option; reading outside a vector and using a dangling pointer, which are undefined, are \<open>None\<close> as
  well, so that a result excludes them.  Pointers to builders are addresses in a store.

  Four places where an unsigned number would wrap in the code and does not in the model are out of reach of its
  callers: \<open>remove\<close> with \<open>index + count\<close> beyond \<open>2 ^ 64\<close> (callers pass one), \<open>add\<close> of \<open>npos\<close> (no row has this index),
  a changeset interval whose end is before its start, a last entry \<open>npos\<close> of the column indices (\<open>expand_to\<close> always
  leaves another behind it).  \<open>max_numbers_per_chunk\<close> is the
  value of release builds, 8; debug builds take 2, which cuts the same bytes into more chunks.

  \<^bold>\<open>Parameters.\<close>  \<open>mx\<close>: the ranges per chunk (4 in debug builds, 256 in release builds), even and positive.
  \<open>junk\<close>: the content of fresh memory.  \<open>hist\<close>: the history, the changesets of every version in pieces;
  assumed of it only that no piece is empty.  \<open>next_block\<close>: a stream.  \<open>h\<close>: a handler.  \<open>sel\<close>: the three methods of the
  encoder that write selections, which are declared in the header and defined outside these sources; assumed to
  append the bytes that the parser of these sources reads, and instantiated in the witnesses.  \<open>group_view\<close> and
  \<open>table_columns\<close>: the links and columns of the database, read by \<open>Table\<close>'s methods; \<open>column_types\<close> and \<open>subtable_size\<close> likewise.  \<open>srt\<close>: \<open>std::sort\<close> by a
  key that does not determine the element; assumed to sort and to permute.  \<open>user\<close>: what a callback does to
  its notifier.

  \<^bold>\<open>Bounds.\<close>  Loops over iterators have a measure.  The parse loop is a partial function; \<open>parse_fuel\<close> shows that
  as many rounds as the log has bytes are enough.  \<open>find_related_tables\<close> has fuel, enough when it exceeds the number
  of tables.  The search for common blocks has a measure.  The deep search ends at \<open>max_depth\<close>, the size of its array.  \<open>size_max\<close> bounds a buffer and
  \<open>max_columns\<close> a table, far below \<open>2 ^ 64\<close>, so that doubling does not wrap.  The delivery loop is a partial function
  that is shown to end.

  \<^bold>\<open>Results.\<close>  The first properties are about index sets, the next ones about the builder up to the change set
  it reports, then encoding, parsing and reversing, then whole transactions as the observer sees them, then the
  notifier; those at the end are deviations that modelling brought to light.

  \<^bold>\<open>Not modelled.\<close>  Storage (arrays, columns, tables, queries, the allocator, encryption): templates whose
  definitions are not in these sources, mostly; the model takes what it needs of them as parameters.
  \<open>TransactLogConvenientEncoder\<close>, a layer of caching over the encoder, because the selections it caches are
  written outside the sources.  \<open>advance_with_notifications\<close>, which calls into the language bindings between the
  steps modelled here.  Threads: the worker of
  \<open>RealmCoordinator\<close> and the locks; each operation that takes a lock is one step here.  Synchronisation, schema
  migration, the accessors of results and lists, and the Swift application, which calls the library through its Objective-C binding.
\<close>

section \<open>Sample values for the witnesses\<close>

definition sample_set :: crv where
  "sample_set = [\<lparr>c_data = [(1, 3), (5, 6)], c_begin = 1, c_end = 6, c_count = 3\<rparr>]"

definition sample_positions :: crv where
  "sample_positions = [\<lparr>c_data = [(0, 1), (2, 4)], c_begin = 0, c_end = 4, c_count = 3\<rparr>]"

lemma sample_set_facts:
  "index_set_ok 4 sample_set" "indexes sample_set = {1, 2, 5}" "max_size_ok 4"
  by (auto simp: sample_set_def index_set_ok_def crv_ok_def chunk_ok_def flat_def indexes_def max_size_ok_def)

lemma sample_positions_facts:
  "index_set_ok 4 sample_positions" "indexes sample_positions = {0, 2, 3}"
  by (auto simp: sample_positions_def index_set_ok_def crv_ok_def chunk_ok_def flat_def indexes_def)

definition sample_edits :: "list_op list" where
  "sample_edits = [Insert 1 2, Move 0 3, Erase 2, Modify 1 0]"

definition sample_row_edits :: "row_op list" where
  "sample_row_edits = [Add_Rows 2, Move_Last_Over 0, Swap 1 2]"

lemma npos_large: "20 \<le> npos"
  by (simp add: npos_def)

lemma sample_edits_ok: "list_ops_ok sample_edits 3" "row_ops_ok sample_row_edits 3"
  using npos_large
  by (simp_all add: sample_edits_def sample_row_edits_def list_insert_def list_erase_def numeral_2_eq_2 eval_nat_numeral)

lemma max_size_ok_4: "max_size_ok 4"
  by (simp add: max_size_ok_def)

lemmas default_builder = cb_default_ok [OF max_size_ok_4]

text \<open>Two consecutive edits: two rows inserted before row 1 of three and row 0 erased; then row 0 moved behind
  row 2, the row before it erased and row 0 modified.\<close>

definition first_edit :: change_builder where
  "first_edit = cb_default\<lparr>deletions := [\<lparr>c_data = [(0, 1)], c_begin = 0, c_end = 1, c_count = 1\<rparr>],
     insertions := [\<lparr>c_data = [(0, 2)], c_begin = 0, c_end = 2, c_count = 2\<rparr>]\<rparr>"

definition second_edit :: change_builder where
  "second_edit = cb_default\<lparr>deletions := [\<lparr>c_data = [(0, 2)], c_begin = 0, c_end = 2, c_count = 2\<rparr>],
     insertions := [\<lparr>c_data = [(1, 2)], c_begin = 1, c_end = 2, c_count = 1\<rparr>],
     modifications := [\<lparr>c_data = [(0, 1)], c_begin = 0, c_end = 1, c_count = 1\<rparr>],
     moves := [\<lparr>mv_from = 0, mv_to = 1\<rparr>]\<rparr>"

lemma sample_edit_facts: "list_ok 4 first_edit" "list_ok 4 second_edit"
  using max_size_ok_4
  by (auto simp: first_edit_def second_edit_def cb_default_def list_ok_def cb_ok_def moves_ok_def iset_ok_def
    index_set_ok_def crv_ok_def chunk_ok_def flat_def indexes_def)

lemma default_cb_ok: "cb_ok 4 cb_default"
  using default_builder(1) by (simp add: list_ok_def)

text \<open>A small log: a table is selected, two rows are appended to five, a cell is set and a link moved.\<close>

definition sample_log :: "log_entry list" where
  "sample_log = [Call (Select_table 1 []), Call (Insert_empty_rows 5 2 5 False), Call (Set_int 0 5 (- 7) instr_Set 0),
     Call (Swap_rows 5 6), Set_all [3, 4]]"

text \<open>An instance of the methods that write selections: the fields of the call.\<close>

definition sample_sel :: "call \<Rightarrow> enc" where
  "sample_sel c = append_simple_instr 0 (call_fields c)"

lemma sample_sel_writes: "writes_selections sample_sel"
  unfolding writes_selections_def
proof (intro allI impI, elim conjE)
  fix c e
  assume c: "is_select c" "call_ok c" "encoder_ok e" "length (written e) + fields_room (call_fields c) \<le> size_max"
  have "entry_writable (Call c)" using c(1,2) by (cases c) simp_all
  from append_simple_instr_correct [OF c(3) entry_fields_ok [OF this], of 0] c(4)
  show "\<exists>e'. sample_sel c e = Some e' \<and> encoder_ok e' \<and> written e' = written e @ call_bytes c"
    by (simp add: sample_sel_def call_bytes_def)
qed

lemma small_sizes: "0 \<le> v \<Longrightarrow> v < 1000 \<Longrightarrow> in_range t_size v" "- 1000 < v \<Longrightarrow> v < 1000 \<Longrightarrow> in_range t_int64 v"
  "- 1000 < v \<Longrightarrow> v < 1000 \<Longrightarrow> in_range t_int v"
  by (simp_all add: in_range_def int_min_def int_max_def int_type_defs)

lemmas call_facts = call_ok_def field_ok_def cell_fields_def unique_ok_def variant_ok_def max_levels_def

lemma sample_log_ok:
  "list_all entry_writable sample_log" "sum_list (map entry_room sample_log) \<le> size_max" "list_all entry_ok sample_log"
proof -
  show w: "list_all entry_writable sample_log"
    by (simp add: sample_log_def call_facts small_sizes) (simp add: size_max_def)
  then show "list_all entry_ok sample_log" by (rule writable_ok)
  show "sum_list (map entry_room sample_log) \<le> size_max"
    by (simp add: sample_log_def entry_room_def fields_room_def max_size_list_def cell_fields_def max_enc_defs size_max_def)
qed

definition sample_calls :: "call list" where
  "sample_calls = [Select_table 1 [], Insert_empty_rows 5 2 5 False, Select_link_list 0 5 2, Link_list_insert 0 3 0]"

lemma sample_calls_written:
  "concat (map rev_written sample_calls) = [Select_table 1 [], Erase_rows 5 2 7 False, Select_link_list 0 5 2, Link_list_erase 0 1]"
  by (simp add: sample_calls_def rev_written_def inverse_calls_def int_cast_def t_size_def)

lemma sample_calls_ok: "list_all (\<lambda>c. call_ok c \<and> writable c) (concat (map rev_written sample_calls))"
  "calls_room (concat (map rev_written sample_calls)) \<le> size_max"
  unfolding sample_calls_written
  by (simp_all add: call_facts small_sizes calls_room_def entry_room_def fields_room_def max_size_list_def max_enc_defs size_max_def)

text \<open>
  Two lists of one link are observed, in row 0 of table 0, with the flags a notifier of the first one sets for the
  table it links to.  A row is inserted above their owner; a link is added to the first and one moved, the second is
  cleared and filled again, and a cell of the observed table is assigned.
\<close>

definition sample_lists :: "location list" where
  "sample_lists = [(0, 0, 1), (0, 0, 2)]"

definition sample_asks :: change_info where
  "sample_asks = add_required_change_info [\<lparr>rt_table_ndx = 1, rt_links = []\<rparr>] (True, ask_at sample_lists)"

definition sample_links :: "log_entry list" where
  "sample_links = map Call [Select_table 0 [], Insert_empty_rows 0 1 1 False, Select_link_list 1 1 1,
     Link_list_insert 0 5 2, Link_list_move 2 0, Select_link_list 2 1 1, Link_list_clear 2, Link_list_insert 0 0 0,
     Select_table 1 [], Set_int 0 0 5 instr_Set 0]"

lemma sample_links_ok: "list_all entry_ok sample_links"
  by (simp add: sample_links_def call_facts small_sizes)

lemma sample_links_bytes: "log_bytes sample_links \<noteq> []"
  using entry_bytes_nonempty [of "Call (Select_table 0 [])"] by (simp add: sample_links_def log_bytes_def)

lemma sample_links_calls: "log_calls sample_links = [Select_table 0 [], Insert_empty_rows 0 1 1 False, Select_link_list 1 1 1,
     Link_list_insert 0 5 2, Link_list_move 2 0, Select_link_list 2 1 1, Link_list_clear 2, Link_list_insert 0 0 0,
     Select_table 1 [], Set_int 0 0 5 instr_Set 0]"
  by (simp add: sample_links_def log_calls_def)

lemma sample_asks_ok: "asks_for (map Some sample_lists) sample_asks" "table_modifications_needed sample_asks = [False, True]"
proof -
  have "asks_for (map Some sample_lists) (ask_at sample_lists)" by (rule ask_at_asks) (simp_all add: sample_lists_def)
  then show "asks_for (map Some sample_lists) sample_asks"
    by (simp add: sample_asks_def add_required_change_info_def Let_def asks_for_def)
  show "table_modifications_needed sample_asks = [False, True]"
    by (simp add: sample_asks_def add_required_change_info_def Let_def ask_at_def resize_def)
qed

lemmas sample_tracking =
  tracker_run sample_links_calls sample_asks_ok(2) is_set_flag_def call_safe_def fits_def watched_def sample_lists_def

lemma sample_links_safe:
  "log_safe (tracker_init sample_asks (map Some sample_lists) (\<lambda>_. 1)) (log_calls sample_links)"
  "ops_of 0 (tracker_init sample_asks (map Some sample_lists) (\<lambda>_. 1)) (log_calls sample_links) = [Edit (Insert 0 1), Edit (Move 2 0)]"
  "ops_of 1 (tracker_init sample_asks (map Some sample_lists) (\<lambda>_. 1)) (log_calls sample_links) = [Clear_list 2, Edit (Insert 0 1)]"
  by (simp_all add: sample_tracking npos_def)

text \<open>Two tables: row \<open>r\<close> of the first links to row \<open>r\<close> of the second, which has a list with row \<open>r - 1\<close>.\<close>

definition chain_columns :: table_columns where
  "chain_columns = (\<lambda>t. if t = 0 then [(type_Int, 0), (type_Link, 1)] else if t = 1 then [(type_LinkList, 0)] else [])"

definition chain_view :: group_view where
  "chain_view = \<lparr>is_null_link = (\<lambda>t c r. r = 0), get_link = (\<lambda>t c r. r), get_linklist = (\<lambda>t c r. [r - 1]),
     get_link_target = (\<lambda>t c. if t = 0 then 1 else 0)\<rparr>"

definition chain_related :: "related_table list" where
  "chain_related = [\<lparr>rt_table_ndx = 0, rt_links = [\<lparr>ol_col_ndx = 1, ol_is_list = False\<rparr>]\<rparr>,
     \<lparr>rt_table_ndx = 1, rt_links = [\<lparr>ol_col_ndx = 0, ol_is_list = True\<rparr>]\<rparr>]"

lemma chain_facts:
  "universe_ok chain_columns {0, 1}" "view_ok chain_columns chain_view" "(0 :: nat) \<noteq> npos"
  "find_related_tables chain_columns (Suc (Suc (Suc 0))) [] 0 = Some chain_related"
proof -
  show n: "(0 :: nat) \<noteq> npos" by (simp add: npos_def)
  have m: "Suc 0 \<noteq> npos" by (simp add: npos_def)
  show "universe_ok chain_columns {0, 1}"
    by (auto simp: universe_ok_def chain_columns_def link_tables_def)
  show "view_ok chain_columns chain_view"
    using n m by (auto simp: view_ok_def chain_columns_def chain_view_def is_link_column_def nth_Cons' split: if_splits)
  show "find_related_tables chain_columns (Suc (Suc (Suc 0))) [] 0 = Some chain_related"
    using n m by (simp add: has_table_def is_link_column_def add_link_def chain_columns_def chain_related_def)
qed

lemma chain_reaches:
  "map (\<lambda>ndx. changed first_row_modified (0, ndx) \<or> reaches chain_view chain_related first_row_modified (max_depth - 1) (0, ndx)) [0, 1, 2] =
     [True, True, False]"
  by code_simp

section \<open>Index sets\<close>

text \<open>
  C1.  \<open>IndexSet::add\<close> never fails an assertion on a well-formed set, keeps the chunk bookkeeping
  well formed and adds exactly the index.
\<close>

theorem add_inserts:
  assumes "max_size_ok mx" "index_set_ok mx v"
  shows "\<exists>v'. is_add mx i v = Some v' \<and> index_set_ok mx v' \<and> indexes v' = insert i (indexes v)"
  by (rule is_add_correct [OF assms(2,1)])

theorem add_inserts_witness:
  "\<exists>v'. is_add 4 4 sample_set = Some v' \<and> index_set_ok 4 v' \<and> indexes v' = {1, 2, 4, 5}"
  using add_inserts [of 4 sample_set 4] sample_set_facts by (simp add: insert_commute)

text \<open>
  C2.  \<open>IndexSet::remove(index, count)\<close> terminates without a failing assertion and removes exactly the
  indices from \<open>index\<close> to \<open>index + count\<close>, over any number of ranges and chunks.
\<close>

theorem remove_removes:
  assumes "max_size_ok mx" "index_set_ok mx v" "0 < n"
  shows "\<exists>v'. is_remove mx i n v = Some v' \<and> index_set_ok mx v' \<and> indexes v' = indexes v - {i..<i + n}"
  by (rule is_remove_correct [OF assms(2,1,3)])

theorem remove_removes_witness:
  "\<exists>v'. is_remove 4 2 2 sample_set = Some v' \<and> index_set_ok 4 v' \<and> indexes v' = {1, 5}"
  using remove_removes [of 4 sample_set 2 2] sample_set_facts by (auto simp: insert_Diff_if)

section \<open>Collection change builder\<close>

text \<open>
  C3.  A builder fed with any run of list operations (\<open>insert\<close>, \<open>erase\<close>, \<open>move\<close>, \<open>modify\<close>) never fails an
  assertion, and the rows it describes are those of the list edited by the same run: every row with the
  position it had before the run, or none if it is new.  The modified rows follow the same edits.
\<close>

theorem list_run_refines:
  assumes "max_size_ok mx" "list_ops_ok ops n"
  shows "\<exists>b. foldM (list_apply mx) ops cb_default = Some b \<and> list_ok mx b \<and>
    map (origin b) [0..<length (fold list_edit ops (map Some [0..<n]))] = fold list_edit ops (map Some [0..<n]) \<and>
    modified b = fold list_flags ops (\<lambda>_. False)"
  using list_run [OF cb_default_ok(1) [OF assms(1)] assms(2), unfolded cb_default_ok(3,4) [OF assms(1)]]
  by (simp add: contents_def)

theorem list_run_refines_witness:
  "\<exists>b. foldM (list_apply 4) sample_edits cb_default = Some b \<and> list_ok 4 b \<and>
    map (origin b) [0..<length (fold list_edit sample_edits (map Some [0..<3]))] = fold list_edit sample_edits (map Some [0..<3])"
  using list_run_refines [of 4 sample_edits 3] max_size_ok_4 sample_edits_ok by blast

text \<open>
  C4.  The same for the table operations (rows appended, \<open>move_over\<close> the last row, \<open>swap\<close>), which track moved
  rows in \<open>m_move_mapping\<close>.
\<close>

theorem row_run_refines:
  assumes "max_size_ok mx" "row_ops_ok ops n"
  shows "\<exists>m b. foldM (row_apply mx) ops (n, cb_default) = Some (m, b) \<and> row_ok mx n m {} b \<and>
    map (origin b) [0..<m] = fold row_edit ops (map Some [0..<n])"
  using row_run [OF cb_default_ok(2) [OF assms(1)] assms(2), unfolded cb_default_ok(3) [OF assms(1)]]
  by (auto simp: contents_def)

theorem row_run_refines_witness:
  "\<exists>m b. foldM (row_apply 4) sample_row_edits (3, cb_default) = Some (m, b) \<and> row_ok 4 3 m {} b \<and>
    map (origin b) [0..<m] = fold row_edit sample_row_edits (map Some [0..<3])"
  using row_run_refines [of 4 sample_row_edits 3] max_size_ok_4 sample_edits_ok by blast

text \<open>
  C5.  \<open>merge\<close> composes two change sets: a row of the merged set has the origin it had before both edits, none if
  either inserted it, and a surviving row is modified when the second edit modified it or the first modified
  the row it was then.  The merged deletions must fit the chunks \<open>add_shifted_by\<close> reserves.
\<close>

theorem merge_composes:
  assumes "list_ok mx b" "list_ok mx c" "merge_fits mx c b"
  shows "\<exists>r. cb_merge mx c b = Some r \<and> list_ok mx r \<and>
    (\<forall>k. origin r k = (case origin c k of None \<Rightarrow> None | Some j \<Rightarrow> origin b j)) \<and>
    (\<forall>k. origin r k \<noteq> None \<longrightarrow> (modified r k \<longleftrightarrow> modified c k \<or> modified b (the (origin c k))))"
  using cb_merge_correct [OF assms] by (simp add: fun_eq_iff orig_comp_def)

theorem merge_composes_witness:
  "\<exists>r. cb_merge 4 second_edit first_edit = Some r \<and> list_ok 4 r \<and>
    (\<forall>k. origin r k = (case origin second_edit k of None \<Rightarrow> None | Some j \<Rightarrow> origin first_edit j))"
proof -
  have "merge_fits 4 second_edit first_edit" by code_simp
  from merge_composes [OF sample_edit_facts this] show ?thesis by blast
qed

text \<open>
  C6.  \<open>parse_complete\<close> turns the move mapping of the table operations into a sorted list of moves without
  self-moves, and changes no row's origin.
\<close>

theorem parse_complete_moves:
  assumes "row_ok mx N n {} b"
  shows "\<exists>b'. cb_parse_complete mx b = Some b' \<and> list_ok mx b' \<and> (\<forall>k < n. origin b' k = origin b k) \<and>
    sorted (map mv_from (moves b')) \<and> (\<forall>m \<in> set (moves b'). mv_from m \<noteq> mv_to m) \<and>
    modifications b' = modifications b \<and> columns b' = columns b"
  by (rule cb_parse_complete_correct [OF assms])

theorem parse_complete_moves_witness:
  "\<exists>b'. cb_parse_complete 4 cb_default = Some b' \<and> list_ok 4 b'"
  using parse_complete_moves [OF default_builder(2) [of 5]] by blast

text \<open>
  C7.  \<open>finalize\<close> reports the modified rows that are not insertions, in the new numbering and as the rows they
  were in the old one; both sets have the same size.
\<close>

theorem finalize_reports:
  assumes "cb_ok mx b"
  shows "\<exists>c. cb_finalize mx b = Some c \<and> iset_ok mx (modifications c) \<and> iset_ok mx (modifications_new c) \<and>
    indexes (modifications_new c) = {k. modified b k \<and> k \<notin> indexes (insertions b)} \<and>
    indexes (modifications c) = (the \<circ> origin b) ` {k. modified b k \<and> k \<notin> indexes (insertions b)} \<and>
    card (indexes (modifications c)) = card (indexes (modifications_new c)) \<and>
    deletions c = deletions b \<and> insertions c = insertions b \<and> moves c = moves b \<and> columns c = columns b"
  by (rule cb_finalize_correct [OF assms])

theorem finalize_reports_witness: "\<exists>c. cb_finalize 4 second_edit = Some c \<and> iset_ok 4 (modifications c)"
  using finalize_reports [of 4 second_edit] sample_edit_facts by (auto simp: list_ok_def)

section \<open>Transaction log\<close>

text \<open>
  C8.  A log written by the methods of the encoder is parsed back into the same calls, in order: no write leaves
  the reserved space, the bytes are those of the format, and the parser hands every call to the handler and
  stops at its first failure.  The methods that write selections are the parameter \<open>sel\<close>.
\<close>

theorem written_log_is_parsed:
  assumes "writes_selections sel" "list_all entry_writable es" "sum_list (map entry_room es) \<le> size_max"
  shows "\<exists>e. foldM (enc_entry junk sel) es encoder_init = Some e \<and> encoder_ok e \<and>
    parse whole_next_block h st (written e) = foldM h (log_calls es) st"
  using enc_log_correct [OF assms(1) encoder_init_ok(1) assms(2), of junk] assms(3)
    whole.parse_log [OF writable_ok [OF assms(2)], of "log_bytes es" h st] by auto

theorem written_log_is_parsed_witness:
  "\<exists>e. foldM (enc_entry 0 sample_sel) sample_log encoder_init = Some e \<and> encoder_ok e \<and>
    parse whole_next_block null_observer () (written e) = foldM null_observer (log_calls sample_log) ()"
  by (rule written_log_is_parsed [OF sample_sel_writes sample_log_ok(1,2)])

text \<open>
  C9.  Parsing the changesets of the versions from \<open>a\<close> to \<open>b\<close> makes the calls of all of them in order, in whatever
  pieces the history hands them out and however many batches that takes.
\<close>

theorem changesets_are_parsed:
  assumes "\<forall>v. [] \<notin> set (hist v)" "concat (concat (map hist [a..<b])) = log_bytes es" "list_all entry_ok es"
  shows "parse (changeset_next_block hist) h st (changeset_stream_init hist a b) = foldM h (log_calls es) st"
  using changesets.parse_log [OF assms(3)] changeset_stream_init_content [OF assms(1), of a b] assms(2) by simp

theorem changesets_are_parsed_witness:
  "parse (changeset_next_block (\<lambda>v. [entry_bytes (sample_log ! v)])) null_observer ()
     (changeset_stream_init (\<lambda>v. [entry_bytes (sample_log ! v)]) 0 5) = foldM null_observer (log_calls sample_log) ()"
proof (rule changesets_are_parsed)
  show "\<forall>v. [] \<notin> set [entry_bytes (sample_log ! v)]" by (simp add: entry_bytes_nonempty [symmetric])
  show "concat (concat (map (\<lambda>v. [entry_bytes (sample_log ! v)]) [0..<5])) = log_bytes sample_log"
    by (simp add: sample_log_def log_bytes_def upt_rec)
qed (rule sample_log_ok(3))

text \<open>
  C10.  Cutting a log into blocks changes nothing: on any bytes, well-formed or not, the parser makes the same
  calls on a sequence of logs as on their concatenation, and fails in the same cases.
\<close>

theorem blocks_do_not_matter:
  "parse multi_log_next_block h st (multi_log_init logs) = parse whole_next_block h st (concat logs)"
  by (rule multi_whole.parse_same) (simp_all add: multi_log_init_def)

text \<open>
  C11.  The parser ends on every input: its loop makes at most as many rounds as the log has bytes.
\<close>

theorem parse_ends:
  assumes "length bs < n"
  shows "parse_fuel n whole_next_block h st ([], bs) = Some (parse whole_next_block h st bs)"
  using whole_whole.parse_fuel_ends [of "length bs" "([], bs)" "([], bs)" n] assms
  by (simp add: parse_def whole_whole.same_def whole.good_def whole.bytes_def)

theorem parse_ends_witness:
  "parse_fuel 3 whole_next_block null_observer () ([], [19, 0]) = Some (parse whole_next_block null_observer () [19, 0])"
  by (rule parse_ends) simp

text \<open>
  C12.  The integer encoding: any value of any integer type takes at most ten bytes and is read back by every other
  type that can hold it; a value the type cannot hold is rejected, for signed types.
\<close>

theorem integers_are_read_back:
  assumes "in_range t_int64 v \<or> in_range t_size v" "in_range U v" "log_type_ok T" "is_signed T \<or> 0 \<le> v"
  shows "\<exists>bs p. encode_int U v = Some bs \<and> length bs \<le> 10 \<and> whole.bytes p = rest \<and>
    read_int whole_next_block T ([], bs @ rest) = map_option (\<lambda>w. (w, p)) (fit T v)"
proof -
  let ?p = "adv whole_next_block (length (log_int v)) ([], log_int v @ rest)"
  have g: "whole.good ([], log_int v @ rest)" "whole.bytes ([], log_int v @ rest) = log_int v @ rest"
    by (simp_all add: whole.good_def whole.bytes_def)
  have "whole.bytes ?p = rest" using whole.adv_good [OF g(1), of "length (log_int v)"] g(2) by simp
  moreover have "read_int whole_next_block T ([], log_int v @ rest) = map_option (\<lambda>w. (w, ?p)) (fit T v)"
    using whole.read_int_log_int [OF assms(3) g] assms(4) by (simp add: read_result_def)
  ultimately show ?thesis using encode_int_log_int [OF assms(2)] log_int_length [OF assms(1)] by blast
qed

theorem integers_are_read_back_witness:
  "\<exists>bs p. encode_int t_int (- 7) = Some bs \<and> length bs \<le> 10 \<and> whole.bytes p = [1] \<and>
    read_int whole_next_block t_int64 ([], bs @ [1]) = map_option (\<lambda>w. (w, p)) (fit t_int64 (- 7))"
proof -
  have "is_signed t_int64" by (simp add: t_int64_def)
  then show ?thesis using integers_are_read_back [of "- 7" t_int t_int64 "[1]"] small_sizes by simp
qed

text \<open>
  C13.  The comment on the encoding says that decoding fails iff the value is outside the range of the target type.
  For unsigned types it does not: a negative number below \<open>-1\<close> is read as a \<open>size_t\<close> without an error, modulo
  \<open>2 ^ 64\<close>.
\<close>

theorem negative_sizes_are_accepted:
  assumes "in_range t_int64 v" "v < - 1"
  shows "\<exists>p. read_int whole_next_block t_size ([], log_int v) = Some (2 ^ 64 + v, p)"
proof -
  have g: "whole.good ([], log_int v)" "whole.bytes ([], log_int v) = log_int v @ []"
    by (simp_all add: whole.good_def whole.bytes_def)
  have "read_result t_size v = Some (2 ^ 64 + v)"
    using assms by (simp add: read_result_def in_range_def int_min_def int_max_def int_type_defs)
  then show ?thesis using whole.read_int_log_int [OF _ g, of t_size] by simp
qed

theorem negative_sizes_are_accepted_witness:
  "\<exists>p. read_int whole_next_block t_size ([], log_int (- 7)) = Some (2 ^ 64 + (- 7), p)"
  using negative_sizes_are_accepted [of "- 7"] small_sizes by simp

text \<open>
  C14.  Every method of the encoder stays inside the space it has reserved: on a valid encoder with room for the
  instruction it succeeds, keeps the free region inside the buffer and the bytes written before, and appends
  exactly the bytes of the instruction.
\<close>

theorem encoder_stays_in_bounds:
  assumes "writes_selections sel" "encoder_ok e" "entry_writable x" "length (written e) + entry_room x \<le> size_max"
  shows "\<exists>e'. enc_entry junk sel x e = Some e' \<and> e_begin e' \<le> e_end e' \<and> e_end e' \<le> length (e_data e') \<and>
    take (length (written e)) (written e') = written e \<and> drop (length (written e)) (written e') = entry_bytes x"
  using enc_entry_correct [OF assms, of junk] by (auto simp: encoder_ok_def)

theorem encoder_stays_in_bounds_witness:
  "\<exists>e'. enc_entry 0 sample_sel (Call (Swap_rows 5 6)) encoder_init = Some e' \<and> e_begin e' \<le> e_end e' \<and>
    e_end e' \<le> length (e_data e')"
proof -
  have "entry_writable (Call (Swap_rows 5 6))" by (simp add: call_facts small_sizes)
  moreover have "length (written encoder_init) + entry_room (Call (Swap_rows 5 6)) \<le> size_max"
    by (simp add: entry_room_def fields_room_def max_size_list_def max_enc_defs size_max_def)
  ultimately show ?thesis using encoder_stays_in_bounds [OF sample_sel_writes encoder_init_ok(1)] by blast
qed

text \<open>
  C15.  The reverser writes a log whose pieces, handed out in reverse, are parsed into the reversal of the calls it
  was given: it refines the specification that keeps calls instead of places in a buffer.
\<close>

theorem reversed_log_is_parsed:
  assumes "writes_selections sel" "list_all (\<lambda>c. call_ok c \<and> writable c) (concat (map rev_written cs))"
    "calls_room (concat (map rev_written cs)) \<le> size_max"
  shows "\<exists>r. foldM (reverse_call junk sel) cs reverser_init = Some r \<and>
    parse reversed_next_block h st (reversed_stream_init r) = foldM h (reversed_log cs) st"
  by (rule reverse_parse [OF assms])

theorem reversed_log_is_parsed_witness:
  "\<exists>r. foldM (reverse_call 0 sample_sel) sample_calls reverser_init = Some r \<and>
    parse reversed_next_block null_observer () (reversed_stream_init r) = foldM null_observer (reversed_log sample_calls) ()"
  by (rule reversed_log_is_parsed [OF sample_sel_writes sample_calls_ok])



text \<open>
  C17.  Undoing an instruction restores the number of rows or links, with the prior size the instruction carries
  correct at every step, for all instructions but the clearing of a list.
\<close>

theorem inverse_restores_sizes:
  assumes "size_after c s = Some s'" "in_range t_size s" "in_range t_size s'" "\<forall>n. c \<noteq> Link_list_clear n"
  shows "foldM size_after (rev (inverse_calls c)) s' = Some s"
  by (rule inverse_sizes [OF assms])

theorem inverse_restores_sizes_witness:
  "foldM size_after (rev (inverse_calls (Insert_empty_rows 5 2 5 False))) 7 = Some 5"
  using inverse_restores_sizes [of "Insert_empty_rows 5 2 5 False" 5 7] small_sizes by simp

section \<open>Integers and buffers\<close>

text \<open>
  C18.  Addition, subtraction and conversion yield the exact result, and report an overflow exactly when the type of
  the left operand (or the target) cannot hold it.
\<close>

theorem overflow_is_detected:
  assumes "int_type_ok L" "int_type_ok R" "in_range L l" "in_range R r"
  shows "int_add_with_overflow_detect L R l r = (if in_range L (l + r) then Some (l + r) else None) \<and>
    int_subtract_with_overflow_detect L R l r = (if in_range L (l - r) then Some (l - r) else None) \<and>
    int_cast_with_overflow_detect L R r = (if in_range L r then Some r else None)"
  using int_add_correct [OF assms] int_subtract_correct [OF assms] int_cast_overflow_correct [OF assms(1,2,4)]
  by (simp_all add: fit_def)

theorem overflow_is_detected_witness:
  "int_subtract_with_overflow_detect t_size t_int 5 7 = None \<and> int_add_with_overflow_detect t_size t_int 7 (- 5) = Some 2"
proof -
  have "\<not> in_range t_size (- 2)" by (simp add: in_range_def int_min_def t_size_def)
  then show ?thesis
    using overflow_is_detected [of t_size t_int 5 7] overflow_is_detected [of t_size t_int 7 "- 5"] small_sizes by simp
qed

section \<open>Observing transactions\<close>

text \<open>
  C19.  What a notifier is told about its list: advancing a transaction over the changesets of any number of versions,
  in any pieces, leaves in the builder of every observed list exactly the edits the logs make to that list, clears and
  edits of subtables included, whatever tables are observed besides, and through the insertions, erasures, swaps and
  merges of the rows, columns and tables around it.  \<open>call_safe\<close> says which instructions a log may have.  It asks that
  they fit the tables, and leaves out, for tables that hold observed lists: rows erased in order, an erased row that
  holds an observed list when it or the row that replaces it holds another, two merged rows that both hold one; for
  these and for observed tables, rows moved by \<open>move_row\<close>, and for observed ones a row merged with itself; and
  selecting a subtable, or inserting a column into one, of a table that is not observed.  Property
  \<open>observer_loses_lists\<close> has logs of this kind that the observer does not follow.
\<close>

theorem lists_are_observed:
  assumes "max_size_ok mx" "asks_for locs info" "log_safe (tracker_init info locs rows) (log_calls es)"
    "\<forall>a < length locs. link_ops_ok (ops_of a (tracker_init info locs rows) (log_calls es)) (sz a)"
    "\<forall>v. [] \<notin> set (hist v)" "concat (concat (map hist [v..<w])) = log_bytes es" "list_all entry_ok es" "v < w"
  shows "\<exists>info'. transaction_advance mx hist v w info = Some info' \<and>
    (\<forall>a < length locs. let edits = ops_of a (tracker_init info locs rows) (log_calls es); xs = fold link_edit edits (map Some [0..<sz a]) in
       list_ok mx (builders info' ! a) \<and> map (origin (builders info' ! a)) [0..<length xs] = xs \<and>
       modified (builders info' ! a) = fold link_flags edits (\<lambda>_. False))"
  by (rule advance_lists [OF assms])

theorem lists_are_observed_witness:
  "\<exists>info'. transaction_advance 4 (\<lambda>v. [log_bytes sample_links]) 0 1 sample_asks = Some info' \<and>
     map (origin (builders info' ! 0)) [0..<3] = [Some 1, None, Some 0] \<and> map (origin (builders info' ! 1)) [0..<1] = [None]"
proof -
  let ?sz = "\<lambda>a :: nat. 2 :: nat"
  have e: "fold link_edit [Edit (Insert 0 1), Edit (Move 2 0)] (map Some [0..<2]) = [Some 1, None, Some 0]"
    "fold link_edit [Clear_list 2, Edit (Insert 0 1)] (map Some [0..<2]) = [None :: nat option]" by code_simp+
  have l: "length (map Some sample_lists) = 2" by (simp add: sample_lists_def)
  have ok: "link_ops_ok (ops_of a (tracker_init sample_asks (map Some sample_lists) (\<lambda>_. 1)) (log_calls sample_links)) (?sz a)"
    if "a < length (map Some sample_lists)" for a
  proof -
    have "a = 0 \<or> a = 1" using that unfolding l by auto
    then show ?thesis using sample_links_safe(2,3) by (elim disjE) (simp_all add: npos_def)
  qed
  have "\<exists>info'. transaction_advance 4 (\<lambda>v. [log_bytes sample_links]) 0 1 sample_asks = Some info' \<and>
    (\<forall>a < length (map Some sample_lists). let edits = ops_of a (tracker_init sample_asks (map Some sample_lists) (\<lambda>_. 1)) (log_calls sample_links);
         xs = fold link_edit edits (map Some [0..<?sz a]) in
       list_ok 4 (builders info' ! a) \<and> map (origin (builders info' ! a)) [0..<length xs] = xs \<and>
       modified (builders info' ! a) = fold link_flags edits (\<lambda>_. False))"
    using sample_asks_ok(1) sample_links_safe(1) ok sample_links_bytes sample_links_ok
    by (intro lists_are_observed) (simp_all add: max_size_ok_def)
  then obtain info' where i: "transaction_advance 4 (\<lambda>v. [log_bytes sample_links]) 0 1 sample_asks = Some info'"
    "\<And>a. a < 2 \<Longrightarrow> let edits = ops_of a (tracker_init sample_asks (map Some sample_lists) (\<lambda>_. 1)) (log_calls sample_links);
         xs = fold link_edit edits (map Some [0..<2]) in map (origin (builders info' ! a)) [0..<length xs] = xs"
    unfolding l Let_def by blast
  have n: "length [Some (1 :: nat), None, Some 0] = 3" "length [None :: nat option] = 1" "(0 :: nat) < 2" "(1 :: nat) < 2" by simp_all
  have "map (origin (builders info' ! 0)) [0..<3] = [Some 1, None, Some 0]"
    by (rule i(2) [OF n(3), unfolded Let_def sample_links_safe(2) e n(1,2)])
  moreover have "map (origin (builders info' ! 1)) [0..<1] = [None]"
    by (rule i(2) [OF n(4), unfolded Let_def sample_links_safe(3) e n(1,2)])
  ultimately show ?thesis using i(1) by (intro exI [of _ info'] conjI)
qed

text \<open>
  C20.  The validator lets a log through exactly when no instruction in it makes the name of a table or of a column
  disappear, by what it does to the names; it then only remembers the table selected last, and all the tables that
  were there are there at the end.
\<close>

theorem destructive_changes_are_rejected:
  assumes "\<forall>v. [] \<notin> set (hist v)" "concat (concat (map hist [a..<b])) = log_bytes es" "list_all entry_ok es"
  shows "parse (changeset_next_block hist) validator st (changeset_stream_init hist a b) =
      (if list_ex removes_or_renames (log_calls es) then None
       else Some (st\<lparr>m_current_table := last_table (log_calls es) (m_current_table st)\<rparr>)) \<and>
    (parse (changeset_next_block hist) validator st (changeset_stream_init hist a b) \<noteq> None \<longrightarrow>
       set names \<subseteq> set (fold tables_after (log_calls es) names))"
proof -
  note s = changeset_stream_init_content [OF assms(1), of a b]
  have "parse (changeset_next_block hist) validator st (changeset_stream_init hist a b) = foldM validator (log_calls es) st"
    by (rule changesets.parse_log [OF assms(3)]) (use s assms(2) in simp_all)
  then show ?thesis using tables_kept [of "log_calls es" names] by (simp add: validator_run is_destructive_eq)
qed

theorem destructive_changes_are_rejected_witness:
  "parse (changeset_next_block (\<lambda>v. [log_bytes sample_links])) validator \<lparr>m_current_table = 7\<rparr>
     (changeset_stream_init (\<lambda>v. [log_bytes sample_links]) 0 1) = Some \<lparr>m_current_table = 1\<rparr>"
proof -
  have "[] \<notin> set [log_bytes sample_links]" using sample_links_bytes by simp
  then show ?thesis
    using destructive_changes_are_rejected [of "\<lambda>v. [log_bytes sample_links]" 0 1 sample_links "\<lparr>m_current_table = 7\<rparr>" "[]"] sample_links_ok
    by (simp add: sample_links_calls last_table_def flip: is_destructive_eq)
qed

text \<open>
  C21.  Which objects a notifier reports: \<open>find_related_tables\<close> ends within as many levels as there are tables, and the
  checker chosen for the tables it finds answers, for any sequence of rows, whether the row was modified or reaches a
  modified row over at most three links, whatever the rows checked before; unless the table links to itself only.
\<close>

theorem checker_finds_changes:
  assumes "max_size_ok mx" "universe_ok cols U" "card U < fuel" "root \<in> U" "root \<noteq> npos" "view_ok cols g"
  shows "\<exists>rel. find_related_tables cols fuel [] root = Some rel \<and>
    (length rel = 1 \<and> root \<in> link_tables cols root (length (cols root)) \<or>
     row_did_change mx g rel info root (get_modification_checker info rel) rows =
       Some (map (\<lambda>ndx. changed info (root, ndx) \<or> reaches g rel info (max_depth - 1) (root, ndx)) rows))"
proof -
  obtain rel where rel: "find_related_tables cols fuel [] root = Some rel" "has_table rel root" "links_known cols rel"
    using find_all_related [OF assms(2-5)] by blast
  show ?thesis using checker_exact [OF assms(1) rel(3) assms(6) rel(2)] rel(1) by blast
qed

theorem checker_finds_changes_witness:
  "row_did_change 4 chain_view chain_related first_row_modified 0 (get_modification_checker first_row_modified chain_related) [0, 1, 2] =
     Some [True, True, False]"
proof -
  have "length chain_related \<noteq> 1" by (simp add: chain_related_def)
  then show ?thesis
    using checker_finds_changes [of 4 chain_columns "{0, 1}" "Suc (Suc (Suc 0))" 0 chain_view first_row_modified "[0, 1, 2]"]
      chain_facts chain_reaches by (simp del: find_related_tables.simps list.map add: max_size_ok_def)
qed

text \<open>
  C22.  However many tables are inserted, the flags of a table, its builder, the lists observed in it and its entry in the
  map from initial to present indices stay with the table.  The column indices, which are kept per table as well, do
  not: they stay at the index the table had.
\<close>

theorem inserted_tables_are_followed:
  assumes "table_indices (m_info ob) = []" "table_modifications_needed (m_info ob) \<noteq> []" "ndxs \<noteq> []"
  shows "follows (m_info ob) (fold push_up (map nat ndxs)) (m_info (fold ob_insert_group_level_table ndxs ob)) \<and>
    column_indices (m_info (fold ob_insert_group_level_table ndxs ob)) = column_indices (m_info ob)"
  using inserted_tables [OF assms] inserted_tables_columns by blast

theorem inserted_tables_are_followed_witness:
  "map (new_table_ndx (m_info (fold ob_insert_group_level_table [0, 2, 1] (observer_init first_row_modified)))) [0] = [2]"
proof -
  have "follows first_row_modified (fold push_up (map nat [0, 2, 1])) (m_info (fold ob_insert_group_level_table [0, 2, 1] (observer_init first_row_modified)))"
    using inserted_tables_are_followed [of "observer_init first_row_modified" "[0, 2, 1]"]
    by (simp add: observer_init_def first_row_modified_def)
  moreover have "fold push_up (map nat [0, 2, 1]) 0 = 2" "0 < length (table_modifications_needed first_row_modified)"
    by (simp_all add: push_up_def first_row_modified_def)
  ultimately have "new_table_ndx (m_info (fold ob_insert_group_level_table [0, 2, 1] (observer_init first_row_modified))) 0 = 2"
    unfolding follows_def by metis
  then show ?thesis by simp
qed

text \<open>
  C23.  The column indices of a table say of every present column where it was at the start, new ones apart, after any
  number of insertions; those of other tables do not change.
\<close>

theorem inserted_columns_are_followed:
  assumes "table_selected ob" "columns_ok (columns_of (m_info ob) (m_current_table ob))"
    "length (columns_of (m_info ob) (m_current_table ob)) \<le> 2 * n" "\<forall>ndx \<in> set ndxs. nat ndx < n"
    "2 * n + length ndxs < max_columns"
  shows "\<exists>ob'. foldM ob_insert_column ndxs ob = Some ob' \<and>
    column_origin (columns_of (m_info ob') (m_current_table ob)) =
      fold (\<lambda>ndx. row_insert (nat ndx) 1 None) ndxs (column_origin (columns_of (m_info ob) (m_current_table ob))) \<and>
    (\<forall>t. t \<noteq> m_current_table ob \<longrightarrow> columns_of (m_info ob') t = columns_of (m_info ob) t)"
  using insert_columns_run [of ob n 0 ndxs] assms by simp

theorem inserted_columns_are_followed_witness:
  "\<exists>ob'. foldM ob_insert_column [1, 0] (observer_init first_row_modified) = Some ob' \<and>
     map (column_origin (columns_of (m_info ob') 0)) [0..<5] = [None, Some 0, None, Some 1, Some 2]"
proof -
  let ?ob = "observer_init first_row_modified"
  have ob: "table_selected ?ob" "m_current_table ?ob = 0" "columns_of (m_info ?ob) 0 = []"
    by (simp_all add: table_selected_def observer_init_def columns_of_def first_row_modified_def)
  have "column_origin [] i = Some i" if "i < 5" for i
    using that by (simp add: column_origin_def initial_column_index_def npos_def)
  then have "map (fold (\<lambda>ndx. row_insert (nat ndx) 1 None) [1, 0] (column_origin [])) [0..<5] = [None, Some 0, None, Some 1, Some 2]"
    by (simp add: upt_rec row_insert_def)
  then show ?thesis using inserted_columns_are_followed [of ?ob 2 "[1, 0]"] ob
    by (auto simp: max_columns_def)
qed

section \<open>Delivering notifications\<close>

text \<open>
  C24.  A list notifier marks exactly the rows that the log marked and those whose object was modified or reaches a modified
  object; moved rows need no marking of their own.
\<close>

theorem list_notifier_marks:
  assumes "max_size_ok mx" "links_known cols rel" "view_ok cols g" "has_table rel root"
    "length rel = 1 \<longrightarrow> root \<notin> link_tables cols root (length (cols root))"
    "current_related cols fuel info root rel0 = Some rel"
    "index_set_ok mx (modifications (m_change n))" "\<forall>m \<in> set (moves (m_change n)). mv_to m < length lv"
  shows "\<exists>mods. list_run mx cols fuel g info root rel0 (Some lv) n =
      Some (n\<lparr>m_change := (m_change n)\<lparr>modifications := mods\<rparr>, m_prev_size := length lv\<rparr>) \<and> index_set_ok mx mods \<and>
    indexes mods = indexes (modifications (m_change n)) \<union> {i. i < length lv \<and> row_changed g rel info root (lv ! i)}"
  by (rule list_run_marks [OF assms])

lemma chain_rows:
  "map (row_changed chain_view chain_related first_row_modified 0) [0, 1, 2] = [True, True, False]"
  by code_simp

theorem list_notifier_marks_witness:
  "\<exists>n. list_run 4 chain_columns 3 chain_view first_row_modified 0 chain_related (Some [2, 1, 0]) \<lparr>m_prev_size = 0, m_change = cb_default\<rparr> = Some n \<and>
     m_prev_size n = 3 \<and> indexes (modifications (m_change n)) = {1, 2}"
proof -
  obtain rel where rel: "find_related_tables chain_columns (Suc (Suc (Suc 0))) [] 0 = Some rel" "has_table rel 0" "links_known chain_columns rel"
    using find_all_related [OF chain_facts(1), of "Suc (Suc (Suc 0))" 0] chain_facts(3) by (auto simp del: find_related_tables.simps)
  then have r: "rel = chain_related" using chain_facts(4) by simp
  have c: "row_changed chain_view chain_related first_row_modified 0 0" "row_changed chain_view chain_related first_row_modified 0 1"
    "\<not> row_changed chain_view chain_related first_row_modified 0 2" using chain_rows by simp_all
  have "length chain_related \<noteq> 1" "current_related chain_columns 3 first_row_modified 0 chain_related = Some chain_related"
    by (simp_all add: chain_related_def current_related_def first_row_modified_def)
  moreover have "{i. i < length [2, 1, 0 :: nat] \<and> row_changed chain_view chain_related first_row_modified 0 ([2, 1, 0] ! i)} = {1, 2}"
    using c by (auto simp: nth_Cons' split: if_splits)
  ultimately show ?thesis
    using list_notifier_marks [OF _ rel(3) [unfolded r] chain_facts(2) rel(2) [unfolded r], of 4 3 first_row_modified chain_related
      "\<lparr>m_prev_size = 0, m_change = cb_default\<rparr>" "[2, 1, 0]"]
    by (auto simp: max_size_ok_def cb_default_def index_set_ok_def crv_ok_def indexes_def flat_def)
qed

text \<open>
  C25.  Every packaged change reaches its callback: whatever callbacks are added and whichever packaged ones are removed
  while callbacks run, before and after the advance each callback that has something to be told is called exactly
  once, in the order of registration, unless it was removed before its turn; and the loop ends.
\<close>

theorem packaged_changes_are_delivered:
  assumes "reachable mx n" "package_for_delivery mx True n = Some (True, n1)" "length (m_callbacks n) \<le> npos"
    and "cs = map core (m_callbacks n1)" "rest = filter (\<lambda>d. fst d \<notin> gone_after due_before user1 {} cs) cs"
    and "removes_packaged due_before user1 (fst ` set cs) {} cs" "removes_packaged due_after user2 (fst ` set rest) {} rest"
  shows "\<exists>n2 n3. before_advance user1 n1 = Some (map handed (deliveries due_before user1 {} cs), n2) \<and>
    after_advance user2 n2 = Some (map handed (deliveries due_after user2 {} rest), n3) \<and>
    m_callback_index n3 = npos \<and> (m_have_callbacks n3 \<longleftrightarrow> m_callbacks n3 \<noteq> [])"
  by (rule package_delivers [OF assms])

theorem packaged_changes_are_delivered_witness:
  "\<exists>n2 n3. before_advance (\<lambda>_. [Op_add]) (two_callbacks\<lparr>m_callback_count := 2\<rparr>) = Some ([], n2) \<and>
     after_advance (\<lambda>u. if u = 0 then [Op_remove 0, Op_add] else [Op_add]) n2 = Some ([(0, cs_default), (1, cs_default)], n3)"
proof -
  let ?u = "\<lambda>u :: nat. if u = 0 then [Op_remove 0, Op_add] else [Op_add]"
  let ?cs = "[(0 :: nat, cs_default, False), (1, cs_default, False)]"
  have r: "reachable 4 two_callbacks" unfolding two_callbacks_def by (intro reachable.intros)
  have e: "cs_empty cs_default" by (simp add: cs_empty_def cs_default_def)
  have c: "?cs = map core (m_callbacks (two_callbacks\<lparr>m_callback_count := 2\<rparr>))" "length (m_callbacks two_callbacks) \<le> npos"
    by (simp_all add: two_callbacks_def add_callback_def notifier_init_def core_def npos_def)
  have "?cs = filter (\<lambda>d. fst d \<notin> gone_after due_before (\<lambda>_. [Op_add]) {} ?cs) ?cs"
    "removes_packaged due_before (\<lambda>_. [Op_add]) (fst ` set ?cs) {} ?cs"
    "removes_packaged due_after ?u (fst ` set ?cs) {} ?cs"
    "map handed (deliveries due_before (\<lambda>_. [Op_add]) {} ?cs) = []"
    "map handed (deliveries due_after ?u {} ?cs) = [(0, cs_default), (1, cs_default)]"
    by (simp_all add: due_before_def due_after_def e handed_def Let_def)
  then show ?thesis
    using packaged_changes_are_delivered [OF r two_packaged c(2,1), of ?cs "\<lambda>_. [Op_add]" ?u] by auto
qed

text \<open>
  C26.  An error reaches every callback that is still registered when its turn comes, also when callbacks remove
  themselves or one another, as long as they remove none that was added during the delivery, and leaves none of those
  registered before it.
\<close>

theorem errors_are_delivered:
  assumes "reachable mx n" "length (m_callbacks n) \<le> npos" "cs = map core (m_callbacks n)"
    "removes_packaged (\<lambda>_. True) (with_own user) (fst ` set cs) {} cs"
  shows "\<exists>n'. deliver_error user n = Some (map hand_error (deliveries (\<lambda>_. True) (with_own user) {} cs), n') \<and>
    packaged n' = [] \<and> m_callback_index n' = npos \<and> (m_have_callbacks n' \<longleftrightarrow> m_callbacks n' \<noteq> [])"
  using error_delivers [OF assms(1,2)] assms(3,4) by simp

theorem errors_are_delivered_witness:
  "\<exists>n'. deliver_error (\<lambda>u. [Op_add, Op_remove u]) two_callbacks = Some ([(0, cs_default), (1, cs_default)], n') \<and> packaged n' = []"
proof -
  let ?u = "\<lambda>u. [Op_add, Op_remove u]"
  let ?cs = "[(0 :: nat, cs_default, False), (1, cs_default, False)]"
  have r: "reachable 4 two_callbacks" unfolding two_callbacks_def by (intro reachable.intros)
  have c: "?cs = map core (m_callbacks two_callbacks)" "length (m_callbacks two_callbacks) \<le> npos"
    by (simp_all add: two_callbacks_def add_callback_def notifier_init_def core_def npos_def)
  have "removes_packaged (\<lambda>_. True) (with_own ?u) (fst ` set ?cs) {} ?cs"
    "map hand_error (deliveries (\<lambda>_. True) (with_own ?u) {} ?cs) = [(0, cs_default), (1, cs_default)]"
    by (simp_all add: with_own_def hand_error_def Let_def)
  then show ?thesis using errors_are_delivered [OF r c(2,1), of ?u] by auto
qed

section \<open>Results of queries\<close>

text \<open>
  C27.  The change calculated for sorted results turns the old sequence of rows into the new one, whatever rows are
  repeated, deleted or moved: without the deleted positions the old sequence is the new one without the inserted
  positions, and of the rows that stay exactly the changed ones are marked.
\<close>

theorem calculate_transforms:
  assumes "max_size_ok mx" "sort_ok srt" "length prev \<le> npos" "answers R S did" "S st"
  shows "\<exists>ret. calculate mx srt prev new did st None = Some ret \<and>
    index_set_ok mx (deletions ret) \<and> index_set_ok mx (insertions ret) \<and> index_set_ok mx (modifications ret) \<and> moves ret = [] \<and>
    indexes (deletions ret) \<subseteq> {..<length prev} \<and> indexes (insertions ret) \<subseteq> {..<length new} \<and>
    keep prev (indexes (deletions ret)) = keep new (indexes (insertions ret)) \<and>
    (\<forall>t < length new. t \<notin> indexes (insertions ret) \<longrightarrow> t \<in> indexes (modifications ret) \<longleftrightarrow> R (new ! t))"
  by (rule calculate_sorted [OF assms])

theorem calculate_transforms_witness:
  "\<exists>ret. calculate 4 sort_key [3, 6, npos, 5, 7, 3] [7, 3, 9, 5, 3] (\<lambda>r s. Some (r = 5, s)) (0 :: nat) None = Some ret \<and>
     keep [3, 6, npos, 5, 7, 3] (indexes (deletions ret)) = keep [7, 3, 9, 5, 3] (indexes (insertions ret)) \<and>
     (3 \<notin> indexes (insertions ret) \<longrightarrow> 3 \<in> indexes (modifications ret))"
proof -
  have "max_size_ok 4" "length [3, 6, npos, 5, 7, 3] \<le> npos" by (simp_all add: max_size_ok_def npos_def)
  from calculate_transforms [of 4 sort_key _ "\<lambda>r. r = 5" "\<lambda>_. True" "\<lambda>r s. Some (r = 5, s)" "0 :: nat" "[7, 3, 9, 5, 3]",
      OF this(1) sort_key_ok this(2) pure_answers TrueI]
  show ?thesis by fastforce
qed

text \<open>
  C28.  The notifier of query results follows its rows through the changes of the table: after any run of insertions,
  \<open>move_last_over\<close> and \<open>swap\<close>, what it reports turns the old results into the new ones, as rows of the table and not
  as numbers, and marks of the rows that stay exactly the changed ones.  With the shorter calculation for results in
  the order of the table this holds if no rows were swapped.
\<close>

theorem results_are_followed:
  assumes "max_size_ok mx" "sort_ok srt" "answers R S did" "S st" "row_ops_ok ops N"
    "m_has_run nt" "length (m_previous_rows nt) \<le> npos" "\<forall>x \<in> set (m_previous_rows nt). x < N"
    "\<forall>x \<in> set next_rows. x < length (fold row_edit ops (map Some [0..<N]))"
    "in_order \<Longrightarrow> list_all no_swap ops \<and> sorted_wrt (<) (m_previous_rows nt) \<and> sorted_wrt (<) next_rows"
  shows "\<exists>n b c nt'. foldM (row_apply mx) ops (N, cb_default) = Some (n, b) \<and> cb_parse_complete mx b = Some c \<and>
    calculate_changes mx srt True in_order did st (Some c) next_rows nt = Some nt' \<and> m_previous_rows nt' = next_rows \<and>
    keep (map Some (m_previous_rows nt)) (indexes (deletions (m_results_change nt'))) =
      keep (map (\<lambda>k. fold row_edit ops (map Some [0..<N]) ! k) next_rows) (indexes (insertions (m_results_change nt'))) \<and>
    (\<forall>t < length next_rows. t \<notin> indexes (insertions (m_results_change nt')) \<longrightarrow>
       t \<in> indexes (modifications (m_results_change nt')) \<longleftrightarrow> R (next_rows ! t))"
  by (rule results_followed [OF assms])

theorem results_are_followed_witness:
  "\<exists>n b c nt'. foldM (row_apply 4) [Add_Rows 2, Move_Last_Over 1] (4, cb_default) = Some (n, b) \<and> cb_parse_complete 4 b = Some c \<and>
    calculate_changes 4 sort_key True True (\<lambda>x s. Some (x = 2, s)) (0 :: nat) (Some c) [0, 1, 2, 4]
      \<lparr>m_has_run = True, m_previous_rows = [0, 1, 3], m_last_seen_version = 0, m_results_change = cb_default\<rparr> = Some nt' \<and>
    keep (map Some [0, 1, 3]) (indexes (deletions (m_results_change nt'))) =
      keep [Some 0, None, Some (2 :: nat), None] (indexes (insertions (m_results_change nt')))"
proof -
  let ?nt = "\<lparr>m_has_run = True, m_previous_rows = [0, 1, 3], m_last_seen_version = 0, m_results_change = cb_default\<rparr>"
  have r: "fold row_edit [Add_Rows 2, Move_Last_Over 1] (map Some [0..<4]) = [Some 0, None, Some 2, Some 3, None :: nat option]"
    by (simp add: upt_rec numeral_2_eq_2)
  have "row_ops_ok [Add_Rows 2, Move_Last_Over 1] 4" "length (m_previous_rows ?nt) \<le> npos" "max_size_ok 4"
    by (simp_all add: npos_def max_size_ok_def)
  note k = this
  have s: "\<forall>x \<in> set (m_previous_rows ?nt). x < 4" "m_has_run ?nt"
    "\<forall>x \<in> set [0, 1, 2, 4]. x < length (fold row_edit [Add_Rows 2, Move_Last_Over 1] (map Some [0..<4]))"
    "list_all no_swap [Add_Rows 2, Move_Last_Over 1] \<and> sorted_wrt (<) (m_previous_rows ?nt) \<and> sorted_wrt (<) [0, 1, 2, 4 :: nat]"
    unfolding r by (simp_all add: no_swap_def)
  have q: "map (\<lambda>k. [Some 0, None, Some 2, Some 3, None :: nat option] ! k) [0, 1, 2, 4] = [Some 0, None, Some 2, None]" by simp
  from results_are_followed [of 4 sort_key "\<lambda>x. x = 2" "\<lambda>_. True" "\<lambda>x s. Some (x = 2, s)" "0 :: nat" _ 4 ?nt "[0, 1, 2, 4]" True,
      OF k(3) sort_key_ok pure_answers TrueI k(1) s(2) k(2) s(1,3,4)]
  show ?thesis unfolding r q results_notifier.simps by (elim exE conjE) (intro exI conjI)
qed

section \<open>Key-value observers\<close>

text \<open>
  C29.  For observers outside the library: after any changes of a table, an observed row is reported as gone exactly if
  it was deleted, and otherwise its columns are those of the place where it is now; a column is marked as assigned
  exactly if it existed before and was modified there.
\<close>

theorem observed_rows_are_followed:
  assumes "row_ok mx N n {} b" "cb_parse_complete mx b = Some c" "os_row_ndx ob < N" "os_changes ob = []"
    "t = new_table_ndx info (os_table_ndx ob)" "t < length (tables info)" "tables info ! t = c"
    "row_change info ob invalidated = (ob', invalidated')"
  shows "((\<forall>k < n. origin b k \<noteq> Some (os_row_ndx ob)) \<longrightarrow> ob' = ob \<and> invalidated' = invalidated @ [os_info ob]) \<and>
    (\<forall>k < n. origin b k = Some (os_row_ndx ob) \<longrightarrow> invalidated' = invalidated \<and>
      (if modified c k then length (os_changes ob') = length (columns c) \<and>
         (\<forall>i < length (columns c). ci_kind (os_changes ob' ! i) =
            (if ci_initial_column_index (os_changes ob' ! i) \<noteq> npos \<and> col_modified c i k then Kind_Set else Kind_None) \<and>
            (t < length (column_indices info) \<longrightarrow> ci_initial_column_index (os_changes ob' ! i) = initial_column_index (column_indices info ! t) i))
       else ob' = ob))"
  using row_change_follows [OF assms(1-3,5-7,4,8)] by blast

theorem observed_rows_are_followed_witness:
  "\<exists>c ob'. cb_parse_complete 4 followed_builder = Some c \<and>
     row_change (first_row_modified\<lparr>tables := [c]\<rparr>) \<lparr>os_table_ndx = 0, os_row_ndx = 0, os_info = 7, os_changes = []\<rparr> [] = (ob', []) \<and>
     length (os_changes ob') = 2"
proof -
  let ?ob = "\<lparr>os_table_ndx = 0, os_row_ndx = 0, os_info = 7, os_changes = []\<rparr>"
  obtain c where c: "cb_parse_complete 4 followed_builder = Some c" "columns c = [[], one_index 4]" "modified c 4"
    using followed_builder_facts(3) by blast
  obtain ob' inv where r: "row_change (first_row_modified\<lparr>tables := [c]\<rparr>) ?ob [] = (ob', inv)" by fastforce
  have t: "0 = new_table_ndx (first_row_modified\<lparr>tables := [c]\<rparr>) (os_table_ndx ?ob)" by (simp add: new_table_ndx_def first_row_modified_def)
  have s: "os_row_ndx ?ob < 5" "os_changes ?ob = []" "0 < length (tables (first_row_modified\<lparr>tables := [c]\<rparr>))"
    "tables (first_row_modified\<lparr>tables := [c]\<rparr>) ! 0 = c" "(4 :: nat) < 5" "origin followed_builder 4 = Some (os_row_ndx ?ob)"
    using followed_builder_facts(2) by simp_all
  have "inv = [] \<and> length (os_changes ob') = 2"
    using observed_rows_are_followed [OF followed_builder_facts(1) c(1) s(1,2) t s(3,4) r, THEN conjunct2, rule_format, OF s(5,6)] c(2,3)
    by (simp only: if_True) simp
  then show ?thesis using c(1) r by auto
qed

text \<open>
  C30.  Key-value observing has no moves.  When one row of a list was moved, the indices reported as assigned are
  exactly those that hold another row than before or a modified one.
\<close>

theorem moved_row_is_assigned:
  assumes "max_size_ok mx" "list_ok mx b" "moves b = [\<lparr>mv_from = f, mv_to = t\<rparr>]" "f \<noteq> t" "f < n" "t < n" "n \<le> npos"
    "indexes (deletions b) = {f}" "indexes (insertions b) = {t}" "indexes (modifications b) \<subseteq> {..<n}"
  shows "\<exists>ch. list_kind mx b initial_size change = Some ch \<and> ci_kind ch = Kind_Set \<and>
    indexes (ci_indices ch) = {k. k < n \<and> (origin b k \<noteq> Some k \<or> modified b k)}"
  by (rule list_kind_move [OF assms])

theorem moved_row_is_assigned_witness:
  "\<exists>ch. list_kind 4 (cb_default\<lparr>deletions := one_index 1, insertions := one_index 3, moves := [\<lparr>mv_from = 1, mv_to = 3\<rparr>]\<rparr>) 5 column_info_default = Some ch \<and>
     ci_kind ch = Kind_Set \<and> indexes (ci_indices ch) = {1, 2, 3}"
proof -
  let ?b = "cb_default\<lparr>deletions := one_index 1, insertions := one_index 3, moves := [\<lparr>mv_from = 1, mv_to = 3\<rparr>]\<rparr>"
  have i: "index_set_ok 4 (one_index x)" "indexes (one_index x) = {x}" for x
    by (auto simp: index_set_ok_def crv_ok_def chunk_ok_def indexes_def flat_def)
  have mx: "max_size_ok 4" by (simp add: max_size_ok_def)
  have ok: "list_ok 4 ?b" using i [of 1] i [of 3] mx by (simp add: list_ok_def cb_ok_def iset_ok_def moves_ok_def cb_default_def)
  have e: "{k. k < 5 \<and> (origin ?b k \<noteq> Some k \<or> modified ?b k)} = {1, 2, 3}"
  proof -
    have "map (\<lambda>k. origin ?b k \<noteq> Some k \<or> modified ?b k) [0, 1, 2, 3, 4] = [False, True, True, True, False]" by code_simp
    moreover have "k < 5 \<longleftrightarrow> k \<in> {0, 1, 2, 3, 4}" for k :: nat by auto
    ultimately show ?thesis by auto
  qed
  have m: "moves ?b = [\<lparr>mv_from = 1, mv_to = 3\<rparr>]" "(1 :: nat) \<noteq> 3" "(1 :: nat) < 5" "(3 :: nat) < 5" "5 \<le> npos"
    by (simp_all add: npos_def)
  have d: "indexes (deletions ?b) = {1}" "indexes (insertions ?b) = {3}" "indexes (modifications ?b) \<subseteq> {..<5}"
    by (auto simp: indexes_def flat_def cb_default_def)
  show ?thesis using moved_row_is_assigned [OF mx ok m d, of 5 column_info_default] unfolding e .
qed

section \<open>Deviations\<close>

text \<open>
  C31.  Past the chunks reserved up front the builder caches a wrong count: with four ranges to a chunk, adding
  \<open>{0, 2, 4, 6}\<close> to \<open>{100, ..., 109}\<close> by \<open>add_shifted_by\<close> leaves a second chunk that claims one index and holds ten.
\<close>

theorem add_shifted_by_count_bug:
  "\<exists>v V v'. index_set_ok 4 v \<and> index_set_ok 4 V \<and> is_add_shifted_by 4 [] V v = Some v' \<and>
     \<not> index_set_ok 4 v' \<and> map c_count v' = [4, 1] \<and> map (\<lambda>c. rcount (c_data c)) v' = [4, 10]"
proof -
  define v where "v = [\<lparr>c_data = [(100, 110)], c_begin = 100, c_end = 110, c_count = 10\<rparr> :: chunk]"
  define V where "V = [\<lparr>c_data = [(0, 1), (2, 3), (4, 5), (6, 7)], c_begin = 0, c_end = 7, c_count = 4\<rparr> :: chunk]"
  define v' where "v' = [\<lparr>c_data = [(0, 1), (2, 3), (4, 5), (6, 7)], c_begin = 0, c_end = 7, c_count = 4\<rparr>,
    \<lparr>c_data = [(100, 110)], c_begin = 100, c_end = 110, c_count = 1\<rparr> :: chunk]"
  have "index_set_ok 4 v" "index_set_ok 4 V"
    by (auto simp: v_def V_def index_set_ok_def crv_ok_def chunk_ok_def flat_def)
  moreover have "is_add_shifted_by 4 [] V v = Some v'" unfolding v_def V_def v'_def by code_simp
  moreover have "\<not> index_set_ok 4 v'"
    by (simp add: v'_def index_set_ok_def crv_ok_def chunk_ok_def)
  moreover have "map c_count v' = [4, 1]" "map (\<lambda>c. rcount (c_data c)) v' = [4, 10]"
    by (simp_all add: v'_def)
  ultimately show ?thesis by (intro exI [of _ v] exI [of _ V] exI [of _ v']) simp
qed

text \<open>
  C32.  \<open>count(start, end)\<close> loses the range cut by \<open>end\<close> when it is the first one of a chunk and the start
  lies inside the chunk before: the branch that counts the rest of the first chunk skips it and returns.
\<close>

theorem count_drops_cut_range:
  "\<exists>v. index_set_ok 4 v \<and> is_count v 1 15 = 3 \<and> card (indexes v \<inter> {1..<15}) = 8"
proof -
  define v where "v = [\<lparr>c_data = [(0, 1), (2, 3), (4, 5), (6, 7)], c_begin = 0, c_end = 7, c_count = 4\<rparr>,
    \<lparr>c_data = [(10, 20)], c_begin = 10, c_end = 20, c_count = 10\<rparr> :: chunk]"
  have "index_set_ok 4 v" by (auto simp: v_def index_set_ok_def crv_ok_def chunk_ok_def flat_def)
  moreover have "is_count v 1 15 = 3" unfolding v_def by code_simp
  moreover have "indexes v \<inter> {1..<15} = {2, 4, 6, 10, 11, 12, 13, 14}"
    by (auto simp: v_def indexes_def flat_def)
  ultimately show ?thesis by (intro exI [of _ v]) simp
qed

text \<open>
  C33.  \<open>set_double\<close> loses the variant: asked for \<open>SetDefault\<close> it writes the instruction of a plain \<open>Set\<close>.
\<close>

theorem set_double_loses_variant:
  assumes "encoder_ok e" "call_ok (Set_double c r v instr_SetDefault)"
    "length (written e) + fields_room (call_fields (Set_double c r v instr_SetDefault)) \<le> size_max"
  shows "\<exists>e'. enc_set_double junk c r v instr_SetDefault e = Some e' \<and>
    written e' = written e @ call_bytes (Set_double c r v instr_Set)"
  by (rule set_double_variant_lost [OF assms])

theorem set_double_loses_variant_witness:
  "\<exists>e'. enc_set_double 0 1 2 [1, 2, 3, 4, 5, 6, 7, 8] instr_SetDefault encoder_init = Some e' \<and>
    written e' = call_bytes (Set_double 1 2 [1, 2, 3, 4, 5, 6, 7, 8] instr_Set)"
proof -
  have "call_ok (Set_double 1 2 [1, 2, 3, 4, 5, 6, 7, 8] instr_SetDefault)" by (simp add: call_facts small_sizes)
  moreover have "length (written encoder_init) + fields_room (call_fields (Set_double 1 2 [1, 2, 3, 4, 5, 6, 7, 8] instr_SetDefault)) \<le> size_max"
    by (simp add: fields_room_def max_size_list_def cell_fields_def max_enc_defs size_max_def)
  ultimately show ?thesis using set_double_loses_variant [OF encoder_init_ok(1), of 1 2 "[1, 2, 3, 4, 5, 6, 7, 8]" 0] by simp
qed

text \<open>
  C34.  Undoing the clearing of a list of two or more links re-inserts them with prior sizes that run backwards: the
  first insertion into the empty list claims a prior size of \<open>n - 1\<close>.
\<close>

theorem reversed_clear_is_inconsistent:
  assumes "2 \<le> n" "in_range t_size n"
  shows "size_after (Link_list_clear n) n = Some 0 \<and> foldM size_after (rev (inverse_calls (Link_list_clear n))) 0 = None"
  by (rule reversed_clear_sizes [OF assms])

theorem reversed_clear_is_inconsistent_witness: "foldM size_after (rev (inverse_calls (Link_list_clear 3))) 0 = None"
  using reversed_clear_is_inconsistent [of 3] small_sizes by simp

text \<open>
  C35.  Moves and swaps of rows are undone; the move of a link is repeated instead, since \<open>link_list_move\<close> does not
  exchange its positions as \<open>move_row\<close> does.
\<close>

theorem link_move_is_not_undone:
  "(\<forall>a b (xs :: 'a list). a < length xs \<longrightarrow> b < length xs \<longrightarrow>
     fold order_after (rev (inverse_calls (Move_row (int a) (int b)))) (order_after (Move_row (int a) (int b)) xs) = xs) \<and>
   (\<forall>x y z :: 'a. fold order_after (rev (inverse_calls (Link_list_move 0 2))) (order_after (Link_list_move 0 2) [x, y, z]) = [z, x, y])"
  using reversed_orders(1) reversed_link_move by blast

theorem link_move_is_not_undone_witness:
  "fold order_after (rev (inverse_calls (Move_row 1 3))) (order_after (Move_row 1 3) [10, 11, 12, 13 :: nat]) = [10, 11, 12, 13] \<and>
   fold order_after (rev (inverse_calls (Link_list_move 0 2))) (order_after (Link_list_move 0 2) [10, 11, 12 :: nat]) \<noteq> [10, 11, 12]"
proof -
  have "fold order_after (rev (inverse_calls (Move_row (int 1) (int 3)))) (order_after (Move_row (int 1) (int 3)) [10, 11, 12, 13 :: nat]) = [10, 11, 12, 13]"
    by (rule link_move_is_not_undone [THEN conjunct1, rule_format]) simp_all
  moreover have "fold order_after (rev (inverse_calls (Link_list_move 0 2))) (order_after (Link_list_move 0 2) [10, 11, 12 :: nat]) = [12, 10, 11]"
    by (rule link_move_is_not_undone [THEN conjunct2, rule_format])
  ultimately show ?thesis by simp
qed

text \<open>
  C36.  Three logs whose last instruction adds a link to an observed list and after which the builder of the list is
  empty: the owner of the list took the place of an erased row, a subtable of the table was cleared, a column was
  inserted into a subtable.
\<close>

theorem observer_loses_lists:
  "loses_list [(0, 0, 0), (0, 1, 0)] 1
     [Select_table 0 [], Erase_rows 0 1 2 True, Select_link_list 0 0 1, Link_list_insert 0 0 0] \<and>
   loses_list [(0, 0, 1)] 0
     [Select_table 0 [(2, 0)], Clear_table 3, Select_table 0 [], Select_link_list 1 0 1, Link_list_insert 0 0 0] \<and>
   loses_list [(0, 0, 1)] 0
     [Select_table 0 [], Select_descriptor [2], Insert_column 0 type_Int [] False, Select_link_list 1 0 1, Link_list_insert 0 0 0]"
  using erased_row_loses subtable_loses subdescriptor_loses by blast

text \<open>
  C37.  Removing a callback that was added during the delivery counts as the removal of a packaged one: of two callbacks
  the second is not called, and with one the count wraps and the loop leaves the vector.
\<close>

theorem removal_drops_delivery:
  "(\<exists>n. after_advance (\<lambda>_. []) (two_callbacks\<lparr>m_callback_count := 2\<rparr>) = Some ([(0, cs_default), (1, cs_default)], n)) \<and>
   (\<exists>n. after_advance (add_and_remove 2) (two_callbacks\<lparr>m_callback_count := 2\<rparr>) = Some ([(0, cs_default)], n)) \<and>
   after_advance (\<lambda>u. [Op_add, Op_remove 1, Op_add, Op_remove 2]) ((snd (add_callback notifier_init))\<lparr>m_callback_count := 1\<rparr>) = None"
  using removal_skips_callback removal_reads_beyond by blast

text \<open>
  C38.  After swaps of rows the shorter calculation reports a wrong change: the rows 1 and 2 of the old results stay, in the
  order 1, 2 in the old and 2, 1 in the new results.
\<close>

theorem swap_loses_order:
  "\<exists>n b c nt'. foldM (row_apply 4) [Swap 0 4, Swap 1 3] (5, cb_default) = Some (n, b) \<and> cb_parse_complete 4 b = Some c \<and>
    calculate_changes 4 sort_key True True (\<lambda>_ st. Some (False, st)) (0 :: nat) (Some c) [2, 3, 4]
      \<lparr>m_has_run = True, m_previous_rows = [0, 1, 2], m_last_seen_version = 0, m_results_change = cb_default\<rparr> = Some nt' \<and>
    keep (map Some [0, 1, 2]) (indexes (deletions (m_results_change nt'))) = [Some 1, Some (2 :: nat)] \<and>
    keep (map (\<lambda>k. fold row_edit [Swap 0 4, Swap 1 3] (map Some [0..<5]) ! k) [2, 3, 4])
      (indexes (insertions (m_results_change nt'))) = [Some 2, Some 1]"
proof -
  let ?nt = "\<lparr>m_has_run = True, m_previous_rows = [0, 1, 2], m_last_seen_version = 0, m_results_change = cb_default\<rparr>"
  let ?ch = "cb_default\<lparr>insertions := one_index 2, moves := [\<lparr>mv_from = 0, mv_to = 2\<rparr>], deletions := one_index 0\<rparr>"
  let ?c = "cb_default\<lparr>deletions := swapped, insertions := swapped, moves := map (\<lambda>i. \<lparr>mv_from = i, mv_to = 4 - i\<rparr>) [0, 1, 3, 4]\<rparr>"
  have "calculate_changes 4 sort_key True True (\<lambda>_ st. Some (False, st)) (0 :: nat) (Some ?c) [2, 3, 4] ?nt =
      Some (?nt\<lparr>m_results_change := ?ch, m_previous_rows := [2, 3, 4]\<rparr>)"
    unfolding calculate_changes_def by (simp only: Let_def option.case results_notifier.select_convs swapped_rows_found
      change_builder.select_convs change_builder.update_convs if_True swapped_calculate simp_thms) (simp add: swapped_calculate cb_default_def)
  moreover have "indexes (deletions ?ch) = {0}" "indexes (insertions ?ch) = {2}" by (auto simp: indexes_def flat_def)
  moreover have "keep (map Some [0, 1, 2]) {0} = [Some 1, Some (2 :: nat)]" by (simp add: keep_def upt_rec)
  moreover have "keep (map (\<lambda>k. fold row_edit [Swap 0 4, Swap 1 3] (map Some [0..<5]) ! k) [2, 3, 4]) {2} = [Some 2, Some (1 :: nat)]"
    by (simp add: keep_def upt_rec)
  ultimately show ?thesis using swaps_run swaps_complete
    by - (rule exI [of _ 5], rule exI [of _ after_swaps], rule exI [of _ ?c],
      rule exI [of _ "?nt\<lparr>m_results_change := ?ch, m_previous_rows := [2, 3, 4]\<rparr>"], simp only: results_notifier.simps simp_thms)
qed

text \<open>
  C39.  The search for common blocks passes over some: to the right of a block it compares the position in the first
  sequence with the end of the second one, and here row 4, which could stay, is deleted and inserted.
\<close>

theorem search_skips_block:
  "find_longest_matches [] skipped_a skipped_b 0 9 0 9 =
     Some [\<lparr>mt_i = 2, mt_j = 0, mt_size = 1, mt_modified = 0\<rparr>, \<lparr>mt_i = 6, mt_j = 2, mt_size = 3, mt_modified = npos\<rparr>] \<and>
   chain skipped_a [2, 4, 6, 7, 8, 0, 1, 3, 5] 0 0 [\<lparr>mt_i = 2, mt_j = 0, mt_size = 1, mt_modified = 0\<rparr>,
     \<lparr>mt_i = 4, mt_j = 1, mt_size = 1, mt_modified = 0\<rparr>, \<lparr>mt_i = 6, mt_j = 2, mt_size = 3, mt_modified = npos\<rparr>] 9 9"
proof
  have "find_longest_matches [] skipped_a skipped_b 0 6 0 2 = Some [\<lparr>mt_i = 2, mt_j = 0, mt_size = 1, mt_modified = 0\<rparr>]"
    by (subst find_longest_matches.simps) (simp add: left_block)
  then show "find_longest_matches [] skipped_a skipped_b 0 9 0 9 =
      Some [\<lparr>mt_i = 2, mt_j = 0, mt_size = 1, mt_modified = 0\<rparr>, \<lparr>mt_i = 6, mt_j = 2, mt_size = 3, mt_modified = npos\<rparr>]"
    by (subst find_longest_matches.simps) (simp add: first_block)
qed (simp add: same_block_def skipped_a_def less_Suc_eq numeral_3_eq_3)

text \<open>
  C40.  With two moves this fails: the rows 3 and 10 of a list are moved to the front, by operations of the list, and the
  rows 4 to 9, each of which is another one now, are not reported.
\<close>

theorem moved_rows_are_missed:
  "foldM (list_apply 4) [Move 3 0, Move 10 1] cb_default = Some two_moves \<and>
   (\<exists>change. list_kind 4 two_moves 12 column_info_default = Some change \<and> ci_kind change = Kind_Set \<and>
     indexes (ci_indices change) = {0, 1, 2, 3, 10}) \<and>
   {k. k < 12 \<and> origin two_moves k \<noteq> Some k} = {0..10}"
proof -
  have "origin two_moves k = Some ([3, 10, 0, 1, 2, 4, 5, 6, 7, 8, 9, 11] ! k)" if "k < 12" for k
  proof -
    have "map Some [3, 10, 0, 1, 2, 4, 5, 6, 7, 8, 9, 11] ! k = Some ([3, 10, 0, 1, 2, 4, 5, 6, 7, 8, 9, 11 :: nat] ! k)"
      using that by (intro nth_map) simp
    moreover have "map (origin two_moves) [0..<12] ! k = origin two_moves k" using that by simp
    ultimately show ?thesis unfolding two_moves_origin by simp
  qed
  moreover have "k \<in> {0..10} \<longleftrightarrow> k < 12 \<and> [3, 10, 0, 1, 2, 4, 5, 6, 7, 8, 9, 11] ! k \<noteq> k" for k :: nat
    by (cases "k < 12") (auto simp: numeral_eq_Suc less_Suc_eq le_Suc_eq)
  ultimately have "{k. k < 12 \<and> origin two_moves k \<noteq> Some k} = {0..10}" by (intro set_eqI) (simp, metis option.inject)
  moreover have "indexes [\<lparr>c_data = [(0, 4), (10, 11)], c_begin = 0, c_end = 11, c_count = 5\<rparr>] = {0, 1, 2, 3, 10}"
    by (auto simp: indexes_def flat_def)
  ultimately show ?thesis using two_moves_made two_moves_kind [of 12 column_info_default] by simp
qed

end
